(* ===== verification/Grid_Prelude.thy ===== *)
theory Grid_Prelude
  imports Main "HOL-Library.Monad_Syntax"
begin

text \<open>
  The shared vocabulary of the development.

  A Rust operation that may panic or that relies on \<open>unsafe\<close> code is a function into
  \<open>'a option\<close>: \<open>None\<close> is a panic or undefined behaviour (an out-of-range index, an
  \<open>unwrap\<close> of nothing, an \<open>unwrap_unchecked\<close> or a raw pointer that points nowhere), and
  \<open>Some\<close> is a normal return. A theorem \<open>f s = Some r\<close> therefore also says that the code
  neither panics nor leaves defined behaviour. The option monad is written with the
  \<open>do\<close> notation of the library.

  This theory holds the parts of the Rust standard library that several components use
  (\<open>Vec::swap_remove\<close>, \<open>Iterator::position\<close>, \<open>Option\<close> flattening, wrapping \<open>usize\<close>
  subtraction) and the generic list lemmas about them.
\<close>

named_theorems grid_defs "definitions unfolded together when an operation is opened"

subsection \<open>Integers\<close>

type_synonym usize = nat

text \<open>
  The binaries are built with \<open>cargo build --release\<close>, where integer overflow wraps. The width
  of \<open>usize\<close> is 64 bits. \<open>usize_sub\<close> is the wrapping subtraction of two values in range, \<open>usize_add\<close> the wrapping addition.
\<close>

text \<open>The value of a number at a machine width, and whether a number fits one. The equations for
  execution go through binary integers.\<close>

definition wrap :: "nat \<Rightarrow> nat \<Rightarrow> nat" where
  "wrap w n = n mod 2 ^ w"

definition fits :: "nat \<Rightarrow> nat \<Rightarrow> bool" where
  "fits w n \<longleftrightarrow> n < 2 ^ w"

lemma wrap_code [code]: "wrap w n = nat (int n mod 2 ^ w)"
  by (simp add: wrap_def nat_mod_distrib nat_power_eq)

lemma fits_code [code]: "fits w n \<longleftrightarrow> int n < 2 ^ w"
  by (metis fits_def of_nat_less_iff of_nat_numeral of_nat_power)

lemma wrap_fits [simp]: "fits w n \<Longrightarrow> wrap w n = n"
  by (simp add: wrap_def fits_def)

definition usize_sub :: "usize \<Rightarrow> usize \<Rightarrow> usize" where
  "usize_sub a b = (if b \<le> a then a - b else 2 ^ 64 + a - b)"

definition usize_add :: "usize \<Rightarrow> usize \<Rightarrow> usize" where
  "usize_add a b = wrap 64 (a + b)"

definition usize_max :: usize where
  "usize_max = 2 ^ 64 - 1"

lemma usize_sub_le [simp]: "b \<le> a \<Longrightarrow> usize_sub a b = a - b"
  by (simp add: usize_sub_def)

lemma usize_add_small [simp]: "a + b \<le> usize_max \<Longrightarrow> usize_add a b = a + b"
  by (simp add: usize_add_def usize_max_def fits_def)

lemma usize_sub_wraps: "a < b \<Longrightarrow> b \<le> usize_max \<Longrightarrow> usize_sub a b + b = 2 ^ 64 + a"
  by (simp add: usize_sub_def usize_max_def)

subsection \<open>Vectors\<close>

text \<open>\<open>Vec::get\<close>: \<open>None\<close> out of range.\<close>

definition vec_get :: "'a list \<Rightarrow> nat \<Rightarrow> 'a option" where
  "vec_get xs i = (if i < length xs then Some (xs ! i) else None)"

text \<open>\<open>Vec::swap_remove\<close>: the removed element and the vector with its last element moved into
  the gap; out of range panics.\<close>

definition vec_swap_remove :: "'a list \<Rightarrow> nat \<Rightarrow> ('a \<times> 'a list) option" where
  "vec_swap_remove xs i =
     (if i < length xs then Some (xs ! i, butlast (xs[i := last xs])) else None)"

text \<open>\<open>Iterator::position\<close>: the index of the first element that satisfies the predicate.\<close>

fun position :: "('a \<Rightarrow> bool) \<Rightarrow> 'a list \<Rightarrow> nat option" where
  "position P [] = None"
| "position P (x # xs) = (if P x then Some 0 else map_option Suc (position P xs))"

text \<open>\<open>Iterator::rposition\<close>: the index of the last element that satisfies the predicate.\<close>

fun rposition :: "('a \<Rightarrow> bool) \<Rightarrow> 'a list \<Rightarrow> nat option" where
  "rposition P [] = None"
| "rposition P (x # xs) =
     (case rposition P xs of Some i \<Rightarrow> Some (Suc i) | None \<Rightarrow> (if P x then Some 0 else None))"

text \<open>\<open>Iterator::flatten\<close> over options: the values present, in order.\<close>

definition flatten_opt :: "'a option list \<Rightarrow> 'a list" where
  "flatten_opt xs = List.map_filter (\<lambda>x. x) xs"

text \<open>Exchanging two cells of a vector.\<close>

definition list_swap :: "'a list \<Rightarrow> nat \<Rightarrow> nat \<Rightarrow> 'a list" where
  "list_swap xs i j = xs[i := xs ! j, j := xs ! i]"

subsection \<open>Lemmas\<close>

lemma vec_get_Some_iff [simp]: "vec_get xs i = Some x \<longleftrightarrow> i < length xs \<and> xs ! i = x"
  by (auto simp: vec_get_def)

lemma vec_get_None_iff [simp]: "vec_get xs i = None \<longleftrightarrow> length xs \<le> i"
  by (auto simp: vec_get_def)

lemma position_Some_iff:
  "position P xs = Some i \<longleftrightarrow> i < length xs \<and> P (xs ! i) \<and> (\<forall>j<i. \<not> P (xs ! j))"
proof (induction xs arbitrary: i)
  case Nil
  then show ?case by simp
next
  case (Cons x xs)
  show ?case
    by (cases i) (auto simp: Cons.IH All_less_Suc2 split: if_splits)
qed

lemma position_None_iff: "position P xs = None \<longleftrightarrow> (\<forall>x \<in> set xs. \<not> P x)"
  by (induction xs) auto

lemma rposition_None_iff: "rposition P xs = None \<longleftrightarrow> (\<forall>k<length xs. \<not> P (xs ! k))"
  by (induction xs) (auto simp: All_less_Suc2 split: option.splits)

lemma rposition_Some_iff:
  "rposition P xs = Some i \<longleftrightarrow>
     i < length xs \<and> P (xs ! i) \<and> (\<forall>j. i < j \<longrightarrow> j < length xs \<longrightarrow> \<not> P (xs ! j))"
proof (induction xs arbitrary: i)
  case Nil
  then show ?case by simp
next
  case (Cons x xs)
  show ?case
  proof (cases "rposition P xs")
    case None
    then show ?thesis
      using rposition_None_iff[of P xs] by (cases i) (auto simp: All_less_Suc2 nth_Cons split: nat.splits)
  next
    case (Some k)
    then have k: "k < length xs" "P (xs ! k)" "\<And>j. k < j \<Longrightarrow> j < length xs \<Longrightarrow> \<not> P (xs ! j)"
      using Cons.IH by auto
    show ?thesis
      using Some k Cons.IH[of "i - 1"]
      by (cases i) (auto simp: nth_Cons split: nat.splits)
  qed
qed

lemma length_list_swap [simp]: "length (list_swap xs i j) = length xs"
  by (simp add: list_swap_def)

lemma nth_list_swap:
  "i < length xs \<Longrightarrow> j < length xs \<Longrightarrow> k < length xs \<Longrightarrow>
   list_swap xs i j ! k = (if k = j then xs ! i else if k = i then xs ! j else xs ! k)"
  by (auto simp: list_swap_def nth_list_update)

lemma set_list_swap [simp]:
  "i < length xs \<Longrightarrow> j < length xs \<Longrightarrow> set (list_swap xs i j) = set xs"
  by (simp add: list_swap_def)

lemma distinct_list_swap [simp]:
  "i < length xs \<Longrightarrow> j < length xs \<Longrightarrow> distinct (list_swap xs i j) = distinct xs"
  by (simp add: list_swap_def)

lemma length_butlast_update [simp]: "length (butlast (xs[i := x])) = length xs - 1"
  by simp

lemma vec_swap_remove_Some:
  "i < length xs \<Longrightarrow> vec_swap_remove xs i = Some (xs ! i, butlast (xs[i := last xs]))"
  by (simp add: vec_swap_remove_def)

lemma nth_swap_removed:
  "k < length xs - 1 \<Longrightarrow> i < length xs \<Longrightarrow>
   butlast (xs[i := last xs]) ! k = (if k = i then last xs else xs ! k)"
  by (simp add: nth_butlast nth_list_update)

text \<open>Without repetition, a swap-removal deletes exactly the removed element.\<close>

lemma distinct_swap_removed:
  assumes "distinct xs" "i < length xs"
  shows "distinct (butlast (xs[i := last xs]))" (is ?d)
    and "set (butlast (xs[i := last xs])) = set xs - {xs ! i}" (is ?s)
proof -
  let ?ys = "butlast (xs[i := last xs])"
  have len: "length ?ys = length xs - 1" by simp
  have nth: "\<And>k. k < length xs - 1 \<Longrightarrow> ?ys ! k = (if k = i then xs ! (length xs - 1) else xs ! k)"
    using assms(2) nth_swap_removed[OF _ assms(2)] last_conv_nth[of xs] by force
  have inj: "\<And>a b. a < length xs \<Longrightarrow> b < length xs \<Longrightarrow> (xs ! a = xs ! b) = (a = b)"
    using assms(1) by (simp add: nth_eq_iff_index_eq)
  show ?d
    unfolding distinct_conv_nth len by (auto simp: nth inj)
  show ?s
  proof (rule set_eqI)
    fix x
    show "x \<in> set ?ys \<longleftrightarrow> x \<in> set xs - {xs ! i}"
    proof
      assume "x \<in> set ?ys"
      then obtain k where k: "k < length xs - 1" "x = ?ys ! k" by (metis in_set_conv_nth len)
      then show "x \<in> set xs - {xs ! i}"
        using assms(2) by (auto simp: nth inj)
    next
      assume "x \<in> set xs - {xs ! i}"
      then obtain k where k: "k < length xs" "x = xs ! k" "k \<noteq> i"
        by (metis Diff_iff in_set_conv_nth insertI1)
      show "x \<in> set ?ys"
      proof (cases "k = length xs - 1")
        case True
        then have "i < length xs - 1" using k assms(2) by linarith
        then show ?thesis using nth[of i] k True len by (metis nth_mem)
      next
        case False
        then show ?thesis using nth[of k] k len by (metis Suc_pred' assms(2) gr_implies_not0
          less_antisym linorder_neqE_nat nth_mem)
      qed
    qed
  qed
qed

lemma flatten_opt_simps [simp]:
  "flatten_opt [] = []"
  "flatten_opt (None # xs) = flatten_opt xs"
  "flatten_opt (Some x # xs) = x # flatten_opt xs"
  by (simp_all add: flatten_opt_def)

lemma flatten_opt_append [simp]: "flatten_opt (xs @ ys) = flatten_opt xs @ flatten_opt ys"
  by (induction xs) (auto split: option.splits simp: flatten_opt_def)

lemma set_flatten_opt: "set (flatten_opt xs) = {x. Some x \<in> set xs}"
  by (induction xs) (auto simp: flatten_opt_def split: option.splits)

text \<open>The number of occupied cells of a vector of options, and how one write changes it.\<close>

fun occupied :: "'a option list \<Rightarrow> nat" where
  "occupied [] = 0"
| "occupied (None # xs) = occupied xs"
| "occupied (Some x # xs) = Suc (occupied xs)"

lemma length_flatten_opt [simp]: "length (flatten_opt xs) = occupied xs"
  by (induction xs rule: occupied.induct) auto

lemma occupied_append [simp]: "occupied (xs @ ys) = occupied xs + occupied ys"
  by (induction xs rule: occupied.induct) auto

lemma occupied_replicate_None [simp]: "occupied (replicate k None) = 0"
  by (induction k) auto

lemma occupied_update_Some:
  "i < length xs \<Longrightarrow> occupied (xs[i := Some y]) = (if xs ! i = None then Suc (occupied xs) else occupied xs)"
  by (induction xs arbitrary: i rule: occupied.induct) (auto split: nat.splits)

lemma occupied_pos: "i < length xs \<Longrightarrow> xs ! i \<noteq> None \<Longrightarrow> 0 < occupied xs"
  by (induction xs arbitrary: i rule: occupied.induct) (auto simp: nth_Cons split: nat.splits)

lemma occupied_update_None:
  "i < length xs \<Longrightarrow> occupied (xs[i := None]) = (if xs ! i = None then occupied xs else occupied xs - 1)"
  by (induction xs arbitrary: i rule: occupied.induct) (auto split: nat.splits dest: occupied_pos)

lemma occupied_eq_0_iff: "occupied xs = 0 \<longleftrightarrow> (\<forall>i<length xs. xs ! i = None)"
  by (induction xs rule: occupied.induct) (auto simp: All_less_Suc2)

lemma occupied_eq_card: "occupied xs = card {i. i < length xs \<and> xs ! i \<noteq> None}"
proof (induction xs rule: rev_induct)
  case Nil
  then show ?case by simp
next
  case (snoc x xs)
  have "{i. i < length (xs @ [x]) \<and> (xs @ [x]) ! i \<noteq> None} =
        {i. i < length xs \<and> xs ! i \<noteq> None} \<union> (if x = None then {} else {length xs})"
    by (auto simp: nth_append less_Suc_eq)
  then show ?case
    using snoc by (cases x) (auto simp: card_insert_if)
qed

text \<open>An optional value that is seen to be one by evaluation.\<close>

lemma some_by_eval:
  assumes "\<not> Option.is_none x"
  obtains y where "x = Some y"
  using assms by (cases x) auto

end
