(* ===== verification/Container_Specs.thy ===== *)
theory Container_Specs
  imports Grid_Prelude
begin

text \<open>
  The contracts of the containers, as locales. A component that keeps its state in one of the
  containers of \<open>shared/src/utils\<close> relies on these laws and on nothing else of the
  implementation; each container's theory interprets the locale on its model.

  Every operation is a function into \<open>option\<close>, \<open>None\<close> being a panic or undefined behaviour,
  so the laws also promise that the operation returns.
\<close>

section \<open>Maps keyed by machine integers\<close>

text \<open>\<open>amap\<close> is the abstraction of a concrete map to a partial function. \<open>insert\<close> and
  \<open>remove\<close> return the old value, as in Rust.\<close>

locale usize_map =
  fixes inv :: "'m \<Rightarrow> bool"
    and amap :: "'m \<Rightarrow> nat \<Rightarrow> 'v option"
    and new :: "'m"
    and get :: "'m \<Rightarrow> nat \<Rightarrow> 'v option option"
    and insert :: "'m \<Rightarrow> nat \<Rightarrow> 'v \<Rightarrow> ('v option \<times> 'm) option"
    and remove :: "'m \<Rightarrow> nat \<Rightarrow> ('v option \<times> 'm) option"
    and len :: "'m \<Rightarrow> nat"
  assumes new_inv: "inv new"
    and new_amap: "amap new = Map.empty"
    and get_law: "inv m \<Longrightarrow> get m k = Some (amap m k)"
    and insert_law: "inv m \<Longrightarrow>
      \<exists>m'. insert m k v = Some (amap m k, m') \<and> inv m' \<and> amap m' = (amap m)(k \<mapsto> v)"
    and remove_law: "inv m \<Longrightarrow>
      \<exists>m'. remove m k = Some (amap m k, m') \<and> inv m' \<and> amap m' = (amap m)(k := None)"
    and fin_law: "inv m \<Longrightarrow> finite (dom (amap m))"
    and len_law: "inv m \<Longrightarrow> len m = card (dom (amap m))"

text \<open>Sequences of operations on a map, concretely (over the two operations) and abstractly.\<close>

datatype 'v map_op = Map_Insert nat 'v | Map_Remove nat

fun run_map_ops ::
  "('m \<Rightarrow> nat \<Rightarrow> 'v \<Rightarrow> ('v option \<times> 'm) option) \<Rightarrow> ('m \<Rightarrow> nat \<Rightarrow> ('v option \<times> 'm) option) \<Rightarrow>
   'v map_op list \<Rightarrow> 'm \<Rightarrow> ('v option list \<times> 'm) option" where
  "run_map_ops ins rem [] m = Some ([], m)"
| "run_map_ops ins rem (Map_Insert k v # ops) m =
     do { (r, m') \<leftarrow> ins m k v; (rs, m'') \<leftarrow> run_map_ops ins rem ops m'; Some (r # rs, m'') }"
| "run_map_ops ins rem (Map_Remove k # ops) m =
     do { (r, m') \<leftarrow> rem m k; (rs, m'') \<leftarrow> run_map_ops ins rem ops m'; Some (r # rs, m'') }"

fun run_abs_ops :: "'v map_op list \<Rightarrow> (nat \<Rightarrow> 'v option) \<Rightarrow> 'v option list \<times> (nat \<Rightarrow> 'v option)" where
  "run_abs_ops [] f = ([], f)"
| "run_abs_ops (Map_Insert k v # ops) f =
     (let (rs, f') = run_abs_ops ops (f(k \<mapsto> v)) in (f k # rs, f'))"
| "run_abs_ops (Map_Remove k # ops) f =
     (let (rs, f') = run_abs_ops ops (f(k := None)) in (f k # rs, f'))"

context usize_map
begin

lemma insert_get:
  assumes "inv m" "insert m k v = Some (r, m')"
  shows "get m' j = Some (if j = k then Some v else amap m j)"
  using insert_law[OF assms(1), of k v] assms(2) get_law by fastforce

lemma remove_get:
  assumes "inv m" "remove m k = Some (r, m')"
  shows "get m' j = Some (if j = k then None else amap m j)"
  using remove_law[OF assms(1), of k] assms(2) get_law by fastforce

lemma insert_len:
  assumes "inv m" "insert m k v = Some (r, m')"
  shows "len m' = (if r = None then Suc (len m) else len m)"
proof -
  from insert_law[OF assms(1), of k v] assms(2)
  have m': "r = amap m k" "inv m'" "amap m' = (amap m)(k \<mapsto> v)" by auto
  then show ?thesis
    using len_law fin_law assms(1)
    by (cases "amap m k") (auto simp: card_insert_if domI domIff insert_absorb)
qed

lemma remove_len:
  assumes "inv m" "remove m k = Some (r, m')"
  shows "len m = (if r = None then len m' else Suc (len m'))"
proof -
  from remove_law[OF assms(1), of k] assms(2)
  have m': "r = amap m k" "inv m'" "amap m' = (amap m)(k := None)" by auto
  have "r = None \<Longrightarrow> dom (amap m) - {k} = dom (amap m)"
    using m' by auto
  moreover have "r \<noteq> None \<Longrightarrow> k \<in> dom (amap m)"
    using m' by auto
  ultimately show ?thesis
    using len_law fin_law assms(1) m' by (auto simp: card_Suc_Diff1 simp del: card_Diff_insert)
qed

text \<open>A fresh key inserted and removed again leaves the map it started from.\<close>

lemma insert_remove_fresh:
  assumes "inv m" "amap m k = None"
    and "insert m k v = Some (r, m1)" "remove m1 k = Some (r', m2)"
  shows "r = None \<and> r' = Some v \<and> inv m2 \<and> amap m2 = amap m"
proof -
  from insert_law[OF assms(1), of k v] assms(2,3)
  have m1: "r = None" "inv m1" "amap m1 = (amap m)(k \<mapsto> v)" by auto
  from remove_law[OF m1(2), of k] assms(4)
  have "r' = amap m1 k" "inv m2" "amap m2 = (amap m1)(k := None)" by auto
  with m1 assms(2) show ?thesis by (auto simp: fun_upd_idem)
qed

text \<open>Every sequence of operations returns, with the answers and the contents of the abstract
  map: the container refines the mathematical partial function.\<close>

lemma run_refines:
  assumes "inv m"
  shows "\<exists>m'. run_map_ops insert remove ops m = Some (fst (run_abs_ops ops (amap m)), m') \<and>
    inv m' \<and> amap m' = snd (run_abs_ops ops (amap m))"
  using assms
proof (induction ops arbitrary: m)
  case Nil
  then show ?case by simp
next
  case (Cons x ops)
  show ?case
  proof (cases x)
    case (Map_Insert k v)
    from insert_law[OF Cons.prems, of k v] obtain m1
      where m1: "insert m k v = Some (amap m k, m1)" "inv m1" "amap m1 = (amap m)(k \<mapsto> v)" by blast
    from Cons.IH[OF m1(2)] show ?thesis
      by (auto simp add: Map_Insert m1(1) Let_def case_prod_beta simp flip: m1(3))
  next
    case (Map_Remove k)
    from remove_law[OF Cons.prems, of k] obtain m1
      where m1: "remove m k = Some (amap m k, m1)" "inv m1" "amap m1 = (amap m)(k := None)" by blast
    from Cons.IH[OF m1(2)] show ?thesis
      by (auto simp add: Map_Remove m1(1) Let_def case_prod_beta simp flip: m1(3))
  qed
qed

lemma run_from_new:
  "\<exists>m'. run_map_ops insert remove ops new = Some (fst (run_abs_ops ops Map.empty), m') \<and>
    inv m' \<and> amap m' = snd (run_abs_ops ops Map.empty) \<and>
    len m' = card (dom (snd (run_abs_ops ops Map.empty)))"
  using run_refines[OF new_inv, of ops] len_law by (auto simp: new_amap)

end

section \<open>Sets of machine integers\<close>

text \<open>\<open>insert\<close> and \<open>remove\<close> answer a flag. The flag of \<open>remove\<close> says whether the element was
  present; the two implementations disagree on the flag of \<open>insert\<close>, so the contract leaves
  it open.\<close>

locale usize_set =
  fixes inv :: "'s \<Rightarrow> bool"
    and aset :: "'s \<Rightarrow> nat set"
    and new :: "'s"
    and contains :: "'s \<Rightarrow> nat \<Rightarrow> bool option"
    and insert :: "'s \<Rightarrow> nat \<Rightarrow> (bool \<times> 's) option"
    and remove :: "'s \<Rightarrow> nat \<Rightarrow> (bool \<times> 's) option"
    and len :: "'s \<Rightarrow> nat"
  assumes new_inv: "inv new"
    and new_aset: "aset new = {}"
    and contains_law: "inv s \<Longrightarrow> contains s k = Some (k \<in> aset s)"
    and insert_law: "inv s \<Longrightarrow>
      \<exists>r s'. insert s k = Some (r, s') \<and> inv s' \<and> aset s' = Set.insert k (aset s)"
    and remove_law: "inv s \<Longrightarrow>
      \<exists>s'. remove s k = Some (k \<in> aset s, s') \<and> inv s' \<and> aset s' = aset s - {k}"
    and fin_law: "inv s \<Longrightarrow> finite (aset s)"
    and len_law: "inv s \<Longrightarrow> len s = card (aset s)"

text \<open>Inserting a list of elements one after the other, and removing one.\<close>

fun set_insert_all :: "('s \<Rightarrow> nat \<Rightarrow> (bool \<times> 's) option) \<Rightarrow> nat list \<Rightarrow> 's \<Rightarrow> 's option" where
  "set_insert_all ins [] s = Some s"
| "set_insert_all ins (k # ks) s = do { (r, s') \<leftarrow> ins s k; set_insert_all ins ks s' }"

fun set_remove_all :: "('s \<Rightarrow> nat \<Rightarrow> (bool \<times> 's) option) \<Rightarrow> nat list \<Rightarrow> 's \<Rightarrow> 's option" where
  "set_remove_all rem [] s = Some s"
| "set_remove_all rem (k # ks) s = do { (r, s') \<leftarrow> rem s k; set_remove_all rem ks s' }"

context usize_set
begin

lemma insert_all_spec:
  "inv s \<Longrightarrow> \<exists>s'. set_insert_all insert ks s = Some s' \<and> inv s' \<and> aset s' = aset s \<union> set ks"
proof (induction ks arbitrary: s)
  case Nil
  then show ?case by simp
next
  case (Cons k ks)
  from insert_law[OF Cons.prems, of k] obtain r s1
    where "insert s k = Some (r, s1)" "inv s1" "aset s1 = Set.insert k (aset s)" by blast
  with Cons.IH[of s1] show ?case by auto
qed

lemma remove_all_spec:
  "inv s \<Longrightarrow> \<exists>s'. set_remove_all remove ks s = Some s' \<and> inv s' \<and> aset s' = aset s - set ks"
proof (induction ks arbitrary: s)
  case Nil
  then show ?case by simp
next
  case (Cons k ks)
  from remove_law[OF Cons.prems, of k] obtain s1
    where "remove s k = Some (k \<in> aset s, s1)" "inv s1" "aset s1 = aset s - {k}" by blast
  with Cons.IH[of s1] show ?case by auto
qed

lemma insert_len:
  assumes "inv s" "insert s k = Some (r, s')"
  shows "len s' = (if k \<in> aset s then len s else Suc (len s))"
  using insert_law[OF assms(1), of k] assms(2) len_law[OF assms(1)] len_law[of s'] fin_law[OF assms(1)]
  by (auto simp: insert_absorb)

lemma remove_len:
  assumes "inv s" "remove s k = Some (r, s')"
  shows "len s = (if k \<in> aset s then Suc (len s') else len s')"
proof -
  from remove_law[OF assms(1), of k] assms(2) have "inv s'" "aset s' = aset s - {k}" by auto
  then show ?thesis
    using len_law[of s] len_law[of s'] fin_law[OF assms(1)] assms(1)
    by (auto simp: card_Suc_Diff1 simp del: card_Diff_insert)
qed

text \<open>A worklist: elements inserted and then all removed leave the set empty, and the length
  counts them down.\<close>

lemma insert_remove_all:
  "\<exists>s s'. set_insert_all insert ks new = Some s \<and> len s = card (set ks) \<and>
    set_remove_all remove ks s = Some s' \<and> len s' = 0"
proof -
  from insert_all_spec[OF new_inv, of ks] obtain s where
    s: "set_insert_all insert ks new = Some s" "inv s" "aset s = set ks" by (auto simp: new_aset)
  from remove_all_spec[OF s(2), of ks] obtain s' where
    s': "set_remove_all remove ks s = Some s'" "inv s'" "aset s' = {}" using s(3) by auto
  show ?thesis using s s' len_law[of s] len_law[of s'] by auto
qed

end

end
