(* ===== verification/Bit_Set.thy ===== *)
theory Bit_Set
  imports Container_Specs "HOL-Library.Word"
begin

text \<open>
  \<open>BitSet\<close> of \<open>shared/src/utils/bit_set.rs\<close>: a set of small integers kept as a vector or an array
  of 64-bit words with a cached length. The single-bit operations are those of the crate
  \<open>bitset_core\<close>, which is not part of the repository: they are the argument \<open>B\<close> of the
  definitions, a record of the functions the code calls, and the locale \<open>bitset_core_laws\<close>
  states what their documentation promises (bit \<open>i\<close> is bit \<open>i mod 64\<close> of word \<open>i div 64\<close>; an
  index past the last word panics). \<open>Some\<close> is a normal return, \<open>None\<close> a panic.
\<close>

type_synonym u64 = "64 word"

section \<open>The operations of the crate bitset_core\<close>

record bitset_core =
  bc_test :: "u64 list \<Rightarrow> nat \<Rightarrow> bool option"
  bc_set :: "u64 list \<Rightarrow> nat \<Rightarrow> u64 list option"
  bc_reset :: "u64 list \<Rightarrow> nat \<Rightarrow> u64 list option"
  bc_count :: "u64 list \<Rightarrow> nat"
  bc_any :: "u64 list \<Rightarrow> bool"
  bc_init :: "u64 list \<Rightarrow> bool \<Rightarrow> u64 list"

text \<open>The elements a vector of words stands for.\<close>

definition bits_of :: "u64 list \<Rightarrow> nat set" where
  "bits_of w = {i. i < 64 * length w \<and> bit (w ! (i div 64)) (i mod 64)}"

locale bitset_core_laws =
  fixes B :: bitset_core
  assumes test_law: "i < 64 * length w \<Longrightarrow> bc_test B w i = Some (i \<in> bits_of w)"
    and test_oob: "64 * length w \<le> i \<Longrightarrow> bc_test B w i = None"
    and set_law: "i < 64 * length w \<Longrightarrow>
      bc_set B w i = Some (w[i div 64 := Bit_Operations.set_bit (i mod 64) (w ! (i div 64))])"
    and reset_law: "i < 64 * length w \<Longrightarrow>
      bc_reset B w i = Some (w[i div 64 := Bit_Operations.unset_bit (i mod 64) (w ! (i div 64))])"
    and count_law: "bc_count B w = card (bits_of w)"
    and any_law: "bc_any B w \<longleftrightarrow> bits_of w \<noteq> {}"
    and init_law: "bc_init B w v = replicate (length w) (if v then - 1 else 0)"

section \<open>The data and its operations\<close>

record bit_set =
  bs_len :: nat
  bs_inner :: "u64 list"

text \<open>\<open>Default\<close>/\<open>new\<close>, for a vector and for an array of \<open>N\<close> words.\<close>

definition bsv_new :: bit_set where
  "bsv_new = \<lparr>bs_len = 0, bs_inner = []\<rparr>"

definition bsa_new :: "nat \<Rightarrow> bit_set" where
  "bsa_new N = \<lparr>bs_len = 0, bs_inner = replicate N 0\<rparr>"

definition bs_length :: "bit_set \<Rightarrow> nat" where
  "bs_length s = bs_len s"

definition bs_is_empty :: "bit_set \<Rightarrow> bool" where
  "bs_is_empty s = (bs_len s = 0)"

subsection \<open>\<open>BitSet<Vec<u64>>\<close>\<close>

text \<open>As in the source, the last word is written even when \<open>value\<close> is false.\<close>

definition bsv_init :: "bool \<Rightarrow> nat \<Rightarrow> bit_set" where
  "bsv_init value len =
     (let last = 2 ^ (len mod 64) - 1;
          size = len div 64 + 1;
          (init_val, len') = (if value then (- 1, len) else (0, 0));
          vec = replicate size init_val
      in \<lparr>bs_len = len', bs_inner = vec[size - 1 := last]\<rparr>)"

definition bsv_with_capacity :: "nat \<Rightarrow> bit_set" where
  "bsv_with_capacity capacity = \<lparr>bs_len = 0, bs_inner = []\<rparr>"

fun bits_filter :: "bitset_core \<Rightarrow> u64 list \<Rightarrow> nat list \<Rightarrow> nat list option" where
  "bits_filter B w [] = Some []"
| "bits_filter B w (i # is) =
     do { t \<leftarrow> bc_test B w i; rs \<leftarrow> bits_filter B w is; Some (if t then i # rs else rs) }"

definition bsv_iter :: "bitset_core \<Rightarrow> bit_set \<Rightarrow> nat list option" where
  "bsv_iter B s = bits_filter B (bs_inner s) [0..<length (bs_inner s) * 64]"

definition bsv_clear :: "bit_set \<Rightarrow> bit_set" where
  "bsv_clear s = s\<lparr>bs_inner := [], bs_len := 0\<rparr>"

definition bsv_contains :: "bitset_core \<Rightarrow> bit_set \<Rightarrow> nat \<Rightarrow> bool option" where
  "bsv_contains B s value =
     (let idx = value div 64 in
      if idx < length (bs_inner s) then bc_test B (bs_inner s) value else Some False)"

definition bsv_insert :: "bitset_core \<Rightarrow> bit_set \<Rightarrow> nat \<Rightarrow> (bool \<times> bit_set) option" where
  "bsv_insert B s value =
     (let idx = value div 64;
          len = length (bs_inner s);
          inner = (if len \<le> idx then bs_inner s @ replicate (idx - len + 1) 0 else bs_inner s)
      in do { t \<leftarrow> bc_test B inner value;
              if \<not> t then
                do { inner' \<leftarrow> bc_set B inner value;
                     Some (True, s\<lparr>bs_inner := inner', bs_len := bs_len s + 1\<rparr>) }
              else Some (False, s\<lparr>bs_inner := inner\<rparr>) })"

text \<open>\<open>insert_range\<close> and \<open>extend\<close> insert one element after the other.\<close>

definition bsv_insert_range :: "bitset_core \<Rightarrow> bit_set \<Rightarrow> nat \<Rightarrow> nat \<Rightarrow> bit_set option" where
  "bsv_insert_range B s start end = set_insert_all (bsv_insert B) [start..<end] s"

definition bsv_extend :: "bitset_core \<Rightarrow> bit_set \<Rightarrow> nat list \<Rightarrow> bit_set option" where
  "bsv_extend B s iter = set_insert_all (bsv_insert B) iter s"

definition bsv_from_iter :: "bitset_core \<Rightarrow> nat list \<Rightarrow> bit_set option" where
  "bsv_from_iter B iter = bsv_extend B bsv_new iter"

text \<open>A removal counts down only when the bit was set; the invariant makes the length positive then, so the wrap-around of the machine integer does not
  arise.\<close>

definition bsv_remove :: "bitset_core \<Rightarrow> bit_set \<Rightarrow> nat \<Rightarrow> (bool \<times> bit_set) option" where
  "bsv_remove B s value =
     (let idx = value div 64 in
      if idx < length (bs_inner s) then
        do { t \<leftarrow> bc_test B (bs_inner s) value;
             if t then
               do { inner \<leftarrow> bc_reset B (bs_inner s) value;
                    Some (True, s\<lparr>bs_inner := inner, bs_len := bs_len s - 1\<rparr>) }
             else Some (False, s) }
      else Some (False, s))"

subsection \<open>\<open>BitSet<[u64; N]>\<close>\<close>

definition bsa_size :: "bit_set \<Rightarrow> nat" where
  "bsa_size s = 64 * length (bs_inner s)"

text \<open>\<open>init\<close> panics when \<open>len\<close> exceeds the size, and also when the write of the last word is out
  of range.\<close>

definition bsa_init :: "nat \<Rightarrow> bool \<Rightarrow> nat \<Rightarrow> bit_set option" where
  "bsa_init N value len =
     (if len > 64 * N then None
      else
        (let last = 2 ^ (len mod 64) - 1;
             max_idx = len div 64;
             (init_val, len') = (if value then (- 1, len) else (0, 0));
             arr = replicate max_idx init_val @ replicate (N - max_idx) 0
         in if max_idx < N then Some \<lparr>bs_len = len', bs_inner = arr[max_idx := last]\<rparr> else None))"

definition bsa_iter :: "bitset_core \<Rightarrow> bit_set \<Rightarrow> nat list option" where
  "bsa_iter B s = bits_filter B (bs_inner s) [0..<bsa_size s]"

definition bsa_clear :: "bit_set \<Rightarrow> bit_set" where
  "bsa_clear s = s\<lparr>bs_inner := replicate (length (bs_inner s)) 0, bs_len := 0\<rparr>"

definition bsa_contains :: "bitset_core \<Rightarrow> bit_set \<Rightarrow> nat \<Rightarrow> bool option" where
  "bsa_contains B s value = bc_test B (bs_inner s) value"

definition bsa_insert :: "bitset_core \<Rightarrow> bit_set \<Rightarrow> nat \<Rightarrow> (bool \<times> bit_set) option" where
  "bsa_insert B s value =
     (if bsa_size s \<le> value then Some (False, s)
      else
        do { t \<leftarrow> bc_test B (bs_inner s) value;
             if \<not> t then
               do { inner \<leftarrow> bc_set B (bs_inner s) value;
                    Some (True, s\<lparr>bs_inner := inner, bs_len := bs_len s + 1\<rparr>) }
             else Some (False, s) })"

definition bsa_insert_range :: "bitset_core \<Rightarrow> bit_set \<Rightarrow> nat \<Rightarrow> nat \<Rightarrow> bit_set option" where
  "bsa_insert_range B s start end = set_insert_all (bsa_insert B) [start..<end] s"

definition bsa_extend :: "bitset_core \<Rightarrow> bit_set \<Rightarrow> nat list \<Rightarrow> bit_set option" where
  "bsa_extend B s iter = set_insert_all (bsa_insert B) iter s"

definition bsa_remove :: "bitset_core \<Rightarrow> bit_set \<Rightarrow> nat \<Rightarrow> (bool \<times> bit_set) option" where
  "bsa_remove B s value =
     (if bsa_size s \<le> value then Some (False, s)
      else
        do { t \<leftarrow> bc_test B (bs_inner s) value;
             if t then
               do { inner \<leftarrow> bc_reset B (bs_inner s) value;
                    Some (True, s\<lparr>bs_inner := inner, bs_len := bs_len s - 1\<rparr>) }
             else Some (False, s) })"

definition bsa_exclude :: "bitset_core \<Rightarrow> bit_set \<Rightarrow> nat \<Rightarrow> bit_set option" where
  "bsa_exclude B s value = map_option snd (bsa_remove B s value)"

definition bsa_from_array :: "bitset_core \<Rightarrow> u64 list \<Rightarrow> bit_set" where
  "bsa_from_array B value = \<lparr>bs_len = bc_count B value, bs_inner = value\<rparr>"

section \<open>Invariant and abstraction\<close>

definition bs_set :: "bit_set \<Rightarrow> nat set" where
  "bs_set s = bits_of (bs_inner s)"

definition bs_inv :: "bit_set \<Rightarrow> bool" where
  "bs_inv s \<longleftrightarrow> bs_len s = card (bs_set s)"

lemma bits_of_finite [simp]: "finite (bits_of w)"
  by (simp add: bits_of_def)

lemma bs_set_finite [simp]: "finite (bs_set s)"
  by (simp add: bs_set_def)

lemma bits_of_bound: "i \<in> bits_of w \<Longrightarrow> i < 64 * length w"
  by (simp add: bits_of_def)

lemma div_less_words: "i < 64 * n \<longleftrightarrow> i div 64 < (n :: nat)"
  by (simp add: div_less_iff_less_mult mult.commute)

lemma bits_of_set_bit:
  assumes "i < 64 * length w"
  shows "bits_of (w[i div 64 := Bit_Operations.set_bit (i mod 64) (w ! (i div 64))]) = insert i (bits_of w)"
proof -
  have eq: "i div 64 = j div 64 \<Longrightarrow> i mod 64 = j mod 64 \<Longrightarrow> i = j" for j :: nat
    by (metis div_mult_mod_eq)
  show ?thesis
    using assms
    by (auto simp: bits_of_def nth_list_update bit_set_bit_iff div_less_words dest: eq)
qed

lemma bits_of_unset_bit:
  assumes "i < 64 * length w"
  shows "bits_of (w[i div 64 := Bit_Operations.unset_bit (i mod 64) (w ! (i div 64))]) = bits_of w - {i}"
proof -
  have eq: "i div 64 = j div 64 \<Longrightarrow> i mod 64 = j mod 64 \<Longrightarrow> i = j" for j :: nat
    by (metis div_mult_mod_eq)
  show ?thesis
    using assms
    by (auto simp: bits_of_def nth_list_update bit_unset_bit_iff div_less_words dest: eq)
qed

lemma bits_of_zeros [simp]: "bits_of (replicate n 0) = {}"
  by (auto simp: bits_of_def div_less_words)

lemma mem_bits_of: "i \<in> bits_of w \<longleftrightarrow> i div 64 < length w \<and> bit (w ! (i div 64)) (i mod 64)"
  by (simp add: bits_of_def div_less_words)

lemma bits_of_grow [simp]: "bits_of (w @ replicate n 0) = bits_of w"
proof (rule set_eqI)
  show "i \<in> bits_of (w @ replicate n 0) \<longleftrightarrow> i \<in> bits_of w" for i
    unfolding mem_bits_of by (cases "i div 64 < length w") (auto simp: nth_append)
qed

lemma bits_of_Nil [simp]: "bits_of [] = {}"
  by (simp add: bits_of_def)

text \<open>Full words followed by a partial one are an initial segment of the integers.\<close>

lemma mem_bits_of_prefix:
  "i \<in> bits_of (replicate a (- 1) @ p # replicate k 0) \<longleftrightarrow>
     i div 64 < a \<or> (i div 64 = a \<and> bit p (i mod 64))"
proof -
  consider "i div 64 < a" | "i div 64 = a" | j where "i div 64 = a + Suc j"
    using less_iff_Suc_add linorder_neqE_nat by (metis add_Suc_right)
  then show ?thesis
    unfolding mem_bits_of
  proof cases
    case (3 j)
    then show "(i div 64 < length (replicate a (- 1) @ p # replicate k 0) \<and>
        bit ((replicate a (- 1) @ p # replicate k 0) ! (i div 64)) (i mod 64)) =
      (i div 64 < a \<or> i div 64 = a \<and> bit p (i mod 64))"
      by (simp only: nth_append) simp
  qed (simp_all add: nth_append)
qed

lemma less_by_words:
  "(i div 64 < j div 64 \<or> (i div 64 = j div 64 \<and> i mod 64 < j mod 64)) \<longleftrightarrow> i < (j :: nat)"
proof -
  obtain a b where i: "i = 64 * a + b" "b < 64"
    by (metis mod_less_divisor mult_div_mod_eq zero_less_numeral)
  obtain c d where j: "j = 64 * c + d" "d < 64"
    by (metis mod_less_divisor mult_div_mod_eq zero_less_numeral)
  show ?thesis using i(2) j(2) unfolding i(1) j(1) by simp linarith
qed

lemma bits_of_prefix:
  "bits_of (replicate (len div 64) (- 1) @ (2 ^ (len mod 64) - 1) # replicate k 0) = {0..<len}"
proof (rule set_eqI)
  fix i
  have ones: "bit (2 ^ (len mod 64) - 1 :: u64) (i mod 64) \<longleftrightarrow> i mod 64 < len mod 64"
    unfolding mask_eq_exp_minus_1[symmetric] bit_mask_iff by simp
  have "(i div 64 < len div 64 \<or> (i div 64 = len div 64 \<and> i mod 64 < len mod 64)) \<longleftrightarrow> i < len"
    by (rule less_by_words)
  then show "i \<in> bits_of (replicate (len div 64) (- 1) @ (2 ^ (len mod 64) - 1) # replicate k 0)
      \<longleftrightarrow> i \<in> {0..<len}"
    unfolding mem_bits_of_prefix ones by simp
qed

lemma card_insert_new: "finite A \<Longrightarrow> x \<notin> A \<Longrightarrow> card (insert x A) = card A + 1"
  by simp

context bitset_core_laws
begin

lemma bits_filter_spec:
  "(\<forall>i \<in> set is. i < 64 * length w) \<Longrightarrow> bits_filter B w is = Some (filter (\<lambda>i. i \<in> bits_of w) is)"
  by (induction "is") (auto simp: test_law)

lemma bsv_iter_spec: "bsv_iter B s = Some (sorted_list_of_set (bs_set s))"
proof -
  let ?xs = "filter (\<lambda>i. i \<in> bits_of (bs_inner s)) [0..<length (bs_inner s) * 64]"
  have "bsv_iter B s = Some ?xs"
    unfolding bsv_iter_def by (rule bits_filter_spec) (simp add: mult.commute)
  moreover have "set ?xs = bs_set s" "sorted ?xs" "distinct ?xs"
    by (auto simp: bs_set_def mult.commute dest: bits_of_bound intro: sorted_wrt_filter)
  ultimately show ?thesis by (metis sorted_list_of_set.idem_if_sorted_distinct)
qed

lemma bsa_iter_spec: "bsa_iter B s = Some (sorted_list_of_set (bs_set s))"
  using bsv_iter_spec by (simp add: bsa_iter_def bsv_iter_def bsa_size_def mult.commute)

lemma bsv_contains_spec: "bsv_contains B s i = Some (i \<in> bs_set s)"
  using bits_of_bound[of i "bs_inner s"]
  by (auto simp: bsv_contains_def bs_set_def test_law simp flip: div_less_words)

lemma bsv_insert_spec:
  assumes "bs_inv s"
  shows "\<exists>s'. bsv_insert B s i = Some (i \<notin> bs_set s, s') \<and> bs_inv s' \<and> bs_set s' = insert i (bs_set s)"
proof -
  define inner where "inner = (if length (bs_inner s) \<le> i div 64
    then bs_inner s @ replicate (i div 64 - length (bs_inner s) + 1) 0 else bs_inner s)"
  have bits: "bits_of inner = bs_set s"
    by (auto simp: inner_def bs_set_def simp del: replicate.simps)
  have i: "i < 64 * length inner"
    unfolding div_less_words by (auto simp: inner_def)
  show ?thesis
    using assms i bits bits_of_set_bit[OF i]
    by (auto simp: bsv_insert_def Let_def test_law set_law bs_inv_def bs_set_def insert_absorb
        simp flip: inner_def)
qed

lemma bsv_remove_spec:
  assumes "bs_inv s"
  shows "\<exists>s'. bsv_remove B s i = Some (i \<in> bs_set s, s') \<and> bs_inv s' \<and> bs_set s' = bs_set s - {i}"
proof (cases "i < 64 * length (bs_inner s)")
  case True
  then show ?thesis
    using assms bits_of_unset_bit[OF True]
    by (auto simp: bsv_remove_def Let_def test_law reset_law bs_inv_def bs_set_def
        simp flip: div_less_words)
next
  case False
  then have "i \<notin> bs_set s" using bits_of_bound[of i] by (auto simp: bs_set_def)
  then show ?thesis
    using assms False by (auto simp: bsv_remove_def Let_def simp flip: div_less_words)
qed

lemma bsa_insert_spec:
  assumes "bs_inv s"
  shows "\<exists>s'. bsa_insert B s i = Some (i < bsa_size s \<and> i \<notin> bs_set s, s') \<and> bs_inv s' \<and>
    length (bs_inner s') = length (bs_inner s) \<and>
    bs_set s' = (if i < bsa_size s then insert i (bs_set s) else bs_set s)"
proof (cases "i < bsa_size s")
  case True
  then have i: "i < 64 * length (bs_inner s)" by (simp add: bsa_size_def)
  then show ?thesis
    using assms True bits_of_set_bit[OF i]
    by (auto simp: bsa_insert_def test_law set_law bs_inv_def bs_set_def insert_absorb)
qed (use assms in \<open>auto simp: bsa_insert_def\<close>)

lemma bsa_remove_spec:
  assumes "bs_inv s"
  shows "\<exists>s'. bsa_remove B s i = Some (i \<in> bs_set s, s') \<and> bs_inv s' \<and>
    length (bs_inner s') = length (bs_inner s) \<and> bs_set s' = bs_set s - {i}"
proof (cases "i < bsa_size s")
  case True
  then have i: "i < 64 * length (bs_inner s)" by (simp add: bsa_size_def)
  then show ?thesis
    using assms True bits_of_unset_bit[OF i]
    by (auto simp: bsa_remove_def test_law reset_law bs_inv_def bs_set_def)
next
  case False
  then have "i \<notin> bs_set s" using bits_of_bound[of i] by (auto simp: bs_set_def bsa_size_def)
  then show ?thesis using assms False by (auto simp: bsa_remove_def)
qed

end

text \<open>Every instance of the crate's operations that keeps their laws makes the vector bit set an
  implementation of the set contract.\<close>

sublocale bitset_core_laws \<subseteq> bsv: usize_set bs_inv bs_set bsv_new "bsv_contains B" "bsv_insert B"
  "bsv_remove B" bs_length
proof (unfold_locales, goal_cases)
  case (3 s k)
  show ?case by (rule bsv_contains_spec)
next
  case (4 s k)
  then show ?case using bsv_insert_spec by blast
next
  case (5 s k)
  then show ?case by (rule bsv_remove_spec)
qed (auto simp: bs_inv_def bs_set_def bsv_new_def bs_length_def)

context bitset_core_laws
begin

lemma bsv_worklist:
  "\<exists>s s'. bsv_insert_range B bsv_new 0 n = Some s \<and> bs_length s = n \<and>
    set_remove_all (bsv_remove B) [0..<n] s = Some s' \<and> bs_is_empty s'"
  using bsv.insert_remove_all[of "[0..<n]"]
  by (auto simp: bsv_insert_range_def bs_is_empty_def bs_length_def)

end

section \<open>An instance of the crate's operations\<close>

text \<open>Word-level operations that satisfy the laws, so that the hypotheses can be met and the
  definitions evaluated.\<close>

definition words_test :: "u64 list \<Rightarrow> nat \<Rightarrow> bool option" where
  "words_test w i = (if i < 64 * length w then Some (bit (w ! (i div 64)) (i mod 64)) else None)"

definition words_set :: "u64 list \<Rightarrow> nat \<Rightarrow> u64 list option" where
  "words_set w i =
     (if i < 64 * length w
      then Some (w[i div 64 := Bit_Operations.set_bit (i mod 64) (w ! (i div 64))]) else None)"

definition words_reset :: "u64 list \<Rightarrow> nat \<Rightarrow> u64 list option" where
  "words_reset w i =
     (if i < 64 * length w
      then Some (w[i div 64 := Bit_Operations.unset_bit (i mod 64) (w ! (i div 64))]) else None)"

definition words_count :: "u64 list \<Rightarrow> nat" where
  "words_count w = length (filter (\<lambda>i. bit (w ! (i div 64)) (i mod 64)) [0..<64 * length w])"

definition words_any :: "u64 list \<Rightarrow> bool" where
  "words_any w = (\<exists>x \<in> set w. x \<noteq> 0)"

definition words_init :: "u64 list \<Rightarrow> bool \<Rightarrow> u64 list" where
  "words_init w v = replicate (length w) (if v then - 1 else 0)"

definition words_core :: bitset_core where
  "words_core = \<lparr>bc_test = words_test, bc_set = words_set, bc_reset = words_reset,
     bc_count = words_count, bc_any = words_any, bc_init = words_init\<rparr>"

lemma words_any_bits: "words_any w \<longleftrightarrow> bits_of w \<noteq> {}"
proof
  assume "words_any w"
  then obtain j where j: "j < length w" "w ! j \<noteq> 0" by (auto simp: words_any_def in_set_conv_nth)
  then obtain n where n: "bit (w ! j) n" by (metis bit_0_eq bit_eqI bot_apply bot_bool_def)
  then have "n < 64" using bit_imp_le_length[of "w ! j" n] by simp
  then have "64 * j + n \<in> bits_of w" using j(1) n by (simp add: bits_of_def)
  then show "bits_of w \<noteq> {}" by blast
next
  assume "bits_of w \<noteq> {}"
  then obtain i where "i < 64 * length w" "bit (w ! (i div 64)) (i mod 64)" by (auto simp: bits_of_def)
  then have "w ! (i div 64) \<in> set w" "w ! (i div 64) \<noteq> 0" by (auto simp: div_less_words)
  then show "words_any w" by (auto simp: words_any_def)
qed

interpretation words: bitset_core_laws words_core
proof unfold_locales
  fix w
  have "set (filter (\<lambda>i. bit (w ! (i div 64)) (i mod 64)) [0..<64 * length w]) = bits_of w"
    by (auto simp: bits_of_def)
  then have "card (bits_of w) = length (filter (\<lambda>i. bit (w ! (i div 64)) (i mod 64)) [0..<64 * length w])"
    by (metis distinct_card distinct_filter distinct_upt)
  then show "bc_count words_core w = card (bits_of w)"
    by (simp add: words_core_def words_count_def)
qed (auto simp: words_core_def words_test_def words_set_def words_reset_def words_init_def words_any_bits bits_of_def)

section \<open>Properties\<close>

text \<open>C36. The vector bit set implements a finite set, for every crate that keeps the documented
  bit operations: no insertion, removal, lookup or iteration panics, the flags say whether the set
  changed, the cached length is the cardinality, and iteration yields the elements in increasing
  order.\<close>

theorem bit_set_vec_correct:
  assumes "bitset_core_laws B" "bs_inv s"
  shows "(\<exists>s'. bsv_insert B s i = Some (i \<notin> bs_set s, s') \<and> bs_inv s' \<and>
           bs_set s' = insert i (bs_set s)) \<and>
         (\<exists>s'. bsv_remove B s i = Some (i \<in> bs_set s, s') \<and> bs_inv s' \<and>
           bs_set s' = bs_set s - {i}) \<and>
         bsv_contains B s i = Some (i \<in> bs_set s) \<and>
         bsv_iter B s = Some (sorted_list_of_set (bs_set s)) \<and>
         bs_length s = card (bs_set s)"
  using bitset_core_laws.bsv_insert_spec[OF assms] bitset_core_laws.bsv_remove_spec[OF assms]
    bitset_core_laws.bsv_contains_spec[OF assms(1)] bitset_core_laws.bsv_iter_spec[OF assms(1)] assms(2)
  by (auto simp: bs_inv_def bs_length_def)

theorem bit_set_vec_correct_witness:
  "bitset_core_laws words_core \<and> bs_inv bsv_new \<and>
   (\<exists>s'. bsv_insert words_core bsv_new 70 = Some (True, s') \<and> bs_inv s' \<and> bs_set s' = {70})"
proof -
  have inv: "bs_inv bsv_new" by (rule words.bsv.new_inv)
  from bit_set_vec_correct[OF words.bitset_core_laws_axioms inv, of 70] inv
  show ?thesis using words.bitset_core_laws_axioms by (simp add: bs_set_def bsv_new_def)
qed

text \<open>Collecting the integers below \<open>n\<close> into a vector bit set and removing them again counts up
  to \<open>n\<close> and back to zero, as the task manager does with the identifiers of a job's tasks.\<close>

lemma bit_set_worklist:
  assumes "bitset_core_laws B"
  shows "\<exists>s s'. bsv_insert_range B bsv_new 0 n = Some s \<and> bs_length s = n \<and>
    set_remove_all (bsv_remove B) [0..<n] s = Some s' \<and> bs_is_empty s'"
  using bitset_core_laws.bsv_worklist[OF assms] .

lemma update_last_of_replicate: "(replicate (n + 1) x)[n + 1 - 1 := y] = replicate n x @ y # replicate 0 z"
  by (induction n) simp_all

lemma update_first_after_replicate:
  "(replicate n x @ replicate (Suc k) z)[n := y] = replicate n x @ y # replicate k z"
  by (simp add: list_update_append)

lemma bsv_init_inner:
  "bs_inner (bsv_init v len) =
     replicate (len div 64) (if v then - 1 else 0) @ (2 ^ (len mod 64) - 1) # replicate 0 0"
  unfolding bsv_init_def Let_def update_last_of_replicate[where z = 0] by (cases v) simp_all

lemma bsv_init_len: "bs_len (bsv_init v len) = (if v then len else 0)"
  unfolding bsv_init_def Let_def by simp

lemma guarded_SomeD: "(if b then None else if c then Some r else None) = Some s \<Longrightarrow> c \<and> s = r"
  by (simp split: if_splits)

lemma less_gap: "a < (n :: nat) \<Longrightarrow> \<exists>k. n - a = Suc k \<and> a + Suc k = n"
  by (intro exI[of _ "n - a - 1"]) simp

lemma bsa_init_inner:
  assumes "bsa_init N True len = Some s"
  shows "\<exists>k. bs_inner s = replicate (len div 64) (- 1) @ (2 ^ (len mod 64) - 1) # replicate k 0 \<and>
    len div 64 + Suc k = N \<and> bs_len s = len"
proof -
  define p :: u64 where "p = 2 ^ (len mod 64) - 1"
  define ws where "ws = (replicate (len div 64) (- 1) @ replicate (N - len div 64) 0)[len div 64 := p]"
  have eq: "bsa_init N True len =
      (if len > 64 * N then None
       else if len div 64 < N then Some \<lparr>bs_len = len, bs_inner = ws\<rparr> else None)"
    unfolding bsa_init_def Let_def ws_def p_def by (simp only: if_True prod.case)
  have lt: "len div 64 < N" and s: "s = \<lparr>bs_len = len, bs_inner = ws\<rparr>"
    using guarded_SomeD[OF assms[unfolded eq]] by blast+
  have "bs_inner s = ws" and len: "bs_len s = len" unfolding s bit_set.select_convs by (rule refl)+
  then have inner: "bs_inner s = (replicate (len div 64) (- 1) @ replicate (N - len div 64) 0)
      [len div 64 := p]" by (simp only: ws_def)
  obtain k where k: "N - len div 64 = Suc k" "len div 64 + Suc k = N"
    using less_gap[OF lt] by (elim exE conjE)
  then have "bs_inner s = replicate (len div 64) (- 1) @ p # replicate k 0"
    unfolding inner k(1) by (rule_tac update_first_after_replicate)
  then show ?thesis unfolding p_def using len k(2) by (intro exI[of _ k] conjI)
qed

text \<open>Filling a bit set: with \<open>true\<close> the vector holds exactly the integers below \<open>len\<close>; the
  array of \<open>N\<close> words does so for every \<open>len\<close> below its size and panics from its size on, so a
  full array cannot be built this way.\<close>

lemma bit_set_init_true:
  "bs_set (bsv_init True len) = {0..<len} \<and> bs_inv (bsv_init True len) \<and>
   (case bsa_init N True len of
      Some s \<Rightarrow> len < 64 * N \<and> bs_set s = {0..<len} \<and> bs_inv s \<and> bsa_size s = 64 * N
    | None \<Rightarrow> 64 * N \<le> len)"
proof -
  have vec: "bs_set (bsv_init True len) = {0..<len}"
    unfolding bs_set_def bsv_init_inner if_True by (rule bits_of_prefix)
  have arr: "bs_set s = {0..<len} \<and> bs_len s = len \<and> bsa_size s = 64 * N"
    if "bsa_init N True len = Some s" for s
  proof -
    from bsa_init_inner[OF that] obtain k
      where inner: "bs_inner s = replicate (len div 64) (- 1) @ (2 ^ (len mod 64) - 1) # replicate k 0"
        and k: "len div 64 + Suc k = N" and len: "bs_len s = len" by blast
    have "bs_set s = {0..<len}" unfolding bs_set_def inner by (rule bits_of_prefix)
    moreover have "length (bs_inner s) = N" unfolding inner using k by simp
    ultimately show ?thesis using len by (simp add: bsa_size_def)
  qed
  have none: "bsa_init N True len = None \<longleftrightarrow> 64 * N \<le> len"
    using div_less_words[of len N] by (auto simp: bsa_init_def Let_def not_less)
  show ?thesis
    using vec arr none by (auto simp: bs_inv_def bsv_init_len not_less split: option.split)
qed

text \<open>Filling a bit set with \<open>false\<close> does not give the empty set: for a \<open>len\<close> that is not a
  multiple of 64 the last word is still set, so the set holds elements while its cached length
  says it is empty.\<close>

lemma bit_set_init_false_not_empty:
  assumes "len mod 64 \<noteq> 0"
  shows "bs_is_empty (bsv_init False len) \<and> 64 * (len div 64) \<in> bs_set (bsv_init False len)"
proof -
  have "odd (2 ^ (len mod 64) - 1 :: u64)"
  proof -
    have "bit (2 ^ (len mod 64) - 1 :: u64) 0"
      unfolding mask_eq_exp_minus_1[symmetric] bit_mask_iff using assms by simp
    then show ?thesis by (simp add: bit_0)
  qed
  moreover have "(replicate a x @ y # zs) ! a = y" for a and x y :: u64 and zs
    by (metis length_replicate nth_append_length)
  ultimately have "64 * (len div 64) \<in> bs_set (bsv_init False len)"
    unfolding bs_set_def bsv_init_inner mem_bits_of by (simp add: bit_0)
  then show ?thesis by (simp add: bs_is_empty_def bsv_init_len)
qed

end
