(* ===== verification/Multilevel_Vec_Map.thy ===== *)
theory Multilevel_Vec_Map
  imports Grid_Prelude
begin

text \<open>
  \<open>MultilevelVecMap\<close> of \<open>shared/src/utils/multilevel_vec_map.rs\<close>: a trie over fixed-length keys of
  machine words, in which the task manager keeps the distance of every passenger set. A key
  shorter than the number of levels is read as padded with zeros.

  The loop \<open>for level in 0..levels\<close> reads one component of the key after the other; the recursion
  below runs over the list \<open>ml_path\<close> of the components it reads, the last one addressing the
  value. \<open>unreachable_unchecked\<close> is the result \<open>None\<close>.
\<close>

section \<open>The data and its operations\<close>

datatype 'a ml_entry = Empty | Value 'a | Level "'a ml_entry list"

record 'a ml_map =
  ml_n :: nat
  ml_levels_idx :: nat
  ml_vec :: "'a ml_entry list"

definition ml_new :: "nat \<Rightarrow> 'a ml_map" where
  "ml_new levels = \<lparr>ml_n = 0, ml_levels_idx = usize_sub levels 1, ml_vec = []\<rparr>"

definition ml_with_capacity :: "nat \<Rightarrow> nat \<Rightarrow> 'a ml_map" where
  "ml_with_capacity capacity levels = \<lparr>ml_n = 0, ml_levels_idx = usize_sub levels 1, ml_vec = []\<rparr>"

definition ml_shrink_to_fit :: "'a ml_map \<Rightarrow> 'a ml_map" where
  "ml_shrink_to_fit m =
     (case rposition (\<lambda>x. case x of Empty \<Rightarrow> False | _ \<Rightarrow> True) (ml_vec m) of
        Some idx \<Rightarrow> m\<lparr>ml_vec := take (idx + 1) (ml_vec m)\<rparr>
      | None \<Rightarrow> m\<lparr>ml_vec := []\<rparr>)"

definition ml_len :: "'a ml_map \<Rightarrow> nat" where
  "ml_len m = ml_n m"

definition ml_is_empty :: "'a ml_map \<Rightarrow> bool" where
  "ml_is_empty m = (ml_n m = 0)"

definition ml_clear :: "'a ml_map \<Rightarrow> 'a ml_map" where
  "ml_clear m = m\<lparr>ml_n := 0, ml_vec := []\<rparr>"

text \<open>\<open>*key.get(level).unwrap_or(&0) as usize\<close> for \<open>level = 0, ..., levels_idx\<close>.\<close>

definition key_at :: "nat list \<Rightarrow> nat \<Rightarrow> nat" where
  "key_at key level = (case vec_get key level of Some k \<Rightarrow> k | None \<Rightarrow> 0)"

definition ml_path :: "nat \<Rightarrow> nat list \<Rightarrow> nat list" where
  "ml_path levels_idx key = map (key_at key) [0..<levels_idx + 1]"

definition ml_key_too_long :: "'a ml_map \<Rightarrow> nat list \<Rightarrow> bool" where
  "ml_key_too_long m key = (length key > usize_add (ml_levels_idx m) 1)"

fun ml_get_path :: "'a ml_entry list \<Rightarrow> nat list \<Rightarrow> 'a option option" where
  "ml_get_path vec [] = None"
| "ml_get_path vec [k] =
     (case vec_get vec k of
        None \<Rightarrow> Some None
      | Some Empty \<Rightarrow> Some None
      | Some (Value x) \<Rightarrow> Some (Some x)
      | Some (Level l) \<Rightarrow> None)"
| "ml_get_path vec (k # k' # ks) =
     (case vec_get vec k of Some (Level l) \<Rightarrow> ml_get_path l (k' # ks) | _ \<Rightarrow> Some None)"

definition ml_get :: "'a ml_map \<Rightarrow> nat list \<Rightarrow> 'a option option" where
  "ml_get m key =
     (if ml_key_too_long m key then Some None
      else ml_get_path (ml_vec m) (ml_path (ml_levels_idx m) key))"

text \<open>The unchecked read: a missing level or value is undefined behaviour.\<close>

fun ml_get_unchecked_path :: "'a ml_entry list \<Rightarrow> nat list \<Rightarrow> 'a option" where
  "ml_get_unchecked_path vec [] = None"
| "ml_get_unchecked_path vec [k] = (case vec_get vec k of Some (Value x) \<Rightarrow> Some x | _ \<Rightarrow> None)"
| "ml_get_unchecked_path vec (k # k' # ks) =
     (case vec_get vec k of Some (Level l) \<Rightarrow> ml_get_unchecked_path l (k' # ks) | _ \<Rightarrow> None)"

definition ml_get_unchecked :: "'a ml_map \<Rightarrow> nat list \<Rightarrow> 'a option" where
  "ml_get_unchecked m key = ml_get_unchecked_path (ml_vec m) (ml_path (ml_levels_idx m) key)"

definition ml_contains_key :: "'a ml_map \<Rightarrow> nat list \<Rightarrow> bool option" where
  "ml_contains_key m key = map_option (\<lambda>r. r \<noteq> None) (ml_get m key)"

text \<open>A \<open>&mut T\<close> is modelled by the write \<open>f\<close> its holder performs: the result is the value found
  and the vector with that value rewritten.\<close>

fun ml_get_mut_path ::
  "('a \<Rightarrow> 'a) \<Rightarrow> 'a ml_entry list \<Rightarrow> nat list \<Rightarrow> ('a option \<times> 'a ml_entry list) option" where
  "ml_get_mut_path f vec [] = None"
| "ml_get_mut_path f vec [k] =
     (case vec_get vec k of
        None \<Rightarrow> Some (None, vec)
      | Some Empty \<Rightarrow> Some (None, vec)
      | Some (Value x) \<Rightarrow> Some (Some x, vec[k := Value (f x)])
      | Some (Level l) \<Rightarrow> None)"
| "ml_get_mut_path f vec (k # k' # ks) =
     (case vec_get vec k of
        Some (Level l) \<Rightarrow>
          do { (r, l') \<leftarrow> ml_get_mut_path f l (k' # ks); Some (r, vec[k := Level l']) }
      | _ \<Rightarrow> Some (None, vec))"

definition ml_get_mut :: "('a \<Rightarrow> 'a) \<Rightarrow> 'a ml_map \<Rightarrow> nat list \<Rightarrow> ('a option \<times> 'a ml_map) option" where
  "ml_get_mut f m key =
     (if ml_key_too_long m key then Some (None, m)
      else do { (r, v) \<leftarrow> ml_get_mut_path f (ml_vec m) (ml_path (ml_levels_idx m) key);
                Some (r, m\<lparr>ml_vec := v\<rparr>) })"

text \<open>\<open>vec.extend((0..key - len + 1).map(|_| fill))\<close> when \<open>len <= key\<close>.\<close>

definition ml_extend :: "'a ml_entry \<Rightarrow> 'a ml_entry list \<Rightarrow> nat \<Rightarrow> 'a ml_entry list" where
  "ml_extend fill vec k =
     (if length vec \<le> k then vec @ replicate (k - length vec + 1) fill else vec)"

fun ml_insert_path ::
  "'a ml_entry list \<Rightarrow> nat list \<Rightarrow> 'a \<Rightarrow> ('a option \<times> 'a ml_entry list) option" where
  "ml_insert_path vec [] value = None"
| "ml_insert_path vec [k] value =
     (let vec' = ml_extend Empty vec k in
      case vec' ! k of
        Empty \<Rightarrow> Some (None, vec'[k := Value value])
      | Value x \<Rightarrow> Some (Some x, vec'[k := Value value])
      | Level l \<Rightarrow> None)"
| "ml_insert_path vec (k # k' # ks) value =
     (let vec' = ml_extend (Level []) vec k in
      case vec' ! k of
        Level l \<Rightarrow>
          do { (r, l') \<leftarrow> ml_insert_path l (k' # ks) value; Some (r, vec'[k := Level l']) }
      | _ \<Rightarrow> None)"

definition ml_insert :: "'a ml_map \<Rightarrow> nat list \<Rightarrow> 'a \<Rightarrow> ('a option \<times> 'a ml_map) option" where
  "ml_insert m key value =
     (if ml_key_too_long m key then Some (None, m)
      else
        do { (r, v) \<leftarrow> ml_insert_path (ml_vec m) (ml_path (ml_levels_idx m) key) value;
             Some (r, m\<lparr>ml_vec := v, ml_n := (if r = None then ml_n m + 1 else ml_n m)\<rparr>) })"

fun ml_remove_path :: "'a ml_entry list \<Rightarrow> nat list \<Rightarrow> ('a option \<times> 'a ml_entry list) option" where
  "ml_remove_path vec [] = None"
| "ml_remove_path vec [k] =
     (case vec_get vec k of
        None \<Rightarrow> Some (None, vec)
      | Some Empty \<Rightarrow> Some (None, vec)
      | Some (Value x) \<Rightarrow> Some (Some x, vec[k := Empty])
      | Some (Level l) \<Rightarrow> None)"
| "ml_remove_path vec (k # k' # ks) =
     (case vec_get vec k of
        Some (Level l) \<Rightarrow> do { (r, l') \<leftarrow> ml_remove_path l (k' # ks); Some (r, vec[k := Level l']) }
      | _ \<Rightarrow> Some (None, vec))"

definition ml_remove :: "'a ml_map \<Rightarrow> nat list \<Rightarrow> ('a option \<times> 'a ml_map) option" where
  "ml_remove m key =
     (if ml_key_too_long m key then Some (None, m)
      else
        do { (r, v) \<leftarrow> ml_remove_path (ml_vec m) (ml_path (ml_levels_idx m) key);
             Some (r, m\<lparr>ml_vec := v, ml_n := (if r = None then ml_n m else ml_n m - 1)\<rparr>) })"

section \<open>Well-formed tries\<close>

text \<open>Above the last level every cell is a level, in the last level none is.\<close>

primrec ml_wf :: "nat \<Rightarrow> 'a ml_entry list \<Rightarrow> bool" where
  "ml_wf 0 vec = (\<forall>e \<in> set vec. case e of Level l \<Rightarrow> False | _ \<Rightarrow> True)"
| "ml_wf (Suc d) vec = (\<forall>e \<in> set vec. case e of Level l \<Rightarrow> ml_wf d l | _ \<Rightarrow> False)"

text \<open>The number of values of a trie.\<close>

primrec ml_count :: "nat \<Rightarrow> 'a ml_entry list \<Rightarrow> nat" where
  "ml_count 0 vec = sum_list (map (\<lambda>e. case e of Value x \<Rightarrow> 1 | _ \<Rightarrow> 0) vec)"
| "ml_count (Suc d) vec = sum_list (map (\<lambda>e. case e of Level l \<Rightarrow> ml_count d l | _ \<Rightarrow> 0) vec)"

definition ml_inv :: "'a ml_map \<Rightarrow> bool" where
  "ml_inv m \<longleftrightarrow> ml_levels_idx m < usize_max \<and> ml_wf (ml_levels_idx m) (ml_vec m) \<and>
     ml_n m = ml_count (ml_levels_idx m) (ml_vec m)"

lemma length_ml_path [simp]: "length (ml_path L key) = L + 1"
  by (simp add: ml_path_def)

lemma sum_list_update_nat:
  fixes xs :: "nat list"
  shows "i < length xs \<Longrightarrow> sum_list (xs[i := y]) + xs ! i = sum_list xs + y"
  by (induction xs arbitrary: i) (auto split: nat.splits)

lemma ml_wf_nth:
  assumes "ml_wf d vec" "k < length vec"
  shows "d = 0 \<Longrightarrow> vec ! k = Empty \<or> (\<exists>x. vec ! k = Value x)"
    and "d = Suc d' \<Longrightarrow> \<exists>l. vec ! k = Level l \<and> ml_wf d' l"
  using assms nth_mem[OF assms(2)] by (cases "vec ! k"; fastforce)+

lemma ml_extend_props:
  shows "k < length (ml_extend e vec k)" "length vec \<le> length (ml_extend e vec k)"
    and "i < length (ml_extend e vec k) \<Longrightarrow>
      ml_extend e vec k ! i = (if i < length vec then vec ! i else e)"
    and "set (ml_extend e vec k) \<subseteq> insert e (set vec)"
  by (auto simp: ml_extend_def nth_append nth_Cons split: nat.splits)

lemma ml_wf_extend:
  "ml_wf 0 vec \<Longrightarrow> ml_wf 0 (ml_extend Empty vec k)"
  "ml_wf (Suc d) vec \<Longrightarrow> ml_wf (Suc d) (ml_extend (Level []) vec k)"
  using ml_extend_props(4) by (cases d; fastforce)+

lemma ml_wf_Nil [simp]: "ml_wf d []"
  by (cases d) auto

lemma ml_count_Nil [simp]: "ml_count d [] = 0"
  by (cases d) auto

lemma ml_count_extend:
  "ml_count 0 (ml_extend Empty vec k) = ml_count 0 vec"
  "ml_count (Suc d) (ml_extend (Level []) vec k) = ml_count (Suc d) vec"
  by (auto simp: ml_extend_def sum_list_replicate)

lemma ml_wf_update:
  assumes "ml_wf d vec"
  shows "d = 0 \<Longrightarrow> (case e of Level l \<Rightarrow> False | _ \<Rightarrow> True) \<Longrightarrow> ml_wf d (vec[k := e])"
    and "d = Suc d' \<Longrightarrow> e = Level l \<Longrightarrow> ml_wf d' l \<Longrightarrow> ml_wf d (vec[k := e])"
  using assms by (auto dest!: subsetD[OF set_update_subset_insert])

lemma ml_count_update:
  assumes "k < length vec"
  shows "ml_count 0 (vec[k := e]) + (case vec ! k of Value x \<Rightarrow> 1 | _ \<Rightarrow> 0) =
           ml_count 0 vec + (case e of Value x \<Rightarrow> 1 | _ \<Rightarrow> 0)"
    and "ml_count (Suc d) (vec[k := e]) + (case vec ! k of Level l \<Rightarrow> ml_count d l | _ \<Rightarrow> 0) =
           ml_count (Suc d) vec + (case e of Level l \<Rightarrow> ml_count d l | _ \<Rightarrow> 0)"
  using assms sum_list_update_nat[of k "map (\<lambda>e. case e of Value x \<Rightarrow> 1 | _ \<Rightarrow> 0) vec"]
    sum_list_update_nat[of k "map (\<lambda>e. case e of Level l \<Rightarrow> ml_count d l | _ \<Rightarrow> 0) vec"]
  by (auto simp: map_update)

declare ml_wf.simps [simp del] ml_count.simps [simp del]

text \<open>A well-formed trie is never read into undefined behaviour.\<close>

lemma ml_get_path_total:
  "ml_wf d vec \<Longrightarrow> length path = Suc d \<Longrightarrow> \<exists>r. ml_get_path vec path = Some r"
proof (induction vec path arbitrary: d rule: ml_get_path.induct)
  case (2 vec k)
  then show ?case
    using ml_wf_nth(1)[of d vec k] by (auto simp: vec_get_def split: ml_entry.splits)
next
  case (3 vec k k' ks)
  then obtain d' where d: "d = Suc d'" by (cases d) auto
  show ?case
  proof (cases "k < length vec")
    case True
    then obtain l where l: "vec ! k = Level l" "ml_wf d' l"
      using ml_wf_nth(2)[OF "3.prems"(1) True d] by blast
    then show ?thesis
      using "3.IH"[of "Level l" l d'] "3.prems"(2) True d by (simp add: vec_get_def)
  qed (simp add: vec_get_def)
qed simp

lemma ml_get_path_Nil [simp]: "path \<noteq> [] \<Longrightarrow> ml_get_path [] path = Some None"
  by (cases path rule: remdups_adj.cases) (auto simp: vec_get_def)

text \<open>Insertion: the old value, the written path and every other path.\<close>

lemma ml_insert_path_spec:
  assumes "ml_wf d vec" "length path = Suc d"
  shows "\<exists>r vec'. ml_insert_path vec path x = Some (r, vec') \<and> ml_get_path vec path = Some r \<and>
    ml_wf d vec' \<and> ml_count d vec' = ml_count d vec + (if r = None then 1 else 0) \<and>
    (\<forall>path'. length path' = Suc d \<longrightarrow>
       ml_get_path vec' path' = (if path' = path then Some (Some x) else ml_get_path vec path'))"
  using assms
proof (induction vec path x arbitrary: d rule: ml_insert_path.induct)
  case (2 vec k x)
  then have d: "d = 0" by simp
  let ?v = "ml_extend Empty vec k"
  have wf: "ml_wf 0 ?v" using "2.prems" d ml_wf_extend(1) by blast
  have k: "k < length ?v" by (simp add: ml_extend_props)
  have wf': "ml_wf 0 (?v[k := Value x])" by (rule ml_wf_update(1)[OF wf refl]) simp
  have cnt: "ml_count 0 (?v[k := Value x]) + (case ?v ! k of Value x \<Rightarrow> 1 | _ \<Rightarrow> 0) = ml_count 0 vec + 1"
    using ml_count_update(1)[OF k, of "Value x"] ml_count_extend(1)[of vec k] by simp
  have other: "ml_get_path (?v[k := Value x]) path' =
      (if path' = [k] then Some (Some x) else ml_get_path vec path')" if "length path' = Suc 0" for path'
  proof -
    from that obtain j where "path' = [j]" by (cases path') auto
    then show ?thesis
      using ml_extend_props(3)[of j Empty vec k] ml_extend_props(1)[of k Empty vec] k
      by (auto simp: vec_get_def nth_list_update ml_extend_def split: if_splits)
  qed
  have "?v ! k = Empty \<or> (\<exists>y. ?v ! k = Value y)" using ml_wf_nth(1)[OF wf k] by simp
  moreover have "ml_get_path vec [k] = Some (case ?v ! k of Value y \<Rightarrow> Some y | _ \<Rightarrow> None)"
    using calculation ml_extend_props(3)[OF k] by (auto simp: vec_get_def split: if_splits)
  ultimately show ?case
    using wf' cnt other d by (auto simp: Let_def simp del: ml_get_path.simps)
next
  case (3 vec k k' ks x)
  then obtain d' where d: "d = Suc d'" by (cases d) auto
  let ?v = "ml_extend (Level []) vec k"
  have wf: "ml_wf (Suc d') ?v" using "3.prems" d ml_wf_extend(2) by blast
  have k: "k < length ?v" by (simp add: ml_extend_props)
  from ml_wf_nth(2)[OF wf k refl] obtain l where l: "?v ! k = Level l" "ml_wf d' l" by blast
  from "3.IH"[OF refl l] "3.prems"(2) d obtain r l' where
    ins: "ml_insert_path l (k' # ks) x = Some (r, l')" "ml_get_path l (k' # ks) = Some r"
      "ml_wf d' l'" "ml_count d' l' = ml_count d' l + (if r = None then 1 else 0)"
      "\<And>p. length p = Suc d' \<Longrightarrow>
        ml_get_path l' p = (if p = k' # ks then Some (Some x) else ml_get_path l p)"
    by auto
  have get_ext: "ml_get_path ?v (k1 # k2 # ps) = ml_get_path vec (k1 # k2 # ps)" for k1 k2 ps
    using ml_extend_props(3)[of k1 "Level []" vec k] ml_extend_props(2)[of vec "Level []" k]
    by (auto simp: vec_get_def)
  have "ml_get_path vec (k # k' # ks) = Some r"
    using get_ext[of k k' ks] k l ins(2) by (simp add: vec_get_def)
  moreover have "ml_wf (Suc d') (?v[k := Level l'])"
    using ml_wf_update(2)[OF wf refl refl ins(3)] .
  moreover have "ml_count (Suc d') (?v[k := Level l']) =
      ml_count (Suc d') vec + (if r = None then 1 else 0)"
    using ml_count_update(2)[OF k, of d' "Level l'"] ml_count_extend(2)[of d' vec k] l ins(4) by simp
  moreover have "ml_get_path (?v[k := Level l']) p =
      (if p = k # k' # ks then Some (Some x) else ml_get_path vec p)" if "length p = Suc d" for p
  proof -
    from that d obtain k1 k2 ps where p: "p = k1 # k2 # ps" "length (k2 # ps) = Suc d'"
      by (metis (no_types, opaque_lifting) Suc_length_conv)
    show ?thesis
    proof (cases "k1 = k")
      case True
      then show ?thesis
        using p k l ins(5)[OF p(2)] get_ext[of k k2 ps] by (auto simp: vec_get_def)
    next
      case False
      then show ?thesis
        using p get_ext[of k1 k2 ps] by (auto simp: vec_get_def split: if_splits)
    qed
  qed
  ultimately show ?case
    using l ins(1) d by (simp add: Let_def)
qed simp

text \<open>Removal, in the same shape.\<close>

lemma ml_remove_path_spec:
  assumes "ml_wf d vec" "length path = Suc d"
  shows "\<exists>r vec'. ml_remove_path vec path = Some (r, vec') \<and> ml_get_path vec path = Some r \<and>
    ml_wf d vec' \<and> ml_count d vec = ml_count d vec' + (if r = None then 0 else 1) \<and>
    (\<forall>path'. length path' = Suc d \<longrightarrow>
       ml_get_path vec' path' = (if path' = path then Some None else ml_get_path vec path'))"
  using assms
proof (induction vec path arbitrary: d rule: ml_remove_path.induct)
  case (2 vec k)
  then have d: "d = 0" by simp
  show ?case
  proof (cases "k < length vec \<and> (\<exists>x. vec ! k = Value x)")
    case True
    then obtain x where k: "k < length vec" "vec ! k = Value x" by blast
    have "ml_get_path (vec[k := Empty]) p = (if p = [k] then Some None else ml_get_path vec p)"
      if "length p = Suc 0" for p
      using that k by (cases p) (auto simp: vec_get_def nth_list_update)
    then show ?thesis
      using k d "2.prems"(1) ml_count_update(1)[OF k(1), of Empty] ml_wf_update(1)[of 0 vec Empty k]
      by (simp add: vec_get_def)
  next
    case False
    then have "ml_get_path vec [k] = Some None" and "ml_remove_path vec [k] = Some (None, vec)"
      using ml_wf_nth(1)[OF "2.prems"(1), of k] d by (auto simp: vec_get_def)
    then show ?thesis using "2.prems"(1) by auto
  qed
next
  case (3 vec k k' ks)
  then obtain d' where d: "d = Suc d'" by (cases d) auto
  show ?case
  proof (cases "k < length vec")
    case False
    then show ?thesis using "3.prems"(1) by (auto simp: vec_get_def)
  next
    case True
    from ml_wf_nth(2)[OF "3.prems"(1) True d] obtain l where l: "vec ! k = Level l" "ml_wf d' l" by blast
    from "3.IH"[OF _ refl l(2)] l True "3.prems"(2) d obtain r l' where
      rem: "ml_remove_path l (k' # ks) = Some (r, l')" "ml_get_path l (k' # ks) = Some r"
        "ml_wf d' l'" "ml_count d' l = ml_count d' l' + (if r = None then 0 else 1)"
        "\<And>p. length p = Suc d' \<Longrightarrow>
          ml_get_path l' p = (if p = k' # ks then Some None else ml_get_path l p)"
      by (auto simp: vec_get_def)
    have "ml_get_path (vec[k := Level l']) p = (if p = k # k' # ks then Some None else ml_get_path vec p)"
      if "length p = Suc d" for p
    proof -
      from that d obtain k1 k2 ps where p: "p = k1 # k2 # ps" "length (k2 # ps) = Suc d'"
        by (metis (no_types, opaque_lifting) Suc_length_conv)
      then show ?thesis
        using True l rem(5)[OF p(2)] by (auto simp: vec_get_def nth_list_update)
    qed
    moreover have "ml_wf d (vec[k := Level l'])"
      using ml_wf_update(2)[OF "3.prems"(1) d refl rem(3)] .
    moreover have "ml_count d vec = ml_count d (vec[k := Level l']) + (if r = None then 0 else 1)"
      using ml_count_update(2)[OF True, of d' "Level l'"] l rem(4) d by (auto split: if_splits)
    ultimately show ?thesis
      using True l rem(1,2) by (simp add: vec_get_def)
  qed
qed simp

lemma ml_get_unchecked_path_spec:
  "ml_get_path vec path = Some (Some x) \<Longrightarrow> ml_get_unchecked_path vec path = Some x"
  by (induction vec path rule: ml_get_unchecked_path.induct)
    (auto split: option.splits ml_entry.splits)

lemma ml_get_mut_path_const:
  "ml_get_path vec path = Some (Some y) \<Longrightarrow>
   ml_get_mut_path f vec path = ml_insert_path vec path (f y)"
  by (induction vec path rule: ml_get_path.induct)
    (auto split: option.splits ml_entry.splits simp: ml_extend_def Let_def)

section \<open>Properties\<close>

lemma ml_new_inv: "0 < levels \<Longrightarrow> levels \<le> usize_max \<Longrightarrow> ml_inv (ml_new levels)"
  by (simp add: ml_inv_def ml_new_def usize_max_def)

lemma ml_too_long_iff:
  "ml_inv m \<Longrightarrow> ml_key_too_long m key \<longleftrightarrow> length key > ml_levels_idx m + 1"
  by (simp add: ml_key_too_long_def ml_inv_def)

lemma ml_insert_spec:
  assumes "ml_inv m"
  shows "\<exists>r m'. ml_insert m key x = Some (r, m') \<and> ml_inv m' \<and> ml_levels_idx m' = ml_levels_idx m \<and>
    (if length key > ml_levels_idx m + 1 then r = None \<and> m' = m
     else ml_get m key = Some r \<and>
       ml_len m' = ml_len m + (if r = None then 1 else 0) \<and>
       (\<forall>key'. length key' \<le> ml_levels_idx m + 1 \<longrightarrow>
          ml_get m' key' =
            (if ml_path (ml_levels_idx m) key' = ml_path (ml_levels_idx m) key then Some (Some x)
             else ml_get m key')))"
proof (cases "length key > ml_levels_idx m + 1")
  case True
  then show ?thesis
    using assms ml_too_long_iff[OF assms] by (auto simp: ml_insert_def)
next
  case False
  let ?L = "ml_levels_idx m"
  from assms have wf: "ml_wf ?L (ml_vec m)" and n: "ml_n m = ml_count ?L (ml_vec m)"
    by (simp_all add: ml_inv_def)
  from ml_insert_path_spec[OF wf, of "ml_path ?L key" x] obtain r v where
    ins: "ml_insert_path (ml_vec m) (ml_path ?L key) x = Some (r, v)"
      "ml_get_path (ml_vec m) (ml_path ?L key) = Some r" "ml_wf ?L v"
      "ml_count ?L v = ml_count ?L (ml_vec m) + (if r = None then 1 else 0)"
      "\<And>p. length p = Suc ?L \<Longrightarrow>
         ml_get_path v p = (if p = ml_path ?L key then Some (Some x) else ml_get_path (ml_vec m) p)"
    by auto
  let ?m' = "m\<lparr>ml_vec := v, ml_n := (if r = None then ml_n m + 1 else ml_n m)\<rparr>"
  have inv': "ml_inv ?m'" using assms ins n by (simp add: ml_inv_def)
  have short: "\<not> ml_key_too_long m' key'" if "ml_inv m'" "ml_levels_idx m' = ?L" "length key' \<le> ?L + 1" for m' :: "'a ml_map" and key'
    using that ml_too_long_iff by fastforce
  show ?thesis
    using False inv' ins short[OF assms] short[OF inv'] n assms
    by (auto simp: ml_insert_def ml_get_def ml_len_def)
qed

text \<open>Every insertion into a well-formed trie returns without undefined behaviour and keeps the
  trie well-formed, its length being the number of values stored. A key with more components than
  the trie has levels is silently ignored; otherwise the old value is returned, the key reads back
  the new value under every zero-padded spelling, and all other keys are unchanged.\<close>

lemma multilevel_insert_correct:
  assumes "ml_inv m"
  shows "\<exists>r m'. ml_insert m key x = Some (r, m') \<and> ml_inv m' \<and> ml_levels_idx m' = ml_levels_idx m \<and>
    (if length key > ml_levels_idx m + 1 then r = None \<and> m' = m
     else ml_get m key = Some r \<and>
       ml_len m' = ml_len m + (if r = None then 1 else 0) \<and>
       (\<forall>key'. length key' \<le> ml_levels_idx m + 1 \<longrightarrow>
          ml_get m' key' =
            (if ml_path (ml_levels_idx m) key' = ml_path (ml_levels_idx m) key then Some (Some x)
             else ml_get m key')))"
  by (rule ml_insert_spec[OF assms])

text \<open>Every removal from a well-formed trie returns without undefined behaviour and keeps it
  well-formed; the removed key reads as absent, the old value is returned and counted off, and all
  other keys are unchanged.\<close>

lemma multilevel_remove_correct:
  assumes "ml_inv m" "length key \<le> ml_levels_idx m + 1"
  shows "\<exists>r m'. ml_remove m key = Some (r, m') \<and> ml_inv m' \<and> ml_levels_idx m' = ml_levels_idx m \<and>
    ml_get m key = Some r \<and> ml_len m = ml_len m' + (if r = None then 0 else 1) \<and>
    (\<forall>key'. length key' \<le> ml_levels_idx m + 1 \<longrightarrow>
       ml_get m' key' =
         (if ml_path (ml_levels_idx m) key' = ml_path (ml_levels_idx m) key then Some None
          else ml_get m key'))"
proof -
  let ?L = "ml_levels_idx m"
  from assms have wf: "ml_wf ?L (ml_vec m)" and n: "ml_n m = ml_count ?L (ml_vec m)"
    by (simp_all add: ml_inv_def)
  from ml_remove_path_spec[OF wf, of "ml_path ?L key"] obtain r v where
    rem: "ml_remove_path (ml_vec m) (ml_path ?L key) = Some (r, v)"
      "ml_get_path (ml_vec m) (ml_path ?L key) = Some r" "ml_wf ?L v"
      "ml_count ?L (ml_vec m) = ml_count ?L v + (if r = None then 0 else 1)"
      "\<And>p. length p = Suc ?L \<Longrightarrow>
         ml_get_path v p = (if p = ml_path ?L key then Some None else ml_get_path (ml_vec m) p)"
    by auto
  let ?m' = "m\<lparr>ml_vec := v, ml_n := (if r = None then ml_n m else ml_n m - 1)\<rparr>"
  have inv': "ml_inv ?m'" using assms rem n by (simp add: ml_inv_def)
  have short: "\<not> ml_key_too_long m' key'" if "ml_inv m'" "ml_levels_idx m' = ?L" "length key' \<le> ?L + 1" for m' :: "'a ml_map" and key'
    using that ml_too_long_iff by fastforce
  show ?thesis
    using inv' rem short[OF assms(1)] short[OF inv'] n assms
    by (auto simp: ml_remove_def ml_get_def ml_len_def)
qed

text \<open>The padded key determines which entry is addressed: trailing zeros do not matter.\<close>

lemma ml_path_pad: "ml_path L (key @ replicate j 0) = ml_path L key"
  by (auto simp: ml_path_def key_at_def vec_get_def nth_append split: option.splits)

end
