(* ===== verification/Vec_Map.thy ===== *)
theory Vec_Map
  imports Container_Specs
begin

text \<open>
  \<open>VecMap\<close> of \<open>shared/src/utils/vec_map.rs\<close>: a map from small integers to values, kept as a
  vector of options and a count of the occupied cells. The vector's capacity has no effect on
  any result, so the operations that only reserve memory are not modelled.

  A \<open>&mut V\<close> handed out by \<open>get_mut\<close> and its kin is modelled by the value it points to,
  together with \<open>vm_put\<close>, the write through that reference.
\<close>

section \<open>The data and its operations\<close>

record 'v vec_map =
  vm_n :: nat
  vm_v :: "'v option list"

definition vm_new :: "'v vec_map" where
  "vm_new = \<lparr>vm_n = 0, vm_v = []\<rparr>"

definition vm_with_capacity :: "nat \<Rightarrow> 'v vec_map" where
  "vm_with_capacity capacity = \<lparr>vm_n = 0, vm_v = []\<rparr>"

text \<open>Trailing empty cells are cut off.\<close>

definition vm_shrink_to_fit :: "'v vec_map \<Rightarrow> 'v vec_map" where
  "vm_shrink_to_fit m =
     (case rposition (\<lambda>x. x \<noteq> None) (vm_v m) of
        Some idx \<Rightarrow> m\<lparr>vm_v := take (idx + 1) (vm_v m)\<rparr>
      | None \<Rightarrow> m\<lparr>vm_v := []\<rparr>)"

definition vm_len :: "'v vec_map \<Rightarrow> nat" where
  "vm_len m = vm_n m"

definition vm_is_empty :: "'v vec_map \<Rightarrow> bool" where
  "vm_is_empty m = (vm_n m = 0)"

definition vm_clear :: "'v vec_map \<Rightarrow> 'v vec_map" where
  "vm_clear m = m\<lparr>vm_n := 0, vm_v := []\<rparr>"

definition vm_get :: "'v vec_map \<Rightarrow> nat \<Rightarrow> 'v option" where
  "vm_get m key = (if key < length (vm_v m) then vm_v m ! key else None)"

text \<open>\<open>[T]::get_many_mut\<close> fails when an index is out of range or repeated, \<open>try_map\<close> when a
  cell is empty.\<close>

definition vm_get_many_mut :: "'v vec_map \<Rightarrow> nat list \<Rightarrow> 'v list option" where
  "vm_get_many_mut m keys =
     (if (\<forall>k \<in> set keys. k < length (vm_v m)) \<and> distinct keys
      then those (map (\<lambda>k. vm_v m ! k) keys) else None)"

text \<open>The unchecked variants: out of range, repeated or empty is undefined behaviour (\<open>None\<close>).\<close>

definition vm_get_unchecked :: "'v vec_map \<Rightarrow> nat \<Rightarrow> 'v option" where
  "vm_get_unchecked m key = (if key < length (vm_v m) then vm_v m ! key else None)"

definition vm_get_many_unchecked_mut :: "'v vec_map \<Rightarrow> nat list \<Rightarrow> 'v list option" where
  "vm_get_many_unchecked_mut m keys =
     (if (\<forall>k \<in> set keys. k < length (vm_v m)) \<and> distinct keys
      then those (map (\<lambda>k. vm_v m ! k) keys) else None)"

definition vm_contains_key :: "'v vec_map \<Rightarrow> nat \<Rightarrow> bool" where
  "vm_contains_key m key = (vm_get m key \<noteq> None)"

definition vm_get_mut :: "'v vec_map \<Rightarrow> nat \<Rightarrow> 'v option" where
  "vm_get_mut m key = (if key < length (vm_v m) then vm_v m ! key else None)"

definition vm_get_unchecked_mut :: "'v vec_map \<Rightarrow> nat \<Rightarrow> 'v option" where
  "vm_get_unchecked_mut m key = (if key < length (vm_v m) then vm_v m ! key else None)"

text \<open>Writing through a \<open>&mut V\<close> that points at the cell of \<open>key\<close>.\<close>

definition vm_put :: "nat \<Rightarrow> 'v \<Rightarrow> 'v vec_map \<Rightarrow> 'v vec_map" where
  "vm_put key x m = m\<lparr>vm_v := (vm_v m)[key := Some x]\<rparr>"

definition vm_get_or_insert_with :: "'v vec_map \<Rightarrow> nat \<Rightarrow> (unit \<Rightarrow> 'v) \<Rightarrow> 'v \<times> 'v vec_map" where
  "vm_get_or_insert_with m key value =
     (let len = length (vm_v m) in
      if len \<le> key then
        (let x = value (); v = vm_v m @ replicate (key - len + 1) None in
         (x, m\<lparr>vm_n := vm_n m + 1, vm_v := v[key := Some x]\<rparr>))
      else
        (case vm_v m ! key of
           Some x \<Rightarrow> (x, m)
         | None \<Rightarrow> (let x = value () in
             (x, m\<lparr>vm_n := vm_n m + 1, vm_v := (vm_v m)[key := Some x]\<rparr>))))"

definition vm_get_or_insert :: "'v vec_map \<Rightarrow> nat \<Rightarrow> 'v \<Rightarrow> 'v \<times> 'v vec_map" where
  "vm_get_or_insert m key value =
     (let len = length (vm_v m) in
      if len \<le> key then
        (let v = vm_v m @ replicate (key - len + 1) None in
         (value, m\<lparr>vm_n := vm_n m + 1, vm_v := v[key := Some value]\<rparr>))
      else
        (case vm_v m ! key of
           Some x \<Rightarrow> (x, m)
         | None \<Rightarrow> (value, m\<lparr>vm_n := vm_n m + 1, vm_v := (vm_v m)[key := Some value]\<rparr>)))"

definition vm_insert :: "'v vec_map \<Rightarrow> nat \<Rightarrow> 'v \<Rightarrow> 'v option \<times> 'v vec_map" where
  "vm_insert m key value =
     (let len = length (vm_v m);
          v = (if len \<le> key then vm_v m @ replicate (key - len + 1) None else vm_v m);
          was = v ! key;
          n = (if was = None then vm_n m + 1 else vm_n m)
      in (was, m\<lparr>vm_n := n, vm_v := v[key := Some value]\<rparr>))"

text \<open>A removal counts down only when there was an entry; the invariant makes the number of entries positive then, so the wrap-around of the machine
  integer does not arise.\<close>

definition vm_remove :: "'v vec_map \<Rightarrow> nat \<Rightarrow> 'v option \<times> 'v vec_map" where
  "vm_remove m key =
     (if length (vm_v m) \<le> key then (None, m)
      else
        (let was = vm_v m ! key;
             n = (if was \<noteq> None then vm_n m - 1 else vm_n m)
         in (was, m\<lparr>vm_n := n, vm_v := (vm_v m)[key := None]\<rparr>)))"

definition vm_remove_unchecked :: "'v vec_map \<Rightarrow> nat \<Rightarrow> ('v \<times> 'v vec_map) option" where
  "vm_remove_unchecked m key =
     (if key < length (vm_v m) then
        (case vm_v m ! key of
           None \<Rightarrow> None
         | Some x \<Rightarrow> Some (x, m\<lparr>vm_n := vm_n m - 1, vm_v := (vm_v m)[key := None]\<rparr>))
      else None)"

text \<open>The three iterators yield the occupied cells in key order; the mutable one lets the client
  rewrite each value in place.\<close>

definition vm_iter :: "'v vec_map \<Rightarrow> 'v list" where
  "vm_iter m = flatten_opt (vm_v m)"

definition vm_into_iter :: "'v vec_map \<Rightarrow> 'v list" where
  "vm_into_iter m = flatten_opt (vm_v m)"

definition vm_iter_mut :: "('v \<Rightarrow> 'v) \<Rightarrow> 'v vec_map \<Rightarrow> 'v vec_map" where
  "vm_iter_mut f m = m\<lparr>vm_v := map (map_option f) (vm_v m)\<rparr>"

text \<open>The entries the \<open>Debug\<close> implementation prints.\<close>

definition vm_debug_entries :: "'v vec_map \<Rightarrow> (nat \<times> 'v) list" where
  "vm_debug_entries m =
     List.map_filter (\<lambda>(i, x). map_option (Pair i) x) (enumerate 0 (vm_v m))"

text \<open>\<open>Index\<close>: \<open>None\<close> is the panic "key not present".\<close>

definition vm_index :: "'v vec_map \<Rightarrow> nat \<Rightarrow> 'v option" where
  "vm_index m i = vm_get m i"

section \<open>Invariant and abstraction\<close>

definition vm_inv :: "'v vec_map \<Rightarrow> bool" where
  "vm_inv m \<longleftrightarrow> vm_n m = occupied (vm_v m)"

definition vm_map :: "'v vec_map \<Rightarrow> nat \<Rightarrow> 'v option" where
  "vm_map m k = (if k < length (vm_v m) then vm_v m ! k else None)"

lemmas vm_reads = vm_get_def vm_get_mut_def vm_get_unchecked_def vm_get_unchecked_mut_def
  vm_contains_key_def vm_index_def

lemma vm_get_map [simp]:
  "vm_get m k = vm_map m k" "vm_get_mut m k = vm_map m k"
  "vm_get_unchecked m k = vm_map m k" "vm_get_unchecked_mut m k = vm_map m k"
  "vm_index m k = vm_map m k"
  by (simp_all add: vm_reads vm_map_def)

lemma vm_contains_key_map [simp]: "vm_contains_key m k \<longleftrightarrow> k \<in> dom (vm_map m)"
  by (auto simp: vm_contains_key_def)

lemma vm_map_dom: "dom (vm_map m) = {i. i < length (vm_v m) \<and> vm_v m ! i \<noteq> None}"
  by (auto simp: vm_map_def dom_def split: if_splits)

lemma vm_map_finite [simp]: "finite (dom (vm_map m))"
  by (simp add: vm_map_dom)

lemma vm_map_bound: "vm_map m k = Some x \<Longrightarrow> k < length (vm_v m) \<and> vm_v m ! k = Some x"
  by (auto simp: vm_map_def split: if_splits)

lemma vm_len_card: "vm_inv m \<Longrightarrow> vm_len m = card (dom (vm_map m))"
  by (simp add: vm_inv_def vm_len_def occupied_eq_card vm_map_dom)

lemma vm_new_spec [simp]: "vm_inv vm_new" "vm_map vm_new = Map.empty"
  by (auto simp: vm_inv_def vm_map_def vm_new_def)

lemma vm_with_capacity_eq [simp]: "vm_with_capacity c = vm_new"
  by (simp add: vm_with_capacity_def vm_new_def)

lemma vm_clear_spec [simp]: "vm_inv (vm_clear m)" "vm_map (vm_clear m) = Map.empty"
  by (auto simp: vm_inv_def vm_map_def vm_clear_def)

lemma vm_is_empty_iff: "vm_inv m \<Longrightarrow> vm_is_empty m \<longleftrightarrow> vm_map m = Map.empty"
  using vm_len_card[of m] by (auto simp: vm_is_empty_def vm_len_def)

text \<open>Reading a cell of the vector grown by empty cells.\<close>

lemma nth_grow:
  "length xs \<le> k \<Longrightarrow> i \<le> k \<Longrightarrow>
   (xs @ None # replicate (k - length xs) None) ! i = (if i < length xs then xs ! i else None)"
  by (auto simp: nth_append nth_Cons split: nat.splits)

lemma vm_insert_spec:
  shows "fst (vm_insert m k x) = vm_map m k"
    and "vm_map (snd (vm_insert m k x)) = (vm_map m)(k \<mapsto> x)"
    and "vm_inv m \<Longrightarrow> vm_inv (snd (vm_insert m k x))"
  by (auto simp: vm_insert_def vm_map_def Let_def nth_grow nth_list_update fun_eq_iff
      vm_inv_def occupied_update_Some)

lemma vm_remove_spec:
  shows "fst (vm_remove m k) = vm_map m k"
    and "vm_map (snd (vm_remove m k)) = (vm_map m)(k := None)"
    and "vm_inv m \<Longrightarrow> vm_inv (snd (vm_remove m k))"
  by (auto simp: vm_remove_def vm_map_def Let_def nth_list_update fun_eq_iff
      vm_inv_def occupied_update_None)

lemma vm_remove_unchecked_spec:
  "vm_map m k = Some x \<Longrightarrow> vm_remove_unchecked m k = Some (x, snd (vm_remove m k))"
  by (auto simp: vm_remove_unchecked_def vm_remove_def vm_map_def Let_def split: if_splits)

lemma vm_remove_unchecked_None:
  "vm_map m k = None \<Longrightarrow> vm_remove_unchecked m k = None"
  by (auto simp: vm_remove_unchecked_def vm_map_def split: if_splits)

lemma vm_put_spec:
  assumes "vm_map m k \<noteq> None"
  shows "vm_map (vm_put k x m) = (vm_map m)(k \<mapsto> x)" "vm_inv m \<Longrightarrow> vm_inv (vm_put k x m)"
  using assms
  by (auto simp: vm_put_def vm_map_def fun_eq_iff nth_list_update vm_inv_def occupied_update_Some
      split: if_splits)

lemma vm_put_len [simp]: "vm_n (vm_put k x m) = vm_n m" "length (vm_v (vm_put k x m)) = length (vm_v m)"
  by (simp_all add: vm_put_def)

lemma vm_get_or_insert_spec:
  "vm_get_or_insert m k x =
     (case vm_map m k of Some y \<Rightarrow> (y, m) | None \<Rightarrow> (x, snd (vm_insert m k x)))"
  by (auto simp: vm_get_or_insert_def vm_insert_def vm_map_def Let_def nth_grow split: option.splits)

lemma vm_get_or_insert_with_spec:
  "vm_get_or_insert_with m k f = vm_get_or_insert m k (f ())"
  by (simp add: vm_get_or_insert_with_def vm_get_or_insert_def Let_def split: option.splits)

lemma vm_iter_mut_spec:
  shows "vm_map (vm_iter_mut f m) = map_option f \<circ> vm_map m"
    and "vm_inv m \<Longrightarrow> vm_inv (vm_iter_mut f m)"
proof -
  show "vm_map (vm_iter_mut f m) = map_option f \<circ> vm_map m"
    by (auto simp: vm_iter_mut_def vm_map_def)
  have "occupied (map (map_option f) xs) = occupied xs" for xs
    by (induction xs rule: occupied.induct) auto
  then show "vm_inv m \<Longrightarrow> vm_inv (vm_iter_mut f m)"
    by (simp add: vm_inv_def vm_iter_mut_def)
qed

lemma vm_shrink_map [simp]: "vm_map (vm_shrink_to_fit m) = vm_map m"
proof (cases "rposition (\<lambda>x. x \<noteq> None) (vm_v m)")
  case None
  then have "\<forall>k<length (vm_v m). vm_v m ! k = None"
    by (simp add: rposition_None_iff)
  then show ?thesis
    unfolding vm_shrink_to_fit_def None by (auto simp: vm_map_def)
next
  case (Some idx)
  then have "\<And>j. idx < j \<Longrightarrow> j < length (vm_v m) \<Longrightarrow> vm_v m ! j = None"
    by (simp add: rposition_Some_iff)
  then show ?thesis
    unfolding vm_shrink_to_fit_def Some by (auto simp: vm_map_def fun_eq_iff not_less Suc_le_eq)
qed

lemma vm_many_spec:
  "vm_get_many_unchecked_mut m [i, j] =
     (if i \<noteq> j then do { x \<leftarrow> vm_map m i; y \<leftarrow> vm_map m j; Some [x, y] } else None)"
  by (auto simp: vm_get_many_unchecked_mut_def vm_map_def split: option.splits)

section \<open>The map contract\<close>

interpretation vec_map: usize_map vm_inv vm_map vm_new "\<lambda>m k. Some (vm_get m k)"
  "\<lambda>m k x. Some (vm_insert m k x)" "\<lambda>m k. Some (vm_remove m k)" vm_len
proof (unfold_locales, goal_cases)
  case (4 m k v)
  then show ?case using vm_insert_spec[of m k v] by (metis prod.collapse)
next
  case (5 m k)
  then show ?case using vm_remove_spec[of m k] by (metis prod.collapse)
qed (simp_all add: vm_len_card)

text \<open>Any sequence of insertions and removals on a fresh \<open>VecMap\<close> returns the same old values
  as the mathematical map, ends with the same contents, and its cached length is the number of
  keys present.\<close>

lemma vec_map_refines:
  "\<exists>m. run_map_ops (\<lambda>m k x. Some (vm_insert m k x)) (\<lambda>m k. Some (vm_remove m k)) ops vm_new
          = Some (fst (run_abs_ops ops Map.empty), m) \<and>
       vm_inv m \<and> (\<forall>k. vm_get m k = snd (run_abs_ops ops Map.empty) k) \<and>
       vm_len m = card (dom (snd (run_abs_ops ops Map.empty)))"
  using vec_map.run_from_new[of ops] by auto

end
