(* ===== verification/Pointer_Lists.thy ===== *)
theory Pointer_Lists
  imports Grid_Prelude
begin

text \<open>
  Lists threaded through memory by \<open>next\<close> and \<open>prev\<close> pointers. Address 0 is the null pointer.
  \<open>dseg nx pv a xs b\<close> says that following \<open>next\<close> from \<open>a\<close> visits \<open>xs\<close> and arrives at \<open>b\<close>, and that
  the \<open>prev\<close> pointers lead back; a ring with sentinel \<open>h\<close> is \<open>dseg nx pv h xs h\<close>. \<open>sseg nx a xs\<close> is a
  singly linked list that starts at \<open>a\<close> and ends with null.
\<close>

type_synonym addr = nat

fun dseg :: "(addr \<Rightarrow> addr) \<Rightarrow> (addr \<Rightarrow> addr) \<Rightarrow> addr \<Rightarrow> addr list \<Rightarrow> addr \<Rightarrow> bool" where
  "dseg nx pv a [] b \<longleftrightarrow> nx a = b \<and> pv b = a"
| "dseg nx pv a (x # xs) b \<longleftrightarrow> nx a = x \<and> pv x = a \<and> dseg nx pv x xs b"

fun sseg :: "(addr \<Rightarrow> addr) \<Rightarrow> addr \<Rightarrow> addr list \<Rightarrow> bool" where
  "sseg nx a [] \<longleftrightarrow> a = 0"
| "sseg nx a (x # xs) \<longleftrightarrow> a = x \<and> sseg nx (nx x) xs"

text \<open>Writes outside a segment do not affect it.\<close>

lemma dseg_frame:
  assumes "\<And>q. q = a \<or> q \<in> set xs \<Longrightarrow> nx' q = nx q" "\<And>q. q \<in> set xs \<or> q = b \<Longrightarrow> pv' q = pv q"
  shows "dseg nx' pv' a xs b = dseg nx pv a xs b"
  using assms by (induction xs arbitrary: a) auto

lemma sseg_frame:
  assumes "\<And>q. q \<in> set xs \<Longrightarrow> nx' q = nx q"
  shows "sseg nx' a xs = sseg nx a xs"
  using assms by (induction xs arbitrary: a) auto

lemma dseg_upd [simp]:
  "q \<noteq> a \<Longrightarrow> q \<notin> set xs \<Longrightarrow> dseg (nx(q := v)) pv a xs b = dseg nx pv a xs b"
  "q \<notin> set xs \<Longrightarrow> q \<noteq> b \<Longrightarrow> dseg nx (pv(q := v)) a xs b = dseg nx pv a xs b"
  by (rule dseg_frame; auto)+

lemma sseg_upd [simp]: "q \<notin> set xs \<Longrightarrow> sseg (nx(q := v)) a xs = sseg nx a xs"
  by (rule sseg_frame) auto

lemma dseg_append: "dseg nx pv a (xs @ p # ys) b \<longleftrightarrow> dseg nx pv a xs p \<and> dseg nx pv p ys b"
  by (induction xs arbitrary: a) auto

lemma dseg_first: "dseg nx pv a xs b \<Longrightarrow> nx a = hd (xs @ [b])"
  by (cases xs) auto

lemma dseg_last: "dseg nx pv a xs b \<Longrightarrow> pv b = last (a # xs)"
  by (induction xs arbitrary: a) auto

lemma dseg_prev_last: "dseg nx pv a (xs @ [x]) b \<Longrightarrow> pv b = x"
  by (simp add: dseg_append)

text \<open>Unlinking a node from the middle.\<close>

lemma dseg_unlink:
  assumes "dseg nx pv a (xs @ p # ys) b" "distinct (xs @ p # ys)" "a \<notin> set (xs @ p # ys)"
    "b \<notin> set (xs @ p # ys)"
  shows "dseg (nx(pv p := nx p)) (pv(nx p := pv p)) a (xs @ ys) b"
proof -
  have "dseg (nx(last (a # xs) := hd (ys @ [b]))) (pv(hd (ys @ [b]) := last (a # xs))) a (xs @ ys) b"
    using assms
  proof (induction xs arbitrary: a)
    case Nil
    then have "a \<noteq> p" "nx p = hd (ys @ [b])" using dseg_first[of nx pv p ys b] by auto
    with Nil show ?case
    proof (cases ys)
      case (Cons y ys')
      then have "y \<noteq> a" "y \<notin> set ys'" "y \<noteq> b" "a \<notin> set ys'" "dseg nx pv y ys' b"
        using Nil.prems by auto
      then show ?thesis using Cons by (simp del: fun_upd_apply) simp
    qed simp
  next
    case (Cons x xs)
    have "hd (ys @ [b]) \<noteq> x" using Cons.prems by (cases ys) auto
    then show ?case using Cons.IH[of x] Cons.prems by auto
  qed
  moreover have "pv p = last (a # xs)" "nx p = hd (ys @ [b])"
    using assms(1) dseg_last[of nx pv a xs p] dseg_first[of nx pv p ys b] by (auto simp: dseg_append)
  ultimately show ?thesis by simp
qed

text \<open>Linking a new node after the sentinel.\<close>

lemma dseg_link:
  assumes "dseg nx pv h xs h" "p \<notin> set xs" "h \<notin> set xs" "p \<noteq> h" "distinct xs"
  shows "dseg (nx(p := nx h, h := p)) (pv(p := h, nx h := p)) h (p # xs) h"
proof (cases xs)
  case Nil
  then show ?thesis using assms by simp
next
  case (Cons y ys)
  then have y: "nx h = y" "pv y = h" "dseg nx pv y ys h" using assms(1) by auto
  have "y \<noteq> p" "y \<noteq> h" "y \<notin> set ys" "p \<notin> set ys" "h \<notin> set ys" using assms Cons by auto
  then have "dseg (nx(p := y, h := p)) (pv(p := h, y := p)) y ys h" using y(3) assms(4) by simp
  then show ?thesis using \<open>y \<noteq> p\<close> assms(4) unfolding Cons y(1) by simp
qed

lemma dseg_empty_ring: "dseg (nx(h := h)) (pv(h := h)) h [] h"
  by simp

text \<open>A doubly linked segment whose last \<open>next\<close> is redirected is a singly linked list.\<close>

lemma dseg_to_sseg:
  assumes "dseg nx pv a (x # xs) b" "sseg nx c ys" "distinct (x # xs @ ys)"
  shows "sseg (nx(last (x # xs) := c)) x (x # xs @ ys)"
  using assms
proof (induction xs arbitrary: a x)
  case Nil
  then have "sseg (nx(x := c)) c ys" by simp
  then show ?case by (simp add: fun_upd_def)
next
  case (Cons y xs)
  have ne: "last (y # xs) \<noteq> x" using Cons.prems(3) by auto
  from Cons.prems have "sseg (nx(last (y # xs) := c)) y (y # xs @ ys)"
    by (intro Cons.IH[of x y]) auto
  moreover have "(nx(last (y # xs) := c)) x = y" using Cons.prems(1) ne by simp
  moreover have "last (x # y # xs) = last (y # xs)" by simp
  ultimately show ?case by (simp only: append_Cons sseg.simps(2)[of _ x x] simp_thms)
qed

text \<open>Following \<open>next\<close> up to a given address.\<close>

fun nseg :: "(addr \<Rightarrow> addr) \<Rightarrow> addr \<Rightarrow> addr list \<Rightarrow> addr \<Rightarrow> bool" where
  "nseg nx a [] e \<longleftrightarrow> a = e"
| "nseg nx a (x # xs) e \<longleftrightarrow> a = x \<and> nseg nx (nx x) xs e"

lemma nseg_frame:
  assumes "\<And>q. q \<in> set xs \<Longrightarrow> nx' q = nx q"
  shows "nseg nx' a xs e = nseg nx a xs e"
  using assms by (induction xs arbitrary: a) auto

lemma sseg_nseg: "sseg nx a xs = nseg nx a xs 0"
  by (induction xs arbitrary: a) auto

lemma dseg_nseg: "dseg nx pv a xs b \<Longrightarrow> nseg nx (nx a) xs b"
  by (induction xs arbitrary: a) auto

text \<open>Following \<open>prev\<close> from the last element of a list back to its first.\<close>

definition pseg :: "(addr \<Rightarrow> addr) \<Rightarrow> addr list \<Rightarrow> bool" where
  "pseg pv xs \<longleftrightarrow> (\<forall>i. Suc i < length xs \<longrightarrow> pv (xs ! Suc i) = xs ! i)"

lemma pseg_snoc: "pseg pv (xs @ [x]) \<longleftrightarrow> pseg pv xs \<and> (xs \<noteq> [] \<longrightarrow> pv x = last xs)"
proof (cases xs rule: rev_cases)
  case (snoc ys y)
  have "pseg pv (xs @ [x]) \<longleftrightarrow> pseg pv xs \<and> pv x = xs ! length ys"
    unfolding pseg_def snoc
    by (auto simp: nth_append less_Suc_eq all_conj_distrib imp_conjR)
  then show ?thesis by (simp add: snoc)
qed (simp add: pseg_def)

lemma dseg_pseg: "dseg nx pv a xs b \<Longrightarrow> pseg pv xs"
proof (induction xs arbitrary: b rule: rev_induct)
  case (snoc x xs)
  then have "dseg nx pv a xs x" by (simp add: dseg_append)
  then show ?case using snoc.IH dseg_last[of nx pv a xs x] by (auto simp: pseg_snoc)
qed (simp add: pseg_def)

lemma in_set_tlD: "q \<in> set (tl xs) \<Longrightarrow> q \<in> set xs"
  by (cases xs) auto

lemma pseg_frame:
  assumes "pseg pv xs" "\<And>q. q \<in> set (tl xs) \<Longrightarrow> pv' q = pv q"
  shows "pseg pv' xs"
  unfolding pseg_def
proof (intro allI impI)
  fix i assume i: "Suc i < length xs"
  then have "xs ! Suc i \<in> set (tl xs)" by (cases xs) auto
  then show "pv' (xs ! Suc i) = xs ! i" using assms i by (auto simp: pseg_def)
qed

end
