(* ===== verification/Linked_Vec_Map.thy ===== *)
theory Linked_Vec_Map
  imports Vec_Map Pointer_Lists
begin

text \<open>
  \<open>LinkedVecMap\<close> of \<open>shared/src/utils/linked_vec_map.rs\<close>: a map keyed by small integers that keeps
  its entries in insertion order on a doubly linked ring of heap nodes with a guard node. Removed
  nodes are kept on a free list and reused.

  The raw pointers are modelled with an explicit memory: a partial function from addresses to
  nodes. Reading or writing through a null or dangling pointer gives \<open>None\<close>, so a theorem that
  an operation returns \<open>Some\<close> is also a memory-safety theorem. Allocation takes the next unused
  address (the code never looks at the value of an address); deallocation removes the node.
  A node's key and value are options because the guard node is allocated uninitialised.
  Taking a value out with \<open>ptr::read\<close> leaves the bytes of the node in place, as in the code.

  The ring runs from the guard's \<open>next\<close>, the newest entry, to its \<open>prev\<close>, the oldest.
\<close>

section \<open>Nodes and memory\<close>

record 'v lnode =
  n_next :: addr
  n_prev :: addr
  n_key :: "nat option"
  n_value :: "'v option"

record 'v lvm =
  lvm_map :: "addr vec_map"
  lvm_head :: addr
  lvm_free :: addr
  lvm_mem :: "addr \<Rightarrow> 'v lnode option"
  lvm_fresh :: addr

definition node_new :: "nat \<Rightarrow> 'v \<Rightarrow> 'v lnode" where
  "node_new k v = \<lparr>n_next = 0, n_prev = 0, n_key = Some k, n_value = Some v\<rparr>"

text \<open>A raw write to a field of a node.\<close>

definition lvm_write :: "addr \<Rightarrow> ('v lnode \<Rightarrow> 'v lnode) \<Rightarrow> 'v lvm \<Rightarrow> 'v lvm option" where
  "lvm_write p f m =
     do { n \<leftarrow> lvm_mem m p; Some (m\<lparr>lvm_mem := (lvm_mem m)(p \<mapsto> f n)\<rparr>) }"

abbreviation set_next :: "addr \<Rightarrow> addr \<Rightarrow> 'v lvm \<Rightarrow> 'v lvm option" where
  "set_next p q \<equiv> lvm_write p (\<lambda>n. n\<lparr>n_next := q\<rparr>)"

abbreviation set_prev :: "addr \<Rightarrow> addr \<Rightarrow> 'v lvm \<Rightarrow> 'v lvm option" where
  "set_prev p q \<equiv> lvm_write p (\<lambda>n. n\<lparr>n_prev := q\<rparr>)"

definition lvm_alloc :: "'v lnode \<Rightarrow> 'v lvm \<Rightarrow> addr \<times> 'v lvm" where
  "lvm_alloc n m =
     (let p = lvm_fresh m in (p, m\<lparr>lvm_fresh := Suc p, lvm_mem := (lvm_mem m)(p \<mapsto> n)\<rparr>))"

text \<open>Deallocating a node that is not allocated is undefined.\<close>

definition lvm_dealloc :: "addr \<Rightarrow> 'v lvm \<Rightarrow> 'v lvm option" where
  "lvm_dealloc p m = do { _ \<leftarrow> lvm_mem m p; Some (m\<lparr>lvm_mem := (lvm_mem m)(p := None)\<rparr>) }"

section \<open>Operations\<close>

definition lvm_with_map :: "addr vec_map \<Rightarrow> 'v lvm" where
  "lvm_with_map vmap =
     \<lparr>lvm_map = vmap, lvm_head = 0, lvm_free = 0, lvm_mem = (\<lambda>_. None), lvm_fresh = 1\<rparr>"

definition lvm_new :: "'v lvm" where
  "lvm_new = lvm_with_map vm_new"

definition lvm_with_capacity :: "nat \<Rightarrow> 'v lvm" where
  "lvm_with_capacity capacity = lvm_with_map (vm_with_capacity capacity)"

definition lvm_detach :: "addr \<Rightarrow> 'v lvm \<Rightarrow> 'v lvm option" where
  "lvm_detach node m =
     do {
       n \<leftarrow> lvm_mem m node;
       m \<leftarrow> set_next (n_prev n) (n_next n) m;
       n \<leftarrow> lvm_mem m node;
       set_prev (n_next n) (n_prev n) m
     }"

definition lvm_attach :: "addr \<Rightarrow> 'v lvm \<Rightarrow> 'v lvm option" where
  "lvm_attach node m =
     do {
       h \<leftarrow> lvm_mem m (lvm_head m);
       m \<leftarrow> set_next node (n_next h) m;
       m \<leftarrow> set_prev node (lvm_head m) m;
       m \<leftarrow> set_next (lvm_head m) node m;
       n \<leftarrow> lvm_mem m node;
       set_prev (n_next n) node m
     }"

text \<open>The two loops that free nodes; neither returning nor staying within memory is \<open>None\<close>.\<close>

partial_function (option) drop_entries_loop :: "addr \<Rightarrow> 'v lvm \<Rightarrow> 'v lvm option" where
  "drop_entries_loop cur m =
     (if cur = lvm_head m then Some m
      else do {
        n \<leftarrow> lvm_mem m cur;
        m \<leftarrow> lvm_dealloc cur m;
        drop_entries_loop (n_next n) m
      })"

definition lvm_drop_entries :: "'v lvm \<Rightarrow> 'v lvm option" where
  "lvm_drop_entries m = do { h \<leftarrow> lvm_mem m (lvm_head m); drop_entries_loop (n_next h) m }"

partial_function (option) clear_free_loop :: "addr \<Rightarrow> 'v lvm \<Rightarrow> 'v lvm option" where
  "clear_free_loop free m =
     (if free = 0 then Some m
      else do {
        n \<leftarrow> lvm_mem m free;
        m \<leftarrow> lvm_dealloc free m;
        clear_free_loop (n_next n) m
      })"

definition lvm_clear_free_list :: "'v lvm \<Rightarrow> 'v lvm option" where
  "lvm_clear_free_list m = do { m \<leftarrow> clear_free_loop (lvm_free m) m; Some (m\<lparr>lvm_free := 0\<rparr>) }"

definition lvm_ensure_guard_node :: "'v lvm \<Rightarrow> 'v lvm option" where
  "lvm_ensure_guard_node m =
     (if lvm_head m = 0 then
        do {
          let (p, m) = lvm_alloc \<lparr>n_next = 0, n_prev = 0, n_key = None, n_value = None\<rparr> m;
          let m = m\<lparr>lvm_head := p\<rparr>;
          m \<leftarrow> set_next (lvm_head m) (lvm_head m) m;
          set_prev (lvm_head m) (lvm_head m) m
        }
      else Some m)"

definition lvm_shrink_to_fit :: "'v lvm \<Rightarrow> 'v lvm option" where
  "lvm_shrink_to_fit m = lvm_clear_free_list (m\<lparr>lvm_map := vm_shrink_to_fit (lvm_map m)\<rparr>)"

text \<open>A node for a new entry: a recycled one if the free list has one.\<close>

definition lvm_make_node :: "nat \<Rightarrow> 'v \<Rightarrow> 'v lvm \<Rightarrow> (addr \<times> 'v lvm) option" where
  "lvm_make_node k v m =
     (if lvm_free m = 0 then Some (lvm_alloc (node_new k v) m)
      else do {
        let free = lvm_free m;
        n \<leftarrow> lvm_mem m free;
        m \<leftarrow> lvm_write free (\<lambda>_. node_new k v) (m\<lparr>lvm_free := n_next n\<rparr>);
        Some (free, m)
      })"

definition lvm_insert :: "'v lvm \<Rightarrow> nat \<Rightarrow> 'v \<Rightarrow> ('v option \<times> 'v lvm) option" where
  "lvm_insert m k v =
     do {
       m \<leftarrow> lvm_ensure_guard_node m;
       (node, old_val, m) \<leftarrow>
         (case vm_get (lvm_map m) k of
            Some node \<Rightarrow>
              do {
                n \<leftarrow> lvm_mem m node;
                old \<leftarrow> n_value n;
                m \<leftarrow> lvm_write node (\<lambda>n. n\<lparr>n_value := Some v\<rparr>) m;
                Some (node, Some old, m)
              }
          | None \<Rightarrow> do { (node, m) \<leftarrow> lvm_make_node k v m; Some (node, None, m) });
       m \<leftarrow>
         (case old_val of
            Some _ \<Rightarrow> do { m \<leftarrow> lvm_detach node m; lvm_attach node m }
          | None \<Rightarrow>
              (let (_, map) = vm_insert (lvm_map m) k node
               in lvm_attach node (m\<lparr>lvm_map := map\<rparr>)));
       Some (old_val, m)
     }"

definition lvm_contains_key :: "'v lvm \<Rightarrow> nat \<Rightarrow> bool" where
  "lvm_contains_key m k = vm_contains_key (lvm_map m) k"

definition lvm_get :: "'v lvm \<Rightarrow> nat \<Rightarrow> 'v option option" where
  "lvm_get m k =
     (case vm_get (lvm_map m) k of
        None \<Rightarrow> Some None
      | Some e \<Rightarrow> do { n \<leftarrow> lvm_mem m e; v \<leftarrow> n_value n; Some (Some v) })"

text \<open>\<open>get_mut\<close> with the client's write \<open>f\<close> through the returned reference.\<close>

definition lvm_get_mut :: "('v \<Rightarrow> 'v) \<Rightarrow> 'v lvm \<Rightarrow> nat \<Rightarrow> ('v option \<times> 'v lvm) option" where
  "lvm_get_mut f m k =
     (case vm_get (lvm_map m) k of
        None \<Rightarrow> Some (None, m)
      | Some e \<Rightarrow>
          do {
            n \<leftarrow> lvm_mem m e;
            v \<leftarrow> n_value n;
            m \<leftarrow> lvm_write e (\<lambda>n. n\<lparr>n_value := Some (f v)\<rparr>) m;
            Some (Some v, m)
          })"

definition lvm_get_refresh :: "'v lvm \<Rightarrow> nat \<Rightarrow> ('v option \<times> 'v lvm) option" where
  "lvm_get_refresh m k =
     (case vm_get (lvm_map m) k of
        None \<Rightarrow> Some (None, m)
      | Some node \<Rightarrow>
          do {
            n \<leftarrow> lvm_mem m node;
            v \<leftarrow> n_value n;
            m \<leftarrow> lvm_detach node m;
            m \<leftarrow> lvm_attach node m;
            Some (Some v, m)
          })"

definition lvm_remove :: "'v lvm \<Rightarrow> nat \<Rightarrow> ('v option \<times> 'v lvm) option" where
  "lvm_remove m k =
     (let (removed, map) = vm_remove (lvm_map m) k; m = m\<lparr>lvm_map := map\<rparr> in
      case removed of
        None \<Rightarrow> Some (None, m)
      | Some node \<Rightarrow>
          do {
            m \<leftarrow> lvm_detach node m;
            m \<leftarrow> set_next node (lvm_free m) m;
            let m = m\<lparr>lvm_free := node\<rparr>;
            n \<leftarrow> lvm_mem m node;
            v \<leftarrow> n_value n;
            Some (Some v, m)
          })"

definition lvm_len :: "'v lvm \<Rightarrow> nat" where
  "lvm_len m = vm_len (lvm_map m)"

definition lvm_is_empty :: "'v lvm \<Rightarrow> bool" where
  "lvm_is_empty m = (lvm_len m = 0)"

text \<open>What \<open>pop_front\<close> and \<open>pop_back\<close> do with the node they chose: detach it, remove its key from
  the map and free the node the map held.\<close>

definition lvm_pop_node :: "addr \<Rightarrow> 'v lvm \<Rightarrow> ((nat \<times> 'v) option \<times> 'v lvm) option" where
  "lvm_pop_node node m =
     do {
       m \<leftarrow> lvm_detach node m;
       n \<leftarrow> lvm_mem m node;
       k \<leftarrow> n_key n;
       let (removed, map) = vm_remove (lvm_map m) k;
       let m = m\<lparr>lvm_map := map\<rparr>;
       case removed of
         None \<Rightarrow> Some (None, m)
       | Some e \<Rightarrow>
           do {
             n \<leftarrow> lvm_mem m e;
             k \<leftarrow> n_key n;
             v \<leftarrow> n_value n;
             m \<leftarrow> lvm_dealloc e m;
             Some (Some (k, v), m)
           }
     }"

definition lvm_pop_front :: "'v lvm \<Rightarrow> ((nat \<times> 'v) option \<times> 'v lvm) option" where
  "lvm_pop_front m =
     (if lvm_is_empty m then Some (None, m)
      else do { h \<leftarrow> lvm_mem m (lvm_head m); lvm_pop_node (n_prev h) m })"

definition lvm_pop_back :: "'v lvm \<Rightarrow> ((nat \<times> 'v) option \<times> 'v lvm) option" where
  "lvm_pop_back m =
     (if lvm_is_empty m then Some (None, m)
      else do { h \<leftarrow> lvm_mem m (lvm_head m); lvm_pop_node (n_next h) m })"

text \<open>\<open>front\<close> and \<open>back\<close> look the key of the node up in the map again.\<close>

definition lvm_peek_node :: "addr \<Rightarrow> 'v lvm \<Rightarrow> (nat \<times> 'v) option option" where
  "lvm_peek_node node m =
     do {
       n \<leftarrow> lvm_mem m node;
       k \<leftarrow> n_key n;
       case vm_get (lvm_map m) k of
         None \<Rightarrow> Some None
       | Some e \<Rightarrow> do { n \<leftarrow> lvm_mem m e; k \<leftarrow> n_key n; v \<leftarrow> n_value n; Some (Some (k, v)) }
     }"

definition lvm_front :: "'v lvm \<Rightarrow> (nat \<times> 'v) option option" where
  "lvm_front m =
     (if lvm_is_empty m then Some None
      else do { h \<leftarrow> lvm_mem m (lvm_head m); lvm_peek_node (n_prev h) m })"

definition lvm_back :: "'v lvm \<Rightarrow> (nat \<times> 'v) option option" where
  "lvm_back m =
     (if lvm_is_empty m then Some None
      else do { h \<leftarrow> lvm_mem m (lvm_head m); lvm_peek_node (n_next h) m })"

definition lvm_clear :: "'v lvm \<Rightarrow> 'v lvm option" where
  "lvm_clear m =
     (let m = m\<lparr>lvm_map := vm_clear (lvm_map m)\<rparr> in
      if lvm_head m \<noteq> 0 then
        do {
          m \<leftarrow> lvm_drop_entries m;
          m \<leftarrow> set_prev (lvm_head m) (lvm_head m) m;
          set_next (lvm_head m) (lvm_head m) m
        }
      else Some m)"

text \<open>\<open>Drop\<close>.\<close>

definition lvm_drop :: "'v lvm \<Rightarrow> 'v lvm option" where
  "lvm_drop m =
     do {
       m \<leftarrow> (if lvm_head m \<noteq> 0 then
               do { m \<leftarrow> lvm_drop_entries m; lvm_dealloc (lvm_head m) m }
             else Some m);
       lvm_clear_free_list m
     }"

subsection \<open>Iterators\<close>

text \<open>\<open>Iter\<close>, \<open>IterMut\<close>, \<open>IntoIter\<close> and \<open>Drain\<close> have the same three fields.\<close>

record lvm_iterator =
  it_head :: addr
  it_tail :: addr
  it_remaining :: nat

definition lvm_iter :: "'v lvm \<Rightarrow> lvm_iterator option" where
  "lvm_iter m =
     do {
       head \<leftarrow> (if lvm_head m = 0 then Some 0 else do { h \<leftarrow> lvm_mem m (lvm_head m); Some (n_prev h) });
       Some \<lparr>it_head = head, it_tail = lvm_head m, it_remaining = lvm_len m\<rparr>
     }"

definition node_entry :: "'v lvm \<Rightarrow> addr \<Rightarrow> ('v lnode \<times> nat \<times> 'v) option" where
  "node_entry m p = do { n \<leftarrow> lvm_mem m p; k \<leftarrow> n_key n; v \<leftarrow> n_value n; Some (n, k, v) }"

definition iter_next :: "'v lvm \<Rightarrow> lvm_iterator \<Rightarrow> ((nat \<times> 'v) option \<times> lvm_iterator) option" where
  "iter_next m it =
     (if it_head it = it_tail it then Some (None, it)
      else do {
        (n, k, v) \<leftarrow> node_entry m (it_head it);
        Some (Some (k, v), it\<lparr>it_remaining := usize_sub (it_remaining it) 1, it_head := n_prev n\<rparr>)
      })"

definition iter_next_back :: "'v lvm \<Rightarrow> lvm_iterator \<Rightarrow> ((nat \<times> 'v) option \<times> lvm_iterator) option" where
  "iter_next_back m it =
     (if it_head it = it_tail it then Some (None, it)
      else do {
        t \<leftarrow> lvm_mem m (it_tail it);
        let it = it\<lparr>it_remaining := usize_sub (it_remaining it) 1, it_tail := n_next t\<rparr>;
        (n, k, v) \<leftarrow> node_entry m (it_tail it);
        Some (Some (k, v), it)
      })"

text \<open>\<open>IterMut\<close>: the client's write \<open>f\<close> goes through the reference of each step.\<close>

definition iter_mut_next ::
  "(nat \<Rightarrow> 'v \<Rightarrow> 'v) \<Rightarrow> 'v lvm \<Rightarrow> lvm_iterator \<Rightarrow> ((nat \<times> 'v) option \<times> lvm_iterator \<times> 'v lvm) option" where
  "iter_mut_next f m it =
     (if it_head it = it_tail it then Some (None, it, m)
      else do {
        (n, k, v) \<leftarrow> node_entry m (it_head it);
        let it' = it\<lparr>it_remaining := usize_sub (it_remaining it) 1, it_head := n_prev n\<rparr>;
        m \<leftarrow> lvm_write (it_head it) (\<lambda>n. n\<lparr>n_value := Some (f k v)\<rparr>) m;
        Some (Some (k, v), it', m)
      })"

text \<open>\<open>size_hint\<close> and \<open>len\<close> of the iterators.\<close>

definition iter_len :: "lvm_iterator \<Rightarrow> nat" where
  "iter_len it = it_remaining it"

definition lvm_drain :: "'v lvm \<Rightarrow> (lvm_iterator \<times> 'v lvm) option" where
  "lvm_drain m =
     (let len = lvm_len m; m = m\<lparr>lvm_map := vm_clear (lvm_map m)\<rparr> in
      if len \<noteq> 0 then
        do {
          h \<leftarrow> lvm_mem m (lvm_head m);
          let head = n_prev h;
          let tail = n_next h;
          m \<leftarrow> set_prev (lvm_head m) (lvm_head m) m;
          m \<leftarrow> set_next (lvm_head m) (lvm_head m) m;
          m \<leftarrow> set_next head (lvm_free m) m;
          m \<leftarrow> set_prev tail 0 m;
          Some (\<lparr>it_head = head, it_tail = tail, it_remaining = len\<rparr>, m\<lparr>lvm_free := tail\<rparr>)
        }
      else Some (\<lparr>it_head = 0, it_tail = 0, it_remaining = len\<rparr>, m))"

definition drain_next :: "'v lvm \<Rightarrow> lvm_iterator \<Rightarrow> ((nat \<times> 'v) option \<times> lvm_iterator) option" where
  "drain_next m it =
     (if it_remaining it = 0 then Some (None, it)
      else do {
        (n, k, v) \<leftarrow> node_entry m (it_head it);
        Some (Some (k, v), it\<lparr>it_remaining := it_remaining it - 1, it_head := n_prev n\<rparr>)
      })"

definition drain_next_back :: "'v lvm \<Rightarrow> lvm_iterator \<Rightarrow> ((nat \<times> 'v) option \<times> lvm_iterator) option" where
  "drain_next_back m it =
     (if it_remaining it = 0 then Some (None, it)
      else do {
        (n, k, v) \<leftarrow> node_entry m (it_tail it);
        Some (Some (k, v), it\<lparr>it_remaining := it_remaining it - 1, it_tail := n_next n\<rparr>)
      })"

text \<open>\<open>into_iter\<close>: the guard and the free nodes are freed, the entries are handed to the iterator,
  which frees each node it yields.\<close>

definition lvm_into_iter :: "'v lvm \<Rightarrow> (lvm_iterator \<times> 'v lvm) option" where
  "lvm_into_iter m =
     do {
       (head, tail) \<leftarrow>
         (if lvm_head m \<noteq> 0 then do { h \<leftarrow> lvm_mem m (lvm_head m); Some (n_prev h, n_next h) }
          else Some (0, 0));
       let len = lvm_len m;
       m \<leftarrow> (if lvm_head m \<noteq> 0 then lvm_dealloc (lvm_head m) m else Some m);
       m \<leftarrow> lvm_clear_free_list m;
       Some (\<lparr>it_head = head, it_tail = tail, it_remaining = len\<rparr>, m)
     }"

definition into_iter_next :: "'v lvm \<Rightarrow> lvm_iterator \<Rightarrow> ((nat \<times> 'v) option \<times> lvm_iterator \<times> 'v lvm) option" where
  "into_iter_next m it =
     (if it_remaining it = 0 then Some (None, it, m)
      else do {
        (n, k, v) \<leftarrow> node_entry m (it_head it);
        m \<leftarrow> lvm_dealloc (it_head it) m;
        Some (Some (k, v), it\<lparr>it_remaining := it_remaining it - 1, it_head := n_prev n\<rparr>, m)
      })"

definition into_iter_next_back ::
  "'v lvm \<Rightarrow> lvm_iterator \<Rightarrow> ((nat \<times> 'v) option \<times> lvm_iterator \<times> 'v lvm) option" where
  "into_iter_next_back m it =
     (if it_remaining it = 0 then Some (None, it, m)
      else do {
        (n, k, v) \<leftarrow> node_entry m (it_tail it);
        m \<leftarrow> lvm_dealloc (it_tail it) m;
        Some (Some (k, v), it\<lparr>it_remaining := it_remaining it - 1, it_tail := n_next n\<rparr>, m)
      })"

text \<open>\<open>Drop\<close> of \<open>IntoIter\<close> frees the entries that were not yielded.\<close>

fun into_iter_drop :: "nat \<Rightarrow> addr \<Rightarrow> 'v lvm \<Rightarrow> 'v lvm option" where
  "into_iter_drop 0 tail m = Some m"
| "into_iter_drop (Suc remaining) tail m =
     do { n \<leftarrow> lvm_mem m tail; m \<leftarrow> lvm_dealloc tail m; into_iter_drop remaining (n_next n) m }"

text \<open>Running an iterator to its end, with a bound on the number of steps.\<close>

fun iter_collect ::
  "(lvm_iterator \<Rightarrow> ((nat \<times> 'v) option \<times> lvm_iterator) option) \<Rightarrow> nat \<Rightarrow> lvm_iterator \<Rightarrow> (nat \<times> 'v) list option" where
  "iter_collect step 0 it = None"
| "iter_collect step (Suc fuel) it =
     do {
       (r, it) \<leftarrow> step it;
       case r of
         None \<Rightarrow> Some []
       | Some x \<Rightarrow> do { xs \<leftarrow> iter_collect step fuel it; Some (x # xs) }
     }"

definition lvm_to_list :: "'v lvm \<Rightarrow> (nat \<times> 'v) list option" where
  "lvm_to_list m = do { it \<leftarrow> lvm_iter m; iter_collect (iter_next m) (Suc (lvm_len m)) it }"

fun into_iter_collect ::
  "nat \<Rightarrow> 'v lvm \<Rightarrow> lvm_iterator \<Rightarrow> ((nat \<times> 'v) list \<times> 'v lvm) option" where
  "into_iter_collect 0 m it = None"
| "into_iter_collect (Suc fuel) m it =
     do {
       (r, it, m) \<leftarrow> into_iter_next m it;
       case r of
         None \<Rightarrow> Some ([], m)
       | Some x \<Rightarrow> do { (xs, m) \<leftarrow> into_iter_collect fuel m it; Some (x # xs, m) }
     }"

text \<open>\<open>keys\<close>, \<open>values\<close>, and the traits defined over \<open>iter\<close> and \<open>insert\<close>.\<close>

definition lvm_keys :: "'v lvm \<Rightarrow> nat list option" where
  "lvm_keys m = map_option (map fst) (lvm_to_list m)"

definition lvm_values :: "'v lvm \<Rightarrow> 'v list option" where
  "lvm_values m = map_option (map snd) (lvm_to_list m)"

text \<open>\<open>Index\<close>: \<open>None\<close> is the panic "no entry found for key".\<close>

definition lvm_index :: "'v lvm \<Rightarrow> nat \<Rightarrow> 'v option" where
  "lvm_index m k = do { r \<leftarrow> lvm_get m k; r }"

fun lvm_extend :: "(nat \<times> 'v) list \<Rightarrow> 'v lvm \<Rightarrow> 'v lvm option" where
  "lvm_extend [] m = Some m"
| "lvm_extend ((k, v) # kvs) m = do { (_, m) \<leftarrow> lvm_insert m k v; lvm_extend kvs m }"

definition lvm_from_iter :: "(nat \<times> 'v) list \<Rightarrow> 'v lvm option" where
  "lvm_from_iter kvs = lvm_extend kvs (lvm_with_capacity 0)"

definition lvm_clone :: "'v lvm \<Rightarrow> 'v lvm option" where
  "lvm_clone m = do { kvs \<leftarrow> lvm_to_list m; lvm_extend kvs (lvm_with_capacity (lvm_len m)) }"

definition lvm_eq :: "'v lvm \<Rightarrow> 'v lvm \<Rightarrow> bool option" where
  "lvm_eq m m' =
     (if lvm_len m = lvm_len m' then
        do { kvs \<leftarrow> lvm_to_list m; kvs' \<leftarrow> lvm_to_list m'; Some (kvs = kvs') }
      else Some False)"

subsection \<open>Entries\<close>

datatype lvm_entry = Occupied addr | Vacant nat

definition lvm_entry_of :: "'v lvm \<Rightarrow> nat \<Rightarrow> lvm_entry" where
  "lvm_entry_of m k = (case vm_get_mut (lvm_map m) k of Some e \<Rightarrow> Occupied e | None \<Rightarrow> Vacant k)"

definition entry_key :: "'v lvm \<Rightarrow> lvm_entry \<Rightarrow> nat option" where
  "entry_key m e =
     (case e of
        Occupied p \<Rightarrow> do { n \<leftarrow> lvm_mem m p; n_key n }
      | Vacant k \<Rightarrow> Some k)"

definition occupied_insert :: "'v lvm \<Rightarrow> addr \<Rightarrow> 'v \<Rightarrow> ('v \<times> 'v lvm) option" where
  "occupied_insert m p v =
     do {
       m \<leftarrow> lvm_ensure_guard_node m;
       n \<leftarrow> lvm_mem m p;
       old \<leftarrow> n_value n;
       m \<leftarrow> lvm_write p (\<lambda>n. n\<lparr>n_value := Some v\<rparr>) m;
       m \<leftarrow> lvm_detach p m;
       m \<leftarrow> lvm_attach p m;
       Some (old, m)
     }"

definition occupied_remove :: "'v lvm \<Rightarrow> addr \<Rightarrow> ('v \<times> 'v lvm) option" where
  "occupied_remove m p =
     do {
       n \<leftarrow> lvm_mem m p;
       k \<leftarrow> n_key n;
       (r, m) \<leftarrow> lvm_remove m k;
       v \<leftarrow> r;
       Some (v, m)
     }"

text \<open>The address the returned reference points into, and the map.\<close>

definition vacant_insert :: "'v lvm \<Rightarrow> nat \<Rightarrow> 'v \<Rightarrow> (addr \<times> 'v lvm) option" where
  "vacant_insert m k v =
     do {
       m \<leftarrow> lvm_ensure_guard_node m;
       (node, m) \<leftarrow> lvm_make_node k v m;
       n \<leftarrow> lvm_mem m node;
       key \<leftarrow> n_key n;
       m \<leftarrow> lvm_attach node m;
       let (ret, map) = vm_get_or_insert (lvm_map m) key node;
       Some (ret, m\<lparr>lvm_map := map\<rparr>)
     }"

definition entry_or_insert_with :: "'v lvm \<Rightarrow> lvm_entry \<Rightarrow> (unit \<Rightarrow> 'v) \<Rightarrow> (addr \<times> 'v lvm) option" where
  "entry_or_insert_with m e d =
     (case e of Occupied p \<Rightarrow> Some (p, m) | Vacant k \<Rightarrow> vacant_insert m k (d ()))"

definition entry_or_insert :: "'v lvm \<Rightarrow> lvm_entry \<Rightarrow> 'v \<Rightarrow> (addr \<times> 'v lvm) option" where
  "entry_or_insert m e d =
     (case e of Occupied p \<Rightarrow> Some (p, m) | Vacant k \<Rightarrow> vacant_insert m k d)"

definition entry_and_modify :: "'v lvm \<Rightarrow> lvm_entry \<Rightarrow> ('v \<Rightarrow> 'v) \<Rightarrow> (lvm_entry \<times> 'v lvm) option" where
  "entry_and_modify m e f =
     (case e of
        Occupied p \<Rightarrow>
          do {
            n \<leftarrow> lvm_mem m p;
            v \<leftarrow> n_value n;
            m \<leftarrow> lvm_write p (\<lambda>n. n\<lparr>n_value := Some (f v)\<rparr>) m;
            Some (Occupied p, m)
          }
      | Vacant k \<Rightarrow> Some (Vacant k, m))"

text \<open>\<open>entries\<close> and its iterator; the map is shared, so each step takes its current memory.\<close>

record lvm_entries =
  es_head :: addr
  es_remaining :: nat

definition lvm_entries_of :: "'v lvm \<Rightarrow> lvm_entries option" where
  "lvm_entries_of m =
     do {
       head \<leftarrow> (if lvm_head m \<noteq> 0 then do { h \<leftarrow> lvm_mem m (lvm_head m); Some (n_prev h) } else Some 0);
       Some \<lparr>es_head = head, es_remaining = lvm_len m\<rparr>
     }"

definition entries_next :: "'v lvm \<Rightarrow> lvm_entries \<Rightarrow> (lvm_entry option \<times> lvm_entries) option" where
  "entries_next m es =
     (if es_remaining es = 0 then Some (None, es)
      else do {
        n \<leftarrow> lvm_mem m (es_head es);
        Some (Some (Occupied (es_head es)),
              es\<lparr>es_remaining := es_remaining es - 1, es_head := n_prev n\<rparr>)
      })"

section \<open>Invariant and abstraction\<close>

definition nx :: "'v lvm \<Rightarrow> addr \<Rightarrow> addr" where
  "nx m p = n_next (the (lvm_mem m p))"

definition pv :: "'v lvm \<Rightarrow> addr \<Rightarrow> addr" where
  "pv m p = n_prev (the (lvm_mem m p))"

definition nkey :: "'v lvm \<Rightarrow> addr \<Rightarrow> nat option" where
  "nkey m p = n_key (the (lvm_mem m p))"

definition nval :: "'v lvm \<Rightarrow> addr \<Rightarrow> 'v option" where
  "nval m p = n_value (the (lvm_mem m p))"

text \<open>The ring through the guard, newest entry first.\<close>

definition lvm_ring :: "'v lvm \<Rightarrow> addr list \<Rightarrow> bool" where
  "lvm_ring m ps \<longleftrightarrow>
     dseg (nx m) (pv m) (lvm_head m) ps (lvm_head m) \<and> distinct ps \<and> lvm_head m \<notin> set ps \<and>
     insert (lvm_head m) (set ps) \<subseteq> dom (lvm_mem m)"

text \<open>The map indexes exactly the entries \<open>ps\<close> by their keys.\<close>

definition lvm_indexed :: "'v lvm \<Rightarrow> addr list \<Rightarrow> bool" where
  "lvm_indexed m ps \<longleftrightarrow>
     vm_inv (lvm_map m) \<and>
     (\<forall>p \<in> set ps. nkey m p \<noteq> None \<and> nval m p \<noteq> None) \<and>
     (\<forall>k p. vm_map (lvm_map m) k = Some p \<longleftrightarrow> p \<in> set ps \<and> nkey m p = Some k)"

text \<open>The shape of the memory: a ring \<open>ps\<close>, a free list \<open>fs\<close>, and the nodes \<open>X\<close> that an operation
  holds outside both. Nothing else is allocated.\<close>

definition lvm_shape :: "'v lvm \<Rightarrow> addr list \<Rightarrow> addr list \<Rightarrow> addr set \<Rightarrow> bool" where
  "lvm_shape m ps fs X \<longleftrightarrow>
     lvm_head m \<noteq> 0 \<and> lvm_ring m ps \<and> sseg (nx m) (lvm_free m) fs \<and> distinct (ps @ fs) \<and>
     lvm_head m \<notin> set fs \<and> 0 \<notin> set (ps @ fs) \<and> X \<inter> (set ps \<union> set fs \<union> {lvm_head m, 0}) = {} \<and>
     dom (lvm_mem m) = set ps \<union> set fs \<union> {lvm_head m} \<union> X \<and>
     (\<forall>p \<in> dom (lvm_mem m). p < lvm_fresh m)"

definition lvm_rep :: "'v lvm \<Rightarrow> addr list \<Rightarrow> addr list \<Rightarrow> bool" where
  "lvm_rep m ps fs \<longleftrightarrow>
     lvm_indexed m ps \<and> 0 < lvm_fresh m \<and>
     (if lvm_head m = 0 then ps = [] \<and> fs = [] \<and> lvm_free m = 0 \<and> dom (lvm_mem m) = {}
      else lvm_shape m ps fs {})"

definition lvm_inv :: "'v lvm \<Rightarrow> bool" where
  "lvm_inv m \<longleftrightarrow> (\<exists>ps fs. lvm_rep m ps fs)"

text \<open>The contents in insertion order, and as a partial function.\<close>

definition lvm_items :: "'v lvm \<Rightarrow> addr list \<Rightarrow> (nat \<times> 'v) list" where
  "lvm_items m ps = map (\<lambda>p. (the (nkey m p), the (nval m p))) (rev ps)"

definition lvm_amap :: "'v lvm \<Rightarrow> nat \<Rightarrow> 'v option" where
  "lvm_amap m k = (case vm_map (lvm_map m) k of None \<Rightarrow> None | Some p \<Rightarrow> nval m p)"

text \<open>Two states that differ at most in the links of their nodes.\<close>

definition same_nodes :: "'v lvm \<Rightarrow> 'v lvm \<Rightarrow> bool" where
  "same_nodes m m' \<longleftrightarrow>
     lvm_map m' = lvm_map m \<and> lvm_head m' = lvm_head m \<and> lvm_free m' = lvm_free m \<and>
     lvm_fresh m' = lvm_fresh m \<and> dom (lvm_mem m') = dom (lvm_mem m) \<and>
     nkey m' = nkey m \<and> nval m' = nval m"

lemmas node_reads = nx_def pv_def nkey_def nval_def

lemma reads_upd [simp]:
  "nx (m\<lparr>lvm_map := x\<rparr>) = nx m"
  "nx (m\<lparr>lvm_free := x'\<rparr>) = nx m"
  "nx (m\<lparr>lvm_head := x'\<rparr>) = nx m"
  "nx (m\<lparr>lvm_fresh := x'\<rparr>) = nx m"
  "pv (m\<lparr>lvm_map := x\<rparr>) = pv m"
  "pv (m\<lparr>lvm_free := x'\<rparr>) = pv m"
  "pv (m\<lparr>lvm_head := x'\<rparr>) = pv m"
  "pv (m\<lparr>lvm_fresh := x'\<rparr>) = pv m"
  "nkey (m\<lparr>lvm_map := x\<rparr>) = nkey m"
  "nkey (m\<lparr>lvm_free := x'\<rparr>) = nkey m"
  "nkey (m\<lparr>lvm_head := x'\<rparr>) = nkey m"
  "nkey (m\<lparr>lvm_fresh := x'\<rparr>) = nkey m"
  "nval (m\<lparr>lvm_map := x\<rparr>) = nval m"
  "nval (m\<lparr>lvm_free := x'\<rparr>) = nval m"
  "nval (m\<lparr>lvm_head := x'\<rparr>) = nval m"
  "nval (m\<lparr>lvm_fresh := x'\<rparr>) = nval m"
  by (simp_all add: node_reads fun_eq_iff)

lemma same_nodes_trans: "same_nodes m m' \<Longrightarrow> same_nodes m' m'' \<Longrightarrow> same_nodes m m''"
  by (simp add: same_nodes_def)

lemma lvm_write_Some:
  "p \<in> dom (lvm_mem m) \<Longrightarrow>
   lvm_write p f m = Some (m\<lparr>lvm_mem := (lvm_mem m)(p \<mapsto> f (the (lvm_mem m p)))\<rparr>)"
  by (auto simp: lvm_write_def)

lemma lvm_mem_Some: "p \<in> dom (lvm_mem m) \<Longrightarrow> lvm_mem m p = Some (the (lvm_mem m p))"
  by auto

lemma set_next_spec:
  assumes "p \<in> dom (lvm_mem m)"
  obtains m' where "set_next p q m = Some m'" "same_nodes m m'" "nx m' = (nx m)(p := q)" "pv m' = pv m"
proof -
  from assms obtain n where n: "lvm_mem m p = Some n" by blast
  let ?m' = "m\<lparr>lvm_mem := (lvm_mem m)(p \<mapsto> n\<lparr>n_next := q\<rparr>)\<rparr>"
  have "set_next p q m = Some ?m'" by (simp add: lvm_write_def n)
  moreover have "same_nodes m ?m'" using n by (auto simp: same_nodes_def node_reads fun_eq_iff)
  moreover have "nx ?m' = (nx m)(p := q)" "pv ?m' = pv m" using n by (auto simp: node_reads fun_eq_iff)
  ultimately show ?thesis by (rule that)
qed

lemma set_prev_spec:
  assumes "p \<in> dom (lvm_mem m)"
  obtains m' where "set_prev p q m = Some m'" "same_nodes m m'" "nx m' = nx m" "pv m' = (pv m)(p := q)"
proof -
  from assms obtain n where n: "lvm_mem m p = Some n" by blast
  let ?m' = "m\<lparr>lvm_mem := (lvm_mem m)(p \<mapsto> n\<lparr>n_prev := q\<rparr>)\<rparr>"
  have "set_prev p q m = Some ?m'" by (simp add: lvm_write_def n)
  moreover have "same_nodes m ?m'" using n by (auto simp: same_nodes_def node_reads fun_eq_iff)
  moreover have "nx ?m' = nx m" "pv ?m' = (pv m)(p := q)" using n by (auto simp: node_reads fun_eq_iff)
  ultimately show ?thesis by (rule that)
qed

lemma detach_links:
  assumes "p \<in> dom (lvm_mem m)" "pv m p \<in> dom (lvm_mem m)" "nx m p \<in> dom (lvm_mem m)"
  obtains m' where "lvm_detach p m = Some m'" "same_nodes m m'"
    "nx m' = (nx m)(pv m p := nx m p)" "pv m' = (pv m)(nx m p := pv m p)"
proof -
  obtain m1 where m1: "set_next (pv m p) (nx m p) m = Some m1" "same_nodes m m1"
    "nx m1 = (nx m)(pv m p := nx m p)" "pv m1 = pv m"
    using set_next_spec[OF assms(2)] by metis
  have dom: "dom (lvm_mem m1) = dom (lvm_mem m)" using m1(2) by (simp add: same_nodes_def)
  obtain m2 where m2: "set_prev (nx m p) (pv m p) m1 = Some m2" "same_nodes m1 m2" "nx m2 = nx m1"
    "pv m2 = (pv m1)(nx m p := pv m p)"
    using set_prev_spec[of "nx m p" m1] assms(3) dom by metis
  have "nx m1 p = nx m p" "pv m1 p = pv m p" using m1 by auto
  then have "lvm_detach p m = Some m2"
  proof -
    obtain n n1 where "lvm_mem m p = Some n" "lvm_mem m1 p = Some n1" using assms(1) dom by blast
    then show ?thesis
      using m1(1) m2(1) \<open>nx m1 p = nx m p\<close> \<open>pv m1 p = pv m p\<close>
      by (simp add: lvm_detach_def nx_def pv_def)
  qed
  then show ?thesis using that m1 m2 same_nodes_trans by auto
qed

lemma attach_links:
  assumes "p \<in> dom (lvm_mem m)" "lvm_head m \<in> dom (lvm_mem m)" "nx m (lvm_head m) \<in> dom (lvm_mem m)"
    "p \<noteq> lvm_head m"
  obtains m' where "lvm_attach p m = Some m'" "same_nodes m m'"
    "nx m' = (nx m)(p := nx m (lvm_head m), lvm_head m := p)"
    "pv m' = (pv m)(p := lvm_head m, nx m (lvm_head m) := p)"
proof -
  let ?h = "lvm_head m"
  obtain m1 where m1: "set_next p (nx m ?h) m = Some m1" "same_nodes m m1"
    "nx m1 = (nx m)(p := nx m ?h)" "pv m1 = pv m" using set_next_spec[OF assms(1)] by metis
  then have d1: "dom (lvm_mem m1) = dom (lvm_mem m)" "lvm_head m1 = ?h" by (auto simp: same_nodes_def)
  obtain m2 where m2: "set_prev p ?h m1 = Some m2" "same_nodes m1 m2" "nx m2 = nx m1"
    "pv m2 = (pv m1)(p := ?h)" using set_prev_spec[of p m1] assms(1) d1 by metis
  then have d2: "dom (lvm_mem m2) = dom (lvm_mem m)" "lvm_head m2 = ?h" using d1 by (auto simp: same_nodes_def)
  obtain m3 where m3: "set_next ?h p m2 = Some m3" "same_nodes m2 m3" "nx m3 = (nx m2)(?h := p)"
    "pv m3 = pv m2" using set_next_spec[of ?h m2] assms(2) d2 by metis
  then have d3: "dom (lvm_mem m3) = dom (lvm_mem m)" "lvm_head m3 = ?h" using d2 by (auto simp: same_nodes_def)
  have nxp: "nx m3 p = nx m ?h" using m1 m2 m3 assms(4) by simp
  obtain m4 where m4: "set_prev (nx m3 p) p m3 = Some m4" "same_nodes m3 m4" "nx m4 = nx m3"
    "pv m4 = (pv m3)(nx m3 p := p)" using set_prev_spec[of "nx m3 p" m3] assms(3) d3 nxp by metis
  obtain h n3 where "lvm_mem m ?h = Some h" "lvm_mem m3 p = Some n3" using assms(1,2) d3 by blast
  then have "lvm_attach p m = Some m4"
    using m1(1) m2(1) m3(1) m4(1) d1 d2 by (simp add: lvm_attach_def nx_def)
  moreover have "same_nodes m m4"
    using m1(2) m2(2) m3(2) m4(2) same_nodes_trans by metis
  moreover have "nx m4 = (nx m)(p := nx m ?h, ?h := p)" "pv m4 = (pv m)(p := ?h, nx m ?h := p)"
    using m1 m2 m3 m4 nxp by simp_all
  ultimately show ?thesis using that by blast
qed

subsection \<open>Moving nodes in and out of the ring\<close>

lemma ring_neighbours:
  assumes "lvm_ring m (xs @ p # ys)"
  shows "p \<in> dom (lvm_mem m)" "pv m p \<in> insert (lvm_head m) (set xs)"
    "nx m p \<in> insert (lvm_head m) (set ys)"
proof -
  from assms have "dseg (nx m) (pv m) (lvm_head m) xs p" "dseg (nx m) (pv m) p ys (lvm_head m)"
    by (auto simp: lvm_ring_def dseg_append)
  then show "pv m p \<in> insert (lvm_head m) (set xs)" "nx m p \<in> insert (lvm_head m) (set ys)"
    using dseg_last dseg_first by (fastforce, cases ys) fastforce+
  show "p \<in> dom (lvm_mem m)" using assms by (auto simp: lvm_ring_def)
qed

lemma detach_spec:
  assumes ring: "lvm_ring m (xs @ p # ys)"
  obtains m' where "lvm_detach p m = Some m'" "same_nodes m m'" "lvm_ring m' (xs @ ys)"
    "\<And>q. q \<notin> insert (lvm_head m) (set (xs @ p # ys)) \<Longrightarrow> nx m' q = nx m q"
    "nx m' p = nx m p"
proof -
  note nb = ring_neighbours[OF ring]
  have d: "insert (lvm_head m) (set (xs @ p # ys)) \<subseteq> dom (lvm_mem m)" "distinct (xs @ p # ys)"
    "lvm_head m \<notin> set (xs @ p # ys)" "dseg (nx m) (pv m) (lvm_head m) (xs @ p # ys) (lvm_head m)"
    using ring by (auto simp: lvm_ring_def)
  have "p \<in> dom (lvm_mem m)" "pv m p \<in> dom (lvm_mem m)" "nx m p \<in> dom (lvm_mem m)"
    using nb d(1) by (auto simp del: domIff)
  from detach_links[OF this] obtain m' where m': "lvm_detach p m = Some m'" "same_nodes m m'"
    "nx m' = (nx m)(pv m p := nx m p)" "pv m' = (pv m)(nx m p := pv m p)" .
  have "lvm_ring m' (xs @ ys)"
    using dseg_unlink[OF d(4,2,3,3)] d m'(2-4) unfolding lvm_ring_def by (auto simp: same_nodes_def)
  moreover have "nx m' q = nx m q" if "q \<notin> insert (lvm_head m) (set (xs @ p # ys))" for q
    using m'(3) nb that by auto
  moreover have "nx m' p = nx m p" using m'(3) by auto
  ultimately show ?thesis using that m' by blast
qed

lemma attach_spec:
  assumes ring: "lvm_ring m ps" and p: "p \<in> dom (lvm_mem m)" "p \<notin> set ps" "p \<noteq> lvm_head m"
  obtains m' where "lvm_attach p m = Some m'" "same_nodes m m'" "lvm_ring m' (p # ps)"
    "\<And>q. q \<noteq> lvm_head m \<Longrightarrow> q \<noteq> p \<Longrightarrow> nx m' q = nx m q"
proof -
  have d: "insert (lvm_head m) (set ps) \<subseteq> dom (lvm_mem m)" "distinct ps" "lvm_head m \<notin> set ps"
    "dseg (nx m) (pv m) (lvm_head m) ps (lvm_head m)"
    using ring by (auto simp: lvm_ring_def)
  have "nx m (lvm_head m) \<in> dom (lvm_mem m)"
    using dseg_first[OF d(4)] d(1) by (cases ps) auto
  moreover have "lvm_head m \<in> dom (lvm_mem m)" using d(1) by simp
  ultimately obtain m' where m': "lvm_attach p m = Some m'" "same_nodes m m'"
    "nx m' = (nx m)(p := nx m (lvm_head m), lvm_head m := p)"
    "pv m' = (pv m)(p := lvm_head m, nx m (lvm_head m) := p)"
    using attach_links[OF p(1) _ _ p(3)] by metis
  have "lvm_ring m' (p # ps)"
    using dseg_link[OF d(4) p(2) d(3) p(3) d(2)] d p m'(2-4)
    unfolding lvm_ring_def by (auto simp: same_nodes_def simp del: dseg.simps)
  then show ?thesis using that m' by auto
qed

lemma shape_detach:
  assumes "lvm_shape m (xs @ p # ys) fs X"
  obtains m' where "lvm_detach p m = Some m'" "same_nodes m m'" "lvm_shape m' (xs @ ys) fs (insert p X)"
proof -
  from assms have "lvm_ring m (xs @ p # ys)" by (simp add: lvm_shape_def)
  from detach_spec[OF this] obtain m' where m': "lvm_detach p m = Some m'" "same_nodes m m'"
    "lvm_ring m' (xs @ ys)" "\<And>q. q \<notin> insert (lvm_head m) (set (xs @ p # ys)) \<Longrightarrow> nx m' q = nx m q"
    by blast
  have "insert (lvm_head m) (set (xs @ p # ys)) \<inter> set fs = {}" using assms by (auto simp: lvm_shape_def)
  then have "sseg (nx m') (lvm_free m) fs = sseg (nx m) (lvm_free m) fs"
    by (intro sseg_frame m'(4)) blast
  then have "lvm_shape m' (xs @ ys) fs (insert p X)"
    using assms m'(2,3) unfolding lvm_shape_def lvm_ring_def by (auto simp: same_nodes_def)
  then show ?thesis using that m' by blast
qed

lemma shape_attach:
  assumes "lvm_shape m ps fs (insert p X)" "p \<notin> X"
  obtains m' where "lvm_attach p m = Some m'" "same_nodes m m'" "lvm_shape m' (p # ps) fs X"
proof -
  from assms have "lvm_ring m ps" "p \<in> dom (lvm_mem m)" "p \<notin> set ps" "p \<noteq> lvm_head m"
    by (auto simp: lvm_shape_def)
  from attach_spec[OF this] obtain m' where m': "lvm_attach p m = Some m'" "same_nodes m m'"
    "lvm_ring m' (p # ps)" "\<And>q. q \<noteq> lvm_head m \<Longrightarrow> q \<noteq> p \<Longrightarrow> nx m' q = nx m q"
    by blast
  have out: "p \<notin> set fs" "lvm_head m \<notin> set fs" using assms by (auto simp: lvm_shape_def)
  have "sseg (nx m') (lvm_free m) fs = sseg (nx m) (lvm_free m) fs"
    by (rule sseg_frame) (use m'(4) out in metis)
  then have "lvm_shape m' (p # ps) fs X"
    using assms m'(2,3) unfolding lvm_shape_def lvm_ring_def by (auto simp: same_nodes_def)
  then show ?thesis using that m' by blast
qed

text \<open>Moving an entry to the newest place.\<close>

lemma shape_refresh:
  assumes "lvm_shape m (xs @ p # ys) fs {}"
  obtains m1 m' where "lvm_detach p m = Some m1" "lvm_attach p m1 = Some m'" "same_nodes m m'"
    "lvm_shape m' (p # xs @ ys) fs {}"
  using shape_detach[OF assms] shape_attach same_nodes_trans by (metis empty_iff)

text \<open>Putting a held node on the free list, and freeing it.\<close>

lemma shape_recycle:
  assumes "lvm_shape m ps fs (insert p X)" "p \<notin> X"
  obtains m' where "set_next p (lvm_free m) m = Some m'" "same_nodes m m'"
    "lvm_shape (m'\<lparr>lvm_free := p\<rparr>) ps (p # fs) X"
proof -
  have p: "p \<in> dom (lvm_mem m)" using assms by (auto simp: lvm_shape_def)
  obtain m' where m': "set_next p (lvm_free m) m = Some m'" "same_nodes m m'"
    "nx m' = (nx m)(p := lvm_free m)" "pv m' = pv m" using set_next_spec[OF p] by metis
  have nx: "nx (m'\<lparr>lvm_free := p\<rparr>) = nx m'" "pv (m'\<lparr>lvm_free := p\<rparr>) = pv m'" by (auto simp: node_reads)
  have out: "p \<notin> set ps" "p \<notin> set fs" "p \<noteq> lvm_head m" using assms by (auto simp: lvm_shape_def)
  have "sseg (nx m') p (p # fs)"
    using assms out m'(3) sseg_frame[of fs "nx m'" "nx m"] by (auto simp: lvm_shape_def)
  moreover have "dseg (nx m') (pv m') (lvm_head m) ps (lvm_head m)"
    using assms out unfolding m'(3,4) by (simp add: lvm_shape_def lvm_ring_def)
  ultimately have "lvm_shape (m'\<lparr>lvm_free := p\<rparr>) ps (p # fs) X"
    using assms m'(2) unfolding lvm_shape_def lvm_ring_def nx by (auto simp: same_nodes_def)
  then show ?thesis using that m' by blast
qed

text \<open>Two memories that agree except at one node.\<close>

lemma reads_except:
  assumes "\<And>q. q \<noteq> p \<Longrightarrow> lvm_mem m' q = lvm_mem m q" "q \<noteq> p"
  shows "nx m' q = nx m q" "pv m' q = pv m q" "nkey m' q = nkey m q" "nval m' q = nval m q"
  using assms by (simp_all add: node_reads)

lemma shape_dealloc:
  assumes "lvm_shape m ps fs (insert p X)" "p \<notin> X"
  obtains m' where "lvm_dealloc p m = Some m'" "lvm_shape m' ps fs X" "lvm_map m' = lvm_map m"
    "lvm_fresh m' = lvm_fresh m" "lvm_head m' = lvm_head m" "\<And>q. q \<noteq> p \<Longrightarrow> lvm_mem m' q = lvm_mem m q"
proof -
  have p: "p \<in> dom (lvm_mem m)" using assms by (auto simp: lvm_shape_def)
  define m' where "m' = m\<lparr>lvm_mem := (lvm_mem m)(p := None)\<rparr>"
  have run: "lvm_dealloc p m = Some m'" using p by (auto simp: lvm_dealloc_def m'_def)
  have out: "p \<notin> set ps" "p \<notin> set fs" "p \<noteq> lvm_head m" using assms by (auto simp: lvm_shape_def)
  have agree: "q \<noteq> p \<Longrightarrow> lvm_mem m' q = lvm_mem m q" for q by (simp add: m'_def)
  note rd = reads_except[of p m' m, OF agree]
  have "dseg (nx m') (pv m') (lvm_head m) ps (lvm_head m) = dseg (nx m) (pv m) (lvm_head m) ps (lvm_head m)"
    by (rule dseg_frame) (use rd out in \<open>metis+\<close>)
  moreover have "sseg (nx m') (lvm_free m) fs = sseg (nx m) (lvm_free m) fs"
    by (rule sseg_frame) (use rd out in \<open>metis+\<close>)
  ultimately have "lvm_shape m' ps fs X"
    using assms out unfolding lvm_shape_def lvm_ring_def by (auto simp: m'_def)
  then show ?thesis using that run agree by (simp add: m'_def)
qed

text \<open>A node for a new entry.\<close>

lemma shape_make_node:
  assumes "lvm_shape m ps fs {}"
  obtains p m' fs' where "lvm_make_node k v m = Some (p, m')" "lvm_shape m' ps fs' {p}"
    "lvm_map m' = lvm_map m" "nkey m' p = Some k" "nval m' p = Some v" "lvm_head m' = lvm_head m"
    "\<And>q. q \<noteq> p \<Longrightarrow> lvm_mem m' q = lvm_mem m q" "lvm_fresh m \<le> lvm_fresh m'"
proof (cases fs)
  case Nil
  then have free: "lvm_free m = 0" using assms by (simp add: lvm_shape_def)
  let ?p = "lvm_fresh m"
  define m' where "m' = m\<lparr>lvm_fresh := Suc ?p, lvm_mem := (lvm_mem m)(?p \<mapsto> node_new k v)\<rparr>"
  have run: "lvm_make_node k v m = Some (?p, m')"
    by (simp add: lvm_make_node_def free lvm_alloc_def Let_def m'_def)
  have p: "?p \<notin> dom (lvm_mem m)" "?p \<noteq> 0" using assms by (fastforce simp: lvm_shape_def)+
  then have out: "?p \<notin> set ps" "?p \<noteq> lvm_head m" using assms by (auto simp: lvm_shape_def)
  have agree: "q \<noteq> ?p \<Longrightarrow> lvm_mem m' q = lvm_mem m q" for q by (simp add: m'_def)
  note rd = reads_except[of ?p m' m, OF agree]
  have "dseg (nx m') (pv m') (lvm_head m) ps (lvm_head m) = dseg (nx m) (pv m) (lvm_head m) ps (lvm_head m)"
    by (rule dseg_frame) (use rd out in \<open>metis+\<close>)
  then have "lvm_shape m' ps [] {?p}"
    using assms out p Nil free unfolding lvm_shape_def lvm_ring_def
    by (auto simp: m'_def intro: less_SucI)
  moreover have "nkey m' ?p = Some k" "nval m' ?p = Some v" by (auto simp: m'_def node_reads node_new_def)
  ultimately show ?thesis using that run agree by (simp add: m'_def)
next
  case (Cons p fs')
  then have free: "lvm_free m = p" "sseg (nx m) (nx m p) fs'" "p \<noteq> 0"
    using assms by (auto simp: lvm_shape_def)
  have p: "p \<in> dom (lvm_mem m)" using assms Cons by (auto simp: lvm_shape_def)
  then obtain n where n: "lvm_mem m p = Some n" by blast
  define m' where "m' = m\<lparr>lvm_free := nx m p, lvm_mem := (lvm_mem m)(p \<mapsto> node_new k v)\<rparr>"
  have run: "lvm_make_node k v m = Some (p, m')"
    using free n by (simp add: lvm_make_node_def lvm_write_def m'_def nx_def)
  have out: "p \<notin> set ps" "p \<notin> set fs'" "p \<noteq> lvm_head m" using assms Cons by (auto simp: lvm_shape_def)
  have agree: "q \<noteq> p \<Longrightarrow> lvm_mem m' q = lvm_mem m q" for q by (simp add: m'_def)
  note rd = reads_except[of p m' m, OF agree]
  have "dseg (nx m') (pv m') (lvm_head m) ps (lvm_head m) = dseg (nx m) (pv m) (lvm_head m) ps (lvm_head m)"
    by (rule dseg_frame) (use rd out in \<open>metis+\<close>)
  moreover have "sseg (nx m') (nx m p) fs' = sseg (nx m) (nx m p) fs'"
    by (rule sseg_frame) (use rd out in \<open>metis+\<close>)
  ultimately have "lvm_shape m' ps fs' {p}"
    using assms out free Cons unfolding lvm_shape_def lvm_ring_def by (auto simp: m'_def)
  moreover have "nkey m' p = Some k" "nval m' p = Some v" by (auto simp: m'_def node_reads node_new_def)
  ultimately show ?thesis using that run agree by (simp add: m'_def)
qed

section \<open>The operations on well-formed maps\<close>

lemma rep_shape: "lvm_rep m ps fs \<Longrightarrow> ps \<noteq> [] \<or> lvm_head m \<noteq> 0 \<Longrightarrow> lvm_shape m ps fs {} \<and> lvm_head m \<noteq> 0"
  by (auto simp: lvm_rep_def split: if_splits)

lemma rep_shapeI: "lvm_indexed m ps \<Longrightarrow> 0 < lvm_fresh m \<Longrightarrow> lvm_shape m ps fs {} \<Longrightarrow> lvm_rep m ps fs"
  by (auto simp: lvm_rep_def lvm_shape_def)

lemma shape_cong:
  "nx m' = nx m \<Longrightarrow> pv m' = pv m \<Longrightarrow> lvm_head m' = lvm_head m \<Longrightarrow> lvm_free m' = lvm_free m \<Longrightarrow>
   lvm_fresh m' = lvm_fresh m \<Longrightarrow> dom (lvm_mem m') = dom (lvm_mem m) \<Longrightarrow>
   lvm_shape m' ps fs X = lvm_shape m ps fs X"
  unfolding lvm_shape_def lvm_ring_def by simp

lemma shape_fresh: "lvm_shape m ps fs X \<Longrightarrow> 0 < lvm_fresh m"
  by (auto simp: lvm_shape_def)

text \<open>The index depends on the set of entries, their keys and that they have values.\<close>

lemma indexed_cong:
  assumes "lvm_indexed m ps" "set ps' = set ps" "lvm_map m' = lvm_map m"
    "\<And>p. p \<in> set ps \<Longrightarrow> nkey m' p = nkey m p" "\<And>p. p \<in> set ps \<Longrightarrow> nval m' p \<noteq> None"
  shows "lvm_indexed m' ps'"
  using assms unfolding lvm_indexed_def by metis

lemma indexed_lookup:
  assumes "lvm_indexed m ps" "vm_map (lvm_map m) k = Some p"
  obtains xs ys v where "ps = xs @ p # ys" "nkey m p = Some k" "nval m p = Some v"
  using assms unfolding lvm_indexed_def by (metis not_None_eq split_list)

lemma indexed_amap:
  assumes "lvm_indexed m ps"
  shows "lvm_amap m k = Some v \<longleftrightarrow> (\<exists>p \<in> set ps. nkey m p = Some k \<and> nval m p = Some v)"
proof -
  have "lvm_amap m k = Some v \<longleftrightarrow> (\<exists>p. vm_map (lvm_map m) k = Some p \<and> nval m p = Some v)"
    by (auto simp: lvm_amap_def split: option.splits)
  then show ?thesis using assms unfolding lvm_indexed_def by metis
qed

lemma indexed_distinct_keys:
  assumes "lvm_indexed m ps" "distinct ps"
  shows "distinct (map fst (lvm_items m ps))"
proof -
  have "inj_on (\<lambda>p. the (nkey m p)) (set ps)"
    using assms(1) unfolding lvm_indexed_def inj_on_def by (metis option.collapse option.inject)
  then show ?thesis using assms(2) by (simp add: lvm_items_def distinct_map rev_map comp_def)
qed

lemma items_amap:
  assumes "lvm_indexed m ps" "distinct ps"
  shows "map_of (lvm_items m ps) = lvm_amap m"
proof (rule ext, rule option.expand)
  fix k
  have "map_of (lvm_items m ps) k = Some v \<longleftrightarrow> lvm_amap m k = Some v" for v
    unfolding map_of_eq_Some_iff[OF indexed_distinct_keys[OF assms]] indexed_amap[OF assms(1)]
    using assms(1) by (auto simp: lvm_items_def lvm_indexed_def image_iff; metis option.sel)
  then show "(map_of (lvm_items m ps) k = None) = (lvm_amap m k = None)"
    "map_of (lvm_items m ps) k \<noteq> None \<Longrightarrow> lvm_amap m k \<noteq> None \<Longrightarrow>
     the (map_of (lvm_items m ps) k) = the (lvm_amap m k)"
    by (metis option.exhaust_sel)+
qed

lemma items_filter:
  assumes "lvm_indexed m (xs @ p # ys)" "distinct (xs @ p # ys)" "nkey m p = Some k"
  shows "filter (\<lambda>e. fst e \<noteq> k) (lvm_items m (xs @ p # ys)) = lvm_items m (xs @ ys)"
proof -
  have "the (nkey m q) \<noteq> k" if "q \<in> set (xs @ ys)" for q
  proof
    assume "the (nkey m q) = k"
    then have "nkey m q = Some k" using assms(1) that unfolding lvm_indexed_def by auto
    then have "vm_map (lvm_map m) k = Some q" "vm_map (lvm_map m) k = Some p"
      using assms(1,3) that unfolding lvm_indexed_def by auto
    then show False using assms(2) that by auto
  qed
  then show ?thesis using assms(3) by (auto simp: lvm_items_def filter_map intro!: filter_True)
qed

lemma items_cong:
  assumes "\<And>p. p \<in> set ps \<Longrightarrow> nkey m' p = nkey m p" "\<And>p. p \<in> set ps \<Longrightarrow> nval m' p = nval m p"
  shows "lvm_items m' ps = lvm_items m ps"
  using assms by (simp add: lvm_items_def)

lemma indexed_len:
  assumes "lvm_indexed m ps" "distinct ps"
  shows "lvm_len m = length ps" "dom (lvm_amap m) = dom (vm_map (lvm_map m))"
proof -
  show dom: "dom (lvm_amap m) = dom (vm_map (lvm_map m))"
    using assms(1) unfolding lvm_indexed_def lvm_amap_def dom_def by (auto split: option.splits)
  have "dom (lvm_amap m) = set (map fst (lvm_items m ps))"
    unfolding items_amap[OF assms, symmetric] by (simp add: dom_map_of_conv_image_fst)
  then have "card (dom (lvm_amap m)) = length ps"
    using distinct_card[OF indexed_distinct_keys[OF assms]] by (simp add: lvm_items_def)
  then show "lvm_len m = length ps"
    using assms(1) dom vm_len_card[of "lvm_map m"] by (simp add: lvm_len_def lvm_indexed_def)
qed

subsection \<open>Insertion, removal and lookup\<close>

lemma ensure_guard_spec:
  assumes "lvm_rep m ps fs"
  obtains m' where "lvm_ensure_guard_node m = Some m'" "lvm_shape m' ps fs {}" "lvm_indexed m' ps"
    "lvm_map m' = lvm_map m" "lvm_items m' ps = lvm_items m ps"
proof (cases "lvm_head m = 0")
  case False
  then show ?thesis using that assms by (auto simp: lvm_ensure_guard_node_def lvm_rep_def)
next
  case True
  then have e: "ps = []" "fs = []" "lvm_free m = 0" "lvm_mem m = Map.empty" "lvm_indexed m ps" "0 < lvm_fresh m"
    using assms by (auto simp: lvm_rep_def)
  let ?p = "lvm_fresh m"
  define m' where "m' = m\<lparr>lvm_head := ?p, lvm_fresh := Suc ?p,
    lvm_mem := [?p \<mapsto> \<lparr>n_next = ?p, n_prev = ?p, n_key = None, n_value = None\<rparr>]\<rparr>"
  have "lvm_ensure_guard_node m = Some m'"
    using True e by (simp add: lvm_ensure_guard_node_def lvm_alloc_def Let_def lvm_write_def m'_def)
  moreover have "lvm_shape m' ps fs {}"
    using e by (auto simp: lvm_shape_def lvm_ring_def m'_def node_reads)
  moreover have "lvm_indexed m' ps" using e by (simp add: lvm_indexed_def m'_def)
  ultimately show ?thesis using that e by (simp add: m'_def lvm_items_def)
qed

lemma insert_spec:
  assumes rep: "lvm_rep m ps fs"
  obtains m' ps' fs' where "lvm_insert m k v = Some (lvm_amap m k, m')" "lvm_rep m' ps' fs'"
    "lvm_items m' ps' = filter (\<lambda>e. fst e \<noteq> k) (lvm_items m ps) @ [(k, v)]"
proof -
  obtain m0 where m0: "lvm_ensure_guard_node m = Some m0" "lvm_shape m0 ps fs {}" "lvm_indexed m0 ps"
    "lvm_map m0 = lvm_map m" "lvm_items m0 ps = lvm_items m ps"
    using ensure_guard_spec[OF rep] .
  have ps: "distinct ps" using m0(2) by (simp add: lvm_shape_def)
  have ix: "lvm_indexed m ps" using rep by (simp add: lvm_rep_def)
  show ?thesis
  proof (cases "vm_map (lvm_map m) k")
    case (Some p)
    from Some m0(4) have look: "vm_map (lvm_map m0) k = Some p" by simp
    obtain xs ys old where p: "ps = xs @ p # ys" "nkey m0 p = Some k" "nval m0 p = Some old"
      using indexed_lookup[OF m0(3) look] .
    have "p \<in> dom (lvm_mem m0)" using m0(2) p by (auto simp: lvm_shape_def)
    then obtain n where n: "lvm_mem m0 p = Some n" by blast
    define m1 where "m1 = m0\<lparr>lvm_mem := (lvm_mem m0)(p \<mapsto> n\<lparr>n_value := Some v\<rparr>)\<rparr>"
    have rd: "nx m1 = nx m0" "pv m1 = pv m0" "nkey m1 = nkey m0" "nval m1 = (nval m0)(p \<mapsto> v)"
      using n by (auto simp: m1_def node_reads fun_eq_iff)
    have "dom (lvm_mem m1) = dom (lvm_mem m0)" using n by (auto simp: m1_def)
    then have "lvm_shape m1 (xs @ p # ys) fs {}"
      using m0(2) p shape_cong[OF rd(1,2)] by (simp add: m1_def)
    from shape_refresh[OF this] obtain m2 m3 where m3: "lvm_detach p m1 = Some m2" "lvm_attach p m2 = Some m3"
      "same_nodes m1 m3" "lvm_shape m3 (p # xs @ ys) fs {}" .
    have same: "nkey m3 = nkey m0" "nval m3 = (nval m0)(p \<mapsto> v)" "lvm_map m3 = lvm_map m0"
      using m3(3) rd by (auto simp: same_nodes_def m1_def)
    have "lvm_amap m k = Some old"
      using items_amap[OF ix ps] items_amap[OF m0(3) ps] m0(5) look p(3) by (simp add: lvm_amap_def)
    then have "lvm_insert m k v = Some (lvm_amap m k, m3)"
      using m0(1) look n p(3) m3(1,2)
      by (simp add: lvm_insert_def lvm_write_def m1_def nval_def)
    moreover have "lvm_indexed m3 (p # xs @ ys)"
      by (rule indexed_cong[OF m0(3)]) (use same p m0(3) in \<open>auto simp: lvm_indexed_def\<close>)
    then have "lvm_rep m3 (p # xs @ ys) fs"
      using rep_shapeI m3(4) shape_fresh by blast
    moreover have "lvm_items m3 (p # xs @ ys) = lvm_items m3 (xs @ ys) @ [(k, v)]"
      using same p(2) by (simp add: lvm_items_def)
    moreover have "lvm_items m3 (xs @ ys) = lvm_items m0 (xs @ ys)"
      by (rule items_cong) (use same ps p(1) in auto)
    ultimately show ?thesis
      using that items_filter[OF _ _ p(2)] m0(3,5) ps p(1) by metis
  next
    case None
    then have look: "vm_map (lvm_map m0) k = None" using m0(4) by simp
    from shape_make_node[OF m0(2), of k v] obtain p m1 fs' where
      m1: "lvm_make_node k v m0 = Some (p, m1)" "lvm_shape m1 ps fs' {p}" "lvm_map m1 = lvm_map m0"
        "nkey m1 p = Some k" "nval m1 p = Some v" "\<And>q. q \<noteq> p \<Longrightarrow> lvm_mem m1 q = lvm_mem m0 q" by metis
    let ?m1 = "m1\<lparr>lvm_map := snd (vm_insert (lvm_map m1) k p)\<rparr>"
    have rd1: "nx ?m1 = nx m1" "pv ?m1 = pv m1" "nkey ?m1 = nkey m1" "nval ?m1 = nval m1"
      by (auto simp: node_reads)
    have "lvm_shape ?m1 ps fs' (insert p {})"
      using m1(2) shape_cong[OF rd1(1,2)] by simp
    from shape_attach[OF this] obtain m2 where m2: "lvm_attach p ?m1 = Some m2" "same_nodes ?m1 m2"
      "lvm_shape m2 (p # ps) fs' {}" by auto
    have out: "p \<notin> set ps" using m1(2) by (auto simp: lvm_shape_def)
    have rd: "nkey m2 q = nkey m0 q" "nval m2 q = nval m0 q" if "q \<in> set ps" for q
    proof -
      have "q \<noteq> p" using that out by blast
      then show "nkey m2 q = nkey m0 q" "nval m2 q = nval m0 q"
        using m2(2) rd1 reads_except(3,4)[of p m1 m0, OF m1(6)] by (auto simp: same_nodes_def)
    qed
    have p: "nkey m2 p = Some k" "nval m2 p = Some v" using m2(2) rd1 m1(4,5) by (auto simp: same_nodes_def)
    have map: "vm_map (lvm_map m2) = (vm_map (lvm_map m0))(k \<mapsto> p)" "vm_inv (lvm_map m2)"
      using m2(2) m1(3) m0(3) by (auto simp: same_nodes_def vm_insert_spec lvm_indexed_def)
    have "lvm_indexed m2 (p # ps)"
      using m0(3) look rd p out unfolding lvm_indexed_def map(1)
      by (auto simp: map(2)) (metis option.distinct(1))+
    then have "lvm_rep m2 (p # ps) fs'" using rep_shapeI m2(3) shape_fresh by blast
    moreover have "lvm_amap m k = None" using None by (simp add: lvm_amap_def)
    then have "lvm_insert m k v = Some (lvm_amap m k, m2)"
      using m0(1) look m1(1) m2(1) by (simp add: lvm_insert_def Let_def case_prod_beta)
    moreover have "lvm_items m2 (p # ps) = lvm_items m0 ps @ [(k, v)]"
      using rd p by (simp add: lvm_items_def)
    moreover have "k \<notin> fst ` set (lvm_items m ps)"
      using items_amap[OF ix ps] None by (metis lvm_amap_def map_of_eq_None_iff option.case(1))
    then have "filter (\<lambda>e. fst e \<noteq> k) (lvm_items m ps) = lvm_items m ps"
      by (auto intro!: filter_True)
    ultimately show ?thesis using that m0(5) by metis
  qed
qed

text \<open>Taking an entry out of the index.\<close>

lemma indexed_remove:
  assumes ix: "lvm_indexed m (xs @ p # ys)" and d: "distinct (xs @ p # ys)" and k: "nkey m p = Some k"
    and m': "lvm_map m' = snd (vm_remove (lvm_map m) k)"
    and eq: "\<And>q. q \<in> set (xs @ ys) \<Longrightarrow> nkey m' q = nkey m q" "\<And>q. q \<in> set (xs @ ys) \<Longrightarrow> nval m' q = nval m q"
  shows "lvm_indexed m' (xs @ ys)"
proof -
  have map: "vm_map (lvm_map m') = (vm_map (lvm_map m))(k := None)" "vm_inv (lvm_map m')"
    using ix unfolding m' by (auto simp: vm_remove_spec lvm_indexed_def)
  have pk: "vm_map (lvm_map m) k = Some p" using ix k by (auto simp: lvm_indexed_def)
  have "vm_map (lvm_map m') j = Some q \<longleftrightarrow> q \<in> set (xs @ ys) \<and> nkey m' q = Some j" for j q
  proof -
    have "vm_map (lvm_map m) j = Some q \<longleftrightarrow> q \<in> set (xs @ p # ys) \<and> nkey m q = Some j"
      using ix unfolding lvm_indexed_def by blast
    then show ?thesis using d k pk eq(1)[of q] unfolding map(1) by auto
  qed
  then show ?thesis using ix map(2) eq unfolding lvm_indexed_def by auto
qed

lemma lvm_remove_spec:
  assumes rep: "lvm_rep m ps fs"
  obtains m' ps' fs' where "lvm_remove m k = Some (lvm_amap m k, m')" "lvm_rep m' ps' fs'"
    "lvm_items m' ps' = filter (\<lambda>e. fst e \<noteq> k) (lvm_items m ps)"
proof (cases "vm_map (lvm_map m) k")
  case None
  have ix: "lvm_indexed m ps" and ps: "distinct ps"
    using rep by (auto simp: lvm_rep_def lvm_shape_def split: if_splits)
  let ?m = "m\<lparr>lvm_map := snd (vm_remove (lvm_map m) k)\<rparr>"
  have rd: "nx ?m = nx m" "pv ?m = pv m" "nkey ?m = nkey m" "nval ?m = nval m" by (auto simp: node_reads)
  have map: "vm_map (lvm_map ?m) = vm_map (lvm_map m)" "vm_inv (lvm_map ?m)"
    using None ix by (auto simp: vm_remove_spec lvm_indexed_def fun_upd_idem)
  then have "lvm_indexed ?m ps" using ix unfolding lvm_indexed_def rd by simp
  then have "lvm_rep ?m ps fs"
    using rep shape_cong[OF rd(1,2)] unfolding lvm_rep_def by simp
  moreover have amap: "lvm_amap m k = None" using None by (simp add: lvm_amap_def)
  then have "k \<notin> fst ` set (lvm_items m ps)"
    using items_amap[OF ix ps] by (metis map_of_eq_None_iff)
  then have "filter (\<lambda>e. fst e \<noteq> k) (lvm_items m ps) = lvm_items ?m ps"
    using items_cong[of ps ?m m] rd by (auto intro!: filter_True)
  moreover have "lvm_remove m k = Some (lvm_amap m k, ?m)"
    unfolding amap lvm_remove_def using None vm_remove_spec(1)[of "lvm_map m" k]
    by (simp add: case_prod_beta)
  ultimately show ?thesis using that by metis
next
  case (Some p)
  have ix: "lvm_indexed m ps" using rep by (simp add: lvm_rep_def)
  obtain xs ys v where p: "ps = xs @ p # ys" "nkey m p = Some k" "nval m p = Some v"
    using indexed_lookup[OF ix Some] .
  have sh: "lvm_shape m (xs @ p # ys) fs {}" using rep_shape[OF rep] p by simp
  then have ps: "distinct (xs @ p # ys)" by (auto simp: lvm_shape_def)
  let ?m = "m\<lparr>lvm_map := snd (vm_remove (lvm_map m) k)\<rparr>"
  have rd: "nx ?m = nx m" "pv ?m = pv m" "nkey ?m = nkey m" "nval ?m = nval m" by (auto simp: node_reads)
  have "lvm_shape ?m (xs @ p # ys) fs {}" using sh shape_cong[OF rd(1,2)] by simp
  from shape_detach[OF this] obtain m1 where m1: "lvm_detach p ?m = Some m1" "same_nodes ?m m1"
    "lvm_shape m1 (xs @ ys) fs (insert p {})" by auto
  from shape_recycle[OF m1(3)] obtain m2 where m2: "set_next p (lvm_free m1) m1 = Some m2" "same_nodes m1 m2"
    "lvm_shape (m2\<lparr>lvm_free := p\<rparr>) (xs @ ys) (p # fs) {}" by auto
  let ?m' = "m2\<lparr>lvm_free := p\<rparr>"
  have same: "nkey m2 = nkey m" "nval m2 = nval m" "lvm_map ?m' = snd (vm_remove (lvm_map m) k)"
    using m1(2) m2(2) rd by (auto simp: same_nodes_def)
  have "lvm_indexed ?m' (xs @ ys)"
    by (rule indexed_remove[OF ix[unfolded p(1)] ps p(2) same(3)]) (simp_all add: same(1,2))
  then have "lvm_rep ?m' (xs @ ys) (p # fs)" using rep_shapeI m2(3) shape_fresh by blast
  moreover have "lvm_items ?m' (xs @ ys) = filter (\<lambda>e. fst e \<noteq> k) (lvm_items m ps)"
    using items_filter[OF ix[unfolded p(1)] ps p(2)] items_cong[of "xs @ ys" ?m' m] same(1,2) p(1) by simp
  moreover have "lvm_remove m k = Some (lvm_amap m k, ?m')"
  proof -
    have "p \<in> dom (lvm_mem ?m')" using m2(3) by (auto simp: lvm_shape_def)
    then obtain n where n: "lvm_mem m2 p = Some n" by auto
    then have "n_value n = Some v" using same(2) p(3) by (metis nval_def option.sel)
    then show ?thesis
      using Some p(3) m1(1) m2(1) n vm_remove_spec(1)[of "lvm_map m" k]
      by (simp add: lvm_remove_def case_prod_beta lvm_amap_def Let_def)
  qed
  ultimately show ?thesis using that by metis
qed

lemma rep_facts:
  assumes "lvm_rep m ps fs"
  shows "lvm_indexed m ps" "distinct ps" "lvm_len m = length ps" "map_of (lvm_items m ps) = lvm_amap m"
    "length (lvm_items m ps) = length ps" "distinct (map fst (lvm_items m ps))"
proof -
  show ix: "lvm_indexed m ps" and d: "distinct ps"
    using assms by (auto simp: lvm_rep_def lvm_shape_def split: if_splits)
  show "lvm_len m = length ps" "map_of (lvm_items m ps) = lvm_amap m"
    "distinct (map fst (lvm_items m ps))" "length (lvm_items m ps) = length ps"
    using indexed_len[OF ix d] items_amap[OF ix d] indexed_distinct_keys[OF ix d] by (simp_all add: lvm_items_def)
qed

lemma node_at:
  assumes rep: "lvm_rep m ps fs" and p: "p \<in> set ps"
  obtains n k v where "lvm_mem m p = Some n" "n_key n = Some k" "n_value n = Some v"
    "nkey m p = Some k" "nval m p = Some v" "vm_map (lvm_map m) k = Some p"
    "n_next n = nx m p" "n_prev n = pv m p"
proof -
  have "ps \<noteq> []" using p by auto
  then have "lvm_shape m ps fs {}" using rep_shape[OF rep] by blast
  then have "p \<in> dom (lvm_mem m)" using p unfolding lvm_shape_def by blast
  then obtain n where n: "lvm_mem m p = Some n" by blast
  obtain k v where kv: "nkey m p = Some k" "nval m p = Some v"
    using rep_facts(1)[OF rep] p unfolding lvm_indexed_def by blast
  moreover have "vm_map (lvm_map m) k = Some p"
    using rep_facts(1)[OF rep] p kv unfolding lvm_indexed_def by blast
  ultimately show ?thesis using that n by (simp add: node_reads)
qed

lemma pop_node_spec:
  assumes rep: "lvm_rep m (xs @ p # ys) fs"
  obtains m' where "lvm_pop_node p m = Some (Some (the (nkey m p), the (nval m p)), m')"
    "lvm_rep m' (xs @ ys) fs" "lvm_items m' (xs @ ys) = lvm_items m (xs @ ys)"
proof -
  obtain n k v where n: "lvm_mem m p = Some n" "n_key n = Some k" "n_value n = Some v"
    "nkey m p = Some k" "nval m p = Some v" "vm_map (lvm_map m) k = Some p"
    by (rule node_at[OF rep, of p]) simp
  note f = rep_facts[OF rep]
  have "lvm_shape m (xs @ p # ys) fs {}" using rep_shape[OF rep] by simp
  from shape_detach[OF this] obtain m1 where m1: "lvm_detach p m = Some m1" "same_nodes m m1"
    "lvm_shape m1 (xs @ ys) fs {p}" .
  let ?m1 = "m1\<lparr>lvm_map := snd (vm_remove (lvm_map m1) k)\<rparr>"
  have "lvm_shape ?m1 (xs @ ys) fs (insert p {})" using m1(3) shape_cong[of ?m1 m1] by simp
  from shape_dealloc[OF this] obtain m2 where m2: "lvm_dealloc p ?m1 = Some m2" "lvm_shape m2 (xs @ ys) fs {}"
    "lvm_map m2 = lvm_map ?m1" "\<And>q. q \<noteq> p \<Longrightarrow> lvm_mem m2 q = lvm_mem ?m1 q" by auto
  have eq: "nkey m2 q = nkey m q" "nval m2 q = nval m q" if "q \<in> set (xs @ ys)" for q
  proof -
    have "q \<noteq> p" using that f(2) by auto
    then show "nkey m2 q = nkey m q" "nval m2 q = nval m q"
      using reads_except(3,4)[of p m2 ?m1, OF m2(4)] m1(2) by (auto simp: same_nodes_def)
  qed
  have "lvm_map m2 = snd (vm_remove (lvm_map m) k)" using m2(3) m1(2) by (simp add: same_nodes_def)
  then have "lvm_indexed m2 (xs @ ys)"
    by (rule indexed_remove[OF f(1,2) n(4)]) (simp_all add: eq)
  then have rep': "lvm_rep m2 (xs @ ys) fs" using rep_shapeI m2(2) shape_fresh by blast
  have "p \<in> dom (lvm_mem m1)" using m1(3) by (auto simp: lvm_shape_def)
  then obtain n1 where n1: "lvm_mem m1 p = Some n1" by blast
  moreover have "n_key n1 = Some k" "n_value n1 = Some v"
    using n1 m1(2) n(4,5) unfolding same_nodes_def by (metis nkey_def nval_def option.sel)+
  moreover have "fst (vm_remove (lvm_map m1) k) = Some p"
    using n(6) m1(2) by (simp add: vm_remove_spec same_nodes_def)
  ultimately have "lvm_pop_node p m = Some (Some (k, v), m2)"
    using m1(1) m2(1) by (simp add: lvm_pop_node_def Let_def case_prod_beta)
  then show ?thesis using that rep' n(4,5) items_cong[of "xs @ ys" m2 m] eq by auto
qed

lemma rep_ends:
  assumes rep: "lvm_rep m ps fs" and ne: "ps \<noteq> []"
  obtains h where "lvm_mem m (lvm_head m) = Some h" "n_next h = hd ps" "n_prev h = last ps"
proof -
  have sh: "lvm_shape m ps fs {}" using rep_shape[OF rep] ne by simp
  then have "lvm_head m \<in> dom (lvm_mem m)" by (auto simp: lvm_shape_def)
  then obtain h where h: "lvm_mem m (lvm_head m) = Some h" by blast
  have "dseg (nx m) (pv m) (lvm_head m) ps (lvm_head m)" using sh by (simp add: lvm_shape_def lvm_ring_def)
  then have "nx m (lvm_head m) = hd ps" "pv m (lvm_head m) = last ps"
    using dseg_first[of "nx m" "pv m"] dseg_last[of "nx m" "pv m"] ne by fastforce+
  then show ?thesis using that h by (simp add: node_reads)
qed

lemma is_empty_spec: "lvm_rep m ps fs \<Longrightarrow> lvm_is_empty m \<longleftrightarrow> ps = []"
  using rep_facts(3)[of m ps fs] by (simp add: lvm_is_empty_def)

lemma pop_front_spec:
  assumes rep: "lvm_rep m ps fs"
  obtains m' ps' where "lvm_rep m' ps' fs"
    "lvm_items m ps = [] \<Longrightarrow> lvm_pop_front m = Some (None, m') \<and> m' = m"
    "lvm_items m ps \<noteq> [] \<Longrightarrow> lvm_pop_front m = Some (Some (hd (lvm_items m ps)), m')"
    "lvm_items m' ps' = tl (lvm_items m ps)"
proof (cases ps rule: rev_cases)
  case Nil
  then show ?thesis
    using that[OF rep] is_empty_spec[OF rep] by (simp add: lvm_items_def lvm_pop_front_def)
next
  case (snoc xs p)
  then obtain h where h: "lvm_mem m (lvm_head m) = Some h" "n_prev h = p"
    using rep_ends[OF rep] by auto
  from pop_node_spec[of m xs p "[]" fs] rep snoc obtain m' where
    m': "lvm_pop_node p m = Some (Some (the (nkey m p), the (nval m p)), m')" "lvm_rep m' xs fs"
      "lvm_items m' xs = lvm_items m xs" by auto
  then show ?thesis
    using that[OF m'(2)] h is_empty_spec[OF rep] snoc by (simp add: lvm_items_def lvm_pop_front_def)
qed

lemma pop_back_spec:
  assumes rep: "lvm_rep m ps fs"
  obtains m' ps' where "lvm_rep m' ps' fs"
    "lvm_items m ps = [] \<Longrightarrow> lvm_pop_back m = Some (None, m') \<and> m' = m"
    "lvm_items m ps \<noteq> [] \<Longrightarrow> lvm_pop_back m = Some (Some (last (lvm_items m ps)), m')"
    "lvm_items m' ps' = butlast (lvm_items m ps)"
proof (cases ps)
  case Nil
  then show ?thesis
    using that[OF rep] is_empty_spec[OF rep] by (simp add: lvm_items_def lvm_pop_back_def)
next
  case (Cons p ys)
  then obtain h where h: "lvm_mem m (lvm_head m) = Some h" "n_next h = p"
    using rep_ends[OF rep] by auto
  from pop_node_spec[of m "[]" p ys fs] rep Cons obtain m' where
    m': "lvm_pop_node p m = Some (Some (the (nkey m p), the (nval m p)), m')" "lvm_rep m' ys fs"
      "lvm_items m' ys = lvm_items m ys" by auto
  then show ?thesis
    using that[OF m'(2)] h is_empty_spec[OF rep] Cons by (simp add: lvm_items_def lvm_pop_back_def)
qed

lemma peek_node_spec:
  assumes rep: "lvm_rep m ps fs" and p: "p \<in> set ps"
  shows "lvm_peek_node p m = Some (Some (the (nkey m p), the (nval m p)))"
  by (rule node_at[OF rep p]) (simp add: lvm_peek_node_def)

lemma front_back_spec:
  assumes rep: "lvm_rep m ps fs"
  shows "lvm_front m = Some (if lvm_items m ps = [] then None else Some (hd (lvm_items m ps)))"
    "lvm_back m = Some (if lvm_items m ps = [] then None else Some (last (lvm_items m ps)))"
proof -
  have "lvm_front m = Some (Some (hd (lvm_items m ps))) \<and> lvm_back m = Some (Some (last (lvm_items m ps)))"
    if ne: "ps \<noteq> []"
  proof -
    obtain h where "lvm_mem m (lvm_head m) = Some h" "n_next h = hd ps" "n_prev h = last ps"
      using rep_ends[OF rep ne] .
    then show ?thesis
      using ne is_empty_spec[OF rep] peek_node_spec[OF rep, of "hd ps"] peek_node_spec[OF rep, of "last ps"]
      by (simp add: lvm_front_def lvm_back_def lvm_items_def hd_map hd_rev last_map last_rev)
  qed
  then show "lvm_front m = Some (if lvm_items m ps = [] then None else Some (hd (lvm_items m ps)))"
    "lvm_back m = Some (if lvm_items m ps = [] then None else Some (last (lvm_items m ps)))"
    using is_empty_spec[OF rep] by (cases "ps = []"; simp add: lvm_items_def lvm_front_def lvm_back_def)+
qed

lemma get_spec:
  assumes rep: "lvm_rep m ps fs"
  shows "lvm_get m k = Some (lvm_amap m k)" "lvm_contains_key m k \<longleftrightarrow> k \<in> dom (lvm_amap m)"
proof -
  show "lvm_get m k = Some (lvm_amap m k)"
  proof (cases "vm_map (lvm_map m) k")
    case (Some p)
    then have "p \<in> set ps" using rep_facts(1)[OF rep] by (auto simp: lvm_indexed_def)
    then show ?thesis
      by (rule node_at[OF rep]) (use Some in \<open>simp add: lvm_get_def lvm_amap_def\<close>)
  qed (simp add: lvm_get_def lvm_amap_def)
  show "lvm_contains_key m k \<longleftrightarrow> k \<in> dom (lvm_amap m)"
    using indexed_len(2)[OF rep_facts(1,2)[OF rep]] by (simp add: lvm_contains_key_def)
qed

lemma filter_key_distinct:
  "distinct (map fst xs) \<Longrightarrow> (k, v) \<in> set xs \<Longrightarrow> filter (\<lambda>e. fst e = k) xs = [(k, v)]"
  by (induction xs) (auto simp: filter_empty_conv intro: rev_image_eqI)

lemma get_refresh_spec:
  assumes rep: "lvm_rep m ps fs"
  obtains m' ps' where "lvm_get_refresh m k = Some (lvm_amap m k, m')" "lvm_rep m' ps' fs"
    "lvm_items m' ps' = filter (\<lambda>e. fst e \<noteq> k) (lvm_items m ps) @ filter (\<lambda>e. fst e = k) (lvm_items m ps)"
proof (cases "vm_map (lvm_map m) k")
  case None
  then have "k \<notin> fst ` set (lvm_items m ps)"
    using rep_facts(4)[OF rep] by (metis lvm_amap_def map_of_eq_None_iff option.case(1))
  then have "filter (\<lambda>e. fst e \<noteq> k) (lvm_items m ps) = lvm_items m ps" "filter (\<lambda>e. fst e = k) (lvm_items m ps) = []"
    by (auto simp: filter_empty_conv intro!: filter_True)
  then show ?thesis using that[OF _ rep] None by (simp add: lvm_get_refresh_def lvm_amap_def)
next
  case (Some p)
  note f = rep_facts[OF rep]
  obtain xs ys v where p: "ps = xs @ p # ys" "nkey m p = Some k" "nval m p = Some v"
    using indexed_lookup[OF f(1) Some] .
  have "lvm_shape m (xs @ p # ys) fs {}" using rep_shape[OF rep] p by simp
  from shape_refresh[OF this] obtain m1 m2 where m2: "lvm_detach p m = Some m1" "lvm_attach p m1 = Some m2"
    "same_nodes m m2" "lvm_shape m2 (p # xs @ ys) fs {}" .
  have same: "nkey m2 = nkey m" "nval m2 = nval m" "lvm_map m2 = lvm_map m"
    using m2(3) by (auto simp: same_nodes_def)
  have "lvm_indexed m2 (p # xs @ ys)"
    by (rule indexed_cong[OF f(1)]) (use same p f(1) in \<open>auto simp: lvm_indexed_def\<close>)
  then have rep': "lvm_rep m2 (p # xs @ ys) fs" using rep_shapeI m2(4) shape_fresh by blast
  obtain n where "lvm_mem m p = Some n" "n_value n = Some v"
    by (rule node_at[OF rep, of p]) (use p in auto)
  then have "lvm_get_refresh m k = Some (lvm_amap m k, m2)"
    using Some m2(1,2) p(3) by (simp add: lvm_get_refresh_def lvm_amap_def)
  moreover have "filter (\<lambda>e. fst e = k) (lvm_items m ps) = [(k, v)]"
  proof -
    have "(k, v) \<in> set (lvm_items m ps)" using p by (force simp: lvm_items_def)
    then show ?thesis using filter_key_distinct[OF f(6)] by metis
  qed
  moreover have "lvm_items m2 (p # xs @ ys) = lvm_items m (xs @ ys) @ [(k, v)]"
    using same p by (simp add: lvm_items_def)
  ultimately show ?thesis
    using that[OF _ rep'] items_filter[OF f(1)[unfolded p(1)] f(2)[unfolded p(1)] p(2)] p(1) by metis
qed

subsection \<open>Iteration\<close>

abbreviation node_item :: "'v lvm \<Rightarrow> addr \<Rightarrow> nat \<times> 'v" where
  "node_item m p \<equiv> (the (nkey m p), the (nval m p))"

lemma node_entry_spec:
  assumes "p \<in> dom (lvm_mem m)" "nkey m p \<noteq> None" "nval m p \<noteq> None"
  obtains n where "node_entry m p = Some (n, node_item m p)" "n_prev n = pv m p" "n_next n = nx m p"
  using assms by (auto simp: node_entry_def node_reads)

lemma rep_node_entry:
  assumes "lvm_rep m ps fs" "p \<in> set ps"
  obtains n where "node_entry m p = Some (n, node_item m p)" "n_prev n = pv m p" "n_next n = nx m p"
  by (rule node_at[OF assms]) (use that in \<open>simp add: node_entry_def\<close>)

text \<open>Forwards, oldest entry first.\<close>

lemma iter_forward:
  assumes rep: "lvm_rep m (xs @ ys) fs" and h: "lvm_head m \<noteq> 0" and fuel: "length xs < fuel"
  shows "iter_collect (iter_next m) fuel
    \<lparr>it_head = last (lvm_head m # xs), it_tail = lvm_head m, it_remaining = r\<rparr> = Some (lvm_items m xs)"
  using assms
proof (induction xs arbitrary: ys fuel r rule: rev_induct)
  case Nil
  then show ?case by (cases fuel) (auto simp: iter_next_def lvm_items_def)
next
  case (snoc x xs)
  then obtain fuel' where fuel: "fuel = Suc fuel'" "length xs < fuel'" by (cases fuel) auto
  have sh: "lvm_shape m (xs @ x # ys) fs {}" using rep_shape[OF snoc.prems(1)] snoc.prems(2) by simp
  then have "dseg (nx m) (pv m) (lvm_head m) xs x"
    by (simp add: lvm_shape_def lvm_ring_def dseg_append)
  then have prev: "pv m x = last (lvm_head m # xs)" by (rule dseg_last)
  have ne: "x \<noteq> lvm_head m" using sh by (auto simp: lvm_shape_def lvm_ring_def)
  obtain n where n: "node_entry m x = Some (n, node_item m x)" "n_prev n = pv m x"
    by (rule rep_node_entry[OF snoc.prems(1), of x]) auto
  have "iter_collect (iter_next m) fuel'
      \<lparr>it_head = last (lvm_head m # xs), it_tail = lvm_head m, it_remaining = usize_sub r 1\<rparr> = Some (lvm_items m xs)"
    using snoc.IH[of "x # ys" fuel' "usize_sub r 1"] snoc.prems fuel(2) by simp
  moreover have "iter_next m \<lparr>it_head = x, it_tail = lvm_head m, it_remaining = r\<rparr> =
      Some (Some (node_item m x),
        \<lparr>it_head = last (lvm_head m # xs), it_tail = lvm_head m, it_remaining = usize_sub r 1\<rparr>)"
    using n prev ne by (simp add: iter_next_def del: One_nat_def)
  ultimately show ?case unfolding fuel by (simp add: lvm_items_def del: One_nat_def)
qed

text \<open>Backwards, newest entry first.\<close>

lemma iter_backward:
  assumes rep: "lvm_rep m (xs @ ys) fs" and h: "lvm_head m \<noteq> 0" and fuel: "length ys < fuel"
  shows "iter_collect (iter_next_back m) fuel
    \<lparr>it_head = last (lvm_head m # xs @ ys), it_tail = last (lvm_head m # xs), it_remaining = r\<rparr>
    = Some (map (node_item m) ys)"
  using assms
proof (induction ys arbitrary: xs fuel r)
  case Nil
  then show ?case by (cases fuel) (auto simp: iter_next_back_def)
next
  case (Cons y ys)
  then obtain fuel' where fuel: "fuel = Suc fuel'" "length ys < fuel'" by (cases fuel) auto
  let ?t = "last (lvm_head m # xs)"
  have sh: "lvm_shape m (xs @ y # ys) fs {}" using rep_shape[OF Cons.prems(1)] Cons.prems(2) by simp
  then have ring: "dseg (nx m) (pv m) (lvm_head m) (xs @ y # ys) (lvm_head m)" "distinct (lvm_head m # xs @ y # ys)"
    "insert (lvm_head m) (set (xs @ y # ys)) \<subseteq> dom (lvm_mem m)"
    by (auto simp: lvm_shape_def lvm_ring_def)
  have next_t: "nx m ?t = y"
  proof (cases xs rule: rev_cases)
    case (snoc zs z)
    then have "dseg (nx m) (pv m) z (y # ys) (lvm_head m)" using ring(1) by (simp add: dseg_append)
    then show ?thesis using snoc by simp
  qed (use ring(1) in simp)
  have "?t \<in> insert (lvm_head m) (set (xs @ y # ys))" by (cases xs rule: rev_cases) auto
  then obtain t where t: "lvm_mem m ?t = Some t" "n_next t = y"
    using ring(3) next_t by (auto simp: nx_def)
  have "?t \<notin> set (y # ys)" using ring(2) by (cases xs rule: rev_cases) auto
  then have ne: "last (lvm_head m # xs @ y # ys) \<noteq> ?t"
    by (metis append_Cons append_is_Nil_conv last_append last_in_set list.distinct(1))
  obtain n where n: "node_entry m y = Some (n, node_item m y)"
    by (rule rep_node_entry[OF Cons.prems(1), of y]) auto
  have "iter_collect (iter_next_back m) fuel'
      \<lparr>it_head = last (lvm_head m # xs @ y # ys), it_tail = y, it_remaining = usize_sub r 1\<rparr>
      = Some (map (node_item m) ys)"
    using Cons.IH[of "xs @ [y]" fuel' "usize_sub r 1"] Cons.prems fuel(2) by simp
  moreover have "iter_next_back m
      \<lparr>it_head = last (lvm_head m # xs @ y # ys), it_tail = ?t, it_remaining = r\<rparr> =
      Some (Some (node_item m y),
        \<lparr>it_head = last (lvm_head m # xs @ y # ys), it_tail = y, it_remaining = usize_sub r 1\<rparr>)"
    using n t ne by (simp add: iter_next_back_def Let_def del: One_nat_def last.simps)
  ultimately show ?case unfolding fuel by (simp del: One_nat_def last.simps)
qed

lemma iter_spec:
  assumes rep: "lvm_rep m ps fs"
  obtains it where "lvm_iter m = Some it" "it_remaining it = length ps" "it_tail it = lvm_head m"
    "it_head it = (if lvm_head m = 0 then 0 else last (lvm_head m # ps))"
proof (cases "lvm_head m = 0")
  case True
  then show ?thesis
    using that[of "\<lparr>it_head = 0, it_tail = lvm_head m, it_remaining = length ps\<rparr>"] rep_facts(3)[OF rep]
    by (simp add: lvm_iter_def)
next
  case False
  then have sh: "lvm_shape m ps fs {}" using rep_shape[OF rep] by simp
  then obtain h where h: "lvm_mem m (lvm_head m) = Some h" by (auto simp: lvm_shape_def lvm_ring_def)
  have "pv m (lvm_head m) = last (lvm_head m # ps)"
    using sh by (intro dseg_last[of "nx m"]) (simp add: lvm_shape_def lvm_ring_def)
  then have "n_prev h = last (lvm_head m # ps)" using h by (simp add: pv_def)
  then show ?thesis
    using that[of "\<lparr>it_head = n_prev h, it_tail = lvm_head m, it_remaining = length ps\<rparr>"] h False
      rep_facts(3)[OF rep] by (simp add: lvm_iter_def)
qed

lemma to_list_spec:
  assumes rep: "lvm_rep m ps fs"
  shows "lvm_to_list m = Some (lvm_items m ps)"
    "do { it \<leftarrow> lvm_iter m; iter_collect (iter_next_back m) (Suc (lvm_len m)) it } = Some (rev (lvm_items m ps))"
proof -
  obtain it where it: "lvm_iter m = Some it" "it_remaining it = length ps" "it_tail it = lvm_head m"
    "it_head it = (if lvm_head m = 0 then 0 else last (lvm_head m # ps))"
    using iter_spec[OF rep] .
  note len = rep_facts(3)[OF rep]
  show "lvm_to_list m = Some (lvm_items m ps)"
  proof (cases "lvm_head m = 0")
    case True
    then have "ps = []" using rep by (simp add: lvm_rep_def)
    then show ?thesis using True it by (simp add: lvm_to_list_def iter_next_def lvm_items_def len)
  next
    case False
    have "it = \<lparr>it_head = last (lvm_head m # ps), it_tail = lvm_head m, it_remaining = length ps\<rparr>"
      using it False by simp
    then show ?thesis
      using it(1) iter_forward[of m ps "[]" fs "Suc (length ps)"] rep False
      by (simp add: lvm_to_list_def len del: iter_collect.simps last.simps)
  qed
  show "do { it \<leftarrow> lvm_iter m; iter_collect (iter_next_back m) (Suc (lvm_len m)) it } = Some (rev (lvm_items m ps))"
  proof (cases "lvm_head m = 0")
    case True
    then have "ps = []" using rep by (simp add: lvm_rep_def)
    then show ?thesis using True it by (simp add: iter_next_back_def lvm_items_def len)
  next
    case False
    have "it = \<lparr>it_head = last (lvm_head m # [] @ ps), it_tail = last (lvm_head m # []), it_remaining = length ps\<rparr>"
      using it False by simp
    then show ?thesis
      using it(1) iter_backward[of m "[]" ps fs "Suc (length ps)"] rep False
      by (simp add: lvm_items_def rev_map len del: iter_collect.simps)
  qed
qed

subsection \<open>Freeing nodes\<close>

lemma nx_dealloc: "q \<noteq> p \<Longrightarrow> nx (m\<lparr>lvm_mem := (lvm_mem m)(p := None)\<rparr>) q = nx m q"
  by (simp add: nx_def)

lemma drop_entries_loop_spec:
  assumes "nseg (nx m) cur ps (lvm_head m)" "distinct ps" "lvm_head m \<notin> set ps" "set ps \<subseteq> dom (lvm_mem m)"
  shows "drop_entries_loop cur m = Some (m\<lparr>lvm_mem := lvm_mem m |` (- set ps)\<rparr>)"
  using assms
proof (induction ps arbitrary: cur m)
  case Nil
  then show ?case by (subst drop_entries_loop.simps, cases m) (simp add: restrict_map_def)
next
  case (Cons p ps)
  let ?m = "m\<lparr>lvm_mem := (lvm_mem m)(p := None)\<rparr>"
  from Cons.prems obtain n where n: "lvm_mem m p = Some n" by auto
  then have nxp: "n_next n = nx m p" by (simp add: nx_def)
  have "nseg (nx ?m) (nx m p) ps (lvm_head m) = nseg (nx m) (nx m p) ps (lvm_head m)"
    by (rule nseg_frame, rule nx_dealloc) (use Cons.prems(2) in auto)
  then have "drop_entries_loop (nx m p) ?m = Some (?m\<lparr>lvm_mem := lvm_mem ?m |` (- set ps)\<rparr>)"
    using Cons.prems by (intro Cons.IH) auto
  moreover have "lvm_mem ?m |` (- set ps) = lvm_mem m |` (- set (p # ps))"
    by (auto simp: restrict_map_def fun_eq_iff)
  ultimately show ?case
    using Cons.prems n nxp by (subst drop_entries_loop.simps) (simp add: lvm_dealloc_def)
qed

lemma clear_free_loop_spec:
  assumes "sseg (nx m) free fs" "distinct fs" "0 \<notin> set fs" "set fs \<subseteq> dom (lvm_mem m)"
  shows "clear_free_loop free m = Some (m\<lparr>lvm_mem := lvm_mem m |` (- set fs)\<rparr>)"
  using assms
proof (induction fs arbitrary: free m)
  case Nil
  then show ?case by (subst clear_free_loop.simps, cases m) (simp add: restrict_map_def)
next
  case (Cons p ps)
  let ?m = "m\<lparr>lvm_mem := (lvm_mem m)(p := None)\<rparr>"
  from Cons.prems obtain n where n: "lvm_mem m p = Some n" by auto
  then have nxp: "n_next n = nx m p" by (simp add: nx_def)
  have "sseg (nx ?m) (nx m p) ps = sseg (nx m) (nx m p) ps"
    by (rule sseg_frame, rule nx_dealloc) (use Cons.prems(2) in auto)
  then have "clear_free_loop (nx m p) ?m = Some (?m\<lparr>lvm_mem := lvm_mem ?m |` (- set ps)\<rparr>)"
    using Cons.prems by (intro Cons.IH) auto
  moreover have "lvm_mem ?m |` (- set ps) = lvm_mem m |` (- set (p # ps))"
    by (auto simp: restrict_map_def fun_eq_iff)
  ultimately show ?case
    using Cons.prems n nxp by (subst clear_free_loop.simps) (simp add: lvm_dealloc_def)
qed

lemma drop_entries_spec:
  assumes sh: "lvm_shape m ps fs X"
  shows "lvm_drop_entries m = Some (m\<lparr>lvm_mem := lvm_mem m |` (- set ps)\<rparr>)"
proof -
  have ring: "dseg (nx m) (pv m) (lvm_head m) ps (lvm_head m)" "distinct ps" "lvm_head m \<notin> set ps"
    "set ps \<subseteq> dom (lvm_mem m)" "lvm_head m \<in> dom (lvm_mem m)"
    using sh by (auto simp: lvm_shape_def lvm_ring_def)
  then obtain h where h: "lvm_mem m (lvm_head m) = Some h" by blast
  have "n_next h = nx m (lvm_head m)" using h by (simp add: nx_def)
  then show ?thesis
    using drop_entries_loop_spec[OF dseg_nseg[OF ring(1)] ring(2-4)] h by (simp add: lvm_drop_entries_def)
qed

lemma clear_spec:
  assumes rep: "lvm_rep m ps fs"
  obtains m' where "lvm_clear m = Some m'" "lvm_rep m' [] fs"
proof (cases "lvm_head m = 0")
  case True
  let ?m = "m\<lparr>lvm_map := vm_clear (lvm_map m)\<rparr>"
  have "lvm_rep ?m [] fs" using rep True by (auto simp: lvm_rep_def lvm_indexed_def)
  then show ?thesis using that True by (simp add: lvm_clear_def)
next
  case False
  let ?m = "m\<lparr>lvm_map := vm_clear (lvm_map m)\<rparr>" let ?h = "lvm_head m"
  have sh: "lvm_shape m ps fs {}" using rep_shape[OF rep] False by simp
  then have "lvm_shape ?m ps fs {}" using shape_cong[of ?m m] by simp
  note drop = drop_entries_spec[OF this]
  define m1 where "m1 = ?m\<lparr>lvm_mem := lvm_mem m |` (- set ps)\<rparr>"
  have d1: "dom (lvm_mem m1) = set fs \<union> {?h}" using sh by (auto simp: m1_def lvm_shape_def lvm_ring_def)
  then obtain m2 where m2: "set_prev ?h ?h m1 = Some m2" "same_nodes m1 m2" "nx m2 = nx m1" "pv m2 = (pv m1)(?h := ?h)"
    using set_prev_spec[of ?h m1] by (metis UnCI insertI1)
  then have d2: "dom (lvm_mem m2) = set fs \<union> {?h}" using d1 by (simp add: same_nodes_def)
  then obtain m3 where m3: "set_next ?h ?h m2 = Some m3" "same_nodes m2 m3" "nx m3 = (nx m2)(?h := ?h)" "pv m3 = pv m2"
    using set_next_spec[of ?h m2] by (metis UnCI insertI1)
  have heads: "lvm_head m1 = ?h" "lvm_head m2 = ?h" using m2(2) by (auto simp: m1_def same_nodes_def)
  have run: "lvm_clear m = Some m3"
    using False drop m2(1) m3(1) heads by (simp add: lvm_clear_def Let_def m1_def)
  have out: "set fs \<inter> set ps = {}" "?h \<notin> set fs" using sh by (auto simp: lvm_shape_def)
  have "nx m1 q = nx m q" if "q \<notin> set ps" for q using that by (simp add: m1_def nx_def)
  then have "sseg (nx m3) (lvm_free m) fs = sseg (nx m) (lvm_free m) fs"
    by (intro sseg_frame) (use m3(3) m2(3) out in \<open>auto simp: disjoint_iff\<close>)
  moreover have "lvm_map m3 = vm_clear (lvm_map m)" "lvm_free m3 = lvm_free m" "lvm_fresh m3 = lvm_fresh m"
    "lvm_head m3 = ?h" "dom (lvm_mem m3) = set fs \<union> {?h}"
    using m2(2) m3(2) d1 by (auto simp: same_nodes_def m1_def)
  ultimately have "lvm_rep m3 [] fs"
    using sh False m3(3,4) m2(4)
    by (auto simp: lvm_rep_def lvm_indexed_def lvm_shape_def lvm_ring_def)
  then show ?thesis using that run by blast
qed

text \<open>Dropping the map frees every node: nothing leaks.\<close>

lemma drop_spec:
  assumes rep: "lvm_rep m ps fs"
  obtains m' where "lvm_drop m = Some m'" "dom (lvm_mem m') = {}"
proof (cases "lvm_head m = 0")
  case True
  then have "lvm_free m = 0" "dom (lvm_mem m) = {}" using rep by (auto simp: lvm_rep_def)
  then show ?thesis
    using that[of m] True clear_free_loop.simps[of 0 m] by (simp add: lvm_drop_def lvm_clear_free_list_def)
next
  case False
  then have sh: "lvm_shape m ps fs {}" using rep_shape[OF rep] by simp
  let ?h = "lvm_head m"
  define m1 where "m1 = m\<lparr>lvm_mem := (lvm_mem m |` (- set ps))(?h := None)\<rparr>"
  have out: "set fs \<inter> set ps = {}" "?h \<notin> set fs" "distinct fs" "0 \<notin> set fs" "?h \<notin> set ps"
    using sh by (auto simp: lvm_shape_def lvm_ring_def)
  have "?h \<in> dom (lvm_mem m)" using sh by (auto simp: lvm_shape_def)
  then obtain h where h: "lvm_mem m ?h = Some h" by blast
  have "nx m1 q = nx m q" if "q \<notin> set ps" "q \<noteq> ?h" for q using that by (simp add: m1_def nx_def)
  then have "sseg (nx m1) (lvm_free m) fs = sseg (nx m) (lvm_free m) fs"
    by (intro sseg_frame) (use out in \<open>auto simp: disjoint_iff\<close>)
  moreover have d1: "dom (lvm_mem m1) = set fs" using sh out by (auto simp: m1_def lvm_shape_def)
  ultimately have "clear_free_loop (lvm_free m) m1 = Some (m1\<lparr>lvm_mem := lvm_mem m1 |` (- set fs)\<rparr>)"
    using sh out by (intro clear_free_loop_spec) (auto simp: lvm_shape_def)
  then have "lvm_drop m = Some (m1\<lparr>lvm_mem := lvm_mem m1 |` (- set fs), lvm_free := 0\<rparr>)"
    using False drop_entries_spec[OF sh] h out
    by (simp add: lvm_drop_def lvm_dealloc_def lvm_clear_free_list_def m1_def)
  moreover have "lvm_mem m1 |` (- set fs) = Map.empty" using d1 by (auto simp: restrict_map_def fun_eq_iff)
  ultimately show ?thesis using that by simp
qed

subsection \<open>Draining\<close>

lemma drain_collect:
  assumes "pseg (pv m) xs" "set xs \<subseteq> dom (lvm_mem m)" "\<And>p. p \<in> set xs \<Longrightarrow> nkey m p \<noteq> None \<and> nval m p \<noteq> None"
    "length xs < fuel" "xs \<noteq> [] \<longrightarrow> hd0 = last xs"
  shows "iter_collect (drain_next m) fuel \<lparr>it_head = hd0, it_tail = t, it_remaining = length xs\<rparr> = Some (lvm_items m xs)"
  using assms
proof (induction xs arbitrary: fuel hd0 rule: rev_induct)
  case Nil
  then show ?case by (cases fuel) (auto simp: drain_next_def lvm_items_def)
next
  case (snoc x xs)
  then obtain fuel' where fuel: "fuel = Suc fuel'" "length xs < fuel'" by (cases fuel) auto
  obtain n where n: "node_entry m x = Some (n, node_item m x)" "n_prev n = pv m x"
    by (rule node_entry_spec[of x m]) (use snoc.prems(2,3) in auto)
  have "iter_collect (drain_next m) fuel' \<lparr>it_head = pv m x, it_tail = t, it_remaining = length xs\<rparr> = Some (lvm_items m xs)"
    using snoc.prems fuel(2) by (intro snoc.IH) (auto simp: pseg_snoc)
  moreover have "drain_next m \<lparr>it_head = x, it_tail = t, it_remaining = Suc (length xs)\<rparr> =
      Some (Some (node_item m x), \<lparr>it_head = pv m x, it_tail = t, it_remaining = length xs\<rparr>)"
    using n by (simp add: drain_next_def)
  ultimately show ?case using snoc.prems(5) unfolding fuel by (simp add: lvm_items_def)
qed

lemma drain_spec:
  assumes rep: "lvm_rep m ps fs"
  obtains it m' where "lvm_drain m = Some (it, m')" "lvm_rep m' [] (ps @ fs)"
    "iter_collect (drain_next m') (Suc (lvm_len m)) it = Some (lvm_items m ps)"
proof (cases ps)
  case Nil
  let ?m = "m\<lparr>lvm_map := vm_clear (lvm_map m)\<rparr>"
  have "lvm_rep ?m [] fs"
    using rep Nil shape_cong[of ?m m] by (auto simp: lvm_rep_def lvm_indexed_def split: if_splits)
  then show ?thesis
    using that[of "\<lparr>it_head = 0, it_tail = 0, it_remaining = 0\<rparr>" ?m] Nil rep_facts(3)[OF rep]
    by (simp add: lvm_drain_def drain_next_def lvm_items_def)
next
  case (Cons x xs)
  let ?h = "lvm_head m" and ?l = "last ps"
  have sh: "lvm_shape m ps fs {}" using rep_shape[OF rep] Cons by simp
  note f = rep_facts[OF rep]
  obtain h where h: "lvm_mem m ?h = Some h" "n_next h = x" "n_prev h = ?l"
    using rep_ends[OF rep] Cons by auto
  have ring: "dseg (nx m) (pv m) ?h ps ?h" "?h \<notin> set ps" "distinct (ps @ fs)" "?h \<notin> set fs"
    "dom (lvm_mem m) = set ps \<union> set fs \<union> {?h}" "?l \<in> set ps" "sseg (nx m) (lvm_free m) fs" "x \<in> set ps"
    using sh Cons by (auto simp: lvm_shape_def lvm_ring_def)
  define m0 where "m0 = m\<lparr>lvm_map := vm_clear (lvm_map m)\<rparr>"
  have d0: "dom (lvm_mem m0) = dom (lvm_mem m)" by (simp add: m0_def)
  obtain m1 where m1: "set_prev ?h ?h m0 = Some m1" "same_nodes m0 m1" "nx m1 = nx m0" "pv m1 = (pv m0)(?h := ?h)"
    using set_prev_spec[of ?h m0] d0 ring(5) by (metis UnCI insertI1)
  then have d1: "dom (lvm_mem m1) = dom (lvm_mem m)" using d0 by (simp add: same_nodes_def)
  obtain m2 where m2: "set_next ?h ?h m1 = Some m2" "same_nodes m1 m2" "nx m2 = (nx m1)(?h := ?h)" "pv m2 = pv m1"
    using set_next_spec[of ?h m1] d1 ring(5) by (metis UnCI insertI1)
  then have d2: "dom (lvm_mem m2) = dom (lvm_mem m)" using d1 by (simp add: same_nodes_def)
  obtain m3 where m3: "set_next ?l (lvm_free m) m2 = Some m3" "same_nodes m2 m3" "nx m3 = (nx m2)(?l := lvm_free m)" "pv m3 = pv m2"
    using set_next_spec[of ?l m2] d2 ring(5,6) by (metis UnCI)
  then have d3: "dom (lvm_mem m3) = dom (lvm_mem m)" using d2 by (simp add: same_nodes_def)
  obtain m4 where m4: "set_prev x 0 m3 = Some m4" "same_nodes m3 m4" "nx m4 = nx m3" "pv m4 = (pv m3)(x := 0)"
    using set_prev_spec[of x m3] d3 ring(5,8) by (metis UnCI)
  define m' where "m' = m4\<lparr>lvm_free := x\<rparr>"
  let ?it = "\<lparr>it_head = ?l, it_tail = x, it_remaining = length ps\<rparr>"
  have same: "lvm_head m1 = ?h" "lvm_free m2 = lvm_free m" "lvm_map m4 = vm_clear (lvm_map m)" "lvm_head m4 = ?h"
    "lvm_fresh m4 = lvm_fresh m" "dom (lvm_mem m4) = dom (lvm_mem m)" "nkey m4 = nkey m" "nval m4 = nval m"
    using m1(2) m2(2) m3(2) m4(2) by (auto simp: same_nodes_def m0_def)
  have m0eq: "lvm_mem m0 = lvm_mem m" "lvm_head m0 = ?h" by (simp_all add: m0_def)
  have run: "lvm_drain m = Some (?it, m')"
    unfolding lvm_drain_def Let_def m0_def[symmetric] m0eq h(1) f(3)
    using m1(1) m2(1) m3(1) m4(1) same(1,2) Cons h(2,3) by (simp add: m'_def)
  have nx': "nx m' = (nx m)(?h := ?h, ?l := lvm_free m)" and pv': "pv m' = (pv m)(?h := ?h, x := 0)"
    using m1(3,4) m2(3,4) m3(3,4) m4(3,4) by (simp_all add: m'_def m0_def)
  have "sseg ((nx m)(?l := lvm_free m)) x (x # xs @ fs)"
    using dseg_to_sseg[of "nx m" "pv m" ?h x xs ?h "lvm_free m" fs] ring(1,3,7) Cons by simp
  moreover have "?h \<noteq> ?l" using ring(2,6) by auto
  then have "sseg (nx m') x (x # xs @ fs) = sseg ((nx m)(?l := lvm_free m)) x (x # xs @ fs)"
    unfolding nx' by (intro sseg_frame) (use ring(2,4) Cons in auto)
  ultimately have "sseg (nx m') x (ps @ fs)" using Cons by simp
  moreover have "nx m' ?h = ?h" "pv m' ?h = ?h" using \<open>?h \<noteq> ?l\<close> ring(2,8) unfolding nx' pv' by auto
  ultimately have rep': "lvm_rep m' [] (ps @ fs)"
    using sh same unfolding lvm_rep_def lvm_shape_def lvm_ring_def lvm_indexed_def by (auto simp: m'_def)
  have "pseg (pv m') ps"
    by (rule pseg_frame[OF dseg_pseg[OF ring(1)]]) (use Cons ring(2,3) in \<open>auto simp: pv'\<close>)
  then have "iter_collect (drain_next m') (Suc (length ps)) ?it = Some (lvm_items m' ps)"
    by (rule drain_collect) (use ring(5) same f(1) in \<open>auto simp: m'_def lvm_indexed_def simp del: domIff\<close>)
  moreover have "lvm_items m' ps = lvm_items m ps" by (rule items_cong) (simp_all add: m'_def same)
  ultimately show ?thesis using that run rep' f(3) by metis
qed

lemma into_iter_collect_spec:
  assumes "pseg (pv m) xs" "dom (lvm_mem m) = set xs" "distinct xs"
    "\<And>p. p \<in> set xs \<Longrightarrow> nkey m p \<noteq> None \<and> nval m p \<noteq> None"
    "length xs < fuel" "xs \<noteq> [] \<longrightarrow> hd0 = last xs"
  shows "\<exists>m'. into_iter_collect fuel m \<lparr>it_head = hd0, it_tail = t, it_remaining = length xs\<rparr>
      = Some (lvm_items m xs, m') \<and> dom (lvm_mem m') = {}"
  using assms
proof (induction xs arbitrary: fuel hd0 m rule: rev_induct)
  case Nil
  then show ?case by (cases fuel) (auto simp: into_iter_next_def lvm_items_def)
next
  case (snoc x xs)
  then obtain fuel' where fuel: "fuel = Suc fuel'" "length xs < fuel'" by (cases fuel) auto
  have x: "x \<in> dom (lvm_mem m)" "x \<notin> set xs" using snoc.prems(2,3) by auto
  obtain n where n: "node_entry m x = Some (n, node_item m x)" "n_prev n = pv m x"
    by (rule node_entry_spec[of x m]) (use snoc.prems(4) x in auto)
  define m1 where "m1 = m\<lparr>lvm_mem := (lvm_mem m)(x := None)\<rparr>"
  have agree: "\<And>q. q \<noteq> x \<Longrightarrow> lvm_mem m1 q = lvm_mem m q" by (simp add: m1_def)
  note rd = reads_except[of x m1 m, OF agree]
  have step: "into_iter_next m \<lparr>it_head = x, it_tail = t, it_remaining = Suc (length xs)\<rparr> =
      Some (Some (node_item m x), \<lparr>it_head = pv m x, it_tail = t, it_remaining = length xs\<rparr>, m1)"
    using n x by (auto simp: into_iter_next_def lvm_dealloc_def m1_def)
  have "pseg (pv m1) xs"
  proof (rule pseg_frame[of "pv m"])
    show "pseg (pv m) xs" using snoc.prems(1) by (simp add: pseg_snoc)
    show "pv m1 q = pv m q" if "q \<in> set (tl xs)" for q
      using rd(2)[of q] in_set_tlD[OF that] x(2) by blast
  qed
  moreover have "dom (lvm_mem m1) = set xs" using snoc.prems(2) x by (auto simp: m1_def)
  moreover have "nkey m1 p \<noteq> None \<and> nval m1 p \<noteq> None" if p: "p \<in> set xs" for p
  proof -
    have "p \<noteq> x" using p x(2) by blast
    then show ?thesis using rd(3,4)[of p] snoc.prems(4)[of p] p by simp
  qed
  moreover have "lvm_items m1 xs = lvm_items m xs"
    by (rule items_cong) (use rd(3,4) x(2) in metis)+
  ultimately show ?case
    using snoc.IH[of m1 fuel' "pv m x"] snoc.prems fuel step
    by (fastforce simp: lvm_items_def pseg_snoc)
qed

lemma into_iter_spec:
  assumes rep: "lvm_rep m ps fs"
  obtains it m1 m' where "lvm_into_iter m = Some (it, m1)"
    "into_iter_collect (Suc (lvm_len m)) m1 it = Some (lvm_items m ps, m')" "dom (lvm_mem m') = {}"
proof (cases "lvm_head m = 0")
  case True
  then have e: "ps = []" "lvm_free m = 0" "lvm_mem m = Map.empty" using rep by (auto simp: lvm_rep_def)
  have "lvm_into_iter m = Some (\<lparr>it_head = 0, it_tail = 0, it_remaining = 0\<rparr>, m\<lparr>lvm_free := 0\<rparr>)"
    using True e rep_facts(3)[OF rep] clear_free_loop.simps[of 0 m]
    by (simp add: lvm_into_iter_def lvm_clear_free_list_def)
  then show ?thesis using that e by (simp add: into_iter_next_def lvm_items_def)
next
  case False
  then have sh: "lvm_shape m ps fs {}" using rep_shape[OF rep] by simp
  let ?h = "lvm_head m"
  define m1 where "m1 = m\<lparr>lvm_mem := (lvm_mem m)(?h := None)\<rparr>"
  define m2 where "m2 = m1\<lparr>lvm_mem := lvm_mem m1 |` (- set fs), lvm_free := 0\<rparr>"
  have ring: "dseg (nx m) (pv m) ?h ps ?h" "?h \<notin> set ps" "distinct (ps @ fs)" "?h \<notin> set fs" "0 \<notin> set fs"
    "dom (lvm_mem m) = set ps \<union> set fs \<union> {?h}" "sseg (nx m) (lvm_free m) fs"
    using sh by (auto simp: lvm_shape_def lvm_ring_def)
  from ring(6) obtain h where h: "lvm_mem m ?h = Some h" by blast
  have ends: "ps \<noteq> [] \<longrightarrow> n_prev h = last ps" "n_prev h = pv m ?h" "n_next h = nx m ?h"
    using dseg_last[OF ring(1)] h by (auto simp: node_reads)
  have "sseg (nx m1) (lvm_free m) fs = sseg (nx m) (lvm_free m) fs"
    unfolding m1_def by (rule sseg_frame, rule nx_dealloc) (use ring(4) in auto)
  then have "clear_free_loop (lvm_free m) m1 = Some (m1\<lparr>lvm_mem := lvm_mem m1 |` (- set fs)\<rparr>)"
    using ring by (intro clear_free_loop_spec) (auto simp: m1_def)
  then have run: "lvm_into_iter m = Some (\<lparr>it_head = n_prev h, it_tail = n_next h, it_remaining = length ps\<rparr>, m2)"
    using False h rep_facts(3)[OF rep]
    by (simp add: lvm_into_iter_def lvm_dealloc_def lvm_clear_free_list_def m1_def m2_def)
  have agree: "lvm_mem m2 q = lvm_mem m q" if "q \<in> set ps" for q
    using that ring(2,3) by (auto simp: m1_def m2_def restrict_map_def)
  then have rd: "pv m2 q = pv m q" "nkey m2 q = nkey m q" "nval m2 q = nval m q" if "q \<in> set ps" for q
    using that by (simp_all add: node_reads)
  have "dom (lvm_mem m2) = dom (lvm_mem m) - {?h} - set fs"
    by (auto simp: m1_def m2_def restrict_map_def split: if_splits)
  then have "dom (lvm_mem m2) = set ps" using ring(2,3) unfolding ring(6) by auto
  moreover have "pseg (pv m2) ps"
    by (rule pseg_frame[OF dseg_pseg[OF ring(1)]]) (use rd(1) in \<open>auto dest: in_set_tlD\<close>)
  ultimately have "\<exists>m'. into_iter_collect (Suc (length ps)) m2
      \<lparr>it_head = n_prev h, it_tail = n_next h, it_remaining = length ps\<rparr> = Some (lvm_items m2 ps, m') \<and>
      dom (lvm_mem m') = {}"
    using ring(3) rep_facts(1)[OF rep] rd ends by (intro into_iter_collect_spec) (auto simp: lvm_indexed_def)
  then show ?thesis
    using that run rep_facts(3)[OF rep] items_cong[of ps m2 m] rd by metis
qed

section \<open>The map contract\<close>

lemma map_of_filter_key: "map_of (filter (\<lambda>e. fst e \<noteq> k) xs) j = (if j = k then None else map_of xs j)"
  by (induction xs) auto

lemma lvm_inv_new: "lvm_rep lvm_new [] []"
  by (simp add: lvm_rep_def lvm_new_def lvm_with_map_def lvm_indexed_def)

interpretation linked_map: usize_map lvm_inv lvm_amap lvm_new lvm_get lvm_insert lvm_remove lvm_len
proof (unfold_locales, goal_cases)
  case 1
  then show ?case using lvm_inv_new by (auto simp: lvm_inv_def)
next
  case 2
  then show ?case by (simp add: fun_eq_iff lvm_amap_def lvm_new_def lvm_with_map_def)
next
  case (3 m k)
  then show ?case using get_spec(1) by (auto simp: lvm_inv_def)
next
  case (4 m k v)
  then obtain ps fs where rep: "lvm_rep m ps fs" by (auto simp: lvm_inv_def)
  obtain m' ps' fs' where m': "lvm_insert m k v = Some (lvm_amap m k, m')" "lvm_rep m' ps' fs'"
    "lvm_items m' ps' = filter (\<lambda>e. fst e \<noteq> k) (lvm_items m ps) @ [(k, v)]" using insert_spec[OF rep] .
  have "lvm_amap m' = (lvm_amap m)(k \<mapsto> v)"
    unfolding rep_facts(4)[OF m'(2), symmetric] rep_facts(4)[OF rep, symmetric] m'(3)
    by (auto simp: fun_eq_iff map_add_def map_of_filter_key split: option.split)
  then show ?case using m' by (auto simp: lvm_inv_def)
next
  case (5 m k)
  then obtain ps fs where rep: "lvm_rep m ps fs" by (auto simp: lvm_inv_def)
  obtain m' ps' fs' where m': "lvm_remove m k = Some (lvm_amap m k, m')" "lvm_rep m' ps' fs'"
    "lvm_items m' ps' = filter (\<lambda>e. fst e \<noteq> k) (lvm_items m ps)" using lvm_remove_spec[OF rep] .
  have "lvm_amap m' = (lvm_amap m)(k := None)"
    unfolding rep_facts(4)[OF m'(2), symmetric] rep_facts(4)[OF rep, symmetric] m'(3)
    by (auto simp: fun_eq_iff map_of_filter_key)
  then show ?case using m' by (auto simp: lvm_inv_def)
next
  case (6 m)
  then show ?case using rep_facts(4) by (metis finite_dom_map_of lvm_inv_def)
next
  case (7 m)
  then obtain ps fs where rep: "lvm_rep m ps fs" by (auto simp: lvm_inv_def)
  have "vm_inv (lvm_map m)" using rep_facts(1)[OF rep] by (simp add: lvm_indexed_def)
  then show ?case using indexed_len(2)[OF rep_facts(1,2)[OF rep]] vm_len_card by (simp add: lvm_len_def)
qed

section \<open>Properties\<close>

lemma rep_inv_list: "lvm_rep m ps fs \<Longrightarrow> lvm_inv m \<and> lvm_to_list m = Some (lvm_items m ps)"
  using to_list_spec(1) by (auto simp: lvm_inv_def)

text \<open>C34. The map keeps its entries in insertion order. On a well-formed map with entry list \<open>l\<close>
  (what iterating yields; iterating backwards yields the reverse), every operation stays within allocated memory and returns: \<open>insert\<close>
  answers the old value and moves the key to the end with its new value, \<open>remove\<close> deletes the
  key, \<open>get\<close> looks it up, \<open>get_refresh\<close> looks it up and moves it to the end.\<close>

theorem linked_map_insertion_order:
  assumes "lvm_inv m" "lvm_to_list m = Some l"
  shows "(\<exists>m'. lvm_insert m k v = Some (map_of l k, m') \<and> lvm_inv m' \<and>
            lvm_to_list m' = Some (filter (\<lambda>e. fst e \<noteq> k) l @ [(k, v)])) \<and>
         (\<exists>m'. lvm_remove m k = Some (map_of l k, m') \<and> lvm_inv m' \<and>
            lvm_to_list m' = Some (filter (\<lambda>e. fst e \<noteq> k) l)) \<and>
         lvm_get m k = Some (map_of l k) \<and>
         (\<exists>m'. lvm_get_refresh m k = Some (map_of l k, m') \<and> lvm_inv m' \<and>
            lvm_to_list m' = Some (filter (\<lambda>e. fst e \<noteq> k) l @ filter (\<lambda>e. fst e = k) l)) \<and>
         do { it \<leftarrow> lvm_iter m; iter_collect (iter_next_back m) (Suc (lvm_len m)) it } = Some (rev l)"
proof -
  from assms(1) obtain ps fs where rep: "lvm_rep m ps fs" by (auto simp: lvm_inv_def)
  have l: "l = lvm_items m ps" using to_list_spec(1)[OF rep] assms(2) by simp
  have map: "map_of l = lvm_amap m" unfolding l by (rule rep_facts(4)[OF rep])
  have "\<exists>m'. lvm_insert m k v = Some (map_of l k, m') \<and> lvm_inv m' \<and>
      lvm_to_list m' = Some (filter (\<lambda>e. fst e \<noteq> k) l @ [(k, v)])"
    unfolding map by (rule insert_spec[OF rep, of k v]) (use l in \<open>auto dest!: rep_inv_list\<close>)
  moreover have "\<exists>m'. lvm_remove m k = Some (map_of l k, m') \<and> lvm_inv m' \<and>
      lvm_to_list m' = Some (filter (\<lambda>e. fst e \<noteq> k) l)"
    unfolding map by (rule lvm_remove_spec[OF rep, of k]) (use l in \<open>auto dest!: rep_inv_list\<close>)
  moreover have "\<exists>m'. lvm_get_refresh m k = Some (map_of l k, m') \<and> lvm_inv m' \<and>
      lvm_to_list m' = Some (filter (\<lambda>e. fst e \<noteq> k) l @ filter (\<lambda>e. fst e = k) l)"
    unfolding map by (rule get_refresh_spec[OF rep, of k]) (use l in \<open>auto dest!: rep_inv_list\<close>)
  moreover have "do { it \<leftarrow> lvm_iter m; iter_collect (iter_next_back m) (Suc (lvm_len m)) it } = Some (rev l)"
    using to_list_spec(2)[OF rep] by (simp add: l)
  ultimately show ?thesis unfolding map using get_spec(1)[OF rep] by blast
qed

theorem linked_map_insertion_order_witness:
  "lvm_inv lvm_new \<and> lvm_to_list lvm_new = Some ([] :: (nat \<times> nat) list) \<and>
   (\<exists>m'. lvm_insert lvm_new 3 (7 :: nat) = Some (None, m') \<and> lvm_inv m' \<and> lvm_to_list m' = Some [(3, 7)])"
proof -
  have new: "lvm_inv lvm_new" "lvm_to_list lvm_new = Some ([] :: (nat \<times> nat) list)"
    using linked_map.new_inv to_list_spec(1)[OF lvm_inv_new] by (auto simp: lvm_items_def)
  then show ?thesis using linked_map_insertion_order[OF new, of 3 7] by auto
qed

text \<open>The two ends: \<open>pop_front\<close> and \<open>front\<close> take and read the oldest entry, \<open>pop_back\<close> and \<open>back\<close>
  the newest, and on an empty map they answer nothing; iterating backwards gives the reverse
  of iterating forwards.\<close>

lemma linked_map_ends:
  assumes "lvm_inv m" "lvm_to_list m = Some l"
  shows "lvm_front m = Some (if l = [] then None else Some (hd l)) \<and>
         lvm_back m = Some (if l = [] then None else Some (last l)) \<and>
         (\<exists>m'. lvm_pop_front m = Some (if l = [] then None else Some (hd l), m') \<and> lvm_inv m' \<and>
            lvm_to_list m' = Some (tl l)) \<and>
         (\<exists>m'. lvm_pop_back m = Some (if l = [] then None else Some (last l), m') \<and> lvm_inv m' \<and>
            lvm_to_list m' = Some (butlast l)) \<and>
         do { it \<leftarrow> lvm_iter m; iter_collect (iter_next_back m) (Suc (lvm_len m)) it } = Some (rev l)"
proof -
  from assms(1) obtain ps fs where rep: "lvm_rep m ps fs" by (auto simp: lvm_inv_def)
  have l: "l = lvm_items m ps" using to_list_spec(1)[OF rep] assms(2) by simp
  have "\<exists>m'. lvm_pop_front m = Some (if l = [] then None else Some (hd l), m') \<and> lvm_inv m' \<and>
      lvm_to_list m' = Some (tl l)"
    by (rule pop_front_spec[OF rep]) (use l in \<open>auto dest!: rep_inv_list\<close>)
  moreover have "\<exists>m'. lvm_pop_back m = Some (if l = [] then None else Some (last l), m') \<and> lvm_inv m' \<and>
      lvm_to_list m' = Some (butlast l)"
    by (rule pop_back_spec[OF rep]) (use l in \<open>auto dest!: rep_inv_list\<close>)
  ultimately show ?thesis
    using front_back_spec[OF rep] to_list_spec(2)[OF rep] unfolding l by blast
qed

text \<open>C33. Memory: after any sequence of insertions and removals on a fresh map, which returns the
  answers of the mathematical map, dropping the map frees every node it allocated, exactly
  once; so does consuming it with \<open>into_iter\<close>, which yields its entries; \<open>drain\<close> yields the
  entries and leaves a well-formed empty map.\<close>

theorem linked_map_memory_safe:
  "\<exists>m l. run_map_ops lvm_insert lvm_remove ops lvm_new = Some (fst (run_abs_ops ops Map.empty), m) \<and>
     lvm_to_list m = Some l \<and> map_of l = snd (run_abs_ops ops Map.empty) \<and> distinct (map fst l) \<and>
     (\<exists>m'. lvm_drop m = Some m' \<and> dom (lvm_mem m') = {}) \<and>
     (\<exists>it m1 m'. lvm_into_iter m = Some (it, m1) \<and>
        into_iter_collect (Suc (lvm_len m)) m1 it = Some (l, m') \<and> dom (lvm_mem m') = {}) \<and>
     (\<exists>it m'. lvm_drain m = Some (it, m') \<and> iter_collect (drain_next m') (Suc (lvm_len m)) it = Some l \<and>
        lvm_inv m' \<and> lvm_to_list m' = Some [])"
proof -
  obtain m where m: "run_map_ops lvm_insert lvm_remove ops lvm_new = Some (fst (run_abs_ops ops Map.empty), m)"
    "lvm_inv m" "lvm_amap m = snd (run_abs_ops ops Map.empty)"
    using linked_map.run_from_new[of ops] by blast
  then obtain ps fs where rep: "lvm_rep m ps fs" by (auto simp: lvm_inv_def)
  have "\<exists>m'. lvm_drop m = Some m' \<and> dom (lvm_mem m') = {}"
    by (rule drop_spec[OF rep]) blast
  moreover have "\<exists>it m1 m'. lvm_into_iter m = Some (it, m1) \<and>
      into_iter_collect (Suc (lvm_len m)) m1 it = Some (lvm_items m ps, m') \<and> dom (lvm_mem m') = {}"
    by (rule into_iter_spec[OF rep]) blast
  moreover have "\<exists>it m'. lvm_drain m = Some (it, m') \<and>
      iter_collect (drain_next m') (Suc (lvm_len m)) it = Some (lvm_items m ps) \<and>
      lvm_inv m' \<and> lvm_to_list m' = Some []"
    by (rule drain_spec[OF rep]) (auto dest!: rep_inv_list simp: lvm_items_def)
  ultimately show ?thesis
    using m to_list_spec(1)[OF rep] rep_facts(4,6)[OF rep] by metis
qed

subsection \<open>Entries and copies\<close>

lemma lvm_write_map:
  "lvm_write p f (m\<lparr>lvm_map := x\<rparr>) = map_option (\<lambda>m. m\<lparr>lvm_map := x\<rparr>) (lvm_write p f m)"
  by (auto simp: lvm_write_def split: bind_splits)

lemma lvm_write_keeps:
  "lvm_write p f m = Some m' \<Longrightarrow> lvm_head m' = lvm_head m \<and> lvm_map m' = lvm_map m \<and> lvm_mem m' p \<noteq> None"
  by (auto simp: lvm_write_def bind_eq_Some_conv)

lemma lvm_attach_map:
  "lvm_attach p (m\<lparr>lvm_map := x\<rparr>) = map_option (\<lambda>m. m\<lparr>lvm_map := x\<rparr>) (lvm_attach p m)"
  unfolding lvm_attach_def
  by (auto simp: lvm_write_map split: bind_splits)

lemma ensure_guard_map: "lvm_ensure_guard_node m = Some m' \<Longrightarrow> lvm_map m' = lvm_map m"
  by (auto simp: lvm_ensure_guard_node_def lvm_alloc_def Let_def bind_eq_Some_conv
      dest!: lvm_write_keeps split: if_splits)

lemma lvm_attach_keeps_map: "lvm_attach p m = Some m' \<Longrightarrow> lvm_map m' = lvm_map m"
  by (auto simp: lvm_attach_def bind_eq_Some_conv dest!: lvm_write_keeps)

lemma make_node_keeps:
  "lvm_make_node k v m = Some (p, m') \<Longrightarrow> lvm_map m' = lvm_map m \<and>
     (\<exists>n. lvm_mem m' p = Some n \<and> n_key n = Some k)"
  by (auto simp: lvm_make_node_def lvm_alloc_def lvm_write_def Let_def bind_eq_Some_conv node_new_def
      split: if_splits)

lemma extend_spec:
  "lvm_rep m ps fs \<Longrightarrow> distinct (map fst (lvm_items m ps @ kvs)) \<Longrightarrow>
   \<exists>m' ps' fs'. lvm_extend kvs m = Some m' \<and> lvm_rep m' ps' fs' \<and> lvm_items m' ps' = lvm_items m ps @ kvs"
proof (induction kvs arbitrary: m ps fs)
  case (Cons kv kvs)
  obtain k v where kv: "kv = (k, v)" by (cases kv)
  obtain m1 ps1 fs1 where m1: "lvm_insert m k v = Some (lvm_amap m k, m1)" "lvm_rep m1 ps1 fs1"
    "lvm_items m1 ps1 = filter (\<lambda>e. fst e \<noteq> k) (lvm_items m ps) @ [(k, v)]"
    using insert_spec[OF Cons.prems(1)] .
  have "filter (\<lambda>e. fst e \<noteq> k) (lvm_items m ps) = lvm_items m ps"
    using Cons.prems(2) kv by (auto simp: image_iff intro!: filter_True)
  with m1 Cons.IH[OF m1(2)] Cons.prems(2) kv show ?case by auto
qed auto

text \<open>The entry interface does the same as the map's operations: inserting through an occupied
  or a vacant entry leaves the state that \<open>insert\<close> leaves, and removing through an occupied entry
  is \<open>remove\<close>.\<close>

lemma linked_map_entry_equivalent:
  "case lvm_entry_of m k of
     Occupied p \<Rightarrow>
       map_option (\<lambda>(old, m'). (Some old, m')) (occupied_insert m p v) = lvm_insert m k v \<and>
       (entry_key m (Occupied p) = Some k \<longrightarrow>
        map_option (\<lambda>(old, m'). (Some old, m')) (occupied_remove m p) = 
          do { (r, m') \<leftarrow> lvm_remove m k; old \<leftarrow> r; Some (Some old, m') })
   | Vacant k' \<Rightarrow>
       k' = k \<and> map_option snd (entry_or_insert m (Vacant k) v) = map_option snd (lvm_insert m k v) \<and>
       map_option fst (lvm_insert m k v) \<in> {None, Some None}"
proof (cases "vm_map (lvm_map m) k")
  case (Some p)
  have "map_option (\<lambda>(old, m'). (Some old, m')) (occupied_insert m p v) = lvm_insert m k v"
  proof (cases "lvm_ensure_guard_node m")
    case (Some m1)
    then have "vm_map (lvm_map m1) k = Some p" using ensure_guard_map[OF Some] \<open>vm_map (lvm_map m) k = Some p\<close> by simp
    then show ?thesis
      using Some by (auto simp: occupied_insert_def lvm_insert_def split: bind_splits)
  qed (simp add: occupied_insert_def lvm_insert_def)
  moreover have "map_option (\<lambda>(old, m'). (Some old, m')) (occupied_remove m p) =
      do { (r, m') \<leftarrow> lvm_remove m k; old \<leftarrow> r; Some (Some old, m') }" if "entry_key m (Occupied p) = Some k"
    using that by (auto simp: occupied_remove_def entry_key_def split: bind_splits)
  ultimately show ?thesis using Some by (simp add: lvm_entry_of_def)
next
  case None
  have "map_option snd (vacant_insert m k v) = map_option snd (lvm_insert m k v) \<and>
      map_option fst (lvm_insert m k v) \<in> {None, Some None}"
  proof (cases "lvm_ensure_guard_node m")
    case (Some m1)
    then have look: "vm_map (lvm_map m1) k = None" using ensure_guard_map[OF Some] None by simp
    show ?thesis
    proof (cases "lvm_make_node k v m1")
      case mk: (Some r)
      obtain p m2 where r: "r = (p, m2)" by (cases r)
      from make_node_keeps[OF mk[unfolded r]] obtain n where
        m2: "lvm_map m2 = lvm_map m1" "lvm_mem m2 p = Some n" "n_key n = Some k" by blast
      show ?thesis
      proof (cases "lvm_attach p m2")
        case at: (Some m3)
        have "lvm_map m3 = lvm_map m1" using lvm_attach_keeps_map[OF at] m2(1) by simp
        then show ?thesis
          using Some mk r m2 at look
          by (simp add: vacant_insert_def lvm_insert_def lvm_attach_map Let_def case_prod_beta vm_get_or_insert_spec)
      qed (use Some mk r m2 look in \<open>simp add: vacant_insert_def lvm_insert_def lvm_attach_map Let_def case_prod_beta\<close>)
    qed (use Some look in \<open>simp add: vacant_insert_def lvm_insert_def\<close>)
  qed (simp add: vacant_insert_def lvm_insert_def)
  then show ?thesis using None by (simp add: lvm_entry_of_def entry_or_insert_def)
qed

text \<open>A clone has the same entries in the same order, and equality of maps compares them.\<close>

lemma linked_map_clone_equal:
  assumes "lvm_inv m"
  shows "\<exists>m'. lvm_clone m = Some m' \<and> lvm_inv m' \<and> lvm_to_list m' = lvm_to_list m \<and> lvm_eq m m' = Some True"
proof -
  from assms obtain ps fs where rep: "lvm_rep m ps fs" by (auto simp: lvm_inv_def)
  have new: "lvm_rep (lvm_with_capacity c) [] []" for c
    using lvm_inv_new by (simp add: lvm_with_capacity_def lvm_new_def)
  have "distinct (map fst (lvm_items (lvm_with_capacity (lvm_len m)) [] @ lvm_items m ps))"
    using rep_facts(6)[OF rep] by (simp add: lvm_items_def)
  from extend_spec[OF new this] obtain m' ps' fs' where
    m': "lvm_extend (lvm_items m ps) (lvm_with_capacity (lvm_len m)) = Some m'" "lvm_rep m' ps' fs'"
      "lvm_items m' ps' = lvm_items m ps" by (auto simp: lvm_items_def)
  have "lvm_len m' = lvm_len m" using rep_facts(3,5)[OF rep] rep_facts(3,5)[OF m'(2)] m'(3) by simp
  then show ?thesis
    using m' rep_inv_list[OF rep] rep_inv_list[OF m'(2)] by (simp add: lvm_clone_def lvm_eq_def)
qed

end
