(* ===== verification/Linked_Vec_Set.thy ===== *)
theory Linked_Vec_Set
  imports Linked_Vec_Map
begin

text \<open>
  \<open>LinkedVecSet\<close> of \<open>shared/src/utils/linked_vec_set.rs\<close>: a set of integers in insertion order, a
  \<open>LinkedVecMap\<close> with unit values. The schedulers use it as a queue of identifiers:
  \<open>insert\<close> at the back, \<open>pop_front\<close> at the front, \<open>remove\<close> anywhere.
\<close>

section \<open>The operations\<close>

record lvs = lvs_inner :: "unit lvm"

definition lvs_new :: lvs where
  "lvs_new = \<lparr>lvs_inner = lvm_new\<rparr>"

definition lvs_with_capacity :: "nat \<Rightarrow> lvs" where
  "lvs_with_capacity capacity = \<lparr>lvs_inner = lvm_with_capacity capacity\<rparr>"

definition lvs_shrink_to_fit :: "lvs \<Rightarrow> lvs option" where
  "lvs_shrink_to_fit s = do { m \<leftarrow> lvm_shrink_to_fit (lvs_inner s); Some (s\<lparr>lvs_inner := m\<rparr>) }"

definition lvs_insert :: "lvs \<Rightarrow> nat \<Rightarrow> (bool \<times> lvs) option" where
  "lvs_insert s k =
     do { (r, m) \<leftarrow> lvm_insert (lvs_inner s) k (); Some (r \<noteq> None, s\<lparr>lvs_inner := m\<rparr>) }"

definition lvs_contains_key :: "lvs \<Rightarrow> nat \<Rightarrow> bool" where
  "lvs_contains_key s k = lvm_contains_key (lvs_inner s) k"

definition lvs_remove :: "lvs \<Rightarrow> nat \<Rightarrow> (bool \<times> lvs) option" where
  "lvs_remove s k =
     do { (r, m) \<leftarrow> lvm_remove (lvs_inner s) k; Some (r \<noteq> None, s\<lparr>lvs_inner := m\<rparr>) }"

definition lvs_pop_front :: "lvs \<Rightarrow> (nat option \<times> lvs) option" where
  "lvs_pop_front s =
     do { (r, m) \<leftarrow> lvm_pop_front (lvs_inner s); Some (map_option fst r, s\<lparr>lvs_inner := m\<rparr>) }"

definition lvs_front :: "lvs \<Rightarrow> nat option option" where
  "lvs_front s = do { r \<leftarrow> lvm_front (lvs_inner s); Some (map_option fst r) }"

definition lvs_len :: "lvs \<Rightarrow> nat" where
  "lvs_len s = lvm_len (lvs_inner s)"

definition lvs_is_empty :: "lvs \<Rightarrow> bool" where
  "lvs_is_empty s = lvm_is_empty (lvs_inner s)"

definition lvs_clear :: "lvs \<Rightarrow> lvs option" where
  "lvs_clear s = do { m \<leftarrow> lvm_clear (lvs_inner s); Some (s\<lparr>lvs_inner := m\<rparr>) }"

text \<open>The elements a \<open>&LinkedVecSet\<close> and a consumed one iterate over.\<close>

definition lvs_iter :: "lvs \<Rightarrow> nat list option" where
  "lvs_iter s = lvm_keys (lvs_inner s)"

definition lvs_into_iter :: "lvs \<Rightarrow> nat list option" where
  "lvs_into_iter s =
     do {
       (it, m) \<leftarrow> lvm_into_iter (lvs_inner s);
       (xs, _) \<leftarrow> into_iter_collect (Suc (lvs_len s)) m it;
       Some (map fst xs)
     }"

section \<open>Invariant and abstraction\<close>

definition lvs_inv :: "lvs \<Rightarrow> bool" where
  "lvs_inv s = lvm_inv (lvs_inner s)"

definition lvs_set :: "lvs \<Rightarrow> nat set" where
  "lvs_set s = dom (lvm_amap (lvs_inner s))"

text \<open>The set behaves as a queue without repetition, described by the list of its elements.\<close>

definition lvs_queue :: "lvs \<Rightarrow> nat list \<Rightarrow> bool" where
  "lvs_queue s ks \<longleftrightarrow> lvs_inv s \<and> lvs_iter s = Some ks"

lemma rep_lvs_queue: "lvm_rep (lvs_inner s) ps fs \<Longrightarrow> lvs_queue s (map fst (lvm_items (lvs_inner s) ps))"
  by (auto simp: lvs_queue_def lvs_inv_def lvs_iter_def lvm_keys_def dest: rep_inv_list)

lemma lvs_queue_rep:
  assumes "lvs_queue s ks"
  obtains ps fs where "lvm_rep (lvs_inner s) ps fs" "ks = map fst (lvm_items (lvs_inner s) ps)"
  using assms that
  by (auto simp: lvs_queue_def lvs_inv_def lvm_inv_def lvs_iter_def lvm_keys_def to_list_spec(1))

lemma lvs_queue_facts:
  assumes "lvs_queue s ks"
  shows "distinct ks" "lvs_len s = length ks" "lvs_set s = set ks" "lvs_is_empty s \<longleftrightarrow> ks = []"
    "lvs_contains_key s k \<longleftrightarrow> k \<in> set ks"
proof -
  obtain ps fs where rep: "lvm_rep (lvs_inner s) ps fs" and ks: "ks = map fst (lvm_items (lvs_inner s) ps)"
    using lvs_queue_rep[OF assms] .
  show "distinct ks" "lvs_len s = length ks" "lvs_is_empty s \<longleftrightarrow> ks = []"
    using rep_facts[OF rep] is_empty_spec[OF rep] by (auto simp: ks lvs_len_def lvs_is_empty_def)
  show set: "lvs_set s = set ks"
    unfolding lvs_set_def rep_facts(4)[OF rep, symmetric] ks by (simp add: dom_map_of_conv_image_fst)
  show "lvs_contains_key s k \<longleftrightarrow> k \<in> set ks"
    using get_spec(2)[OF rep, of k] set by (simp add: lvs_contains_key_def lvs_set_def)
qed

lemma filter_fst_map: "map fst (filter (\<lambda>e. fst e \<noteq> k) xs) = filter (\<lambda>j. j \<noteq> k) (map fst xs)"
  by (induction xs) auto

lemma amap_mem:
  assumes "lvs_queue s ks"
  shows "lvm_amap (lvs_inner s) k \<noteq> None \<longleftrightarrow> k \<in> set ks"
  using lvs_queue_facts(3)[OF assms] by (auto simp: lvs_set_def)

lemma lvs_queue_new: "lvs_queue lvs_new []"
  using rep_lvs_queue[of lvs_new "[]" "[]"] lvm_inv_new by (simp add: lvs_new_def lvm_items_def)

lemma lvs_insert_spec:
  assumes q: "lvs_queue s ks"
  obtains s' where "lvs_insert s k = Some (k \<in> set ks, s')" "lvs_queue s' (filter (\<lambda>j. j \<noteq> k) ks @ [k])"
proof -
  obtain ps fs where rep: "lvm_rep (lvs_inner s) ps fs" and ks: "ks = map fst (lvm_items (lvs_inner s) ps)"
    using lvs_queue_rep[OF q] .
  obtain m' ps' fs' where m': "lvm_insert (lvs_inner s) k () = Some (lvm_amap (lvs_inner s) k, m')"
    "lvm_rep m' ps' fs'" "lvm_items m' ps' = filter (\<lambda>e. fst e \<noteq> k) (lvm_items (lvs_inner s) ps) @ [(k, ())]"
    using insert_spec[OF rep] .
  have "lvs_insert s k = Some (k \<in> set ks, s\<lparr>lvs_inner := m'\<rparr>)"
    unfolding lvs_insert_def m'(1) using amap_mem[OF q, of k] by simp
  moreover have "lvs_queue (s\<lparr>lvs_inner := m'\<rparr>) (filter (\<lambda>j. j \<noteq> k) ks @ [k])"
    using rep_lvs_queue[of "s\<lparr>lvs_inner := m'\<rparr>"] m'(2,3) by (fastforce simp: ks filter_fst_map)
  ultimately show ?thesis using that by blast
qed

lemma lvs_remove_spec:
  assumes q: "lvs_queue s ks"
  obtains s' where "lvs_remove s k = Some (k \<in> set ks, s')" "lvs_queue s' (filter (\<lambda>j. j \<noteq> k) ks)"
proof -
  obtain ps fs where rep: "lvm_rep (lvs_inner s) ps fs" and ks: "ks = map fst (lvm_items (lvs_inner s) ps)"
    using lvs_queue_rep[OF q] .
  obtain m' ps' fs' where m': "lvm_remove (lvs_inner s) k = Some (lvm_amap (lvs_inner s) k, m')"
    "lvm_rep m' ps' fs'" "lvm_items m' ps' = filter (\<lambda>e. fst e \<noteq> k) (lvm_items (lvs_inner s) ps)"
    using lvm_remove_spec[OF rep] .
  have "lvs_remove s k = Some (k \<in> set ks, s\<lparr>lvs_inner := m'\<rparr>)"
    unfolding lvs_remove_def m'(1) using amap_mem[OF q, of k] by simp
  moreover have "lvs_queue (s\<lparr>lvs_inner := m'\<rparr>) (filter (\<lambda>j. j \<noteq> k) ks)"
    using rep_lvs_queue[of "s\<lparr>lvs_inner := m'\<rparr>"] m'(2,3) by (fastforce simp: ks filter_fst_map)
  ultimately show ?thesis using that by blast
qed

lemma lvs_pop_front_spec:
  assumes q: "lvs_queue s ks"
  obtains s' where "lvs_pop_front s = Some (if ks = [] then None else Some (hd ks), s')" "lvs_queue s' (tl ks)"
proof -
  obtain ps fs where rep: "lvm_rep (lvs_inner s) ps fs" and ks: "ks = map fst (lvm_items (lvs_inner s) ps)"
    using lvs_queue_rep[OF q] .
  let ?l = "lvm_items (lvs_inner s) ps"
  obtain m' ps' where m': "lvm_rep m' ps' fs"
    "lvm_pop_front (lvs_inner s) = Some (if ?l = [] then None else Some (hd ?l), m')"
    "lvm_items m' ps' = tl ?l"
    by (rule pop_front_spec[OF rep]) (cases "?l = []"; auto)
  have "lvs_pop_front s = Some (if ks = [] then None else Some (hd ks), s\<lparr>lvs_inner := m'\<rparr>)"
    unfolding lvs_pop_front_def m'(2) ks by (simp add: hd_map)
  moreover have "lvs_queue (s\<lparr>lvs_inner := m'\<rparr>) (tl ks)"
    using rep_lvs_queue[of "s\<lparr>lvs_inner := m'\<rparr>"] m'(1,3) by (fastforce simp: ks map_tl)
  ultimately show ?thesis using that by blast
qed

lemma lvs_front_spec:
  assumes q: "lvs_queue s ks"
  shows "lvs_front s = Some (if ks = [] then None else Some (hd ks))"
proof -
  obtain ps fs where rep: "lvm_rep (lvs_inner s) ps fs" and ks: "ks = map fst (lvm_items (lvs_inner s) ps)"
    using lvs_queue_rep[OF q] .
  show ?thesis using front_back_spec(1)[OF rep] by (simp add: lvs_front_def ks hd_map)
qed

lemma lvs_clear_spec:
  assumes q: "lvs_queue s ks"
  obtains s' where "lvs_clear s = Some s'" "lvs_queue s' []"
proof -
  obtain ps fs where rep: "lvm_rep (lvs_inner s) ps fs" using lvs_queue_rep[OF q] .
  obtain m' where "lvm_clear (lvs_inner s) = Some m'" "lvm_rep m' [] fs" using clear_spec[OF rep] .
  then show ?thesis
    using that rep_lvs_queue[of "s\<lparr>lvs_inner := m'\<rparr>" "[]" fs] by (simp add: lvs_clear_def lvm_items_def)
qed

lemma lvs_into_iter_spec:
  assumes "lvs_queue s ks"
  shows "lvs_into_iter s = Some ks"
proof -
  obtain ps fs where rep: "lvm_rep (lvs_inner s) ps fs" and ks: "ks = map fst (lvm_items (lvs_inner s) ps)"
    using lvs_queue_rep[OF assms] .
  show ?thesis by (rule into_iter_spec[OF rep]) (simp add: lvs_into_iter_def lvs_len_def ks del: into_iter_collect.simps)
qed

lemma lvs_inv_queue: "lvs_inv s \<Longrightarrow> \<exists>ks. lvs_queue s ks"
  using rep_lvs_queue by (auto simp: lvs_inv_def lvm_inv_def)

section \<open>The set contract\<close>

interpretation linked_set: usize_set lvs_inv lvs_set lvs_new "\<lambda>s k. Some (lvs_contains_key s k)"
  lvs_insert lvs_remove lvs_len
proof (unfold_locales, goal_cases)
  case 1
  then show ?case using lvs_queue_new by (simp add: lvs_queue_def)
next
  case 2
  then show ?case using lvs_queue_facts(3)[OF lvs_queue_new] by simp
next
  case (3 s k)
  then obtain ks where q: "lvs_queue s ks" using lvs_inv_queue by blast
  then show ?case using lvs_queue_facts(3,5)[OF q] by simp
next
  case (4 s k)
  then obtain ks where q: "lvs_queue s ks" using lvs_inv_queue by blast
  obtain s' where s': "lvs_insert s k = Some (k \<in> set ks, s')" "lvs_queue s' (filter (\<lambda>j. j \<noteq> k) ks @ [k])"
    using lvs_insert_spec[OF q] .
  then show ?case using lvs_queue_facts(3)[OF q] lvs_queue_facts(3)[OF s'(2)] by (auto simp: lvs_queue_def)
next
  case (5 s k)
  then obtain ks where q: "lvs_queue s ks" using lvs_inv_queue by blast
  obtain s' where s': "lvs_remove s k = Some (k \<in> set ks, s')" "lvs_queue s' (filter (\<lambda>j. j \<noteq> k) ks)"
    using lvs_remove_spec[OF q] .
  then show ?case using lvs_queue_facts(3)[OF q] lvs_queue_facts(3)[OF s'(2)] by (auto simp: lvs_queue_def)
next
  case (6 s)
  then obtain ks where q: "lvs_queue s ks" using lvs_inv_queue by blast
  then show ?case using lvs_queue_facts(3)[OF q] by simp
next
  case (7 s)
  then obtain ks where q: "lvs_queue s ks" using lvs_inv_queue by blast
  then show ?case using lvs_queue_facts(1-3)[OF q] by (simp add: distinct_card)
qed

section \<open>Properties\<close>

text \<open>The linked set is a queue without repetition: on the elements \<open>ks\<close>, \<open>insert\<close> moves the
  element to the back, \<open>remove\<close> deletes it, \<open>pop_front\<close> and \<open>front\<close> take and read the first one, and
  the length counts them. \<open>insert\<close> answers whether the element was already there, the opposite
  of the convention of the bit set.\<close>

lemma linked_set_queue:
  assumes "lvs_queue s ks"
  shows "(\<exists>s'. lvs_insert s k = Some (k \<in> set ks, s') \<and> lvs_queue s' (filter (\<lambda>j. j \<noteq> k) ks @ [k])) \<and>
         (\<exists>s'. lvs_remove s k = Some (k \<in> set ks, s') \<and> lvs_queue s' (filter (\<lambda>j. j \<noteq> k) ks)) \<and>
         (\<exists>s'. lvs_pop_front s = Some (if ks = [] then None else Some (hd ks), s') \<and> lvs_queue s' (tl ks)) \<and>
         lvs_front s = Some (if ks = [] then None else Some (hd ks)) \<and>
         lvs_len s = length ks \<and> distinct ks"
proof -
  have "\<exists>s'. lvs_insert s k = Some (k \<in> set ks, s') \<and> lvs_queue s' (filter (\<lambda>j. j \<noteq> k) ks @ [k])"
    by (rule lvs_insert_spec[OF assms, of k]) blast
  moreover have "\<exists>s'. lvs_remove s k = Some (k \<in> set ks, s') \<and> lvs_queue s' (filter (\<lambda>j. j \<noteq> k) ks)"
    by (rule lvs_remove_spec[OF assms, of k]) blast
  moreover have "\<exists>s'. lvs_pop_front s = Some (if ks = [] then None else Some (hd ks), s') \<and> lvs_queue s' (tl ks)"
    by (rule lvs_pop_front_spec[OF assms]) blast
  ultimately show ?thesis using lvs_front_spec[OF assms] lvs_queue_facts(1,2)[OF assms] by blast
qed

end
