(* ===== verification/Priority_Queue.thy ===== *)
theory Priority_Queue
  imports Vec_Map
begin

text \<open>
  \<open>PriorityQueue\<close> of \<open>shared/src/utils/priority_queue.rs\<close>: an indexed binary heap. \<open>heap\<close> is
  the vector of identifiers in heap order; \<open>map\<close> keeps for every identifier its position in
  the heap and its value. The order is the type parameter \<open>Order\<close> (\<open>Max\<close> or \<open>Min\<close>), which
  compares with the operators of \<open>PartialOrd\<close>: here \<open>cmp_priority\<close>, over the value type's
  \<open>partial_cmp\<close>.

  The operations are functions into \<open>option\<close>: the code reads the heap and the map with
  \<open>get_unchecked\<close>, and the theorems show that these reads are always in range. The two
  guards \<open>PeekMut\<close> and \<open>RefMut\<close> are records with a read, a write and a drop.
\<close>

section \<open>Orders\<close>

datatype rust_ordering = Ord_Less | Ord_Equal | Ord_Greater

datatype pq_order = Max_Order | Min_Order

definition cmp_priority ::
  "pq_order \<Rightarrow> ('v \<Rightarrow> 'v \<Rightarrow> rust_ordering option) \<Rightarrow> 'v \<Rightarrow> 'v \<Rightarrow> bool" where
  "cmp_priority order partial_cmp lower larger =
     (case order of
        Max_Order \<Rightarrow> partial_cmp lower larger = Some Ord_Less
      | Min_Order \<Rightarrow> partial_cmp lower larger = Some Ord_Greater)"

text \<open>\<open>PartialOrd\<close> of the integer types.\<close>

definition int_partial_cmp :: "'a::linorder \<Rightarrow> 'a \<Rightarrow> rust_ordering option" where
  "int_partial_cmp a b = Some (if a < b then Ord_Less else if a = b then Ord_Equal else Ord_Greater)"

section \<open>The data and its operations\<close>

record 'v priority_queue =
  pq_map :: "(nat \<times> 'v) vec_map"
  pq_heap :: "nat list"

definition pq_left :: "nat \<Rightarrow> nat" where
  "pq_left i = i * 2 + 1"

definition pq_right :: "nat \<Rightarrow> nat" where
  "pq_right i = i * 2 + 2"

definition pq_parent :: "nat \<Rightarrow> nat" where
  "pq_parent i = (i - 1) div 2"

definition pq_new :: "'v priority_queue" where
  "pq_new = \<lparr>pq_map = vm_new, pq_heap = []\<rparr>"

definition pq_with_capacity :: "nat \<Rightarrow> 'v priority_queue" where
  "pq_with_capacity capacity = \<lparr>pq_map = vm_with_capacity capacity, pq_heap = []\<rparr>"

definition pq_clear :: "'v priority_queue \<Rightarrow> 'v priority_queue" where
  "pq_clear q = q\<lparr>pq_heap := [], pq_map := vm_clear (pq_map q)\<rparr>"

definition pq_get :: "'v priority_queue \<Rightarrow> nat \<Rightarrow> 'v option" where
  "pq_get q ident = map_option snd (vm_get (pq_map q) ident)"

text \<open>\<open>peek\<close> returns an option; the outer option is the unchecked read of the map.\<close>

definition pq_peek :: "'v priority_queue \<Rightarrow> (nat \<times> 'v) option option" where
  "pq_peek q =
     (case vec_get (pq_heap q) 0 of
        None \<Rightarrow> Some None
      | Some ident \<Rightarrow> do { x \<leftarrow> vm_get_unchecked (pq_map q) ident; Some (Some (ident, snd x)) })"

definition pq_iter :: "'v priority_queue \<Rightarrow> 'v list option" where
  "pq_iter q = those (map (\<lambda>x. map_option snd (vm_get_unchecked (pq_map q) x)) (pq_heap q))"

definition get_priority_from_position :: "'v priority_queue \<Rightarrow> nat \<Rightarrow> 'v option" where
  "get_priority_from_position q pos =
     do { ident \<leftarrow> vec_get (pq_heap q) pos; x \<leftarrow> vm_get_unchecked (pq_map q) ident; Some (snd x) }"

text \<open>Reading two cells of the heap vector at once: both in range and different.\<close>

definition heap_get_two :: "nat list \<Rightarrow> nat \<Rightarrow> nat \<Rightarrow> (nat \<times> nat) option" where
  "heap_get_two heap a b =
     (if a < length heap \<and> b < length heap \<and> a \<noteq> b then Some (heap ! a, heap ! b) else None)"

definition vm_get_two :: "'v vec_map \<Rightarrow> nat \<Rightarrow> nat \<Rightarrow> ('v \<times> 'v) option" where
  "vm_get_two m a b =
     (case vm_get_many_unchecked_mut m [a, b] of Some [x, y] \<Rightarrow> Some (x, y) | _ \<Rightarrow> None)"

definition pq_swap :: "'v priority_queue \<Rightarrow> nat \<Rightarrow> nat \<Rightarrow> 'v priority_queue option" where
  "pq_swap q a b =
     do {
       (ida, idb) \<leftarrow> heap_get_two (pq_heap q) a b;
       ((a1, va), (b1, vb)) \<leftarrow> vm_get_two (pq_map q) ida idb;
       Some (q\<lparr>pq_heap := (pq_heap q)[a := idb, b := ida],
               pq_map := vm_put ida (b1, va) (vm_put idb (a1, vb) (pq_map q))\<rparr>)
     }"

text \<open>One round of the loop of \<open>heapify\<close>: which of the node and its two children is the largest.\<close>

definition pq_largest :: "('v \<Rightarrow> 'v \<Rightarrow> bool) \<Rightarrow> 'v priority_queue \<Rightarrow> nat \<Rightarrow> nat option" where
  "pq_largest cmp q i =
     do {
       largestp \<leftarrow> get_priority_from_position q i;
       let l = pq_left i;
       if l < length (pq_heap q) then
         do {
           childp \<leftarrow> get_priority_from_position q l;
           let (largest, largestp) = (if cmp largestp childp then (l, childp) else (i, largestp));
           let r = pq_right i;
           if r < length (pq_heap q) then
             do {
               rp \<leftarrow> get_priority_from_position q r;
               Some (if cmp largestp rp then r else largest)
             }
           else Some largest
         }
       else Some i
     }"

lemma pq_largest_cases:
  "pq_largest cmp q i = Some k \<Longrightarrow> k \<noteq> i \<Longrightarrow> (k = pq_left i \<or> k = pq_right i) \<and> k < length (pq_heap q)"
  by (auto simp: pq_largest_def Let_def bind_eq_Some_conv split: if_splits)

lemma pq_swap_length: "pq_swap q a b = Some q' \<Longrightarrow> length (pq_heap q') = length (pq_heap q)"
  by (auto simp: pq_swap_def bind_eq_Some_conv)

function pq_heapify_loop :: "('v \<Rightarrow> 'v \<Rightarrow> bool) \<Rightarrow> 'v priority_queue \<Rightarrow> nat \<Rightarrow> 'v priority_queue option" where
  "pq_heapify_loop cmp q i =
     do {
       largest \<leftarrow> pq_largest cmp q i;
       if largest \<noteq> i then
         do { q' \<leftarrow> pq_swap q i largest; pq_heapify_loop cmp q' largest }
       else Some q
     }"
  by pat_completeness auto
termination
proof (relation "measure (\<lambda>(cmp, q, i). length (pq_heap q) - i)", goal_cases)
  case (2 cmp q i k q')
  then show ?case
    using pq_largest_cases[of cmp q i k] pq_swap_length[of q i k q']
    by (auto simp: pq_left_def pq_right_def)
qed simp

definition pq_heapify :: "('v \<Rightarrow> 'v \<Rightarrow> bool) \<Rightarrow> 'v priority_queue \<Rightarrow> nat \<Rightarrow> 'v priority_queue option" where
  "pq_heapify cmp q i = (if length (pq_heap q) \<le> 1 then Some q else pq_heapify_loop cmp q i)"

text \<open>The loop of \<open>bubble_up\<close>: only the parent's position is written in each round.\<close>

function pq_bubble_loop ::
  "('v \<Rightarrow> 'v \<Rightarrow> bool) \<Rightarrow> 'v priority_queue \<Rightarrow> nat \<Rightarrow> (nat \<times> 'v priority_queue) option" where
  "pq_bubble_loop cmp q pos =
     (if pos > 0 then
        do {
          let parent_position = pq_parent pos;
          (current_heap, parent_heap) \<leftarrow> heap_get_two (pq_heap q) pos parent_position;
          (current, parent) \<leftarrow> vm_get_two (pq_map q) current_heap parent_heap;
          if cmp (snd parent) (snd current) then
            pq_bubble_loop cmp
              (q\<lparr>pq_heap := (pq_heap q)[pos := parent_heap, parent_position := current_heap],
                 pq_map := vm_put parent_heap (pos, snd parent) (pq_map q)\<rparr>)
              parent_position
          else Some (pos, q)
        }
      else Some (pos, q))"
  by pat_completeness auto
termination
  by (relation "measure (\<lambda>(cmp, q, i). i)") (auto simp: pq_parent_def)

definition pq_bubble_up ::
  "('v \<Rightarrow> 'v \<Rightarrow> bool) \<Rightarrow> 'v priority_queue \<Rightarrow> nat \<Rightarrow> (nat \<times> 'v priority_queue) option" where
  "pq_bubble_up cmp q pos =
     do {
       (pos, q) \<leftarrow> pq_bubble_loop cmp q pos;
       ident \<leftarrow> vec_get (pq_heap q) pos;
       x \<leftarrow> vm_get_unchecked_mut (pq_map q) ident;
       Some (pos, q\<lparr>pq_map := vm_put ident (pos, snd x) (pq_map q)\<rparr>)
     }"

definition pq_up_heapify :: "('v \<Rightarrow> 'v \<Rightarrow> bool) \<Rightarrow> 'v priority_queue \<Rightarrow> nat \<Rightarrow> 'v priority_queue option" where
  "pq_up_heapify cmp q i = do { (pos, q) \<leftarrow> pq_bubble_up cmp q i; pq_heapify cmp q pos }"

definition pq_swap_remove :: "'v priority_queue \<Rightarrow> nat \<Rightarrow> ((nat \<times> 'v) \<times> 'v priority_queue) option" where
  "pq_swap_remove q pos =
     do {
       let last = usize_sub (length (pq_heap q)) 1;
       new \<leftarrow> vec_get (pq_heap q) last;
       x \<leftarrow> vm_get_unchecked_mut (pq_map q) new;
       let m = vm_put new (pos, snd x) (pq_map q);
       (head, heap) \<leftarrow> vec_swap_remove (pq_heap q) pos;
       ((_, value), m) \<leftarrow> vm_remove_unchecked m head;
       Some ((head, value), q\<lparr>pq_heap := heap, pq_map := m\<rparr>)
     }"

definition pq_pop ::
  "('v \<Rightarrow> 'v \<Rightarrow> bool) \<Rightarrow> 'v priority_queue \<Rightarrow> ((nat \<times> 'v) option \<times> 'v priority_queue) option" where
  "pq_pop cmp q =
     (if length (pq_heap q) = 0 then Some (None, q)
      else do { (r, q) \<leftarrow> pq_swap_remove q 0; q \<leftarrow> pq_heapify cmp q 0; Some (Some r, q) })"

definition pq_push ::
  "('v \<Rightarrow> 'v \<Rightarrow> bool) \<Rightarrow> 'v priority_queue \<Rightarrow> nat \<Rightarrow> 'v \<Rightarrow> ('v option \<times> 'v priority_queue) option" where
  "pq_push cmp q ident priority =
     (case vm_get_mut (pq_map q) ident of
        Some (pos, old_priority) \<Rightarrow>
          do {
            q \<leftarrow> pq_up_heapify cmp (q\<lparr>pq_map := vm_put ident (pos, priority) (pq_map q)\<rparr>) pos;
            Some (Some old_priority, q)
          }
      | None \<Rightarrow>
          do {
            let i = length (pq_heap q);
            let (_, m) = vm_insert (pq_map q) ident (i, priority);
            (_, q) \<leftarrow> pq_bubble_up cmp (q\<lparr>pq_heap := pq_heap q @ [ident], pq_map := m\<rparr>) i;
            Some (None, q)
          })"

definition pq_remove ::
  "('v \<Rightarrow> 'v \<Rightarrow> bool) \<Rightarrow> 'v priority_queue \<Rightarrow> nat \<Rightarrow> ((nat \<times> 'v) option \<times> 'v priority_queue) option" where
  "pq_remove cmp q ident =
     (case vm_get (pq_map q) ident of
        Some (pos, _) \<Rightarrow>
          do {
            (r, q) \<leftarrow> pq_swap_remove q pos;
            q \<leftarrow> (if pos < length (pq_heap q) then pq_up_heapify cmp q pos else Some q);
            Some (Some r, q)
          }
      | None \<Rightarrow> Some (None, q))"

definition pq_change_priority ::
  "('v \<Rightarrow> 'v \<Rightarrow> bool) \<Rightarrow> 'v priority_queue \<Rightarrow> nat \<Rightarrow> 'v \<Rightarrow> ('v option \<times> 'v priority_queue) option" where
  "pq_change_priority cmp q ident new_priority =
     (case vm_get_mut (pq_map q) ident of
        Some (pos, priority) \<Rightarrow>
          do {
            q \<leftarrow> pq_up_heapify cmp (q\<lparr>pq_map := vm_put ident (pos, new_priority) (pq_map q)\<rparr>) pos;
            Some (Some priority, q)
          }
      | None \<Rightarrow> Some (None, q))"

definition pq_change_priority_by ::
  "('v \<Rightarrow> 'v \<Rightarrow> bool) \<Rightarrow> 'v priority_queue \<Rightarrow> nat \<Rightarrow> ('v \<Rightarrow> 'v) \<Rightarrow> (bool \<times> 'v priority_queue) option" where
  "pq_change_priority_by cmp q ident priority_setter =
     (case vm_get_mut (pq_map q) ident of
        Some (pos, priority) \<Rightarrow>
          do {
            q \<leftarrow> pq_up_heapify cmp
              (q\<lparr>pq_map := vm_put ident (pos, priority_setter priority) (pq_map q)\<rparr>) pos;
            Some (True, q)
          }
      | None \<Rightarrow> Some (False, q))"

text \<open>On \<open>usize\<close> priorities; the old value is recorded by the setter. The addition and the
  subtraction wrap.\<close>

definition pq_increment_priority ::
  "(nat \<Rightarrow> nat \<Rightarrow> bool) \<Rightarrow> nat priority_queue \<Rightarrow> nat \<Rightarrow> (nat option \<times> nat priority_queue) option" where
  "pq_increment_priority cmp q ident =
     do {
       let prev_priority = map_option snd (vm_get (pq_map q) ident);
       (_, q) \<leftarrow> pq_change_priority_by cmp q ident (\<lambda>x. usize_add x 1);
       Some (prev_priority, q)
     }"

definition pq_decrement_priority ::
  "(nat \<Rightarrow> nat \<Rightarrow> bool) \<Rightarrow> nat priority_queue \<Rightarrow> nat \<Rightarrow> (nat option \<times> nat priority_queue) option" where
  "pq_decrement_priority cmp q ident =
     do {
       let prev_priority = map_option snd (vm_get (pq_map q) ident);
       (_, q) \<leftarrow> pq_change_priority_by cmp q ident (\<lambda>x. usize_sub x 1);
       Some (prev_priority, q)
     }"

text \<open>\<open>map\<close>: every value is rewritten, then every position is sifted in increasing order.\<close>

fun pq_up_heapify_range ::
  "('v \<Rightarrow> 'v \<Rightarrow> bool) \<Rightarrow> nat list \<Rightarrow> 'v priority_queue \<Rightarrow> 'v priority_queue option" where
  "pq_up_heapify_range cmp [] q = Some q"
| "pq_up_heapify_range cmp (i # is) q = do { q \<leftarrow> pq_up_heapify cmp q i; pq_up_heapify_range cmp is q }"

definition pq_map_values ::
  "('v \<Rightarrow> 'v \<Rightarrow> bool) \<Rightarrow> 'v priority_queue \<Rightarrow> ('v \<Rightarrow> 'v) \<Rightarrow> 'v priority_queue option" where
  "pq_map_values cmp q f =
     (let q = q\<lparr>pq_map := vm_iter_mut (\<lambda>(pos, value). (pos, f value)) (pq_map q)\<rparr>
      in pq_up_heapify_range cmp [0..<length (pq_heap q)] q)"

text \<open>The guards. \<open>peek_mut\<close> and \<open>get_mut\<close> only create them; a write through \<open>deref_mut\<close> marks
  them, and dropping a marked guard restores the order.\<close>

record pq_guard =
  guard_key :: nat
  guard_modified :: bool

definition pq_peek_mut :: "'v priority_queue \<Rightarrow> pq_guard option" where
  "pq_peek_mut q =
     (case vec_get (pq_heap q) 0 of
        None \<Rightarrow> None
      | Some ident \<Rightarrow> Some \<lparr>guard_key = ident, guard_modified = False\<rparr>)"

definition pq_get_mut :: "'v priority_queue \<Rightarrow> nat \<Rightarrow> pq_guard option" where
  "pq_get_mut q ident =
     (if vm_contains_key (pq_map q) ident
      then Some \<lparr>guard_key = ident, guard_modified = False\<rparr> else None)"

definition guard_deref :: "'v priority_queue \<Rightarrow> pq_guard \<Rightarrow> 'v option" where
  "guard_deref q g = map_option snd (vm_get_unchecked (pq_map q) (guard_key g))"

definition guard_deref_mut ::
  "'v priority_queue \<Rightarrow> pq_guard \<Rightarrow> ('v \<Rightarrow> 'v) \<Rightarrow> (pq_guard \<times> 'v priority_queue) option" where
  "guard_deref_mut q g f =
     do {
       (pos, value) \<leftarrow> vm_get_unchecked_mut (pq_map q) (guard_key g);
       Some (g\<lparr>guard_modified := True\<rparr>,
             q\<lparr>pq_map := vm_put (guard_key g) (pos, f value) (pq_map q)\<rparr>)
     }"

definition peek_mut_drop :: "('v \<Rightarrow> 'v \<Rightarrow> bool) \<Rightarrow> 'v priority_queue \<Rightarrow> pq_guard \<Rightarrow> 'v priority_queue option" where
  "peek_mut_drop cmp q g = (if guard_modified g then pq_heapify cmp q 0 else Some q)"

definition ref_mut_drop :: "('v \<Rightarrow> 'v \<Rightarrow> bool) \<Rightarrow> 'v priority_queue \<Rightarrow> pq_guard \<Rightarrow> 'v priority_queue option" where
  "ref_mut_drop cmp q g =
     (if guard_modified g then
        (case vm_get (pq_map q) (guard_key g) of
           Some (pos, _) \<Rightarrow> pq_heapify cmp q pos
         | None \<Rightarrow> Some q)
      else Some q)"

text \<open>The two uses of the guards: a client takes one, writes through it once, and drops it.\<close>

definition pq_update_peek ::
  "('v \<Rightarrow> 'v \<Rightarrow> bool) \<Rightarrow> 'v priority_queue \<Rightarrow> ('v \<Rightarrow> 'v) \<Rightarrow> 'v priority_queue option" where
  "pq_update_peek cmp q f =
     (case pq_peek_mut q of
        None \<Rightarrow> Some q
      | Some g \<Rightarrow> do { (g, q) \<leftarrow> guard_deref_mut q g f; peek_mut_drop cmp q g })"

definition pq_update ::
  "('v \<Rightarrow> 'v \<Rightarrow> bool) \<Rightarrow> 'v priority_queue \<Rightarrow> nat \<Rightarrow> ('v \<Rightarrow> 'v) \<Rightarrow> 'v priority_queue option" where
  "pq_update cmp q ident f =
     (case pq_get_mut q ident of
        None \<Rightarrow> Some q
      | Some g \<Rightarrow> do { (g, q) \<leftarrow> guard_deref_mut q g f; ref_mut_drop cmp q g })"

text \<open>The blocks \<open>if let Some(mut x) = queue.get_mut(id) { body }\<close> and the same with \<open>peek_mut\<close>. The
  body receives the value the guard refers to and returns it, with whether it was written
  through \<open>deref_mut\<close>, and a result; the guard is dropped at the end.\<close>

definition ref_mut_scope ::
  "('v \<Rightarrow> 'v \<Rightarrow> bool) \<Rightarrow> 'v priority_queue \<Rightarrow> nat \<Rightarrow> ('v \<Rightarrow> ('v \<times> bool \<times> 'r) option) \<Rightarrow>
   ('r option \<times> 'v priority_queue) option" where
  "ref_mut_scope cmp q ident body =
     (case pq_get_mut q ident of
        None \<Rightarrow> Some (None, q)
      | Some g \<Rightarrow>
          do {
            v \<leftarrow> guard_deref q g;
            (v', modified, r) \<leftarrow> body v;
            (g, q) \<leftarrow> (if modified then guard_deref_mut q g (\<lambda>_. v') else Some (g, q));
            q \<leftarrow> ref_mut_drop cmp q g;
            Some (Some r, q)
          })"

definition peek_mut_scope ::
  "('v \<Rightarrow> 'v \<Rightarrow> bool) \<Rightarrow> 'v priority_queue \<Rightarrow> ('v \<Rightarrow> ('v \<times> bool \<times> 'r) option) \<Rightarrow>
   ('r option \<times> 'v priority_queue) option" where
  "peek_mut_scope cmp q body =
     (case pq_peek_mut q of
        None \<Rightarrow> Some (None, q)
      | Some g \<Rightarrow>
          do {
            v \<leftarrow> guard_deref q g;
            (v', modified, r) \<leftarrow> body v;
            (g, q) \<leftarrow> (if modified then guard_deref_mut q g (\<lambda>_. v') else Some (g, q));
            q \<leftarrow> peek_mut_drop cmp q g;
            Some (Some r, q)
          })"

declare pq_heapify_loop.simps [simp del] pq_bubble_loop.simps [simp del]

section \<open>Invariant and abstraction\<close>

text \<open>The contents of the queue, the value at a heap position, the consistency of the two vectors
  (possibly except for the recorded position of the identifier at one heap position, while it
  bubbles up), and the heap order.\<close>

definition pq_vals :: "'v priority_queue \<Rightarrow> nat \<Rightarrow> 'v option" where
  "pq_vals q k = map_option snd (vm_map (pq_map q) k)"

definition pq_prio :: "'v priority_queue \<Rightarrow> nat \<Rightarrow> 'v" where
  "pq_prio q i = the (pq_vals q (pq_heap q ! i))"

definition pq_ok_except :: "nat \<Rightarrow> 'v priority_queue \<Rightarrow> bool" where
  "pq_ok_except p q \<longleftrightarrow>
     vm_inv (pq_map q) \<and> distinct (pq_heap q) \<and> dom (vm_map (pq_map q)) = set (pq_heap q) \<and>
     (\<forall>i<length (pq_heap q). i \<noteq> p \<longrightarrow> map_option fst (vm_map (pq_map q) (pq_heap q ! i)) = Some i)"

definition pq_ok :: "'v priority_queue \<Rightarrow> bool" where
  "pq_ok q \<longleftrightarrow>
     vm_inv (pq_map q) \<and> distinct (pq_heap q) \<and> dom (vm_map (pq_map q)) = set (pq_heap q) \<and>
     (\<forall>i<length (pq_heap q). map_option fst (vm_map (pq_map q) (pq_heap q ! i)) = Some i)"

definition heap_sorted :: "('v \<Rightarrow> 'v \<Rightarrow> bool) \<Rightarrow> (nat \<Rightarrow> 'v) \<Rightarrow> nat \<Rightarrow> bool" where
  "heap_sorted cmp w n \<longleftrightarrow> (\<forall>j<n. 0 < j \<longrightarrow> \<not> cmp (w (pq_parent j)) (w j))"

text \<open>The order holds except around position \<open>p\<close>, below it, or above it; in each case the parent
  of \<open>p\<close> is in order with the children of \<open>p\<close>.\<close>

definition heap_except :: "('v \<Rightarrow> 'v \<Rightarrow> bool) \<Rightarrow> (nat \<Rightarrow> 'v) \<Rightarrow> nat \<Rightarrow> nat \<Rightarrow> bool" where
  "heap_except cmp w n p \<longleftrightarrow>
     (\<forall>j<n. 0 < j \<longrightarrow> (j \<noteq> p \<longrightarrow> pq_parent j \<noteq> p \<longrightarrow> \<not> cmp (w (pq_parent j)) (w j)) \<and>
        (pq_parent j = p \<longrightarrow> 0 < p \<longrightarrow> \<not> cmp (w (pq_parent p)) (w j)))"

definition heap_except_below :: "('v \<Rightarrow> 'v \<Rightarrow> bool) \<Rightarrow> (nat \<Rightarrow> 'v) \<Rightarrow> nat \<Rightarrow> nat \<Rightarrow> bool" where
  "heap_except_below cmp w n p \<longleftrightarrow>
     (\<forall>j<n. 0 < j \<longrightarrow> (pq_parent j \<noteq> p \<longrightarrow> \<not> cmp (w (pq_parent j)) (w j)) \<and>
        (pq_parent j = p \<longrightarrow> 0 < p \<longrightarrow> \<not> cmp (w (pq_parent p)) (w j)))"

definition heap_except_above :: "('v \<Rightarrow> 'v \<Rightarrow> bool) \<Rightarrow> (nat \<Rightarrow> 'v) \<Rightarrow> nat \<Rightarrow> nat \<Rightarrow> bool" where
  "heap_except_above cmp w n p \<longleftrightarrow>
     (\<forall>j<n. 0 < j \<longrightarrow> (j \<noteq> p \<longrightarrow> \<not> cmp (w (pq_parent j)) (w j)) \<and>
        (pq_parent j = p \<longrightarrow> 0 < p \<longrightarrow> \<not> cmp (w (pq_parent p)) (w j)))"

definition pq_inv :: "('v \<Rightarrow> 'v \<Rightarrow> bool) \<Rightarrow> 'v priority_queue \<Rightarrow> bool" where
  "pq_inv cmp q \<longleftrightarrow> pq_ok q \<and> heap_sorted cmp (pq_prio q) (length (pq_heap q))"

subsection \<open>Positions\<close>

lemma pq_parent_less: "0 < j \<Longrightarrow> pq_parent j < j"
  by (simp add: pq_parent_def)

lemma pq_parent_less_n: "j < n \<Longrightarrow> pq_parent j < n"
  by (simp add: pq_parent_def)

lemma pq_parent_children [simp]: "pq_parent (pq_left i) = i" "pq_parent (pq_right i) = i"
  by (simp_all add: pq_parent_def pq_left_def pq_right_def)

lemma pq_child_cases: "0 < j \<Longrightarrow> pq_parent j = i \<longleftrightarrow> j = pq_left i \<or> j = pq_right i"
  unfolding pq_parent_def pq_left_def pq_right_def by presburger

lemma pq_child_greater: "i < pq_left i" "i < pq_right i" "0 < pq_left i" "0 < pq_right i"
  "pq_left i < pq_right i"
  by (simp_all add: pq_left_def pq_right_def)

lemma heap_cong:
  assumes "\<And>k. k < n \<Longrightarrow> w k = w' k"
  shows "heap_sorted cmp w n = heap_sorted cmp w' n" "heap_except cmp w n p = heap_except cmp w' n p"
    "heap_except_below cmp w n p = heap_except_below cmp w' n p"
    "heap_except_above cmp w n p = heap_except_above cmp w' n p"
  unfolding heap_sorted_def heap_except_def heap_except_below_def heap_except_above_def
  by (auto simp: assms pq_parent_less_n)

subsection \<open>The order of the values\<close>

text \<open>What the heap needs of the comparison: a strict weak order.\<close>

locale priority_order =
  fixes cmp :: "'v \<Rightarrow> 'v \<Rightarrow> bool"
  assumes asym: "cmp x y \<Longrightarrow> \<not> cmp y x"
    and neg_trans: "\<not> cmp x y \<Longrightarrow> \<not> cmp y z \<Longrightarrow> \<not> cmp x z"
begin

lemma irrefl [simp]: "\<not> cmp x x"
  using asym by blast

text \<open>One step upwards moves the disorder to the parent.\<close>

lemma heap_except_up:
  assumes H: "heap_except cmp w n p" and p: "0 < p" "p < n" and less: "cmp (w (pq_parent p)) (w p)"
  shows "heap_except cmp (w(p := w (pq_parent p), pq_parent p := w p)) n (pq_parent p)"
    (is "heap_except cmp ?w n ?a")
  unfolding heap_except_def
proof (intro allI impI conjI)
  fix j assume j: "j < n" "0 < j"
  have a: "?a < p" "?a < n" using p pq_parent_less by (auto intro: pq_parent_less_n)
  {
    assume ne: "j \<noteq> ?a" "pq_parent j \<noteq> ?a"
    then have "j \<noteq> p" by auto
    then show "\<not> cmp (?w (pq_parent j)) (?w j)"
      using H j ne p unfolding heap_except_def by (cases "pq_parent j = p") (auto simp: fun_upd_def)
  next
    assume pj: "pq_parent j = ?a" and a0: "0 < ?a"
    have g: "\<not> cmp (w (pq_parent ?a)) (w ?a)"
      using H a a0 pq_parent_less[OF a0] unfolding heap_except_def by (metis less_irrefl less_trans)
    have jj: "j \<noteq> p \<Longrightarrow> \<not> cmp (w ?a) (w j)"
      using H j pj a unfolding heap_except_def by (metis less_irrefl)
    have "j \<noteq> ?a" "pq_parent ?a \<noteq> p" "pq_parent ?a \<noteq> ?a"
      using pj pq_parent_less[OF a0] pq_parent_less[OF j(2)] a by auto
    then show "\<not> cmp (?w (pq_parent ?a)) (?w j)"
      using g jj neg_trans[OF g] by auto
  }
qed

lemma heap_except_above_up:
  assumes H: "heap_except_above cmp w n p" and p: "0 < p" "p < n" and less: "cmp (w (pq_parent p)) (w p)"
  shows "heap_except_above cmp (w(p := w (pq_parent p), pq_parent p := w p)) n (pq_parent p)"
    (is "heap_except_above cmp ?w n ?a")
proof -
  have "heap_except cmp w n p" using H unfolding heap_except_def heap_except_above_def by blast
  note up = heap_except_up[OF this p less]
  have "\<not> cmp (?w (pq_parent j)) (?w j)" if j: "j < n" "0 < j" "j \<noteq> ?a" for j
  proof (cases "pq_parent j = ?a")
    case True
    have "j \<noteq> p \<Longrightarrow> \<not> cmp (w ?a) (w j)" using H j True unfolding heap_except_above_def by metis
    then have "j \<noteq> p \<Longrightarrow> \<not> cmp (w p) (w j)" using neg_trans[OF asym[OF less]] by blast
    then show ?thesis using True j asym[OF less] by auto
  qed (use up j in \<open>auto simp: heap_except_def\<close>)
  then show ?thesis using up unfolding heap_except_above_def heap_except_def by blast
qed

lemma heap_except_above_settled:
  assumes "heap_except_above cmp w n p" "p = 0 \<or> \<not> cmp (w (pq_parent p)) (w p)"
  shows "heap_sorted cmp w n"
  using assms unfolding heap_except_above_def heap_sorted_def by fastforce

lemma heap_except_settled:
  assumes "heap_except cmp w n p" "p = 0 \<or> \<not> cmp (w (pq_parent p)) (w p)"
  shows "heap_except_below cmp w n p"
  using assms unfolding heap_except_def heap_except_below_def by fastforce

text \<open>One step downwards moves the disorder to the largest child.\<close>

lemma heap_except_down:
  assumes H: "heap_except_below cmp w n i" and c: "c < n" "0 < c" "pq_parent c = i"
    and gt: "cmp (w i) (w c)"
    and largest: "\<And>j. j < n \<Longrightarrow> 0 < j \<Longrightarrow> pq_parent j = i \<Longrightarrow> \<not> cmp (w c) (w j)"
  shows "heap_except_below cmp (w(i := w c, c := w i)) n c" (is "heap_except_below cmp ?w n c")
  unfolding heap_except_below_def
proof (intro allI impI conjI)
  fix j assume j: "j < n" "0 < j"
  have i: "i < c" using c pq_parent_less by auto
  {
    assume ne: "pq_parent j \<noteq> c"
    have other: "\<not> cmp (w (pq_parent j)) (w j)" if "pq_parent j \<noteq> i"
      using H j that unfolding heap_except_below_def by blast
    have up: "\<not> cmp (w (pq_parent i)) (w c)" if "0 < i"
      using H c that unfolding heap_except_below_def by blast
    show "\<not> cmp (?w (pq_parent j)) (?w j)"
    proof (cases "pq_parent j = i")
      case True
      then have "j \<noteq> i" using pq_parent_less[OF j(2)] by auto
      then show ?thesis using True largest[OF j True] asym[OF gt] i by auto
    next
      case False
      then have "j \<noteq> c" using c by auto
      then show ?thesis using False ne other up j by auto
    qed
  next
    assume pj: "pq_parent j = c"
    then have "\<not> cmp (w c) (w j)" "j \<noteq> i" "j \<noteq> c"
      using H j i pq_parent_less[OF j(2)] unfolding heap_except_below_def by auto
    then show "\<not> cmp (?w (pq_parent c)) (?w j)" using c i by auto
  }
qed

lemma heap_below_done:
  assumes "heap_except_below cmp w n i"
    and "\<And>j. j < n \<Longrightarrow> 0 < j \<Longrightarrow> pq_parent j = i \<Longrightarrow> \<not> cmp (w i) (w j)"
  shows "heap_sorted cmp w n"
  using assms unfolding heap_except_below_def heap_sorted_def by metis

text \<open>The root is a largest value.\<close>

lemma heap_root:
  assumes "heap_sorted cmp w n" "j < n"
  shows "\<not> cmp (w 0) (w j)"
  using assms(2)
proof (induction j rule: less_induct)
  case (less j)
  show ?case
  proof (cases "j = 0")
    case False
    then have "pq_parent j < j" by (simp add: pq_parent_less)
    with less have "\<not> cmp (w 0) (w (pq_parent j))" by (simp add: pq_parent_less_n)
    moreover have "\<not> cmp (w (pq_parent j)) (w j)"
      using assms(1) less.prems False unfolding heap_sorted_def by blast
    ultimately show ?thesis by (rule neg_trans)
  qed simp
qed

text \<open>Changing one value of a heap gives a heap with an exception there.\<close>

lemma heap_sorted_update:
  assumes "heap_sorted cmp w n" "\<And>k. k < n \<Longrightarrow> k \<noteq> p \<Longrightarrow> w' k = w k" "p < n"
  shows "heap_except cmp w' n p"
  unfolding heap_except_def
proof (intro allI impI conjI)
  fix j assume j: "j < n" "0 < j"
  have H: "\<not> cmp (w (pq_parent j)) (w j)" using assms(1) j unfolding heap_sorted_def by blast
  {
    assume "j \<noteq> p" "pq_parent j \<noteq> p"
    then show "\<not> cmp (w' (pq_parent j)) (w' j)" using H assms(2) j pq_parent_less_n by metis
  next
    assume pj: "pq_parent j = p" and p: "0 < p"
    have "\<not> cmp (w (pq_parent p)) (w p)" using assms(1,3) p unfolding heap_sorted_def by blast
    with H pj have "\<not> cmp (w (pq_parent p)) (w j)" using neg_trans by blast
    then show "\<not> cmp (w' (pq_parent p)) (w' j)"
      using assms(2,3) j p pj pq_parent_less pq_parent_less_n by (metis less_irrefl)
  }
qed

end

section \<open>The operations on consistent queues\<close>

lemma pq_new_ok [simp]: "pq_ok pq_new" "pq_vals pq_new = Map.empty"
  by (auto simp: pq_ok_def pq_new_def pq_vals_def fun_eq_iff)

lemma pq_clear_ok [simp]: "pq_ok (pq_clear q)" "pq_vals (pq_clear q) = Map.empty"
  by (auto simp: pq_ok_def pq_clear_def pq_vals_def fun_eq_iff)

lemma pq_get_vals [simp]: "pq_get q = pq_vals q"
  by (simp add: fun_eq_iff pq_get_def pq_vals_def)

lemma pq_ok_weaken: "pq_ok q \<Longrightarrow> pq_ok_except p q"
  by (auto simp: pq_ok_def pq_ok_except_def)

lemma pq_ok_except_read:
  assumes "pq_ok_except p q" "i < length (pq_heap q)"
  obtains pos where "vm_map (pq_map q) (pq_heap q ! i) = Some (pos, pq_prio q i)" "i \<noteq> p \<Longrightarrow> pos = i"
proof -
  from assms have "pq_heap q ! i \<in> dom (vm_map (pq_map q))"
    and "i \<noteq> p \<Longrightarrow> map_option fst (vm_map (pq_map q) (pq_heap q ! i)) = Some i"
    by (auto simp: pq_ok_except_def)
  then show ?thesis using that by (auto simp: pq_prio_def pq_vals_def)
qed

lemma pq_ok_read:
  "pq_ok q \<Longrightarrow> i < length (pq_heap q) \<Longrightarrow> vm_map (pq_map q) (pq_heap q ! i) = Some (i, pq_prio q i)"
  using pq_ok_except_read[OF pq_ok_weaken, of q i "Suc i"] by (metis n_not_Suc_n)

lemma pq_ok_position:
  assumes "pq_ok q" "vm_map (pq_map q) k = Some (pos, v)"
  shows "pos < length (pq_heap q)" "pq_heap q ! pos = k" "pq_prio q pos = v"
proof -
  have "k \<in> set (pq_heap q)" using assms by (auto simp: pq_ok_def)
  then obtain i where i: "i < length (pq_heap q)" "pq_heap q ! i = k" by (auto simp: in_set_conv_nth)
  with pq_ok_read[OF assms(1)] assms(2) have "i = pos" "pq_prio q i = v" by fastforce+
  with i show "pos < length (pq_heap q)" "pq_heap q ! pos = k" "pq_prio q pos = v" by auto
qed

lemma pq_vals_dom: "pq_ok_except p q \<Longrightarrow> dom (pq_vals q) = set (pq_heap q)"
  by (simp add: pq_ok_except_def pq_vals_def dom_def)

lemma pq_vals_heap:
  assumes "pq_ok q"
  shows "pq_vals q k = Some v \<longleftrightarrow> (\<exists>i<length (pq_heap q). pq_heap q ! i = k \<and> pq_prio q i = v)"
  using pq_ok_read[OF assms] pq_ok_position[OF assms] by (fastforce simp: pq_vals_def)

lemma pq_read_priority [simp]:
  "pq_ok q \<Longrightarrow> i < length (pq_heap q) \<Longrightarrow> get_priority_from_position q i = Some (pq_prio q i)"
  by (simp add: get_priority_from_position_def vec_get_def pq_ok_read)

lemma vm_get_two_spec:
  "a \<noteq> b \<Longrightarrow> vm_map m a = Some x \<Longrightarrow> vm_map m b = Some y \<Longrightarrow> vm_get_two m a b = Some (x, y)"
  by (simp add: vm_get_two_def vm_many_spec)

lemma pq_prio_eqI:
  "pq_vals q' = pq_vals q \<Longrightarrow> pq_heap q' ! i = pq_heap q ! j \<Longrightarrow> pq_prio q' i = pq_prio q j"
  by (simp add: pq_prio_def)

text \<open>Exchanging two positions of a consistent queue.\<close>

lemma pq_swap_spec:
  assumes ok: "pq_ok q" and ab: "a < length (pq_heap q)" "b < length (pq_heap q)" "a \<noteq> b"
  obtains q' where "pq_swap q a b = Some q'" "pq_ok q'" "pq_vals q' = pq_vals q"
    "length (pq_heap q') = length (pq_heap q)"
    "\<And>k. k < length (pq_heap q) \<Longrightarrow> pq_prio q' k = ((pq_prio q)(a := pq_prio q b, b := pq_prio q a)) k"
proof -
  let ?h = "pq_heap q" and ?m = "pq_map q"
  define q' where "q' = q\<lparr>pq_heap := list_swap ?h a b,
    pq_map := vm_put (?h ! a) (b, pq_prio q a) (vm_put (?h ! b) (a, pq_prio q b) ?m)\<rparr>"
  have ra: "vm_map ?m (?h ! a) = Some (a, pq_prio q a)" and rb: "vm_map ?m (?h ! b) = Some (b, pq_prio q b)"
    using pq_ok_read[OF ok] ab by auto
  have ne: "?h ! a \<noteq> ?h ! b" using ok ab by (simp add: pq_ok_def nth_eq_iff_index_eq)
  have swap: "pq_swap q a b = Some q'"
    using ra rb ne ab
    by (simp add: pq_swap_def heap_get_two_def vm_get_two_spec list_swap_def q'_def)
  have heap': "pq_heap q' = list_swap ?h a b" by (simp add: q'_def)
  have m': "vm_map (pq_map q') =
      (vm_map ?m)(?h ! b \<mapsto> (a, pq_prio q b), ?h ! a \<mapsto> (b, pq_prio q a))"
    unfolding q'_def using ra rb by (simp add: vm_put_spec ne)
  have inv': "vm_inv (pq_map q')" unfolding q'_def using ok ra rb by (auto simp: pq_ok_def vm_put_spec ne)
  have vals: "pq_vals q' = pq_vals q"
    unfolding pq_vals_def m' using ra rb by (auto simp: fun_eq_iff)
  have nth: "\<And>k. k < length ?h \<Longrightarrow> pq_heap q' ! k = (if k = b then ?h ! a else if k = a then ?h ! b else ?h ! k)"
    unfolding heap' using ab by (simp add: nth_list_swap)
  have "map_option fst (vm_map (pq_map q') (pq_heap q' ! k)) = Some k" if "k < length ?h" for k
  proof -
    have "k \<noteq> a \<Longrightarrow> ?h ! k \<noteq> ?h ! a" "k \<noteq> b \<Longrightarrow> ?h ! k \<noteq> ?h ! b"
      using that ok ab by (auto simp: pq_ok_def nth_eq_iff_index_eq)
    then show ?thesis
      unfolding m' nth[OF that] using ne pq_ok_read[OF ok that] by auto
  qed
  moreover have "dom (vm_map (pq_map q')) = set (pq_heap q')"
    unfolding m' heap' using ok ab by (auto simp: pq_ok_def)
  ultimately have ok': "pq_ok q'" using ok ab inv' unfolding pq_ok_def heap' by simp
  have "pq_prio q' k = ((pq_prio q)(a := pq_prio q b, b := pq_prio q a)) k" if "k < length ?h" for k
    unfolding pq_prio_def vals nth[OF that] using ab by auto
  then show ?thesis using that swap ok' vals heap' by simp
qed

text \<open>One round of \<open>bubble_up\<close>.\<close>

lemma pq_bubble_step:
  assumes ok: "pq_ok_except p q" and p: "p < length (pq_heap q)" "0 < p"
    and ids: "ida = pq_heap q ! p" "idb = pq_heap q ! pq_parent p"
  defines "q' \<equiv> q\<lparr>pq_heap := (pq_heap q)[p := idb, pq_parent p := ida],
    pq_map := vm_put idb (p, pq_prio q (pq_parent p)) (pq_map q)\<rparr>"
  shows "pq_ok_except (pq_parent p) q'" "pq_vals q' = pq_vals q"
    "\<And>k. k < length (pq_heap q) \<Longrightarrow>
       pq_prio q' k = ((pq_prio q)(p := pq_prio q (pq_parent p), pq_parent p := pq_prio q p)) k"
proof -
  let ?h = "pq_heap q" and ?b = "pq_parent p"
  have b: "?b < length ?h" "?b < p" using p by (auto intro: pq_parent_less_n pq_parent_less)
  obtain pos where rb: "vm_map (pq_map q) idb = Some (pos, pq_prio q ?b)"
    using pq_ok_except_read[OF ok b(1)] ids by metis
  have heap': "pq_heap q' = list_swap ?h p ?b" by (simp add: q'_def ids list_swap_def)
  have m': "vm_map (pq_map q') = (vm_map (pq_map q))(idb \<mapsto> (p, pq_prio q ?b))"
    unfolding q'_def using rb by (simp add: vm_put_spec)
  have vals: "pq_vals q' = pq_vals q"
    unfolding pq_vals_def m' using rb by (auto simp: fun_eq_iff)
  have nth: "\<And>k. k < length ?h \<Longrightarrow> pq_heap q' ! k = (if k = ?b then ?h ! p else if k = p then ?h ! ?b else ?h ! k)"
    unfolding heap' using b p by (simp add: nth_list_swap)
  have "map_option fst (vm_map (pq_map q') (pq_heap q' ! k)) = Some k" if k: "k < length ?h" "k \<noteq> ?b" for k
  proof (cases "k = p")
    case False
    have "?h ! k \<noteq> idb" using ok k b unfolding ids by (simp add: pq_ok_except_def nth_eq_iff_index_eq)
    then show ?thesis using ok k False unfolding m' nth[OF k(1)] by (auto simp: pq_ok_except_def)
  qed (use nth[OF k(1)] b in \<open>auto simp: m' ids\<close>)
  moreover have "vm_inv (pq_map q')" unfolding q'_def using ok rb by (simp add: vm_put_spec pq_ok_except_def)
  moreover have "dom (vm_map (pq_map q')) = set (pq_heap q')"
    unfolding m' heap' using ok b p rb by (auto simp: pq_ok_except_def)
  ultimately show "pq_ok_except ?b q'" using ok b p unfolding pq_ok_except_def heap' by simp
  show "pq_vals q' = pq_vals q" by (rule vals)
  show "pq_prio q' k = ((pq_prio q)(p := pq_prio q ?b, ?b := pq_prio q p)) k" if "k < length ?h" for k
    unfolding pq_prio_def vals nth[OF that] by auto
qed

text \<open>The final write of \<open>bubble_up\<close> makes the queue consistent.\<close>

lemma pq_settle_position:
  assumes "pq_ok_except p q" "p < length (pq_heap q)" "vm_map (pq_map q) (pq_heap q ! p) = Some (j, v)"
  defines "q' \<equiv> q\<lparr>pq_map := vm_put (pq_heap q ! p) (p, v) (pq_map q)\<rparr>"
  shows "pq_ok q'" "pq_vals q' = pq_vals q" "pq_prio q' = pq_prio q"
proof -
  have m': "vm_map (pq_map q') = (vm_map (pq_map q))(pq_heap q ! p \<mapsto> (p, v))"
    and "vm_inv (pq_map q')"
    unfolding q'_def using assms by (simp_all add: vm_put_spec pq_ok_except_def)
  then show "pq_ok q'"
    using assms(1,2) unfolding pq_ok_def pq_ok_except_def
    by (auto simp: q'_def nth_eq_iff_index_eq)
  show "pq_vals q' = pq_vals q" using m' assms(3) by (auto simp: pq_vals_def fun_eq_iff)
  then show "pq_prio q' = pq_prio q" by (simp add: pq_prio_def fun_eq_iff q'_def)
qed

context priority_order
begin

text \<open>\<open>bubble_up\<close> always returns; the contents stay, and an exception at the start becomes an
  exception below the position it returns.\<close>

lemma bubble_loop_spec:
  assumes "pq_ok_except p q" "p < length (pq_heap q)"
  shows "\<exists>p' q'. pq_bubble_loop cmp q p = Some (p', q') \<and> p' < length (pq_heap q') \<and>
    pq_ok_except p' q' \<and> length (pq_heap q') = length (pq_heap q) \<and> pq_vals q' = pq_vals q \<and>
    (heap_except cmp (pq_prio q) (length (pq_heap q)) p \<longrightarrow>
     heap_except_below cmp (pq_prio q') (length (pq_heap q)) p') \<and>
    (heap_except_above cmp (pq_prio q) (length (pq_heap q)) p \<longrightarrow>
     heap_sorted cmp (pq_prio q') (length (pq_heap q)))"
  using assms
proof (induction p arbitrary: q rule: less_induct)
  case (less p)
  show ?case
  proof (cases "p = 0")
    case True
    then show ?thesis
      using less.prems heap_except_settled heap_except_above_settled
      by (subst pq_bubble_loop.simps) auto
  next
    case False
    let ?b = "pq_parent p" and ?h = "pq_heap q"
    have b: "?b < p" "?b < length ?h" using False less.prems by (auto simp: pq_parent_less pq_parent_less_n)
    obtain i where ra: "vm_map (pq_map q) (?h ! p) = Some (i, pq_prio q p)"
      using pq_ok_except_read[OF less.prems] by metis
    obtain j where rb: "vm_map (pq_map q) (?h ! ?b) = Some (j, pq_prio q ?b)"
      using pq_ok_except_read[OF less.prems(1) b(2)] by metis
    have ne: "?h ! p \<noteq> ?h ! ?b" using less.prems b by (simp add: pq_ok_except_def nth_eq_iff_index_eq)
    let ?q = "q\<lparr>pq_heap := ?h[p := ?h ! ?b, ?b := ?h ! p],
      pq_map := vm_put (?h ! ?b) (p, pq_prio q ?b) (pq_map q)\<rparr>"
    note step = pq_bubble_step[OF less.prems _ refl refl]
    have loop: "pq_bubble_loop cmp q p =
        (if cmp (pq_prio q ?b) (pq_prio q p) then pq_bubble_loop cmp ?q ?b else Some (p, q))"
      using False b less.prems ra rb ne
      by (subst pq_bubble_loop.simps) (simp add: heap_get_two_def vm_get_two_spec Let_def)
    show ?thesis
    proof (cases "cmp (pq_prio q ?b) (pq_prio q p)")
      case True
      have "heap_except cmp (pq_prio ?q) (length ?h) ?b =
          heap_except cmp ((pq_prio q)(p := pq_prio q ?b, ?b := pq_prio q p)) (length ?h) ?b"
        by (rule heap_cong(2)) (use step(3) False in blast)
      then have "heap_except cmp (pq_prio q) (length ?h) p \<longrightarrow> heap_except cmp (pq_prio ?q) (length ?h) ?b"
        using heap_except_up[OF _ _ less.prems(2) True] False by blast
      moreover have "heap_except_above cmp (pq_prio ?q) (length ?h) ?b =
          heap_except_above cmp ((pq_prio q)(p := pq_prio q ?b, ?b := pq_prio q p)) (length ?h) ?b"
        by (rule heap_cong(4)) (use step(3) False in blast)
      then have "heap_except_above cmp (pq_prio q) (length ?h) p \<longrightarrow> heap_except_above cmp (pq_prio ?q) (length ?h) ?b"
        using heap_except_above_up[OF _ _ less.prems(2) True] False by blast
      ultimately show ?thesis
        using less.IH[OF b(1) step(1)] step(2) False b True loop by auto
    next
      case False
      then show ?thesis using loop less.prems heap_except_settled heap_except_above_settled by auto
    qed
  qed
qed

lemma bubble_up_spec:
  assumes "pq_ok_except p q" "p < length (pq_heap q)"
  shows "\<exists>p' q'. pq_bubble_up cmp q p = Some (p', q') \<and> p' < length (pq_heap q') \<and>
    pq_ok q' \<and> length (pq_heap q') = length (pq_heap q) \<and> pq_vals q' = pq_vals q \<and>
    (heap_except cmp (pq_prio q) (length (pq_heap q)) p \<longrightarrow>
     heap_except_below cmp (pq_prio q') (length (pq_heap q)) p') \<and>
    (heap_except_above cmp (pq_prio q) (length (pq_heap q)) p \<longrightarrow>
     heap_sorted cmp (pq_prio q') (length (pq_heap q)))"
proof -
  from bubble_loop_spec[OF assms] obtain p' q' where
    l: "pq_bubble_loop cmp q p = Some (p', q')" "p' < length (pq_heap q')" "pq_ok_except p' q'"
      "length (pq_heap q') = length (pq_heap q)" "pq_vals q' = pq_vals q"
      "heap_except cmp (pq_prio q) (length (pq_heap q)) p \<longrightarrow>
       heap_except_below cmp (pq_prio q') (length (pq_heap q)) p'"
      "heap_except_above cmp (pq_prio q) (length (pq_heap q)) p \<longrightarrow>
       heap_sorted cmp (pq_prio q') (length (pq_heap q))" by blast
  obtain j where r: "vm_map (pq_map q') (pq_heap q' ! p') = Some (j, pq_prio q' p')"
    using pq_ok_except_read[OF l(3,2)] by metis
  show ?thesis
    using l r pq_settle_position[OF l(3,2) r] by (simp add: pq_bubble_up_def vec_get_def)
qed

text \<open>\<open>heapify\<close> picks the largest of a node and its children, always returns, and removes an
  exception below its argument.\<close>

lemma pick_largest:
  defines "c x l \<equiv> (if cmp x l then l else x)"
  shows "\<not> cmp (c x l) l" "\<not> cmp (c (c x l) r) l" "cmp (c x l) r \<Longrightarrow> cmp x r" "\<not> cmp (c (c x l) r) r"
proof -
  show c: "\<not> cmp (c x l) l" by (simp add: c_def)
  show "\<not> cmp (c (c x l) r) r" by (simp add: c_def)
  have cx: "\<not> cmp (c x l) x" by (simp add: c_def asym)
  show "\<not> cmp (c (c x l) r) l"
  proof (cases "cmp (c x l) r")
    case True
    have "\<not> cmp r l" by (rule neg_trans[OF asym[OF True] c])
    then show ?thesis using True by (simp add: c_def)
  qed (use c in \<open>simp add: c_def\<close>)
  show "cmp (c x l) r \<Longrightarrow> cmp x r" using neg_trans[OF cx] by blast
qed

lemma largest_spec:
  assumes ok: "pq_ok q" and i: "i < length (pq_heap q)"
  obtains k where "pq_largest cmp q i = Some k" "k = i \<or> k = pq_left i \<or> k = pq_right i"
    "k < length (pq_heap q)" "k \<noteq> i \<Longrightarrow> cmp (pq_prio q i) (pq_prio q k)"
    "\<And>j. j < length (pq_heap q) \<Longrightarrow> 0 < j \<Longrightarrow> pq_parent j = i \<Longrightarrow> \<not> cmp (pq_prio q k) (pq_prio q j)"
proof -
  let ?n = "length (pq_heap q)" and ?w = "pq_prio q"
  let ?c = "if cmp (?w i) (?w (pq_left i)) then pq_left i else i"
  let ?k = "if pq_left i < ?n then (if pq_right i < ?n \<and> cmp (?w ?c) (?w (pq_right i)) then pq_right i else ?c) else i"
  have "pq_largest cmp q i = Some ?k"
    using ok i by (auto simp: pq_largest_def Let_def)
  moreover have "?k \<noteq> i \<Longrightarrow> cmp (?w i) (?w ?k)"
    using pick_largest(3)[of "?w i" "?w (pq_left i)" "?w (pq_right i)"] by (auto split: if_splits)
  moreover have "\<not> cmp (?w ?k) (?w j)" if j: "j < ?n" "0 < j" "pq_parent j = i" for j
  proof -
    have "j = pq_left i \<or> j = pq_right i" using j(2,3) pq_child_cases by blast
    then show ?thesis
      using j(1) pq_child_greater(5)[of i] pick_largest(1)[of "?w i" "?w (pq_left i)"]
        pick_largest(2,4)[of "?w i" "?w (pq_left i)" "?w (pq_right i)"]
      by (auto split: if_splits)
  qed
  ultimately show ?thesis using that i by (auto split: if_splits)
qed

lemma heapify_loop_spec:
  assumes "pq_ok q" "i < length (pq_heap q)"
  shows "\<exists>q'. pq_heapify_loop cmp q i = Some q' \<and> pq_ok q' \<and> pq_vals q' = pq_vals q \<and>
    length (pq_heap q') = length (pq_heap q) \<and>
    (heap_except_below cmp (pq_prio q) (length (pq_heap q)) i \<longrightarrow> pq_inv cmp q')"
  using assms
proof (induction "length (pq_heap q) - i" arbitrary: q i rule: less_induct)
  case less
  let ?n = "length (pq_heap q)"
  from largest_spec[OF less.prems] obtain k where
    k: "pq_largest cmp q i = Some k" "k = i \<or> k = pq_left i \<or> k = pq_right i" "k < ?n"
      "k \<noteq> i \<Longrightarrow> cmp (pq_prio q i) (pq_prio q k)"
      "\<And>j. j < ?n \<Longrightarrow> 0 < j \<Longrightarrow> pq_parent j = i \<Longrightarrow> \<not> cmp (pq_prio q k) (pq_prio q j)" by blast
  show ?case
  proof (cases "k = i")
    case True
    then show ?thesis
      using k less.prems heap_below_done[of "pq_prio q" ?n i] 
      by (subst pq_heapify_loop.simps) (auto simp: pq_inv_def)
  next
    case False
    then have ki: "pq_parent k = i" "0 < k" "i < k" using k(2) pq_child_greater[of i] by auto
    from pq_swap_spec[OF less.prems k(3)] False obtain q1 where
      q1: "pq_swap q i k = Some q1" "pq_ok q1" "pq_vals q1 = pq_vals q" "length (pq_heap q1) = ?n"
        "\<And>j. j < ?n \<Longrightarrow> pq_prio q1 j = ((pq_prio q)(i := pq_prio q k, k := pq_prio q i)) j" by metis
    have "heap_except_below cmp (pq_prio q1) ?n k =
        heap_except_below cmp ((pq_prio q)(i := pq_prio q k, k := pq_prio q i)) ?n k"
      by (rule heap_cong(3)) (rule q1(5))
    then have "heap_except_below cmp (pq_prio q) ?n i \<longrightarrow> heap_except_below cmp (pq_prio q1) ?n k"
      using heap_except_down[OF _ k(3) ki(2,1) k(4)[OF False] k(5)] by blast
    moreover have "pq_heapify_loop cmp q i = pq_heapify_loop cmp q1 k"
      using k(1) q1(1) False by (subst pq_heapify_loop.simps) simp
    moreover have "length (pq_heap q1) - k < ?n - i" "k < length (pq_heap q1)"
      using q1(4) k(3) ki(3) less.prems by auto
    ultimately show ?thesis using less.hyps[OF _ q1(2)] q1(3,4) by metis
  qed
qed

lemma heap_sorted_small [simp]: "n \<le> 1 \<Longrightarrow> heap_sorted cmp w n"
  by (auto simp: heap_sorted_def)

lemma heapify_spec:
  assumes "pq_ok q" "i < length (pq_heap q) \<or> length (pq_heap q) = 0"
  shows "\<exists>q'. pq_heapify cmp q i = Some q' \<and> pq_ok q' \<and> pq_vals q' = pq_vals q \<and>
    length (pq_heap q') = length (pq_heap q) \<and>
    (heap_except_below cmp (pq_prio q) (length (pq_heap q)) i \<longrightarrow> pq_inv cmp q')"
  using heapify_loop_spec[OF assms(1)] assms by (auto simp: pq_heapify_def pq_inv_def)

lemma up_heapify_spec:
  assumes "pq_ok q" "i < length (pq_heap q)"
  shows "\<exists>q'. pq_up_heapify cmp q i = Some q' \<and> pq_ok q' \<and> pq_vals q' = pq_vals q \<and>
    length (pq_heap q') = length (pq_heap q) \<and>
    (heap_except cmp (pq_prio q) (length (pq_heap q)) i \<longrightarrow> pq_inv cmp q')"
proof -
  from bubble_up_spec[OF pq_ok_weaken[OF assms(1)] assms(2)] obtain p q1 where
    q1: "pq_bubble_up cmp q i = Some (p, q1)" "p < length (pq_heap q1)" "pq_ok q1"
      "length (pq_heap q1) = length (pq_heap q)" "pq_vals q1 = pq_vals q"
      "heap_except cmp (pq_prio q) (length (pq_heap q)) i \<longrightarrow>
       heap_except_below cmp (pq_prio q1) (length (pq_heap q)) p" by blast
  from heapify_spec[OF q1(3), of p] q1 show ?thesis by (auto simp: pq_up_heapify_def)
qed

end

subsection \<open>Removal and insertion\<close>

lemma pq_swap_remove_spec:
  assumes ok: "pq_ok q" and p: "p < length (pq_heap q)"
  obtains q' where "pq_swap_remove q p = Some ((pq_heap q ! p, pq_prio q p), q')" "pq_ok q'"
    "pq_vals q' = (pq_vals q)(pq_heap q ! p := None)" "length (pq_heap q') = length (pq_heap q) - 1"
    "\<And>k. k < length (pq_heap q) - 1 \<Longrightarrow>
       pq_prio q' k = (if k = p then pq_prio q (length (pq_heap q) - 1) else pq_prio q k)"
proof -
  let ?h = "pq_heap q" and ?m = "pq_map q"
  let ?n = "length ?h" let ?l = "?n - 1" let ?id = "?h ! p" and ?new = "?h ! ?l"
  have l: "?l < ?n" and h: "?h \<noteq> []" using p by auto
  have rl: "vm_map ?m ?new = Some (?l, pq_prio q ?l)" and rp: "vm_map ?m ?id = Some (p, pq_prio q p)"
    using pq_ok_read[OF ok] l p by auto
  have dist: "i < ?n \<Longrightarrow> j < ?n \<Longrightarrow> ?h ! i = ?h ! j \<longleftrightarrow> i = j" for i j
    using ok by (simp add: pq_ok_def nth_eq_iff_index_eq)
  define m1 where "m1 = vm_put ?new (p, pq_prio q ?l) ?m"
  have m1: "vm_map m1 = (vm_map ?m)(?new \<mapsto> (p, pq_prio q ?l))" "vm_inv m1"
    using rl ok by (simp_all add: m1_def vm_put_spec pq_ok_def)
  have r1: "vm_map m1 ?id = Some (p, pq_prio q p)"
    using m1 rp dist[OF p l] by auto
  define q' where "q' = q\<lparr>pq_heap := butlast (?h[p := last ?h]), pq_map := snd (vm_remove m1 ?id)\<rparr>"
  have us: "usize_sub ?n (Suc 0) = ?n - Suc 0" by (rule usize_sub_le) (use p in linarith)
  have run: "pq_swap_remove q p = Some ((?id, pq_prio q p), q')"
    using l p rl vm_remove_unchecked_spec[OF r1]
    by (simp add: pq_swap_remove_def Let_def vec_get_def vec_swap_remove_Some m1_def q'_def us)
  have m': "vm_map (pq_map q') = (vm_map ?m)(?new \<mapsto> (p, pq_prio q ?l), ?id := None)"
    by (simp add: q'_def vm_remove_spec m1)
  have heap': "pq_heap q' = butlast (?h[p := last ?h])" by (simp add: q'_def)
  have nth: "\<And>k. k < ?l \<Longrightarrow> pq_heap q' ! k = (if k = p then ?new else ?h ! k)"
    unfolding heap' last_conv_nth[OF h, symmetric] using p by (simp add: nth_swap_removed)
  note sr = distinct_swap_removed[OF _ p]
  have set': "distinct (pq_heap q')" "set (pq_heap q') = set ?h - {?id}"
    unfolding heap' using sr ok by (auto simp: pq_ok_def)
  have vals: "pq_vals q' = (pq_vals q)(?id := None)"
    unfolding pq_vals_def m' using rl by (auto simp: fun_eq_iff)
  have "map_option fst (vm_map (pq_map q') (pq_heap q' ! k)) = Some k" if k: "k < ?l" for k
  proof (cases "k = p")
    case True
    then have "?new \<noteq> ?id" using dist[OF l p] k by auto
    then show ?thesis using True nth[OF k] m' by auto
  next
    case False
    then show ?thesis using dist[of k p] dist[of k ?l] k p nth[OF k] m' pq_ok_read[OF ok, of k] by auto
  qed
  moreover have "dom (vm_map (pq_map q')) = set (pq_heap q')"
    unfolding m' set'(2) using ok l h by (auto simp: pq_ok_def)
  moreover have "vm_inv (pq_map q')" using m1(2) by (simp add: q'_def vm_remove_spec)
  ultimately have ok': "pq_ok q'" using set'(1) unfolding pq_ok_def by (simp add: heap')
  have "pq_prio q' k = (if k = p then pq_prio q ?l else pq_prio q k)" if k: "k < ?l" for k
  proof -
    have "?h ! k \<noteq> ?id" if "k \<noteq> p" using dist[of k p] k p that by auto
    moreover have "?new \<noteq> ?id" if "k = p" using dist[OF l p] k that by auto
    ultimately show ?thesis unfolding pq_prio_def vals nth[OF k] by auto
  qed
  then show ?thesis using that run ok' vals by (simp add: heap')
qed

text \<open>Writing a new value at its place, and appending a new identifier.\<close>

lemma pq_put_spec:
  fixes v :: 'v
  assumes ok: "pq_ok q" and r: "vm_map (pq_map q) k = Some (pos, old)"
  defines "q' \<equiv> q\<lparr>pq_map := vm_put k (pos, v) (pq_map q)\<rparr>"
  shows "pq_ok q'" "pq_vals q' = (pq_vals q)(k \<mapsto> v)" "pq_heap q' = pq_heap q"
    "\<And>i. i < length (pq_heap q) \<Longrightarrow> pq_prio q' i = (if i = pos then v else pq_prio q i)"
proof -
  note pos = pq_ok_position[OF ok r]
  show heap: "pq_heap q' = pq_heap q" by (simp add: q'_def)
  have m': "vm_map (pq_map q') = (vm_map (pq_map q))(k \<mapsto> (pos, v))"
    using r by (simp add: q'_def vm_put_spec)
  then show vals: "pq_vals q' = (pq_vals q)(k \<mapsto> v)" by (auto simp: pq_vals_def fun_eq_iff)
  have "vm_inv (pq_map q')" using ok r by (simp add: q'_def vm_put_spec pq_ok_def)
  then show "pq_ok q'"
    using ok pos pq_ok_read[OF ok] m' unfolding pq_ok_def heap
    by (auto simp: nth_eq_iff_index_eq)
  show "pq_prio q' i = (if i = pos then v else pq_prio q i)" if i: "i < length (pq_heap q)" for i
  proof -
    have "pq_heap q ! i = k \<longleftrightarrow> i = pos"
      using ok pos i by (auto simp: pq_ok_def nth_eq_iff_index_eq)
    then show ?thesis using pos unfolding pq_prio_def vals heap by auto
  qed
qed

lemma pq_append_spec:
  fixes v :: 'v
  assumes ok: "pq_ok q" and r: "vm_map (pq_map q) k = None"
  defines "q' \<equiv> q\<lparr>pq_heap := pq_heap q @ [k],
    pq_map := snd (vm_insert (pq_map q) k (length (pq_heap q), v))\<rparr>"
  shows "pq_ok q'" "pq_vals q' = (pq_vals q)(k \<mapsto> v)" "pq_heap q' = pq_heap q @ [k]"
    "\<And>i. i < length (pq_heap q) \<Longrightarrow> pq_prio q' i = pq_prio q i"
proof -
  show heap: "pq_heap q' = pq_heap q @ [k]" by (simp add: q'_def)
  have m': "vm_map (pq_map q') = (vm_map (pq_map q))(k \<mapsto> (length (pq_heap q), v))"
    by (simp add: q'_def vm_insert_spec)
  then show vals: "pq_vals q' = (pq_vals q)(k \<mapsto> v)" by (auto simp: pq_vals_def fun_eq_iff)
  have k: "k \<notin> set (pq_heap q)" using ok r by (auto simp: pq_ok_def)
  then have ne: "i < length (pq_heap q) \<Longrightarrow> pq_heap q ! i \<noteq> k" for i by auto
  have "vm_inv (pq_map q')" using ok by (simp add: q'_def vm_insert_spec pq_ok_def)
  then show "pq_ok q'"
    using ok k ne m' unfolding pq_ok_def heap by (auto simp: nth_append less_Suc_eq)
  show "pq_prio q' i = pq_prio q i" if "i < length (pq_heap q)" for i
    using that ne unfolding pq_prio_def vals heap by (simp add: nth_append)
qed

section \<open>The contract\<close>

text \<open>What a client of the queue relies on: the contents are a partial function, and the head is
  an entry that no other one exceeds.\<close>

locale priority_queue_contract = priority_order cmp
  for cmp :: "'v \<Rightarrow> 'v \<Rightarrow> bool" +
  fixes inv :: "'q \<Rightarrow> bool"
    and vals :: "'q \<Rightarrow> nat \<Rightarrow> 'v option"
    and new :: "'q"
    and push :: "'q \<Rightarrow> nat \<Rightarrow> 'v \<Rightarrow> ('v option \<times> 'q) option"
    and pop :: "'q \<Rightarrow> ((nat \<times> 'v) option \<times> 'q) option"
    and remove :: "'q \<Rightarrow> nat \<Rightarrow> ((nat \<times> 'v) option \<times> 'q) option"
  assumes new_inv: "inv new"
    and new_vals: "vals new = Map.empty"
    and fin_law: "inv q \<Longrightarrow> finite (dom (vals q))"
    and push_law: "inv q \<Longrightarrow>
      \<exists>q'. push q k v = Some (vals q k, q') \<and> inv q' \<and> vals q' = (vals q)(k \<mapsto> v)"
    and pop_empty_law: "inv q \<Longrightarrow> vals q = Map.empty \<Longrightarrow> pop q = Some (None, q)"
    and pop_law: "inv q \<Longrightarrow> vals q \<noteq> Map.empty \<Longrightarrow>
      \<exists>k v q'. pop q = Some (Some (k, v), q') \<and> vals q k = Some v \<and>
        (\<forall>j u. vals q j = Some u \<longrightarrow> \<not> cmp v u) \<and> inv q' \<and> vals q' = (vals q)(k := None)"
    and remove_law: "inv q \<Longrightarrow>
      \<exists>q'. remove q k = Some (map_option (Pair k) (vals q k), q') \<and> inv q' \<and>
        vals q' = (vals q)(k := None)"

text \<open>\<open>while let Some(x) = queue.pop()\<close>, with a bound on the number of rounds: \<open>None\<close> when the
  bound is too small.\<close>

fun pop_all :: "('q \<Rightarrow> ((nat \<times> 'v) option \<times> 'q) option) \<Rightarrow> nat \<Rightarrow> 'q \<Rightarrow> ((nat \<times> 'v) list \<times> 'q) option" where
  "pop_all pop 0 q = None"
| "pop_all pop (Suc fuel) q =
     do {
       (r, q) \<leftarrow> pop q;
       case r of
         None \<Rightarrow> Some ([], q)
       | Some x \<Rightarrow> do { (xs, q) \<leftarrow> pop_all pop fuel q; Some (x # xs, q) }
     }"

fun push_all :: "('q \<Rightarrow> nat \<Rightarrow> 'v \<Rightarrow> ('v option \<times> 'q) option) \<Rightarrow> (nat \<times> 'v) list \<Rightarrow> 'q \<Rightarrow> 'q option" where
  "push_all push [] q = Some q"
| "push_all push ((k, v) # kvs) q = do { (_, q) \<leftarrow> push q k v; push_all push kvs q }"

context priority_queue_contract
begin

lemma push_all_spec:
  "inv q \<Longrightarrow> \<exists>q'. push_all push kvs q = Some q' \<and> inv q' \<and> vals q' = vals q ++ map_of (rev kvs)"
proof (induction kvs arbitrary: q)
  case Nil
  then show ?case by simp
next
  case (Cons kv kvs)
  obtain k v where kv: "kv = (k, v)" by (cases kv)
  from push_law[OF Cons.prems, of k v] obtain q1
    where q1: "push q k v = Some (vals q k, q1)" "inv q1" "vals q1 = (vals q)(k \<mapsto> v)" by blast
  have "vals q1 ++ map_of (rev kvs) = vals q ++ map_of (rev (kv # kvs))"
    unfolding q1(3) kv by (simp add: fun_upd_def map_add_def fun_eq_iff split: option.split)
  with Cons.IH[OF q1(2)] q1(1) kv show ?case by auto
qed

text \<open>Popping until the queue is empty returns every entry once, largest first.\<close>

lemma pop_all_spec:
  assumes "inv q" "card (dom (vals q)) < fuel"
  shows "\<exists>xs q'. pop_all pop fuel q = Some (xs, q') \<and> inv q' \<and> vals q' = Map.empty \<and>
    map_of xs = vals q \<and> distinct (map fst xs) \<and> sorted_wrt (\<lambda>a b. \<not> cmp (snd a) (snd b)) xs"
  using assms
proof (induction fuel arbitrary: q)
  case (Suc fuel)
  show ?case
  proof (cases "vals q = Map.empty")
    case True
    then show ?thesis using pop_empty_law[OF Suc.prems(1)] Suc.prems by simp
  next
    case False
    from pop_law[OF Suc.prems(1) False] obtain k v q1 where
      q1: "pop q = Some (Some (k, v), q1)" "vals q k = Some v" "\<forall>j u. vals q j = Some u \<longrightarrow> \<not> cmp v u"
        "inv q1" "vals q1 = (vals q)(k := None)" by blast
    have "card (dom (vals q1)) < card (dom (vals q))"
      unfolding q1(5) dom_fun_upd using q1(2) fin_law[OF Suc.prems(1)]
      by (auto intro!: psubset_card_mono)
    then have "card (dom (vals q1)) < fuel" using Suc.prems(2) by linarith
    from Suc.IH[OF q1(4) this] obtain xs q2 where
      xs: "pop_all pop fuel q1 = Some (xs, q2)" "inv q2" "vals q2 = Map.empty" "map_of xs = vals q1"
        "distinct (map fst xs)" "sorted_wrt (\<lambda>a b. \<not> cmp (snd a) (snd b)) xs" by blast
    have "\<not> cmp v u" if "(j, u) \<in> set xs" for j u
    proof -
      have "vals q1 j = Some u" using that xs(4,5) by (metis map_of_eq_Some_iff)
      then show ?thesis using q1(3) unfolding q1(5) by (auto split: if_splits)
    qed
    moreover have "k \<notin> fst ` set xs"
      using xs(4) q1(5) by (metis fun_upd_same map_of_eq_None_iff)
    moreover have "map_of ((k, v) # xs) = vals q" using xs(4) q1(2,5) by (auto simp: fun_eq_iff)
    ultimately show ?thesis using q1(1) xs by force
  qed
qed simp

lemma push_all_pop_all:
  assumes "length kvs < fuel"
  shows "\<exists>q xs q'. push_all push kvs new = Some q \<and> pop_all pop fuel q = Some (xs, q') \<and>
    vals q' = Map.empty \<and> map_of xs = map_of (rev kvs) \<and> distinct (map fst xs) \<and>
    sorted_wrt (\<lambda>a b. \<not> cmp (snd a) (snd b)) xs"
proof -
  from push_all_spec[OF new_inv, of kvs] obtain q
    where q: "push_all push kvs new = Some q" "inv q" "vals q = map_of (rev kvs)"
    by (auto simp: new_vals)
  have "dom (vals q) = set (map fst kvs)" by (simp add: q(3) dom_map_of_conv_image_fst)
  then have "card (dom (vals q)) \<le> length kvs" by (metis card_length length_map)
  then have "card (dom (vals q)) < fuel" using assms by linarith
  from pop_all_spec[OF q(2) this] q show ?thesis by auto
qed

end

section \<open>The queue meets the contract\<close>

context priority_order
begin

lemma update_at_spec:
  assumes inv: "pq_inv cmp q" and r: "vm_map (pq_map q) k = Some (pos, old)"
  shows "\<exists>q'. pq_up_heapify cmp (q\<lparr>pq_map := vm_put k (pos, v) (pq_map q)\<rparr>) pos = Some q' \<and>
    pq_inv cmp q' \<and> pq_vals q' = (pq_vals q)(k \<mapsto> v)"
proof -
  let ?q = "q\<lparr>pq_map := vm_put k (pos, v) (pq_map q)\<rparr>"
  from inv have ok: "pq_ok q" and hs: "heap_sorted cmp (pq_prio q) (length (pq_heap q))"
    by (auto simp: pq_inv_def)
  note put = pq_put_spec[OF ok r, where v = v] and pos = pq_ok_position[OF ok r]
  have "heap_except cmp (pq_prio ?q) (length (pq_heap q)) pos"
    by (rule heap_sorted_update[OF hs _ pos(1)]) (simp add: put(4))
  then show ?thesis using up_heapify_spec[OF put(1), of pos] pos(1) put(2,3) by auto
qed

lemma push_spec:
  assumes inv: "pq_inv cmp q"
  shows "\<exists>q'. pq_push cmp q k v = Some (pq_vals q k, q') \<and> pq_inv cmp q' \<and>
    pq_vals q' = (pq_vals q)(k \<mapsto> v)"
proof (cases "vm_map (pq_map q) k")
  case (Some x)
  then obtain pos old where x: "vm_map (pq_map q) k = Some (pos, old)" by (cases x) auto
  then show ?thesis using update_at_spec[OF inv x, of v] by (auto simp: pq_push_def pq_vals_def)
next
  case None
  from inv have ok: "pq_ok q" and hs: "heap_sorted cmp (pq_prio q) (length (pq_heap q))"
    by (auto simp: pq_inv_def)
  let ?n = "length (pq_heap q)"
  let ?q = "q\<lparr>pq_heap := pq_heap q @ [k], pq_map := snd (vm_insert (pq_map q) k (?n, v))\<rparr>"
  note app = pq_append_spec[OF ok None, where v = v]
  have "heap_except_above cmp (pq_prio ?q) (Suc ?n) ?n"
    unfolding heap_except_above_def
  proof (intro allI impI conjI)
    fix j assume j: "j < Suc ?n" "0 < j"
    then show "\<not> cmp (pq_prio ?q (pq_parent j)) (pq_prio ?q j)" if "j \<noteq> ?n"
      using hs app(4) that unfolding heap_sorted_def by (simp add: pq_parent_less_n)
    show "\<not> cmp (pq_prio ?q (pq_parent ?n)) (pq_prio ?q j)" if "pq_parent j = ?n"
      using that j pq_parent_less[of j] by simp
  qed
  then show ?thesis
    using bubble_up_spec[OF pq_ok_weaken[OF app(1)], of ?n] app(2,3) None
    by (auto simp: pq_push_def Let_def case_prod_beta pq_inv_def pq_vals_def)
qed

lemma root_spec:
  assumes inv: "pq_inv cmp q" and ne: "pq_heap q \<noteq> []"
  shows "pq_vals q (pq_heap q ! 0) = Some (pq_prio q 0)"
    "pq_vals q j = Some u \<Longrightarrow> \<not> cmp (pq_prio q 0) u"
proof -
  from inv have ok: "pq_ok q" and hs: "heap_sorted cmp (pq_prio q) (length (pq_heap q))"
    by (auto simp: pq_inv_def)
  show "pq_vals q (pq_heap q ! 0) = Some (pq_prio q 0)"
    using pq_ok_read[OF ok, of 0] ne by (simp add: pq_vals_def)
  show "pq_vals q j = Some u \<Longrightarrow> \<not> cmp (pq_prio q 0) u"
    unfolding pq_vals_heap[OF ok] using heap_root[OF hs] by auto
qed

lemma pop_spec:
  assumes inv: "pq_inv cmp q" and ne: "pq_heap q \<noteq> []"
  shows "\<exists>q'. pq_pop cmp q = Some (Some (pq_heap q ! 0, pq_prio q 0), q') \<and> pq_inv cmp q' \<and>
    pq_vals q' = (pq_vals q)(pq_heap q ! 0 := None)"
proof -
  let ?n = "length (pq_heap q)"
  from inv have ok: "pq_ok q" and hs: "heap_sorted cmp (pq_prio q) ?n"
    by (auto simp: pq_inv_def)
  from ne have "0 < ?n" by simp
  from pq_swap_remove_spec[OF ok this] obtain q1 where
    q1: "pq_swap_remove q 0 = Some ((pq_heap q ! 0, pq_prio q 0), q1)" "pq_ok q1"
      "pq_vals q1 = (pq_vals q)(pq_heap q ! 0 := None)" "length (pq_heap q1) = ?n - 1"
      "\<And>k. k < ?n - 1 \<Longrightarrow> pq_prio q1 k = (if k = 0 then pq_prio q (?n - 1) else pq_prio q k)" by blast
  have "heap_except_below cmp (pq_prio q1) (?n - 1) 0"
    unfolding heap_except_below_def
    using hs q1(5) pq_parent_less_n[of _ "?n - 1"] unfolding heap_sorted_def by auto
  moreover have "0 < length (pq_heap q1) \<or> length (pq_heap q1) = 0" by blast
  ultimately show ?thesis
    using heapify_spec[OF q1(2), of 0] q1 ne by (auto simp: pq_pop_def)
qed

lemma remove_spec:
  assumes inv: "pq_inv cmp q"
  shows "\<exists>q'. pq_remove cmp q k = Some (map_option (Pair k) (pq_vals q k), q') \<and> pq_inv cmp q' \<and>
    pq_vals q' = (pq_vals q)(k := None)"
proof (cases "vm_map (pq_map q) k")
  case None
  then show ?thesis using inv by (auto simp: pq_remove_def pq_vals_def fun_eq_iff)
next
  case (Some x)
  then obtain p v where r: "vm_map (pq_map q) k = Some (p, v)" by (cases x) auto
  let ?n = "length (pq_heap q)"
  from inv have ok: "pq_ok q" and hs: "heap_sorted cmp (pq_prio q) ?n"
    by (auto simp: pq_inv_def)
  note pos = pq_ok_position[OF ok r]
  from pq_swap_remove_spec[OF ok pos(1)] pos obtain q1 where
    q1: "pq_swap_remove q p = Some ((k, v), q1)" "pq_ok q1"
      "pq_vals q1 = (pq_vals q)(k := None)" "length (pq_heap q1) = ?n - 1"
      "\<And>i. i < ?n - 1 \<Longrightarrow> pq_prio q1 i = (if i = p then pq_prio q (?n - 1) else pq_prio q i)" by metis
  have hs': "heap_sorted cmp (pq_prio q) (?n - 1)" using hs unfolding heap_sorted_def by simp
  show ?thesis
  proof (cases "p < ?n - 1")
    case True
    have "heap_except cmp (pq_prio q1) (?n - 1) p"
      by (rule heap_sorted_update[OF hs' _ True]) (simp add: q1(5))
    then show ?thesis
      using up_heapify_spec[OF q1(2), of p] True q1 r by (auto simp: pq_remove_def pq_vals_def)
  next
    case False
    then have "heap_sorted cmp (pq_prio q1) (?n - 1) = heap_sorted cmp (pq_prio q) (?n - 1)"
      by (intro heap_cong(1)) (simp add: q1(5))
    then show ?thesis using False hs' q1 r by (auto simp: pq_remove_def pq_inv_def pq_vals_def)
  qed
qed

lemma change_priority_spec:
  assumes inv: "pq_inv cmp q"
  shows "\<exists>q'. pq_change_priority_by cmp q k f = Some (pq_vals q k \<noteq> None, q') \<and> pq_inv cmp q' \<and>
      pq_vals q' = (pq_vals q)(k := map_option f (pq_vals q k))"
    "\<exists>q'. pq_change_priority cmp q k v = Some (pq_vals q k, q') \<and> pq_inv cmp q' \<and>
      pq_vals q' = (pq_vals q)(k := map_option (\<lambda>_. v) (pq_vals q k))"
proof -
  have id: "pq_vals q k = None \<Longrightarrow> pq_vals q = (pq_vals q)(k := None)" by (simp add: fun_upd_idem)
  show "\<exists>q'. pq_change_priority_by cmp q k f = Some (pq_vals q k \<noteq> None, q') \<and> pq_inv cmp q' \<and>
      pq_vals q' = (pq_vals q)(k := map_option f (pq_vals q k))"
    using update_at_spec[OF inv, of k] id inv
    by (cases "vm_map (pq_map q) k") (force simp: pq_change_priority_by_def pq_vals_def)+
  show "\<exists>q'. pq_change_priority cmp q k v = Some (pq_vals q k, q') \<and> pq_inv cmp q' \<and>
      pq_vals q' = (pq_vals q)(k := map_option (\<lambda>_. v) (pq_vals q k))"
    using update_at_spec[OF inv, of k] id inv
    by (cases "vm_map (pq_map q) k") (force simp: pq_change_priority_def pq_vals_def)+
qed

lemma new_spec: "pq_inv cmp pq_new" "pq_vals pq_new = Map.empty"
  by (auto simp: pq_inv_def pq_ok_def pq_new_def pq_vals_def fun_eq_iff)

lemma empty_iff: "pq_inv cmp q \<Longrightarrow> pq_vals q = Map.empty \<longleftrightarrow> pq_heap q = []"
  using pq_vals_dom[OF pq_ok_weaken, of q] by (auto simp: pq_inv_def)

end

sublocale priority_order \<subseteq> pq: priority_queue_contract cmp "pq_inv cmp" pq_vals pq_new
  "pq_push cmp" "pq_pop cmp" "pq_remove cmp"
proof (unfold_locales, goal_cases)
  case (3 q)
  then show ?case by (simp add: pq_inv_def pq_vals_dom[OF pq_ok_weaken])
next
  case (4 q k v)
  then show ?case by (rule push_spec)
next
  case (5 q)
  then show ?case by (simp add: empty_iff pq_pop_def)
next
  case (6 q)
  then show ?case using pop_spec[of q] root_spec[of q] empty_iff[of q] by metis
next
  case (7 q k)
  then show ?case by (rule remove_spec)
qed (rule new_spec)+

text \<open>The two orders on integers.\<close>

interpretation max_order: priority_order "cmp_priority Max_Order (int_partial_cmp :: 'a::linorder \<Rightarrow> _)"
  by unfold_locales (auto simp: cmp_priority_def int_partial_cmp_def split: if_splits)

interpretation min_order: priority_order "cmp_priority Min_Order (int_partial_cmp :: 'a::linorder \<Rightarrow> _)"
  by unfold_locales (auto simp: cmp_priority_def int_partial_cmp_def split: if_splits)

section \<open>The guards and \<open>map\<close>\<close>

context priority_order
begin

lemma update_peek_spec:
  assumes inv: "pq_inv cmp q"
  shows "\<exists>q'. pq_update_peek cmp q f = Some q' \<and> pq_inv cmp q' \<and>
    pq_vals q' = (if pq_heap q = [] then pq_vals q
      else (pq_vals q)(pq_heap q ! 0 \<mapsto> f (pq_prio q 0)))"
proof (cases "pq_heap q = []")
  case True
  then show ?thesis using inv by (simp add: pq_update_peek_def pq_peek_mut_def vec_get_def)
next
  case False
  let ?n = "length (pq_heap q)" and ?v = "f (pq_prio q 0)"
  let ?q = "q\<lparr>pq_map := vm_put (pq_heap q ! 0) (0, ?v) (pq_map q)\<rparr>"
  from inv have ok: "pq_ok q" and hs: "heap_sorted cmp (pq_prio q) ?n" by (auto simp: pq_inv_def)
  have r: "vm_map (pq_map q) (pq_heap q ! 0) = Some (0, pq_prio q 0)" using pq_ok_read[OF ok] False by simp
  note put = pq_put_spec[OF ok r, where v = ?v]
  have "heap_except cmp (pq_prio ?q) ?n 0"
    by (rule heap_sorted_update[OF hs]) (use put(4) False in auto)
  then have "heap_except_below cmp (pq_prio ?q) ?n 0" by (rule heap_except_settled) simp
  then show ?thesis
    using heapify_spec[OF put(1), of 0] put(2,3) False r
    by (auto simp: pq_update_peek_def pq_peek_mut_def vec_get_def guard_deref_mut_def peek_mut_drop_def)
qed

text \<open>Dropping a \<open>RefMut\<close> only sifts down: the order survives when the new value does not exceed the
  old one.\<close>

lemma update_spec:
  assumes inv: "pq_inv cmp q"
  shows "\<exists>q'. pq_update cmp q k f = Some q' \<and> pq_ok q' \<and>
    pq_vals q' = (pq_vals q)(k := map_option f (pq_vals q k)) \<and>
    ((\<forall>v. pq_vals q k = Some v \<longrightarrow> \<not> cmp v (f v)) \<longrightarrow> pq_inv cmp q')"
proof (cases "vm_map (pq_map q) k")
  case None
  then have "k \<notin> dom (vm_map (pq_map q))" by auto
  then show ?thesis
    using inv None by (auto simp: pq_update_def pq_get_mut_def pq_inv_def pq_vals_def fun_eq_iff)
next
  case (Some x)
  then obtain p v where r: "vm_map (pq_map q) k = Some (p, v)" by (cases x) auto
  let ?n = "length (pq_heap q)"
  let ?q = "q\<lparr>pq_map := vm_put k (p, f v) (pq_map q)\<rparr>"
  from inv have ok: "pq_ok q" and hs: "heap_sorted cmp (pq_prio q) ?n" by (auto simp: pq_inv_def)
  note put = pq_put_spec[OF ok r, where v = "f v"] and pos = pq_ok_position[OF ok r]
  have E: "heap_except cmp (pq_prio ?q) ?n p"
    by (rule heap_sorted_update[OF hs _ pos(1)]) (simp add: put(4))
  have B: "heap_except_below cmp (pq_prio ?q) ?n p" if "\<not> cmp v (f v)"
  proof (rule heap_except_settled[OF E])
    have "0 < p \<Longrightarrow> \<not> cmp (pq_prio q (pq_parent p)) v"
      using hs pos unfolding heap_sorted_def by metis
    then have "0 < p \<Longrightarrow> \<not> cmp (pq_prio q (pq_parent p)) (f v)" using that neg_trans by blast
    then show "p = 0 \<or> \<not> cmp (pq_prio ?q (pq_parent p)) (pq_prio ?q p)"
      using put(4) pos(1) pq_parent_less[of p] pq_parent_less_n[OF pos(1)] by auto
  qed
  have "vm_map (pq_map ?q) k = Some (p, f v)" using r by (simp add: vm_put_spec)
  then show ?thesis
    using heapify_spec[OF put(1), of p] put(2,3) B pos(1) r
    by (auto simp: pq_update_def pq_get_mut_def guard_deref_mut_def ref_mut_drop_def pq_vals_def)
qed

lemma up_heapify_range_spec:
  "pq_ok q \<Longrightarrow> \<forall>i \<in> set is. i < length (pq_heap q) \<Longrightarrow>
   \<exists>q'. pq_up_heapify_range cmp is q = Some q' \<and> pq_ok q' \<and> pq_vals q' = pq_vals q \<and>
     (heap_sorted cmp (pq_prio q) (length (pq_heap q)) \<longrightarrow> pq_inv cmp q')"
proof (induction "is" arbitrary: q)
  case Nil
  then show ?case by (simp add: pq_inv_def)
next
  case (Cons i "is")
  from Cons.prems up_heapify_spec[of q i] obtain q1 where
    q1: "pq_up_heapify cmp q i = Some q1" "pq_ok q1" "pq_vals q1 = pq_vals q"
      "length (pq_heap q1) = length (pq_heap q)"
      "heap_except cmp (pq_prio q) (length (pq_heap q)) i \<longrightarrow> pq_inv cmp q1" by auto
  have "heap_sorted cmp (pq_prio q) (length (pq_heap q)) \<longrightarrow> heap_except cmp (pq_prio q) (length (pq_heap q)) i"
    using heap_sorted_update[where w = "pq_prio q" and w' = "pq_prio q"] Cons.prems by simp
  then have "heap_sorted cmp (pq_prio q) (length (pq_heap q)) \<longrightarrow> heap_sorted cmp (pq_prio q1) (length (pq_heap q1))"
    using q1(5) by (simp add: pq_inv_def)
  then show ?case using Cons.IH[OF q1(2)] Cons.prems(2) q1(1,3,4) by auto
qed

lemma map_values_spec:
  assumes ok: "pq_ok q"
  shows "\<exists>q'. pq_map_values cmp q f = Some q' \<and> pq_ok q' \<and> pq_vals q' = map_option f \<circ> pq_vals q \<and>
    (pq_inv cmp q \<longrightarrow> (\<forall>x y. cmp (f x) (f y) \<longrightarrow> cmp x y) \<longrightarrow> pq_inv cmp q')"
proof -
  let ?q = "q\<lparr>pq_map := vm_iter_mut (\<lambda>(pos, value). (pos, f value)) (pq_map q)\<rparr>"
  have m: "vm_map (pq_map ?q) = map_option (\<lambda>(pos, value). (pos, f value)) \<circ> vm_map (pq_map q)"
    by (simp add: vm_iter_mut_spec)
  have vals: "pq_vals ?q = map_option f \<circ> pq_vals q"
    unfolding pq_vals_def m by (auto simp: fun_eq_iff option.map_comp comp_def case_prod_beta)
  have "vm_inv (pq_map ?q)" using ok by (simp add: vm_iter_mut_spec pq_ok_def)
  then have ok': "pq_ok ?q"
    using ok unfolding pq_ok_def m by (auto simp: option.map_comp comp_def case_prod_beta dom_def)
  have prio: "pq_prio ?q i = f (pq_prio q i)" if "i < length (pq_heap q)" for i
  proof -
    have "\<exists>y. pq_vals q (pq_heap q ! i) = Some y" using pq_ok_read[OF ok that] by (simp add: pq_vals_def)
    then show ?thesis unfolding pq_prio_def vals by auto
  qed
  have "heap_sorted cmp (pq_prio ?q) (length (pq_heap q))"
    if "pq_inv cmp q" "\<forall>x y. cmp (f x) (f y) \<longrightarrow> cmp x y"
    using that prio pq_parent_less_n unfolding heap_sorted_def pq_inv_def by metis
  then show ?thesis
    using up_heapify_range_spec[OF ok', of "[0..<length (pq_heap q)]"] vals
    by (auto simp: pq_map_values_def Let_def)
qed

text \<open>The clients write values through the guards that may rise, so all they can rely on between
  two operations is that the vectors are consistent. The same specifications without the heap
  order:\<close>

lemma ref_mut_scope_absent:
  "pq_vals q k = None \<Longrightarrow> ref_mut_scope cmp q k body = Some (None, q)"
  by (auto simp: ref_mut_scope_def pq_get_mut_def pq_vals_def)

lemma ref_mut_scope_panics:
  assumes "pq_vals q k = Some v" "body v = None"
  shows "ref_mut_scope cmp q k body = None"
proof -
  from assms(1) obtain p where "vm_map (pq_map q) k = Some (p, v)" by (auto simp: pq_vals_def)
  then show ?thesis using assms(2) by (auto simp: ref_mut_scope_def pq_get_mut_def guard_deref_def)
qed

lemma ref_mut_scope_spec:
  assumes ok: "pq_ok q" and v: "pq_vals q k = Some v" and body: "body v = Some (v', modified, r)"
    and keep: "\<not> modified \<Longrightarrow> v' = v"
  obtains q' where "ref_mut_scope cmp q k body = Some (Some r, q')" "pq_ok q'"
    "pq_vals q' = (pq_vals q)(k \<mapsto> v')"
proof -
  from v obtain p where r: "vm_map (pq_map q) k = Some (p, v)" by (auto simp: pq_vals_def)
  show ?thesis
  proof (cases modified)
    case True
    let ?q = "q\<lparr>pq_map := vm_put k (p, v') (pq_map q)\<rparr>"
    note put = pq_put_spec[OF ok r, where v = v'] and pos = pq_ok_position[OF ok r]
    from heapify_spec[OF put(1), of p] pos(1) put(2,3) obtain q' where
      q': "pq_heapify cmp ?q p = Some q'" "pq_ok q'" "pq_vals q' = (pq_vals q)(k \<mapsto> v')" by auto
    have "vm_map (pq_map ?q) k = Some (p, v')" "k \<in> dom (vm_map (pq_map q))"
      using r by (auto simp: vm_put_spec)
    then have "ref_mut_scope cmp q k body = Some (Some r, q')"
      using r True body q'(1)
      by (simp add: ref_mut_scope_def pq_get_mut_def guard_deref_def guard_deref_mut_def ref_mut_drop_def)
    then show ?thesis using that q' by blast
  next
    case False
    moreover have "k \<in> dom (vm_map (pq_map q))" using r by blast
    ultimately have "ref_mut_scope cmp q k body = Some (Some r, q)"
      using r body by (simp add: ref_mut_scope_def pq_get_mut_def guard_deref_def ref_mut_drop_def)
    then show ?thesis using that ok v keep False by (metis fun_upd_idem)
  qed
qed

lemma peek_mut_scope_empty: "pq_heap q = [] \<Longrightarrow> peek_mut_scope cmp q body = Some (None, q)"
  by (simp add: peek_mut_scope_def pq_peek_mut_def vec_get_def)

lemma peek_mut_scope_panics:
  assumes "pq_ok q" "pq_heap q \<noteq> []" "body (pq_prio q 0) = None"
  shows "peek_mut_scope cmp q body = None"
  using assms pq_ok_read[OF assms(1), of 0]
  by (simp add: peek_mut_scope_def pq_peek_mut_def vec_get_def guard_deref_def)

lemma peek_mut_scope_spec:
  assumes ok: "pq_ok q" and ne: "pq_heap q \<noteq> []" and body: "body (pq_prio q 0) = Some (v', modified, r)"
    and keep: "\<not> modified \<Longrightarrow> v' = pq_prio q 0"
  obtains q' where "peek_mut_scope cmp q body = Some (Some r, q')" "pq_ok q'"
    "pq_vals q' = (pq_vals q)(pq_heap q ! 0 \<mapsto> v')" "length (pq_heap q') = length (pq_heap q)"
proof -
  have r: "vm_map (pq_map q) (pq_heap q ! 0) = Some (0, pq_prio q 0)" using pq_ok_read[OF ok] ne by simp
  show ?thesis
  proof (cases modified)
    case True
    note put = pq_put_spec[OF ok r, where v = v']
    from heapify_spec[OF put(1), of 0] ne put(2,3) obtain q' where
      q': "pq_heapify cmp (q\<lparr>pq_map := vm_put (pq_heap q ! 0) (0, v') (pq_map q)\<rparr>) 0 = Some q'" "pq_ok q'"
        "pq_vals q' = (pq_vals q)(pq_heap q ! 0 \<mapsto> v')" "length (pq_heap q') = length (pq_heap q)" by auto
    have "peek_mut_scope cmp q body = Some (Some r, q')"
      using r True body ne q'(1)
      by (simp add: peek_mut_scope_def pq_peek_mut_def vec_get_def guard_deref_def guard_deref_mut_def
          peek_mut_drop_def)
    then show ?thesis using that q' by blast
  next
    case False
    have "pq_vals q (pq_heap q ! 0) = Some (pq_prio q 0)" using r by (simp add: pq_vals_def)
    moreover have "peek_mut_scope cmp q body = Some (Some r, q)"
      using r body ne False
      by (simp add: peek_mut_scope_def pq_peek_mut_def vec_get_def guard_deref_def peek_mut_drop_def)
    ultimately show ?thesis using that ok keep False by (metis fun_upd_idem)
  qed
qed

lemma push_ok:
  assumes ok: "pq_ok q"
  obtains q' where "pq_push cmp q k v = Some (pq_vals q k, q')" "pq_ok q'" "pq_vals q' = (pq_vals q)(k \<mapsto> v)"
proof (cases "vm_map (pq_map q) k")
  case (Some x)
  then obtain pos old where x: "vm_map (pq_map q) k = Some (pos, old)" by (cases x) auto
  note put = pq_put_spec[OF ok x, where v = v]
  show ?thesis
    using that up_heapify_spec[OF put(1), of pos] put(2,3) pq_ok_position(1)[OF ok x] x
    by (auto simp: pq_push_def pq_vals_def)
next
  case None
  note app = pq_append_spec[OF ok None, where v = v]
  show ?thesis
    using that bubble_up_spec[OF pq_ok_weaken[OF app(1)], of "length (pq_heap q)"] app(2,3) None
    by (auto simp: pq_push_def Let_def case_prod_beta pq_vals_def)
qed

lemma remove_ok:
  assumes ok: "pq_ok q"
  obtains q' where "pq_remove cmp q k = Some (map_option (Pair k) (pq_vals q k), q')" "pq_ok q'"
    "pq_vals q' = (pq_vals q)(k := None)"
proof (cases "vm_map (pq_map q) k")
  case None
  then have "pq_vals q k = None" by (simp add: pq_vals_def)
  then show ?thesis using that[of q] ok None by (simp add: pq_remove_def fun_upd_idem)
next
  case (Some x)
  then obtain p v where r: "vm_map (pq_map q) k = Some (p, v)" by (cases x) auto
  note pos = pq_ok_position[OF ok r]
  from pq_swap_remove_spec[OF ok pos(1)] pos obtain q1 where
    q1: "pq_swap_remove q p = Some ((k, v), q1)" "pq_ok q1" "pq_vals q1 = (pq_vals q)(k := None)" by metis
  show ?thesis
    using that up_heapify_spec[OF q1(2), of p] q1 r
    by (cases "p < length (pq_heap q1)") (auto simp: pq_remove_def pq_vals_def)
qed

lemmas pushed_and_popped = pq.push_all_pop_all

lemma ref_mut_scope_cases:
  assumes ok: "pq_ok q" and scope: "ref_mut_scope cmp q k body = Some (x, q')"
    and keep: "\<And>v v' r. pq_vals q k = Some v \<Longrightarrow> body v = Some (v', False, r) \<Longrightarrow> v' = v"
  obtains (absent) "pq_vals q k = None" "x = None" "q' = q"
  | (present) v v' m r where "pq_vals q k = Some v" "body v = Some (v', m, r)" "x = Some r" "pq_ok q'"
      "pq_vals q' = (pq_vals q)(k \<mapsto> v')"
proof (cases "pq_vals q k")
  case None
  then have "x = None" "q' = q" using scope by (simp_all add: ref_mut_scope_absent)
  with None show ?thesis by (rule absent)
next
  case (Some v)
  show ?thesis
  proof (cases "body v")
    case None
    with scope ref_mut_scope_panics[OF Some, of body] show ?thesis by simp
  next
    case (Some res)
    obtain v' m r where res: "res = (v', m, r)" by (cases res)
    have k: "\<not> m \<Longrightarrow> v' = v" using keep[OF \<open>pq_vals q k = Some v\<close>] Some res by (cases m) auto
    obtain q'' where "ref_mut_scope cmp q k body = Some (Some r, q'')" "pq_ok q''"
      "pq_vals q'' = (pq_vals q)(k \<mapsto> v')"
      by (rule ref_mut_scope_spec[where body = body, OF ok \<open>pq_vals q k = Some v\<close> Some[unfolded res] k])
    with scope show ?thesis using present[OF \<open>pq_vals q k = Some v\<close> Some[unfolded res]] by auto
  qed
qed

end

section \<open>Properties\<close>

text \<open>C32. The heap sorts: pushing any list of entries into a fresh queue and popping until it is
  empty always returns, and gives every identifier once, with the value pushed last for it, in
  an order in which no value is exceeded by a later one.\<close>

theorem priority_queue_sorts:
  assumes "priority_order cmp" "length kvs < fuel"
  shows "\<exists>q xs q'. push_all (pq_push cmp) kvs pq_new = Some q \<and> pop_all (pq_pop cmp) fuel q = Some (xs, q') \<and>
    pq_vals q' = Map.empty \<and> map_of xs = map_of (rev kvs) \<and> distinct (map fst xs) \<and>
    sorted_wrt (\<lambda>a b. \<not> cmp (snd a) (snd b)) xs"
  using priority_order.pushed_and_popped[OF assms] .

theorem priority_queue_sorts_witness:
  "\<exists>q xs q'. push_all (pq_push (cmp_priority Max_Order int_partial_cmp)) [(1, 10 :: nat), (3, 1), (1, 8), (7, 3)] pq_new
      = Some q \<and>
    pop_all (pq_pop (cmp_priority Max_Order int_partial_cmp)) 5 q = Some (xs, q') \<and>
    map_of xs = map_of [(7, 3), (1, 8), (3, 1), (1, 10)] \<and> distinct (map fst xs) \<and>
    sorted_wrt (\<lambda>a b. \<not> cmp_priority Max_Order int_partial_cmp (snd a) (snd b)) xs"
  using priority_queue_sorts[OF max_order.priority_order_axioms, of "[(1, 10 :: nat), (3, 1), (1, 8), (7, 3)]" 5]
  by auto

text \<open>On a well-formed queue every operation returns (no unchecked access leaves its vector)
  and keeps the queue well-formed: \<open>push\<close> answers the old value and sets the new one,
  \<open>remove\<close> and \<open>change_priority_by\<close> answer and affect their identifier only, and \<open>pop\<close> takes
  out an entry that no other one exceeds.\<close>

lemma priority_queue_operations:
  assumes "priority_order cmp" "pq_inv cmp q"
  shows "(\<exists>q'. pq_push cmp q k v = Some (pq_get q k, q') \<and> pq_inv cmp q' \<and>
            pq_get q' = (pq_get q)(k \<mapsto> v)) \<and>
         (\<exists>q'. pq_remove cmp q k = Some (map_option (Pair k) (pq_get q k), q') \<and> pq_inv cmp q' \<and>
            pq_get q' = (pq_get q)(k := None)) \<and>
         (\<exists>q'. pq_change_priority_by cmp q k f = Some (pq_get q k \<noteq> None, q') \<and> pq_inv cmp q' \<and>
            pq_get q' = (pq_get q)(k := map_option f (pq_get q k))) \<and>
         (\<exists>r q'. pq_pop cmp q = Some (r, q') \<and> pq_inv cmp q' \<and> pq_peek q = Some r \<and>
            (case r of
               None \<Rightarrow> pq_get q = Map.empty \<and> q' = q
             | Some (i, u) \<Rightarrow> pq_get q i = Some u \<and> pq_get q' = (pq_get q)(i := None) \<and>
                 (\<forall>j w. pq_get q j = Some w \<longrightarrow> \<not> cmp u w)))"
proof -
  have get: "pq_get = pq_vals" by (simp add: fun_eq_iff pq_get_def pq_vals_def)
  have "pq_pop cmp q = Some (None, q) \<and> pq_peek q = Some None \<and> pq_vals q = Map.empty" if "pq_heap q = []"
    using that priority_order.empty_iff[OF assms] by (simp add: pq_pop_def pq_peek_def vec_get_def)
  moreover have "pq_peek q = Some (Some (pq_heap q ! 0, pq_prio q 0))" if "pq_heap q \<noteq> []"
    using that pq_ok_read[of q 0] assms(2) by (simp add: pq_peek_def vec_get_def pq_inv_def)
  ultimately have "\<exists>r q'. pq_pop cmp q = Some (r, q') \<and> pq_inv cmp q' \<and> pq_peek q = Some r \<and>
      (case r of
         None \<Rightarrow> pq_vals q = Map.empty \<and> q' = q
       | Some (i, u) \<Rightarrow> pq_vals q i = Some u \<and> pq_vals q' = (pq_vals q)(i := None) \<and>
           (\<forall>j w. pq_vals q j = Some w \<longrightarrow> \<not> cmp u w))"
    using priority_order.pop_spec[OF assms] priority_order.root_spec[OF assms] assms(2)
    by (cases "pq_heap q = []") fastforce+
  then show ?thesis
    unfolding get using priority_order.push_spec[OF assms] priority_order.remove_spec[OF assms]
      priority_order.change_priority_spec(1)[OF assms] by blast
qed

text \<open>Writing through \<open>peek_mut\<close> and dropping the guard restores the heap order, whatever value
  was written.\<close>

lemma peek_mut_restores_order:
  assumes "priority_order cmp" "pq_inv cmp q"
  shows "\<exists>q'. pq_update_peek cmp q f = Some q' \<and> pq_inv cmp q' \<and>
    (\<forall>k v. pq_peek q = Some (Some (k, v)) \<longrightarrow> pq_get q' = (pq_get q)(k \<mapsto> f v))"
proof -
  have get: "pq_get = pq_vals" by (simp add: fun_eq_iff pq_get_def pq_vals_def)
  have "pq_peek q = Some (Some (k, v)) \<Longrightarrow> pq_heap q \<noteq> [] \<and> k = pq_heap q ! 0 \<and> v = pq_prio q 0" for k v
    using pq_ok_read[of q 0] assms(2)
    by (auto simp: pq_peek_def vec_get_def pq_inv_def split: if_splits)
  then show ?thesis
    unfolding get using priority_order.update_peek_spec[OF assms, of f] by force
qed

text \<open>Writing through \<open>get_mut\<close>: the entry is updated and the two vectors stay consistent; the
  heap order is kept when the new value does not exceed the old one.\<close>

lemma ref_mut_keeps_order_downwards:
  assumes "priority_order cmp" "pq_inv cmp q"
  shows "\<exists>q'. pq_update cmp q k f = Some q' \<and> pq_ok q' \<and>
    pq_get q' = (pq_get q)(k := map_option f (pq_get q k)) \<and>
    ((\<forall>v. pq_get q k = Some v \<longrightarrow> \<not> cmp v (f v)) \<longrightarrow> pq_inv cmp q')"
proof -
  have get: "pq_get = pq_vals" by (simp add: fun_eq_iff pq_get_def pq_vals_def)
  show ?thesis unfolding get by (rule priority_order.update_spec[OF assms])
qed

text \<open>Raising a value through \<open>get_mut\<close> loses the heap order: dropping a \<open>RefMut\<close> sifts the
  entry down and never up. In a queue with priorities 5 and 1, raising 1 to 9 leaves 5 at the
  head, so the next \<open>pop\<close> does not return the largest entry.\<close>

lemma ref_mut_loses_order_upwards:
  "\<exists>q q'. push_all (pq_push (cmp_priority Max_Order int_partial_cmp)) [(0, 5 :: nat), (1, 1)] pq_new = Some q \<and>
     pq_update (cmp_priority Max_Order int_partial_cmp) q 1 (\<lambda>_. 9) = Some q' \<and>
     pq_peek q' = Some (Some (0, 5)) \<and> pq_get q' 1 = Some 9 \<and>
     \<not> pq_inv (cmp_priority Max_Order int_partial_cmp) q'"
proof -
  let ?cmp = "cmp_priority Max_Order int_partial_cmp :: nat \<Rightarrow> nat \<Rightarrow> bool"
  let ?q = "\<lparr>pq_map = \<lparr>vm_n = 2, vm_v = [Some (0, 5), Some (1, 1)]\<rparr>, pq_heap = [0, 1]\<rparr> :: nat priority_queue"
  let ?q' = "\<lparr>pq_map = \<lparr>vm_n = 2, vm_v = [Some (0, 5), Some (1, 9)]\<rparr>, pq_heap = [0, 1]\<rparr> :: nat priority_queue"
  have 1: "push_all (pq_push ?cmp) [(0, 5), (1, 1)] pq_new = Some ?q"
    by code_simp
  have 2: "pq_update ?cmp ?q 1 (\<lambda>_. 9) = Some ?q'" "pq_peek ?q' = Some (Some (0, 5))" "pq_get ?q' 1 = Some 9"
    by code_simp+
  have "\<not> heap_sorted ?cmp (pq_prio ?q') 2"
    unfolding heap_sorted_def not_all
    by (rule exI[of _ 1]) (simp add: pq_prio_def pq_vals_def vm_map_def pq_parent_def cmp_priority_def
        int_partial_cmp_def)
  then have "\<not> pq_inv ?cmp ?q'" by (auto simp: pq_inv_def numeral_2_eq_2)
  with 1 2 show ?thesis by blast
qed

text \<open>\<open>map\<close> rewrites every value and keeps the vectors consistent, and it keeps the heap order
  for a function that preserves the order.\<close>

lemma map_values_monotone:
  assumes "priority_order cmp" "pq_inv cmp q" "\<And>x y. cmp (f x) (f y) \<Longrightarrow> cmp x y"
  shows "\<exists>q'. pq_map_values cmp q f = Some q' \<and> pq_inv cmp q' \<and> (\<forall>k. pq_get q' k = map_option f (pq_get q k))"
proof -
  have get: "pq_get = pq_vals" by (simp add: fun_eq_iff pq_get_def pq_vals_def)
  show ?thesis unfolding get using priority_order.map_values_spec[OF assms(1), of q f] assms(2,3) by (auto simp: pq_inv_def)
qed

text \<open>For other functions \<open>map\<close> loses the heap order: it sifts the positions in increasing order
  only once. After rewriting the priorities 4, 3, 2, 1 of a queue to 1, 0, 0, 10 the head is not
  the largest entry.\<close>

definition scrambled :: "nat \<Rightarrow> nat" where
  "scrambled x = (if x = 4 then 1 else if x = 1 then 10 else 0)"

lemma map_values_loses_order:
  "\<exists>q q'. push_all (pq_push (cmp_priority Max_Order int_partial_cmp)) [(0, 4), (1, 3), (2, 2), (3, 1)] pq_new = Some q \<and>
     pq_map_values (cmp_priority Max_Order int_partial_cmp) q scrambled = Some q' \<and>
     pq_peek q' = Some (Some (0, 1)) \<and> pq_get q' 3 = Some 10"
proof -
  let ?cmp = "cmp_priority Max_Order int_partial_cmp :: nat \<Rightarrow> nat \<Rightarrow> bool"
  have "(do { q \<leftarrow> push_all (pq_push ?cmp) [(0, 4), (1, 3), (2, 2), (3, 1)] pq_new;
             q' \<leftarrow> pq_map_values ?cmp q scrambled;
             r \<leftarrow> pq_peek q'; Some (r, pq_get q' 3) }) = Some (Some (0, 1), Some 10)"
    by code_simp
  then show ?thesis by (auto simp: bind_eq_Some_conv)
qed

end
