(* ===== verification/Buffer.thy ===== *)
theory Buffer
  imports Grid_Prelude
begin

text \<open>
  \<open>Buffer\<close> of \<open>shared/src/utils/buffer.rs\<close>: the fixed-capacity batch buffer in which the
  scheduler collects task results. A cell of the array is a \<open>MaybeUninit\<close>, modelled as an
  option: reading an uninitialised cell is undefined behaviour. The capacity \<open>N\<close>, a const
  generic of the code, is the length of the array.
\<close>

section \<open>The data and its operations\<close>

record 'a buffer =
  buf_filled :: nat
  buf_data :: "'a option list"

definition buf_new :: "nat \<Rightarrow> 'a buffer" where
  "buf_new N = \<lparr>buf_filled = 0, buf_data = replicate N None\<rparr>"

definition buf_N :: "'a buffer \<Rightarrow> nat" where
  "buf_N b = length (buf_data b)"

text \<open>A push into a full buffer hands out the whole array and starts over with the new item; a
  full buffer of capacity 0 has no cell to write to, which is a panic.\<close>

definition buf_push :: "'a buffer \<Rightarrow> 'a \<Rightarrow> ('a list option \<times> 'a buffer) option" where
  "buf_push b item =
     (if buf_filled b = buf_N b then
        do { batch \<leftarrow> those (buf_data b);
             if 0 < buf_N b
             then Some (Some batch,
                    b\<lparr>buf_data := (replicate (buf_N b) None)[0 := Some item], buf_filled := 1\<rparr>)
             else None }
      else if buf_filled b < buf_N b then
        Some (None, b\<lparr>buf_data := (buf_data b)[buf_filled b := Some item],
                     buf_filled := buf_filled b + 1\<rparr>)
      else None)"

definition buf_is_filled :: "'a buffer \<Rightarrow> bool" where
  "buf_is_filled b = (buf_filled b = buf_N b)"

definition buf_filled_slice :: "'a buffer \<Rightarrow> 'a list option" where
  "buf_filled_slice b =
     (if buf_filled b \<le> buf_N b then those (take (buf_filled b) (buf_data b)) else None)"

definition buf_clear :: "'a buffer \<Rightarrow> 'a buffer" where
  "buf_clear b = b\<lparr>buf_filled := 0\<rparr>"

text \<open>Comparison with a slice.\<close>

definition buf_eq_slice :: "'a buffer \<Rightarrow> 'a list \<Rightarrow> bool option" where
  "buf_eq_slice b other = map_option (\<lambda>xs. xs = other) (buf_filled_slice b)"

definition buf_from_array :: "'a list \<Rightarrow> 'a buffer" where
  "buf_from_array xs = \<lparr>buf_filled = length xs, buf_data = map Some xs\<rparr>"

text \<open>\<open>TryInto<[T; N]>\<close>: the error carries the number of missing items.\<close>

datatype unfilled_buffer = UnfilledBuffer nat

definition buf_try_into :: "'a buffer \<Rightarrow> (unfilled_buffer + 'a list) option" where
  "buf_try_into b =
     (if buf_filled b = buf_N b then map_option Inr (those (buf_data b))
      else Some (Inl (UnfilledBuffer (buf_N b - buf_filled b))))"

text \<open>The consuming iterator. As in the source, \<open>next\<close> reads the cell under the cursor and does
  not move the cursor.\<close>

record 'a buffer_iter =
  bi_filled :: nat
  bi_cursor :: nat
  bi_data :: "'a option list"

definition buf_into_iter :: "'a buffer \<Rightarrow> 'a buffer_iter" where
  "buf_into_iter b = \<lparr>bi_filled = buf_filled b, bi_cursor = 0, bi_data = buf_data b\<rparr>"

definition bi_next :: "'a buffer_iter \<Rightarrow> ('a option \<times> 'a buffer_iter) option" where
  "bi_next it =
     (if bi_cursor it < bi_filled it
      then do { c \<leftarrow> vec_get (bi_data it) (bi_cursor it); x \<leftarrow> c; Some (Some x, it) }
      else Some (None, it))"

text \<open>What a client does with a stream of items, and the first \<open>k\<close> answers of an iterator.\<close>

fun buf_push_all :: "'a list \<Rightarrow> 'a buffer \<Rightarrow> ('a list list \<times> 'a buffer) option" where
  "buf_push_all [] b = Some ([], b)"
| "buf_push_all (x # xs) b =
     do { (r, b') \<leftarrow> buf_push b x;
          (rs, b'') \<leftarrow> buf_push_all xs b';
          Some (case r of None \<Rightarrow> rs | Some batch \<Rightarrow> batch # rs, b'') }"

fun bi_take :: "nat \<Rightarrow> 'a buffer_iter \<Rightarrow> 'a option list option" where
  "bi_take 0 it = Some []"
| "bi_take (Suc k) it = do { (r, it') \<leftarrow> bi_next it; rs \<leftarrow> bi_take k it'; Some (r # rs) }"

section \<open>Invariant and abstraction\<close>

text \<open>The first \<open>buf_filled\<close> cells are initialised; \<open>buf_list\<close> is what they hold.\<close>

definition buf_inv :: "'a buffer \<Rightarrow> bool" where
  "buf_inv b \<longleftrightarrow> buf_filled b \<le> buf_N b \<and> (\<forall>i<buf_filled b. buf_data b ! i \<noteq> None)"

definition buf_list :: "'a buffer \<Rightarrow> 'a list" where
  "buf_list b = map the (take (buf_filled b) (buf_data b))"

lemma those_map_the: "(\<forall>x \<in> set xs. x \<noteq> None) \<Longrightarrow> those xs = Some (map the xs)"
  by (induction xs) (auto split: option.splits)

lemma buf_inv_take_set: "buf_inv b \<Longrightarrow> x \<in> set (take (buf_filled b) (buf_data b)) \<Longrightarrow> x \<noteq> None"
  by (auto simp: buf_inv_def buf_N_def in_set_conv_nth)

lemma length_buf_list [simp]: "buf_inv b \<Longrightarrow> length (buf_list b) = buf_filled b"
  by (simp add: buf_inv_def buf_list_def buf_N_def)

lemma buf_new_spec [simp]: "buf_inv (buf_new N)" "buf_list (buf_new N) = []" "buf_N (buf_new N) = N"
  by (simp_all add: buf_inv_def buf_new_def buf_list_def buf_N_def)

lemma buf_clear_spec [simp]: "buf_inv (buf_clear b)" "buf_list (buf_clear b) = []"
  "buf_N (buf_clear b) = buf_N b"
  by (simp_all add: buf_inv_def buf_clear_def buf_list_def buf_N_def)

lemma buf_filled_slice_spec [simp]: "buf_inv b \<Longrightarrow> buf_filled_slice b = Some (buf_list b)"
  using buf_inv_take_set[of b]
  by (auto simp: buf_filled_slice_def buf_list_def buf_inv_def intro!: those_map_the)

lemma buf_push_room:
  assumes "buf_inv b" "buf_filled b \<noteq> buf_N b"
  shows "\<exists>b'. buf_push b x = Some (None, b') \<and> buf_inv b' \<and> buf_list b' = buf_list b @ [x] \<and>
    buf_N b' = buf_N b"
proof -
  have lt: "buf_filled b < length (buf_data b)"
    using assms by (auto simp: buf_inv_def buf_N_def)
  then show ?thesis
    using assms by (auto simp: buf_push_def buf_inv_def buf_list_def buf_N_def nth_list_update
      take_Suc_conv_app_nth less_Suc_eq)
qed

lemma buf_push_full:
  assumes "buf_inv b" "buf_filled b = buf_N b" "0 < buf_N b"
  shows "\<exists>b'. buf_push b x = Some (Some (buf_list b), b') \<and> buf_inv b' \<and> buf_list b' = [x] \<and>
    buf_N b' = buf_N b"
proof -
  have "those (buf_data b) = Some (buf_list b)"
    using assms(1,2) buf_inv_take_set[of b]
    by (auto simp: buf_list_def buf_N_def intro!: those_map_the)
  moreover obtain k where "buf_N b = Suc k"
    using assms(3) gr0_conv_Suc by blast
  ultimately show ?thesis
    using assms(2) by (auto simp: buf_push_def buf_inv_def buf_list_def buf_N_def)
qed

text \<open>The invariant is kept by every push, and a push never fails on a buffer with room for one
  item.\<close>

lemma buf_push_total:
  assumes "buf_inv b" "0 < buf_N b"
  shows "\<exists>r b'. buf_push b x = Some (r, b') \<and> buf_inv b' \<and> buf_N b' = buf_N b \<and>
    (case r of None \<Rightarrow> [] | Some batch \<Rightarrow> batch) @ buf_list b' = buf_list b @ [x] \<and>
    (\<forall>batch. r = Some batch \<longrightarrow> length batch = buf_N b)"
proof (cases "buf_filled b = buf_N b")
  case True
  with buf_push_full[OF assms(1) True assms(2), of x] assms(1) show ?thesis by fastforce
next
  case False
  with buf_push_room[OF assms(1) False, of x] show ?thesis by fastforce
qed

lemma buf_push_all_spec:
  assumes "buf_inv b" "0 < buf_N b"
  shows "\<exists>rs b'. buf_push_all xs b = Some (rs, b') \<and> buf_inv b' \<and> buf_N b' = buf_N b \<and>
    concat rs @ buf_list b' = buf_list b @ xs \<and> (\<forall>batch \<in> set rs. length batch = buf_N b)"
  using assms
proof (induction xs arbitrary: b)
  case Nil
  then show ?case by simp
next
  case (Cons x xs)
  from buf_push_total[OF Cons.prems, of x] obtain r b1 where
    b1: "buf_push b x = Some (r, b1)" "buf_inv b1" "buf_N b1 = buf_N b"
    "(case r of None \<Rightarrow> [] | Some batch \<Rightarrow> batch) @ buf_list b1 = buf_list b @ [x]"
    "\<forall>batch. r = Some batch \<longrightarrow> length batch = buf_N b" by blast
  from Cons.IH[OF b1(2)] Cons.prems(2) b1(3) obtain rs b2 where
    b2: "buf_push_all xs b1 = Some (rs, b2)" "buf_inv b2" "buf_N b2 = buf_N b"
    "concat rs @ buf_list b2 = buf_list b1 @ xs" "\<forall>batch \<in> set rs. length batch = buf_N b"
    by auto
  have "concat (case r of None \<Rightarrow> rs | Some batch \<Rightarrow> batch # rs) @ buf_list b2 =
      ((case r of None \<Rightarrow> [] | Some batch \<Rightarrow> batch) @ buf_list b1) @ xs"
    using b2(4) by (cases r) simp_all
  then have "concat (case r of None \<Rightarrow> rs | Some batch \<Rightarrow> batch # rs) @ buf_list b2 = buf_list b @ x # xs"
    unfolding b1(4) by simp
  moreover have "\<forall>batch \<in> set (case r of None \<Rightarrow> rs | Some batch \<Rightarrow> batch # rs). length batch = buf_N b"
    using b1(5) b2(5) by (cases r) simp_all
  ultimately show ?case
    using b1 b2 by simp
qed

lemma buf_from_array_spec:
  "buf_inv (buf_from_array xs)" "buf_list (buf_from_array xs) = xs" "buf_is_filled (buf_from_array xs)"
  by (simp_all add: buf_inv_def buf_from_array_def buf_list_def buf_N_def buf_is_filled_def)

section \<open>Properties\<close>

text \<open>C35. No result is lost, duplicated or reordered by the buffer: pushing any sequence of items
  into a fresh buffer of positive capacity never fails, every batch it hands out is full, and the
  batches followed by what is still buffered are exactly the items in the order of the pushes.\<close>

theorem buffer_preserves_stream:
  assumes "0 < N"
  shows "\<exists>batches b slice. buf_push_all xs (buf_new N) = Some (batches, b) \<and>
    buf_filled_slice b = Some slice \<and> concat batches @ slice = xs \<and>
    (\<forall>batch \<in> set batches. length batch = N) \<and> length slice \<le> N"
proof -
  from buf_push_all_spec[of "buf_new N" xs] assms obtain rs b where
    "buf_push_all xs (buf_new N) = Some (rs, b)" "buf_inv b" "buf_N b = N"
    "concat rs @ buf_list b = xs" "\<forall>batch \<in> set rs. length batch = N" by auto
  then show ?thesis by (auto simp: buf_inv_def)
qed

theorem buffer_preserves_stream_witness:
  "\<exists>batches b slice. buf_push_all [1, 2, 3, 4, 5 :: nat] (buf_new 3) = Some (batches, b) \<and>
    buf_filled_slice b = Some slice \<and> concat batches @ slice = [1, 2, 3, 4, 5] \<and>
    (\<forall>batch \<in> set batches. length batch = 3) \<and> length slice \<le> 3"
  using buffer_preserves_stream[of 3 "[1, 2, 3, 4, 5 :: nat]"] by simp

lemma bi_take_stuck:
  assumes "buf_inv b" "buf_filled b \<noteq> 0"
  shows "bi_take k (buf_into_iter b) = Some (replicate k (Some (hd (buf_list b))))"
proof -
  have "0 < length (buf_data b)" and n0: "buf_data b ! 0 \<noteq> None"
    using assms by (auto simp: buf_inv_def buf_N_def)
  then obtain x rest where data: "buf_data b = Some x # rest"
    by (cases "buf_data b") auto
  then have "buf_list b = x # map the (take (buf_filled b - 1) rest)"
    using assms(2) by (cases "buf_filled b") (auto simp: buf_list_def)
  then have "bi_next (buf_into_iter b) = Some (Some (hd (buf_list b)), buf_into_iter b)"
    using data assms(2) by (simp add: bi_next_def buf_into_iter_def vec_get_def)
  then show ?thesis
    by (induction k) auto
qed

text \<open>The consuming iterator never advances: on any non-empty buffer every one of its first
  \<open>k\<close> answers is the first item, so the iteration does not end and repeats that item.\<close>

lemma buffer_iter_never_advances:
  assumes "buf_push_all (x # xs) (buf_new N) = Some ([], b)" "0 < N"
  shows "bi_take k (buf_into_iter b) = Some (replicate k (Some x))"
proof -
  from buf_push_all_spec[of "buf_new N" "x # xs"] assms
  have inv: "buf_inv b" and list: "buf_list b = x # xs" by auto
  then have "buf_filled b \<noteq> 0" using length_buf_list[OF inv] by simp
  from bi_take_stuck[OF inv this] list show ?thesis by simp
qed

text \<open>Converting an array into a buffer and back is the identity, and a buffer that is not full
  converts to the error that counts its missing items.\<close>

lemma buffer_array_roundtrip:
  "buf_try_into (buf_from_array xs) = Some (Inr xs) \<and>
   (buf_inv b \<longrightarrow> \<not> buf_is_filled b \<longrightarrow>
      buf_try_into b = Some (Inl (UnfilledBuffer (buf_N b - length (buf_list b)))))"
proof -
  have "those (map Some xs) = Some xs"
    by (induction xs) auto
  then show ?thesis
    by (simp add: buf_try_into_def buf_from_array_def buf_N_def buf_is_filled_def)
qed

end
