(* ===== verification/Messages.thy ===== *)
theory Messages
  imports Grid_Prelude "HOL-Library.Word"
begin

text \<open>
  The data that travels between the processes: \<open>shared/src/platform\<close>, \<open>shared/src/worker.rs\<close>,
  \<open>shared/src/scheduler.rs\<close>, \<open>shared/src/node_manager.rs\<close>, \<open>shared/src/node.rs\<close>,
  \<open>shared/src/executor.rs\<close> and \<open>shared/src/task_manager\<close>.

  A \<open>Duration\<close> is its number of nanoseconds, a socket address an opaque number, and a
  \<open>HashMap\<close> an association list with distinct keys, in the order in which the map happens to
  iterate. The counters of a job are \<open>u128\<close>: natural numbers with wrapping subtraction.
\<close>

type_synonym bytes = "8 word list"
type_synonym uuid = "128 word"
type_synonym socket_addr = nat
type_synonym nanos = nat
type_synonym worker_id = usize
type_synonym task_id = usize

definition u128_sub :: "nat \<Rightarrow> nat \<Rightarrow> nat" where
  "u128_sub a b = (if b \<le> a then a - b else 2 ^ 128 + a - b)"

definition u128_add :: "nat \<Rightarrow> nat \<Rightarrow> nat" where
  "u128_add a b = wrap 128 (a + b)"

lemma u128_sub_le [simp]: "b \<le> a \<Longrightarrow> u128_sub a b = a - b"
  by (simp add: u128_sub_def)

lemma u128_add_small: "a + b < 2 ^ 128 \<Longrightarrow> u128_add a b = a + b"
  by (simp add: u128_add_def fits_def)

section \<open>Platforms\<close>

datatype arch =
  Wasm32 | X86 | X86_64 | Arm | Aarch64 | Loongarch64 | M68k | Csky | Mips | Mips64 | Powerpc
  | Powerpc64 | Riscv64 | S390x | Sparc64 | Arch_Unknown

datatype family = Unix | Family_Windows | Family_Unknown

datatype os =
  Linux | Macos | Ios | Freebsd | Dragonfly | Netbsd | Openbsd | Solaris | Android | Os_Windows
  | Os_Unknown

datatype platform = Platform (p_arch: arch) (p_family: family) (p_os: os)

definition arch_from_str :: "string \<Rightarrow> arch" where
  "arch_from_str s =
     (if s = ''wasm32'' then Wasm32
      else if s = ''x86'' then X86
      else if s = ''x86_64'' then X86_64
      else if s = ''arm'' then Arm
      else if s = ''aarch64'' then Aarch64
      else if s = ''loongarch64'' then Loongarch64
      else if s = ''m68k'' then M68k
      else if s = ''csky'' then Csky
      else if s = ''mips'' then Mips
      else if s = ''mips64'' then Mips64
      else if s = ''powerpc'' then Powerpc
      else if s = ''powerpc64'' then Powerpc64
      else if s = ''riscv64'' then Riscv64
      else if s = ''s390x'' then S390x
      else if s = ''sparc64'' then Sparc64
      else Arch_Unknown)"

definition family_from_str :: "string \<Rightarrow> family" where
  "family_from_str s =
     (if s = ''windows'' then Family_Windows
      else if s = ''unix'' then Unix
      else Family_Unknown)"

definition os_from_str :: "string \<Rightarrow> os" where
  "os_from_str s =
     (if s = ''linux'' then Linux
      else if s = ''macos'' then Macos
      else if s = ''ios'' then Ios
      else if s = ''freebsd'' then Freebsd
      else if s = ''dragonfly'' then Dragonfly
      else if s = ''netbsd'' then Netbsd
      else if s = ''openbsd'' then Openbsd
      else if s = ''solaris'' then Solaris
      else if s = ''android'' then Android
      else if s = ''windows'' then Os_Windows
      else Os_Unknown)"

definition platform_from_str :: "string \<Rightarrow> string \<Rightarrow> string \<Rightarrow> platform" where
  "platform_from_str a f s = Platform (arch_from_str a) (family_from_str f) (os_from_str s)"

definition WASM_PLATFORM :: platform where
  "WASM_PLATFORM = platform_from_str ''wasm32'' '''' ''''"

lemma wasm_platform: "WASM_PLATFORM = Platform Wasm32 Family_Unknown Os_Unknown"
  by (simp add: WASM_PLATFORM_def platform_from_str_def arch_from_str_def family_from_str_def os_from_str_def)

section \<open>Workers\<close>

record worker_task =
  wt_id :: task_id
  wt_data :: bytes

record worker_result =
  wr_id :: task_id
  wr_execution_time :: nanos
  wr_data :: bytes

datatype worker_error =
  TaskExecutionError task_id string
  | LibraryMissing "task_id list" "(task_id \<times> task_id) list"
  | NoFreeExecutors "task_id list"

datatype worker_response = Error worker_error | Result worker_result

record worker_request =
  rq_job :: uuid
  rq_job_data :: "(bytes \<times> bytes) option"
  rq_replacements :: "(task_id \<times> worker_task) list"
  rq_tasks :: "worker_task list"

section \<open>Scheduler\<close>

record worker_job_data =
  wj_args :: bytes
  wj_data :: "(platform \<times> bytes) list"

record job_stats =
  js_total_tasks :: nat
  js_completed_tasks :: nat
  js_failed_tasks :: nat
  js_avg_task_completion_time :: nanos

datatype scheduler_request =
  SR_HelloMessage
  | SR_NewJob uuid nat worker_job_data
  | SR_Task "worker_task list"

datatype scheduler_response =
  TaskResults "worker_result list"
  | SchedulerBusy
  | SchedulerFree
  | SP_TaskExecutionError string job_stats
  | JobComplete "worker_result list" job_stats

section \<open>Node manager and nodes\<close>

record worker_info =
  wi_worker_id :: worker_id
  wi_subworkers :: usize
  wi_address :: socket_addr
  wi_platform :: platform

datatype node_manager_request =
  NR_HelloMessage
  | WorkersDemand "nat option" "platform list"
  | ReleaseDemand

datatype node_manager_response =
  CreatedSession
  | RestoredSession
  | NP_Disconnect worker_id
  | NP_Connect "worker_info list"

datatype node_request = AssignClient socket_addr | UnassignClient

datatype node_response = Heartbeat

section \<open>Executors\<close>

record executor_job =
  ej_job_id :: uuid
  ej_job_data :: bytes
  ej_task_id :: task_id
  ej_task_data :: bytes

record executor_result =
  er_job_id :: uuid
  er_task_id :: task_id
  er_execution_time :: nanos
  er_result :: "string + bytes"

end
