(* ===== verification/Scheduler.thy ===== *)
theory Scheduler
  imports Priority_Queue Buffer Messages
begin

text \<open>
  The scheduler process, \<open>scheduler/src/scheduler.rs\<close>: it receives the tasks of one job from the
  task manager, hands them to the workers it was given by the node manager, and returns their
  results in batches. Its state is the job, a min-queue of tasks ordered by their number of
  assignments, a max-queue of workers ordered by their free capacity, the buffer of results
  and the flag \<open>need_schedule\<close>.

  Each handler is a function of the state that returns the messages it sends and the new state.
  \<open>None\<close> is a panic. The connections themselves (\<open>connection.rs\<close>, \<open>nodes.rs\<close>,
  \<open>node_manager.rs\<close>, \<open>task_manager.rs\<close>) are reduced to what the handlers read and write of them:
  which workers are connected, whether the node manager session and the task manager are
  there, and the messages given to the sinks.
\<close>

section \<open>Data\<close>

record scheduled_job =
  sj_total_tasks :: nat
  sj_scheduled_tasks :: nat
  sj_received_tasks :: nat
  sj_completed_tasks :: nat
  sj_failed_tasks :: nat
  sj_avg_task_completion_time :: nanos
  sj_job :: worker_job_data
  sj_id :: uuid

record worker =
  w_id :: worker_id
  w_subworkers :: usize
  w_platform :: platform
  w_has_job_data :: bool
  w_address :: socket_addr
  w_replacements :: "task_id list"
  w_assignments :: "task_id list"

record task =
  t_task_data :: worker_task
  t_failed_executions :: nat
  t_assignments :: "worker_id list"

definition worker_priority :: "worker \<Rightarrow> usize" where
  "worker_priority w = usize_sub (w_subworkers w) (length (w_assignments w))"

definition can_accept :: "worker \<Rightarrow> usize" where
  "can_accept w = usize_sub (w_subworkers w) (length (w_assignments w) + length (w_replacements w))"

definition need_replace :: "worker \<Rightarrow> usize" where
  "need_replace w = length (w_replacements w)"

definition worker_partial_cmp :: "worker \<Rightarrow> worker \<Rightarrow> rust_ordering option" where
  "worker_partial_cmp a b =
     do {
       x \<leftarrow> int_partial_cmp (worker_priority a) (worker_priority b);
       case x of
         Ord_Equal \<Rightarrow> int_partial_cmp (w_has_job_data a) (w_has_job_data b)
       | _ \<Rightarrow> Some x
     }"

definition int_cmp :: "'a::linorder \<Rightarrow> 'a \<Rightarrow> rust_ordering" where
  "int_cmp a b = (if a < b then Ord_Less else if a = b then Ord_Equal else Ord_Greater)"

definition worker_cmp :: "worker \<Rightarrow> worker \<Rightarrow> rust_ordering" where
  "worker_cmp a b =
     (case int_cmp (w_has_job_data a) (w_has_job_data b) of
        Ord_Equal \<Rightarrow> int_cmp (worker_priority a) (worker_priority b)
      | x \<Rightarrow> x)"

definition task_priority :: "task \<Rightarrow> usize" where
  "task_priority t = length (t_assignments t)"

definition has_assignments :: "task \<Rightarrow> bool" where
  "has_assignments t = (t_assignments t \<noteq> [])"

definition task_partial_cmp :: "task \<Rightarrow> task \<Rightarrow> rust_ordering option" where
  "task_partial_cmp a b = int_partial_cmp (task_priority a) (task_priority b)"

definition task_cmp :: "task \<Rightarrow> task \<Rightarrow> rust_ordering" where
  "task_cmp a b = int_cmp (task_priority a) (task_priority b)"

abbreviation worker_lt :: "worker \<Rightarrow> worker \<Rightarrow> bool" where
  "worker_lt \<equiv> cmp_priority Max_Order worker_partial_cmp"

abbreviation task_lt :: "task \<Rightarrow> task \<Rightarrow> bool" where
  "task_lt \<equiv> cmp_priority Min_Order task_partial_cmp"

datatype worker_event =
  WE_Connected worker_info nat
  | WE_Disconnected worker_id
  | WE_Message worker_id worker_response

datatype node_manager_event =
  NE_Connected
  | NE_ConnectionNotEstablished
  | NE_Disconnected
  | NE_Message node_manager_response

datatype task_manager_event =
  TE_Connected socket_addr
  | TE_Disconnect
  | TE_Message scheduler_request

datatype sched_output =
  Send_Worker worker_id worker_request
  | Send_Task_Manager scheduler_response
  | Send_Node_Manager node_manager_request
  | Connect_Node worker_info
  | Connect_Node_Manager socket_addr

record scheduler =
  sc_scheduled_job :: "scheduled_job option"
  sc_tasks_queue :: "task priority_queue"
  sc_workers_queue :: "worker priority_queue"
  sc_results_buffer :: "worker_result buffer"
  sc_need_schedule :: bool
  sc_nodes :: "nat vec_map"
  sc_nm_connected :: bool
  sc_tm_connected :: "socket_addr option"
  sc_failed_executions_limit :: nat
  sc_node_manager_address :: socket_addr

definition scheduler_new :: "nat \<Rightarrow> socket_addr \<Rightarrow> scheduler" where
  "scheduler_new failed_executions_limit node_manager_address =
     \<lparr>sc_scheduled_job = None, sc_tasks_queue = pq_new, sc_workers_queue = pq_new,
      sc_results_buffer = buf_new 200, sc_need_schedule = False, sc_nodes = vm_new,
      sc_nm_connected = False, sc_tm_connected = None,
      sc_failed_executions_limit = failed_executions_limit,
      sc_node_manager_address = node_manager_address\<rparr>"

section \<open>Helpers\<close>

text \<open>\<open>xs.iter().position(|y| y == x).map(|pos| xs.swap_remove(pos))\<close>: the new vector and whether it
  was written.\<close>

definition swap_remove_value :: "'a \<Rightarrow> 'a list \<Rightarrow> ('a list \<times> bool) option" where
  "swap_remove_value x xs =
     (case position (\<lambda>y. y = x) xs of
        None \<Rightarrow> Some (xs, False)
      | Some pos \<Rightarrow> do { (_, ys) \<leftarrow> vec_swap_remove xs pos; Some (ys, True) })"

text \<open>\<open>worker.replacements.iter().position(|x| x == id).map(|pos| worker.assignments.swap_remove(pos))\<close>:
  the position is found in one vector and removed from the other.\<close>

definition drop_replacement :: "task_id \<Rightarrow> worker \<Rightarrow> (worker \<times> bool) option" where
  "drop_replacement tid w =
     (case position (\<lambda>y. y = tid) (w_replacements w) of
        None \<Rightarrow> Some (w, False)
      | Some pos \<Rightarrow>
          do { (_, ys) \<leftarrow> vec_swap_remove (w_assignments w) pos; Some (w\<lparr>w_assignments := ys\<rparr>, True) })"

text \<open>\<open>Vec::with_capacity\<close> panics when the allocation exceeds \<open>isize::MAX\<close> bytes. A \<open>WorkerTask\<close>
  takes 32 bytes, a pair of a task identifier and a \<open>WorkerTask\<close> 40, a slot of the task queue 72.\<close>

definition capacity_ok :: "nat \<Rightarrow> nat \<Rightarrow> bool" where
  "capacity_ok sz n \<longleftrightarrow> fits 63 (sz * n)"

definition nodes_send :: "scheduler \<Rightarrow> worker_id \<Rightarrow> worker_request \<Rightarrow> sched_output list" where
  "nodes_send s wid request = (if vm_contains_key (sc_nodes s) wid then [Send_Worker wid request] else [])"

definition reset_scheduler :: "scheduler \<Rightarrow> scheduler" where
  "reset_scheduler s =
     s\<lparr>sc_workers_queue := pq_clear (sc_workers_queue s),
       sc_tasks_queue := pq_clear (sc_tasks_queue s),
       sc_results_buffer := buf_clear (sc_results_buffer s),
       sc_nodes := vm_clear (sc_nodes s),
       sc_need_schedule := False\<rparr>"

definition job_stats_of :: "scheduled_job \<Rightarrow> job_stats" where
  "job_stats_of j =
     \<lparr>js_total_tasks = sj_total_tasks j, js_completed_tasks = sj_completed_tasks j,
      js_failed_tasks = sj_failed_tasks j,
      js_avg_task_completion_time = sj_avg_task_completion_time j\<rparr>"

section \<open>Scheduling\<close>

text \<open>The state of one scheduling round, while the guard on the first worker is held.\<close>

record sched_round =
  r_job :: scheduled_job
  r_tasks :: "task priority_queue"
  r_worker :: worker
  r_dirty :: bool
  r_sent :: "worker_task list"
  r_repl :: "(task_id \<times> worker_task) list"
  r_need :: bool

text \<open>Looking at the first task: it is taken if it has no assignment yet, or if every task of the
  job has been scheduled. The body returns whether it was unassigned, and its data.\<close>

definition take_task ::
  "scheduled_job \<Rightarrow> worker_id \<Rightarrow> task \<Rightarrow> (task \<times> bool \<times> (bool \<times> worker_task) option) option" where
  "take_task job wid t =
     (let not_assigned = (\<not> has_assignments t) in
      if not_assigned \<or> sj_scheduled_tasks job = sj_total_tasks job
      then Some (t\<lparr>t_assignments := t_assignments t @ [wid]\<rparr>, True, Some (not_assigned, t_task_data t))
      else Some (t, False, None))"

definition count_scheduled :: "bool \<Rightarrow> scheduled_job \<Rightarrow> scheduled_job" where
  "count_scheduled not_assigned job =
     job\<lparr>sj_scheduled_tasks := u128_add (sj_scheduled_tasks job) (of_bool not_assigned)\<rparr>"

fun assign_tasks :: "nat \<Rightarrow> sched_round \<Rightarrow> sched_round option" where
  "assign_tasks 0 r = Some r"
| "assign_tasks (Suc n) r =
     do {
       (x, q) \<leftarrow> peek_mut_scope task_lt (r_tasks r) (take_task (r_job r) (w_id (r_worker r)));
       case x of
         Some (Some (not_assigned, td)) \<Rightarrow>
           assign_tasks n
             (r\<lparr>r_tasks := q,
                r_worker := (r_worker r)\<lparr>w_assignments := w_assignments (r_worker r) @ [wt_id td]\<rparr>,
                r_dirty := True,
                r_sent := r_sent r @ [td],
                r_job := count_scheduled not_assigned (r_job r)\<rparr>)
       | _ \<Rightarrow> Some (r\<lparr>r_tasks := q, r_need := False\<rparr>)
     }"

text \<open>The same for the replacements; \<open>worker.replacements.pop()\<close> is inside the taken branch.\<close>

definition take_replacement ::
  "scheduled_job \<Rightarrow> worker \<Rightarrow> task \<Rightarrow> (task \<times> bool \<times> (bool \<times> worker_task) option option) option" where
  "take_replacement job w t =
     (let not_assigned = (\<not> has_assignments t) in
      if not_assigned \<or> sj_scheduled_tasks job = sj_total_tasks job
      then
        if w_replacements w \<noteq> []
        then Some (t\<lparr>t_assignments := t_assignments t @ [w_id w]\<rparr>, True, Some (Some (not_assigned, t_task_data t)))
        else Some (t, False, Some None)
      else Some (t, False, None))"

fun assign_replacements :: "nat \<Rightarrow> sched_round \<Rightarrow> sched_round option" where
  "assign_replacements 0 r = Some r"
| "assign_replacements (Suc n) r =
     do {
       (x, q) \<leftarrow> peek_mut_scope task_lt (r_tasks r) (take_replacement (r_job r) (r_worker r));
       case x of
         Some (Some (Some (not_assigned, td))) \<Rightarrow>
           assign_replacements n
             (r\<lparr>r_tasks := q,
                r_worker := (r_worker r)\<lparr>w_replacements := butlast (w_replacements (r_worker r)),
                                         w_assignments := w_assignments (r_worker r) @ [wt_id td]\<rparr>,
                r_dirty := True,
                r_repl := r_repl r @ [(last (w_replacements (r_worker r)), td)],
                r_job := count_scheduled not_assigned (r_job r)\<rparr>)
       | Some (Some None) \<Rightarrow> assign_replacements n (r\<lparr>r_tasks := q\<rparr>)
       | _ \<Rightarrow> Some (r\<lparr>r_tasks := q, r_need := False\<rparr>)
     }"

text \<open>The job data that goes with the first request to a worker.\<close>

definition request_job_data :: "scheduled_job \<Rightarrow> worker \<Rightarrow> (bytes \<times> bytes) option \<times> worker \<times> bool" where
  "request_job_data job w =
     (if \<not> w_has_job_data w
      then (map_option (\<lambda>d. (wj_args (sj_job job), d)) (map_of (wj_data (sj_job job)) (w_platform w)),
            w\<lparr>w_has_job_data := True\<rparr>, True)
      else (None, w, False))"

text \<open>The body of the guarded block over the first worker: \<open>None\<close> in the result means that the
  worker can take nothing.\<close>

definition schedule_worker ::
  "scheduler \<Rightarrow> scheduled_job \<Rightarrow> worker \<Rightarrow> (worker \<times> bool \<times> (sched_round \<times> sched_output list) option) option" where
  "schedule_worker s job w =
     (if can_accept w > 0 \<or> need_replace w > 0 then
        do {
          _ \<leftarrow> (if capacity_ok 32 (can_accept w) then Some () else None);
          r \<leftarrow> assign_tasks (can_accept w)
            \<lparr>r_job = job, r_tasks = sc_tasks_queue s, r_worker = w, r_dirty = False, r_sent = [],
             r_repl = [], r_need = sc_need_schedule s\<rparr>;
          let n = need_replace (r_worker r);
          _ \<leftarrow> (if capacity_ok 40 n then Some () else None);
          r \<leftarrow> assign_replacements n r;
          if r_sent r \<noteq> [] \<or> r_repl r \<noteq> [] then
            (let (job_data, w, dirty) = request_job_data (r_job r) (r_worker r);
                 r = r\<lparr>r_worker := w, r_dirty := r_dirty r \<or> dirty\<rparr>
             in Some (r_worker r, r_dirty r,
                  Some (r, nodes_send s (w_id w)
                    \<lparr>rq_job = sj_id (r_job r), rq_job_data = job_data, rq_replacements = r_repl r,
                     rq_tasks = r_sent r\<rparr>)))
          else Some (r_worker r, r_dirty r, Some (r, []))
        }
      else Some (w, False, None))"

definition process_scheduling :: "scheduler \<Rightarrow> (sched_output list \<times> scheduler) option" where
  "process_scheduling s =
     (case sc_scheduled_job s of
        None \<Rightarrow> Some ([], s)
      | Some job \<Rightarrow>
          do {
            (x, q) \<leftarrow> peek_mut_scope worker_lt (sc_workers_queue s) (schedule_worker s job);
            case x of
              Some (Some (r, out)) \<Rightarrow>
                Some (out, s\<lparr>sc_scheduled_job := Some (r_job r), sc_tasks_queue := r_tasks r,
                              sc_workers_queue := q, sc_need_schedule := r_need r\<rparr>)
            | _ \<Rightarrow> Some ([], s\<lparr>sc_workers_queue := q, sc_need_schedule := False\<rparr>)
          })"

section \<open>Worker events\<close>

text \<open>\<open>process_worker_disconnect\<close>: each task of the worker loses one assignment, and counts as
  unscheduled if it was the last.\<close>

fun release_tasks ::
  "worker_id \<Rightarrow> task_id list \<Rightarrow> scheduled_job \<Rightarrow> task priority_queue \<Rightarrow>
   (scheduled_job \<times> task priority_queue) option" where
  "release_tasks wid [] job q = Some (job, q)"
| "release_tasks wid (tid # tids) job q =
     do {
       (x, q) \<leftarrow> ref_mut_scope task_lt q tid
         (\<lambda>t. do {
            (as, m) \<leftarrow> swap_remove_value wid (t_assignments t);
            let t = t\<lparr>t_assignments := as\<rparr>;
            Some (t, m, \<not> has_assignments t)
          });
       let job =
         (case x of
            None \<Rightarrow> job
          | Some unassigned \<Rightarrow>
              job\<lparr>sj_scheduled_tasks := u128_sub (sj_scheduled_tasks job) (of_bool unassigned)\<rparr>);
       release_tasks wid tids job q
     }"

definition process_worker_disconnect :: "scheduler \<Rightarrow> worker_id \<Rightarrow> scheduler option" where
  "process_worker_disconnect s wid =
     do {
       let s = s\<lparr>sc_nodes := snd (vm_remove (sc_nodes s) wid)\<rparr>;
       (x, q) \<leftarrow> pq_remove worker_lt (sc_workers_queue s) wid;
       let s = s\<lparr>sc_workers_queue := q\<rparr>;
       case x of
         None \<Rightarrow> Some s
       | Some (_, w) \<Rightarrow>
           (case sc_scheduled_job s of
              None \<Rightarrow> Some (s\<lparr>sc_need_schedule := True\<rparr>)
            | Some job \<Rightarrow>
                do {
                  (job, q) \<leftarrow> release_tasks wid (w_assignments w) job (sc_tasks_queue s);
                  Some (s\<lparr>sc_need_schedule := True, sc_scheduled_job := Some job, sc_tasks_queue := q\<rparr>)
                })
     }"

definition process_connected :: "scheduler \<Rightarrow> worker_info \<Rightarrow> nat \<Rightarrow> scheduler option" where
  "process_connected s info node =
     do {
       let s = s\<lparr>sc_need_schedule := True,
                 sc_nodes := snd (vm_insert (sc_nodes s) (wi_worker_id info) node)\<rparr>;
       (_, q) \<leftarrow> pq_push worker_lt (sc_workers_queue s) (wi_worker_id info)
         \<lparr>w_id = wi_worker_id info, w_subworkers = wi_subworkers info, w_platform = wi_platform info,
          w_has_job_data = False, w_address = wi_address info, w_replacements = [],
          w_assignments = []\<rparr>;
       Some (s\<lparr>sc_workers_queue := q\<rparr>)
     }"

text \<open>The other workers that hold a completed task: the task becomes one to be replaced.\<close>

fun replace_assignments ::
  "task_id \<Rightarrow> worker_id list \<Rightarrow> worker priority_queue \<Rightarrow> worker priority_queue option" where
  "replace_assignments tid [] q = Some q"
| "replace_assignments tid (wid # wids) q =
     do {
       (_, q) \<leftarrow> ref_mut_scope worker_lt q wid
         (\<lambda>w. do {
            (as, m) \<leftarrow> swap_remove_value tid (w_assignments w);
            Some (w\<lparr>w_assignments := as, w_replacements := w_replacements w @ [tid]\<rparr>, True, ())
          });
       replace_assignments tid wids q
     }"

definition job_completed :: "scheduled_job \<Rightarrow> worker_result \<Rightarrow> scheduled_job option" where
  "job_completed job result =
     (let n = u128_add (sj_completed_tasks job) 1 in
      if n = 0 then None
      else Some (job\<lparr>
        sj_avg_task_completion_time :=
          wrap 64 (sj_avg_task_completion_time job * (sj_completed_tasks job div n) +
                   wr_execution_time result div n),
        sj_completed_tasks := n\<rparr>))"

definition process_result ::
  "scheduler \<Rightarrow> worker_id \<Rightarrow> worker_result \<Rightarrow> (sched_output list \<times> scheduler) option" where
  "process_result s wid result =
     (case sc_scheduled_job s of
        None \<Rightarrow> Some ([], s)
      | Some job \<Rightarrow>
          do {
            (x, q) \<leftarrow> pq_remove task_lt (sc_tasks_queue s) (wr_id result);
            let s = s\<lparr>sc_tasks_queue := q\<rparr>;
            case x of
              None \<Rightarrow>
                do {
                  (y, wq) \<leftarrow> ref_mut_scope worker_lt (sc_workers_queue s) wid
                    (\<lambda>w. do { (w, m) \<leftarrow> drop_replacement (wr_id result) w; Some (w, m, ()) });
                  Some ([], s\<lparr>sc_workers_queue := wq,
                              sc_need_schedule := (if y = None then sc_need_schedule s else True)\<rparr>)
                }
            | Some (tid, task) \<Rightarrow>
                do {
                  job \<leftarrow> job_completed job result;
                  (batch, buf) \<leftarrow> buf_push (sc_results_buffer s) result;
                  let out = (case batch of Some b \<Rightarrow> [Send_Task_Manager (TaskResults b)] | None \<Rightarrow> []);
                  (others, _) \<leftarrow> swap_remove_value wid (t_assignments task);
                  (_, wq) \<leftarrow> ref_mut_scope worker_lt (sc_workers_queue s) wid
                    (\<lambda>w. do {
                       (as, m) \<leftarrow> swap_remove_value tid (w_assignments w);
                       Some (w\<lparr>w_assignments := as\<rparr>, m, ())
                     });
                  wq \<leftarrow> replace_assignments tid others wq;
                  let s = s\<lparr>sc_need_schedule := True, sc_scheduled_job := Some job,
                            sc_results_buffer := buf, sc_workers_queue := wq\<rparr>;
                  if sj_completed_tasks job = sj_total_tasks job then
                    do {
                      rest \<leftarrow> buf_filled_slice buf;
                      let s = s\<lparr>sc_results_buffer := buf_clear buf\<rparr>;
                      Some (out @ [Send_Task_Manager (JobComplete rest (job_stats_of job)),
                                   Send_Node_Manager ReleaseDemand],
                            reset_scheduler s)
                    }
                  else Some (out, s)
                }
          })"

text \<open>The error reports. One task of a report: \<open>scheduled_tasks\<close> is decremented by the task's state
  before its assignment is removed.\<close>

definition unassign_task ::
  "worker_id \<Rightarrow> task_id \<Rightarrow> scheduled_job \<times> task priority_queue \<times> worker \<times> bool \<Rightarrow>
   (bool \<times> scheduled_job \<times> task priority_queue \<times> worker \<times> bool) option" where
  "unassign_task wid tid st =
     (case st of (job, q, w, dirty) \<Rightarrow>
        do {
          (x, q) \<leftarrow> ref_mut_scope task_lt q tid
            (\<lambda>t. do {
               (as, m) \<leftarrow> swap_remove_value wid (t_assignments t);
               Some (t\<lparr>t_assignments := as\<rparr>, m, \<not> has_assignments t)
             });
          case x of
            None \<Rightarrow>
              do { (w, m) \<leftarrow> drop_replacement tid w; Some (False, job, q, w, dirty \<or> m) }
          | Some unassigned \<Rightarrow>
              do {
                (as, m) \<leftarrow> swap_remove_value tid (w_assignments w);
                Some (True,
                  job\<lparr>sj_scheduled_tasks := u128_sub (sj_scheduled_tasks job) (of_bool unassigned)\<rparr>,
                  q, w\<lparr>w_assignments := as\<rparr>, dirty \<or> m)
              }
        })"

fun unassign_tasks ::
  "worker_id \<Rightarrow> task_id list \<Rightarrow> scheduled_job \<times> task priority_queue \<times> worker \<times> bool \<Rightarrow>
   (scheduled_job \<times> task priority_queue \<times> worker \<times> bool) option" where
  "unassign_tasks wid [] st = Some st"
| "unassign_tasks wid (tid # tids) st =
     do { (_, st) \<leftarrow> unassign_task wid tid st; unassign_tasks wid tids st }"

text \<open>The replacements of a \<open>LibraryMissing\<close> report go back to the worker's list.\<close>

fun unassign_replacements ::
  "worker_id \<Rightarrow> (task_id \<times> task_id) list \<Rightarrow> scheduled_job \<times> task priority_queue \<times> worker \<times> bool \<Rightarrow>
   (scheduled_job \<times> task priority_queue \<times> worker \<times> bool) option" where
  "unassign_replacements wid [] st = Some st"
| "unassign_replacements wid ((rid, tid) # rs) st =
     do {
       (found, job, q, w, dirty) \<leftarrow> unassign_task wid tid st;
       unassign_replacements wid rs
         (if found then (job, q, w\<lparr>w_replacements := w_replacements w @ [rid]\<rparr>, True)
          else (job, q, w, dirty))
     }"

definition process_library_missing ::
  "scheduler \<Rightarrow> worker_id \<Rightarrow> task_id list \<Rightarrow> (task_id \<times> task_id) list \<Rightarrow> scheduler option" where
  "process_library_missing s wid tasks replacements =
     (case sc_scheduled_job s of
        None \<Rightarrow> Some s
      | Some job \<Rightarrow>
          do {
            (x, wq) \<leftarrow> ref_mut_scope worker_lt (sc_workers_queue s) wid
              (\<lambda>w. do {
                 st \<leftarrow> unassign_tasks wid tasks (job, sc_tasks_queue s, w\<lparr>w_has_job_data := False\<rparr>, True);
                 (job, q, w, dirty) \<leftarrow> unassign_replacements wid replacements st;
                 Some (w, dirty, (job, q))
               });
            case x of
              None \<Rightarrow> Some (s\<lparr>sc_workers_queue := wq\<rparr>)
            | Some (job, q) \<Rightarrow>
                Some (s\<lparr>sc_workers_queue := wq, sc_scheduled_job := Some job, sc_tasks_queue := q,
                        sc_need_schedule := True\<rparr>)
          })"

definition process_no_free_executors :: "scheduler \<Rightarrow> worker_id \<Rightarrow> task_id list \<Rightarrow> scheduler option" where
  "process_no_free_executors s wid tasks =
     (case sc_scheduled_job s of
        None \<Rightarrow> Some s
      | Some job \<Rightarrow>
          do {
            (x, wq) \<leftarrow> ref_mut_scope worker_lt (sc_workers_queue s) wid
              (\<lambda>w. do {
                 let has = (w_subworkers w \<noteq> 0);
                 let w = (if has then w\<lparr>w_subworkers := usize_sub (w_subworkers w) (length tasks)\<rparr> else w);
                 (job, q, w, dirty) \<leftarrow> unassign_tasks wid tasks (job, sc_tasks_queue s, w, has);
                 Some (w, dirty, (has, job, q))
               });
            case x of
              None \<Rightarrow> Some (s\<lparr>sc_workers_queue := wq\<rparr>)
            | Some (has, job, q) \<Rightarrow>
                Some (s\<lparr>sc_workers_queue := wq, sc_scheduled_job := Some job, sc_tasks_queue := q,
                        sc_need_schedule := has \<or> sc_need_schedule s\<rparr>)
          })"

text \<open>A failed task: at the limit the job is given up, otherwise the failure is counted on the task.\<close>

definition process_task_execution_error ::
  "scheduler \<Rightarrow> worker_id \<Rightarrow> task_id \<Rightarrow> string \<Rightarrow> (sched_output list \<times> scheduler) option" where
  "process_task_execution_error s wid tid error =
     (case sc_scheduled_job s of
        None \<Rightarrow> Some ([], s)
      | Some job \<Rightarrow>
          do {
            (x, wq) \<leftarrow> ref_mut_scope worker_lt (sc_workers_queue s) wid
              (\<lambda>w. do {
                 (y, q) \<leftarrow> ref_mut_scope task_lt (sc_tasks_queue s) tid
                   (\<lambda>t. do {
                      (as, m) \<leftarrow> swap_remove_value wid (t_assignments t);
                      let unassigned = (\<not> has_assignments t);
                      let t = t\<lparr>t_assignments := as\<rparr>;
                      if t_failed_executions t = sc_failed_executions_limit s
                      then Some (t, m, (unassigned, True))
                      else Some (t\<lparr>t_failed_executions := wrap 16 (t_failed_executions t + 1)\<rparr>, True,
                             (unassigned, False))
                    });
                 case y of
                   None \<Rightarrow>
                     do { (w, m) \<leftarrow> drop_replacement tid w; Some (w, m, (q, Some job, [])) }
                 | Some (unassigned, limit) \<Rightarrow>
                     do {
                       let job =
                         job\<lparr>sj_scheduled_tasks := u128_sub (sj_scheduled_tasks job) (of_bool unassigned)\<rparr>;
                       (as, m) \<leftarrow> swap_remove_value tid (w_assignments w);
                       Some (w\<lparr>w_assignments := as\<rparr>, m,
                         (q, if limit then None else Some job,
                          if limit then [Send_Task_Manager (SP_TaskExecutionError error (job_stats_of job))]
                          else []))
                     }
               });
            case x of
              None \<Rightarrow> Some ([], s\<lparr>sc_workers_queue := wq\<rparr>)
            | Some (q, job, out) \<Rightarrow>
                Some (out, s\<lparr>sc_workers_queue := wq, sc_tasks_queue := q, sc_scheduled_job := job,
                             sc_need_schedule := True\<rparr>)
          })"

definition no_output :: "scheduler option \<Rightarrow> (sched_output list \<times> scheduler) option" where
  "no_output r = map_option (Pair []) r"

fun process_workers :: "scheduler \<Rightarrow> worker_event \<Rightarrow> (sched_output list \<times> scheduler) option" where
  "process_workers s (WE_Connected info node) = no_output (process_connected s info node)"
| "process_workers s (WE_Disconnected wid) = no_output (process_worker_disconnect s wid)"
| "process_workers s (WE_Message wid (Result result)) = process_result s wid result"
| "process_workers s (WE_Message wid (Error (LibraryMissing tasks replacements))) =
     no_output (process_library_missing s wid tasks replacements)"
| "process_workers s (WE_Message wid (Error (TaskExecutionError tid error))) =
     process_task_execution_error s wid tid error"
| "process_workers s (WE_Message wid (Error (NoFreeExecutors tasks))) =
     no_output (process_no_free_executors s wid tasks)"

section \<open>Task manager and node manager events\<close>

fun push_tasks :: "worker_task list \<Rightarrow> task priority_queue \<Rightarrow> task priority_queue option" where
  "push_tasks [] q = Some q"
| "push_tasks (td # tds) q =
     do {
       (_, q) \<leftarrow> pq_push task_lt q (wt_id td)
         \<lparr>t_task_data = td, t_failed_executions = 0, t_assignments = []\<rparr>;
       push_tasks tds q
     }"

definition platforms :: "worker_job_data \<Rightarrow> platform list" where
  "platforms job = map fst (wj_data job)"

fun process_task_manager :: "scheduler \<Rightarrow> task_manager_event \<Rightarrow> (sched_output list \<times> scheduler) option" where
  "process_task_manager s (TE_Message SR_HelloMessage) = Some ([], s)"
| "process_task_manager s (TE_Message (SR_NewJob ident total_tasks job)) =
     (let s = reset_scheduler s;
          out = (if sc_nm_connected s then [Send_Node_Manager (WorkersDemand None (platforms job))] else [])
      in if capacity_ok 72 (wrap 64 total_tasks)
         then Some (out, s\<lparr>sc_scheduled_job := Some
           \<lparr>sj_total_tasks = total_tasks, sj_scheduled_tasks = 0, sj_received_tasks = 0,
            sj_completed_tasks = 0, sj_failed_tasks = 0, sj_avg_task_completion_time = 0,
            sj_job = job, sj_id = ident\<rparr>\<rparr>)
         else None)"
| "process_task_manager s (TE_Message (SR_Task batch)) =
     (case sc_scheduled_job s of
        None \<Rightarrow> Some ([], s)
      | Some job \<Rightarrow>
          do {
            let job = job\<lparr>sj_received_tasks := u128_add (sj_received_tasks job) (length batch)\<rparr>;
            q \<leftarrow> push_tasks batch (sc_tasks_queue s);
            Some ([], s\<lparr>sc_scheduled_job := Some job, sc_tasks_queue := q, sc_need_schedule := True\<rparr>)
          })"
| "process_task_manager s TE_Disconnect =
     (case sc_tm_connected s of
        None \<Rightarrow> Some ([], s)
      | Some _ \<Rightarrow>
          Some ([Send_Node_Manager ReleaseDemand],
                reset_scheduler (s\<lparr>sc_scheduled_job := None, sc_tm_connected := None\<rparr>)))"
| "process_task_manager s (TE_Connected addr) = Some ([], s\<lparr>sc_tm_connected := Some addr\<rparr>)"

text \<open>The node manager's handler may fail; \<open>Inl\<close> is the error that ends the process.\<close>

fun process_node_manager ::
  "scheduler \<Rightarrow> node_manager_event \<Rightarrow> (string + sched_output list \<times> scheduler) option" where
  "process_node_manager s (NE_Message (NP_Connect workers)) = Some (Inr (map Connect_Node workers, s))"
| "process_node_manager s (NE_Message (NP_Disconnect wid)) =
     do { s \<leftarrow> process_worker_disconnect s wid; Some (Inr ([], s)) }"
| "process_node_manager s (NE_Message RestoredSession) =
     Some (Inr ([], if \<not> sc_nm_connected s then s\<lparr>sc_nm_connected := True\<rparr> else s))"
| "process_node_manager s (NE_Message CreatedSession) =
     (if \<not> sc_nm_connected s then
        (let s = s\<lparr>sc_nm_connected := True, sc_workers_queue := pq_clear (sc_workers_queue s),
                   sc_nodes := vm_clear (sc_nodes s)\<rparr> in
         case sc_scheduled_job s of
           None \<Rightarrow> Some (Inr ([], s))
         | Some job \<Rightarrow>
             do {
               q \<leftarrow> pq_map_values task_lt (sc_tasks_queue s) (\<lambda>t. t\<lparr>t_assignments := []\<rparr>);
               Some (Inr ([Send_Node_Manager (WorkersDemand None (platforms (sj_job job)))],
                 s\<lparr>sc_scheduled_job := Some (job\<lparr>sj_scheduled_tasks := sj_completed_tasks job\<rparr>),
                   sc_tasks_queue := q\<rparr>))
             })
      else Some (Inr ([], s)))"
| "process_node_manager s NE_Disconnected =
     Some (Inr ([Connect_Node_Manager (sc_node_manager_address s)], s\<lparr>sc_nm_connected := False\<rparr>))"
| "process_node_manager s NE_Connected = Some (Inr ([], s))"
| "process_node_manager s NE_ConnectionNotEstablished =
     Some (Inl ''Failed to establish connection with node manager'')"

section \<open>Commands\<close>

record json_scheduled_job =
  jj_failed_tasks :: nat
  jj_avg_task_completion_time :: nanos
  jj_received_tasks :: nat
  jj_total_tasks :: nat
  jj_scheduled_tasks :: nat
  jj_completed_tasks :: nat
  jj_job_platforms :: "platform list"
  jj_id :: uuid

text \<open>The duration is kept as it is; the code formats it with a library function.\<close>

definition json_of_job :: "scheduled_job \<Rightarrow> json_scheduled_job" where
  "json_of_job j =
     \<lparr>jj_failed_tasks = sj_failed_tasks j,
      jj_avg_task_completion_time = sj_avg_task_completion_time j,
      jj_received_tasks = sj_received_tasks j, jj_total_tasks = sj_total_tasks j,
      jj_scheduled_tasks = sj_scheduled_tasks j, jj_completed_tasks = sj_completed_tasks j,
      jj_job_platforms = platforms (sj_job j), jj_id = sj_id j\<rparr>"

datatype sched_command = Cmd_ScheduledJob | Cmd_Workers nat | Cmd_Tasks nat

datatype sched_answer =
  Ans_ScheduledJob "json_scheduled_job option"
  | Ans_Workers "worker list"
  | Ans_Tasks "task list"

fun process_command :: "scheduler \<Rightarrow> sched_command \<Rightarrow> sched_answer option" where
  "process_command s Cmd_ScheduledJob = Some (Ans_ScheduledJob (map_option json_of_job (sc_scheduled_job s)))"
| "process_command s (Cmd_Workers limit) =
     do { ws \<leftarrow> pq_iter (sc_workers_queue s); Some (Ans_Workers (take limit ws)) }"
| "process_command s (Cmd_Tasks limit) =
     do { ts \<leftarrow> pq_iter (sc_tasks_queue s); Some (Ans_Tasks (take limit ts)) }"

section \<open>The event loop\<close>

datatype sched_event =
  Ev_Task_Manager task_manager_event
  | Ev_Node_Manager node_manager_event
  | Ev_Worker worker_event
  | Ev_Schedule

text \<open>One turn of the \<open>select!\<close> loop; the scheduling branch is taken only when \<open>need_schedule\<close> is set.
  The states reachable from a start state; commands do not change the state.\<close>

inductive sched_step :: "scheduler \<Rightarrow> sched_event \<Rightarrow> sched_output list \<Rightarrow> scheduler \<Rightarrow> bool" where
  step_task_manager:
    "process_task_manager s e = Some (out, s') \<Longrightarrow> sched_step s (Ev_Task_Manager e) out s'"
| step_node_manager:
    "process_node_manager s e = Some (Inr (out, s')) \<Longrightarrow> sched_step s (Ev_Node_Manager e) out s'"
| step_worker:
    "process_workers s e = Some (out, s') \<Longrightarrow> sched_step s (Ev_Worker e) out s'"
| step_schedule:
    "sc_need_schedule s \<Longrightarrow> process_scheduling s = Some (out, s') \<Longrightarrow> sched_step s Ev_Schedule out s'"

inductive sched_reachable :: "nat \<Rightarrow> socket_addr \<Rightarrow> scheduler \<Rightarrow> bool" for limit addr where
  reach_start: "sched_reachable limit addr (scheduler_new limit addr)"
| reach_step: "sched_reachable limit addr s \<Longrightarrow> sched_step s e out s' \<Longrightarrow> sched_reachable limit addr s'"

inductive_cases sched_stepE: "sched_step s e out s'"

end
