(* ===== verification/Scheduler_Rounds.thy ===== *)
theory Scheduler_Rounds
  imports Scheduler "HOL-Library.Multiset"
begin

text \<open>
  One round of \<open>process_scheduling\<close>: what is handed to the first worker, on the side of the tasks and
  on the side of the worker, and what it does to the counters of the job. The orders of the two
  queues are interpreted here as priority orders; a round is described by \<open>round_of\<close>, and
  \<open>process_scheduling_cases\<close> lists the ways a call can go.
\<close>

section \<open>The two orders\<close>

interpretation worker_order: priority_order worker_lt
  by unfold_locales
    (auto simp: cmp_priority_def worker_partial_cmp_def int_partial_cmp_def split: if_splits rust_ordering.splits)

interpretation task_order: priority_order task_lt
  by unfold_locales (auto simp: cmp_priority_def task_partial_cmp_def int_partial_cmp_def split: if_splits)

section \<open>Removal of one value\<close>

lemma mset_swap_removed:
  assumes "i < length xs"
  shows "mset (butlast (xs[i := last xs])) = mset xs - {#xs ! i#}"
proof (cases "i = length xs - 1")
  case True
  with assms show ?thesis
    by (metis append_butlast_last_id butlast_list_update last_conv_nth length_0_conv less_nat_zero_code
        mset_append mset.simps add_diff_cancel_right' list_update_id)
next
  case False
  with assms have i: "i < length (butlast xs)" by auto
  have b: "butlast (xs[i := last xs]) = (butlast xs)[i := last xs]"
    using False assms by (simp add: butlast_list_update)
  have x: "xs = butlast xs @ [last xs]" using assms by (metis append_butlast_last_id less_nat_zero_code list.size(3))
  have n: "butlast xs ! i = xs ! i" using i by (simp add: nth_butlast)
  have "mset ((butlast xs)[i := last xs]) = add_mset (last xs) (mset (butlast xs) - {#xs ! i#})"
    using i n by (simp add: mset_update)
  also have "\<dots> = add_mset (last xs) (mset (butlast xs)) - {#xs ! i#}"
    using i n by (metis diff_union_swap2 in_multiset_in_set nth_mem diff_union_single_conv union_mset_add_mset_left add_mset_add_single insert_DiffM add_mset_remove_trivial)
  also have "add_mset (last xs) (mset (butlast xs)) = mset xs"
    using x by (metis add_mset_add_single mset.simps(1) mset.simps(2) mset_append union_commute add.right_neutral)
  finally show ?thesis using b by simp
qed

lemma swap_remove_value_spec:
  obtains ys where "swap_remove_value x xs = Some (ys, x \<in> set xs)" "mset ys = mset xs - {#x#}"
    "x \<notin> set xs \<longrightarrow> ys = xs"
proof (cases "position (\<lambda>y. y = x) xs")
  case None
  then have "x \<notin> set xs" by (auto simp: position_None_iff)
  with None show ?thesis by (intro that[of xs]) (auto simp: swap_remove_value_def)
next
  case (Some i)
  then have i: "i < length xs" "xs ! i = x" by (auto simp: position_Some_iff)
  then have "x \<in> set xs" by auto
  with Some i show ?thesis
    by (intro that[of "butlast (xs[i := last xs])"])
      (auto simp: swap_remove_value_def vec_swap_remove_def mset_swap_removed)
qed

section \<open>The abstract view\<close>

text \<open>What the scheduler knows: the tasks and the workers by their identifiers. \<open>held\<close> and \<open>holds\<close>
  count how often a task is assigned to a worker, on the task's and on the worker's side.\<close>

abbreviation task_map :: "scheduler \<Rightarrow> task_id \<Rightarrow> task option" where
  "task_map s \<equiv> pq_vals (sc_tasks_queue s)"

abbreviation worker_map :: "scheduler \<Rightarrow> worker_id \<Rightarrow> worker option" where
  "worker_map s \<equiv> pq_vals (sc_workers_queue s)"

definition held :: "(task_id \<Rightarrow> task option) \<Rightarrow> task_id \<Rightarrow> worker_id \<Rightarrow> nat" where
  "held T tid wid = (case T tid of None \<Rightarrow> 0 | Some t \<Rightarrow> count (mset (t_assignments t)) wid)"

definition holds :: "(worker_id \<Rightarrow> worker option) \<Rightarrow> worker_id \<Rightarrow> task_id \<Rightarrow> nat" where
  "holds W wid tid = (case W wid of None \<Rightarrow> 0 | Some w \<Rightarrow> count (mset (w_assignments w)) tid)"

definition symmetric :: "(task_id \<Rightarrow> task option) \<Rightarrow> (worker_id \<Rightarrow> worker option) \<Rightarrow> bool" where
  "symmetric T W \<longleftrightarrow> (\<forall>tid wid. held T tid wid = holds W wid tid)"

definition tasks_wf :: "(task_id \<Rightarrow> task option) \<Rightarrow> bool" where
  "tasks_wf T \<longleftrightarrow> (\<forall>tid t. T tid = Some t \<longrightarrow> wt_id (t_task_data t) = tid)"

definition workers_wf :: "(worker_id \<Rightarrow> worker option) \<Rightarrow> bool" where
  "workers_wf W \<longleftrightarrow> (\<forall>wid w. W wid = Some w \<longrightarrow> w_id w = wid)"

definition sched_wf :: "scheduler \<Rightarrow> bool" where
  "sched_wf s \<longleftrightarrow>
     pq_ok (sc_tasks_queue s) \<and> pq_ok (sc_workers_queue s) \<and> tasks_wf (task_map s) \<and>
     workers_wf (worker_map s) \<and> buf_inv (sc_results_buffer s) \<and> buf_N (sc_results_buffer s) = 200"

text \<open>The tasks that some worker has.\<close>

definition assigned :: "(task_id \<Rightarrow> task option) \<Rightarrow> task_id set" where
  "assigned T = {tid. \<exists>t. T tid = Some t \<and> has_assignments t}"

text \<open>The counters of the job: every task that was scheduled is completed or assigned, every task
  that was received is completed or in the queue, and no more were received than announced.\<close>

definition counted :: "scheduled_job \<Rightarrow> (task_id \<Rightarrow> task option) \<Rightarrow> bool" where
  "counted job T \<longleftrightarrow>
     sj_scheduled_tasks job = sj_completed_tasks job + card (assigned T) \<and>
     sj_received_tasks job = sj_completed_tasks job + card (dom T) \<and>
     sj_received_tasks job \<le> sj_total_tasks job \<and> sj_total_tasks job < 2 ^ 128"

text \<open>A worker is not overcommitted.\<close>

definition within_capacity :: "worker \<Rightarrow> bool" where
  "within_capacity w \<longleftrightarrow>
     length (w_assignments w) + length (w_replacements w) \<le> w_subworkers w \<and> 40 * w_subworkers w < 2 ^ 63"

lemma assigned_subset: "assigned T \<subseteq> dom T"
  by (auto simp: assigned_def)

lemma pq_vals_finite: "pq_ok q \<Longrightarrow> finite (dom (pq_vals q))"
  using pq_vals_dom[OF pq_ok_weaken] by (metis List.finite_set)

section \<open>One round of scheduling\<close>

text \<open>What the round has handed out to the worker \<open>w\<close> so far.\<close>

definition handed_out :: "sched_round \<Rightarrow> worker_task list" where
  "handed_out r = r_sent r @ map snd (r_repl r)"

definition hand_to :: "worker_id \<Rightarrow> task_id list \<Rightarrow> (task_id \<Rightarrow> task option) \<Rightarrow> task_id \<Rightarrow> task option" where
  "hand_to wid new T tid =
     map_option (\<lambda>t. t\<lparr>t_assignments := t_assignments t @ replicate (count_list new tid) wid\<rparr>) (T tid)"

text \<open>Whether the tasks may be handed to a worker in this order, and the job with its counter afterwards: each has to be unassigned, unless all tasks of the job
  have been scheduled.\<close>

fun chosen :: "scheduled_job \<Rightarrow> (task_id \<Rightarrow> task option) \<Rightarrow> worker_id \<Rightarrow> task_id list \<Rightarrow> scheduled_job option" where
  "chosen job T wid [] = Some job"
| "chosen job T wid (tid # tids) =
     (case T tid of
        None \<Rightarrow> None
      | Some t \<Rightarrow>
          if \<not> has_assignments t \<or> sj_scheduled_tasks job = sj_total_tasks job
          then chosen (count_scheduled (\<not> has_assignments t) job) (hand_to wid [tid] T) wid tids
          else None)"

definition round_from ::
  "scheduled_job \<Rightarrow> (task_id \<Rightarrow> task option) \<Rightarrow> worker \<Rightarrow> sched_round \<Rightarrow> bool" where
  "round_from job T w r \<longleftrightarrow>
     pq_ok (r_tasks r) \<and> tasks_wf T \<and>
     pq_vals (r_tasks r) = hand_to (w_id w) (map wt_id (handed_out r)) T \<and>
     (\<exists>rs. w_replacements w = rs @ rev (map fst (r_repl r)) \<and>
       r_worker r = w\<lparr>w_assignments := w_assignments w @ map wt_id (handed_out r), w_replacements := rs\<rparr>) \<and>
     (\<not> r_dirty r \<longrightarrow> handed_out r = []) \<and>
     (\<forall>td \<in> set (handed_out r). map_option t_task_data (T (wt_id td)) = Some td) \<and>
     (\<exists>n. r_job r = job\<lparr>sj_scheduled_tasks := n\<rparr>) \<and>
     chosen job T (w_id w) (map wt_id (handed_out r)) = Some (r_job r) \<and>
     (counted job T \<longrightarrow> counted (r_job r) (pq_vals (r_tasks r)))"

lemma hand_to_Nil [simp]: "hand_to wid [] T = T"
  by (rule ext) (simp add: hand_to_def option.map_ident)

lemma hand_to_dom [simp]: "dom (hand_to wid new T) = dom T"
  by (auto simp: hand_to_def dom_def)

lemma hand_to_snoc:
  assumes "hand_to wid new T tid = Some t"
  shows "(hand_to wid new T)(tid \<mapsto> t\<lparr>t_assignments := t_assignments t @ [wid]\<rparr>) = hand_to wid (new @ [tid]) T"
  using assms by (auto simp: hand_to_def fun_eq_iff replicate_append_same replicate_add split: option.splits)

lemma hand_to_append: "hand_to wid tids (hand_to wid [tid] T) = hand_to wid (tid # tids) T"
  by (auto simp: hand_to_def fun_eq_iff option.map_comp comp_def replicate_append_same)

lemma chosen_snoc:
  assumes "chosen job T wid tids = Some job'" "hand_to wid tids T tid = Some t"
    "\<not> has_assignments t \<or> sj_scheduled_tasks job' = sj_total_tasks job'"
  shows "chosen job T wid (tids @ [tid]) = Some (count_scheduled (\<not> has_assignments t) job')"
  using assms
proof (induction tids arbitrary: job T)
  case (Cons x tids)
  then show ?case by (auto simp: hand_to_append split: option.splits if_splits)
qed simp

lemma hand_to_data: "map_option t_task_data (hand_to wid new T tid) = map_option t_task_data (T tid)"
  by (cases "T tid") (simp_all add: hand_to_def)

lemma tasks_wf_hand_to: "tasks_wf T \<Longrightarrow> tasks_wf (hand_to wid new T)"
  by (auto simp: tasks_wf_def hand_to_def)

text \<open>The counters when one more task is handed out.\<close>

lemma assigned_upd:
  "has_assignments t' \<Longrightarrow> assigned (T(tid \<mapsto> t')) = insert tid (assigned T)"
  "\<not> has_assignments t' \<Longrightarrow> assigned (T(tid \<mapsto> t')) = assigned T - {tid}"
  "assigned (T(tid := None)) = assigned T - {tid}"
  by (auto simp: assigned_def)

lemma counted_hand_out:
  assumes c: "counted job T" and t: "T tid = Some t" and fin: "finite (dom T)"
    and ne: "has_assignments t'"
  shows "counted (count_scheduled (\<not> has_assignments t) job) (T(tid \<mapsto> t'))"
proof -
  have fa: "finite (assigned T)" using fin assigned_subset finite_subset by blast
  have d: "dom (T(tid \<mapsto> t')) = dom T" using t by auto
  have le: "sj_scheduled_tasks job < 2 ^ 128"
    using c card_mono[OF fin assigned_subset] by (auto simp: counted_def)
  show ?thesis
  proof (cases "has_assignments t")
    case True
    then have "tid \<in> assigned T" using t by (auto simp: assigned_def)
    then show ?thesis using c True le
      unfolding counted_def d by (auto simp: count_scheduled_def assigned_upd(1)[OF ne] insert_absorb u128_add_small)
  next
    case False
    then have n: "tid \<notin> assigned T" "tid \<in> dom T" using t by (auto simp: assigned_def)
    then have "card (assigned T) < card (dom T)" using fin assigned_subset
      by (metis psubset_card_mono psubsetI)
    then have "sj_scheduled_tasks job + 1 < 2 ^ 128" using c by (auto simp: counted_def)
    then show ?thesis using c False n fa
      unfolding counted_def d by (simp add: count_scheduled_def assigned_upd(1)[OF ne] u128_add_small)
  qed
qed

text \<open>Looking at the first task of the queue.\<close>

lemma first_entry:
  assumes "pq_ok q" "pq_heap q \<noteq> []"
  shows "pq_vals q (pq_heap q ! 0) = Some (pq_prio q 0)"
  using pq_vals_heap[OF assms(1)] assms(2) by auto

lemma peek_task_cases:
  assumes ok: "pq_ok q"
    and body: "\<And>t. body t = Some (if taken t then t\<lparr>t_assignments := t_assignments t @ [wid]\<rparr> else t, taken t, f t)"
  obtains (empty) "pq_heap q = []" "peek_mut_scope task_lt q body = Some (None, q)"
  | (kept) q' t where "pq_vals q (pq_heap q ! 0) = Some t" "pq_heap q \<noteq> []" "\<not> taken t" "pq_ok q'"
      "peek_mut_scope task_lt q body = Some (Some (f t), q')" "pq_vals q' = pq_vals q"
  | (handed) q' t where "pq_vals q (pq_heap q ! 0) = Some t" "pq_heap q \<noteq> []" "taken t" "pq_ok q'"
      "peek_mut_scope task_lt q body = Some (Some (f t), q')"
      "pq_vals q' = (pq_vals q)(pq_heap q ! 0 \<mapsto> t\<lparr>t_assignments := t_assignments t @ [wid]\<rparr>)"
proof (cases "pq_heap q = []")
  case True
  then show ?thesis by (intro empty) (simp_all add: task_order.peek_mut_scope_empty)
next
  case False
  let ?t = "pq_prio q 0"
  have t: "pq_vals q (pq_heap q ! 0) = Some ?t" using first_entry[OF ok False] .
  have keep: "\<not> taken ?t \<Longrightarrow> (if taken ?t then ?t\<lparr>t_assignments := t_assignments ?t @ [wid]\<rparr> else ?t) = ?t"
    by simp
  obtain q' where q': "peek_mut_scope task_lt q body = Some (Some (f ?t), q')" "pq_ok q'"
    "pq_vals q' = (pq_vals q)(pq_heap q ! 0 \<mapsto>
       (if taken ?t then ?t\<lparr>t_assignments := t_assignments ?t @ [wid]\<rparr> else ?t))"
    by (rule task_order.peek_mut_scope_spec[where body = body, OF ok False body keep])
  show ?thesis
  proof (cases "taken ?t")
    case True
    with q' t False show ?thesis by (intro handed) auto
  next
    case not: False
    with q' t have "pq_vals q' = pq_vals q" by (simp add: fun_upd_idem)
    then show ?thesis by (rule kept[OF t False not q'(2,1)])
  qed
qed

lemma round_hand_out:
  assumes r: "round_from job T w r" and t: "pq_vals (r_tasks r) tid = Some t" and q: "pq_ok q"
    and vals: "pq_vals q = (pq_vals (r_tasks r))(tid \<mapsto> t\<lparr>t_assignments := t_assignments t @ [w_id w]\<rparr>)"
    and sent: "handed_out r' = handed_out r @ [t_task_data t]" and r': "r_tasks r' = q" "r_dirty r'"
    "r_job r' = count_scheduled (\<not> has_assignments t) (r_job r)"
    and taken: "\<not> has_assignments t \<or> sj_scheduled_tasks (r_job r) = sj_total_tasks (r_job r)"
    and w': "r_worker r' = (r_worker r)\<lparr>w_assignments := w_assignments (r_worker r) @ [wt_id (t_task_data t)],
       w_replacements := rs\<rparr>" "w_replacements w = rs @ rev (map fst (r_repl r'))"
  shows "round_from job T w r'"
proof -
  obtain rs0 where wf: "tasks_wf T" and H: "pq_vals (r_tasks r) = hand_to (w_id w) (map wt_id (handed_out r)) T"
    and W: "r_worker r = w\<lparr>w_assignments := w_assignments w @ map wt_id (handed_out r), w_replacements := rs0\<rparr>"
    and D: "\<forall>td \<in> set (handed_out r). map_option t_task_data (T (wt_id td)) = Some td"
    and C: "counted job T \<longrightarrow> counted (r_job r) (pq_vals (r_tasks r))"
    and K: "chosen job T (w_id w) (map wt_id (handed_out r)) = Some (r_job r)"
    and J: "\<exists>n. r_job r = job\<lparr>sj_scheduled_tasks := n\<rparr>" and ok: "pq_ok (r_tasks r)"
    using r unfolding round_from_def by blast
  have id: "wt_id (t_task_data t) = tid"
    using tasks_wf_hand_to[OF wf] t unfolding H by (auto simp: tasks_wf_def)
  have vals': "pq_vals (r_tasks r') = hand_to (w_id w) (map wt_id (handed_out r')) T"
    using hand_to_snoc[of "w_id w" "map wt_id (handed_out r)" T tid t] t vals
    by (simp add: H sent id r')
  have data: "map_option t_task_data (T tid) = Some (t_task_data t)"
    using t hand_to_data[of "w_id w" "map wt_id (handed_out r)" T tid] by (simp add: H)
  have C': "counted job T \<longrightarrow> counted (r_job r') (pq_vals (r_tasks r'))"
    using counted_hand_out[OF _ t pq_vals_finite[OF ok]] C vals by (simp add: r' has_assignments_def)
  have J': "\<exists>n. r_job r' = job\<lparr>sj_scheduled_tasks := n\<rparr>"
    using J by (auto simp: r' count_scheduled_def)
  have K': "chosen job T (w_id w) (map wt_id (handed_out r')) = Some (r_job r')"
    using chosen_snoc[OF K, of tid t] t taken by (simp add: H sent id r')
  have W': "r_worker r' = w\<lparr>w_assignments := w_assignments w @ map wt_id (handed_out r'), w_replacements := rs\<rparr>"
    using W w'(1) by (simp add: sent)
  have D': "\<forall>td \<in> set (handed_out r'). map_option t_task_data (T (wt_id td)) = Some td"
    using D data id by (auto simp: sent)
  show ?thesis
    unfolding round_from_def using vals' wf W' w'(2) C' J' K' q D' r' by blast
qed

lemma round_requeue:
  assumes r: "round_from job T w r" and "pq_ok q" "pq_vals q = pq_vals (r_tasks r)"
  shows "round_from job T w (r\<lparr>r_tasks := q\<rparr>)" "round_from job T w (r\<lparr>r_tasks := q, r_need := n\<rparr>)"
  using assms unfolding round_from_def handed_out_def by (elim conjE, simp)+

lemma round_worker_id: "round_from job T w r \<Longrightarrow> w_id (r_worker r) = w_id w"
  by (auto simp: round_from_def)


lemma assign_tasks_spec:
  assumes "round_from job T w r" "r_repl r = []"
  shows "\<exists>r'. assign_tasks n r = Some r' \<and> round_from job T w r' \<and> r_repl r' = [] \<and>
    length (r_sent r') \<le> length (r_sent r) + n \<and> (r_need r' \<longrightarrow> r_need r) \<and>
    (r_need r' \<longrightarrow> length (r_sent r') = length (r_sent r) + n)"
  using assms
proof (induction n arbitrary: r)
  case 0
  then show ?case by simp
next
  case (Suc n)
  let ?taken = "\<lambda>t. \<not> has_assignments t \<or> sj_scheduled_tasks (r_job r) = sj_total_tasks (r_job r)"
  let ?f = "\<lambda>t. if ?taken t then Some (\<not> has_assignments t, t_task_data t) else None"
  have ok: "pq_ok (r_tasks r)" using Suc.prems by (simp add: round_from_def)
  have id: "w_id (r_worker r) = w_id w" using round_worker_id[OF Suc.prems(1)] .
  have body: "take_task (r_job r) (w_id w) t =
     Some (if ?taken t then t\<lparr>t_assignments := t_assignments t @ [w_id w]\<rparr> else t, ?taken t, ?f t)" for t
    by (simp add: take_task_def Let_def)
  show ?case
  proof (rule peek_task_cases[OF ok body])
    assume "peek_mut_scope task_lt (r_tasks r) (take_task (r_job r) (w_id w)) = Some (None, r_tasks r)"
    then show ?thesis using Suc.prems round_requeue[OF Suc.prems(1) ok refl] by (auto simp: id)
  next
    fix q t
    assume "peek_mut_scope task_lt (r_tasks r) (take_task (r_job r) (w_id w)) = Some (Some (?f t), q)"
      "\<not> ?taken t" and q: "pq_ok q" "pq_vals q = pq_vals (r_tasks r)"
    then show ?thesis using Suc.prems round_requeue[OF Suc.prems(1) q] by (auto simp: id)
  next
    fix q t
    assume t: "pq_vals (r_tasks r) (pq_heap (r_tasks r) ! 0) = Some t" "?taken t" and q: "pq_ok q"
      "pq_vals q = (pq_vals (r_tasks r))(pq_heap (r_tasks r) ! 0 \<mapsto> t\<lparr>t_assignments := t_assignments t @ [w_id w]\<rparr>)"
      and p: "peek_mut_scope task_lt (r_tasks r) (take_task (r_job r) (w_id w)) = Some (Some (?f t), q)"
    let ?r = "r\<lparr>r_tasks := q,
                r_worker := (r_worker r)\<lparr>w_assignments := w_assignments (r_worker r) @ [wt_id (t_task_data t)]\<rparr>,
                r_dirty := True,
                r_sent := r_sent r @ [t_task_data t],
                r_job := count_scheduled (\<not> has_assignments t) (r_job r)\<rparr>"
    have w: "w_replacements w = w_replacements (r_worker r)"
      using Suc.prems by (auto simp: round_from_def)
    have "round_from job T w ?r"
      by (rule round_hand_out[OF Suc.prems(1) t(1) q, where rs = "w_replacements (r_worker r)"])
        (use t(2) in \<open>simp_all add: handed_out_def Suc.prems(2) w\<close>)
    then show ?thesis using Suc.IH[of ?r] Suc.prems(2) p t(2) by (auto simp: id)
  qed
qed


lemma assign_replacements_spec:
  assumes "round_from job T w r" "n \<le> length (w_replacements (r_worker r))"
  shows "\<exists>r'. assign_replacements n r = Some r' \<and> round_from job T w r' \<and> r_sent r' = r_sent r \<and>
    (r_need r' \<longrightarrow> r_need r) \<and> (r_need r' \<longrightarrow> length (r_repl r') = length (r_repl r) + n)"
  using assms
proof (induction n arbitrary: r)
  case 0
  then show ?case by simp
next
  case (Suc n)
  let ?taken = "\<lambda>t. \<not> has_assignments t \<or> sj_scheduled_tasks (r_job r) = sj_total_tasks (r_job r)"
  let ?f = "\<lambda>t. if ?taken t then Some (Some (\<not> has_assignments t, t_task_data t)) else None"
  let ?peek = "peek_mut_scope task_lt (r_tasks r) (take_replacement (r_job r) (r_worker r))"
  have ok: "pq_ok (r_tasks r)" using Suc.prems by (simp add: round_from_def)
  have ne: "w_replacements (r_worker r) \<noteq> []" using Suc.prems by auto
  have body: "take_replacement (r_job r) (r_worker r) t =
     Some (if ?taken t then t\<lparr>t_assignments := t_assignments t @ [w_id w]\<rparr> else t, ?taken t, ?f t)" for t
    using ne by (simp add: take_replacement_def Let_def round_worker_id[OF Suc.prems(1)])
  show ?case
  proof (rule peek_task_cases[OF ok body])
    assume "?peek = Some (None, r_tasks r)"
    then show ?thesis using round_requeue[OF Suc.prems(1) ok refl] by auto
  next
    fix q t
    assume "?peek = Some (Some (?f t), q)" "\<not> ?taken t" and q: "pq_ok q" "pq_vals q = pq_vals (r_tasks r)"
    then show ?thesis using round_requeue[OF Suc.prems(1) q] by auto
  next
    fix q t
    assume t: "pq_vals (r_tasks r) (pq_heap (r_tasks r) ! 0) = Some t" "?taken t" and q: "pq_ok q"
      "pq_vals q = (pq_vals (r_tasks r))(pq_heap (r_tasks r) ! 0 \<mapsto> t\<lparr>t_assignments := t_assignments t @ [w_id w]\<rparr>)"
      and p: "?peek = Some (Some (?f t), q)"
    let ?rs = "w_replacements (r_worker r)"
    let ?r = "r\<lparr>r_tasks := q,
                r_worker := (r_worker r)\<lparr>w_replacements := butlast ?rs,
                                         w_assignments := w_assignments (r_worker r) @ [wt_id (t_task_data t)]\<rparr>,
                r_dirty := True,
                r_repl := r_repl r @ [(last ?rs, t_task_data t)],
                r_job := count_scheduled (\<not> has_assignments t) (r_job r)\<rparr>"
    have w: "w_replacements w = ?rs @ rev (map fst (r_repl r))"
      using Suc.prems by (auto simp: round_from_def)
    have "round_from job T w ?r"
      by (rule round_hand_out[OF Suc.prems(1) t(1) q, where rs = "butlast ?rs"])
        (use ne t(2) in \<open>simp_all add: handed_out_def w\<close>)
    then show ?thesis using Suc.IH[of ?r] Suc.prems(2) p t(2) by auto
  qed
qed

text \<open>The whole block over the first worker.\<close>

definition round_of :: "scheduler \<Rightarrow> scheduled_job \<Rightarrow> worker \<Rightarrow> sched_round \<Rightarrow> worker \<Rightarrow> sched_output list \<Rightarrow> bool" where
  "round_of s job w r w' out \<longleftrightarrow>
     round_from job (task_map s) w r \<and> length (r_sent r) \<le> can_accept w \<and>
     (r_need r \<longrightarrow> length (r_sent r) = can_accept w \<and> length (r_repl r) = need_replace w) \<and>
     (if handed_out r = [] then w' = r_worker r \<and> out = []
      else w' = (r_worker r)\<lparr>w_has_job_data := True\<rparr> \<and>
        out = nodes_send s (w_id w)
          \<lparr>rq_job = sj_id job, rq_job_data = fst (request_job_data job w),
           rq_replacements = r_repl r, rq_tasks = r_sent r\<rparr>)"


lemma schedule_worker_spec:
  assumes ok: "pq_ok (sc_tasks_queue s)" "tasks_wf (task_map s)"
    and work: "can_accept w > 0 \<or> need_replace w > 0"
    and cap: "capacity_ok 32 (can_accept w)" "capacity_ok 40 (need_replace w)"
  obtains r r' w' dirty out where
    "schedule_worker s job w = Some (w', dirty, Some (r', out))" "round_of s job w r w' out" "\<not> dirty \<Longrightarrow> w' = w"
    "r_tasks r' = r_tasks r" "r_job r' = r_job r" "r_need r' = r_need r" "r_need r \<longrightarrow> sc_need_schedule s"
proof -
  let ?r0 = "\<lparr>r_job = job, r_tasks = sc_tasks_queue s, r_worker = w, r_dirty = False, r_sent = [],
             r_repl = [], r_need = sc_need_schedule s\<rparr>"
  have "round_from job (task_map s) w ?r0"
    using ok by (cases w, cases job) (auto simp: round_from_def handed_out_def)
  then obtain r1 where r1: "assign_tasks (can_accept w) ?r0 = Some r1" "round_from job (task_map s) w r1"
    "r_repl r1 = []" "length (r_sent r1) \<le> can_accept w" "r_need r1 \<longrightarrow> sc_need_schedule s"
    "r_need r1 \<longrightarrow> length (r_sent r1) = can_accept w"
    using assign_tasks_spec[of job "task_map s" w ?r0 "can_accept w"] by auto
  have need: "need_replace (r_worker r1) = need_replace w"
    using r1(2,3) by (auto simp: round_from_def need_replace_def)
  obtain r where r: "assign_replacements (need_replace w) r1 = Some r" "round_from job (task_map s) w r"
    "r_sent r = r_sent r1" "r_need r \<longrightarrow> r_need r1" "r_need r \<longrightarrow> length (r_repl r) = need_replace w"
    using assign_replacements_spec[OF r1(2), of "need_replace w"] need r1(3) by (auto simp: need_replace_def)
  have same: "sj_id (r_job r) = sj_id job" "sj_job (r_job r) = sj_job job" "w_id (r_worker r) = w_id w"
    "w_has_job_data (r_worker r) = w_has_job_data w" "w_platform (r_worker r) = w_platform w"
    "\<not> r_dirty r \<Longrightarrow> handed_out r = []" "handed_out r = [] \<Longrightarrow> r_worker r = w"
    using r(2) by (auto simp: round_from_def handed_out_def)
  have empty: "handed_out r = [] \<longleftrightarrow> r_sent r = [] \<and> r_repl r = []" by (simp add: handed_out_def)
  have start: "schedule_worker s job w =
     (if r_sent r \<noteq> [] \<or> r_repl r \<noteq> [] then
        (let (job_data, w, dirty) = request_job_data (r_job r) (r_worker r);
             r = r\<lparr>r_worker := w, r_dirty := r_dirty r \<or> dirty\<rparr>
         in Some (r_worker r, r_dirty r,
              Some (r, nodes_send s (w_id w)
                \<lparr>rq_job = sj_id (r_job r), rq_job_data = job_data, rq_replacements = r_repl r,
                 rq_tasks = r_sent r\<rparr>)))
      else Some (r_worker r, r_dirty r, Some (r, [])))"
    using work cap r1(1) r(1) by (simp add: schedule_worker_def need Let_def)
  show ?thesis
  proof (cases "handed_out r = []")
    case True
    then show ?thesis
      using start r r1 same by (intro that[of "r_worker r" "r_dirty r" r "[]" r]) (auto simp: round_of_def empty)
  next
    case False
    have data: "request_job_data (r_job r) (r_worker r) =
        (fst (request_job_data job w), (r_worker r)\<lparr>w_has_job_data := True\<rparr>, \<not> w_has_job_data w)"
      using same by (cases "r_worker r") (simp add: request_job_data_def)
    let ?r' = "r\<lparr>r_worker := (r_worker r)\<lparr>w_has_job_data := True\<rparr>, r_dirty := r_dirty r \<or> \<not> w_has_job_data w\<rparr>"
    show ?thesis
      using start False r r1 same
      by (intro that[of "r_worker ?r'" "r_dirty ?r'" ?r' "nodes_send s (w_id w)
          \<lparr>rq_job = sj_id job, rq_job_data = fst (request_job_data job w),
           rq_replacements = r_repl r, rq_tasks = r_sent r\<rparr>" r])
        (auto simp: round_of_def empty data)
  qed
qed


text \<open>A round panics exactly if the capacity of its vectors is out of range.\<close>

definition round_fits :: "scheduler \<Rightarrow> bool" where
  "round_fits s \<longleftrightarrow>
     sc_scheduled_job s = None \<or> pq_heap (sc_workers_queue s) = [] \<or>
     (let w = pq_prio (sc_workers_queue s) 0 in
      can_accept w = 0 \<and> need_replace w = 0 \<or>
      capacity_ok 32 (can_accept w) \<and> capacity_ok 40 (need_replace w))"

lemma schedule_worker_panics:
  assumes ok: "pq_ok (sc_tasks_queue s)" "tasks_wf (task_map s)"
    and work: "can_accept w > 0 \<or> need_replace w > 0"
    and cap: "\<not> (capacity_ok 32 (can_accept w) \<and> capacity_ok 40 (need_replace w))"
  shows "schedule_worker s job w = None"
proof -
  let ?r0 = "\<lparr>r_job = job, r_tasks = sc_tasks_queue s, r_worker = w, r_dirty = False, r_sent = [],
             r_repl = [], r_need = sc_need_schedule s\<rparr>"
  have "round_from job (task_map s) w ?r0"
    using ok by (cases w, cases job) (auto simp: round_from_def handed_out_def)
  then obtain r1 where r1: "assign_tasks (can_accept w) ?r0 = Some r1" "round_from job (task_map s) w r1"
    "r_repl r1 = []"
    using assign_tasks_spec[of job "task_map s" w ?r0 "can_accept w"] by auto
  have "need_replace (r_worker r1) = need_replace w"
    using r1(2,3) by (auto simp: round_from_def need_replace_def)
  then show ?thesis using r1(1) work cap by (auto simp: schedule_worker_def Let_def)
qed

lemma process_scheduling_cases:
  assumes wf: "sched_wf s" and fits: "round_fits s"
  obtains (no_job) "sc_scheduled_job s = None" "process_scheduling s = Some ([], s)"
  | (idle) job q where "sc_scheduled_job s = Some job" "pq_ok q" "pq_vals q = worker_map s"
      "process_scheduling s = Some ([], s\<lparr>sc_workers_queue := q, sc_need_schedule := False\<rparr>)"
      "pq_heap (sc_workers_queue s) = [] \<or>
       (\<exists>w. worker_map s (pq_heap (sc_workers_queue s) ! 0) = Some w \<and> can_accept w = 0 \<and> need_replace w = 0)"
  | (round) job wid w r w' q out where "sc_scheduled_job s = Some job"
      "worker_map s wid = Some w" "wid = pq_heap (sc_workers_queue s) ! 0" "w_id w = wid"
      "round_of s job w r w' out" "pq_ok q" "pq_vals q = (worker_map s)(wid \<mapsto> w')"
      "r_need r \<longrightarrow> sc_need_schedule s" "can_accept w > 0 \<or> need_replace w > 0"
      "process_scheduling s = Some (out, s\<lparr>sc_scheduled_job := Some (r_job r), sc_tasks_queue := r_tasks r,
         sc_workers_queue := q, sc_need_schedule := r_need r\<rparr>)"
proof (cases "sc_scheduled_job s")
  case None
  then show ?thesis by (intro no_job) (simp_all add: process_scheduling_def)
next
  case (Some job)
  have okW: "pq_ok (sc_workers_queue s)" and okT: "pq_ok (sc_tasks_queue s)" "tasks_wf (task_map s)"
    using wf by (simp_all add: sched_wf_def)
  show ?thesis
  proof (cases "pq_heap (sc_workers_queue s) = []")
    case True
    then show ?thesis using okW
      by (intro idle[OF Some okW refl])
        (simp_all add: process_scheduling_def Some worker_order.peek_mut_scope_empty)
  next
    case ne: False
    let ?wid = "pq_heap (sc_workers_queue s) ! 0" and ?w = "pq_prio (sc_workers_queue s) 0"
    have w: "worker_map s ?wid = Some ?w" using first_entry[OF okW ne] .
    have id: "w_id ?w = ?wid" using wf w by (auto simp: sched_wf_def workers_wf_def)
    show ?thesis
    proof (cases "can_accept ?w > 0 \<or> need_replace ?w > 0")
      case True
      have cap: "capacity_ok 32 (can_accept ?w)" "capacity_ok 40 (need_replace ?w)"
        using fits ne Some True by (auto simp: round_fits_def Let_def)
      obtain r r' w' dirty out where
        r: "schedule_worker s job ?w = Some (w', dirty, Some (r', out))" "round_of s job ?w r w' out"
        "\<not> dirty \<Longrightarrow> w' = ?w" "r_tasks r' = r_tasks r" "r_job r' = r_job r" "r_need r' = r_need r"
        "r_need r \<longrightarrow> sc_need_schedule s"
        using schedule_worker_spec[OF okT True cap] by metis
      obtain q where q: "peek_mut_scope worker_lt (sc_workers_queue s) (schedule_worker s job) = Some (Some (Some (r', out)), q)"
        "pq_ok q" "pq_vals q = (worker_map s)(?wid \<mapsto> w')"
        by (rule worker_order.peek_mut_scope_spec[where body = "schedule_worker s job", OF okW ne r(1,3)])
      show ?thesis
        by (rule round[OF Some w refl id r(2) q(2,3) r(7) True]) (simp add: process_scheduling_def Some q(1) r)
    next
      case False
      then have body: "schedule_worker s job ?w = Some (?w, False, None)" by (simp add: schedule_worker_def)
      obtain q where q: "peek_mut_scope worker_lt (sc_workers_queue s) (schedule_worker s job) = Some (Some None, q)"
        "pq_ok q" "pq_vals q = (worker_map s)(?wid \<mapsto> ?w)"
        by (rule worker_order.peek_mut_scope_spec[where body = "schedule_worker s job", OF okW ne body refl])
      have "pq_vals q = worker_map s" using q(3) w by (simp add: fun_upd_idem)
      then show ?thesis
        using False w by (intro idle[OF Some q(2)]) (auto simp: process_scheduling_def Some q(1))
    qed
  qed
qed

lemma process_scheduling_panics:
  assumes wf: "sched_wf s"
  shows "process_scheduling s = None \<longleftrightarrow> \<not> round_fits s"
proof (cases "round_fits s")
  case True
  then show ?thesis by (rule process_scheduling_cases[OF wf]) (simp_all add: True)
next
  case False
  then obtain job where job: "sc_scheduled_job s = Some job" by (auto simp: round_fits_def)
  let ?w = "pq_prio (sc_workers_queue s) 0"
  have "schedule_worker s job ?w = None"
    using False wf by (intro schedule_worker_panics) (auto simp: round_fits_def sched_wf_def Let_def)
  then have "peek_mut_scope worker_lt (sc_workers_queue s) (schedule_worker s job) = None"
    using False wf by (intro worker_order.peek_mut_scope_panics) (auto simp: round_fits_def sched_wf_def)
  then show ?thesis using False by (simp add: process_scheduling_def job)
qed

subsection \<open>Symmetry of the assignments\<close>

lemma held_hand_to:
  assumes "set new \<subseteq> dom T"
  shows "held (hand_to wid new T) tid x = held T tid x + (if x = wid then count_list new tid else 0)"
proof (cases "T tid")
  case None
  then have "count_list new tid = 0" using assms by (auto simp: count_list_0_iff)
  then show ?thesis by (simp add: held_def hand_to_def None)
qed (simp add: held_def hand_to_def)

lemma symmetric_hand_out:
  assumes "symmetric T W" "W wid = Some w" "w_assignments w' = w_assignments w @ new" "set new \<subseteq> dom T"
  shows "symmetric (hand_to wid new T) (W(wid \<mapsto> w'))"
  using assms(1,2) unfolding symmetric_def
  by (auto simp: held_hand_to[OF assms(4)] holds_def assms(3) count_mset)

end
