(* ===== verification/Scheduler_Invariants.thy ===== *)
theory Scheduler_Invariants
  imports Scheduler_Rounds
begin

text \<open>
  What every handler of the scheduler keeps. \<open>sched_wf\<close> holds after every handler that returns;
  \<open>consistent\<close> (the assignments agree on both sides and no worker is overcommitted) and
  \<open>accounted\<close> (the counters of the job agree with the queue) hold after the events that
  \<open>orderly\<close> describes, the second one only if the event is not an error report.
\<close>

section \<open>Removing assignments\<close>

text \<open>Two states of the tasks where the second has lost assignments to one worker.\<close>

definition lost :: "worker_id \<Rightarrow> nat \<Rightarrow> task \<Rightarrow> task \<Rightarrow> bool" where
  "lost wid k t t' \<longleftrightarrow>
     t_task_data t' = t_task_data t \<and> mset (t_assignments t') = mset (t_assignments t) - replicate_mset k wid"

definition thinned :: "worker_id \<Rightarrow> (task_id \<Rightarrow> nat) \<Rightarrow> (task_id \<Rightarrow> task option) \<Rightarrow> (task_id \<Rightarrow> task option) \<Rightarrow> bool" where
  "thinned wid n T T' \<longleftrightarrow>
     dom T' = dom T \<and> (\<forall>tid \<in> dom T. lost wid (n tid) (the (T tid)) (the (T' tid)))"

lemma lost_0 [simp]: "lost wid 0 t t"
  by (simp add: lost_def)

lemma lost_Suc:
  assumes "t_task_data t1 = t_task_data t" "mset (t_assignments t1) = mset (t_assignments t) - {#wid#}"
    and "lost wid k t1 t'"
  shows "lost wid (Suc k) t t'"
  using assms by (simp add: lost_def)

lemma thinned_refl: "(\<And>tid. T tid \<noteq> None \<Longrightarrow> n tid = 0) \<Longrightarrow> thinned wid n T T"
  by (auto simp: thinned_def)

lemma thinned_dom: "thinned wid n T T' \<Longrightarrow> dom T' = dom T"
  by (simp add: thinned_def)

lemma thinned_Some:
  assumes "thinned wid n T T'" "T tid = Some t"
  obtains t' where "T' tid = Some t'" "lost wid (n tid) t t'"
proof -
  have d: "tid \<in> dom T" "tid \<in> dom T'" using assms by (auto simp: thinned_def)
  then have "lost wid (n tid) (the (T tid)) (the (T' tid))" using assms(1) by (simp only: thinned_def)
  then show ?thesis using d(2) assms(2) that[of "the (T' tid)"] by (cases "T' tid") auto
qed

lemma thinned_None: "thinned wid n T T' \<Longrightarrow> T tid = None \<longleftrightarrow> T' tid = None"
  by (metis domIff thinned_dom)

lemma thinned_weaken:
  assumes "thinned wid n T T'" "\<And>tid. T tid \<noteq> None \<Longrightarrow> n tid = m tid"
  shows "thinned wid m T T'"
  using assms unfolding thinned_def by (metis domIff)

lemma thinned_held:
  assumes "thinned wid n T T'"
  shows "held T' tid x = held T tid x - (if x = wid then n tid else 0)"
proof (cases "T tid")
  case None
  then show ?thesis using thinned_None[OF assms, of tid] by (simp add: held_def)
next
  case (Some t)
  then obtain t' where "T' tid = Some t'" "lost wid (n tid) t t'" by (rule thinned_Some[OF assms])
  then show ?thesis by (simp add: held_def Some lost_def)
qed

lemma thinned_tasks_wf:
  assumes "thinned wid n T T'" "tasks_wf T"
  shows "tasks_wf T'"
  unfolding tasks_wf_def
proof (intro allI impI)
  fix tid t' assume t': "T' tid = Some t'"
  then obtain t where t: "T tid = Some t" using thinned_None[OF assms(1), of tid] by (cases "T tid") simp_all
  then obtain t'' where "T' tid = Some t''" "lost wid (n tid) t t''" by (rule thinned_Some[OF assms(1)])
  then show "wt_id (t_task_data t') = tid" using t t' assms(2) by (simp add: tasks_wf_def lost_def)
qed

lemma thinned_step:
  assumes t: "T tid = Some t" and t1: "t_task_data t1 = t_task_data t" "mset (t_assignments t1) = mset (t_assignments t) - {#wid#}"
    and thin: "thinned wid n (T(tid \<mapsto> t1)) T'" and n': "\<And>k. n' k = (if k = tid then Suc (n k) else n k)"
  shows "thinned wid n' T T'"
  unfolding thinned_def
proof (intro conjI ballI)
  show "dom T' = dom T" using thinned_dom[OF thin] t by auto
  fix k assume k: "k \<in> dom T"
  then have "k \<in> dom (T(tid \<mapsto> t1))" by auto
  then have l: "lost wid (n k) (the ((T(tid \<mapsto> t1)) k)) (the (T' k))" using thin by (simp only: thinned_def)
  show "lost wid (n' k) (the (T k)) (the (T' k))"
  proof (cases "k = tid")
    case True
    then show ?thesis using l t n' lost_Suc[OF t1] by simp
  qed (use l n' in simp)
qed

text \<open>\<open>process_worker_disconnect\<close>: the loop over the tasks of the worker.\<close>

lemma counted_release:
  assumes c: "counted job T" and t: "T tid = Some t" "has_assignments t" and fin: "finite (dom T)"
  shows "counted (job\<lparr>sj_scheduled_tasks := u128_sub (sj_scheduled_tasks job) (of_bool (\<not> has_assignments t'))\<rparr>)
    (T(tid \<mapsto> t'))"
proof -
  have d: "dom (T(tid \<mapsto> t')) = dom T" using t by auto
  have a: "tid \<in> assigned T" using t by (auto simp: assigned_def)
  have fa: "finite (assigned T)" using fin assigned_subset finite_subset by blast
  then have p: "0 < card (assigned T)" using a card_gt_0_iff by blast
  show ?thesis
  proof (cases "has_assignments t'")
    case True
    then show ?thesis using c unfolding counted_def d by (auto simp: assigned_upd(1)[OF True] insert_absorb[OF a])
  next
    case False
    then show ?thesis using c p a fa unfolding counted_def d by (auto simp: assigned_upd(2)[OF False] card_Diff_singleton)
  qed
qed

lemma unassign_scope:
  assumes ok: "pq_ok q" and t: "pq_vals q tid = Some t"
    and body: "\<And>as m. swap_remove_value wid (t_assignments t) = Some (as, m) \<Longrightarrow>
      body t = Some (t\<lparr>t_assignments := as\<rparr>, m, f as)"
  obtains q' as where "ref_mut_scope task_lt q tid body = Some (Some (f as), q')" "pq_ok q'"
    "pq_vals q' = (pq_vals q)(tid \<mapsto> t\<lparr>t_assignments := as\<rparr>)" "mset as = mset (t_assignments t) - {#wid#}"
proof -
  obtain as where as: "swap_remove_value wid (t_assignments t) = Some (as, wid \<in> set (t_assignments t))"
    "mset as = mset (t_assignments t) - {#wid#}" "wid \<notin> set (t_assignments t) \<longrightarrow> as = t_assignments t"
    by (rule swap_remove_value_spec[of wid "t_assignments t"])
  obtain q' where "ref_mut_scope task_lt q tid body = Some (Some (f as), q')" "pq_ok q'"
    "pq_vals q' = (pq_vals q)(tid \<mapsto> t\<lparr>t_assignments := as\<rparr>)"
    by (rule task_order.ref_mut_scope_spec[where body = body, OF ok t body[OF as(1)]]) (use as(3) in simp)
  then show ?thesis using that as(2) by blast
qed

lemma release_tasks_spec:
  assumes "pq_ok q"
  shows "\<exists>job' q'. release_tasks wid tids job q = Some (job', q') \<and> pq_ok q' \<and>
    thinned wid (count_list tids) (pq_vals q) (pq_vals q') \<and>
    (counted job (pq_vals q) \<longrightarrow> (\<forall>tid. count_list tids tid \<le> held (pq_vals q) tid wid) \<longrightarrow> counted job' (pq_vals q'))"
  using assms
proof (induction tids arbitrary: job q)
  case Nil
  then show ?case by (auto intro: thinned_refl)
next
  case (Cons tid tids)
  let ?body = "\<lambda>t. do {
            (as, m) \<leftarrow> swap_remove_value wid (t_assignments t);
            let t = t\<lparr>t_assignments := as\<rparr>;
            Some (t, m, \<not> has_assignments t)
          }"
  show ?case
  proof (cases "pq_vals q tid")
    case None
    then have "held (pq_vals q) tid wid = 0" by (simp add: held_def)
    moreover have "thinned wid (count_list tids) (pq_vals q) Q \<Longrightarrow> thinned wid (count_list (tid # tids)) (pq_vals q) Q" for Q
      by (erule thinned_weaken) (use None in auto)
    moreover have "release_tasks wid (tid # tids) job q = release_tasks wid tids job q"
      by (simp add: task_order.ref_mut_scope_absent[OF None])
    moreover have "\<exists>k. \<not> count_list (tid # tids) k \<le> held (pq_vals q) k wid"
      using calculation(1) by (intro exI[of _ tid]) simp
    ultimately show ?thesis using Cons.IH[OF Cons.prems, of job] by metis
  next
    case (Some t)
    obtain q1 as where q1: "ref_mut_scope task_lt q tid ?body = Some (Some (as = []), q1)" "pq_ok q1"
      "pq_vals q1 = (pq_vals q)(tid \<mapsto> t\<lparr>t_assignments := as\<rparr>)" "mset as = mset (t_assignments t) - {#wid#}"
      by (rule unassign_scope[where body = ?body and f = "\<lambda>as. as = []", OF Cons.prems Some])
        (auto simp: Let_def has_assignments_def)
    let ?job = "job\<lparr>sj_scheduled_tasks := u128_sub (sj_scheduled_tasks job) (of_bool (as = []))\<rparr>"
    obtain job' q' where q': "release_tasks wid tids ?job q1 = Some (job', q')" "pq_ok q'"
      "thinned wid (count_list tids) (pq_vals q1) (pq_vals q')"
      "counted ?job (pq_vals q1) \<longrightarrow> (\<forall>tid. count_list tids tid \<le> held (pq_vals q1) tid wid) \<longrightarrow> counted job' (pq_vals q')"
      using Cons.IH[OF q1(2), of ?job] by blast
    have thin: "thinned wid (count_list (tid # tids)) (pq_vals q) (pq_vals q')"
      by (rule thinned_step[OF Some _ _ q'(3)[unfolded q1(3)]]) (simp_all add: q1(4))
    have "counted job' (pq_vals q')"
      if c: "counted job (pq_vals q)" and le: "\<And>k. count_list (tid # tids) k \<le> held (pq_vals q) k wid"
    proof -
      have "1 \<le> held (pq_vals q) tid wid" using le[of tid] by simp
      then have "wid \<in> set (t_assignments t)" by (simp add: held_def Some count_greater_zero_iff[symmetric] del: count_greater_zero_iff)
      then have "has_assignments t" by (auto simp: has_assignments_def)
      then have "counted ?job (pq_vals q1)"
        using counted_release[OF c Some _ pq_vals_finite[OF Cons.prems], of "t\<lparr>t_assignments := as\<rparr>"]
        by (simp add: q1(3) has_assignments_def)
      moreover have "count_list tids k \<le> held (pq_vals q1) k wid" for k
        using le[of k] Some by (cases "k = tid") (auto simp: q1(3,4) held_def)
      ultimately show ?thesis using q'(4) by blast
    qed
    moreover have "release_tasks wid (tid # tids) job q = Some (job', q')"
      using q1(1) q'(1) by simp
    ultimately show ?thesis using q'(2) thin by blast
  qed
qed


section \<open>The invariants\<close>

text \<open>While there is a job, the assignments agree on both sides and no worker is overcommitted; the
  counters of the job agree with the queue.\<close>

definition consistent :: "scheduler \<Rightarrow> bool" where
  "consistent s \<longleftrightarrow> sched_wf s \<and>
     (sc_scheduled_job s \<noteq> None \<longrightarrow>
        symmetric (task_map s) (worker_map s) \<and> (\<forall>wid w. worker_map s wid = Some w \<longrightarrow> within_capacity w))"

definition accounted :: "scheduler \<Rightarrow> bool" where
  "accounted s \<longleftrightarrow> (\<forall>job. sc_scheduled_job s = Some job \<longrightarrow> counted job (task_map s))"

lemma symmetricD: "symmetric T W \<Longrightarrow> held T tid wid = holds W wid tid"
  by (simp add: symmetric_def)

lemma symmetric_count:
  assumes "symmetric T W" "W wid = Some w"
  shows "count_list (w_assignments w) tid = held T tid wid"
  using symmetricD[OF assms(1), of tid wid] assms(2) by (simp add: holds_def count_mset)

lemma consistentD:
  assumes "consistent s"
  shows "sched_wf s" "sc_scheduled_job s = Some job \<Longrightarrow> symmetric (task_map s) (worker_map s)"
    "sc_scheduled_job s = Some job \<Longrightarrow> worker_map s wid = Some w \<Longrightarrow> within_capacity w"
  using assms by (auto simp: consistent_def)

subsection \<open>Scheduling\<close>

lemma capacity_work:
  assumes "within_capacity w"
  shows "can_accept w + length (w_assignments w) + length (w_replacements w) = w_subworkers w"
    "capacity_ok 32 (can_accept w)" "capacity_ok 40 (need_replace w)"
proof -
  show c: "can_accept w + length (w_assignments w) + length (w_replacements w) = w_subworkers w"
    using assms by (simp add: within_capacity_def can_accept_def)
  show "capacity_ok 32 (can_accept w)" "capacity_ok 40 (need_replace w)"
    using assms c by (auto simp: within_capacity_def capacity_ok_def fits_def need_replace_def)
qed

lemma round_fits_consistent: "consistent s \<Longrightarrow> round_fits s"
  using capacity_work(2,3) first_entry[of "sc_workers_queue s"]
  by (auto simp: consistent_def sched_wf_def round_fits_def Let_def)

lemma round_of_facts:
  assumes "round_of s job w r w' out"
  shows "pq_ok (r_tasks r)" "tasks_wf (pq_vals (r_tasks r))" "w_id w' = w_id w"
    "pq_vals (r_tasks r) = hand_to (w_id w) (map wt_id (handed_out r)) (task_map s)"
    "w_assignments w' = w_assignments w @ map wt_id (handed_out r)"
    "set (map wt_id (handed_out r)) \<subseteq> dom (task_map s)"
    "counted job (task_map s) \<longrightarrow> counted (r_job r) (pq_vals (r_tasks r))"
    "within_capacity w \<Longrightarrow> within_capacity w'"
proof -
  have r: "round_from job (task_map s) w r" and le: "length (r_sent r) \<le> can_accept w"
    using assms by (simp_all add: round_of_def)
  obtain rs where rs: "w_replacements w = rs @ rev (map fst (r_repl r))"
    "r_worker r = w\<lparr>w_assignments := w_assignments w @ map wt_id (handed_out r), w_replacements := rs\<rparr>"
    using r unfolding round_from_def by blast
  have w': "w_id w' = w_id w" "w_assignments w' = w_assignments w @ map wt_id (handed_out r)"
    "w_replacements w' = rs" "w_subworkers w' = w_subworkers w"
    using assms rs(2) by (auto simp: round_of_def split: if_splits)
  show "pq_ok (r_tasks r)" "tasks_wf (pq_vals (r_tasks r))" "w_id w' = w_id w"
    "pq_vals (r_tasks r) = hand_to (w_id w) (map wt_id (handed_out r)) (task_map s)"
    "w_assignments w' = w_assignments w @ map wt_id (handed_out r)"
    "set (map wt_id (handed_out r)) \<subseteq> dom (task_map s)"
    "counted job (task_map s) \<longrightarrow> counted (r_job r) (pq_vals (r_tasks r))"
    using r w' by (auto simp: round_from_def tasks_wf_hand_to)
  show "within_capacity w'" if c: "within_capacity w"
    using capacity_work(1)[OF c] c le w' rs(1)
    by (simp add: within_capacity_def handed_out_def)
qed

lemma scheduling_wf:
  assumes "sched_wf s" "process_scheduling s = Some (out, s')"
  shows "sched_wf s'"
proof -
  have fits: "round_fits s" using process_scheduling_panics[OF assms(1)] assms(2) by auto
  show ?thesis
  proof (rule process_scheduling_cases[OF assms(1) fits])
    fix job wid w w' q out' and r :: sched_round
    assume r: "round_of s job w r w' out'" "w_id w = wid" "pq_ok q" "pq_vals q = (worker_map s)(wid \<mapsto> w')"
      "process_scheduling s = Some (out', s\<lparr>sc_scheduled_job := Some (r_job r), sc_tasks_queue := r_tasks r,
         sc_workers_queue := q, sc_need_schedule := r_need r\<rparr>)"
    then show ?thesis
      using assms round_of_facts(1-3)[OF r(1)] by (auto simp: sched_wf_def workers_wf_def)
  qed (use assms in \<open>auto simp: sched_wf_def\<close>)
qed

lemma scheduling_consistent:
  assumes inv: "consistent s"
  shows "\<exists>out s'. process_scheduling s = Some (out, s') \<and> consistent s' \<and> (accounted s \<longrightarrow> accounted s')"
proof -
  note wf = consistentD(1)[OF inv]
  show ?thesis
  proof (rule process_scheduling_cases[OF wf round_fits_consistent[OF inv]])
    fix job wid w w' q out and r :: sched_round
    let ?s' = "s\<lparr>sc_scheduled_job := Some (r_job r), sc_tasks_queue := r_tasks r,
         sc_workers_queue := q, sc_need_schedule := r_need r\<rparr>"
    assume job: "sc_scheduled_job s = Some job" and w: "worker_map s wid = Some w" "w_id w = wid"
      and r: "round_of s job w r w' out" and q: "pq_ok q" "pq_vals q = (worker_map s)(wid \<mapsto> w')"
      and p: "process_scheduling s = Some (out, ?s')"
    note f = round_of_facts[OF r]
    have "symmetric (task_map ?s') (worker_map ?s')"
      using symmetric_hand_out[OF consistentD(2)[OF inv job] w(1) f(5,6)] by (simp add: f(4) q(2) w(2))
    moreover have "within_capacity v" if "worker_map ?s' k = Some v" for k v
      using that f(8) consistentD(3)[OF inv job] w(1) by (auto simp: q(2) split: if_splits)
    ultimately have "consistent ?s'" using scheduling_wf[OF wf p] by (auto simp: consistent_def)
    moreover have "accounted s \<longrightarrow> accounted ?s'" using f(7) job by (simp add: accounted_def)
    ultimately show ?thesis using p by blast
  qed (use inv scheduling_wf[OF wf] in \<open>auto simp: consistent_def accounted_def\<close>)
qed


subsection \<open>Workers come and go\<close>

lemma symmetric_drop_worker:
  assumes sym: "symmetric T W" and w: "W wid = Some w" and thin: "thinned wid (count_list (w_assignments w)) T T'"
  shows "symmetric T' (W(wid := None))"
  unfolding symmetric_def
proof (intro allI)
  fix tid x
  show "held T' tid x = holds (W(wid := None)) x tid"
    using thinned_held[OF thin, of tid x] symmetric_count[OF sym w, of tid] symmetricD[OF sym, of tid x]
    by (auto simp: holds_def)
qed

lemma disconnect_spec:
  assumes wf: "sched_wf s"
  shows "\<exists>s'. process_worker_disconnect s wid = Some s' \<and> sched_wf s' \<and>
    worker_map s' = (worker_map s)(wid := None) \<and> sc_results_buffer s' = sc_results_buffer s \<and>
    (consistent s \<longrightarrow> consistent s' \<and> (accounted s \<longrightarrow> accounted s'))"
proof -
  have okW: "pq_ok (sc_workers_queue s)" and okT: "pq_ok (sc_tasks_queue s)" using wf by (simp_all add: sched_wf_def)
  obtain q where q: "pq_remove worker_lt (sc_workers_queue s) wid = Some (map_option (Pair wid) (worker_map s wid), q)"
    "pq_ok q" "pq_vals q = (worker_map s)(wid := None)" by (rule worker_order.remove_ok[OF okW])
  have wfq: "workers_wf (pq_vals q)" using wf by (auto simp: q(3) sched_wf_def workers_wf_def)
  show ?thesis
  proof (cases "worker_map s wid")
    case None
    then have "pq_vals q = worker_map s" by (simp add: q(3) fun_upd_idem)
    with None show ?thesis using wf q wfq
      by (simp add: process_worker_disconnect_def sched_wf_def consistent_def accounted_def Let_def)
  next
    case w: (Some w)
    show ?thesis
    proof (cases "sc_scheduled_job s")
      case None
      with w show ?thesis using wf q wfq
        by (simp add: process_worker_disconnect_def sched_wf_def consistent_def accounted_def Let_def)
    next
      case job: (Some job)
      obtain job' q' where r: "release_tasks wid (w_assignments w) job (sc_tasks_queue s) = Some (job', q')" "pq_ok q'"
        "thinned wid (count_list (w_assignments w)) (task_map s) (pq_vals q')"
        "counted job (task_map s) \<longrightarrow> (\<forall>tid. count_list (w_assignments w) tid \<le> held (task_map s) tid wid) \<longrightarrow>
         counted job' (pq_vals q')"
        using release_tasks_spec[OF okT, of wid "w_assignments w" job] by blast
      let ?s' = "s\<lparr>sc_nodes := snd (vm_remove (sc_nodes s) wid), sc_workers_queue := q, sc_need_schedule := True,
         sc_scheduled_job := Some job', sc_tasks_queue := q'\<rparr>"
      have p: "process_worker_disconnect s wid = Some ?s'"
        using w job q(1) r(1) by (simp add: process_worker_disconnect_def Let_def)
      have wf': "sched_wf ?s'"
        using wf q r(2) wfq thinned_tasks_wf[OF r(3)] by (simp add: sched_wf_def)
      have "consistent ?s' \<and> (accounted s \<longrightarrow> accounted ?s')" if inv: "consistent s"
      proof -
        note sym = consistentD(2)[OF inv job]
        have "symmetric (task_map ?s') (worker_map ?s')" using symmetric_drop_worker[OF sym w r(3)] by (simp add: q(3))
        moreover have "\<forall>k v. worker_map ?s' k = Some v \<longrightarrow> within_capacity v"
          using consistentD(3)[OF inv job] by (simp add: q(3))
        moreover have "accounted s \<longrightarrow> accounted ?s'"
          using r(4) symmetric_count[OF sym w] by (simp add: accounted_def job)
        ultimately show ?thesis using wf' by (simp add: consistent_def)
      qed
      then show ?thesis using p wf' q(3) by simp
    qed
  qed
qed

lemma connected_spec:
  assumes wf: "sched_wf s"
  shows "\<exists>s'. process_connected s info node = Some s' \<and> sched_wf s' \<and> sc_results_buffer s' = sc_results_buffer s \<and>
    (consistent s \<longrightarrow> worker_map s (wi_worker_id info) = None \<longrightarrow> 40 * wi_subworkers info < 2 ^ 63 \<longrightarrow>
     consistent s' \<and> (accounted s \<longrightarrow> accounted s'))"
proof -
  let ?wid = "wi_worker_id info"
  let ?w = "\<lparr>w_id = ?wid, w_subworkers = wi_subworkers info, w_platform = wi_platform info,
          w_has_job_data = False, w_address = wi_address info, w_replacements = [], w_assignments = []\<rparr>"
  have okW: "pq_ok (sc_workers_queue s)" using wf by (simp add: sched_wf_def)
  obtain q where q: "pq_push worker_lt (sc_workers_queue s) ?wid ?w = Some (worker_map s ?wid, q)"
    "pq_ok q" "pq_vals q = (worker_map s)(?wid \<mapsto> ?w)" by (rule worker_order.push_ok[OF okW])
  let ?s' = "s\<lparr>sc_need_schedule := True, sc_nodes := snd (vm_insert (sc_nodes s) ?wid node), sc_workers_queue := q\<rparr>"
  have p: "process_connected s info node = Some ?s'" using q(1) by (simp add: process_connected_def Let_def)
  have wf': "sched_wf ?s'" using wf q by (simp add: sched_wf_def workers_wf_def)
  have "consistent ?s' \<and> (accounted s \<longrightarrow> accounted ?s')"
    if inv: "consistent s" and new: "worker_map s ?wid = None" "40 * wi_subworkers info < 2 ^ 63"
  proof -
    have "symmetric T (worker_map s) \<Longrightarrow> symmetric T (pq_vals q)" for T
      using new(1) by (simp add: symmetric_def q(3) holds_def)
    then show ?thesis
      using inv new wf' by (simp add: consistent_def accounted_def q(3) within_capacity_def)
  qed
  then show ?thesis using p wf' by simp
qed


subsection \<open>Results\<close>

text \<open>The workers after a completed task was taken from them: each of the \<open>k\<close> copies becomes a
  replacement.\<close>

definition gave :: "task_id \<Rightarrow> nat \<Rightarrow> worker \<Rightarrow> worker \<Rightarrow> bool" where
  "gave tid k w w' \<longleftrightarrow>
     (\<exists>as. w' = w\<lparr>w_assignments := as, w_replacements := w_replacements w @ replicate k tid\<rparr> \<and>
       mset as = mset (w_assignments w) - replicate_mset k tid)"

definition moved :: "task_id \<Rightarrow> (worker_id \<Rightarrow> nat) \<Rightarrow> (worker_id \<Rightarrow> worker option) \<Rightarrow> (worker_id \<Rightarrow> worker option) \<Rightarrow> bool" where
  "moved tid n W W' \<longleftrightarrow> dom W' = dom W \<and> (\<forall>wid \<in> dom W. gave tid (n wid) (the (W wid)) (the (W' wid)))"

lemma gave_0 [simp]: "gave tid 0 w w"
  by (auto simp: gave_def intro!: exI[of _ "w_assignments w"])

lemma gave_Suc:
  assumes "mset as = mset (w_assignments w) - {#tid#}"
    and "gave tid k (w\<lparr>w_assignments := as, w_replacements := w_replacements w @ [tid]\<rparr>) w'"
  shows "gave tid (Suc k) w w'"
  using assms by (auto simp: gave_def replicate_append_same)

lemma gave_id: "gave tid k w w' \<Longrightarrow> w_id w' = w_id w"
  by (auto simp: gave_def)

lemma gave_count: "gave tid k w w' \<Longrightarrow> count (mset (w_assignments w')) x = count (mset (w_assignments w)) x - (if x = tid then k else 0)"
  by (auto simp: gave_def)

lemma gave_capacity:
  assumes "gave tid k w w'" "k \<le> count (mset (w_assignments w)) tid" "within_capacity w"
  shows "within_capacity w'"
proof -
  obtain as where as: "w' = w\<lparr>w_assignments := as, w_replacements := w_replacements w @ replicate k tid\<rparr>"
    "mset as = mset (w_assignments w) - replicate_mset k tid" using assms(1) by (auto simp: gave_def)
  have sub: "replicate_mset k tid \<subseteq># mset (w_assignments w)" using assms(2) by (simp add: count_le_replicate_mset_subset_eq)
  have "length as = size (mset (w_assignments w) - replicate_mset k tid)" using as(2) by (metis size_mset)
  also have "\<dots> = length (w_assignments w) - k" using size_Diff_submset[OF sub] by simp
  finally have "length as + k = length (w_assignments w)"
    using assms(2) size_mset_mono[OF sub] by simp
  then show ?thesis using assms(3) by (simp add: as(1) within_capacity_def)
qed

lemma moved_dom: "moved tid n W W' \<Longrightarrow> W wid = None \<longleftrightarrow> W' wid = None"
  by (metis domIff moved_def)

lemma moved_Some:
  assumes "moved tid n W W'" "W' wid = Some w'"
  obtains w where "W wid = Some w" "gave tid (n wid) w w'"
proof -
  have d: "wid \<in> dom W" using assms moved_dom[OF assms(1), of wid] by (cases "W wid") auto
  then have "gave tid (n wid) (the (W wid)) (the (W' wid))" using assms(1) by (simp only: moved_def)
  then show ?thesis using d assms(2) that by auto
qed

lemma moved_holds:
  assumes "moved tid n W W'"
  shows "holds W' wid x = holds W wid x - (if x = tid then n wid else 0)"
proof (cases "W' wid")
  case None
  then show ?thesis using moved_dom[OF assms, of wid] by (simp add: holds_def)
next
  case (Some w')
  obtain w where w: "W wid = Some w" "gave tid (n wid) w w'" by (rule moved_Some[OF assms Some])
  show ?thesis using gave_count[OF w(2)] by (simp add: holds_def Some w(1))
qed

lemma moved_workers_wf:
  assumes "moved tid n W W'" "workers_wf W"
  shows "workers_wf W'"
  unfolding workers_wf_def
proof (intro allI impI)
  fix wid w' assume "W' wid = Some w'"
  then obtain w where "W wid = Some w" "gave tid (n wid) w w'" by (rule moved_Some[OF assms(1)])
  then show "w_id w' = wid" using assms(2) gave_id by (simp add: workers_wf_def)
qed

lemma moved_step:
  assumes w: "W wid = Some w" and as: "mset as = mset (w_assignments w) - {#tid#}"
    and mv: "moved tid n (W(wid \<mapsto> w\<lparr>w_assignments := as, w_replacements := w_replacements w @ [tid]\<rparr>)) W'"
    and n': "\<And>k. n' k = (if k = wid then Suc (n k) else n k)"
  shows "moved tid n' W W'"
  unfolding moved_def
proof (intro conjI ballI)
  let ?W = "W(wid \<mapsto> w\<lparr>w_assignments := as, w_replacements := w_replacements w @ [tid]\<rparr>)"
  show "dom W' = dom W" using mv w by (auto simp: moved_def)
  fix k assume k: "k \<in> dom W"
  then have "k \<in> dom ?W" by auto
  then have l: "gave tid (n k) (the (?W k)) (the (W' k))" using mv by (simp only: moved_def)
  show "gave tid (n' k) (the (W k)) (the (W' k))"
  proof (cases "k = wid")
    case True
    then show ?thesis using l w n' gave_Suc[OF as] by simp
  qed (use l n' in simp)
qed

lemma moved_weaken:
  assumes "moved tid n W W'" "\<And>wid. W wid \<noteq> None \<Longrightarrow> n wid = m wid"
  shows "moved tid m W W'"
  using assms unfolding moved_def by (metis domIff)

lemma replace_assignments_spec:
  assumes "pq_ok q"
  shows "\<exists>q'. replace_assignments tid wids q = Some q' \<and> pq_ok q' \<and> moved tid (count_list wids) (pq_vals q) (pq_vals q')"
  using assms
proof (induction wids arbitrary: q)
  case Nil
  then show ?case by (auto simp: moved_def)
next
  case (Cons wid wids)
  let ?body = "\<lambda>w. do {
            (as, m) \<leftarrow> swap_remove_value tid (w_assignments w);
            Some (w\<lparr>w_assignments := as, w_replacements := w_replacements w @ [tid]\<rparr>, True, ())
          }"
  show ?case
  proof (cases "pq_vals q wid")
    case None
    have "moved tid (count_list wids) (pq_vals q) Q \<Longrightarrow> moved tid (count_list (wid # wids)) (pq_vals q) Q" for Q
      by (erule moved_weaken) (use None in auto)
    moreover have "replace_assignments tid (wid # wids) q = replace_assignments tid wids q"
      by (simp add: worker_order.ref_mut_scope_absent[OF None])
    ultimately show ?thesis using Cons.IH[OF Cons.prems] by metis
  next
    case (Some w)
    obtain as where as: "swap_remove_value tid (w_assignments w) = Some (as, tid \<in> set (w_assignments w))"
      "mset as = mset (w_assignments w) - {#tid#}" "tid \<notin> set (w_assignments w) \<longrightarrow> as = w_assignments w"
      by (rule swap_remove_value_spec)
    let ?w = "w\<lparr>w_assignments := as, w_replacements := w_replacements w @ [tid]\<rparr>"
    have body: "?body w = Some (?w, True, ())" using as(1) by simp
    obtain q1 where q1: "ref_mut_scope worker_lt q wid ?body = Some (Some (), q1)" "pq_ok q1"
      "pq_vals q1 = (pq_vals q)(wid \<mapsto> ?w)"
      by (rule worker_order.ref_mut_scope_spec[where body = ?body, OF Cons.prems Some body]) simp
    obtain q' where q': "replace_assignments tid wids q1 = Some q'" "pq_ok q'"
      "moved tid (count_list wids) (pq_vals q1) (pq_vals q')" using Cons.IH[OF q1(2)] by blast
    have "moved tid (count_list (wid # wids)) (pq_vals q) (pq_vals q')"
      by (rule moved_step[OF Some as(2) q'(3)[unfolded q1(3)]]) simp
    moreover have "replace_assignments tid (wid # wids) q = Some q'" using q1(1) q'(1) by simp
    ultimately show ?thesis using q'(2) by blast
  qed
qed


lemma drop_replacement_keeps:
  "drop_replacement tid w = Some (w', m) \<Longrightarrow> w_id w' = w_id w \<and> (\<not> m \<longrightarrow> w' = w)"
  by (auto simp: drop_replacement_def split: option.splits bind_splits prod.splits)

lemma drop_replacement_none: "tid \<notin> set (w_replacements w) \<Longrightarrow> drop_replacement tid w = Some (w, False)"
  by (auto simp: drop_replacement_def position_None_iff position_Some_iff split: option.splits)

lemma counted_completed:
  assumes c: "counted job T" and t: "T tid = Some t" "has_assignments t" and fin: "finite (dom T)"
  shows "\<exists>job'. job_completed job result = Some job' \<and> counted job' (T(tid := None))"
proof -
  have a: "tid \<in> assigned T" using t by (auto simp: assigned_def)
  have fa: "finite (assigned T)" using fin assigned_subset finite_subset by blast
  have pos: "0 < card (assigned T)" "0 < card (dom T)" using a fa fin t card_gt_0_iff by blast+
  then have "sj_completed_tasks job + 1 < 2 ^ 128" using c by (auto simp: counted_def)
  then show ?thesis using c pos a fa fin t
    by (auto simp: job_completed_def Let_def counted_def u128_add_small assigned_upd(3) card_Diff_singleton domI)
qed

lemma counted_finished:
  assumes c: "counted job T" and full: "sj_completed_tasks job = sj_total_tasks job" and fin: "finite (dom T)"
  shows "counted job (\<lambda>_. None)"
proof -
  have "card (dom T) = 0" using c full by (simp add: counted_def)
  then have "dom T = {}" using fin by simp
  then have "assigned T = {}" using assigned_subset by blast
  then show ?thesis using c \<open>dom T = {}\<close> by (simp add: counted_def assigned_def)
qed

text \<open>The results in the messages to the task manager.\<close>

fun results_in :: "sched_output \<Rightarrow> worker_result list" where
  "results_in (Send_Task_Manager (TaskResults batch)) = batch"
| "results_in (Send_Task_Manager (JobComplete batch _)) = batch"
| "results_in _ = []"

definition sent_results :: "sched_output list \<Rightarrow> worker_result list" where
  "sent_results out = concat (map results_in out)"

lemma sent_results_simps [simp]: "sent_results [] = []" "sent_results (x # xs) = results_in x @ sent_results xs"
  "sent_results (xs @ ys) = sent_results xs @ sent_results ys"
  by (simp_all add: sent_results_def)

lemma symmetric_completed:
  assumes sym: "symmetric T W" and t: "T tid = Some t" and others: "mset others = mset (t_assignments t) - {#wid#}"
    and W1: "\<And>x. holds W1 wid x = holds W wid x - (if x = tid then 1 else 0)"
      "\<And>k x. k \<noteq> wid \<Longrightarrow> holds W1 k x = holds W k x"
    and mv: "moved tid (count_list others) W1 W'"
  shows "symmetric (T(tid := None)) W'"
  unfolding symmetric_def
proof (intro allI)
  fix k x
  have n: "count_list others x = held T tid x - (if x = wid then 1 else 0)"
    using t others by (simp add: held_def flip: count_mset)
  show "held (T(tid := None)) k x = holds W' x k"
    using moved_holds[OF mv, of x k] n symmetricD[OF sym, of k x] W1(1)[of k] W1(2)[of x k]
    by (cases "k = tid"; cases "x = wid") (auto simp: held_def)
qed


lemma unassign_worker_scope:
  assumes ok: "pq_ok q"
  shows "\<exists>x q'. ref_mut_scope worker_lt q wid
      (\<lambda>w. do { (as, m) \<leftarrow> swap_remove_value tid (w_assignments w); Some (w\<lparr>w_assignments := as\<rparr>, m, ()) }) = Some (x, q') \<and>
    pq_ok q' \<and> dom (pq_vals q') = dom (pq_vals q) \<and> (\<forall>k. k \<noteq> wid \<longrightarrow> pq_vals q' k = pq_vals q k) \<and>
    (\<forall>w. pq_vals q wid = Some w \<longrightarrow>
       (\<exists>as. pq_vals q' wid = Some (w\<lparr>w_assignments := as\<rparr>) \<and> mset as = mset (w_assignments w) - {#tid#}))"
proof (cases "pq_vals q wid")
  case None
  then show ?thesis using ok by (simp add: worker_order.ref_mut_scope_absent)
next
  case (Some w)
  let ?body = "\<lambda>w. do { (as, m) \<leftarrow> swap_remove_value tid (w_assignments w); Some (w\<lparr>w_assignments := as\<rparr>, m, ()) }"
  obtain as where as: "swap_remove_value tid (w_assignments w) = Some (as, tid \<in> set (w_assignments w))"
    "mset as = mset (w_assignments w) - {#tid#}" "tid \<notin> set (w_assignments w) \<longrightarrow> as = w_assignments w"
    by (rule swap_remove_value_spec)
  have body: "?body w = Some (w\<lparr>w_assignments := as\<rparr>, tid \<in> set (w_assignments w), ())" using as(1) by simp
  obtain q' where "ref_mut_scope worker_lt q wid ?body = Some (Some (), q')" "pq_ok q'"
    "pq_vals q' = (pq_vals q)(wid \<mapsto> w\<lparr>w_assignments := as\<rparr>)"
    by (rule worker_order.ref_mut_scope_spec[where body = ?body, OF ok Some body]) (use as(3) in simp)
  then show ?thesis using Some as(2) by auto
qed

lemma mset_remove_le: "mset as = mset bs - {#x#} \<Longrightarrow> length as \<le> length bs"
  by (metis diff_subset_eq_self size_mset size_mset_mono)

lemma take_from_workers:
  assumes ok: "pq_ok q" and wf: "workers_wf (pq_vals q)"
  shows "\<exists>x q1 q2. ref_mut_scope worker_lt q wid
      (\<lambda>w. do { (as, m) \<leftarrow> swap_remove_value tid (w_assignments w); Some (w\<lparr>w_assignments := as\<rparr>, m, ()) }) = Some (x, q1) \<and>
    replace_assignments tid others q1 = Some q2 \<and> pq_ok q2 \<and> workers_wf (pq_vals q2) \<and>
    (\<forall>T t. symmetric T (pq_vals q) \<longrightarrow> T tid = Some t \<longrightarrow> mset others = mset (t_assignments t) - {#wid#} \<longrightarrow>
       symmetric (T(tid := None)) (pq_vals q2) \<and>
       ((\<forall>k w. pq_vals q k = Some w \<longrightarrow> within_capacity w) \<longrightarrow> (\<forall>k w. pq_vals q2 k = Some w \<longrightarrow> within_capacity w)))"
proof -
  obtain x q1 where q1: "ref_mut_scope worker_lt q wid
      (\<lambda>w. do { (as, m) \<leftarrow> swap_remove_value tid (w_assignments w); Some (w\<lparr>w_assignments := as\<rparr>, m, ()) }) = Some (x, q1)"
    "pq_ok q1" "dom (pq_vals q1) = dom (pq_vals q)" "\<And>k. k \<noteq> wid \<Longrightarrow> pq_vals q1 k = pq_vals q k"
    "\<And>w. pq_vals q wid = Some w \<Longrightarrow>
       \<exists>as. pq_vals q1 wid = Some (w\<lparr>w_assignments := as\<rparr>) \<and> mset as = mset (w_assignments w) - {#tid#}"
    using unassign_worker_scope[OF ok, of wid tid] by blast
  obtain q2 where q2: "replace_assignments tid others q1 = Some q2" "pq_ok q2"
    "moved tid (count_list others) (pq_vals q1) (pq_vals q2)" using replace_assignments_spec[OF q1(2)] by blast
  have absent: "pq_vals q wid = None \<Longrightarrow> pq_vals q1 wid = None" using q1(3) by (metis domIff)
  have wf1: "workers_wf (pq_vals q1)" unfolding workers_wf_def
  proof (intro allI impI)
    fix k w assume w: "pq_vals q1 k = Some w"
    show "w_id w = k"
    proof (cases "k = wid")
      case True
      then show ?thesis using w q1(5) absent wf by (cases "pq_vals q wid") (auto simp: workers_wf_def)
    qed (use w q1(4) wf in \<open>auto simp: workers_wf_def\<close>)
  qed
  have H: "holds (pq_vals q1) wid x = holds (pq_vals q) wid x - (if x = tid then 1 else 0)" for x
    using q1(5) absent by (cases "pq_vals q wid") (auto simp: holds_def)
  have H': "k \<noteq> wid \<Longrightarrow> holds (pq_vals q1) k x = holds (pq_vals q) k x" for k x by (simp add: holds_def q1(4))
  have cap1: "within_capacity w" if cap: "\<forall>k w. pq_vals q k = Some w \<longrightarrow> within_capacity w" and w: "pq_vals q1 k = Some w" for k w
  proof (cases "k = wid")
    case True
    then obtain w0 as where "pq_vals q wid = Some w0" "w = w0\<lparr>w_assignments := as\<rparr>" "mset as = mset (w_assignments w0) - {#tid#}"
      using w q1(5) absent by (cases "pq_vals q wid") auto
    then show ?thesis using cap mset_remove_le[of as "w_assignments w0" tid] by (force simp: within_capacity_def)
  qed (use cap w q1(4) in auto)
  have "symmetric (T(tid := None)) (pq_vals q2) \<and>
       ((\<forall>k w. pq_vals q k = Some w \<longrightarrow> within_capacity w) \<longrightarrow> (\<forall>k w. pq_vals q2 k = Some w \<longrightarrow> within_capacity w))"
    if sym: "symmetric T (pq_vals q)" and t: "T tid = Some t" and o: "mset others = mset (t_assignments t) - {#wid#}" for T t
  proof (intro conjI impI allI)
    show "symmetric (T(tid := None)) (pq_vals q2)" by (rule symmetric_completed[OF sym t o H H' q2(3)])
    fix k w' assume cap: "\<forall>k w. pq_vals q k = Some w \<longrightarrow> within_capacity w" and w': "pq_vals q2 k = Some w'"
    obtain w where w: "pq_vals q1 k = Some w" "gave tid (count_list others k) w w'" by (rule moved_Some[OF q2(3) w'])
    have "count_list others k = held T tid k - (if k = wid then 1 else 0)"
      using t o by (simp add: held_def flip: count_mset)
    also have "\<dots> = holds (pq_vals q1) k tid" using symmetricD[OF sym, of tid k] H[of tid] H'[of k tid] by auto
    finally show "within_capacity w'"
      using gave_capacity[OF w(2) _ cap1[OF cap w(1)]] by (simp add: holds_def w(1))
  qed
  then show ?thesis using q1(1) q2(1,2) moved_workers_wf[OF q2(3) wf1] by blast
qed


lemma reset_scheduler_spec:
  assumes "sched_wf s"
  shows "sched_wf (reset_scheduler s)" "task_map (reset_scheduler s) = (\<lambda>_. None)"
    "worker_map (reset_scheduler s) = (\<lambda>_. None)" "buf_list (sc_results_buffer (reset_scheduler s)) = []"
    "sc_scheduled_job (reset_scheduler s) = sc_scheduled_job s"
  using assms by (simp_all add: reset_scheduler_def sched_wf_def tasks_wf_def workers_wf_def)

lemma symmetric_empty [simp]: "symmetric (\<lambda>_. None) (\<lambda>_. None)"
  by (simp add: symmetric_def held_def holds_def)

lemma result_accepted:
  assumes wf: "sched_wf s" and job: "sc_scheduled_job s = Some job" and t: "task_map s (wr_id result) = Some t"
    and comp: "job_completed job result = Some job'"
  shows "\<exists>out s'. process_result s wid result = Some (out, s') \<and> sched_wf s' \<and>
    sent_results out @ buf_list (sc_results_buffer s') = buf_list (sc_results_buffer s) @ [result] \<and>
    (consistent s \<longrightarrow> consistent s') \<and> (counted job' ((task_map s)(wr_id result := None)) \<longrightarrow> accounted s')"
proof -
  let ?tid = "wr_id result"
  have okT: "pq_ok (sc_tasks_queue s)" and okW: "pq_ok (sc_workers_queue s)" "workers_wf (worker_map s)"
    and buf: "buf_inv (sc_results_buffer s)" "buf_N (sc_results_buffer s) = 200" using wf by (simp_all add: sched_wf_def)
  obtain q where q: "pq_remove task_lt (sc_tasks_queue s) ?tid = Some (map_option (Pair ?tid) (task_map s ?tid), q)"
    "pq_ok q" "pq_vals q = (task_map s)(?tid := None)" by (rule task_order.remove_ok[OF okT])
  obtain b buf' where b: "buf_push (sc_results_buffer s) result = Some (b, buf')" "buf_inv buf'" "buf_N buf' = 200"
    "(case b of None \<Rightarrow> [] | Some batch \<Rightarrow> batch) @ buf_list buf' = buf_list (sc_results_buffer s) @ [result]"
    using buf_push_total[OF buf(1)] buf(2) by force
  obtain others where others: "swap_remove_value wid (t_assignments t) = Some (others, wid \<in> set (t_assignments t))"
    "mset others = mset (t_assignments t) - {#wid#}" "wid \<notin> set (t_assignments t) \<longrightarrow> others = t_assignments t"
    by (rule swap_remove_value_spec)
  obtain x q1 q2 where wq: "ref_mut_scope worker_lt (sc_workers_queue s) wid
      (\<lambda>w. do { (as, m) \<leftarrow> swap_remove_value ?tid (w_assignments w); Some (w\<lparr>w_assignments := as\<rparr>, m, ()) }) = Some (x, q1)"
    "replace_assignments ?tid others q1 = Some q2" "pq_ok q2" "workers_wf (pq_vals q2)"
    "\<And>T t. symmetric T (worker_map s) \<Longrightarrow> T ?tid = Some t \<Longrightarrow> mset others = mset (t_assignments t) - {#wid#} \<Longrightarrow>
       symmetric (T(?tid := None)) (pq_vals q2) \<and>
       ((\<forall>k w. worker_map s k = Some w \<longrightarrow> within_capacity w) \<longrightarrow> (\<forall>k w. pq_vals q2 k = Some w \<longrightarrow> within_capacity w))"
    using take_from_workers[OF okW, of wid ?tid others] by blast
  let ?s1 = "s\<lparr>sc_tasks_queue := q, sc_need_schedule := True, sc_scheduled_job := Some job',
                sc_results_buffer := buf', sc_workers_queue := q2\<rparr>"
  let ?out = "case b of Some batch \<Rightarrow> [Send_Task_Manager (TaskResults batch)] | None \<Rightarrow> []"
  have wf1: "sched_wf ?s1" using wf q b wq by (simp add: sched_wf_def tasks_wf_def)
  have sent: "sent_results ?out @ buf_list buf' = buf_list (sc_results_buffer s) @ [result]"
    using b(4) by (simp split: option.splits)
  have con1: "consistent ?s1" if inv: "consistent s"
    using wq(5)[OF consistentD(2)[OF inv job] t others(2)] consistentD(3)[OF inv job] wf1 q(3)
    by (simp add: consistent_def)
  have step: "process_result s wid result =
    (if sj_completed_tasks job' = sj_total_tasks job' then
       Some (?out @ [Send_Task_Manager (JobComplete (buf_list buf') (job_stats_of job')), Send_Node_Manager ReleaseDemand],
             reset_scheduler (?s1\<lparr>sc_results_buffer := buf_clear buf'\<rparr>))
     else Some (?out, ?s1))"
    using job q(1) t b(1,2) others(1) wq(1,2) comp by (simp add: process_result_def Let_def)
  show ?thesis
  proof (cases "sj_completed_tasks job' = sj_total_tasks job'")
    case True
    have wf2: "sched_wf (?s1\<lparr>sc_results_buffer := buf_clear buf'\<rparr>)" using wf1 b by (simp add: sched_wf_def)
    note r = reset_scheduler_spec[OF wf2]
    have "counted job' (pq_vals q) \<Longrightarrow> counted job' (\<lambda>_. None)"
      by (rule counted_finished[OF _ True pq_vals_finite[OF q(2)]])
    then show ?thesis using step True r sent q(3) by (auto simp: consistent_def accounted_def)
  next
    case False
    then show ?thesis using step wf1 sent con1 q(3) by (auto simp: accounted_def)
  qed
qed

lemma result_unknown:
  assumes wf: "sched_wf s" and job: "sc_scheduled_job s = Some job" and t: "task_map s (wr_id result) = None"
  shows "process_result s wid result = Some (out, s') \<Longrightarrow>
      sched_wf s' \<and> out = [] \<and> sc_results_buffer s' = sc_results_buffer s"
    "(\<And>w. worker_map s wid = Some w \<Longrightarrow> wr_id result \<notin> set (w_replacements w)) \<Longrightarrow>
      \<exists>s'. process_result s wid result = Some ([], s') \<and> sc_results_buffer s' = sc_results_buffer s \<and>
        (consistent s \<longrightarrow> consistent s' \<and> (accounted s \<longrightarrow> accounted s'))"
proof -
  let ?tid = "wr_id result"
  let ?body = "\<lambda>w. do { (w, m) \<leftarrow> drop_replacement ?tid w; Some (w, m, ()) }"
  have okT: "pq_ok (sc_tasks_queue s)" and okW: "pq_ok (sc_workers_queue s)" "workers_wf (worker_map s)"
    using wf by (simp_all add: sched_wf_def)
  obtain q where q: "pq_remove task_lt (sc_tasks_queue s) ?tid = Some (None, q)" "pq_ok q" "pq_vals q = task_map s"
    by (rule task_order.remove_ok[OF okT, of ?tid]) (use t in \<open>simp add: fun_upd_idem\<close>)
  have step: "process_result s wid result =
    do { (y, wq) \<leftarrow> ref_mut_scope worker_lt (sc_workers_queue s) wid ?body;
         Some ([], s\<lparr>sc_tasks_queue := q, sc_workers_queue := wq,
                     sc_need_schedule := (if y = None then sc_need_schedule s else True)\<rparr>) }"
    using job q(1) by (simp add: process_result_def Let_def cong: if_cong)
  show "sched_wf s' \<and> out = [] \<and> sc_results_buffer s' = sc_results_buffer s"
    if res: "process_result s wid result = Some (out, s')"
  proof -
    obtain y wq where y: "ref_mut_scope worker_lt (sc_workers_queue s) wid ?body = Some (y, wq)"
      "out = []" "s' = s\<lparr>sc_tasks_queue := q, sc_workers_queue := wq,
                     sc_need_schedule := (if y = None then sc_need_schedule s else True)\<rparr>"
      using res unfolding step by (auto split: bind_splits)
    have "pq_ok wq \<and> workers_wf (pq_vals wq)"
    proof (rule worker_order.ref_mut_scope_cases[OF okW(1) y(1)])
      fix v v' m r assume "pq_vals wq = (worker_map s)(wid \<mapsto> v')" "worker_map s wid = Some v" "pq_ok wq"
        "?body v = Some (v', m, r)"
      moreover from this have "w_id v' = w_id v" using drop_replacement_keeps by (auto split: bind_splits)
      ultimately show ?thesis using okW(2) by (simp add: workers_wf_def)
    qed (use okW drop_replacement_keeps in \<open>auto split: bind_splits\<close>)
    then show ?thesis using wf q y by (simp add: sched_wf_def)
  qed
  assume none: "\<And>w. worker_map s wid = Some w \<Longrightarrow> ?tid \<notin> set (w_replacements w)"
  have "\<exists>y wq. ref_mut_scope worker_lt (sc_workers_queue s) wid ?body = Some (y, wq) \<and> pq_ok wq \<and> pq_vals wq = worker_map s"
  proof (cases "worker_map s wid")
    case None
    then show ?thesis using okW by (simp add: worker_order.ref_mut_scope_absent)
  next
    case (Some w)
    have body: "?body w = Some (w, False, ())" using drop_replacement_none[OF none[OF Some]] by simp
    obtain wq where "ref_mut_scope worker_lt (sc_workers_queue s) wid ?body = Some (Some (), wq)" "pq_ok wq"
      "pq_vals wq = (worker_map s)(wid \<mapsto> w)"
      by (rule worker_order.ref_mut_scope_spec[where body = ?body, OF okW(1) Some body refl])
    then show ?thesis using Some by (auto simp: fun_upd_idem)
  qed
  then show "\<exists>s'. process_result s wid result = Some ([], s') \<and> sc_results_buffer s' = sc_results_buffer s \<and>
        (consistent s \<longrightarrow> consistent s' \<and> (accounted s \<longrightarrow> accounted s'))"
    unfolding step using q by (auto simp: consistent_def accounted_def sched_wf_def)
qed


subsection \<open>Error reports\<close>

lemma unassign_unknown:
  assumes "pq_vals q tid = None"
  shows "unassign_task wid tid (job, q, w, d) =
    do { (w, m) \<leftarrow> drop_replacement tid w; Some (False, job, q, w, d \<or> m) }"
  using assms by (simp add: unassign_task_def task_order.ref_mut_scope_absent)

lemma unassign_known:
  assumes ok: "pq_ok q" and t: "pq_vals q tid = Some t"
  shows "\<exists>q' as bs.
    unassign_task wid tid (job, q, w, d) =
      Some (True, job\<lparr>sj_scheduled_tasks := u128_sub (sj_scheduled_tasks job) (of_bool (\<not> has_assignments t))\<rparr>,
            q', w\<lparr>w_assignments := bs\<rparr>, d \<or> tid \<in> set (w_assignments w)) \<and>
    pq_ok q' \<and> pq_vals q' = (pq_vals q)(tid \<mapsto> t\<lparr>t_assignments := as\<rparr>) \<and>
    mset as = mset (t_assignments t) - {#wid#} \<and> mset bs = mset (w_assignments w) - {#tid#} \<and>
    (tid \<notin> set (w_assignments w) \<longrightarrow> bs = w_assignments w)"
proof -
  let ?body = "\<lambda>t. do {
               (as, m) \<leftarrow> swap_remove_value wid (t_assignments t);
               Some (t\<lparr>t_assignments := as\<rparr>, m, \<not> has_assignments t)
             }"
  obtain q' as where q': "ref_mut_scope task_lt q tid ?body = Some (Some (\<not> has_assignments t), q')" "pq_ok q'"
    "pq_vals q' = (pq_vals q)(tid \<mapsto> t\<lparr>t_assignments := as\<rparr>)" "mset as = mset (t_assignments t) - {#wid#}"
    by (rule unassign_scope[where body = ?body and f = "\<lambda>_. \<not> has_assignments t" and wid = wid, OF ok t]) auto
  obtain bs where bs: "swap_remove_value tid (w_assignments w) = Some (bs, tid \<in> set (w_assignments w))"
    "mset bs = mset (w_assignments w) - {#tid#}" "tid \<notin> set (w_assignments w) \<longrightarrow> bs = w_assignments w"
    by (rule swap_remove_value_spec)
  show ?thesis using q' bs by (auto simp: unassign_task_def)
qed

lemma tasks_wf_upd:
  assumes "tasks_wf T" "T tid = Some t" "t_task_data t' = t_task_data t"
  shows "tasks_wf (T(tid \<mapsto> t'))"
  using assms by (simp add: tasks_wf_def)

definition report_kept :: "task priority_queue \<Rightarrow> worker \<Rightarrow> bool \<Rightarrow> task priority_queue \<Rightarrow> worker \<Rightarrow> bool \<Rightarrow> bool" where
  "report_kept q w d q' w' d' \<longleftrightarrow>
     pq_ok q' \<and> tasks_wf (pq_vals q') \<and> w_id w' = w_id w \<and> (d \<longrightarrow> d') \<and> (\<not> d' \<longrightarrow> w' = w)"

lemma report_kept_trans:
  "report_kept q w d q1 w1 d1 \<Longrightarrow> report_kept q1 w1 d1 q' w' d' \<Longrightarrow> report_kept q w d q' w' d'"
  by (auto simp: report_kept_def)

lemma unassign_task_keeps:
  assumes ok: "pq_ok q" "tasks_wf (pq_vals q)" and res: "unassign_task wid tid (job, q, w, d) = Some (f, job', q', w', d')"
  shows "report_kept q w d q' w' d'"
proof (cases "pq_vals q tid")
  case None
  then show ?thesis
    using ok res drop_replacement_keeps unfolding unassign_unknown[OF None] report_kept_def
    by (fastforce split: bind_splits)
next
  case (Some t)
  show ?thesis
    using unassign_known[OF ok(1) Some, of wid job w d] tasks_wf_upd[OF ok(2) Some] res
    by (auto simp: report_kept_def)
qed

lemma unassign_tasks_keeps:
  assumes "pq_ok q" "tasks_wf (pq_vals q)" "unassign_tasks wid tids (job, q, w, d) = Some (job', q', w', d')"
  shows "report_kept q w d q' w' d'"
  using assms
proof (induction tids arbitrary: job q w d)
  case Nil
  then show ?case by (simp add: report_kept_def)
next
  case (Cons tid tids)
  from Cons.prems(3) obtain f job1 q1 w1 d1 where u: "unassign_task wid tid (job, q, w, d) = Some (f, job1, q1, w1, d1)"
    "unassign_tasks wid tids (job1, q1, w1, d1) = Some (job', q', w', d')" by (auto split: bind_splits)
  have k: "report_kept q w d q1 w1 d1" by (rule unassign_task_keeps[OF Cons.prems(1,2) u(1)])
  then show ?case using Cons.IH[OF _ _ u(2)] report_kept_trans[OF k] by (simp add: report_kept_def)
qed

lemma unassign_replacements_keeps:
  assumes "pq_ok q" "tasks_wf (pq_vals q)" "unassign_replacements wid rs (job, q, w, d) = Some (job', q', w', d')"
  shows "report_kept q w d q' w' d'"
  using assms
proof (induction rs arbitrary: job q w d)
  case Nil
  then show ?case by (simp add: report_kept_def)
next
  case (Cons r rs)
  obtain rid tid where r: "r = (rid, tid)" by (cases r)
  from Cons.prems(3) obtain f job1 q1 w1 d1 where u: "unassign_task wid tid (job, q, w, d) = Some (f, job1, q1, w1, d1)"
    "unassign_replacements wid rs (if f then (job1, q1, w1\<lparr>w_replacements := w_replacements w1 @ [rid]\<rparr>, True)
          else (job1, q1, w1, d1)) = Some (job', q', w', d')" by (auto simp: r split: bind_splits)
  have k: "report_kept q w d q1 w1 d1" by (rule unassign_task_keeps[OF Cons.prems(1,2) u(1)])
  then have "report_kept q w d q1 (if f then w1\<lparr>w_replacements := w_replacements w1 @ [rid]\<rparr> else w1) (f \<or> d1)"
    by (simp add: report_kept_def)
  moreover have "pq_ok q1" "tasks_wf (pq_vals q1)" using k by (simp_all add: report_kept_def)
  ultimately show ?case using Cons.IH[of q1] u(2) report_kept_trans by (cases f) fastforce+
qed


lemma symmetric_unassign:
  assumes sym: "symmetric T W" and w: "W wid = Some w" and t: "T tid = Some t"
    and as: "mset (t_assignments t') = mset (t_assignments t) - {#wid#}"
    and bs: "mset (w_assignments w') = mset (w_assignments w) - {#tid#}"
  shows "symmetric (T(tid \<mapsto> t')) (W(wid \<mapsto> w'))"
  unfolding symmetric_def
proof (intro allI)
  fix k x
  show "held (T(tid \<mapsto> t')) k x = holds (W(wid \<mapsto> w')) x k"
    using symmetricD[OF sym, of k x] w t as bs
    by (cases "k = tid"; cases "x = wid") (auto simp: held_def holds_def)
qed

lemma held_by_worker:
  assumes sym: "symmetric T W" and w: "W wid = Some w" and tid: "tid \<in> set (w_assignments w)"
  obtains t where "T tid = Some t" "has_assignments t"
proof -
  have "0 < held T tid wid" using symmetricD[OF sym, of tid wid] w tid by (simp add: holds_def)
  then obtain t where "T tid = Some t" "wid \<in> set (t_assignments t)" by (auto simp: held_def split: option.splits)
  then show ?thesis by (intro that[of t]) (auto simp: has_assignments_def)
qed

lemma unassign_task_sym:
  assumes ok: "pq_ok q" and sym: "symmetric (pq_vals q) (W(wid \<mapsto> w))" and tid: "tid \<in> set (w_assignments w)"
  shows "\<exists>q' bs d'. unassign_task wid tid (job, q, w, d) = Some (True, job, q', w\<lparr>w_assignments := bs\<rparr>, d') \<and>
    pq_ok q' \<and> mset bs = mset (w_assignments w) - {#tid#} \<and> symmetric (pq_vals q') (W(wid \<mapsto> w\<lparr>w_assignments := bs\<rparr>))"
proof -
  obtain t where t: "pq_vals q tid = Some t" "has_assignments t" by (rule held_by_worker[OF sym _ tid, of wid]) auto
  obtain q' as bs where u: "unassign_task wid tid (job, q, w, d) =
      Some (True, job\<lparr>sj_scheduled_tasks := u128_sub (sj_scheduled_tasks job) (of_bool (\<not> has_assignments t))\<rparr>,
            q', w\<lparr>w_assignments := bs\<rparr>, d \<or> tid \<in> set (w_assignments w))"
    "pq_ok q'" "pq_vals q' = (pq_vals q)(tid \<mapsto> t\<lparr>t_assignments := as\<rparr>)"
    "mset as = mset (t_assignments t) - {#wid#}" "mset bs = mset (w_assignments w) - {#tid#}"
    using unassign_known[OF ok t(1), of wid job w d] by blast
  have "symmetric (pq_vals q') (W(wid \<mapsto> w\<lparr>w_assignments := bs\<rparr>))"
    using symmetric_unassign[OF sym _ t(1), of wid w "t\<lparr>t_assignments := as\<rparr>" "w\<lparr>w_assignments := bs\<rparr>"] u(3-5) by simp
  moreover have "unassign_task wid tid (job, q, w, d) =
      Some (True, job, q', w\<lparr>w_assignments := bs\<rparr>, d \<or> tid \<in> set (w_assignments w))"
    using u(1) t(2) by simp
  ultimately show ?thesis using u(2,5) by blast
qed

lemma mset_subset_Cons: "mset (x # xs) \<subseteq># B \<Longrightarrow> x \<in># B \<and> mset xs \<subseteq># B - {#x#}"
  by (metis insert_subset_eq_iff mset.simps(2))

lemma unassign_tasks_sym:
  assumes "pq_ok q" "symmetric (pq_vals q) (W(wid \<mapsto> w))" "mset tids \<subseteq># mset (w_assignments w)"
  shows "\<exists>q' bs d'. unassign_tasks wid tids (job, q, w, d) = Some (job, q', w\<lparr>w_assignments := bs\<rparr>, d') \<and>
    pq_ok q' \<and> mset bs = mset (w_assignments w) - mset tids \<and> symmetric (pq_vals q') (W(wid \<mapsto> w\<lparr>w_assignments := bs\<rparr>))"
  using assms
proof (induction tids arbitrary: q w d)
  case Nil
  then show ?case by (intro exI[of _ q] exI[of _ "w_assignments w"]) simp
next
  case (Cons tid tids)
  have tid: "tid \<in> set (w_assignments w)" "mset tids \<subseteq># mset (w_assignments w) - {#tid#}"
    using mset_subset_Cons[OF Cons.prems(3)] by simp_all
  obtain q1 bs d1 where u: "unassign_task wid tid (job, q, w, d) = Some (True, job, q1, w\<lparr>w_assignments := bs\<rparr>, d1)"
    "pq_ok q1" "mset bs = mset (w_assignments w) - {#tid#}" "symmetric (pq_vals q1) (W(wid \<mapsto> w\<lparr>w_assignments := bs\<rparr>))"
    using unassign_task_sym[OF Cons.prems(1,2) tid(1)] by blast
  show ?case using Cons.IH[OF u(2,4), of d1] u(1,3) tid(2) by auto
qed

lemma unassign_replacements_sym:
  assumes "pq_ok q" "symmetric (pq_vals q) (W(wid \<mapsto> w))" "mset (map snd rs) \<subseteq># mset (w_assignments w)"
  shows "\<exists>q' bs d'. unassign_replacements wid rs (job, q, w, d) =
      Some (job, q', w\<lparr>w_assignments := bs, w_replacements := w_replacements w @ map fst rs\<rparr>, d') \<and>
    pq_ok q' \<and> mset bs = mset (w_assignments w) - mset (map snd rs) \<and>
    symmetric (pq_vals q') (W(wid \<mapsto> w\<lparr>w_assignments := bs, w_replacements := w_replacements w @ map fst rs\<rparr>))"
  using assms
proof (induction rs arbitrary: q w d)
  case Nil
  then show ?case by (intro exI[of _ q] exI[of _ "w_assignments w"]) simp
next
  case (Cons r rs)
  obtain rid tid where r: "r = (rid, tid)" by (cases r)
  have tid: "tid \<in> set (w_assignments w)" "mset (map snd rs) \<subseteq># mset (w_assignments w) - {#tid#}"
    using mset_subset_Cons[of tid "map snd rs" "mset (w_assignments w)"] Cons.prems(3) by (simp_all add: r)
  obtain q1 bs d1 where u: "unassign_task wid tid (job, q, w, d) = Some (True, job, q1, w\<lparr>w_assignments := bs\<rparr>, d1)"
    "pq_ok q1" "mset bs = mset (w_assignments w) - {#tid#}" "symmetric (pq_vals q1) (W(wid \<mapsto> w\<lparr>w_assignments := bs\<rparr>))"
    using unassign_task_sym[OF Cons.prems(1,2) tid(1)] by blast
  let ?w = "w\<lparr>w_assignments := bs, w_replacements := w_replacements w @ [rid]\<rparr>"
  have sym: "symmetric (pq_vals q1) (W(wid \<mapsto> ?w))" using u(4) by (simp add: symmetric_def holds_def)
  have sub: "mset (map snd rs) \<subseteq># mset (w_assignments ?w)" using u(3) tid(2) by simp
  obtain q' bs' d' where q': "unassign_replacements wid rs (job, q1, ?w, True) =
      Some (job, q', ?w\<lparr>w_assignments := bs', w_replacements := w_replacements ?w @ map fst rs\<rparr>, d')"
    "pq_ok q'" "mset bs' = mset (w_assignments ?w) - mset (map snd rs)"
    "symmetric (pq_vals q') (W(wid \<mapsto> ?w\<lparr>w_assignments := bs', w_replacements := w_replacements ?w @ map fst rs\<rparr>))"
    using Cons.IH[OF u(2) sym sub, of True] by blast
  have "unassign_replacements wid (r # rs) (job, q, w, d) =
      Some (job, q', w\<lparr>w_assignments := bs', w_replacements := w_replacements w @ map fst (r # rs)\<rparr>, d')"
    using u(1) q'(1) by (simp add: r)
  moreover have "mset bs' = mset (w_assignments w) - mset (map snd (r # rs))" using q'(3) u(3) by (simp add: r)
  moreover have "symmetric (pq_vals q')
      (W(wid \<mapsto> w\<lparr>w_assignments := bs', w_replacements := w_replacements w @ map fst (r # rs)\<rparr>))"
    using q'(4) by (simp add: r)
  ultimately show ?case using q'(2) by blast
qed


lemma size_report:
  assumes "mset bs = mset as - mset tids" "mset tids \<subseteq># mset as"
  shows "length bs + length tids = length as"
proof -
  have "length bs = size (mset as - mset tids)" using assms(1) by (metis size_mset)
  then show ?thesis using size_Diff_submset[OF assms(2)] size_mset_mono[OF assms(2)] by simp
qed

lemma mset_append_sub:
  assumes "mset (xs @ ys) \<subseteq># B"
  shows "mset xs \<subseteq># B" "mset ys \<subseteq># B - mset xs"
proof -
  show *: "mset xs \<subseteq># B" using assms by (metis mset_append mset_subset_eq_add_left subset_mset.order_trans)
  show "mset ys \<subseteq># B - mset xs"
    using assms by (simp add: subset_mset.le_diff_conv2[OF *] union_commute)
qed

lemma workers_wf_upd:
  assumes "workers_wf W" "W wid = Some w" "w_id w' = w_id w"
  shows "workers_wf (W(wid \<mapsto> w'))"
  using assms by (simp add: workers_wf_def)

lemma library_missing_wf:
  assumes wf: "sched_wf s" and res: "process_library_missing s wid tasks rs = Some s'"
  shows "sched_wf s' \<and> sc_results_buffer s' = sc_results_buffer s"
proof (cases "sc_scheduled_job s")
  case None
  then show ?thesis using wf res by (simp add: process_library_missing_def)
next
  case job: (Some job)
  let ?body = "\<lambda>w. do {
     st \<leftarrow> unassign_tasks wid tasks (job, sc_tasks_queue s, w\<lparr>w_has_job_data := False\<rparr>, True);
     (job, q, w, dirty) \<leftarrow> unassign_replacements wid rs st;
     Some (w, dirty, (job, q)) }"
  have okT: "pq_ok (sc_tasks_queue s)" "tasks_wf (task_map s)" and okW: "pq_ok (sc_workers_queue s)" "workers_wf (worker_map s)"
    using wf by (simp_all add: sched_wf_def)
  have body: "pq_ok q' \<and> tasks_wf (pq_vals q') \<and> w_id w' = w_id w \<and> d"
    if b: "?body w = Some (w', d, (job', q'))" for w w' d job' q'
  proof -
    from b obtain job1 q1 w1 d1 where
      u: "unassign_tasks wid tasks (job, sc_tasks_queue s, w\<lparr>w_has_job_data := False\<rparr>, True) = Some (job1, q1, w1, d1)"
      "unassign_replacements wid rs (job1, q1, w1, d1) = Some (job', q', w', d)" by (auto split: bind_splits)
    have k: "report_kept (sc_tasks_queue s) (w\<lparr>w_has_job_data := False\<rparr>) True q1 w1 d1"
      by (rule unassign_tasks_keeps[OF okT u(1)])
    then have "report_kept q1 w1 d1 q' w' d" using unassign_replacements_keeps[OF _ _ u(2)] by (simp add: report_kept_def)
    with report_kept_trans[OF k this] show ?thesis by (simp add: report_kept_def)
  qed
  obtain x wq where x: "ref_mut_scope worker_lt (sc_workers_queue s) wid ?body = Some (x, wq)"
    "s' = (case x of None \<Rightarrow> s\<lparr>sc_workers_queue := wq\<rparr>
          | Some (job, q) \<Rightarrow> s\<lparr>sc_workers_queue := wq, sc_scheduled_job := Some job, sc_tasks_queue := q, sc_need_schedule := True\<rparr>)"
    using res job by (auto simp: process_library_missing_def split: bind_splits option.splits)
  show ?thesis
  proof (rule worker_order.ref_mut_scope_cases[OF okW(1) x(1)])
    fix v v' m r
    assume v: "worker_map s wid = Some v" "?body v = Some (v', m, r)" "x = Some r" "pq_ok wq"
      "pq_vals wq = (worker_map s)(wid \<mapsto> v')"
    obtain job' q' where r: "r = (job', q')" by (cases r)
    show ?thesis
      using body[OF v(2)[unfolded r]] x(2) v wf workers_wf_upd[OF okW(2) v(1), of v'] by (simp add: r sched_wf_def)
  next
    fix v v' r assume "?body v = Some (v', False, r)"
    then show "v' = v" using body[of v v' False "fst r" "snd r"] by simp
  qed (use x(2) wf in \<open>auto simp: sched_wf_def\<close>)
qed

lemma library_missing_consistent:
  assumes inv: "consistent s"
    and rep: "\<And>w. worker_map s wid = Some w \<Longrightarrow> mset (tasks @ map snd rs) \<subseteq># mset (w_assignments w)"
  shows "\<exists>s'. process_library_missing s wid tasks rs = Some s' \<and> consistent s' \<and> sc_scheduled_job s' = sc_scheduled_job s"
proof (cases "sc_scheduled_job s")
  case None
  then show ?thesis using inv by (simp add: process_library_missing_def)
next
  case job: (Some job)
  let ?body = "\<lambda>w. do {
     st \<leftarrow> unassign_tasks wid tasks (job, sc_tasks_queue s, w\<lparr>w_has_job_data := False\<rparr>, True);
     (job, q, w, dirty) \<leftarrow> unassign_replacements wid rs st;
     Some (w, dirty, (job, q)) }"
  note wf = consistentD(1)[OF inv]
  have okT: "pq_ok (sc_tasks_queue s)" and okW: "pq_ok (sc_workers_queue s)" using wf by (simp_all add: sched_wf_def)
  show ?thesis
  proof (cases "worker_map s wid")
    case None
    then show ?thesis using inv job by (simp add: process_library_missing_def worker_order.ref_mut_scope_absent)
  next
    case w: (Some w)
    let ?w0 = "w\<lparr>w_has_job_data := False\<rparr>"
    note sub = mset_append_sub[OF rep[OF w]]
    have sym0: "symmetric (task_map s) ((worker_map s)(wid \<mapsto> ?w0))"
      using consistentD(2)[OF inv job] w by (simp add: symmetric_def holds_def)
    obtain q1 bs d1 where u: "unassign_tasks wid tasks (job, sc_tasks_queue s, ?w0, True) = Some (job, q1, ?w0\<lparr>w_assignments := bs\<rparr>, d1)"
      "pq_ok q1" "mset bs = mset (w_assignments ?w0) - mset tasks"
      "symmetric (pq_vals q1) ((worker_map s)(wid \<mapsto> ?w0\<lparr>w_assignments := bs\<rparr>))"
      using unassign_tasks_sym[OF okT sym0, of tasks job True] sub(1) by auto
    let ?w1 = "?w0\<lparr>w_assignments := bs\<rparr>"
    have sub1: "mset (map snd rs) \<subseteq># mset (w_assignments ?w1)" using sub(2) u(3) by simp
    obtain q' bs' d' where r: "unassign_replacements wid rs (job, q1, ?w1, d1) =
        Some (job, q', ?w1\<lparr>w_assignments := bs', w_replacements := w_replacements ?w1 @ map fst rs\<rparr>, d')"
      "pq_ok q'" "mset bs' = mset (w_assignments ?w1) - mset (map snd rs)"
      "symmetric (pq_vals q') ((worker_map s)(wid \<mapsto> ?w1\<lparr>w_assignments := bs', w_replacements := w_replacements ?w1 @ map fst rs\<rparr>))"
      using unassign_replacements_sym[OF u(2,4) sub1, of job d1] by blast
    let ?w2 = "?w1\<lparr>w_assignments := bs', w_replacements := w_replacements ?w1 @ map fst rs\<rparr>"
    have body: "?body w = Some (?w2, d', (job, q'))" using u(1) r(1) by simp
    have "report_kept (sc_tasks_queue s) ?w0 True q1 ?w1 d1"
      using unassign_tasks_keeps[OF okT _ u(1)] wf by (simp add: sched_wf_def)
    then have d': "d'" using unassign_replacements_keeps[OF _ _ r(1)] by (simp add: report_kept_def)
    obtain wq where q: "ref_mut_scope worker_lt (sc_workers_queue s) wid ?body = Some (Some (job, q'), wq)" "pq_ok wq"
      "pq_vals wq = (worker_map s)(wid \<mapsto> ?w2)"
      by (rule worker_order.ref_mut_scope_spec[where body = ?body, OF okW w body]) (use d' in simp)
    let ?s' = "s\<lparr>sc_workers_queue := wq, sc_scheduled_job := Some job, sc_tasks_queue := q', sc_need_schedule := True\<rparr>"
    have p: "process_library_missing s wid tasks rs = Some ?s'" using q(1) job by (simp add: process_library_missing_def)
    have "within_capacity ?w2"
      using size_report[OF u(3)] size_report[OF r(3)] sub1 sub(1) consistentD(3)[OF inv job w]
      by (simp add: within_capacity_def)
    then have "consistent ?s'"
      using library_missing_wf[OF wf p] r(4) q(3) consistentD(3)[OF inv job] by (simp add: consistent_def)
    then show ?thesis using p job by simp
  qed
qed


lemma no_free_executors_wf:
  assumes wf: "sched_wf s" and res: "process_no_free_executors s wid tasks = Some s'"
  shows "sched_wf s' \<and> sc_results_buffer s' = sc_results_buffer s"
proof (cases "sc_scheduled_job s")
  case None
  then show ?thesis using wf res by (simp add: process_no_free_executors_def)
next
  case job: (Some job)
  let ?w0 = "\<lambda>w. if w_subworkers w \<noteq> 0 then w\<lparr>w_subworkers := usize_sub (w_subworkers w) (length tasks)\<rparr> else w"
  let ?body = "\<lambda>w. do {
     let has = (w_subworkers w \<noteq> 0);
     let w = (if has then w\<lparr>w_subworkers := usize_sub (w_subworkers w) (length tasks)\<rparr> else w);
     (job, q, w, dirty) \<leftarrow> unassign_tasks wid tasks (job, sc_tasks_queue s, w, has);
     Some (w, dirty, (has, job, q)) }"
  have okT: "pq_ok (sc_tasks_queue s)" "tasks_wf (task_map s)" and okW: "pq_ok (sc_workers_queue s)" "workers_wf (worker_map s)"
    using wf by (simp_all add: sched_wf_def)
  have body: "pq_ok q' \<and> tasks_wf (pq_vals q') \<and> w_id w' = w_id w \<and> (\<not> d \<longrightarrow> w' = w)"
    if b: "?body w = Some (w', d, (has, job', q'))" for w w' d has job' q'
  proof -
    from b have "unassign_tasks wid tasks (job, sc_tasks_queue s, ?w0 w, w_subworkers w \<noteq> 0) = Some (job', q', w', d)"
      by (auto simp: Let_def split: bind_splits)
    from unassign_tasks_keeps[OF okT this] show ?thesis by (auto simp: report_kept_def split: if_splits)
  qed
  obtain x wq where x: "ref_mut_scope worker_lt (sc_workers_queue s) wid ?body = Some (x, wq)"
    "s' = (case x of None \<Rightarrow> s\<lparr>sc_workers_queue := wq\<rparr>
          | Some (has, job, q) \<Rightarrow> s\<lparr>sc_workers_queue := wq, sc_scheduled_job := Some job, sc_tasks_queue := q,
                        sc_need_schedule := has \<or> sc_need_schedule s\<rparr>)"
    using res job by (auto simp: process_no_free_executors_def Let_def split: bind_splits option.splits)
  show ?thesis
  proof (rule worker_order.ref_mut_scope_cases[OF okW(1) x(1)])
    fix v v' m r
    assume v: "worker_map s wid = Some v" "?body v = Some (v', m, r)" "x = Some r" "pq_ok wq"
      "pq_vals wq = (worker_map s)(wid \<mapsto> v')"
    obtain has job' q' where r: "r = (has, job', q')" by (cases r)
    show ?thesis
      using body[OF v(2)[unfolded r]] x(2) v wf workers_wf_upd[OF okW(2) v(1), of v'] by (simp add: r sched_wf_def)
  next
    fix v v' r assume "?body v = Some (v', False, r)"
    then show "v' = v" using body[of v v' False "fst r" "fst (snd r)" "snd (snd r)"] by simp
  qed (use x(2) wf in \<open>auto simp: sched_wf_def\<close>)
qed

lemma no_free_executors_consistent:
  assumes inv: "consistent s" and rep: "\<And>w. worker_map s wid = Some w \<Longrightarrow> mset tasks \<subseteq># mset (w_assignments w)"
  shows "\<exists>s'. process_no_free_executors s wid tasks = Some s' \<and> consistent s' \<and> sc_scheduled_job s' = sc_scheduled_job s"
proof (cases "sc_scheduled_job s")
  case None
  then show ?thesis using inv by (simp add: process_no_free_executors_def)
next
  case job: (Some job)
  let ?body = "\<lambda>w. do {
     let has = (w_subworkers w \<noteq> 0);
     let w = (if has then w\<lparr>w_subworkers := usize_sub (w_subworkers w) (length tasks)\<rparr> else w);
     (job, q, w, dirty) \<leftarrow> unassign_tasks wid tasks (job, sc_tasks_queue s, w, has);
     Some (w, dirty, (has, job, q)) }"
  note wf = consistentD(1)[OF inv]
  have okT: "pq_ok (sc_tasks_queue s)" "tasks_wf (task_map s)" and okW: "pq_ok (sc_workers_queue s)"
    using wf by (simp_all add: sched_wf_def)
  show ?thesis
  proof (cases "worker_map s wid")
    case None
    then show ?thesis using inv job by (simp add: process_no_free_executors_def worker_order.ref_mut_scope_absent)
  next
    case w: (Some w)
    let ?has = "w_subworkers w \<noteq> 0"
    let ?w0 = "if ?has then w\<lparr>w_subworkers := usize_sub (w_subworkers w) (length tasks)\<rparr> else w"
    note cap = consistentD(3)[OF inv job w]
    have le: "length tasks \<le> length (w_assignments w)" using size_mset_mono[OF rep[OF w]] by simp
    have w0: "w_assignments ?w0 = w_assignments w" "w_replacements ?w0 = w_replacements w"
      "w_subworkers ?w0 = w_subworkers w - length tasks"
      using le cap by (auto simp: within_capacity_def)
    have sym0: "symmetric (task_map s) ((worker_map s)(wid \<mapsto> ?w0))"
      using consistentD(2)[OF inv job] w w0(1) by (simp add: symmetric_def holds_def)
    have sub: "mset tasks \<subseteq># mset (w_assignments ?w0)" using rep[OF w] w0(1) by simp
    obtain q1 bs d1 where u: "unassign_tasks wid tasks (job, sc_tasks_queue s, ?w0, ?has) = Some (job, q1, ?w0\<lparr>w_assignments := bs\<rparr>, d1)"
      "pq_ok q1" "mset bs = mset (w_assignments ?w0) - mset tasks"
      "symmetric (pq_vals q1) ((worker_map s)(wid \<mapsto> ?w0\<lparr>w_assignments := bs\<rparr>))"
      using unassign_tasks_sym[OF okT(1) sym0 sub, of job ?has] by blast
    let ?w1 = "?w0\<lparr>w_assignments := bs\<rparr>"
    have body: "?body w = Some (?w1, d1, (?has, job, q1))" using u(1) by (simp add: Let_def cong: if_cong)
    have keep: "\<not> d1 \<longrightarrow> ?w1 = w" using unassign_tasks_keeps[OF okT u(1)] by (auto simp: report_kept_def)
    obtain wq where q: "ref_mut_scope worker_lt (sc_workers_queue s) wid ?body = Some (Some (?has, job, q1), wq)" "pq_ok wq"
      "pq_vals wq = (worker_map s)(wid \<mapsto> ?w1)"
      by (rule worker_order.ref_mut_scope_spec[where body = ?body, OF okW w body]) (use keep in simp)
    let ?s' = "s\<lparr>sc_workers_queue := wq, sc_scheduled_job := Some job, sc_tasks_queue := q1,
                 sc_need_schedule := ?has \<or> sc_need_schedule s\<rparr>"
    have p: "process_no_free_executors s wid tasks = Some ?s'"
      using q(1) job by (simp add: process_no_free_executors_def)
    have "within_capacity ?w1"
      using size_report[OF u(3) sub] cap w0 le by (auto simp: within_capacity_def)
    then have "consistent ?s'"
      using no_free_executors_wf[OF wf p] u(4) q(3) consistentD(3)[OF inv job]
      by (cases ?has) (simp_all add: consistent_def)
    then show ?thesis using p job by simp
  qed
qed


text \<open>A failed task. The body over the task, and what it leaves.\<close>

lemma failed_task_scope:
  assumes ok: "pq_ok q" and t: "pq_vals q tid = Some t"
  shows "\<exists>q' t'. ref_mut_scope task_lt q tid
       (\<lambda>t. do {
          (as, m) \<leftarrow> swap_remove_value wid (t_assignments t);
          let unassigned = (\<not> has_assignments t);
          let t = t\<lparr>t_assignments := as\<rparr>;
          if t_failed_executions t = limit
          then Some (t, m, (unassigned, True))
          else Some (t\<lparr>t_failed_executions := wrap 16 (t_failed_executions t + 1)\<rparr>, True, (unassigned, False))
        }) = Some (Some (\<not> has_assignments t, t_failed_executions t = limit), q') \<and>
    pq_ok q' \<and> pq_vals q' = (pq_vals q)(tid \<mapsto> t') \<and> t_task_data t' = t_task_data t \<and>
    mset (t_assignments t') = mset (t_assignments t) - {#wid#} \<and>
    t_failed_executions t' = (if t_failed_executions t = limit then limit else wrap 16 (t_failed_executions t + 1))"
    (is "\<exists>q' t'. ref_mut_scope task_lt q tid ?body = _ \<and> _")
proof -
  obtain as where as: "swap_remove_value wid (t_assignments t) = Some (as, wid \<in> set (t_assignments t))"
    "mset as = mset (t_assignments t) - {#wid#}" "wid \<notin> set (t_assignments t) \<longrightarrow> as = t_assignments t"
    by (rule swap_remove_value_spec)
  let ?lim = "t_failed_executions t = limit"
  let ?t' = "t\<lparr>t_assignments := as,
    t_failed_executions := if ?lim then limit else wrap 16 (t_failed_executions t + 1)\<rparr>"
  have body: "?body t = Some (?t', ?lim \<longrightarrow> wid \<in> set (t_assignments t), (\<not> has_assignments t, ?lim))"
    using as(1) by (cases t) (simp add: Let_def)
  obtain q' where "ref_mut_scope task_lt q tid ?body = Some (Some (\<not> has_assignments t, ?lim), q')" "pq_ok q'"
    "pq_vals q' = (pq_vals q)(tid \<mapsto> ?t')"
    by (rule task_order.ref_mut_scope_spec[where body = ?body, OF ok t body]) (use as(3) in \<open>cases t; simp\<close>)
  then show ?thesis using as(2) by (intro exI[of _ q'] exI[of _ ?t']) simp
qed


lemma task_execution_error_wf:
  assumes wf: "sched_wf s" and res: "process_task_execution_error s wid tid error = Some (out, s')"
  shows "sched_wf s' \<and> sc_results_buffer s' = sc_results_buffer s \<and> sent_results out = []"
proof (cases "sc_scheduled_job s")
  case None
  then show ?thesis using wf res by (simp add: process_task_execution_error_def)
next
  case job: (Some job)
  let ?tbody = "\<lambda>t. do {
          (as, m) \<leftarrow> swap_remove_value wid (t_assignments t);
          let unassigned = (\<not> has_assignments t);
          let t = t\<lparr>t_assignments := as\<rparr>;
          if t_failed_executions t = sc_failed_executions_limit s
          then Some (t, m, (unassigned, True))
          else Some (t\<lparr>t_failed_executions := wrap 16 (t_failed_executions t + 1)\<rparr>, True, (unassigned, False))
        }"
  let ?body = "\<lambda>w. do {
     (y, q) \<leftarrow> ref_mut_scope task_lt (sc_tasks_queue s) tid ?tbody;
     case y of
       None \<Rightarrow> do { (w, m) \<leftarrow> drop_replacement tid w; Some (w, m, (q, Some job, [])) }
     | Some (unassigned, limit) \<Rightarrow>
         do {
           let job = job\<lparr>sj_scheduled_tasks := u128_sub (sj_scheduled_tasks job) (of_bool unassigned)\<rparr>;
           (as, m) \<leftarrow> swap_remove_value tid (w_assignments w);
           Some (w\<lparr>w_assignments := as\<rparr>, m,
             (q, if limit then None else Some job,
              if limit then [Send_Task_Manager (SP_TaskExecutionError error (job_stats_of job))] else []))
         } }"
  have okT: "pq_ok (sc_tasks_queue s)" "tasks_wf (task_map s)" and okW: "pq_ok (sc_workers_queue s)" "workers_wf (worker_map s)"
    using wf by (simp_all add: sched_wf_def)
  have body: "pq_ok q' \<and> tasks_wf (pq_vals q') \<and> w_id w' = w_id w \<and> (\<not> d \<longrightarrow> w' = w) \<and> sent_results out' = []"
    if b: "?body w = Some (w', d, (q', job', out'))" for w w' d q' job' out'
  proof (cases "task_map s tid")
    case None
    then show ?thesis using b okT drop_replacement_keeps[of tid w w' d]
      by (auto simp: task_order.ref_mut_scope_absent split: bind_splits)
  next
    case (Some t)
    obtain q1 t' where q1: "ref_mut_scope task_lt (sc_tasks_queue s) tid ?tbody =
        Some (Some (\<not> has_assignments t, t_failed_executions t = sc_failed_executions_limit s), q1)"
      "pq_ok q1" "pq_vals q1 = (task_map s)(tid \<mapsto> t')" "t_task_data t' = t_task_data t"
      using failed_task_scope[OF okT(1) Some, of wid "sc_failed_executions_limit s"] by blast
    obtain bs where bs: "swap_remove_value tid (w_assignments w) = Some (bs, tid \<in> set (w_assignments w))"
      "mset bs = mset (w_assignments w) - {#tid#}" "tid \<notin> set (w_assignments w) \<longrightarrow> bs = w_assignments w"
      by (rule swap_remove_value_spec)
    show ?thesis using b bs q1 tasks_wf_upd[OF okT(2) Some q1(4)] by (auto simp: Let_def)
  qed
  obtain x wq where x: "ref_mut_scope worker_lt (sc_workers_queue s) wid ?body = Some (x, wq)"
    "(out, s') = (case x of None \<Rightarrow> ([], s\<lparr>sc_workers_queue := wq\<rparr>)
          | Some (q, job, out) \<Rightarrow> (out, s\<lparr>sc_workers_queue := wq, sc_tasks_queue := q, sc_scheduled_job := job,
                             sc_need_schedule := True\<rparr>))"
    using res job by (auto simp: process_task_execution_error_def split: bind_splits option.splits)
  show ?thesis
  proof (rule worker_order.ref_mut_scope_cases[OF okW(1) x(1)])
    fix v v' m r
    assume v: "worker_map s wid = Some v" "?body v = Some (v', m, r)" "x = Some r" "pq_ok wq"
      "pq_vals wq = (worker_map s)(wid \<mapsto> v')"
    obtain q' job' out' where r: "r = (q', job', out')" by (cases r)
    show ?thesis
      using body[OF v(2)[unfolded r]] x(2) v wf workers_wf_upd[OF okW(2) v(1), of v'] by (simp add: r sched_wf_def)
  next
    fix v v' r assume "?body v = Some (v', False, r)"
    then show "v' = v" using body[of v v' False "fst r" "fst (snd r)" "snd (snd r)"] by simp
  qed (use x(2) wf in \<open>auto simp: sched_wf_def\<close>)
qed


lemma task_execution_error_consistent:
  assumes inv: "consistent s" and rep: "\<And>w. worker_map s wid = Some w \<Longrightarrow> tid \<in> set (w_assignments w)"
  shows "\<exists>out s'. process_task_execution_error s wid tid error = Some (out, s') \<and> consistent s' \<and>
    (sc_scheduled_job s' = sc_scheduled_job s \<or> sc_scheduled_job s' = None)"
proof (cases "sc_scheduled_job s")
  case None
  then show ?thesis using inv by (simp add: process_task_execution_error_def)
next
  case job: (Some job)
  note wf = consistentD(1)[OF inv]
  have okT: "pq_ok (sc_tasks_queue s)" and okW: "pq_ok (sc_workers_queue s)" using wf by (simp_all add: sched_wf_def)
  show ?thesis
  proof (cases "worker_map s wid")
    case None
    then show ?thesis using inv job
      by (simp add: process_task_execution_error_def worker_order.ref_mut_scope_absent)
  next
    case w: (Some w)
    note sym = consistentD(2)[OF inv job]
    obtain t where t: "task_map s tid = Some t" "has_assignments t" by (rule held_by_worker[OF sym w rep[OF w]])
    let ?lim = "t_failed_executions t = sc_failed_executions_limit s"
    let ?tbody = "\<lambda>t. do {
          (as, m) \<leftarrow> swap_remove_value wid (t_assignments t);
          let unassigned = (\<not> has_assignments t);
          let t = t\<lparr>t_assignments := as\<rparr>;
          if t_failed_executions t = sc_failed_executions_limit s
          then Some (t, m, (unassigned, True))
          else Some (t\<lparr>t_failed_executions := wrap 16 (t_failed_executions t + 1)\<rparr>, True, (unassigned, False))
        }"
    let ?body = "\<lambda>w. do {
     (y, q) \<leftarrow> ref_mut_scope task_lt (sc_tasks_queue s) tid ?tbody;
     case y of
       None \<Rightarrow> do { (w, m) \<leftarrow> drop_replacement tid w; Some (w, m, (q, Some job, [])) }
     | Some (unassigned, limit) \<Rightarrow>
         do {
           let job = job\<lparr>sj_scheduled_tasks := u128_sub (sj_scheduled_tasks job) (of_bool unassigned)\<rparr>;
           (as, m) \<leftarrow> swap_remove_value tid (w_assignments w);
           Some (w\<lparr>w_assignments := as\<rparr>, m,
             (q, if limit then None else Some job,
              if limit then [Send_Task_Manager (SP_TaskExecutionError error (job_stats_of job))] else []))
         } }"
    obtain q1 t' where q1: "ref_mut_scope task_lt (sc_tasks_queue s) tid ?tbody = Some (Some (\<not> has_assignments t, ?lim), q1)"
      "pq_ok q1" "pq_vals q1 = (task_map s)(tid \<mapsto> t')" "mset (t_assignments t') = mset (t_assignments t) - {#wid#}"
      using failed_task_scope[OF okT t(1), of wid "sc_failed_executions_limit s"] by blast
    obtain bs where bs: "swap_remove_value tid (w_assignments w) = Some (bs, tid \<in> set (w_assignments w))"
      "mset bs = mset (w_assignments w) - {#tid#}" "tid \<notin> set (w_assignments w) \<longrightarrow> bs = w_assignments w"
      by (rule swap_remove_value_spec)
    let ?w' = "w\<lparr>w_assignments := bs\<rparr>" and ?job' = "if ?lim then None else Some job"
    let ?out = "if ?lim then [Send_Task_Manager (SP_TaskExecutionError error (job_stats_of job))] else []"
    have body: "?body w = Some (?w', tid \<in> set (w_assignments w), (q1, ?job', ?out))"
      using q1(1) bs(1) t(2) by (simp add: Let_def)
    obtain wq where q: "ref_mut_scope worker_lt (sc_workers_queue s) wid ?body = Some (Some (q1, ?job', ?out), wq)" "pq_ok wq"
      "pq_vals wq = (worker_map s)(wid \<mapsto> ?w')"
      by (rule worker_order.ref_mut_scope_spec[where body = ?body, OF okW w body]) (use bs(3) in simp)
    let ?s' = "s\<lparr>sc_workers_queue := wq, sc_tasks_queue := q1, sc_scheduled_job := ?job', sc_need_schedule := True\<rparr>"
    have p: "process_task_execution_error s wid tid error = Some (?out, ?s')"
      using q(1) job by (simp add: process_task_execution_error_def)
    have "symmetric (task_map ?s') (worker_map ?s')"
      using symmetric_unassign[OF sym w t(1) q1(4), of ?w'] bs(2) by (simp add: q1(3) q(3))
    moreover have "within_capacity ?w'"
      using mset_remove_le[OF bs(2)] consistentD(3)[OF inv job w] by (simp add: within_capacity_def)
    ultimately have "consistent ?s'"
      using task_execution_error_wf[OF wf p] q(3) consistentD(3)[OF inv job] by (simp add: consistent_def)
    then show ?thesis using p job by auto
  qed
qed

section \<open>Every event\<close>

definition fresh_task :: "worker_task \<Rightarrow> task" where
  "fresh_task td = \<lparr>t_task_data = td, t_failed_executions = 0, t_assignments = []\<rparr>"

fun received :: "(task_id \<Rightarrow> task option) \<Rightarrow> worker_task list \<Rightarrow> task_id \<Rightarrow> task option" where
  "received T [] = T"
| "received T (td # tds) = received (T(wt_id td \<mapsto> fresh_task td)) tds"

lemma push_tasks_spec:
  assumes "pq_ok q" "tasks_wf (pq_vals q)"
  shows "\<exists>q'. push_tasks tds q = Some q' \<and> pq_ok q' \<and> tasks_wf (pq_vals q') \<and> pq_vals q' = received (pq_vals q) tds"
  using assms
proof (induction tds arbitrary: q)
  case Nil
  then show ?case by simp
next
  case (Cons td tds)
  obtain q1 where q1: "pq_push task_lt q (wt_id td) (fresh_task td) = Some (pq_vals q (wt_id td), q1)" "pq_ok q1"
    "pq_vals q1 = (pq_vals q)(wt_id td \<mapsto> fresh_task td)" by (rule task_order.push_ok[OF Cons.prems(1)])
  have "tasks_wf (pq_vals q1)" using Cons.prems(2) by (simp add: q1(3) tasks_wf_def fresh_task_def)
  moreover have "push_tasks (td # tds) q = push_tasks tds q1" using q1(1) by (simp add: fresh_task_def)
  ultimately show ?case using Cons.IH[OF q1(2)] by (simp only: received.simps q1(3))
qed

lemma received_assigned:
  assumes "wt_id ` set tds \<inter> assigned T = {}"
  shows "assigned (received T tds) = assigned T"
  using assms
proof (induction tds arbitrary: T)
  case Nil
  then show ?case by simp
next
  case (Cons td tds)
  have a: "assigned (T(wt_id td \<mapsto> fresh_task td)) = assigned T"
    using Cons.prems by (auto simp: assigned_def fresh_task_def has_assignments_def)
  moreover have "wt_id ` set tds \<inter> assigned T = {}" using Cons.prems by auto
  ultimately show ?case using Cons.IH[of "T(wt_id td \<mapsto> fresh_task td)"] by (simp only: received.simps a)
qed

lemma received_held:
  assumes "wt_id ` set tds \<inter> assigned T = {}"
  shows "held (received T tds) tid wid = held T tid wid"
  using assms
proof (induction tds arbitrary: T)
  case Nil
  then show ?case by simp
next
  case (Cons td tds)
  have "wt_id td \<notin> assigned T" using Cons.prems by auto
  then have h: "held (T(wt_id td \<mapsto> fresh_task td)) tid wid = held T tid wid"
    by (auto simp: held_def fresh_task_def assigned_def has_assignments_def split: option.splits)
  have a: "assigned (T(wt_id td \<mapsto> fresh_task td)) = assigned T"
    using received_assigned[of "[td]" T] Cons.prems by auto
  have "wt_id ` set tds \<inter> assigned T = {}" using Cons.prems by auto
  then show ?case using Cons.IH[of "T(wt_id td \<mapsto> fresh_task td)"] by (simp only: received.simps a h)
qed

lemma received_dom: "dom (received T tds) = dom T \<union> wt_id ` set tds"
  by (induction tds arbitrary: T) auto

lemma received_card:
  assumes "finite (dom T)" "distinct (map wt_id tds)" "wt_id ` set tds \<inter> dom T = {}"
  shows "card (dom (received T tds)) = card (dom T) + length tds"
proof -
  have "card (wt_id ` set tds) = length tds" using assms(2) by (metis distinct_card length_map set_map)
  then show ?thesis using assms by (simp add: received_dom card_Un_disjoint Int_commute)
qed


text \<open>Events that the protocol of the other processes allows: a worker connects under a new
  identifier, reports only tasks it holds, and sends no result of a task that is waiting to be
  replaced on it; the task manager sends new tasks, no more than it announced.\<close>

fun orderly :: "scheduler \<Rightarrow> sched_event \<Rightarrow> bool" where
  "orderly s (Ev_Worker (WE_Connected info node)) \<longleftrightarrow>
     worker_map s (wi_worker_id info) = None \<and> fits 63 (40 * wi_subworkers info)"
| "orderly s (Ev_Worker (WE_Message wid (Result r))) \<longleftrightarrow>
     (case (sc_scheduled_job s, task_map s (wr_id r)) of
        (None, _) \<Rightarrow> True
      | (Some job, Some t) \<Rightarrow> wid \<in> set (t_assignments t) \<and> fits 128 (sj_completed_tasks job + 1)
      | (Some job, None) \<Rightarrow> (case worker_map s wid of None \<Rightarrow> True | Some w \<Rightarrow> wr_id r \<notin> set (w_replacements w)))"
| "orderly s (Ev_Worker (WE_Message wid (Error (LibraryMissing tasks rs)))) \<longleftrightarrow>
     (case worker_map s wid of None \<Rightarrow> True | Some w \<Rightarrow> mset (tasks @ map snd rs) \<subseteq># mset (w_assignments w))"
| "orderly s (Ev_Worker (WE_Message wid (Error (NoFreeExecutors tasks)))) \<longleftrightarrow>
     (case worker_map s wid of None \<Rightarrow> True | Some w \<Rightarrow> mset tasks \<subseteq># mset (w_assignments w))"
| "orderly s (Ev_Worker (WE_Message wid (Error (TaskExecutionError tid error)))) \<longleftrightarrow>
     (case worker_map s wid of None \<Rightarrow> True | Some w \<Rightarrow> tid \<in> set (w_assignments w))"
| "orderly s (Ev_Task_Manager (TE_Message (SR_NewJob ident total_tasks job))) \<longleftrightarrow>
     fits 128 total_tasks \<and> capacity_ok 72 (wrap 64 total_tasks)"
| "orderly s (Ev_Task_Manager (TE_Message (SR_Task batch))) \<longleftrightarrow>
     (case sc_scheduled_job s of None \<Rightarrow> True
      | Some job \<Rightarrow> distinct (map wt_id batch) \<and> (\<forall>td \<in> set batch. task_map s (wt_id td) = None) \<and>
          sj_received_tasks job + length batch \<le> sj_total_tasks job)"
| "orderly s _ \<longleftrightarrow> True"

fun error_report :: "sched_event \<Rightarrow> bool" where
  "error_report (Ev_Worker (WE_Message _ (Error _))) = True"
| "error_report _ = False"

lemma task_manager_wf:
  assumes wf: "sched_wf s" and res: "process_task_manager s e = Some (out, s')"
  shows "sched_wf s'"
proof (cases "\<exists>batch job. e = TE_Message (SR_Task batch) \<and> sc_scheduled_job s = Some job")
  case True
  then obtain batch job where e: "e = TE_Message (SR_Task batch)" "sc_scheduled_job s = Some job" by blast
  then show ?thesis
    using res wf push_tasks_spec[of "sc_tasks_queue s" batch] by (auto simp: sched_wf_def)
next
  case False
  then show ?thesis
    using res wf reset_scheduler_spec(1)[OF wf] reset_scheduler_spec(1)[of "s\<lparr>sc_scheduled_job := None, sc_tm_connected := None\<rparr>"]
    by (cases "(s, e)" rule: process_task_manager.cases) (auto simp: sched_wf_def Let_def split: option.splits if_splits)
qed

lemma task_manager_consistent:
  assumes inv: "consistent s" and ord: "orderly s (Ev_Task_Manager e)"
  shows "\<exists>out s'. process_task_manager s e = Some (out, s') \<and> consistent s' \<and> (accounted s \<longrightarrow> accounted s')"
proof -
  note wf = consistentD(1)[OF inv]
  note r = reset_scheduler_spec[OF wf]
  consider (job) ident total job where "e = TE_Message (SR_NewJob ident total job)"
    | (tasks) batch where "e = TE_Message (SR_Task batch)"
    | (off) "e = TE_Disconnect" | (other) "e = TE_Message SR_HelloMessage \<or> (\<exists>a. e = TE_Connected a)"
    by (cases "(s, e)" rule: process_task_manager.cases) auto
  then show ?thesis
  proof cases
    case job
    then show ?thesis using ord r
      by (auto simp: Let_def fits_def consistent_def accounted_def counted_def sched_wf_def assigned_def)
  next
    case tasks
    show ?thesis
    proof (cases "sc_scheduled_job s")
      case None
      then show ?thesis using inv tasks by simp
    next
      case (Some job)
      have ok: "pq_ok (sc_tasks_queue s)" "tasks_wf (task_map s)" using wf by (simp_all add: sched_wf_def)
      obtain q where q: "push_tasks batch (sc_tasks_queue s) = Some q" "pq_ok q" "tasks_wf (pq_vals q)"
        "pq_vals q = received (task_map s) batch" using push_tasks_spec[OF ok] by blast
      have new: "distinct (map wt_id batch)" "wt_id ` set batch \<inter> dom (task_map s) = {}"
        "sj_received_tasks job + length batch \<le> sj_total_tasks job" using ord Some by (auto simp: tasks)
      then have as: "wt_id ` set batch \<inter> assigned (task_map s) = {}" using assigned_subset by blast
      let ?job = "job\<lparr>sj_received_tasks := u128_add (sj_received_tasks job) (length batch)\<rparr>"
      let ?s' = "s\<lparr>sc_scheduled_job := Some ?job, sc_tasks_queue := q, sc_need_schedule := True\<rparr>"
      have p: "process_task_manager s e = Some ([], ?s')" using q(1) Some by (simp add: tasks Let_def)
      have "symmetric (task_map ?s') (worker_map ?s')"
        using consistentD(2)[OF inv Some] by (simp add: symmetric_def q(4) received_held[OF as])
      then have "consistent ?s'" using task_manager_wf[OF wf p] consistentD(3)[OF inv Some] by (simp add: consistent_def)
      moreover have "counted ?job (pq_vals q)" if c: "counted job (task_map s)"
        using c new(3) received_card[OF pq_vals_finite[OF ok(1)] new(1,2)]
        by (auto simp: counted_def q(4) received_assigned[OF as] u128_add_small)
      ultimately show ?thesis using p Some by (auto simp: accounted_def)
    qed
  next
    case off
    show ?thesis
      using inv off reset_scheduler_spec(1)[of "s\<lparr>sc_scheduled_job := None, sc_tm_connected := None\<rparr>"]
        reset_scheduler_spec(5)[of "s\<lparr>sc_scheduled_job := None, sc_tm_connected := None\<rparr>"] wf
      by (cases "sc_tm_connected s") (auto simp: consistent_def accounted_def sched_wf_def)
  next
    case other
    then show ?thesis using inv by (auto simp: consistent_def accounted_def sched_wf_def)
  qed
qed

end
