(* ===== verification/Scheduler_Runs.thy ===== *)
theory Scheduler_Runs
  imports Scheduler_Invariants
begin

text \<open>
  Whole runs of the scheduler: the node manager's events, one step of the event loop for every
  event, the runs of orderly events, and the properties that follow from the invariants of
  \<open>Scheduler_Invariants\<close>. The last part evaluates a few short executions of the event loop.
\<close>

section \<open>The node manager\<close>

lemma clear_assignments_spec:
  assumes "pq_ok q" "tasks_wf (pq_vals q)"
  shows "\<exists>q'. pq_map_values task_lt q (\<lambda>t. t\<lparr>t_assignments := []\<rparr>) = Some q' \<and> pq_ok q' \<and> tasks_wf (pq_vals q') \<and>
    dom (pq_vals q') = dom (pq_vals q) \<and> assigned (pq_vals q') = {} \<and> (\<forall>tid wid. held (pq_vals q') tid wid = 0)"
proof -
  obtain q' where q': "pq_map_values task_lt q (\<lambda>t. t\<lparr>t_assignments := []\<rparr>) = Some q'" "pq_ok q'"
    "pq_vals q' = map_option (\<lambda>t. t\<lparr>t_assignments := []\<rparr>) \<circ> pq_vals q"
    using task_order.map_values_spec[OF assms(1)] by blast
  have "tasks_wf (pq_vals q')" "dom (pq_vals q') = dom (pq_vals q)" "assigned (pq_vals q') = {}"
    "held (pq_vals q') tid wid = 0" for tid wid
    using assms(2) by (auto simp: q'(3) tasks_wf_def assigned_def has_assignments_def held_def dom_def split: option.splits)
  then show ?thesis using q'(1,2) by blast
qed

lemma created_session_spec:
  assumes wf: "sched_wf s"
  shows "\<exists>out s'. process_node_manager s (NE_Message CreatedSession) = Some (Inr (out, s')) \<and> sched_wf s' \<and>
    sc_results_buffer s' = sc_results_buffer s \<and> sent_results out = [] \<and>
    (consistent s \<longrightarrow> consistent s') \<and> (accounted s \<longrightarrow> accounted s')"
proof (cases "sc_nm_connected s \<or> sc_scheduled_job s = None")
  case True
  then show ?thesis using wf
    by (cases "sc_nm_connected s") (auto simp: Let_def consistent_def accounted_def sched_wf_def workers_wf_def)
next
  case False
  then obtain job where job: "\<not> sc_nm_connected s" "sc_scheduled_job s = Some job" by auto
  obtain q where q: "pq_map_values task_lt (sc_tasks_queue s) (\<lambda>t. t\<lparr>t_assignments := []\<rparr>) = Some q" "pq_ok q"
    "tasks_wf (pq_vals q)" "dom (pq_vals q) = dom (task_map s)" "assigned (pq_vals q) = {}"
    "\<And>tid wid. held (pq_vals q) tid wid = 0"
    using clear_assignments_spec[of "sc_tasks_queue s"] wf unfolding sched_wf_def by blast
  let ?s' = "s\<lparr>sc_nm_connected := True, sc_workers_queue := pq_clear (sc_workers_queue s), sc_nodes := vm_clear (sc_nodes s),
    sc_scheduled_job := Some (job\<lparr>sj_scheduled_tasks := sj_completed_tasks job\<rparr>), sc_tasks_queue := q\<rparr>"
  have p: "process_node_manager s (NE_Message CreatedSession) =
      Some (Inr ([Send_Node_Manager (WorkersDemand None (platforms (sj_job job)))], ?s'))"
    using job q(1) by (simp add: Let_def)
  have wf': "sched_wf ?s'" using wf q by (simp add: sched_wf_def workers_wf_def)
  have "symmetric (task_map ?s') (worker_map ?s')" by (simp add: symmetric_def q(6) holds_def)
  then have "consistent ?s'" using wf' by (simp add: consistent_def)
  moreover have "accounted s \<longrightarrow> accounted ?s'" using job q(4,5) by (auto simp: accounted_def counted_def)
  ultimately show ?thesis using p wf' by simp
qed

lemma node_manager_spec:
  assumes wf: "sched_wf s" and e: "e \<noteq> NE_ConnectionNotEstablished"
  shows "\<exists>out s'. process_node_manager s e = Some (Inr (out, s')) \<and> sched_wf s' \<and>
    sc_results_buffer s' = sc_results_buffer s \<and> sent_results out = [] \<and>
    (consistent s \<longrightarrow> consistent s' \<and> (accounted s \<longrightarrow> accounted s'))"
proof -
  have conn: "sent_results (map Connect_Node ws) = []" for ws by (induction ws) simp_all
  consider (off) wid where "e = NE_Message (NP_Disconnect wid)" | (created) "e = NE_Message CreatedSession"
    | (conn) ws where "e = NE_Message (NP_Connect ws)"
    | (other) "e \<in> {NE_Message RestoredSession, NE_Disconnected, NE_Connected}"
    using e by (cases "(s, e)" rule: process_node_manager.cases) auto
  then show ?thesis
  proof cases
    case off
    then show ?thesis using disconnect_spec[OF wf, of wid] by auto
  next
    case created
    then show ?thesis using created_session_spec[OF wf] by blast
  next
    case conn
    then show ?thesis using wf \<open>\<And>ws. sent_results (map Connect_Node ws) = []\<close> by simp
  next
    case other
    then show ?thesis using wf by (auto simp: consistent_def accounted_def sched_wf_def)
  qed
qed

section \<open>Workers\<close>

lemma result_counted:
  assumes wf: "sched_wf s" and job: "sc_scheduled_job s = Some job" and t: "task_map s (wr_id result) = Some t"
    and res: "process_result s wid result \<noteq> None"
  shows "\<exists>job'. job_completed job result = Some job'"
proof -
  have okT: "pq_ok (sc_tasks_queue s)" using wf by (simp add: sched_wf_def)
  obtain q where "pq_remove task_lt (sc_tasks_queue s) (wr_id result) = Some (Some (wr_id result, t), q)"
    by (rule task_order.remove_ok[OF okT, of "wr_id result"]) (simp add: t)
  then have "job_completed job result = None \<Longrightarrow> process_result s wid result = None"
    using job by (simp add: process_result_def Let_def)
  then show ?thesis using res by auto
qed

lemma process_workers_wf:
  assumes wf: "sched_wf s" and res: "process_workers s e = Some (out, s')"
  shows "sched_wf s'"
proof (cases "(s, e)" rule: process_workers.cases)
  case (1 s0 info node)
  then show ?thesis using connected_spec[OF wf, of info node] res by (auto simp: no_output_def)
next
  case (2 s0 wid)
  then show ?thesis using disconnect_spec[OF wf, of wid] res by (auto simp: no_output_def)
next
  case (3 s0 wid result)
  show ?thesis
  proof (cases "sc_scheduled_job s")
    case None
    then show ?thesis using 3 res wf by (simp add: process_result_def)
  next
    case job: (Some job)
    show ?thesis
    proof (cases "task_map s (wr_id result)")
      case None
      then show ?thesis using result_unknown(1)[OF wf job] 3 res by auto
    next
      case (Some t)
      have "job_completed job result \<noteq> None" using result_counted[OF wf job Some] 3 res by auto
      then show ?thesis using result_accepted[OF wf job Some, of _ wid] 3 res by fastforce
    qed
  qed
next
  case (4 s0 wid tasks rs)
  then show ?thesis using library_missing_wf[OF wf] res by (auto simp: no_output_def)
next
  case (5 s0 wid tid error)
  then show ?thesis using task_execution_error_wf[OF wf] res by auto
next
  case (6 s0 wid tasks)
  then show ?thesis using no_free_executors_wf[OF wf] res by (auto simp: no_output_def)
qed

lemma step_wf:
  assumes "sched_step s e out s'" "sched_wf s"
  shows "sched_wf s'"
  using assms(1)
proof (cases rule: sched_step.cases)
  case (step_node_manager e)
  then show ?thesis
    using node_manager_spec[OF assms(2), of e] by (cases "e = NE_ConnectionNotEstablished") auto
qed (use assms(2) task_manager_wf process_workers_wf scheduling_wf in blast)+

lemma scheduler_new_wf: "consistent (scheduler_new limit addr)" "accounted (scheduler_new limit addr)"
  by (simp_all add: scheduler_new_def consistent_def accounted_def sched_wf_def tasks_wf_def workers_wf_def)

lemma reachable_wf: "sched_reachable limit addr s \<Longrightarrow> sched_wf s"
  by (induction rule: sched_reachable.induct) (use scheduler_new_wf consistentD(1) step_wf in blast)+


section \<open>Orderly events\<close>

lemma result_consistent:
  assumes inv: "consistent s" and ord: "orderly s (Ev_Worker (WE_Message wid (Result result)))"
  shows "\<exists>out s'. process_result s wid result = Some (out, s') \<and> consistent s' \<and> (accounted s \<longrightarrow> accounted s')"
proof (cases "sc_scheduled_job s")
  case None
  then show ?thesis using inv by (simp add: process_result_def)
next
  case job: (Some job)
  note wf = consistentD(1)[OF inv]
  show ?thesis
  proof (cases "task_map s (wr_id result)")
    case None
    have "wr_id result \<notin> set (w_replacements w)" if "worker_map s wid = Some w" for w
      using ord that by (simp add: job None)
    then show ?thesis using result_unknown(2)[OF wf job None] inv by blast
  next
    case (Some t)
    then have t: "has_assignments t" "sj_completed_tasks job + 1 < 2 ^ 128"
      using ord by (auto simp: job has_assignments_def fits_def)
    then obtain job' where job': "job_completed job result = Some job'"
      by (simp add: job_completed_def Let_def u128_add_small)
    have ok: "pq_ok (sc_tasks_queue s)" using wf by (simp add: sched_wf_def)
    have "accounted s \<Longrightarrow> counted job' ((task_map s)(wr_id result := None))"
      using counted_completed[OF _ Some t(1) pq_vals_finite[OF ok], of job result] job job' by (auto simp: accounted_def)
    then show ?thesis using result_accepted[OF wf job Some job', of wid] inv by blast
  qed
qed

lemma orderly_progress:
  assumes inv: "consistent s" and ord: "orderly s e" and sched: "e = Ev_Schedule \<longrightarrow> sc_need_schedule s"
    and conn: "e \<noteq> Ev_Node_Manager NE_ConnectionNotEstablished"
  shows "\<exists>out s'. sched_step s e out s' \<and> consistent s' \<and> (accounted s \<longrightarrow> \<not> error_report e \<longrightarrow> accounted s')"
proof (cases e)
  case (Ev_Task_Manager te)
  then show ?thesis using task_manager_consistent[OF inv, of te] ord by (auto intro: step_task_manager)
next
  case (Ev_Node_Manager ne)
  then show ?thesis using node_manager_spec[OF consistentD(1)[OF inv], of ne] conn inv by (auto intro: step_node_manager)
next
  case Ev_Schedule
  then show ?thesis using scheduling_consistent[OF inv] sched by (auto intro: step_schedule)
next
  case (Ev_Worker we)
  note wf = consistentD(1)[OF inv]
  have "\<exists>out s'. process_workers s we = Some (out, s') \<and> consistent s' \<and> (accounted s \<longrightarrow> \<not> error_report e \<longrightarrow> accounted s')"
  proof (cases "(s, we)" rule: process_workers.cases)
    case (1 s0 info node)
    then show ?thesis using connected_spec[OF wf, of info node] ord inv Ev_Worker by (auto simp: no_output_def fits_def)
  next
    case (2 s0 wid)
    then show ?thesis using disconnect_spec[OF wf, of wid] inv by (auto simp: no_output_def)
  next
    case (3 s0 wid result)
    then show ?thesis using result_consistent[OF inv, of wid result] ord Ev_Worker by auto
  next
    case (4 s0 wid tasks rs)
    have "mset (tasks @ map snd rs) \<subseteq># mset (w_assignments w)" if "worker_map s wid = Some w" for w
      using ord Ev_Worker 4 that by simp
    with library_missing_consistent[OF inv] show ?thesis using 4 Ev_Worker by (fastforce simp: no_output_def)
  next
    case (5 s0 wid tid error)
    have "tid \<in> set (w_assignments w)" if "worker_map s wid = Some w" for w
      using ord Ev_Worker 5 that by simp
    with task_execution_error_consistent[OF inv] show ?thesis using 5 Ev_Worker by fastforce
  next
    case (6 s0 wid tasks)
    have "mset tasks \<subseteq># mset (w_assignments w)" if "worker_map s wid = Some w" for w
      using ord Ev_Worker 6 that by simp
    with no_free_executors_consistent[OF inv] show ?thesis using 6 Ev_Worker by (fastforce simp: no_output_def)
  qed
  then show ?thesis using Ev_Worker by (auto intro: step_worker)
qed

lemma step_deterministic:
  assumes "sched_step s e out s'" "sched_step s e out' s''"
  shows "out' = out \<and> s'' = s'"
  using assms by (auto elim!: sched_stepE)

lemma step_enabled:
  assumes "sched_step s e out s'"
  shows "e = Ev_Schedule \<longrightarrow> sc_need_schedule s" "e \<noteq> Ev_Node_Manager NE_ConnectionNotEstablished"
  using assms by (auto elim!: sched_stepE)

text \<open>The runs of the scheduler in which every event is orderly, with the events and the outputs.\<close>

inductive orderly_run :: "nat \<Rightarrow> socket_addr \<Rightarrow> sched_event list \<Rightarrow> sched_output list \<Rightarrow> scheduler \<Rightarrow> bool"
  for limit addr where
  run_start: "orderly_run limit addr [] [] (scheduler_new limit addr)"
| run_step: "orderly_run limit addr es outs s \<Longrightarrow> orderly s e \<Longrightarrow> sched_step s e out s' \<Longrightarrow>
    orderly_run limit addr (es @ [e]) (outs @ out) s'"

lemma orderly_run_inv:
  assumes "orderly_run limit addr es outs s"
  shows "consistent s \<and> (list_all (Not \<circ> error_report) es \<longrightarrow> accounted s)"
  using assms
proof induction
  case run_start
  then show ?case using scheduler_new_wf by simp
next
  case (run_step es outs s e out s')
  obtain out1 s1 where s1: "sched_step s e out1 s1" "consistent s1" "accounted s \<longrightarrow> \<not> error_report e \<longrightarrow> accounted s1"
    using orderly_progress[OF _ run_step.hyps(2) step_enabled[OF run_step.hyps(3)]] run_step.IH by blast
  have "s1 = s'" using step_deterministic[OF run_step.hyps(3) s1(1)] by simp
  then show ?case using s1 run_step.IH by simp
qed


section \<open>Scheduling until nothing is left to do\<close>

text \<open>The scheduling branch of the event loop, taken as long as \<open>need_schedule\<close> is set and nothing else
  arrives; \<open>None\<close> is a panic or the end of the fuel.\<close>

fun schedule_all :: "nat \<Rightarrow> scheduler \<Rightarrow> (sched_output list \<times> scheduler) option" where
  "schedule_all 0 s = None"
| "schedule_all (Suc n) s =
     (if sc_need_schedule s then
        do { (out, s) \<leftarrow> process_scheduling s; (outs, s) \<leftarrow> schedule_all n s; Some (out @ outs, s) }
      else Some ([], s))"

definition worker_slots :: "worker \<Rightarrow> nat" where
  "worker_slots w = can_accept w + need_replace w"

definition free_slots :: "scheduler \<Rightarrow> nat" where
  "free_slots s = (\<Sum>wid \<in> dom (worker_map s). worker_slots (the (worker_map s wid)))"

lemma round_slots:
  assumes r: "round_of s job w r w' out" and cap: "within_capacity w"
  shows "worker_slots w' + length (handed_out r) = worker_slots w"
proof -
  obtain rs where rs: "w_replacements w = rs @ rev (map fst (r_repl r))"
    "r_worker r = w\<lparr>w_assignments := w_assignments w @ map wt_id (handed_out r), w_replacements := rs\<rparr>"
    using r unfolding round_of_def round_from_def by blast
  have "w_assignments w' = w_assignments w @ map wt_id (handed_out r)" "w_replacements w' = rs" "w_subworkers w' = w_subworkers w"
    using r rs(2) by (auto simp: round_of_def split: if_splits)
  then show ?thesis
    using capacity_work(1)[OF cap] capacity_work(1)[OF round_of_facts(8)[OF r cap]] rs(1)
    by (simp add: worker_slots_def need_replace_def handed_out_def)
qed

lemma free_slots_upd:
  assumes "finite (dom (worker_map s))" "worker_map s wid = Some w" "worker_map s' = (worker_map s)(wid \<mapsto> w')"
    "worker_slots w' + k = worker_slots w"
  shows "free_slots s' + k = free_slots s"
proof -
  let ?D = "dom (worker_map s)"
  have "wid \<in> ?D" and d: "dom (worker_map s') = ?D" using assms(2,3) by auto
  then have "free_slots s = worker_slots w + (\<Sum>k \<in> ?D - {wid}. worker_slots (the (worker_map s k)))"
    using assms(1,2) by (simp add: free_slots_def sum.remove)
  moreover have "free_slots s' = worker_slots w' + (\<Sum>k \<in> ?D - {wid}. worker_slots (the (worker_map s' k)))"
    unfolding free_slots_def d using assms(1,3) \<open>wid \<in> ?D\<close> by (simp add: sum.remove)
  moreover have "(\<Sum>k \<in> ?D - {wid}. worker_slots (the (worker_map s' k))) = (\<Sum>k \<in> ?D - {wid}. worker_slots (the (worker_map s k)))"
    by (intro sum.cong) (auto simp: assms(3))
  ultimately show ?thesis using assms(4) by simp
qed

lemma scheduling_decreases:
  assumes inv: "consistent s" and job: "sc_scheduled_job s \<noteq> None"
  shows "\<exists>out s'. process_scheduling s = Some (out, s') \<and> consistent s' \<and> sc_scheduled_job s' \<noteq> None \<and>
    (sc_need_schedule s' \<longrightarrow> free_slots s' < free_slots s)"
proof -
  note wf = consistentD(1)[OF inv]
  have okW: "pq_ok (sc_workers_queue s)" using wf by (simp add: sched_wf_def)
  obtain out s' where p: "process_scheduling s = Some (out, s')" "consistent s'" using scheduling_consistent[OF inv] by blast
  have "sc_scheduled_job s' \<noteq> None \<and> (sc_need_schedule s' \<longrightarrow> free_slots s' < free_slots s)"
  proof (rule process_scheduling_cases[OF wf round_fits_consistent[OF inv]])
    fix job wid w w' q out' and r :: sched_round
    assume j: "sc_scheduled_job s = Some job" and w: "worker_map s wid = Some w" and r: "round_of s job w r w' out'"
      and work: "can_accept w > 0 \<or> need_replace w > 0"
      and q: "pq_vals q = (worker_map s)(wid \<mapsto> w')"
      and p': "process_scheduling s = Some (out', s\<lparr>sc_scheduled_job := Some (r_job r), sc_tasks_queue := r_tasks r,
         sc_workers_queue := q, sc_need_schedule := r_need r\<rparr>)"
    have s': "s' = s\<lparr>sc_scheduled_job := Some (r_job r), sc_tasks_queue := r_tasks r,
         sc_workers_queue := q, sc_need_schedule := r_need r\<rparr>" using p(1) p' by simp
    have cap: "within_capacity w" by (rule consistentD(3)[OF inv j w])
    have slots: "free_slots s' + length (handed_out r) = free_slots s"
      by (rule free_slots_upd[OF pq_vals_finite[OF okW] w _ round_slots[OF r cap]]) (simp add: s' q)
    have "r_need r \<Longrightarrow> 0 < length (handed_out r)"
      using r work by (auto simp: round_of_def handed_out_def)
    moreover have "sc_need_schedule s' = r_need r" "sc_scheduled_job s' \<noteq> None" by (simp_all add: s')
    ultimately show ?thesis using slots by linarith
  qed (use p(1) job in auto)
  then show ?thesis using p by blast
qed


lemma schedule_all_terminates:
  assumes "consistent s" "sc_scheduled_job s \<noteq> None" "free_slots s + 1 < n"
  shows "\<exists>out s'. schedule_all n s = Some (out, s') \<and> consistent s' \<and> \<not> sc_need_schedule s'"
  using assms
proof (induction n arbitrary: s)
  case 0
  then show ?case by simp
next
  case (Suc n)
  show ?case
  proof (cases "sc_need_schedule s")
    case False
    then show ?thesis using Suc.prems(1) by simp
  next
    case True
    obtain out s1 where s1: "process_scheduling s = Some (out, s1)" "consistent s1" "sc_scheduled_job s1 \<noteq> None"
      "sc_need_schedule s1 \<longrightarrow> free_slots s1 < free_slots s" using scheduling_decreases[OF Suc.prems(1,2)] by blast
    obtain m where n: "n = Suc m" using Suc.prems(3) by (cases n) auto
    show ?thesis
    proof (cases "sc_need_schedule s1")
      case need: True
      then obtain outs s' where "schedule_all n s1 = Some (outs, s')" "consistent s'" "\<not> sc_need_schedule s'"
        using Suc.IH[OF s1(2,3)] s1(4) Suc.prems(3) by auto
      then show ?thesis using s1(1) True by simp
    next
      case False
      then have "schedule_all n s1 = Some ([], s1)" by (simp add: n)
      then show ?thesis using s1 True False by simp
    qed
  qed
qed

section \<open>The results\<close>

fun accepted :: "scheduler \<Rightarrow> sched_event \<Rightarrow> worker_result list" where
  "accepted s (Ev_Worker (WE_Message wid (Result r))) =
     (if sc_scheduled_job s \<noteq> None \<and> task_map s (wr_id r) \<noteq> None then [r] else [])"
| "accepted s _ = []"

fun discards :: "scheduler \<Rightarrow> sched_event \<Rightarrow> bool" where
  "discards s (Ev_Task_Manager (TE_Message (SR_NewJob _ _ _))) = True"
| "discards s (Ev_Task_Manager TE_Disconnect) = (sc_tm_connected s \<noteq> None)"
| "discards s _ = False"

lemma sent_nodes_send [simp]: "sent_results (nodes_send s wid rq) = []"
  by (simp add: nodes_send_def)

lemma scheduling_results:
  assumes wf: "sched_wf s" and p: "process_scheduling s = Some (out, s')"
  shows "sent_results out = [] \<and> sc_results_buffer s' = sc_results_buffer s"
proof -
  have "round_fits s" using process_scheduling_panics[OF wf] p by auto
  then show ?thesis
    by (rule process_scheduling_cases[OF wf]) (use p in \<open>auto simp: round_of_def split: if_splits\<close>)
qed


lemma worker_results:
  assumes wf: "sched_wf s" and p: "process_workers s e = Some (out, s')"
  shows "sent_results out @ buf_list (sc_results_buffer s') = buf_list (sc_results_buffer s) @ accepted s (Ev_Worker e)"
proof (cases "(s, e)" rule: process_workers.cases)
  case (1 s0 info node)
  then show ?thesis using connected_spec[OF wf, of info node] p by (auto simp: no_output_def)
next
  case (2 s0 wid)
  then show ?thesis using disconnect_spec[OF wf, of wid] p by (auto simp: no_output_def)
next
  case (3 s0 wid result)
  show ?thesis
  proof (cases "sc_scheduled_job s")
    case None
    then show ?thesis using 3 p by (simp add: process_result_def)
  next
    case job: (Some job)
    show ?thesis
    proof (cases "task_map s (wr_id result)")
      case None
      then show ?thesis using result_unknown(1)[OF wf job None, of wid out s'] 3 p job by auto
    next
      case (Some t)
      obtain job' where "job_completed job result = Some job'"
        using result_counted[OF wf job Some] 3 p by auto
      from result_accepted[OF wf job Some this, of wid] show ?thesis using 3 p Some job by auto
    qed
  qed
next
  case (4 s0 wid tasks rs)
  then show ?thesis using library_missing_wf[OF wf] p by (auto simp: no_output_def)
next
  case (5 s0 wid tid error)
  then show ?thesis using task_execution_error_wf[OF wf] p by auto
next
  case (6 s0 wid tasks)
  then show ?thesis using no_free_executors_wf[OF wf] p by (auto simp: no_output_def)
qed

lemma task_manager_results:
  assumes "process_task_manager s e = Some (out, s')" "\<not> discards s (Ev_Task_Manager e)"
  shows "out = []" "sc_results_buffer s' = sc_results_buffer s"
  using assms by (cases "(s, e)" rule: process_task_manager.cases; auto split: option.splits bind_splits simp: Let_def)+

section \<open>Executions\<close>

text \<open>The step relation as a function, over a list of events; the second version also checks that the
  events are orderly.\<close>

fun sched_exec :: "scheduler \<Rightarrow> sched_event \<Rightarrow> (sched_output list \<times> scheduler) option" where
  "sched_exec s (Ev_Task_Manager e) = process_task_manager s e"
| "sched_exec s (Ev_Node_Manager e) =
     do { r \<leftarrow> process_node_manager s e; case r of Inl _ \<Rightarrow> None | Inr x \<Rightarrow> Some x }"
| "sched_exec s (Ev_Worker e) = process_workers s e"
| "sched_exec s Ev_Schedule = (if sc_need_schedule s then process_scheduling s else None)"

fun sched_exec_all :: "bool \<Rightarrow> scheduler \<Rightarrow> sched_event list \<Rightarrow> (sched_output list \<times> scheduler) option" where
  "sched_exec_all checked s [] = Some ([], s)"
| "sched_exec_all checked s (e # es) =
     (if checked \<longrightarrow> orderly s e then
        do { (out, s) \<leftarrow> sched_exec s e; (outs, s) \<leftarrow> sched_exec_all checked s es; Some (out @ outs, s) }
      else None)"

lemma sched_exec_step: "sched_exec s e = Some (out, s') \<longleftrightarrow> sched_step s e out s'"
  by (cases e) (auto elim!: sched_stepE intro: sched_step.intros split: bind_splits sum.splits if_splits)

lemma sched_exec_reachable:
  assumes "sched_exec_all checked s es = Some (outs, s')" "sched_reachable limit addr s"
  shows "sched_reachable limit addr s'"
  using assms
proof (induction es arbitrary: s outs)
  case (Cons e es)
  from Cons.prems(1) obtain out s1 outs1 where s1: "sched_step s e out s1" "sched_exec_all checked s1 es = Some (outs1, s')"
    by (auto split: bind_splits if_splits simp: sched_exec_step)
  from Cons.IH[OF s1(2) reach_step[OF Cons.prems(2) s1(1)]] show ?case .
qed simp

lemma orderly_exec_run:
  assumes "sched_exec_all True s es = Some (outs, s')" "orderly_run limit addr es0 outs0 s"
  shows "orderly_run limit addr (es0 @ es) (outs0 @ outs) s'"
  using assms
proof (induction es arbitrary: s outs es0 outs0)
  case Nil
  then show ?case by simp
next
  case (Cons e es)
  from Cons.prems(1) obtain out s1 outs1 where s1: "orderly s e" "sched_step s e out s1"
    "sched_exec_all True s1 es = Some (outs1, s')" "outs = out @ outs1"
    by (auto split: bind_splits if_splits simp: sched_exec_step)
  from Cons.IH[OF s1(3) run_step[OF Cons.prems(2) s1(1,2)]] show ?case by (simp add: s1(4))
qed

definition join :: "worker_id \<Rightarrow> usize \<Rightarrow> sched_event" where
  "join wid n = Ev_Worker (WE_Connected
     \<lparr>wi_worker_id = wid, wi_subworkers = n, wi_address = 0, wi_platform = WASM_PLATFORM\<rparr> 0)"

definition finish :: "worker_id \<Rightarrow> task_id \<Rightarrow> sched_event" where
  "finish wid tid = Ev_Worker (WE_Message wid (Result \<lparr>wr_id = tid, wr_execution_time = 10, wr_data = []\<rparr>))"

definition start_job :: "nat \<Rightarrow> sched_event list" where
  "start_job n =
     [Ev_Task_Manager (TE_Message (SR_NewJob 7 n \<lparr>wj_args = [], wj_data = [(WASM_PLATFORM, [1])]\<rparr>)),
      Ev_Task_Manager (TE_Message (SR_Task (map (\<lambda>i. \<lparr>wt_id = i, wt_data = []\<rparr>) [0..<n])))]"

definition after :: "sched_event list \<Rightarrow> scheduler" where
  "after es = snd (the (sched_exec_all False (scheduler_new 3 0) es))"

lemma after_reachable:
  assumes "\<not> Option.is_none (sched_exec_all False (scheduler_new 3 0) es)"
  shows "sched_reachable 3 0 (after es)"
  using assms sched_exec_reachable[OF _ reach_start] by (cases "sched_exec_all False (scheduler_new 3 0) es") (auto simp: after_def)

lemma checked_exec: "sched_exec_all True s es = Some r \<Longrightarrow> sched_exec_all False s es = Some r"
  by (induction es arbitrary: s r) (auto split: bind_splits if_splits)

lemma after_orderly:
  assumes "\<not> Option.is_none (sched_exec_all True (scheduler_new 3 0) es)"
  shows "\<exists>outs. orderly_run 3 0 es outs (after es)"
proof -
  obtain outs s where "sched_exec_all True (scheduler_new 3 0) es = Some (outs, s)"
    using assms by (cases "sched_exec_all True (scheduler_new 3 0) es") auto
  then show ?thesis using orderly_exec_run[OF _ run_start] checked_exec by (fastforce simp: after_def)
qed

text \<open>Three workers with one executor each share a job of two tasks; two of them have the same task.\<close>

definition shared_task :: "sched_event list" where
  "shared_task = start_job 2 @ [join 0 1, join 1 1, join 2 1, Ev_Schedule, Ev_Schedule, Ev_Schedule]"

lemma shared_task_orderly: "\<exists>outs. orderly_run 3 0 shared_task outs (after shared_task)"
  by (rule after_orderly) code_simp

section \<open>Properties\<close>

text \<open>C31. In every state the scheduler can reach, whatever the other processes send, the two queues are
  consistent with their index vectors, every worker and every task stands under its own
  identifier, and the result buffer is well-formed with 200 places.\<close>

theorem scheduler_state_wf:
  assumes "sched_reachable limit addr s"
  shows "sched_wf s"
  by (rule reachable_wf[OF assms])

theorem scheduler_state_wf_witness:
  "sched_reachable 3 0 (after shared_task) \<and> sched_wf (after shared_task)"
proof -
  have "sched_reachable 3 0 (after shared_task)" by (rule after_reachable) code_simp
  then show ?thesis using scheduler_state_wf by blast
qed

text \<open>C1. The two sides of the assignment agree: after any run of orderly events, error reports
  included, a worker lists a task exactly as often as the task lists the worker, and no worker has
  more tasks and replacements than executors.\<close>

theorem assignments_symmetric:
  assumes "orderly_run limit addr es outs s" "sc_scheduled_job s = Some job"
  shows "held (task_map s) tid wid = holds (worker_map s) wid tid \<and>
    (\<forall>w. worker_map s wid = Some w \<longrightarrow> length (w_assignments w) + length (w_replacements w) \<le> w_subworkers w)"
  using orderly_run_inv[OF assms(1)] assms(2) by (auto simp: consistent_def symmetric_def within_capacity_def)

theorem assignments_symmetric_witness:
  "\<exists>outs s job w. orderly_run 3 0 shared_task outs s \<and> sc_scheduled_job s = Some job \<and> worker_map s 2 = Some w \<and>
     holds (worker_map s) 2 1 = 1 \<and> held (task_map s) 1 2 = 1 \<and>
     length (w_assignments w) + length (w_replacements w) \<le> w_subworkers w"
proof -
  let ?s = "after shared_task"
  obtain outs where run: "orderly_run 3 0 shared_task outs ?s" using shared_task_orderly by blast
  have "\<not> Option.is_none (sc_scheduled_job ?s)" by code_simp
  then obtain job where job: "sc_scheduled_job ?s = Some job" by (rule some_by_eval)
  have "\<not> Option.is_none (worker_map ?s 2)" by code_simp
  then obtain w where w: "worker_map ?s 2 = Some w" by (rule some_by_eval)
  have "holds (worker_map ?s) 2 1 = 1" by code_simp
  then show ?thesis using run job w assignments_symmetric[OF run job, of 1 2] by metis
qed

text \<open>C2. The counters of the job: after any run of orderly events without an error report, every task
  that was scheduled is completed or assigned to some worker, every task that was received is
  completed or in the queue, and the number of received tasks is at most the announced one.\<close>

theorem job_counters:
  assumes "orderly_run limit addr es outs s" "list_all (Not \<circ> error_report) es" "sc_scheduled_job s = Some job"
  shows "sj_scheduled_tasks job = sj_completed_tasks job + card (assigned (task_map s)) \<and>
    sj_received_tasks job = sj_completed_tasks job + card (dom (task_map s)) \<and>
    sj_received_tasks job \<le> sj_total_tasks job"
  using orderly_run_inv[OF assms(1)] assms(2,3) by (auto simp: accounted_def counted_def)

theorem job_counters_witness:
  "\<exists>outs s job. orderly_run 3 0 shared_task outs s \<and> sc_scheduled_job s = Some job \<and>
     list_all (Not \<circ> error_report) shared_task \<and>
     sj_scheduled_tasks job = sj_completed_tasks job + card (assigned (task_map s)) \<and>
     sj_received_tasks job = sj_completed_tasks job + card (dom (task_map s)) \<and>
     sj_received_tasks job \<le> sj_total_tasks job"
proof -
  let ?s = "after shared_task"
  obtain outs where run: "orderly_run 3 0 shared_task outs ?s" using shared_task_orderly by blast
  have "\<not> Option.is_none (sc_scheduled_job ?s)" by code_simp
  then obtain job where job: "sc_scheduled_job ?s = Some job" by (rule some_by_eval)
  have no: "list_all (Not \<circ> error_report) shared_task" by code_simp
  show ?thesis using run job no job_counters[OF run no job] by blast
qed

text \<open>C3. No orderly event makes the scheduler panic: in a state with the invariant every such event has
  its step, and the invariant holds again after it.\<close>

theorem orderly_event_handled:
  assumes "consistent s" "orderly s e" "e = Ev_Schedule \<Longrightarrow> sc_need_schedule s"
    "e \<noteq> Ev_Node_Manager NE_ConnectionNotEstablished"
  shows "\<exists>out s'. sched_step s e out s' \<and> consistent s'"
  using orderly_progress[of s e] assms by blast

theorem orderly_event_handled_witness:
  "orderly (after shared_task) (finish 1 1) \<and> (\<exists>out s'. sched_step (after shared_task) (finish 1 1) out s' \<and> consistent s')"
proof -
  have inv: "consistent (after shared_task)" using shared_task_orderly orderly_run_inv by blast
  have ord: "orderly (after shared_task) (finish 1 1)" by code_simp
  have "finish 1 1 \<noteq> Ev_Schedule" "finish 1 1 \<noteq> Ev_Node_Manager NE_ConnectionNotEstablished"
    by (simp_all add: finish_def)
  with orderly_event_handled[OF inv ord] ord show ?thesis by blast
qed

text \<open>C4. Results are neither lost, duplicated nor reordered: in every step but those that drop the whole
  job, the results sent to the task manager followed by the ones still buffered are the ones that
  were buffered followed by the result the step accepted.\<close>

theorem results_forwarded:
  assumes "sched_wf s" "sched_step s e out s'" "\<not> discards s e"
  shows "sent_results out @ buf_list (sc_results_buffer s') = buf_list (sc_results_buffer s) @ accepted s e"
  using assms(2)
proof (cases rule: sched_step.cases)
  case (step_task_manager te)
  then show ?thesis using task_manager_results[OF step_task_manager(2)] assms(3) by simp
next
  case (step_node_manager ne)
  then show ?thesis using node_manager_spec[OF assms(1), of ne] by (cases "ne = NE_ConnectionNotEstablished") auto
next
  case (step_worker we)
  then show ?thesis using worker_results[OF assms(1)] by simp
next
  case step_schedule
  then show ?thesis using scheduling_results[OF assms(1)] by simp
qed

theorem results_forwarded_witness:
  "\<exists>out s'. sched_step (after shared_task) (finish 1 1) out s' \<and> accepted (after shared_task) (finish 1 1) \<noteq> [] \<and>
     sent_results out @ buf_list (sc_results_buffer s') =
     buf_list (sc_results_buffer (after shared_task)) @ accepted (after shared_task) (finish 1 1)"
proof -
  have inv: "consistent (after shared_task)" using shared_task_orderly orderly_run_inv by blast
  have "\<not> Option.is_none (sched_exec (after shared_task) (finish 1 1))" by code_simp
  then obtain out s' where step: "sched_step (after shared_task) (finish 1 1) out s'"
    by (cases "sched_exec (after shared_task) (finish 1 1)") (auto simp: sched_exec_step)
  have "\<not> discards (after shared_task) (finish 1 1)" by (simp add: finish_def)
  moreover have "accepted (after shared_task) (finish 1 1) \<noteq> []" by code_simp
  ultimately show ?thesis using step results_forwarded[OF consistentD(1)[OF inv] step] by blast
qed



text \<open>C6. Scheduling comes to rest: in a state with the invariant and a job, taking the scheduling branch
  again and again ends with \<open>need_schedule\<close> cleared, after at most as many rounds as there are free
  places on the workers, plus two.\<close>

theorem scheduling_terminates:
  assumes "consistent s" "sc_scheduled_job s \<noteq> None"
  shows "\<exists>out s'. schedule_all (free_slots s + 2) s = Some (out, s') \<and> consistent s' \<and> \<not> sc_need_schedule s'"
  by (rule schedule_all_terminates[OF assms]) simp

theorem scheduling_terminates_witness:
  "\<exists>out s'. schedule_all (free_slots (after (shared_task @ [finish 1 1])) + 2) (after (shared_task @ [finish 1 1])) = Some (out, s') \<and>
     \<not> sc_need_schedule s'"
proof -
  let ?s = "after (shared_task @ [finish 1 1])"
  have "\<exists>outs. orderly_run 3 0 (shared_task @ [finish 1 1]) outs ?s" by (rule after_orderly) code_simp
  then have inv: "consistent ?s" using orderly_run_inv by blast
  have "\<not> Option.is_none (sc_scheduled_job ?s)" by code_simp
  then obtain job where job: "sc_scheduled_job ?s = Some job" by (rule some_by_eval)
  show ?thesis using scheduling_terminates[OF inv] job by blast
qed

text \<open>Without a job the scheduling branch does nothing and leaves \<open>need_schedule\<close> set, so that the
  event loop takes it again at once, for ever: no number of rounds ends it.\<close>

lemma scheduling_spins_without_job:
  assumes "sc_scheduled_job s = None" "sc_need_schedule s"
  shows "process_scheduling s = Some ([], s) \<and> schedule_all n s = None"
proof
  show step: "process_scheduling s = Some ([], s)" using assms by (simp add: process_scheduling_def)
  show "schedule_all n s = None" using assms step by (induction n) simp_all
qed

text \<open>C37. A round of scheduling panics exactly when the first worker has something to do and the vectors
  for its tasks cannot be allocated; this is the case as soon as it has more tasks and
  replacements than executors.\<close>

theorem scheduling_panics_iff:
  assumes "sched_wf s"
  shows "process_scheduling s = None \<longleftrightarrow>
    sc_scheduled_job s \<noteq> None \<and> pq_heap (sc_workers_queue s) \<noteq> [] \<and>
    (let w = pq_prio (sc_workers_queue s) 0 in
     (0 < can_accept w \<or> 0 < need_replace w) \<and>
     (2 ^ 63 \<le> 32 * can_accept w \<or> 2 ^ 63 \<le> 40 * need_replace w))"
  using process_scheduling_panics[OF assms] by (auto simp: round_fits_def capacity_ok_def fits_def Let_def not_less)


theorem scheduling_panics_iff_witness:
  "process_scheduling (after (start_job 1 @ [join 0 1, Ev_Schedule, Ev_Worker (WE_Message 0 (Error (NoFreeExecutors [7])))])) = None"
proof -
  let ?s = "after (start_job 1 @ [join 0 1, Ev_Schedule, Ev_Worker (WE_Message 0 (Error (NoFreeExecutors [7])))])"
  let ?w = "pq_prio (sc_workers_queue ?s) 0"
  have "sched_reachable 3 0 ?s" by (rule after_reachable) code_simp
  then have wf: "sched_wf ?s" by (rule reachable_wf)
  have "\<not> Option.is_none (sc_scheduled_job ?s)" and heap: "pq_heap (sc_workers_queue ?s) \<noteq> []" by code_simp+
  then have job: "sc_scheduled_job ?s \<noteq> None" by (metis Option.is_none_simps(1))
  have "w_subworkers ?w = 0" "length (w_assignments ?w) = 1" "length (w_replacements ?w) = 0" by code_simp+
  then have "can_accept ?w = 2 ^ 64 - 1" by (simp add: can_accept_def usize_sub_def)
  then show ?thesis using scheduling_panics_iff[OF wf] job heap by (simp add: Let_def)
qed

text \<open>C38. What a result does that comes for a task which is no longer in the queue, because another worker has finished it before: the position of the task is looked up in the worker's list of
  replacements and removed from the list of its assignments. The scheduler panics exactly when this list has no such position; otherwise an assignment that
  has nothing to do with the result is dropped, on the worker's side alone.\<close>

theorem replaced_result_panics:
  assumes "sched_wf s" "sc_scheduled_job s \<noteq> None" "task_map s (wr_id res) = None" "worker_map s wid = Some w"
  shows "case position (\<lambda>y. y = wr_id res) (w_replacements w) of
      None \<Rightarrow> \<exists>s'. process_result s wid res = Some ([], s') \<and> worker_map s' = worker_map s
    | Some p \<Rightarrow>
        if p < length (w_assignments w)
        then \<exists>s'. process_result s wid res = Some ([], s') \<and> task_map s' = task_map s \<and>
          worker_map s' = (worker_map s)(wid \<mapsto> w\<lparr>w_assignments := butlast ((w_assignments w)[p := last (w_assignments w)])\<rparr>)
        else process_result s wid res = None"
proof -
  obtain job where job: "sc_scheduled_job s = Some job" using assms(2) by blast
  have ok: "pq_ok (sc_workers_queue s)" "pq_ok (sc_tasks_queue s)" using assms(1) by (simp_all add: sched_wf_def)
  have none: "pq_remove task_lt (sc_tasks_queue s) (wr_id res) = Some (None, sc_tasks_queue s)"
    using assms(3) by (auto simp: pq_remove_def pq_vals_def)
  let ?body = "\<lambda>w. do { (w, m) \<leftarrow> drop_replacement (wr_id res) w; Some (w, m, ()) }"
  have step: "process_result s wid res =
      do { (y, wq) \<leftarrow> ref_mut_scope worker_lt (sc_workers_queue s) wid ?body;
           Some ([], s\<lparr>sc_workers_queue := wq, sc_need_schedule := (if y = None then sc_need_schedule s else True)\<rparr>) }"
    by (simp add: process_result_def job none)
  show ?thesis
  proof (cases "drop_replacement (wr_id res) w")
    case None
    then have "process_result s wid res = None"
      using worker_order.ref_mut_scope_panics[OF assms(4), of ?body] by (simp add: step)
    then show ?thesis using None by (auto simp: drop_replacement_def vec_swap_remove_def split: option.splits if_splits)
  next
    case (Some wm)
    obtain w' m where wm: "wm = (w', m)" by fastforce
    have keep: "\<not> m \<Longrightarrow> w' = w" using Some by (auto simp: wm drop_replacement_def split: option.splits bind_splits)
    have body: "?body w = Some (w', m, ())" by (simp add: Some wm)
    obtain q where q: "ref_mut_scope worker_lt (sc_workers_queue s) wid ?body = Some (Some (), q)"
      "pq_vals q = (worker_map s)(wid \<mapsto> w')"
      by (rule worker_order.ref_mut_scope_spec[where body = ?body, OF ok(1) assms(4) body keep])
    have "\<exists>s'. process_result s wid res = Some ([], s') \<and> task_map s' = task_map s \<and> worker_map s' = (worker_map s)(wid \<mapsto> w')"
      using q by (simp add: step)
    then show ?thesis using Some assms(4)
      by (auto simp: wm drop_replacement_def vec_swap_remove_def fun_upd_idem split: option.splits if_splits)
  qed
qed

theorem replaced_result_panics_witness:
  "process_result (after (shared_task @ [finish 1 1])) 2 \<lparr>wr_id = 1, wr_execution_time = 10, wr_data = []\<rparr> = None"
proof -
  let ?s = "after (shared_task @ [finish 1 1])" and ?r = "\<lparr>wr_id = 1, wr_execution_time = 10, wr_data = []\<rparr>"
  have "sched_reachable 3 0 ?s" by (rule after_reachable) code_simp
  then have wf: "sched_wf ?s" by (rule reachable_wf)
  have "\<not> Option.is_none (sc_scheduled_job ?s)" by code_simp
  then have job: "sc_scheduled_job ?s \<noteq> None" by (auto simp: Option.is_none_def)
  have "Option.is_none (task_map ?s 1)" by code_simp
  then have t: "task_map ?s (wr_id ?r) = None" by (simp add: Option.is_none_def)
  have "map_option w_assignments (worker_map ?s 2) = Some []" "map_option w_replacements (worker_map ?s 2) = Some [1]" by code_simp+
  then obtain w where w: "worker_map ?s 2 = Some w" "w_assignments w = []" "w_replacements w = [1]" by auto
  show ?thesis using replaced_result_panics[OF wf job t w(1)] by (simp add: w(2,3))
qed

text \<open>Two workers with one executor each and a job of three tasks.\<close>

definition two_workers :: "sched_event list" where
  "two_workers = start_job 3 @ [join 0 1, join 1 1, Ev_Schedule, Ev_Schedule, Ev_Schedule]"

text \<open>An idle worker starves: after a worker has finished, the scheduler looks only at the worker on
  top of the queue, which the finished one has not reached, and clears \<open>need_schedule\<close>: the worker has
  nothing to do, a task has no worker, and nothing is scheduled until some other event comes.\<close>

lemma idle_worker_starves:
  "(\<exists>outs. orderly_run 3 0 (two_workers @ [finish 0 0, Ev_Schedule]) outs (after (two_workers @ [finish 0 0, Ev_Schedule]))) \<and>
   map_option can_accept (worker_map (after (two_workers @ [finish 0 0, Ev_Schedule])) 0) = Some 1 \<and>
   map_option t_assignments (task_map (after (two_workers @ [finish 0 0, Ev_Schedule])) 2) = Some [] \<and>
   \<not> sc_need_schedule (after (two_workers @ [finish 0 0, Ev_Schedule]))"
proof (intro conjI)
  show "\<exists>outs. orderly_run 3 0 (two_workers @ [finish 0 0, Ev_Schedule]) outs (after (two_workers @ [finish 0 0, Ev_Schedule]))"
    by (rule after_orderly) code_simp
qed code_simp+

text \<open>A worker with two executors has both tasks of a job and reports that it cannot run the first.\<close>

definition returned_task :: "sched_event list" where
  "returned_task = start_job 2 @ [join 0 2, Ev_Schedule, Ev_Worker (WE_Message 0 (Error (LibraryMissing [0] [])))]"

text \<open>An error report leaves the counters wrong and the queue out of order: \<open>scheduled_tasks\<close> stays at
  two although one task is assigned, and the next round gives the worker the task it already has
  a second time, while the returned task stays without a worker.\<close>

lemma returned_task_forgotten:
  "map_option sj_scheduled_tasks (sc_scheduled_job (after returned_task)) = Some 2 \<and>
   map_option sj_completed_tasks (sc_scheduled_job (after returned_task)) = Some 0 \<and>
   map_option t_assignments (task_map (after returned_task) 0) = Some [] \<and>
   map_option w_assignments (worker_map (after (returned_task @ [Ev_Schedule])) 0) = Some [1, 1] \<and>
   map_option t_assignments (task_map (after (returned_task @ [Ev_Schedule])) 0) = Some [] \<and>
   (\<exists>outs. orderly_run 3 0 (returned_task @ [Ev_Schedule]) outs (after (returned_task @ [Ev_Schedule])))"
proof (intro conjI)
  show "\<exists>outs. orderly_run 3 0 (returned_task @ [Ev_Schedule]) outs (after (returned_task @ [Ev_Schedule]))"
    by (rule after_orderly) code_simp
qed code_simp+

end
