(* ===== verification/Linked_Map_Lists.thy ===== *)
theory Linked_Map_Lists
  imports Linked_Vec_Map
begin

text \<open>
  The linked map as its clients use it: a list of entries, oldest first. \<open>lvm_list m l\<close> says that the map
  \<open>m\<close> is well-formed and holds exactly the entries \<open>l\<close> in this order.
\<close>

section \<open>The map as a list of entries\<close>

definition lvm_list :: "'v lvm \<Rightarrow> (nat \<times> 'v) list \<Rightarrow> bool" where
  "lvm_list m l \<longleftrightarrow> lvm_inv m \<and> lvm_to_list m = Some l"

lemma lvm_list_rep:
  assumes "lvm_list m l"
  obtains ps fs where "lvm_rep m ps fs" "l = lvm_items m ps"
  using assms by (auto simp: lvm_list_def lvm_inv_def to_list_spec(1))

lemma rep_lvm_list: "lvm_rep m ps fs \<Longrightarrow> lvm_list m (lvm_items m ps)"
  by (auto simp: lvm_list_def lvm_inv_def to_list_spec(1))

lemma lvm_list_facts:
  assumes "lvm_list m l"
  shows "distinct (map fst l)" "lvm_len m = length l" "lvm_amap m = map_of l"
  using lvm_list_rep[OF assms] rep_facts by metis+

lemma lvm_list_new: "lvm_list lvm_new []"
  using rep_lvm_list[of lvm_new "[]" "[]"] lvm_inv_new by (simp add: lvm_items_def)

lemma lvm_list_insert:
  assumes "lvm_list m l"
  obtains m' where "lvm_insert m k v = Some (map_of l k, m')" "lvm_list m' (filter (\<lambda>e. fst e \<noteq> k) l @ [(k, v)])"
proof -
  obtain ps fs where rep: "lvm_rep m ps fs" "l = lvm_items m ps" by (rule lvm_list_rep[OF assms])
  obtain m' ps' fs' where "lvm_insert m k v = Some (lvm_amap m k, m')" "lvm_rep m' ps' fs'"
    "lvm_items m' ps' = filter (\<lambda>e. fst e \<noteq> k) (lvm_items m ps) @ [(k, v)]" using insert_spec[OF rep(1)] .
  then show ?thesis using that rep_lvm_list lvm_list_facts(3)[OF assms] rep(2) by metis
qed

lemma lvm_list_remove:
  assumes "lvm_list m l"
  obtains m' where "lvm_remove m k = Some (map_of l k, m')" "lvm_list m' (filter (\<lambda>e. fst e \<noteq> k) l)"
proof -
  obtain ps fs where rep: "lvm_rep m ps fs" "l = lvm_items m ps" by (rule lvm_list_rep[OF assms])
  obtain m' ps' fs' where "lvm_remove m k = Some (lvm_amap m k, m')" "lvm_rep m' ps' fs'"
    "lvm_items m' ps' = filter (\<lambda>e. fst e \<noteq> k) (lvm_items m ps)" using lvm_remove_spec[OF rep(1)] .
  then show ?thesis using that rep_lvm_list lvm_list_facts(3)[OF assms] rep(2) by metis
qed

text \<open>Writing a value through a reference keeps the structure.\<close>

lemma write_value_spec:
  assumes rep: "lvm_rep m ps fs" and p: "p \<in> set ps"
  obtains m' where "lvm_write p (\<lambda>n. n\<lparr>n_value := Some v\<rparr>) m = Some m'" "lvm_rep m' ps fs" "lvm_map m' = lvm_map m"
    "lvm_head m' = lvm_head m" "pv m' = pv m" "nkey m' = nkey m" "nval m' = (nval m)(p \<mapsto> v)"
proof -
  obtain n where n: "lvm_mem m p = Some n" by (rule node_at[OF rep p])
  let ?m = "m\<lparr>lvm_mem := (lvm_mem m)(p \<mapsto> n\<lparr>n_value := Some v\<rparr>)\<rparr>"
  have w: "lvm_write p (\<lambda>n. n\<lparr>n_value := Some v\<rparr>) m = Some ?m" by (simp add: lvm_write_def n)
  have rd: "nx ?m = nx m" "pv ?m = pv m" "nkey ?m = nkey m" "nval ?m = (nval m)(p \<mapsto> v)"
    using n by (auto simp: node_reads fun_eq_iff)
  have "ps \<noteq> []" using p by auto
  then have sh: "lvm_shape m ps fs {}" using rep_shape[OF rep] by blast
  have "lvm_shape ?m ps fs {}" using sh n by (subst shape_cong[of ?m m]) (auto simp: rd)
  moreover have "lvm_indexed ?m ps"
    by (rule indexed_cong[OF rep_facts(1)[OF rep] refl]) (use rep_facts(1)[OF rep] in \<open>auto simp: rd lvm_indexed_def\<close>)
  ultimately have "lvm_rep ?m ps fs" using rep_shapeI shape_fresh sh by fastforce
  then show ?thesis using that[OF w] rd by simp
qed

lemma items_write:
  assumes "lvm_rep m ps fs" "p \<in> set ps" "nkey m p = Some k" "nkey m' = nkey m" "nval m' = (nval m)(p \<mapsto> v)"
  shows "lvm_items m' ps = map (\<lambda>(j, u). (j, if j = k then v else u)) (lvm_items m ps)"
proof -
  have "nkey m r = Some k \<longleftrightarrow> r = p" if "r \<in> set ps" for r
    using rep_facts(1)[OF assms(1)] assms(2,3) that unfolding lvm_indexed_def by (metis option.inject)
  moreover have "\<exists>j. nkey m r = Some j" if "r \<in> set ps" for r
    using rep_facts(1)[OF assms(1)] that unfolding lvm_indexed_def by blast
  ultimately show ?thesis unfolding lvm_items_def assms(4,5) by (auto simp: assms(3)) (metis option.sel)+
qed

lemma lvm_list_get_mut:
  assumes "lvm_list m l"
  obtains m' where "lvm_get_mut f m k = Some (map_of l k, m')"
    "lvm_list m' (map (\<lambda>(j, v). (j, if j = k then f v else v)) l)"
proof -
  obtain ps fs where rep: "lvm_rep m ps fs" "l = lvm_items m ps" by (rule lvm_list_rep[OF assms])
  note am = lvm_list_facts(3)[OF assms]
  show ?thesis
  proof (cases "vm_map (lvm_map m) k")
    case None
    then have "map_of l k = None" using am by (metis lvm_amap_def option.simps(4))
    then have "\<forall>e \<in> set l. fst e \<noteq> k" by (auto simp: map_of_eq_None_iff)
    then have "map (\<lambda>(j, v). (j, if j = k then f v else v)) l = l" by (induction l) auto
    then show ?thesis using that[of m] None assms \<open>map_of l k = None\<close> by (simp add: lvm_get_mut_def)
  next
    case (Some p)
    then have p: "p \<in> set ps" "nkey m p = Some k" using rep_facts(1)[OF rep(1)] by (auto simp: lvm_indexed_def)
    obtain n v where n: "lvm_mem m p = Some n" "n_value n = Some v" "nval m p = Some v" by (rule node_at[OF rep(1) p(1)])
    obtain m' where m': "lvm_write p (\<lambda>n. n\<lparr>n_value := Some (f v)\<rparr>) m = Some m'" "lvm_rep m' ps fs"
      "nkey m' = nkey m" "nval m' = (nval m)(p \<mapsto> f v)" by (rule write_value_spec[OF rep(1) p(1)])
    have v: "map_of l k = Some v" using am Some n(3) by (metis lvm_amap_def option.simps(5))
    have uniq: "u = v" if "(k, u) \<in> set l" for u
      using map_of_is_SomeI[OF lvm_list_facts(1)[OF assms] that] v by simp
    have "lvm_items m' ps = map (\<lambda>(j, u). (j, if j = k then f v else u)) l"
      using items_write[OF rep(1) p m'(3,4)] rep(2) by simp
    moreover have "map (\<lambda>(j, u). (j, if j = k then f v else u)) l = map (\<lambda>(j, u). (j, if j = k then f u else u)) l"
      using uniq by auto
    moreover have "lvm_get_mut f m k = Some (Some v, m')"
      using Some n m'(1) by (simp add: lvm_get_mut_def)
    ultimately show ?thesis using that rep_lvm_list[OF m'(2)] v by metis
  qed
qed

end
