(* ===== verification/Event_Loops.thy ===== *)
theory Event_Loops
  imports Grid_Prelude
begin

text \<open>
  The processes of the grid are event loops: a turn takes one event, changes the state and sends
  messages, or panics. This theory has what their runs share. \<open>ok\<close> says which events the environment may
  produce in a state, \<open>exec\<close> is a turn of the loop.
\<close>

section \<open>Runs\<close>

inductive event_run ::
  "('s \<Rightarrow> 'e \<Rightarrow> bool) \<Rightarrow> ('s \<Rightarrow> 'e \<Rightarrow> ('o list \<times> 's) option) \<Rightarrow> 's \<Rightarrow> 'e list \<Rightarrow> 'o list \<Rightarrow> 's \<Rightarrow> bool"
  for ok exec init where
  run_init: "event_run ok exec init [] [] init"
| run_event: "event_run ok exec init es outs s \<Longrightarrow> ok s e \<Longrightarrow> exec s e = Some (out, s') \<Longrightarrow>
    event_run ok exec init (es @ [e]) (outs @ out) s'"

text \<open>The same as a function; the answer is \<open>None\<close> when an event is not allowed or makes the process panic.\<close>

fun exec_events ::
  "('s \<Rightarrow> 'e \<Rightarrow> bool) \<Rightarrow> ('s \<Rightarrow> 'e \<Rightarrow> ('o list \<times> 's) option) \<Rightarrow> 's \<Rightarrow> 'e list \<Rightarrow> ('o list \<times> 's) option" where
  "exec_events ok exec s [] = Some ([], s)"
| "exec_events ok exec s (e # es) =
     (if ok s e then do { (out, s) \<leftarrow> exec s e; (outs, s) \<leftarrow> exec_events ok exec s es; Some (out @ outs, s) } else None)"

lemma exec_events_run:
  assumes "event_run ok exec init es0 outs0 s" "exec_events ok exec s es = Some (outs, s')"
  shows "event_run ok exec init (es0 @ es) (outs0 @ outs) s'"
  using assms
proof (induction es arbitrary: s es0 outs0 outs)
  case Nil
  then show ?case by simp
next
  case (Cons e es)
  from Cons.prems(2) obtain out s1 outs1 where s1: "ok s e" "exec s e = Some (out, s1)"
    "exec_events ok exec s1 es = Some (outs1, s')" "outs = out @ outs1"
    by (auto split: bind_splits if_splits)
  from Cons.IH[OF run_event[OF Cons.prems(1) s1(1,2)] s1(3)] show ?case by (simp add: s1(4))
qed

section \<open>Invariants\<close>

text \<open>A process keeps the invariant \<open>inv\<close>: it holds at the start, and on an allowed event the turn returns
  and the invariant holds again.\<close>

locale event_loop =
  fixes init :: "'s"
    and ok :: "'s \<Rightarrow> 'e \<Rightarrow> bool"
    and exec :: "'s \<Rightarrow> 'e \<Rightarrow> ('o list \<times> 's) option"
    and inv :: "'s \<Rightarrow> bool"
  assumes init_inv: "inv init"
    and exec_inv: "inv s \<Longrightarrow> ok s e \<Longrightarrow> \<exists>out s'. exec s e = Some (out, s') \<and> inv s'"
begin

lemma run_inv: "event_run ok exec init es outs s \<Longrightarrow> inv s"
proof (induction rule: event_run.induct)
  case run_init
  show ?case by (rule init_inv)
next
  case (run_event es outs s e out s')
  then show ?case using exec_inv[of s e] by auto
qed

lemma handled:
  assumes "event_run ok exec init es outs s" "ok s e"
  shows "\<exists>out s'. exec s e = Some (out, s') \<and> event_run ok exec init (es @ [e]) (outs @ out) s' \<and> inv s'"
  using exec_inv[OF run_inv[OF assms(1)] assms(2)] run_event[OF assms] by blast

end

end
