(* ===== verification/Node_Manager.thy ===== *)
theory Node_Manager
  imports Linked_Vec_Set Linked_Map_Lists Messages Event_Loops
begin

text \<open>
  The node manager process, \<open>node_manager/src/node_manager.rs\<close>, with \<open>node.rs\<close> and \<open>scheduler.rs\<close>: it
  keeps the connected nodes and schedulers, and hands unassigned nodes to the schedulers that
  demand workers, oldest demand first.

  The tables of nodes and schedulers (\<open>Slab\<close>) and the timers (\<open>DelayQueue\<close>) are containers of
  other packages. Their contents are partial functions; the key that an insertion returns is an
  argument of the event that inserts, and the events that name a free one are the \<open>nm_orderly\<close> ones of the next theory.
  Indexing an absent entry, and resetting or removing an absent timer, is a panic, as documented;
  when a timer runs out is up to the environment. The order in which a \<open>HashMap\<close> is iterated is
  an argument of the turn that iterates. A sink and its cancellation token are the number of the connection.
\<close>

section \<open>Data\<close>

type_synonym node_id = usize
type_synonym timer_key = nat
type_synonym connection = nat

datatype service_type = ST_Node | ST_NodeManager | ST_Scheduler | ST_TaskManager

record nm_node =
  nd_uuid :: uuid
  nd_name :: "string option"
  nd_subworkers :: usize
  nd_platform :: platform
  nd_address :: socket_addr
  nd_expiration_key :: timer_key
  nd_assigned :: "node_id option"
  nd_connection :: connection
  nd_disconnect_buffer :: "node_request list option"

record nm_scheduler =
  ns_uuid :: uuid
  ns_name :: "string option"
  ns_assigned_workers :: lvs
  ns_address :: socket_addr
  ns_connection :: connection
  ns_disconnect_buffer :: "node_manager_response list option"

record workers_demand =
  wd_provided_workers :: nat
  wd_required_workers :: "nat option"
  wd_supported_platforms :: "platform list"

datatype nm_output =
  To_Node connection node_request
  | To_Scheduler connection node_manager_response
  | Cancel connection
  | Return_Id node_id

datatype node_event =
  ND_Connect uuid "string option" platform usize socket_addr connection node_id timer_key
  | ND_Disconnect node_id
  | ND_Message node_id node_response

datatype scheduler_event =
  NS_Connect uuid "string option" socket_addr connection node_id
  | NS_Disconnect node_id timer_key
  | NS_Message node_id node_manager_request

record node_manager =
  nm_schedulers :: "node_id \<Rightarrow> nm_scheduler option"
  nm_workers_demands_queue :: "workers_demand lvm"
  nm_unassigned_workers :: lvs
  nm_workers :: "node_id \<Rightarrow> nm_node option"
  nm_expirations :: "timer_key \<Rightarrow> (node_id \<times> service_type) option"
  nm_disconnected :: "uuid \<Rightarrow> (node_id \<times> timer_key) option"
  nm_need_process_queue :: bool

definition node_manager_new :: node_manager where
  "node_manager_new =
     \<lparr>nm_schedulers = (\<lambda>_. None), nm_workers_demands_queue = lvm_new, nm_unassigned_workers = lvs_new,
      nm_workers = (\<lambda>_. None), nm_expirations = (\<lambda>_. None), nm_disconnected = (\<lambda>_. None),
      nm_need_process_queue = False\<rparr>"

text \<open>\<open>send\<close> of a node and of a scheduler: while the connection is lost the messages are kept.\<close>

definition node_send :: "nm_node \<Rightarrow> node_request \<Rightarrow> nm_output list \<times> nm_node" where
  "node_send n response =
     (case nd_disconnect_buffer n of
        Some buffer \<Rightarrow> ([], n\<lparr>nd_disconnect_buffer := Some (buffer @ [response])\<rparr>)
      | None \<Rightarrow> ([To_Node (nd_connection n) response], n))"

definition scheduler_send :: "nm_scheduler \<Rightarrow> node_manager_response \<Rightarrow> nm_output list \<times> nm_scheduler" where
  "scheduler_send s response =
     (case ns_disconnect_buffer s of
        Some buffer \<Rightarrow> ([], s\<lparr>ns_disconnect_buffer := Some (buffer @ [response])\<rparr>)
      | None \<Rightarrow> ([To_Scheduler (ns_connection s) response], s))"

text \<open>\<open>u32\<close> counters.\<close>

definition u32_sub :: "nat \<Rightarrow> nat \<Rightarrow> nat" where
  "u32_sub a b = (if b \<le> a then a - b else 2 ^ 32 + a - b)"

definition u32_add :: "nat \<Rightarrow> nat \<Rightarrow> nat" where
  "u32_add a b = wrap 32 (a + b)"

section \<open>Releasing workers\<close>

definition release_worker :: "node_manager \<Rightarrow> node_id \<Rightarrow> (nm_output list \<times> node_manager) option" where
  "release_worker m worker_id =
     (case nm_workers m worker_id of
        None \<Rightarrow> Some ([], m)
      | Some worker \<Rightarrow>
          do {
            (_, un) \<leftarrow> lvs_insert (nm_unassigned_workers m) worker_id;
            let (out, worker) = node_send (worker\<lparr>nd_assigned := None\<rparr>) UnassignClient;
            Some (out, m\<lparr>nm_unassigned_workers := un, nm_workers := (nm_workers m)(worker_id \<mapsto> worker)\<rparr>)
          })"

fun release_workers :: "node_manager \<Rightarrow> node_id list \<Rightarrow> (nm_output list \<times> node_manager) option" where
  "release_workers m [] = Some ([], m)"
| "release_workers m (worker_id # ids) =
     do {
       (out, m) \<leftarrow> release_worker m worker_id;
       (outs, m) \<leftarrow> release_workers m ids;
       Some (out @ outs, m)
     }"

section \<open>Sessions that end\<close>

text \<open>A removed node is dropped at the end of the block, which cancels its connection.\<close>

definition process_node_disconnection :: "node_manager \<Rightarrow> node_id \<Rightarrow> (nm_output list \<times> node_manager) option" where
  "process_node_disconnection m worker_id =
     (case nm_workers m worker_id of
        None \<Rightarrow> Some ([], m)
      | Some worker \<Rightarrow>
          do {
            let m = m\<lparr>nm_workers := (nm_workers m)(worker_id := None),
                      nm_disconnected := (nm_disconnected m)(nd_uuid worker := None)\<rparr>;
            (out, m) \<leftarrow>
              (case nd_assigned worker of
                 None \<Rightarrow>
                   do {
                     (_, un) \<leftarrow> lvs_remove (nm_unassigned_workers m) worker_id;
                     Some ([], m\<lparr>nm_unassigned_workers := un\<rparr>)
                   }
               | Some scheduler_id \<Rightarrow>
                   (case nm_schedulers m scheduler_id of
                      None \<Rightarrow> Some ([], m)
                    | Some scheduler \<Rightarrow>
                        do {
                          (found, ws) \<leftarrow> lvs_remove (ns_assigned_workers scheduler) worker_id;
                          let scheduler = scheduler\<lparr>ns_assigned_workers := ws\<rparr>;
                          if found then
                            do {
                              (_, dq) \<leftarrow> lvm_get_mut
                                (\<lambda>d. d\<lparr>wd_provided_workers := u32_sub (wd_provided_workers d) 1\<rparr>)
                                (nm_workers_demands_queue m) scheduler_id;
                              let (out, scheduler) = scheduler_send scheduler (NP_Disconnect worker_id);
                              Some (out, m\<lparr>nm_workers_demands_queue := dq,
                                           nm_schedulers := (nm_schedulers m)(scheduler_id \<mapsto> scheduler),
                                           nm_need_process_queue := True\<rparr>)
                            }
                          else Some ([], m\<lparr>nm_schedulers := (nm_schedulers m)(scheduler_id \<mapsto> scheduler)\<rparr>)
                        }));
            Some (out @ [Cancel (nd_connection worker)], m)
          })"

definition process_scheduler_disconnection ::
  "node_manager \<Rightarrow> node_id \<Rightarrow> (nm_output list \<times> node_manager) option" where
  "process_scheduler_disconnection m scheduler_id =
     (case nm_schedulers m scheduler_id of
        None \<Rightarrow> Some ([], m)
      | Some scheduler \<Rightarrow>
          do {
            let m = m\<lparr>nm_schedulers := (nm_schedulers m)(scheduler_id := None)\<rparr>;
            (x, dq) \<leftarrow> lvm_remove (nm_workers_demands_queue m) scheduler_id;
            let m = m\<lparr>nm_workers_demands_queue := dq\<rparr>;
            (out, m) \<leftarrow>
              (case x of
                 None \<Rightarrow> Some ([], m)
               | Some _ \<Rightarrow> do { ids \<leftarrow> lvs_iter (ns_assigned_workers scheduler); release_workers m ids });
            Some (out @ [Cancel (ns_connection scheduler)],
                  m\<lparr>nm_disconnected := (nm_disconnected m)(ns_uuid scheduler := None),
                    nm_need_process_queue := True\<rparr>)
          })"

text \<open>A timer has run out. The branch for schedulers looks the identifier up among the workers.\<close>

definition process_expiration :: "node_manager \<Rightarrow> timer_key \<Rightarrow> (nm_output list \<times> node_manager) option" where
  "process_expiration m key =
     (case nm_expirations m key of
        None \<Rightarrow> Some ([], m)
      | Some (ident, service) \<Rightarrow>
          (let m = m\<lparr>nm_expirations := (nm_expirations m)(key := None)\<rparr> in
           case service of
             ST_Node \<Rightarrow> process_node_disconnection m ident
           | ST_Scheduler \<Rightarrow>
               (case nm_workers m ident of
                  Some worker \<Rightarrow> Some ([Cancel (nd_connection worker)], m)
                | None \<Rightarrow> Some ([], m))
           | _ \<Rightarrow> None))"

section \<open>Sessions that are restored\<close>

fun node_send_all :: "nm_node \<Rightarrow> node_request list \<Rightarrow> nm_output list \<times> nm_node" where
  "node_send_all n [] = ([], n)"
| "node_send_all n (r # rs) =
     (let (out, n) = node_send n r; (outs, n) = node_send_all n rs in (out @ outs, n))"

fun scheduler_send_all :: "nm_scheduler \<Rightarrow> node_manager_response list \<Rightarrow> nm_output list \<times> nm_scheduler" where
  "scheduler_send_all s [] = ([], s)"
| "scheduler_send_all s (r # rs) =
     (let (out, s) = scheduler_send s r; (outs, s) = scheduler_send_all s rs in (out @ outs, s))"

definition restore_node_session ::
  "node_manager \<Rightarrow> node_id \<Rightarrow> timer_key \<Rightarrow> connection \<Rightarrow> (nm_output list \<times> node_manager) option" where
  "restore_node_session m node_ident key conn =
     do {
       node \<leftarrow> nm_workers m node_ident;
       _ \<leftarrow> nm_expirations m key;
       let buffer = (case nd_disconnect_buffer node of Some b \<Rightarrow> b | None \<Rightarrow> []);
       let node = node\<lparr>nd_disconnect_buffer := None, nd_connection := conn\<rparr>;
       let (out, node) = node_send_all node buffer;
       Some (out @ [Return_Id node_ident], m\<lparr>nm_workers := (nm_workers m)(node_ident \<mapsto> node)\<rparr>)
     }"

definition restore_scheduler_session ::
  "node_manager \<Rightarrow> node_id \<Rightarrow> timer_key \<Rightarrow> connection \<Rightarrow> (nm_output list \<times> node_manager) option" where
  "restore_scheduler_session m scheduler_id key conn =
     do {
       scheduler \<leftarrow> nm_schedulers m scheduler_id;
       _ \<leftarrow> nm_expirations m key;
       let m = m\<lparr>nm_expirations := (nm_expirations m)(key := None)\<rparr>;
       let buffer = (case ns_disconnect_buffer scheduler of Some b \<Rightarrow> b | None \<Rightarrow> []);
       let scheduler = scheduler\<lparr>ns_disconnect_buffer := None, ns_connection := conn\<rparr>;
       let (out, scheduler) = scheduler_send scheduler RestoredSession;
       let (outs, scheduler) = scheduler_send_all scheduler buffer;
       Some (out @ outs @ [Return_Id scheduler_id],
             m\<lparr>nm_schedulers := (nm_schedulers m)(scheduler_id \<mapsto> scheduler)\<rparr>)
     }"

section \<open>Schedulers\<close>

text \<open>The two messages that give a scheduler's workers back: \<open>take\<close> leaves a new set behind.\<close>

definition take_assigned :: "node_manager \<Rightarrow> node_id \<Rightarrow> nm_scheduler \<Rightarrow> (nm_output list \<times> node_manager) option" where
  "take_assigned m ident scheduler =
     do {
       ids \<leftarrow> lvs_into_iter (ns_assigned_workers scheduler);
       release_workers
         (m\<lparr>nm_schedulers := (nm_schedulers m)(ident \<mapsto> scheduler\<lparr>ns_assigned_workers := lvs_new\<rparr>)\<rparr>) ids
     }"

fun process_scheduler :: "node_manager \<Rightarrow> scheduler_event \<Rightarrow> (nm_output list \<times> node_manager) option" where
  "process_scheduler m (NS_Connect uu name address conn new_id) =
     (case nm_disconnected m uu of
        Some (ident, key) \<Rightarrow>
          restore_scheduler_session (m\<lparr>nm_disconnected := (nm_disconnected m)(uu := None)\<rparr>) ident key conn
      | None \<Rightarrow>
          (let scheduler = \<lparr>ns_uuid = uu, ns_name = name, ns_assigned_workers = lvs_new, ns_address = address,
                            ns_connection = conn, ns_disconnect_buffer = None\<rparr>;
               (out, scheduler) = scheduler_send scheduler CreatedSession
           in Some (out @ [Return_Id new_id], m\<lparr>nm_schedulers := (nm_schedulers m)(new_id \<mapsto> scheduler)\<rparr>)))"
| "process_scheduler m (NS_Message ident NR_HelloMessage) = Some ([], m)"
| "process_scheduler m (NS_Message ident (WorkersDemand required supported)) =
     (case nm_schedulers m ident of
        None \<Rightarrow> Some ([], m)
      | Some scheduler \<Rightarrow>
          do {
            (old, dq) \<leftarrow> lvm_insert (nm_workers_demands_queue m) ident
              \<lparr>wd_provided_workers = 0, wd_required_workers = required, wd_supported_platforms = supported\<rparr>;
            let m = m\<lparr>nm_workers_demands_queue := dq\<rparr>;
            (out, m) \<leftarrow> (case old of None \<Rightarrow> Some ([], m) | Some _ \<Rightarrow> take_assigned m ident scheduler);
            Some (out, m\<lparr>nm_need_process_queue := True\<rparr>)
          })"
| "process_scheduler m (NS_Message ident ReleaseDemand) =
     (case nm_schedulers m ident of
        None \<Rightarrow> Some ([], m)
      | Some scheduler \<Rightarrow>
          do {
            (old, dq) \<leftarrow> lvm_remove (nm_workers_demands_queue m) ident;
            let m = m\<lparr>nm_workers_demands_queue := dq\<rparr>;
            (out, m) \<leftarrow> (case old of None \<Rightarrow> Some ([], m) | Some _ \<Rightarrow> take_assigned m ident scheduler);
            Some (out, m\<lparr>nm_need_process_queue := True\<rparr>)
          })"
| "process_scheduler m (NS_Disconnect ident key) =
     (case nm_schedulers m ident of
        None \<Rightarrow> Some ([], m)
      | Some scheduler \<Rightarrow>
          Some ([], m\<lparr>nm_expirations := (nm_expirations m)(key \<mapsto> (ident, ST_Scheduler)),
                      nm_disconnected := (nm_disconnected m)(ns_uuid scheduler \<mapsto> (ident, key)),
                      nm_schedulers := (nm_schedulers m)(ident \<mapsto> scheduler\<lparr>ns_disconnect_buffer := Some []\<rparr>)\<rparr>))"

section \<open>The queue of demands\<close>

text \<open>Whether a demand takes a worker, and its iteration over the queue: the first demand that does
  is counted up and the loop ends there.\<close>

definition demand_takes :: "platform \<Rightarrow> workers_demand \<Rightarrow> bool" where
  "demand_takes p d \<longleftrightarrow>
     (case wd_required_workers d of None \<Rightarrow> True | Some required \<Rightarrow> required \<noteq> wd_provided_workers d) \<and>
     p \<in> set (wd_supported_platforms d)"

definition demand_count :: "platform \<Rightarrow> nat \<Rightarrow> workers_demand \<Rightarrow> workers_demand" where
  "demand_count p k d = (if demand_takes p d then d\<lparr>wd_provided_workers := u32_add (wd_provided_workers d) 1\<rparr> else d)"

fun offer_worker ::
  "nat \<Rightarrow> platform \<Rightarrow> workers_demand lvm \<Rightarrow> lvm_iterator \<Rightarrow> (node_id option \<times> workers_demand lvm) option" where
  "offer_worker 0 p dq it = None"
| "offer_worker (Suc fuel) p dq it =
     do {
       (r, it, dq) \<leftarrow> iter_mut_next (demand_count p) dq it;
       case r of
         None \<Rightarrow> Some (None, dq)
       | Some (scheduler_id, demand) \<Rightarrow>
           if demand_takes p demand then Some (Some scheduler_id, dq) else offer_worker fuel p dq it
     }"

text \<open>\<open>map.entry(scheduler_id).or_insert(Vec::new()).push(worker_id)\<close>\<close>

fun entry_push :: "'k \<Rightarrow> 'v \<Rightarrow> ('k \<times> 'v list) list \<Rightarrow> ('k \<times> 'v list) list" where
  "entry_push k v [] = [(k, [v])]"
| "entry_push k v ((k', vs) # xs) = (if k' = k then (k', vs @ [v]) # xs else (k', vs) # entry_push k v xs)"

text \<open>The first loop: while the worker at the front of the queue is taken by a demand.\<close>

fun match_workers ::
  "nat \<Rightarrow> node_manager \<Rightarrow> (node_id \<times> node_id list) list \<Rightarrow> (node_manager \<times> (node_id \<times> node_id list) list) option" where
  "match_workers 0 m matched = None"
| "match_workers (Suc fuel) m matched =
     do {
       front \<leftarrow> lvs_front (nm_unassigned_workers m);
       case Option.bind front (\<lambda>x. map_option (Pair x) (nm_workers m x)) of
         None \<Rightarrow> Some (m, matched)
       | Some (worker_id, worker) \<Rightarrow>
           do {
             it \<leftarrow> lvm_iter (nm_workers_demands_queue m);
             (r, dq) \<leftarrow> offer_worker (Suc (lvm_len (nm_workers_demands_queue m))) (nd_platform worker)
                (nm_workers_demands_queue m) it;
             let m = m\<lparr>nm_workers_demands_queue := dq\<rparr>;
             case r of
               None \<Rightarrow> Some (m, matched)
             | Some scheduler_id \<Rightarrow>
                 do {
                   (_, un) \<leftarrow> lvs_pop_front (nm_unassigned_workers m);
                   match_workers fuel (m\<lparr>nm_unassigned_workers := un\<rparr>) (entry_push scheduler_id worker_id matched)
                 }
           }
     }"

text \<open>The second loop: the matched workers of one scheduler.\<close>

fun assign_workers ::
  "node_id \<Rightarrow> node_id list \<Rightarrow> nm_scheduler \<Rightarrow> node_manager \<Rightarrow>
   (nm_output list \<times> worker_info list \<times> nm_scheduler \<times> node_manager) option" where
  "assign_workers scheduler_id [] scheduler m = Some ([], [], scheduler, m)"
| "assign_workers scheduler_id (worker_id # ids) scheduler m =
     do {
       worker \<leftarrow> nm_workers m worker_id;
       (_, ws) \<leftarrow> lvs_insert (ns_assigned_workers scheduler) worker_id;
       let scheduler = scheduler\<lparr>ns_assigned_workers := ws\<rparr>;
       let info = \<lparr>wi_worker_id = worker_id, wi_subworkers = nd_subworkers worker,
                   wi_address = nd_address worker, wi_platform = nd_platform worker\<rparr>;
       let (out, worker) =
         node_send (worker\<lparr>nd_assigned := Some scheduler_id\<rparr>) (AssignClient (ns_address scheduler));
       (outs, infos, scheduler, m) \<leftarrow>
         assign_workers scheduler_id ids scheduler (m\<lparr>nm_workers := (nm_workers m)(worker_id \<mapsto> worker)\<rparr>);
       Some (out @ outs, info # infos, scheduler, m)
     }"

fun assign_matched ::
  "(node_id \<times> node_id list) list \<Rightarrow> node_manager \<Rightarrow> (nm_output list \<times> node_manager) option" where
  "assign_matched [] m = Some ([], m)"
| "assign_matched ((scheduler_id, ids) # rest) m =
     do {
       scheduler \<leftarrow> nm_schedulers m scheduler_id;
       (out, infos, scheduler, m) \<leftarrow> assign_workers scheduler_id ids scheduler m;
       let (out', scheduler) = scheduler_send scheduler (NP_Connect infos);
       (outs, m) \<leftarrow> assign_matched rest (m\<lparr>nm_schedulers := (nm_schedulers m)(scheduler_id \<mapsto> scheduler)\<rparr>);
       Some (out @ out' @ outs, m)
     }"

text \<open>A \<open>HashMap\<close> is iterated in some order of its keys, which is the argument \<open>order\<close>.\<close>

definition hash_entries :: "'k list \<Rightarrow> ('k \<times> 'v) list \<Rightarrow> ('k \<times> 'v) list" where
  "hash_entries order entries = concat (map (\<lambda>k. filter (\<lambda>e. fst e = k) entries) order)"

definition process_queue :: "node_id list \<Rightarrow> node_manager \<Rightarrow> (nm_output list \<times> node_manager) option" where
  "process_queue order m =
     do {
       (m, matched) \<leftarrow> match_workers (Suc (lvs_len (nm_unassigned_workers m))) m [];
       assign_matched (hash_entries order matched) m
     }"

section \<open>Nodes\<close>

fun process_node :: "node_manager \<Rightarrow> node_event \<Rightarrow> (nm_output list \<times> node_manager) option" where
  "process_node m (ND_Connect uu name platform subworkers address conn new_id new_key) =
     (case nm_disconnected m uu of
        Some (ident, key) \<Rightarrow>
          restore_node_session (m\<lparr>nm_disconnected := (nm_disconnected m)(uu := None)\<rparr>) ident key conn
      | None \<Rightarrow>
          do {
            let m = m\<lparr>nm_expirations := (nm_expirations m)(new_key \<mapsto> (new_id, ST_Node)),
                      nm_workers := (nm_workers m)(new_id \<mapsto>
                        \<lparr>nd_uuid = uu, nd_name = name, nd_subworkers = subworkers, nd_platform = platform,
                         nd_address = address, nd_expiration_key = new_key, nd_assigned = None,
                         nd_connection = conn, nd_disconnect_buffer = None\<rparr>)\<rparr>;
            (_, un) \<leftarrow> lvs_insert (nm_unassigned_workers m) new_id;
            Some ([Return_Id new_id], m\<lparr>nm_unassigned_workers := un, nm_need_process_queue := True\<rparr>)
          })"
| "process_node m (ND_Disconnect ident) =
     (case nm_workers m ident of
        None \<Rightarrow> Some ([], m)
      | Some node \<Rightarrow>
          Some ([], m\<lparr>nm_disconnected := (nm_disconnected m)(nd_uuid node \<mapsto> (ident, nd_expiration_key node)),
                      nm_workers := (nm_workers m)(ident \<mapsto> node\<lparr>nd_disconnect_buffer := Some []\<rparr>)\<rparr>))"
| "process_node m (ND_Message ident Heartbeat) =
     (case nm_workers m ident of
        None \<Rightarrow> Some ([], m)
      | Some node \<Rightarrow> do { _ \<leftarrow> nm_expirations m (nd_expiration_key node); Some ([], m) })"

section \<open>Commands\<close>

record json_scheduler =
  jsn_uuid :: uuid
  jsn_name :: "string option"
  jsn_assigned_workers :: "node_id list"

record json_node =
  jn_uuid :: uuid
  jn_name :: "string option"
  jn_subworkers :: usize
  jn_platform :: platform
  jn_address :: socket_addr
  jn_assigned :: "node_id option"

definition json_of_scheduler :: "nm_scheduler \<Rightarrow> json_scheduler option" where
  "json_of_scheduler s =
     do {
       ids \<leftarrow> lvs_iter (ns_assigned_workers s);
       Some \<lparr>jsn_uuid = ns_uuid s, jsn_name = ns_name s, jsn_assigned_workers = ids\<rparr>
     }"

definition json_of_node :: "nm_node \<Rightarrow> json_node" where
  "json_of_node n =
     \<lparr>jn_uuid = nd_uuid n, jn_name = nd_name n, jn_subworkers = nd_subworkers n, jn_platform = nd_platform n,
      jn_address = nd_address n, jn_assigned = nd_assigned n\<rparr>"

datatype nm_command = NC_Nodes | NC_Schedulers | NC_Queue

datatype nm_answer =
  NA_Nodes "json_node list"
  | NA_Schedulers "json_scheduler list"
  | NA_Queue "workers_demand list"

text \<open>The occupied keys of the tables, in the order in which they are iterated, are arguments.\<close>

fun nm_process_command :: "node_id list \<Rightarrow> node_id list \<Rightarrow> node_manager \<Rightarrow> nm_command \<Rightarrow> nm_answer option" where
  "nm_process_command workers schedulers m NC_Nodes =
     do { ns \<leftarrow> those (map (nm_workers m) workers); Some (NA_Nodes (map json_of_node ns)) }"
| "nm_process_command workers schedulers m NC_Schedulers =
     do {
       ss \<leftarrow> those (map (nm_schedulers m) schedulers);
       js \<leftarrow> those (map json_of_scheduler ss);
       Some (NA_Schedulers js)
     }"
| "nm_process_command workers schedulers m NC_Queue = map_option NA_Queue (lvm_values (nm_workers_demands_queue m))"

section \<open>The event loop\<close>

datatype nm_event =
  NV_Node node_event
  | NV_Expired timer_key
  | NV_Scheduler scheduler_event
  | NV_Queue "node_id list"

text \<open>A turn of the loop. The notification is used up by the turn that processes the queue.\<close>

fun nm_exec :: "node_manager \<Rightarrow> nm_event \<Rightarrow> (nm_output list \<times> node_manager) option" where
  "nm_exec m (NV_Node e) = process_node m e"
| "nm_exec m (NV_Expired key) = process_expiration m key"
| "nm_exec m (NV_Scheduler e) = process_scheduler m e"
| "nm_exec m (NV_Queue order) = process_queue order (m\<lparr>nm_need_process_queue := False\<rparr>)"

end
