(* ===== verification/Node_Manager_Invariants.thy ===== *)
theory Node_Manager_Invariants
  imports Node_Manager "HOL-Library.Multiset"
begin

text \<open>
  The invariant of the node manager. Its state is read through lists (\<open>free_list\<close>, \<open>assigned_list\<close>,
  \<open>demand_list\<close>) and through what a node is assigned to; the invariant \<open>nm_inv\<close> says that the containers are
  well-formed, that every node is in the queue or in the set of exactly one scheduler, that the counters of
  the demands are right and that the timers and the sessions belong to a process. Every handler but
  the one of the queue is shown here to return and to keep it on an \<open>nm_orderly\<close> event.
\<close>

section \<open>Views\<close>

definition queue_of :: "lvs \<Rightarrow> nat list" where
  "queue_of s = (case lvs_iter s of None \<Rightarrow> [] | Some ks \<Rightarrow> ks)"

definition free_list :: "node_manager \<Rightarrow> node_id list" where
  "free_list m = queue_of (nm_unassigned_workers m)"

definition assigned_list :: "node_manager \<Rightarrow> node_id \<Rightarrow> node_id list" where
  "assigned_list m sid = (case nm_schedulers m sid of None \<Rightarrow> [] | Some s \<Rightarrow> queue_of (ns_assigned_workers s))"

definition demand_list :: "node_manager \<Rightarrow> (node_id \<times> workers_demand) list" where
  "demand_list m = (case lvm_to_list (nm_workers_demands_queue m) of None \<Rightarrow> [] | Some l \<Rightarrow> l)"

text \<open>What a node is assigned to, and what of it never changes while it is connected.\<close>

definition assignment :: "node_manager \<Rightarrow> node_id \<Rightarrow> node_id option option" where
  "assignment m w = map_option nd_assigned (nm_workers m w)"

definition node_info :: "nm_node \<Rightarrow> uuid \<times> platform \<times> timer_key" where
  "node_info n = (nd_uuid n, nd_platform n, nd_expiration_key n)"

definition info_of :: "node_manager \<Rightarrow> node_id \<Rightarrow> (uuid \<times> platform \<times> timer_key) option" where
  "info_of m w = map_option node_info (nm_workers m w)"

definition platform_of :: "node_manager \<Rightarrow> node_id \<Rightarrow> platform option" where
  "platform_of m w = map_option nd_platform (nm_workers m w)"

definition scheduler_uuid :: "node_manager \<Rightarrow> node_id \<Rightarrow> uuid option" where
  "scheduler_uuid m sid = map_option ns_uuid (nm_schedulers m sid)"

lemma queue_of_queue [simp]: "lvs_queue s ks \<Longrightarrow> queue_of s = ks"
  by (simp add: queue_of_def lvs_queue_def)

lemma platform_of_info: "platform_of m w = map_option (fst \<circ> snd) (info_of m w)"
  by (simp add: platform_of_def info_of_def option.map_comp node_info_def comp_def)

section \<open>The invariant\<close>

text \<open>The containers are well-formed.\<close>

definition nm_wf :: "node_manager \<Rightarrow> bool" where
  "nm_wf m \<longleftrightarrow> lvs_queue (nm_unassigned_workers m) (free_list m) \<and>
     lvm_list (nm_workers_demands_queue m) (demand_list m) \<and>
     (\<forall>sid s. nm_schedulers m sid = Some s \<longrightarrow> lvs_queue (ns_assigned_workers s) (assigned_list m sid))"

text \<open>Every node is either in the queue of unassigned nodes or in the set of the one scheduler it is
  assigned to.\<close>

definition nm_partition :: "(node_id \<Rightarrow> node_id option option) \<Rightarrow> node_id list \<Rightarrow> (node_id \<Rightarrow> node_id list) \<Rightarrow> bool" where
  "nm_partition asg F A \<longleftrightarrow>
     (\<forall>w. w \<in> set F \<longleftrightarrow> asg w = Some None) \<and> (\<forall>sid w. w \<in> set (A sid) \<longleftrightarrow> asg w = Some (Some sid))"

text \<open>Only a scheduler with a demand has nodes; they are as many as the demand has counted, no more than it
  asks for, and on the platforms it supports.\<close>

definition demand_met :: "(node_id \<Rightarrow> platform option) \<Rightarrow> node_id list \<Rightarrow> workers_demand \<Rightarrow> bool" where
  "demand_met pf ws d \<longleftrightarrow>
     wd_provided_workers d = length ws \<and>
     (case wd_required_workers d of None \<Rightarrow> True | Some r \<Rightarrow> length ws \<le> r) \<and>
     (\<forall>w \<in> set ws. \<exists>p \<in> set (wd_supported_platforms d). pf w = Some p)"

definition nm_demands ::
  "(node_id \<Rightarrow> platform option) \<Rightarrow> node_id set \<Rightarrow> (node_id \<times> workers_demand) list \<Rightarrow> (node_id \<Rightarrow> node_id list) \<Rightarrow> bool" where
  "nm_demands pf S D A \<longleftrightarrow>
     (\<forall>(sid, d) \<in> set D. sid \<in> S \<and> demand_met pf (A sid) d) \<and> (\<forall>sid. sid \<notin> fst ` set D \<longrightarrow> A sid = [])"

text \<open>Every node has its timer, and the sessions that can be restored belong to a node or to a
  scheduler.\<close>

definition nm_sessions ::
  "(node_id \<Rightarrow> (uuid \<times> platform \<times> timer_key) option) \<Rightarrow> (node_id \<Rightarrow> uuid option) \<Rightarrow>
   (timer_key \<Rightarrow> (node_id \<times> service_type) option) \<Rightarrow> (uuid \<Rightarrow> (node_id \<times> timer_key) option) \<Rightarrow> bool" where
  "nm_sessions info su ex dc \<longleftrightarrow>
     (\<forall>w uu p key. info w = Some (uu, p, key) \<longrightarrow> ex key = Some (w, ST_Node)) \<and>
     (\<forall>key ident service. ex key = Some (ident, service) \<longrightarrow>
        service = ST_Node \<and> (\<exists>uu p. info ident = Some (uu, p, key)) \<or>
        service = ST_Scheduler \<and> su ident \<noteq> None) \<and>
     (\<forall>uu ident key. dc uu = Some (ident, key) \<longrightarrow>
        (\<exists>p. info ident = Some (uu, p, key)) \<or> su ident = Some uu)"

definition nm_inv :: "node_manager \<Rightarrow> bool" where
  "nm_inv m \<longleftrightarrow> nm_wf m \<and> nm_partition (assignment m) (free_list m) (assigned_list m) \<and>
     nm_demands (platform_of m) (dom (nm_schedulers m)) (demand_list m) (assigned_list m) \<and>
     nm_sessions (info_of m) (scheduler_uuid m) (nm_expirations m) (nm_disconnected m)"

lemma nm_inv_new: "nm_inv node_manager_new"
  by (auto simp: nm_inv_def nm_wf_def node_manager_new_def free_list_def demand_list_def assigned_list_def assignment_def
      nm_partition_def nm_demands_def nm_sessions_def info_of_def lvs_queue_new lvm_list_new
      queue_of_queue[OF lvs_queue_new] lvm_list_new[unfolded lvm_list_def])

section \<open>Sending\<close>

lemma node_send_fields [simp]:
  "nd_assigned (snd (node_send n r)) = nd_assigned n" "node_info (snd (node_send n r)) = node_info n"
  by (auto simp: node_send_def node_info_def split: option.split)

lemma scheduler_send_fields [simp]:
  "ns_uuid (snd (scheduler_send s r)) = ns_uuid s" "ns_assigned_workers (snd (scheduler_send s r)) = ns_assigned_workers s"
  by (auto simp: scheduler_send_def split: option.split)

lemma node_send_all_fields [simp]:
  "nd_assigned (snd (node_send_all n rs)) = nd_assigned n" "node_info (snd (node_send_all n rs)) = node_info n"
  by (induction rs arbitrary: n) (auto simp: Let_def case_prod_beta)

lemma scheduler_send_all_fields [simp]:
  "ns_uuid (snd (scheduler_send_all s rs)) = ns_uuid s"
  "ns_assigned_workers (snd (scheduler_send_all s rs)) = ns_assigned_workers s"
  by (induction rs arbitrary: s) (auto simp: Let_def case_prod_beta)

section \<open>Releasing workers\<close>

lemma release_worker_spec:
  assumes un: "lvs_queue (nm_unassigned_workers m) F" and w: "nm_workers m w = Some n"
  obtains out un' and n' :: nm_node where
    "release_worker m w = Some (out, m\<lparr>nm_unassigned_workers := un', nm_workers := (nm_workers m)(w \<mapsto> n')\<rparr>)"
    "lvs_queue un' (filter (\<lambda>j. j \<noteq> w) F @ [w])" "nd_assigned n' = None" "node_info n' = node_info n"
proof -
  obtain un' where un': "lvs_insert (nm_unassigned_workers m) w = Some (w \<in> set F, un')"
    "lvs_queue un' (filter (\<lambda>j. j \<noteq> w) F @ [w])" by (rule lvs_insert_spec[OF un])
  let ?n = "n\<lparr>nd_assigned := None\<rparr>"
  have "node_info ?n = node_info n" by (simp add: node_info_def)
  then show ?thesis using that[of "fst (node_send ?n UnassignClient)" "snd (node_send ?n UnassignClient)" un'] un' w
    by (simp add: release_worker_def case_prod_beta node_info_def[of "?n"])
qed

lemma release_workers_spec:
  assumes "lvs_queue (nm_unassigned_workers m) F" "distinct ids" "set ids \<inter> set F = {}" "\<forall>w \<in> set ids. nm_workers m w \<noteq> None"
  shows "\<exists>out un' W'. release_workers m ids = Some (out, m\<lparr>nm_unassigned_workers := un', nm_workers := W'\<rparr>) \<and>
    lvs_queue un' (F @ ids) \<and> (\<forall>w. map_option node_info (W' w) = info_of m w) \<and>
    (\<forall>w. map_option nd_assigned (W' w) = (if w \<in> set ids then Some None else assignment m w))"
  using assms
proof (induction ids arbitrary: m F)
  case Nil
  then show ?case by (intro exI[of _ "[]"] exI[of _ "nm_unassigned_workers m"] exI[of _ "nm_workers m"])
      (simp add: info_of_def assignment_def)
next
  case (Cons w ids)
  obtain n where n: "nm_workers m w = Some n" using Cons.prems(4) by auto
  obtain out un1 n1 where 1:
    "release_worker m w = Some (out, m\<lparr>nm_unassigned_workers := un1, nm_workers := (nm_workers m)(w \<mapsto> n1)\<rparr>)"
    "lvs_queue un1 (filter (\<lambda>j. j \<noteq> w) F @ [w])" "nd_assigned n1 = None" "node_info n1 = node_info n"
    by (rule release_worker_spec[OF Cons.prems(1) n])
  let ?m = "m\<lparr>nm_unassigned_workers := un1, nm_workers := (nm_workers m)(w \<mapsto> n1)\<rparr>"
  have F: "filter (\<lambda>j. j \<noteq> w) F = F" using Cons.prems(3) by (auto simp: filter_id_conv)
  obtain outs un2 W2 where 2: "release_workers ?m ids = Some (outs, ?m\<lparr>nm_unassigned_workers := un2, nm_workers := W2\<rparr>)"
    "lvs_queue un2 ((F @ [w]) @ ids)" "\<forall>v. map_option node_info (W2 v) = info_of ?m v"
    "\<forall>v. map_option nd_assigned (W2 v) = (if v \<in> set ids then Some None else assignment ?m v)"
    using Cons.IH[of ?m "F @ [w]"] 1(2) Cons.prems unfolding F by fastforce
  have "release_workers m (w # ids) = Some (out @ outs, m\<lparr>nm_unassigned_workers := un2, nm_workers := W2\<rparr>)"
    using 1(1) 2(1) by simp
  moreover have "\<forall>v. map_option node_info (W2 v) = info_of m v"
    using 2(3) 1(4) n by (auto simp: info_of_def)
  moreover have "\<forall>v. map_option nd_assigned (W2 v) = (if v \<in> set (w # ids) then Some None else assignment m v)"
    using 2(4) 1(3) by (auto simp: assignment_def)
  moreover have "lvs_queue un2 (F @ w # ids)" using 2(2) by simp
  ultimately show ?case by blast
qed

section \<open>Changes that keep the invariant\<close>

lemma nm_invI:
  assumes "lvs_queue (nm_unassigned_workers m) F" "lvm_list (nm_workers_demands_queue m) D"
    "\<And>sid s. nm_schedulers m sid = Some s \<Longrightarrow> lvs_queue (ns_assigned_workers s) (A sid)"
    "\<And>sid. nm_schedulers m sid = None \<Longrightarrow> A sid = []"
    "nm_partition (assignment m) F A" "nm_demands (platform_of m) (dom (nm_schedulers m)) D A"
    "nm_sessions (info_of m) (scheduler_uuid m) (nm_expirations m) (nm_disconnected m)"
  shows "nm_inv m \<and> free_list m = F \<and> demand_list m = D \<and> assigned_list m = A"
proof -
  have "free_list m = F" using assms(1) by (simp add: free_list_def)
  moreover have "demand_list m = D" using assms(2) by (simp add: demand_list_def lvm_list_def)
  moreover have "assigned_list m = A"
    using assms(3,4) by (fastforce simp: assigned_list_def split: option.split)
  ultimately show ?thesis using assms by (auto simp: nm_inv_def nm_wf_def)
qed

lemma nm_inv_lists:
  assumes "nm_inv m"
  shows "lvs_queue (nm_unassigned_workers m) (free_list m)" "lvm_list (nm_workers_demands_queue m) (demand_list m)"
    "nm_schedulers m sid = Some s \<Longrightarrow> lvs_queue (ns_assigned_workers s) (assigned_list m sid)"
    "nm_schedulers m sid = None \<Longrightarrow> assigned_list m sid = []"
    "nm_partition (assignment m) (free_list m) (assigned_list m)"
    "nm_demands (platform_of m) (dom (nm_schedulers m)) (demand_list m) (assigned_list m)"
    "nm_sessions (info_of m) (scheduler_uuid m) (nm_expirations m) (nm_disconnected m)"
  using assms by (auto simp: nm_inv_def nm_wf_def assigned_list_def)

lemma nm_views_flag [simp]:
  "free_list (m\<lparr>nm_need_process_queue := b\<rparr>) = free_list m"
  "assigned_list (m\<lparr>nm_need_process_queue := b\<rparr>) = assigned_list m"
  "demand_list (m\<lparr>nm_need_process_queue := b\<rparr>) = demand_list m"
  "assignment (m\<lparr>nm_need_process_queue := b\<rparr>) = assignment m"
  "platform_of (m\<lparr>nm_need_process_queue := b\<rparr>) = platform_of m"
  "info_of (m\<lparr>nm_need_process_queue := b\<rparr>) = info_of m"
  "scheduler_uuid (m\<lparr>nm_need_process_queue := b\<rparr>) = scheduler_uuid m"
  by (simp_all add: free_list_def demand_list_def assigned_list_def assignment_def
      platform_of_def info_of_def scheduler_uuid_def fun_eq_iff)

lemma nm_inv_flag [simp]: "nm_inv (m\<lparr>nm_need_process_queue := b\<rparr>) = nm_inv m"
  by (simp add: nm_inv_def nm_wf_def)

text \<open>A node or scheduler whose connection changes.\<close>

lemma nm_inv_node_write:
  assumes "nm_inv m" "nm_workers m w = Some n" "nd_assigned n' = nd_assigned n" "node_info n' = node_info n"
    "nm_sessions (info_of m) (scheduler_uuid m) (nm_expirations m) dc"
  shows "nm_inv (m\<lparr>nm_disconnected := dc, nm_workers := (nm_workers m)(w \<mapsto> n')\<rparr>)"
proof -
  let ?m = "m\<lparr>nm_disconnected := dc, nm_workers := (nm_workers m)(w \<mapsto> n')\<rparr>"
  have v: "assignment ?m = assignment m" "info_of ?m = info_of m" "scheduler_uuid ?m = scheduler_uuid m"
    using assms(2-4) by (auto simp: assignment_def info_of_def scheduler_uuid_def fun_eq_iff)
  then have "platform_of ?m = platform_of m" by (simp add: platform_of_info fun_eq_iff)
  then show ?thesis
    using nm_invI[of ?m "free_list m" "demand_list m" "assigned_list m"] nm_inv_lists[OF assms(1)] assms(5) v by simp
qed

lemma nm_inv_scheduler_write:
  assumes "nm_inv m" "nm_schedulers m sid = Some s" "ns_assigned_workers s' = ns_assigned_workers s" "ns_uuid s' = ns_uuid s"
    "nm_sessions (info_of m) (scheduler_uuid m) ex dc"
  shows "nm_inv (m\<lparr>nm_expirations := ex, nm_disconnected := dc, nm_schedulers := (nm_schedulers m)(sid \<mapsto> s')\<rparr>)"
proof -
  let ?m = "m\<lparr>nm_expirations := ex, nm_disconnected := dc, nm_schedulers := (nm_schedulers m)(sid \<mapsto> s')\<rparr>"
  have v: "assignment ?m = assignment m" "info_of ?m = info_of m" "scheduler_uuid ?m = scheduler_uuid m"
    using assms(2-4) by (auto simp: assignment_def info_of_def scheduler_uuid_def fun_eq_iff)
  then have "platform_of ?m = platform_of m" by (simp add: platform_of_info fun_eq_iff)
  moreover have "dom (nm_schedulers ?m) = dom (nm_schedulers m)" using assms(2) by auto
  moreover have "lvs_queue (ns_assigned_workers s1) (assigned_list m sid1)" if "nm_schedulers ?m sid1 = Some s1" for sid1 s1
    using that assms(2,3) nm_inv_lists(3)[OF assms(1)] by (auto split: if_splits)
  moreover have "assigned_list m sid1 = []" if "nm_schedulers ?m sid1 = None" for sid1
    using that nm_inv_lists(4)[OF assms(1)] by (auto split: if_splits)
  ultimately show ?thesis
    using nm_invI[of ?m "free_list m" "demand_list m" "assigned_list m"] nm_inv_lists[OF assms(1)] assms(5) v by simp
qed

lemma sessions_forget:
  assumes "nm_sessions info su ex dc"
  shows "nm_sessions info su ex (dc(uu := None))"
  using assms unfolding nm_sessions_def by simp

section \<open>A demand is made or given back\<close>

definition give_back :: "node_manager \<Rightarrow> node_id \<Rightarrow> (node_id \<times> workers_demand) list \<Rightarrow> node_manager \<Rightarrow> bool" where
  "give_back m ident X m' \<longleftrightarrow> nm_inv m' \<and> free_list m' = free_list m @ assigned_list m ident \<and>
     demand_list m' = filter (\<lambda>e. fst e \<noteq> ident) (demand_list m) @ X \<and>
     assigned_list m' = (assigned_list m)(ident := [])"

lemma demands_give_back:
  assumes "nm_demands pf S D A" "distinct (map fst D)" "ident \<in> S" "X = [] \<or> (\<exists>d. X = [(ident, d)] \<and> wd_provided_workers d = 0)"
  shows "nm_demands pf S (filter (\<lambda>e. fst e \<noteq> ident) D @ X) (A(ident := []))"
proof -
  have "A sid = []" if "sid \<notin> fst ` set (filter (\<lambda>e. fst e \<noteq> ident) D @ X)" "sid \<noteq> ident" for sid
    using assms(1) that unfolding nm_demands_def by force
  moreover have "sid \<in> S \<and> demand_met pf ((A(ident := [])) sid) d" if "(sid, d) \<in> set (filter (\<lambda>e. fst e \<noteq> ident) D @ X)" for sid d
    using assms that unfolding nm_demands_def demand_met_def by (fastforce split: option.split)
  ultimately show ?thesis unfolding nm_demands_def by (auto simp del: set_append set_filter)
qed

lemma give_back_spec:
  assumes inv: "nm_inv m" and s: "nm_schedulers m ident = Some s"
    and dq: "lvm_list dq (filter (\<lambda>e. fst e \<noteq> ident) (demand_list m) @ X)"
    and X: "X = [] \<or> (\<exists>d. X = [(ident, d)] \<and> wd_provided_workers d = 0)"
  shows "\<exists>out m'. (case map_of (demand_list m) ident of None \<Rightarrow> Some ([], m\<lparr>nm_workers_demands_queue := dq\<rparr>)
      | Some _ \<Rightarrow> take_assigned (m\<lparr>nm_workers_demands_queue := dq\<rparr>) ident s) = Some (out, m') \<and> give_back m ident X m'"
proof -
  note L = nm_inv_lists[OF inv]
  let ?A = "assigned_list m" and ?D = "filter (\<lambda>e. fst e \<noteq> ident) (demand_list m) @ X"
  have D: "nm_demands (platform_of m) (dom (nm_schedulers m)) ?D (?A(ident := []))"
    using demands_give_back[OF L(6) lvm_list_facts(1)[OF L(2)] _ X] s by auto
  show ?thesis
  proof (cases "map_of (demand_list m) ident")
    case None
    then have none: "?A ident = []" using L(6) unfolding nm_demands_def by (metis map_of_eq_None_iff)
    let ?m = "m\<lparr>nm_workers_demands_queue := dq\<rparr>"
    have v: "assignment ?m = assignment m" "info_of ?m = info_of m" "platform_of ?m = platform_of m" "scheduler_uuid ?m = scheduler_uuid m"
      by (auto simp: assignment_def info_of_def scheduler_uuid_def platform_of_def fun_eq_iff)
    have "?A(ident := []) = ?A" using none by (simp add: fun_upd_idem)
    then have "give_back m ident X ?m" unfolding give_back_def
      using nm_invI[of ?m "free_list m" ?D ?A] L D dq none by (simp add: v)
    then show ?thesis using None by simp
  next
    case (Some d)
    let ?m = "m\<lparr>nm_workers_demands_queue := dq, nm_schedulers := (nm_schedulers m)(ident \<mapsto> s\<lparr>ns_assigned_workers := lvs_new\<rparr>)\<rparr>"
    have qs: "lvs_queue (ns_assigned_workers s) (?A ident)" by (rule L(3)[OF s])
    have disj: "set (?A ident) \<inter> set (free_list m) = {}" using L(5) by (auto simp: nm_partition_def)
    have alive: "\<forall>w \<in> set (?A ident). nm_workers m w \<noteq> None" using L(5) by (auto simp: nm_partition_def assignment_def)
    have un: "lvs_queue (nm_unassigned_workers ?m) (free_list m)" using L(1) by simp
    obtain out un' W' where r: "release_workers ?m (?A ident) = Some (out, ?m\<lparr>nm_unassigned_workers := un', nm_workers := W'\<rparr>)"
      "lvs_queue un' (free_list m @ ?A ident)" "\<And>w. map_option node_info (W' w) = info_of ?m w"
      "\<And>w. map_option nd_assigned (W' w) = (if w \<in> set (?A ident) then Some None else assignment ?m w)"
      using release_workers_spec[OF un lvs_queue_facts(1)[OF qs] disj] alive by auto
    let ?m' = "?m\<lparr>nm_unassigned_workers := un', nm_workers := W'\<rparr>"
    have v: "assignment ?m' w = (if w \<in> set (?A ident) then Some None else assignment m w)" "info_of ?m' = info_of m"
      "scheduler_uuid ?m' = scheduler_uuid m" for w
      using r(3,4) s by (auto simp: assignment_def info_of_def scheduler_uuid_def fun_eq_iff)
    then have pf: "platform_of ?m' = platform_of m" by (simp add: platform_of_info fun_eq_iff)
    have part: "nm_partition (assignment ?m') (free_list m @ ?A ident) (?A(ident := []))"
      using L(5) unfolding nm_partition_def v(1) by auto
    have "dom (nm_schedulers ?m') = dom (nm_schedulers m)" using s by auto
    then have "nm_inv ?m' \<and> free_list ?m' = free_list m @ ?A ident \<and> demand_list ?m' = ?D \<and> assigned_list ?m' = ?A(ident := [])"
      using L D dq r(2) part pf v(2,3) lvs_queue_new
      by (intro nm_invI) (auto split: if_splits)
    then have "give_back m ident X ?m'" unfolding give_back_def by blast
    moreover have "take_assigned (m\<lparr>nm_workers_demands_queue := dq\<rparr>) ident s = Some (out, ?m')"
      using r(1) lvs_into_iter_spec[OF qs] by (simp add: take_assigned_def)
    ultimately show ?thesis using Some by auto
  qed
qed

section \<open>A node is lost\<close>

lemma sessions_expire:
  assumes "nm_sessions info su ex dc" "info w = Some (uu, p, key)"
  shows "nm_sessions (info(w := None)) su (ex(key := None)) (dc(uu := None))"
  using assms unfolding nm_sessions_def by (simp split del: if_split) (smt (verit) fun_upd_apply option.distinct(1) option.inject prod.inject)

lemma length_filter_mem: "distinct xs \<Longrightarrow> x \<in> set xs \<Longrightarrow> length (filter (\<lambda>j. j \<noteq> x) xs) = length xs - 1"
  using distinct_remove1_removeAll[of xs x] length_remove1[of x xs] removeAll_filter_not_eq[of x]
  by (simp add: eq_commute[of x])

definition count_down :: "node_id \<Rightarrow> node_id \<times> workers_demand \<Rightarrow> node_id \<times> workers_demand" where
  "count_down sid = (\<lambda>(j, d). (j, if j = sid then d\<lparr>wd_provided_workers := u32_sub (wd_provided_workers d) 1\<rparr> else d))"

lemma demands_leave:
  assumes D: "nm_demands pf S D A" and w: "w \<in> set (A sid)" "\<And>j. distinct (A j)" "\<And>j. w \<in> set (A j) \<Longrightarrow> j = sid"
  shows "nm_demands (pf(w := None)) S (map (count_down sid) D) (A(sid := filter (\<lambda>j. j \<noteq> w) (A sid)))"
proof -
  have met: "demand_met (pf(w := None)) (filter (\<lambda>j. j \<noteq> w) (A sid)) (d\<lparr>wd_provided_workers := u32_sub (wd_provided_workers d) 1\<rparr>)"
    if "demand_met pf (A sid) d" for d
  proof -
    have "1 \<le> length (A sid)" using w(1) by (cases "A sid") auto
    then show ?thesis using that length_filter_mem[OF w(2,1)]
      by (auto simp: demand_met_def u32_sub_def split: option.split)
  qed
  have other: "demand_met (pf(w := None)) (A j) d" if "demand_met pf (A j) d" "j \<noteq> sid" for j d
    using that w(3) unfolding demand_met_def by (metis fun_upd_other)
  have keys: "fst ` set (map (count_down sid) D) = fst ` set D"
    by (force simp: count_down_def image_image case_prod_beta)
  have empty: "A j = []" if "j \<notin> fst ` set D" for j using D that by (simp add: nm_demands_def)
  have all: "j \<in> S \<and> demand_met (pf(w := None)) ((A(sid := filter (\<lambda>j. j \<noteq> w) (A sid))) j) d"
    if mem: "(j, d) \<in> set (map (count_down sid) D)" for j d
  proof -
    obtain d0 where d0: "(j, d0) \<in> set D"
      "d = (if j = sid then d0\<lparr>wd_provided_workers := u32_sub (wd_provided_workers d0) 1\<rparr> else d0)"
      using mem by (auto simp: count_down_def)
    then show ?thesis using D met other by (auto simp: nm_demands_def)
  qed
  have "(A(sid := filter (\<lambda>j. j \<noteq> w) (A sid))) j = []" if "j \<notin> fst ` set D" for j using empty that w(1) by auto
  then show ?thesis using all unfolding nm_demands_def keys by blast
qed

lemma process_node_disconnection_spec:
  assumes inv: "nm_inv m" and n: "nm_workers m w = Some n"
  defines "m0 \<equiv> m\<lparr>nm_expirations := (nm_expirations m)(nd_expiration_key n := None)\<rparr>"
  shows "\<exists>out m'. process_node_disconnection m0 w = Some (out, m') \<and> nm_inv m' \<and> nm_workers m' = (nm_workers m)(w := None)"
proof -
  note L = nm_inv_lists[OF inv]
  let ?A = "assigned_list m"
  let ?m = "m0\<lparr>nm_workers := (nm_workers m)(w := None), nm_disconnected := (nm_disconnected m)(nd_uuid n := None)\<rparr>"
  have info: "info_of m w = Some (nd_uuid n, nd_platform n, nd_expiration_key n)" using n by (simp add: info_of_def node_info_def)
  note S = sessions_expire[OF L(7) info]
  have v: "assignment m' = (assignment m)(w := None) \<and> info_of m' = (info_of m)(w := None) \<and>
      platform_of m' = (platform_of m)(w := None)" if "nm_workers m' = (nm_workers m)(w := None)" for m'
    using that by (auto simp: assignment_def info_of_def platform_of_def fun_eq_iff)
  have asg: "assignment m w = Some (nd_assigned n)" using n by (simp add: assignment_def)
  show ?thesis
  proof (cases "nd_assigned n")
    case None
    obtain un' where un': "lvs_remove (nm_unassigned_workers m) w = Some (w \<in> set (free_list m), un')"
      "lvs_queue un' (filter (\<lambda>j. j \<noteq> w) (free_list m))" by (rule lvs_remove_spec[OF L(1)])
    let ?m' = "?m\<lparr>nm_unassigned_workers := un'\<rparr>"
    have no: "w \<notin> set (?A sid)" for sid using L(5) asg None by (auto simp: nm_partition_def)
    have part: "nm_partition (assignment ?m') (filter (\<lambda>j. j \<noteq> w) (free_list m)) ?A"
      using L(5) no v[of ?m'] by (auto simp: nm_partition_def)
    have met: "demand_met ((platform_of m)(w := None)) (?A sid) d" if "demand_met (platform_of m) (?A sid) d" for sid d
      using that no unfolding demand_met_def by (metis fun_upd_other)
    have su: "scheduler_uuid ?m' = scheduler_uuid m" by (simp add: scheduler_uuid_def m0_def fun_eq_iff)
    have dem: "nm_demands (platform_of ?m') (dom (nm_schedulers ?m')) (demand_list m) ?A"
      using L(6) met v[of ?m'] by (auto simp: nm_demands_def m0_def)
    have "nm_inv ?m'"
      using nm_invI[of ?m' "filter (\<lambda>j. j \<noteq> w) (free_list m)" "demand_list m" ?A] un'(2) L part dem v[of ?m'] S su
      by (simp add: m0_def)
    then show ?thesis using n None un'(1) by (auto simp: process_node_disconnection_def m0_def)
  next
    case (Some sid)
    have mem: "w \<in> set (?A sid)" using L(5) asg Some by (simp add: nm_partition_def)
    then obtain s where s: "nm_schedulers m sid = Some s" using L(4)[of sid] by (cases "nm_schedulers m sid") auto
    obtain ws where ws: "lvs_remove (ns_assigned_workers s) w = Some (w \<in> set (?A sid), ws)"
      "lvs_queue ws (filter (\<lambda>j. j \<noteq> w) (?A sid))" by (rule lvs_remove_spec[OF L(3)[OF s]])
    obtain dq where dq: "lvm_get_mut (\<lambda>d. d\<lparr>wd_provided_workers := u32_sub (wd_provided_workers d) 1\<rparr>)
        (nm_workers_demands_queue m) sid = Some (map_of (demand_list m) sid, dq)"
      "lvm_list dq (map (count_down sid) (demand_list m))"
      unfolding count_down_def by (rule lvm_list_get_mut[OF L(2)])
    let ?s = "s\<lparr>ns_assigned_workers := ws\<rparr>"
    let ?m' = "?m\<lparr>nm_workers_demands_queue := dq,
        nm_schedulers := (nm_schedulers m)(sid \<mapsto> snd (scheduler_send ?s (NP_Disconnect w))), nm_need_process_queue := True\<rparr>"
    let ?A' = "?A(sid := filter (\<lambda>j. j \<noteq> w) (?A sid))"
    have only: "j = sid" if "w \<in> set (?A j)" for j using L(5) that asg Some by (auto simp: nm_partition_def)
    have dist: "distinct (?A j)" for j
      using lvs_queue_facts(1)[OF L(3)[of j]] L(4)[of j] by (cases "nm_schedulers m j") auto
    have part: "nm_partition (assignment ?m') (free_list m) ?A'"
      using L(5) only asg Some v[of ?m'] by (auto simp: nm_partition_def)
    have dom: "dom (nm_schedulers ?m') = dom (nm_schedulers m)" using s by auto
    have dem: "nm_demands (platform_of ?m') (dom (nm_schedulers ?m')) (map (count_down sid) (demand_list m)) ?A'"
      using demands_leave[OF L(6) mem dist only] v[of ?m'] dom by simp
    have su: "scheduler_uuid ?m' = scheduler_uuid m" using s by (auto simp: scheduler_uuid_def m0_def fun_eq_iff)
    have q: "lvs_queue (ns_assigned_workers s1) (?A' j)" if "nm_schedulers ?m' j = Some s1" for j s1
      using that L(3) ws(2) by (auto split: if_splits)
    have e: "?A' j = []" if "nm_schedulers ?m' j = None" for j using that L(4) by (auto split: if_splits)
    have "nm_inv ?m'" using nm_invI[of ?m' "free_list m" "map (count_down sid) (demand_list m)" ?A', OF _ _ q e part dem]
        L(1) dq(2) v[of ?m'] S su by (simp add: m0_def)
    moreover have "process_node_disconnection m0 w =
        Some (fst (scheduler_send ?s (NP_Disconnect w)) @ [Cancel (nd_connection n)], ?m')"
      using n Some s ws(1) dq(1) mem by (simp add: process_node_disconnection_def m0_def case_prod_beta Let_def)
    ultimately show ?thesis by auto
  qed
qed

lemma process_expiration_inv:
  assumes inv: "nm_inv m"
  shows "\<exists>out m'. process_expiration m key = Some (out, m') \<and> nm_inv m'"
proof (cases "nm_expirations m key")
  case None
  then show ?thesis using inv by (simp add: process_expiration_def)
next
  case (Some e)
  obtain ident service where e: "e = (ident, service)" by (cases e)
  note L = nm_inv_lists[OF inv]
  from L(7) Some e consider uu p where "service = ST_Node" "info_of m ident = Some (uu, p, key)"
    | "service = ST_Scheduler" "scheduler_uuid m ident \<noteq> None" unfolding nm_sessions_def by blast
  then show ?thesis
  proof cases
    case 1
    then obtain n where n: "nm_workers m ident = Some n" "nd_expiration_key n = key" by (auto simp: info_of_def node_info_def)
    show ?thesis using process_node_disconnection_spec[OF inv n(1)] Some e 1 n(2)
      by (auto simp: process_expiration_def)
  next
    case 2
    let ?m = "m\<lparr>nm_expirations := (nm_expirations m)(key := None)\<rparr>"
    have "nm_sessions (info_of m) (scheduler_uuid m) ((nm_expirations m)(key := None)) (nm_disconnected m)"
      using L(7) Some e 2 unfolding nm_sessions_def by (auto split: if_splits)
    moreover have "assignment ?m = assignment m" "info_of ?m = info_of m" "platform_of ?m = platform_of m" "scheduler_uuid ?m = scheduler_uuid m"
      by (auto simp: assignment_def info_of_def platform_of_def scheduler_uuid_def fun_eq_iff)
    ultimately have "nm_inv ?m" using nm_invI[of ?m "free_list m" "demand_list m" "assigned_list m"] L by simp
    then show ?thesis using Some e 2 by (auto simp: process_expiration_def Let_def split: option.split)
  qed
qed

section \<open>Orderly events\<close>

text \<open>The environment names free keys when it inserts, a session is restored by a process of the kind that
  left it and, for a scheduler, before its timer has run out, the order of iteration covers the schedulers that have a
  demand, and no counter of a demand can reach \<open>2 ^ 32\<close>.\<close>

fun nm_orderly :: "node_manager \<Rightarrow> nm_event \<Rightarrow> bool" where
  "nm_orderly m (NV_Node (ND_Connect uu name platform subworkers address conn new_id new_key)) \<longleftrightarrow>
     (case nm_disconnected m uu of
        Some (ident, key) \<Rightarrow> nm_expirations m key = Some (ident, ST_Node)
      | None \<Rightarrow> nm_workers m new_id = None \<and> nm_expirations m new_key = None)"
| "nm_orderly m (NV_Scheduler (NS_Connect uu name address conn new_id)) \<longleftrightarrow>
     (case nm_disconnected m uu of
        Some (ident, key) \<Rightarrow> nm_expirations m key = Some (ident, ST_Scheduler)
      | None \<Rightarrow> nm_schedulers m new_id = None)"
| "nm_orderly m (NV_Scheduler (NS_Disconnect ident key)) \<longleftrightarrow> nm_expirations m key = None"
| "nm_orderly m (NV_Queue order) \<longleftrightarrow>
     distinct order \<and> fst ` set (demand_list m) \<subseteq> set order \<and>
     (\<forall>(sid, d) \<in> set (demand_list m). fits 32 (wd_provided_workers d + length (free_list m)))"
| "nm_orderly m _ \<longleftrightarrow> True"

lemma restore_node_inv:
  assumes inv: "nm_inv m" and dc: "nm_disconnected m uu = Some (ident, key)" and ex: "nm_expirations m key = Some (ident, ST_Node)"
  shows "\<exists>out m'. restore_node_session (m\<lparr>nm_disconnected := (nm_disconnected m)(uu := None)\<rparr>) ident key conn = Some (out, m') \<and> nm_inv m'"
proof -
  note L = nm_inv_lists[OF inv]
  obtain n where n: "nm_workers m ident = Some n" using L(7) ex by (fastforce simp: nm_sessions_def info_of_def)
  let ?n = "n\<lparr>nd_disconnect_buffer := None, nd_connection := conn\<rparr>"
  let ?b = "case nd_disconnect_buffer n of Some b \<Rightarrow> b | None \<Rightarrow> []"
  let ?n' = "snd (node_send_all ?n ?b)"
  have "nm_inv (m\<lparr>nm_disconnected := (nm_disconnected m)(uu := None), nm_workers := (nm_workers m)(ident \<mapsto> ?n')\<rparr>)"
    by (rule nm_inv_node_write[OF inv n]) (auto simp: node_info_def[of n] node_info_def[of ?n] intro: sessions_forget[OF L(7)])
  then show ?thesis using n ex by (simp add: restore_node_session_def case_prod_beta Let_def)
qed

lemma restore_scheduler_inv:
  assumes inv: "nm_inv m" and dc: "nm_disconnected m uu = Some (ident, key)" and ex: "nm_expirations m key = Some (ident, ST_Scheduler)"
  shows "\<exists>out m'. restore_scheduler_session (m\<lparr>nm_disconnected := (nm_disconnected m)(uu := None)\<rparr>) ident key conn = Some (out, m') \<and> nm_inv m'"
proof -
  note L = nm_inv_lists[OF inv]
  obtain s where s: "nm_schedulers m ident = Some s" using L(7) ex by (fastforce simp: nm_sessions_def scheduler_uuid_def)
  let ?s = "s\<lparr>ns_disconnect_buffer := None, ns_connection := conn\<rparr>"
  let ?b = "case ns_disconnect_buffer s of Some b \<Rightarrow> b | None \<Rightarrow> []"
  let ?s' = "snd (scheduler_send_all (snd (scheduler_send ?s RestoredSession)) ?b)"
  have "nm_sessions (info_of m) (scheduler_uuid m) ((nm_expirations m)(key := None)) (nm_disconnected m)"
    using L(7) ex unfolding nm_sessions_def by (auto split: if_splits)
  then have "nm_inv (m\<lparr>nm_expirations := (nm_expirations m)(key := None),
      nm_disconnected := (nm_disconnected m)(uu := None), nm_schedulers := (nm_schedulers m)(ident \<mapsto> ?s')\<rparr>)"
    by (intro nm_inv_scheduler_write[OF inv s]) (auto intro: sessions_forget)
  moreover have "m\<lparr>nm_expirations := (nm_expirations m)(key := None), nm_disconnected := (nm_disconnected m)(uu := None),
      nm_schedulers := (nm_schedulers m)(ident \<mapsto> ?s')\<rparr> = m\<lparr>nm_disconnected := (nm_disconnected m)(uu := None),
      nm_expirations := (nm_expirations m)(key := None), nm_schedulers := (nm_schedulers m)(ident \<mapsto> ?s')\<rparr>" by simp
  ultimately show ?thesis using s ex by (simp add: restore_scheduler_session_def case_prod_beta Let_def)
qed

lemma new_node_inv:
  assumes inv: "nm_inv m" and fresh: "nm_workers m w = None" "nm_expirations m key = None"
    and n: "nd_assigned n = None" "nd_expiration_key n = key" and un: "lvs_queue un (filter (\<lambda>j. j \<noteq> w) (free_list m) @ [w])"
  shows "nm_inv (m\<lparr>nm_expirations := (nm_expirations m)(key \<mapsto> (w, ST_Node)), nm_workers := (nm_workers m)(w \<mapsto> n),
    nm_unassigned_workers := un\<rparr>)" (is "nm_inv ?m")
proof -
  note L = nm_inv_lists[OF inv]
  have none: "assignment m w = None" "info_of m w = None" using fresh by (auto simp: assignment_def info_of_def)
  have v: "assignment ?m = (assignment m)(w \<mapsto> None)" "info_of ?m = (info_of m)(w \<mapsto> node_info n)"
    "platform_of ?m = (platform_of m)(w \<mapsto> nd_platform n)" "scheduler_uuid ?m = scheduler_uuid m"
    using n by (auto simp: assignment_def info_of_def platform_of_def scheduler_uuid_def fun_eq_iff)
  have nf: "w \<notin> set (free_list m)" and no: "w \<notin> set (assigned_list m sid)" for sid
    using L(5) none(1) by (auto simp: nm_partition_def)
  have "filter (\<lambda>j. j \<noteq> w) (free_list m) = free_list m" using nf by (auto simp: filter_id_conv)
  then have q: "lvs_queue (nm_unassigned_workers ?m) (free_list m @ [w])" using un by simp
  have part: "nm_partition (assignment ?m) (free_list m @ [w]) (assigned_list m)"
    using L(5) none(1) no unfolding v by (auto simp: nm_partition_def)
  have met: "demand_met (platform_of ?m) (assigned_list m sid) d" if "demand_met (platform_of m) (assigned_list m sid) d" for sid d
    using that no unfolding demand_met_def v by (metis fun_upd_other)
  have dem: "nm_demands (platform_of ?m) (dom (nm_schedulers ?m)) (demand_list m) (assigned_list m)"
    using L(6) met by (auto simp: nm_demands_def)
  have ses: "nm_sessions (info_of ?m) (scheduler_uuid ?m) (nm_expirations ?m) (nm_disconnected ?m)"
    using L(7) none(2) fresh(2) n(2) unfolding v nm_sessions_def
    by (simp add: node_info_def) (metis option.distinct(1) option.inject prod.inject)
  show ?thesis using nm_invI[of ?m "free_list m @ [w]" "demand_list m" "assigned_list m", OF q _ _ _ part dem ses] L by simp
qed

lemma process_node_inv:
  assumes inv: "nm_inv m" and ord: "nm_orderly m (NV_Node e)"
  shows "\<exists>out m'. process_node m e = Some (out, m') \<and> nm_inv m'"
proof (cases e)
  case (ND_Connect uu name platform subworkers address conn new_id new_key)
  show ?thesis
  proof (cases "nm_disconnected m uu")
    case None
    obtain un where un: "lvs_insert (nm_unassigned_workers m) new_id = Some (new_id \<in> set (free_list m), un)"
      "lvs_queue un (filter (\<lambda>j. j \<noteq> new_id) (free_list m) @ [new_id])"
      by (rule lvs_insert_spec[OF nm_inv_lists(1)[OF inv]])
    show ?thesis using None ND_Connect ord un(1) new_node_inv[OF inv _ _ _ _ un(2)] by (simp add: Let_def)
  next
    case (Some r)
    then show ?thesis using restore_node_inv[OF inv, of uu] ord ND_Connect by (cases r) simp
  qed
next
  case (ND_Disconnect ident)
  note L = nm_inv_lists[OF inv]
  have ses: "nm_sessions (info_of m) (scheduler_uuid m) (nm_expirations m)
      ((nm_disconnected m)(nd_uuid n \<mapsto> (ident, nd_expiration_key n)))" if "nm_workers m ident = Some n" for n
    using L(7) that unfolding nm_sessions_def by (auto simp: info_of_def node_info_def)
  show ?thesis
  proof (cases "nm_workers m ident")
    case (Some n)
    have "nm_inv (m\<lparr>nm_disconnected := (nm_disconnected m)(nd_uuid n \<mapsto> (ident, nd_expiration_key n)),
        nm_workers := (nm_workers m)(ident \<mapsto> n\<lparr>nd_disconnect_buffer := Some []\<rparr>)\<rparr>)"
      by (rule nm_inv_node_write[OF inv Some _ _ ses[OF Some]]) (simp_all add: node_info_def)
    then show ?thesis using ND_Disconnect Some by simp
  qed (use inv ND_Disconnect in simp)
next
  case (ND_Message ident msg)
  have "nm_expirations m (nd_expiration_key n) \<noteq> None" if "nm_workers m ident = Some n" for n
  proof -
    have "info_of m ident = Some (nd_uuid n, nd_platform n, nd_expiration_key n)" using that by (simp add: info_of_def node_info_def)
    then show ?thesis using nm_inv_lists(7)[OF inv] unfolding nm_sessions_def by blast
  qed
  then show ?thesis using inv ND_Message by (cases msg; cases "nm_workers m ident") auto
qed

lemma sessions_new_scheduler:
  assumes "nm_sessions info su ex dc" "su sid = None"
  shows "nm_sessions info (su(sid \<mapsto> uu)) ex dc"
proof -
  have "(su(sid \<mapsto> uu)) j = Some u" if "su j = Some u" for j u using that assms(2) by auto
  then have "su j = Some u \<Longrightarrow> (su(sid \<mapsto> uu)) j = Some u" "su j \<noteq> None \<Longrightarrow> (su(sid \<mapsto> uu)) j \<noteq> None" for j u by auto
  then show ?thesis using assms(1) unfolding nm_sessions_def by blast
qed

lemma process_scheduler_inv:
  assumes inv: "nm_inv m" and ord: "nm_orderly m (NV_Scheduler e)"
  shows "\<exists>out m'. process_scheduler m e = Some (out, m') \<and> nm_inv m'"
proof (cases e)
  case (NS_Connect uu name address conn new_id)
  note L = nm_inv_lists[OF inv]
  show ?thesis
  proof (cases "nm_disconnected m uu")
    case None
    let ?s = "snd (scheduler_send \<lparr>ns_uuid = uu, ns_name = name, ns_assigned_workers = lvs_new, ns_address = address,
                            ns_connection = conn, ns_disconnect_buffer = None\<rparr> CreatedSession)"
    let ?m = "m\<lparr>nm_schedulers := (nm_schedulers m)(new_id \<mapsto> ?s)\<rparr>"
    have fresh: "nm_schedulers m new_id = None" using ord None NS_Connect by simp
    have v: "assignment ?m = assignment m" "info_of ?m = info_of m" "platform_of ?m = platform_of m"
      "scheduler_uuid ?m = (scheduler_uuid m)(new_id \<mapsto> uu)" "dom (nm_schedulers ?m) = insert new_id (dom (nm_schedulers m))"
      by (auto simp: assignment_def info_of_def platform_of_def scheduler_uuid_def fun_eq_iff)
    have q: "lvs_queue (ns_assigned_workers s) (assigned_list m sid)" if "nm_schedulers ?m sid = Some s" for sid s
      using that L(3) L(4)[OF fresh] lvs_queue_new by (auto split: if_splits)
    have ses: "nm_sessions (info_of ?m) (scheduler_uuid ?m) (nm_expirations ?m) (nm_disconnected ?m)"
      using sessions_new_scheduler[OF L(7)] fresh by (simp add: v) (simp add: scheduler_uuid_def)
    have dem: "nm_demands (platform_of ?m) (dom (nm_schedulers ?m)) (demand_list m) (assigned_list m)"
      using L(6) unfolding v by (auto simp: nm_demands_def)
    have e: "assigned_list m sid = []" if "nm_schedulers ?m sid = None" for sid using that L(4) by (simp split: if_splits)
    have "nm_inv ?m"
      using nm_invI[of ?m "free_list m" "demand_list m" "assigned_list m", OF _ _ q e _ dem ses] L(1,2,5) v(1) by simp
    then show ?thesis using None NS_Connect by (simp add: Let_def case_prod_beta)
  next
    case (Some r)
    then show ?thesis using restore_scheduler_inv[OF inv, of uu] ord NS_Connect by (cases r) simp
  qed
next
  case (NS_Disconnect ident key)
  note L = nm_inv_lists[OF inv]
  show ?thesis
  proof (cases "nm_schedulers m ident")
    case (Some s)
    have "nm_sessions (info_of m) (scheduler_uuid m) ((nm_expirations m)(key \<mapsto> (ident, ST_Scheduler)))
      ((nm_disconnected m)(ns_uuid s \<mapsto> (ident, key)))"
      using L(7) Some ord NS_Disconnect unfolding nm_sessions_def by (auto simp: scheduler_uuid_def)
    then have "nm_inv (m\<lparr>nm_expirations := (nm_expirations m)(key \<mapsto> (ident, ST_Scheduler)),
        nm_disconnected := (nm_disconnected m)(ns_uuid s \<mapsto> (ident, key)),
        nm_schedulers := (nm_schedulers m)(ident \<mapsto> s\<lparr>ns_disconnect_buffer := Some []\<rparr>)\<rparr>)"
      by (intro nm_inv_scheduler_write[OF inv Some]) simp_all
    then show ?thesis using NS_Disconnect Some by simp
  qed (use inv NS_Disconnect in simp)
next
  case (NS_Message ident msg)
  show ?thesis
  proof (cases "nm_schedulers m ident")
    case None
    then show ?thesis using inv NS_Message by (cases msg) auto
  next
    case s: (Some s)
    show ?thesis
    proof (cases msg)
      case NR_HelloMessage
      then show ?thesis using inv NS_Message by simp
    next
      case (WorkersDemand required supported)
      let ?d = "\<lparr>wd_provided_workers = 0, wd_required_workers = required, wd_supported_platforms = supported\<rparr>"
      obtain dq where "lvm_insert (nm_workers_demands_queue m) ident ?d = Some (map_of (demand_list m) ident, dq)"
        "lvm_list dq (filter (\<lambda>e. fst e \<noteq> ident) (demand_list m) @ [(ident, ?d)])"
        by (rule lvm_list_insert[OF nm_inv_lists(2)[OF inv]])
      then show ?thesis using give_back_spec[OF inv s, of dq "[(ident, ?d)]"] s NS_Message WorkersDemand
        by (force simp: Let_def give_back_def)
    next
      case ReleaseDemand
      obtain dq where "lvm_remove (nm_workers_demands_queue m) ident = Some (map_of (demand_list m) ident, dq)"
        "lvm_list dq (filter (\<lambda>e. fst e \<noteq> ident) (demand_list m))"
        by (rule lvm_list_remove[OF nm_inv_lists(2)[OF inv]])
      then show ?thesis using give_back_spec[OF inv s, of dq "[]"] s NS_Message ReleaseDemand
        by (force simp: Let_def give_back_def)
    qed
  qed
qed

end
