(* ===== verification/Node_Manager_Queue.thy ===== *)
theory Node_Manager_Queue
  imports Node_Manager_Invariants
begin

text \<open>
  \<open>process_queue\<close> of the node manager. Its first loop, over the linked structures, is the function
  \<open>match_list\<close> on lists; the second loop hands the matched nodes over and tells both sides. The iteration over
  the demands goes through the mutable iterator of the linked map.
\<close>

section \<open>Offering a worker\<close>

text \<open>The loop over the demands as a function of the list of demands.\<close>

fun take_demand :: "platform \<Rightarrow> (node_id \<times> workers_demand) list \<Rightarrow> node_id option \<times> (node_id \<times> workers_demand) list" where
  "take_demand p [] = (None, [])"
| "take_demand p ((k, d) # l) =
     (if demand_takes p d then (Some k, (k, d\<lparr>wd_provided_workers := u32_add (wd_provided_workers d) 1\<rparr>) # l)
      else (let (r, l') = take_demand p l in (r, (k, d) # l')))"

lemma offer_worker_run:
  assumes rep: "lvm_rep m (xs @ ys) fs" and h: "lvm_head m \<noteq> 0" and fuel: "length xs < fuel"
  shows "\<exists>m'. offer_worker fuel p m \<lparr>it_head = last (lvm_head m # xs), it_tail = lvm_head m, it_remaining = r\<rparr> =
      Some (fst (take_demand p (lvm_items m xs)), m') \<and> lvm_rep m' (xs @ ys) fs \<and>
    lvm_items m' (xs @ ys) = lvm_items m ys @ snd (take_demand p (lvm_items m xs))"
  using assms
proof (induction xs arbitrary: ys fuel r m rule: rev_induct)
  case Nil
  then show ?case by (cases fuel) (auto simp: iter_mut_next_def lvm_items_def)
next
  case (snoc x xs)
  then obtain fuel' where fuel: "fuel = Suc fuel'" "length xs < fuel'" by (cases fuel) auto
  have rep: "lvm_rep m (xs @ x # ys) fs" using snoc.prems(1) by simp
  have sh: "lvm_shape m (xs @ x # ys) fs {}" using rep_shape[OF rep] snoc.prems(2) by simp
  then have "dseg (nx m) (pv m) (lvm_head m) xs x"
    by (simp add: lvm_shape_def lvm_ring_def dseg_append)
  then have prev: "pv m x = last (lvm_head m # xs)" by (rule dseg_last)
  have ne: "x \<noteq> lvm_head m" and dist: "distinct (xs @ x # ys)" using sh by (auto simp: lvm_shape_def lvm_ring_def)
  let ?k = "the (nkey m x)" and ?d = "the (nval m x)"
  obtain n where n: "node_entry m x = Some (n, ?k, ?d)" "n_prev n = pv m x"
    by (rule rep_node_entry[OF rep, of x]) auto
  obtain m1 where m1: "lvm_write x (\<lambda>n. n\<lparr>n_value := Some (demand_count p ?k ?d)\<rparr>) m = Some m1" "lvm_rep m1 (xs @ x # ys) fs"
    "lvm_head m1 = lvm_head m" "nkey m1 = nkey m" "nval m1 = (nval m)(x \<mapsto> demand_count p ?k ?d)"
    by (rule write_value_spec[OF rep, of x]) auto
  let ?it = "\<lparr>it_head = last (lvm_head m # xs), it_tail = lvm_head m, it_remaining = usize_sub r 1\<rparr>"
  have step: "iter_mut_next (demand_count p) m \<lparr>it_head = x, it_tail = lvm_head m, it_remaining = r\<rparr> =
      Some (Some (?k, ?d), ?it, m1)"
    using n prev ne m1(1) by (simp add: iter_mut_next_def Let_def del: One_nat_def)
  have same: "lvm_items m1 zs = lvm_items m zs" if "x \<notin> set zs" for zs
    by (rule items_cong) (use that m1 in \<open>auto\<close>)
  have sx: "x \<notin> set xs" "x \<notin> set ys" using dist by auto
  have cons: "lvm_items m' (zs @ [x]) = (the (nkey m' x), the (nval m' x)) # lvm_items m' zs" for m' zs
    by (simp add: lvm_items_def)
  show ?case
  proof (cases "demand_takes p ?d")
    case True
    have "lvm_items m1 (xs @ x # ys) =
        lvm_items m ys @ (?k, ?d\<lparr>wd_provided_workers := u32_add (wd_provided_workers ?d) 1\<rparr>) # lvm_items m xs"
      using same[OF sx(1)] same[OF sx(2)] True by (simp add: lvm_items_def m1(4,5) demand_count_def)
    then show ?thesis using step True m1(2) by (simp add: fuel(1) cons)
  next
    case False
    have val: "nval m x \<noteq> None" using rep_facts(1)[OF rep] by (auto simp: lvm_indexed_def)
    have "nval m1 = nval m" using False val by (auto simp: m1(5) demand_count_def fun_eq_iff)
    then have items: "lvm_items m1 zs = lvm_items m zs" for zs by (simp add: lvm_items_def m1(4))
    obtain m' where m': "offer_worker fuel' p m1 \<lparr>it_head = last (lvm_head m1 # xs), it_tail = lvm_head m1, it_remaining = usize_sub r 1\<rparr> =
        Some (fst (take_demand p (lvm_items m1 xs)), m')" "lvm_rep m' (xs @ x # ys) fs"
      "lvm_items m' (xs @ x # ys) = lvm_items m1 (x # ys) @ snd (take_demand p (lvm_items m1 xs))"
      using snoc.IH[OF m1(2) _ fuel(2), of "usize_sub r 1"] m1(3) snoc.prems(2) by auto
    have "lvm_items m (x # ys) = lvm_items m ys @ [(?k, ?d)]" by (simp add: lvm_items_def)
    then show ?thesis using step False m' items m1(3) by (simp add: fuel(1) cons Let_def split: prod.split)
  qed
qed

lemma offer_worker_spec:
  assumes "lvm_list dq l"
  obtains it dq' where "lvm_iter dq = Some it"
    "offer_worker (Suc (lvm_len dq)) p dq it = Some (fst (take_demand p l), dq')" "lvm_list dq' (snd (take_demand p l))"
proof -
  obtain ps fs where rep: "lvm_rep dq ps fs" "l = lvm_items dq ps" by (rule lvm_list_rep[OF assms])
  obtain it where it: "lvm_iter dq = Some it" "it_remaining it = length ps" "it_tail it = lvm_head dq"
    "it_head it = (if lvm_head dq = 0 then 0 else last (lvm_head dq # ps))" using iter_spec[OF rep(1)] .
  show ?thesis
  proof (cases "lvm_head dq = 0")
    case True
    then have "ps = []" using rep(1) by (simp add: lvm_rep_def)
    then show ?thesis using that[OF it(1), of dq] it True assms rep(2)
      by (simp add: iter_mut_next_def lvm_items_def)
  next
    case False
    have "it = \<lparr>it_head = last (lvm_head dq # ps), it_tail = lvm_head dq, it_remaining = length ps\<rparr>"
      using it False by (cases it) simp
    then show ?thesis
      using offer_worker_run[of dq ps "[]" fs "Suc (lvm_len dq)" p "length ps"] rep False rep_facts(3)[OF rep(1)]
        that[OF it(1)] rep_lvm_list by (fastforce simp: lvm_items_def)
  qed
qed

section \<open>Matching the queue with the demands\<close>

text \<open>The matching on lists: the worker at the front goes to the oldest demand that takes it, until there is
  none.\<close>

fun match_list ::
  "(node_id \<Rightarrow> platform option) \<Rightarrow> node_id list \<Rightarrow> (node_id \<times> workers_demand) list \<Rightarrow> (node_id \<times> node_id list) list \<Rightarrow>
   node_id list \<times> (node_id \<times> workers_demand) list \<times> (node_id \<times> node_id list) list" where
  "match_list pf [] D mt = ([], D, mt)"
| "match_list pf (w # F) D mt =
     (case pf w of
        None \<Rightarrow> (w # F, D, mt)
      | Some p \<Rightarrow>
          (case take_demand p D of
             (None, D') \<Rightarrow> (w # F, D', mt)
           | (Some sid, D') \<Rightarrow> match_list pf F D' (entry_push sid w mt)))"

definition matched_of :: "(node_id \<times> node_id list) list \<Rightarrow> node_id \<Rightarrow> node_id list" where
  "matched_of mt sid = (case map_of mt sid of None \<Rightarrow> [] | Some ws \<Rightarrow> ws)"

lemma entry_push_facts:
  assumes "distinct (map fst mt)"
  shows "matched_of (entry_push k v mt) = (matched_of mt)(k := matched_of mt k @ [v])"
    "distinct (map fst (entry_push k v mt))" "fst ` set (entry_push k v mt) = insert k (fst ` set mt)"
proof -
  have dom: "fst ` set (entry_push k v mt) = insert k (fst ` set mt)" for mt
    by (induction k v mt rule: entry_push.induct) (simp_all add: insert_commute)
  show "fst ` set (entry_push k v mt) = insert k (fst ` set mt)" by (rule dom)
  show "distinct (map fst (entry_push k v mt))" using assms by (induction mt) (auto simp: dom)
  show "matched_of (entry_push k v mt) = (matched_of mt)(k := matched_of mt k @ [v])"
    using assms by (induction mt) (auto simp: matched_of_def fun_eq_iff)
qed

lemma match_workers_spec:
  assumes "lvs_queue (nm_unassigned_workers m) F" "lvm_list (nm_workers_demands_queue m) D" "length F < fuel"
  shows "\<exists>un dq. match_workers fuel m mt =
      Some (m\<lparr>nm_workers_demands_queue := dq, nm_unassigned_workers := un\<rparr>, snd (snd (match_list (platform_of m) F D mt))) \<and>
    lvs_queue un (fst (match_list (platform_of m) F D mt)) \<and> lvm_list dq (fst (snd (match_list (platform_of m) F D mt)))"
  using assms
proof (induction F arbitrary: fuel m D mt)
  case Nil
  then obtain fuel' where "fuel = Suc fuel'" by (cases fuel) auto
  moreover have "m = m\<lparr>nm_workers_demands_queue := nm_workers_demands_queue m, nm_unassigned_workers := nm_unassigned_workers m\<rparr>" by simp
  ultimately show ?case using Nil lvs_front_spec[OF Nil(1)]
    by (intro exI[of _ "nm_unassigned_workers m"] exI[of _ "nm_workers_demands_queue m"]) simp
next
  case (Cons w F)
  then obtain fuel' where fuel: "fuel = Suc fuel'" "length F < fuel'" by (cases fuel) auto
  have front: "lvs_front (nm_unassigned_workers m) = Some (Some w)" using lvs_front_spec[OF Cons.prems(1)] by simp
  have same: "m = m\<lparr>nm_workers_demands_queue := nm_workers_demands_queue m, nm_unassigned_workers := nm_unassigned_workers m\<rparr>" by simp
  show ?case
  proof (cases "nm_workers m w")
    case None
    then have "match_list (platform_of m) (w # F) D mt = (w # F, D, mt)" by (simp add: platform_of_def)
    then show ?thesis using Cons.prems front None fuel(1)
      by (intro exI[of _ "nm_unassigned_workers m"] exI[of _ "nm_workers_demands_queue m"]) simp
  next
    case (Some n)
    then have pf: "platform_of m w = Some (nd_platform n)" by (simp add: platform_of_def)
    obtain it dq where o: "lvm_iter (nm_workers_demands_queue m) = Some it"
      "offer_worker (Suc (lvm_len (nm_workers_demands_queue m))) (nd_platform n) (nm_workers_demands_queue m) it =
        Some (fst (take_demand (nd_platform n) D), dq)" "lvm_list dq (snd (take_demand (nd_platform n) D))"
      by (rule offer_worker_spec[OF Cons.prems(2)])
    obtain r D' where t: "take_demand (nd_platform n) D = (r, D')" by (cases "take_demand (nd_platform n) D")
    show ?thesis
    proof (cases r)
      case None
      then have "match_list (platform_of m) (w # F) D mt = (w # F, D', mt)" using pf t by simp
      then show ?thesis using Cons.prems front Some fuel(1) o t None
        by (intro exI[of _ "nm_unassigned_workers m"] exI[of _ dq]) (simp del: offer_worker.simps)
    next
      case (Some sid)
      obtain un where un: "lvs_pop_front (nm_unassigned_workers m) = Some (Some w, un)" "lvs_queue un F"
        by (rule lvs_pop_front_spec[OF Cons.prems(1)]) simp
      let ?m = "m\<lparr>nm_workers_demands_queue := dq, nm_unassigned_workers := un\<rparr>"
      have same: "platform_of ?m = platform_of m" by (simp add: platform_of_def fun_eq_iff)
      have next_: "match_list (platform_of m) (w # F) D mt = match_list (platform_of m) F D' (entry_push sid w mt)"
        using pf t Some by simp
      obtain un' dq' where "match_workers fuel' ?m (entry_push sid w mt) =
          Some (?m\<lparr>nm_workers_demands_queue := dq', nm_unassigned_workers := un'\<rparr>, snd (snd (match_list (platform_of m) F D' (entry_push sid w mt))))"
        "lvs_queue un' (fst (match_list (platform_of m) F D' (entry_push sid w mt)))"
        "lvm_list dq' (fst (snd (match_list (platform_of m) F D' (entry_push sid w mt))))"
        using Cons.IH[of ?m D' fuel' "entry_push sid w mt"] un(2) o(3) t fuel(2) by (auto simp: same)
      then show ?thesis unfolding next_ using front \<open>nm_workers m w = Some n\<close> fuel(1) o t Some un(1)
        by (simp del: offer_worker.simps) blast
    qed
  qed
qed

text \<open>What the matching keeps: the counters of the demands run ahead of the assignments by the matched
  workers.\<close>

lemma take_demand_keys: "map fst (snd (take_demand p D)) = map fst D"
  by (induction p D rule: take_demand.induct) (auto simp: Let_def case_prod_beta)

lemma take_demand_None: "fst (take_demand p D) = None \<longleftrightarrow> (\<forall>(sid, d) \<in> set D. \<not> demand_takes p d)"
  by (induction p D rule: take_demand.induct) (auto simp: Let_def case_prod_beta)

lemma take_demand_unchanged: "fst (take_demand p D) = None \<Longrightarrow> snd (take_demand p D) = D"
  by (induction p D rule: take_demand.induct) (auto simp: Let_def case_prod_beta split: if_splits)

lemma take_demand_Some:
  assumes "take_demand p D = (Some sid, D')" "distinct (map fst D)"
  shows "\<exists>d. map_of D sid = Some d \<and> demand_takes p d \<and>
    map_of D' = (map_of D)(sid \<mapsto> d\<lparr>wd_provided_workers := u32_add (wd_provided_workers d) 1\<rparr>)"
  using assms
proof (induction p D arbitrary: D' rule: take_demand.induct)
  case (2 p k d l)
  show ?case
  proof (cases "demand_takes p d")
    case True
    then show ?thesis using 2(2) by (auto simp: fun_eq_iff)
  next
    case False
    then obtain l' where l': "take_demand p l = (Some sid, l')" "D' = (k, d) # l'"
      using 2(2) by (auto simp: Let_def case_prod_beta) (metis prod.collapse)
    then obtain e where e: "map_of l sid = Some e" "demand_takes p e"
      "map_of l' = (map_of l)(sid \<mapsto> e\<lparr>wd_provided_workers := u32_add (wd_provided_workers e) 1\<rparr>)"
      using 2(1)[OF False l'(1)] 2(3) by fastforce
    have "sid \<noteq> k" using e(1) 2(3) by (force dest: map_of_SomeD)
    then show ?thesis using e l'(2) by (auto simp: fun_eq_iff)
  qed
qed simp

lemma nm_demands_map:
  assumes "distinct (map fst D)"
  shows "nm_demands pf S D A \<longleftrightarrow>
    (\<forall>sid d. map_of D sid = Some d \<longrightarrow> sid \<in> S \<and> demand_met pf (A sid) d) \<and> (\<forall>sid. map_of D sid = None \<longrightarrow> A sid = [])"
  using map_of_eq_Some_iff[OF assms] by (auto simp: nm_demands_def map_of_eq_None_iff)

lemma demand_met_more:
  assumes "demand_met pf ws d" "demand_takes p d" "pf w = Some p" "fits 32 (wd_provided_workers d + 1)"
  shows "demand_met pf (ws @ [w]) (d\<lparr>wd_provided_workers := u32_add (wd_provided_workers d) 1\<rparr>)"
  using assms by (auto simp: demand_met_def demand_takes_def u32_add_def fits_def wrap_def split: option.splits)

definition match_state ::
  "(node_id \<Rightarrow> platform option) \<Rightarrow> node_id set \<Rightarrow> (node_id \<Rightarrow> node_id list) \<Rightarrow> (node_id \<Rightarrow> node_id option option) \<Rightarrow>
   node_id list \<Rightarrow> (node_id \<times> workers_demand) list \<Rightarrow> (node_id \<times> node_id list) list \<Rightarrow> bool" where
  "match_state pf S A asg F D mt \<longleftrightarrow>
     nm_partition asg F (\<lambda>sid. A sid @ matched_of mt sid) \<and> nm_demands pf S D (\<lambda>sid. A sid @ matched_of mt sid) \<and>
     distinct F \<and> (\<forall>sid. distinct (A sid @ matched_of mt sid)) \<and> distinct (map fst D) \<and> distinct (map fst mt) \<and>
     fst ` set mt \<subseteq> fst ` set D \<and> (\<forall>w \<in> set F. pf w \<noteq> None) \<and>
     (\<forall>sid d. map_of D sid = Some d \<longrightarrow> fits 32 (wd_provided_workers d + length F))"

lemma match_step:
  assumes st: "match_state pf S A asg (w # F) D mt" and pf: "pf w = Some p" and t: "take_demand p D = (Some sid, D')"
  shows "match_state pf S A (asg(w \<mapsto> Some sid)) F D' (entry_push sid w mt)"
proof -
  let ?B = "\<lambda>sid. A sid @ matched_of mt sid" and ?B' = "\<lambda>j. A j @ matched_of (entry_push sid w mt) j"
  have dist: "distinct (map fst mt)" "distinct (map fst D)" "distinct (w # F)" "\<And>j. distinct (?B j)"
    and part: "nm_partition asg (w # F) ?B" and dem: "nm_demands pf S D ?B" and sub: "fst ` set mt \<subseteq> fst ` set D"
    and fit: "\<And>sid d. map_of D sid = Some d \<Longrightarrow> fits 32 (wd_provided_workers d + length (w # F))"
    and alive: "\<forall>w \<in> set F. pf w \<noteq> None"
    using st by (auto simp: match_state_def)
  have B': "?B' = ?B(sid := ?B sid @ [w])" unfolding entry_push_facts(1)[OF dist(1)] by auto
  obtain d where d: "map_of D sid = Some d" "demand_takes p d"
    "map_of D' = (map_of D)(sid \<mapsto> d\<lparr>wd_provided_workers := u32_add (wd_provided_workers d) 1\<rparr>)"
    using take_demand_Some[OF t dist(2)] by blast
  have keys: "map fst D' = map fst D" using take_demand_keys[of p D] t by simp
  have free: "asg w = Some None" using part unfolding nm_partition_def by (metis list.set_intros(1))
  then have notin: "w \<notin> set (?B j)" for j using part unfolding nm_partition_def by (metis option.distinct(1) option.inject)
  note D = dem[unfolded nm_demands_map[OF dist(2)]]
  have f1: "fits 32 (wd_provided_workers d + 1 + length F)" using fit[OF d(1)] by simp
  then have f2: "fits 32 (wd_provided_workers d + 1)" by (simp add: fits_def)
  then have add: "u32_add (wd_provided_workers d) 1 = wd_provided_workers d + 1" by (simp add: u32_add_def wrap_def fits_def)
  have "nm_partition (asg(w \<mapsto> Some sid)) F ?B'"
    using part dist(3) notin unfolding B' nm_partition_def by auto
  moreover have "nm_demands pf S D' ?B'"
    unfolding nm_demands_map[OF dist(2)[folded keys]] B' d(3)
    using D d(1) demand_met_more[where pf = pf and ws = "?B sid", OF _ d(2) pf f2] by auto
  moreover have "fits 32 (wd_provided_workers e + length F)" if "map_of D' j = Some e" for j e
    using that f1 fit[of j e] add unfolding d(3) by (auto simp: fits_def split: if_splits)
  moreover have "sid \<in> fst ` set D" using d(1) by (force dest: map_of_SomeD)
  moreover have "fst ` set D' = fst ` set D" using arg_cong[OF keys, of set] by simp
  moreover have "distinct (?B' j)" for j
    using fun_cong[OF B', of j] dist(4)[of j] notin[of j] by (auto simp: fun_upd_def split: if_splits)
  ultimately show ?thesis
    using dist notin sub alive entry_push_facts(2,3)[OF dist(1), of sid w] keys unfolding match_state_def by auto
qed

lemma match_list_spec:
  assumes "match_state pf S A asg F D mt" "match_list pf F D mt = (F', D', mt')"
  shows "\<exists>asg'. match_state pf S A asg' F' D' mt' \<and> dom asg' = dom asg \<and> (\<forall>w. asg' w = asg w \<or> asg w = Some None) \<and>
    map fst D' = map fst D \<and> (\<exists>G. F = G @ F') \<and> (\<forall>p. F' \<noteq> [] \<longrightarrow> pf (hd F') = Some p \<longrightarrow> (\<forall>(sid, d) \<in> set D'. \<not> demand_takes p d))"
  using assms
proof (induction pf F D mt arbitrary: asg rule: match_list.induct)
  case (1 pf D mt)
  then show ?case by (intro exI[of _ asg]) simp
next
  case (2 pf w F D mt)
  obtain p where p: "pf w = Some p" using 2(2) by (auto simp: match_state_def)
  obtain r E where t: "take_demand p D = (r, E)" by (cases "take_demand p D")
  show ?case
  proof (cases r)
    case None
    then have "E = D" "\<forall>(sid, d) \<in> set D. \<not> demand_takes p d"
      using take_demand_unchanged[of p D] take_demand_None[of p D] t by auto
    then show ?thesis using 2(2,3) p t None by (intro exI[of _ asg]) auto
  next
    case (Some sid)
    have step: "match_state pf S A (asg(w \<mapsto> Some sid)) F E (entry_push sid w mt)"
      using match_step[OF 2(2) p] t Some by simp
    have free: "asg w = Some None" using 2(2) by (auto simp: match_state_def nm_partition_def)
    obtain asg' where a: "match_state pf S A asg' F' D' mt'" "dom asg' = dom (asg(w \<mapsto> Some sid))"
      "\<forall>v. asg' v = (asg(w \<mapsto> Some sid)) v \<or> (asg(w \<mapsto> Some sid)) v = Some None" "\<exists>G. F = G @ F'"
      "map fst D' = map fst E" "\<forall>p. F' \<noteq> [] \<longrightarrow> pf (hd F') = Some p \<longrightarrow> (\<forall>(sid, d) \<in> set D'. \<not> demand_takes p d)"
      using 2(1)[OF p t[symmetric, unfolded Some] refl step] 2(3) p t Some by (fastforce simp del: fun_upd_apply)
    have "dom asg' = dom asg" using a(2) free by auto
    moreover have "asg' v = asg v \<or> asg v = Some None" for v using a(3) free by (metis fun_upd_apply)
    moreover have "\<exists>G. w # F = G @ F'" using a(4) by (metis append_Cons)
    moreover have "map fst D' = map fst D" using a(5) take_demand_keys[of p D] t by simp
    ultimately show ?thesis using a(1,6) by blast
  qed
qed

section \<open>Assigning the matched workers\<close>

text \<open>A message to a node or to a scheduler is sent, or kept for the time it is connected again.\<close>

definition node_told :: "nm_node \<Rightarrow> node_request \<Rightarrow> nm_output list \<Rightarrow> nm_node \<Rightarrow> bool" where
  "node_told n r out n' \<longleftrightarrow>
     (case nd_disconnect_buffer n of
        None \<Rightarrow> To_Node (nd_connection n) r \<in> set out
      | Some b \<Rightarrow> nd_disconnect_buffer n' = Some (b @ [r]))"

definition scheduler_told :: "nm_scheduler \<Rightarrow> node_manager_response \<Rightarrow> nm_output list \<Rightarrow> nm_scheduler \<Rightarrow> bool" where
  "scheduler_told s r out s' \<longleftrightarrow>
     (case ns_disconnect_buffer s of
        None \<Rightarrow> To_Scheduler (ns_connection s) r \<in> set out
      | Some b \<Rightarrow> ns_disconnect_buffer s' = Some (b @ [r]))"

lemma told_more:
  "node_told n r out n' \<Longrightarrow> set out \<subseteq> set out' \<Longrightarrow> node_told n r out' n'"
  "scheduler_told s q out s' \<Longrightarrow> set out \<subseteq> set out' \<Longrightarrow> scheduler_told s q out' s'"
  by (auto simp: node_told_def scheduler_told_def split: option.splits)

lemma node_send_told: "node_told n r (fst (node_send n r)) (snd (node_send n r))"
  by (auto simp: node_told_def node_send_def split: option.split)

lemma scheduler_send_told: "scheduler_told s r (fst (scheduler_send s r)) (snd (scheduler_send s r))"
  by (auto simp: scheduler_told_def scheduler_send_def split: option.split)

definition info_for :: "(node_id \<Rightarrow> nm_node option) \<Rightarrow> node_id \<Rightarrow> worker_info" where
  "info_for W w = (case W w of Some n \<Rightarrow>
     \<lparr>wi_worker_id = w, wi_subworkers = nd_subworkers n, wi_address = nd_address n, wi_platform = nd_platform n\<rparr>)"

text \<open>The nodes \<open>ws\<close> become nodes of \<open>sid\<close>: nothing else changes, and each is told the address.\<close>

definition handed_over ::
  "node_id \<Rightarrow> socket_addr \<Rightarrow> node_id list \<Rightarrow> nm_output list \<Rightarrow> (node_id \<Rightarrow> nm_node option) \<Rightarrow> (node_id \<Rightarrow> nm_node option) \<Rightarrow> bool" where
  "handed_over sid address ws out W W' \<longleftrightarrow>
     (\<forall>w. w \<notin> set ws \<longrightarrow> W' w = W w) \<and>
     (\<forall>w \<in> set ws. \<exists>n n'. W w = Some n \<and> W' w = Some n' \<and> nd_assigned n' = Some sid \<and> node_info n' = node_info n \<and>
        node_told n (AssignClient address) out n')"

lemma assign_workers_spec:
  assumes "lvs_queue (ns_assigned_workers s) l" "distinct ws" "set ws \<inter> set l = {}" "\<forall>w \<in> set ws. nm_workers m w \<noteq> None"
  shows "\<exists>out set' W'. assign_workers sid ws s m =
      Some (out, map (info_for (nm_workers m)) ws, s\<lparr>ns_assigned_workers := set'\<rparr>, m\<lparr>nm_workers := W'\<rparr>) \<and>
    lvs_queue set' (l @ ws) \<and> handed_over sid (ns_address s) ws out (nm_workers m) W'"
  using assms
proof (induction ws arbitrary: s l m)
  case Nil
  then show ?case
    by (intro exI[of _ "[]"] exI[of _ "ns_assigned_workers s"] exI[of _ "nm_workers m"]) (simp add: handed_over_def)
next
  case (Cons w ws)
  obtain n where n: "nm_workers m w = Some n" using Cons.prems(4) by auto
  have w: "w \<notin> set l" "w \<notin> set ws" using Cons.prems(2,3) by auto
  obtain s1 where s1: "lvs_insert (ns_assigned_workers s) w = Some (w \<in> set l, s1)" "lvs_queue s1 (filter (\<lambda>j. j \<noteq> w) l @ [w])"
    by (rule lvs_insert_spec[OF Cons.prems(1)])
  have fl: "filter (\<lambda>j. j \<noteq> w) l = l" using w(1) by (auto simp: filter_id_conv)
  let ?n = "n\<lparr>nd_assigned := Some sid\<rparr>" and ?s = "s\<lparr>ns_assigned_workers := s1\<rparr>"
  let ?r = "AssignClient (ns_address s)"
  let ?n' = "snd (node_send ?n ?r)" and ?m = "m\<lparr>nm_workers := (nm_workers m)(w \<mapsto> snd (node_send ?n ?r))\<rparr>"
  obtain out set' W' where r: "assign_workers sid ws ?s ?m =
      Some (out, map (info_for (nm_workers ?m)) ws, ?s\<lparr>ns_assigned_workers := set'\<rparr>, ?m\<lparr>nm_workers := W'\<rparr>)"
    "lvs_queue set' ((l @ [w]) @ ws)" "handed_over sid (ns_address ?s) ws out (nm_workers ?m) W'"
    using Cons.IH[of ?s "l @ [w]" ?m] s1(2)[unfolded fl] Cons.prems by fastforce
  let ?out = "fst (node_send ?n ?r) @ out"
  have infos: "map (info_for (nm_workers ?m)) ws = map (info_for (nm_workers m)) ws" using w(2) by (auto simp: info_for_def)
  have "assign_workers sid (w # ws) s m =
      Some (?out, map (info_for (nm_workers m)) (w # ws), s\<lparr>ns_assigned_workers := set'\<rparr>, m\<lparr>nm_workers := W'\<rparr>)"
    using n s1(1) r(1) infos by (simp add: case_prod_beta Let_def info_for_def[of _ w])
  moreover have "handed_over sid (ns_address s) (w # ws) ?out (nm_workers m) W'"
  proof -
    have "node_told ?n ?r ?out ?n'" using told_more(1)[OF node_send_told[of ?n ?r], of ?out] by simp
    then have told: "node_told n ?r ?out ?n'" by (auto simp: node_told_def split: option.splits)
    have info: "node_info ?n' = node_info n" "nd_assigned ?n' = Some sid" by (simp_all add: node_info_def[of ?n] node_info_def[of n])
    have W'w: "W' w = Some ?n'" using r(3) w(2) by (simp add: handed_over_def)
    have rest: "\<exists>n n'. nm_workers m v = Some n \<and> W' v = Some n' \<and> nd_assigned n' = Some sid \<and> node_info n' = node_info n \<and>
        node_told n ?r ?out n'" if "v \<in> set ws" for v
    proof -
      have "v \<noteq> w" using that w(2) by auto
      then show ?thesis using r(3) that told_more(1)[of _ ?r out _ ?out] by (fastforce simp: handed_over_def)
    qed
    show ?thesis unfolding handed_over_def using rest n W'w info told r(3) by (auto simp: handed_over_def)
  qed
  ultimately show ?case using r(2) by (metis append.assoc append_Cons append_Nil)
qed

text \<open>The schedulers of \<open>mt\<close> get their workers, each with one message.\<close>

definition received_workers ::
  "(node_id \<times> node_id list) list \<Rightarrow> nm_output list \<Rightarrow> node_manager \<Rightarrow> node_manager \<Rightarrow> bool" where
  "received_workers mt out m m' \<longleftrightarrow>
     (\<forall>(sid, ws) \<in> set mt. \<exists>s s'. nm_schedulers m sid = Some s \<and> nm_schedulers m' sid = Some s' \<and>
        scheduler_told s (NP_Connect (map (info_for (nm_workers m)) ws)) out s' \<and>
        (\<forall>w \<in> set ws. \<exists>n n'. nm_workers m w = Some n \<and> nm_workers m' w = Some n' \<and> nd_assigned n' = Some sid \<and>
           node_told n (AssignClient (ns_address s)) out n'))"

lemma received_first:
  assumes s: "nm_schedulers m sid = Some s" and h: "handed_over sid (ns_address s) ws out1 (nm_workers m) W1"
    and s': "nm_schedulers m' sid =
      Some (snd (scheduler_send (s\<lparr>ns_assigned_workers := set'\<rparr>) (NP_Connect (map (info_for (nm_workers m)) ws))))"
      (is "_ = Some (snd (scheduler_send ?s ?r))")
    and W: "\<And>w. w \<in> set ws \<Longrightarrow> nm_workers m' w = W1 w"
    and out: "set out1 \<subseteq> set out" "set (fst (scheduler_send (s\<lparr>ns_assigned_workers := set'\<rparr>)
      (NP_Connect (map (info_for (nm_workers m)) ws)))) \<subseteq> set out"
  shows "received_workers [(sid, ws)] out m m'"
proof -
  have "scheduler_told ?s ?r out (snd (scheduler_send ?s ?r))"
    using told_more(2)[OF scheduler_send_told[of ?s ?r] out(2)] .
  then have "scheduler_told s ?r out (snd (scheduler_send ?s ?r))" by (auto simp: scheduler_told_def split: option.splits)
  moreover have "\<exists>n n'. nm_workers m w = Some n \<and> nm_workers m' w = Some n' \<and> nd_assigned n' = Some sid \<and>
      node_told n (AssignClient (ns_address s)) out n'" if "w \<in> set ws" for w
    using h that W[OF that] told_more(1)[OF _ out(1)] unfolding handed_over_def by fastforce
  ultimately show ?thesis using s s' by (simp add: received_workers_def)
qed

lemma received_frame:
  assumes r: "received_workers mt out2 m1 m'" and out: "set out2 \<subseteq> set out"
    and same: "\<And>j vs. (j, vs) \<in> set mt \<Longrightarrow>
      nm_schedulers m1 j = nm_schedulers m j \<and> (\<forall>w \<in> set vs. nm_workers m1 w = nm_workers m w)"
  shows "received_workers mt out m m'"
  unfolding received_workers_def
proof (intro ballI, clarify)
  fix j vs assume jv: "(j, vs) \<in> set mt"
  then have W: "nm_workers m1 w = nm_workers m w" if "w \<in> set vs" for w using same that by blast
  then have infos: "map (info_for (nm_workers m1)) vs = map (info_for (nm_workers m)) vs" by (simp add: info_for_def)
  from r jv obtain s s' where s: "nm_schedulers m1 j = Some s" "nm_schedulers m' j = Some s'"
    "scheduler_told s (NP_Connect (map (info_for (nm_workers m1)) vs)) out2 s'"
    "\<forall>w \<in> set vs. \<exists>n n'. nm_workers m1 w = Some n \<and> nm_workers m' w = Some n' \<and> nd_assigned n' = Some j \<and>
       node_told n (AssignClient (ns_address s)) out2 n'"
    unfolding received_workers_def by fastforce
  have "scheduler_told s (NP_Connect (map (info_for (nm_workers m)) vs)) out s'"
    using told_more(2)[OF s(3) out] infos by simp
  moreover have "\<exists>n n'. nm_workers m w = Some n \<and> nm_workers m' w = Some n' \<and> nd_assigned n' = Some j \<and>
      node_told n (AssignClient (ns_address s)) out n'" if "w \<in> set vs" for w
    using s(4) W[OF that] that told_more(1)[OF _ out] by metis
  ultimately show "\<exists>s s'. nm_schedulers m j = Some s \<and> nm_schedulers m' j = Some s' \<and>
      scheduler_told s (NP_Connect (map (info_for (nm_workers m)) vs)) out s' \<and>
      (\<forall>w \<in> set vs. \<exists>n n'. nm_workers m w = Some n \<and> nm_workers m' w = Some n' \<and> nd_assigned n' = Some j \<and>
         node_told n (AssignClient (ns_address s)) out n')"
    using s(1,2) same[OF jv] by auto
qed

lemma assign_matched_spec:
  assumes "distinct (map fst mt)" "distinct (concat (map snd mt))"
    "\<And>sid s. nm_schedulers m sid = Some s \<Longrightarrow> lvs_queue (ns_assigned_workers s) (A sid)"
    "\<And>sid ws. (sid, ws) \<in> set mt \<Longrightarrow> nm_schedulers m sid \<noteq> None \<and> set ws \<inter> set (A sid) = {} \<and> (\<forall>w \<in> set ws. nm_workers m w \<noteq> None)"
  shows "\<exists>out W' S'. assign_matched mt m = Some (out, m\<lparr>nm_workers := W', nm_schedulers := S'\<rparr>) \<and>
    (\<forall>sid. map_option ns_uuid (S' sid) = scheduler_uuid m sid) \<and>
    (\<forall>sid s. S' sid = Some s \<longrightarrow> lvs_queue (ns_assigned_workers s) (A sid @ matched_of mt sid)) \<and>
    (\<forall>w. map_option node_info (W' w) = info_of m w) \<and>
    (\<forall>w. w \<notin> set (concat (map snd mt)) \<longrightarrow> W' w = nm_workers m w) \<and>
    (\<forall>sid. sid \<notin> fst ` set mt \<longrightarrow> S' sid = nm_schedulers m sid) \<and>
    received_workers mt out m (m\<lparr>nm_workers := W', nm_schedulers := S'\<rparr>)"
  using assms
proof (induction mt arbitrary: m A)
  case Nil
  then show ?case
    by (intro exI[of _ "[]"] exI[of _ "nm_workers m"] exI[of _ "nm_schedulers m"])
      (auto simp: scheduler_uuid_def info_of_def matched_of_def received_workers_def)
next
  case (Cons e mt)
  obtain sid ws where e: "e = (sid, ws)" by (cases e)
  obtain s where s: "nm_schedulers m sid = Some s" using Cons.prems(4)[of sid ws] e by auto
  have pre: "distinct ws" "set ws \<inter> set (A sid) = {}" "\<forall>w \<in> set ws. nm_workers m w \<noteq> None"
    "set ws \<inter> set (concat (map snd mt)) = {}" "sid \<notin> fst ` set mt"
    using Cons.prems(1,2) Cons.prems(4)[of sid ws] e by auto
  obtain out1 set' W1 where a: "assign_workers sid ws s m =
      Some (out1, map (info_for (nm_workers m)) ws, s\<lparr>ns_assigned_workers := set'\<rparr>, m\<lparr>nm_workers := W1\<rparr>)"
    "lvs_queue set' (A sid @ ws)" "handed_over sid (ns_address s) ws out1 (nm_workers m) W1"
    using assign_workers_spec[OF Cons.prems(3)[OF s] pre(1-3), where sid = sid] by blast
  let ?s = "s\<lparr>ns_assigned_workers := set'\<rparr>" and ?r = "NP_Connect (map (info_for (nm_workers m)) ws)"
  let ?m = "m\<lparr>nm_workers := W1, nm_schedulers := (nm_schedulers m)(sid \<mapsto> snd (scheduler_send ?s ?r))\<rparr>"
  let ?A = "A(sid := A sid @ ws)"
  have W1: "W1 w = nm_workers m w" if "w \<notin> set ws" for w using a(3) that by (simp add: handed_over_def)
  have W1i: "map_option node_info (W1 w) = info_of m w" for w
    using a(3) by (cases "w \<in> set ws") (auto simp: handed_over_def info_of_def)
  then have alive: "W1 w \<noteq> None \<longleftrightarrow> nm_workers m w \<noteq> None" for w by (metis info_of_def option.map_disc_iff)
  have d: "distinct (map fst mt)" "distinct (concat (map snd mt))" using Cons.prems(1,2) e by auto
  have q: "lvs_queue (ns_assigned_workers s1) (?A j)" if "nm_schedulers ?m j = Some s1" for j s1
    using that Cons.prems(3) a(2) by (auto split: if_splits)
  have ok: "nm_schedulers ?m j \<noteq> None \<and> set vs \<inter> set (?A j) = {} \<and> (\<forall>w \<in> set vs. nm_workers ?m w \<noteq> None)"
    if jv: "(j, vs) \<in> set mt" for j vs
  proof -
    have "j \<noteq> sid" using jv pre(5) by force
    then show ?thesis using Cons.prems(4)[of j vs] jv alive by auto
  qed
  obtain out2 W2 S2 where r: "assign_matched mt ?m = Some (out2, ?m\<lparr>nm_workers := W2, nm_schedulers := S2\<rparr>)"
    "\<forall>j. map_option ns_uuid (S2 j) = scheduler_uuid ?m j"
    "\<forall>j s. S2 j = Some s \<longrightarrow> lvs_queue (ns_assigned_workers s) (?A j @ matched_of mt j)"
    "\<forall>w. map_option node_info (W2 w) = info_of ?m w"
    "\<forall>w. w \<notin> set (concat (map snd mt)) \<longrightarrow> W2 w = nm_workers ?m w"
    "\<forall>j. j \<notin> fst ` set mt \<longrightarrow> S2 j = nm_schedulers ?m j"
    "received_workers mt out2 ?m (?m\<lparr>nm_workers := W2, nm_schedulers := S2\<rparr>)"
    using Cons.IH[of ?m ?A, OF d q ok] by blast
  let ?out = "out1 @ fst (scheduler_send ?s ?r) @ out2" and ?m' = "m\<lparr>nm_workers := W2, nm_schedulers := S2\<rparr>"
  have run: "assign_matched (e # mt) m = Some (?out, ?m')"
    using s a(1) r(1) by (simp add: e case_prod_beta Let_def)
  have uuid: "\<forall>j. map_option ns_uuid (S2 j) = scheduler_uuid m j"
    using r(2) s by (auto simp: scheduler_uuid_def)
  have lists: "lvs_queue (ns_assigned_workers s1) (A j @ matched_of (e # mt) j)" if "S2 j = Some s1" for j s1
  proof -
    have "matched_of mt sid = []" using pre(5) by (simp add: matched_of_def map_of_eq_None_iff[symmetric] split: option.split)
    then have "?A j @ matched_of mt j = A j @ matched_of (e # mt) j" by (auto simp: e matched_of_def)
    then show ?thesis using r(3) that by metis
  qed
  have info: "\<forall>w. map_option node_info (W2 w) = info_of m w" using r(4) W1i by (simp add: info_of_def)
  have rest: "\<forall>w. w \<notin> set (concat (map snd (e # mt))) \<longrightarrow> W2 w = nm_workers m w" using r(5) W1 by (auto simp: e)
  have others: "\<forall>j. j \<notin> fst ` set (e # mt) \<longrightarrow> S2 j = nm_schedulers m j" using r(6) by (auto simp: e)
  have "received_workers [(sid, ws)] ?out m ?m'"
  proof (rule received_first[OF s a(3)])
    show "nm_schedulers ?m' sid = Some (snd (scheduler_send ?s ?r))" using r(6) pre(5) by simp
    show "\<And>w. w \<in> set ws \<Longrightarrow> nm_workers ?m' w = W1 w"
    proof -
      fix w assume "w \<in> set ws"
      then have "w \<notin> set (concat (map snd mt))" using pre(4) by blast
      then show "nm_workers ?m' w = W1 w" using r(5) by simp
    qed
  qed auto
  moreover have "received_workers mt ?out m ?m'"
  proof (rule received_frame)
    show "received_workers mt out2 ?m ?m'" using r(7) by simp
    show "nm_schedulers ?m j = nm_schedulers m j \<and> (\<forall>w \<in> set vs. nm_workers ?m w = nm_workers m w)"
      if "(j, vs) \<in> set mt" for j vs
    proof -
      have "j \<noteq> sid" "set vs \<inter> set ws = {}" using that pre(4,5) by force+
      then show ?thesis using W1 by auto
    qed
  qed auto
  ultimately have "received_workers (e # mt) ?out m ?m'" by (simp add: received_workers_def e)
  then show ?case using run uuid lists info rest others by blast
qed

section \<open>The queue\<close>

lemma hash_entries_perm:
  assumes "distinct order" "fst ` set mt \<subseteq> set order"
  shows "mset (hash_entries order mt) = mset mt"
proof -
  have add: "distinct order \<Longrightarrow> mset (hash_entries order (e # mt)) =
      (if fst e \<in> set order then {#e#} else {#}) + mset (hash_entries order mt)" for e :: "'a \<times> 'b" and mt
    by (induction order) (auto simp: hash_entries_def)
  show ?thesis using assms by (induction mt) (auto simp: add, simp add: hash_entries_def)
qed

lemma matched_of_mem: "distinct (map fst mt) \<Longrightarrow> (sid, ws) \<in> set mt \<Longrightarrow> matched_of mt sid = ws"
  by (simp add: matched_of_def)

lemma matched_of_perm:
  assumes "mset mt' = mset mt" "distinct (map fst mt)"
  shows "matched_of mt' = matched_of mt" "distinct (map fst mt')" "set mt' = set mt"
proof -
  show s: "set mt' = set mt" using assms(1) by (metis set_mset_mset)
  have "mset (map fst mt') = mset (map fst mt)" using assms(1) by simp
  then show d: "distinct (map fst mt')" using assms(2) mset_eq_imp_distinct_iff by blast
  then have "map_of mt' = map_of mt" using map_of_inject_set[OF d assms(2)] s by simp
  then show "matched_of mt' = matched_of mt" by (simp add: matched_of_def fun_eq_iff)
qed

lemma distinct_matched:
  assumes "distinct (map fst mt)" "\<And>sid ws. (sid, ws) \<in> set mt \<Longrightarrow> distinct ws"
    "\<And>sid ws sid' ws' w. (sid, ws) \<in> set mt \<Longrightarrow> (sid', ws') \<in> set mt \<Longrightarrow> w \<in> set ws \<Longrightarrow> w \<in> set ws' \<Longrightarrow> sid = sid'"
  shows "distinct (concat (map snd mt))"
  using assms
proof (induction mt)
  case (Cons e mt)
  obtain sid ws where e: "e = (sid, ws)" by (cases e)
  have "w \<notin> set (concat (map snd mt))" if "w \<in> set ws" for w
  proof
    assume "w \<in> set (concat (map snd mt))"
    then obtain j vs where "(j, vs) \<in> set mt" "w \<in> set vs" by auto
    then have "j = sid" "j \<in> fst ` set mt" using Cons.prems(3)[of j vs sid ws w] that e by force+
    then show False using Cons.prems(1) e by simp
  qed
  then have "set ws \<inter> set (concat (map snd mt)) = {}" by blast
  moreover have "distinct (concat (map snd mt))"
    by (rule Cons.IH) (use Cons.prems(1) in simp, use Cons.prems(2,3) in \<open>meson list.set_intros(2)\<close>)+
  moreover have "distinct ws" using Cons.prems(2)[of sid ws] e by simp
  ultimately show ?case by (simp add: e del: set_concat)
qed simp

definition matching :: "node_manager \<Rightarrow> node_id list \<times> (node_id \<times> workers_demand) list \<times> (node_id \<times> node_id list) list" where
  "matching m = match_list (platform_of m) (free_list m) (demand_list m) []"

definition queue_processed ::
  "node_manager \<Rightarrow> nm_output list \<Rightarrow> node_manager \<Rightarrow> bool" where
  "queue_processed m out m' \<longleftrightarrow>
     (\<exists>F D mt. matching m = (F, D, mt) \<and> free_list m' = F \<and> demand_list m' = D \<and>
        (\<forall>sid. assigned_list m' sid = assigned_list m sid @ matched_of mt sid) \<and> received_workers mt out m m' \<and>
        (\<exists>G. free_list m = G @ F) \<and>
        (\<forall>p. F \<noteq> [] \<longrightarrow> platform_of m (hd F) = Some p \<longrightarrow> (\<forall>(sid, d) \<in> set D. \<not> demand_takes p d)))"

lemma match_state_start:
  assumes inv: "nm_inv m" and fit: "nm_orderly m (NV_Queue order)"
  shows "match_state (platform_of m) (dom (nm_schedulers m)) (assigned_list m) (assignment m) (free_list m) (demand_list m) []"
proof -
  note L = nm_inv_lists[OF inv]
  have "distinct (assigned_list m sid)" for sid
    using lvs_queue_facts(1)[OF L(3)[of sid]] L(4)[of sid] by (cases "nm_schedulers m sid") auto
  moreover have "\<forall>w \<in> set (free_list m). platform_of m w \<noteq> None"
    using L(5) by (auto simp: nm_partition_def assignment_def platform_of_def)
  ultimately show ?thesis
    using L(5,6) fit lvs_queue_facts(1)[OF L(1)] lvm_list_facts(1)[OF L(2)]
    by (auto simp: match_state_def matched_of_def dest!: map_of_SomeD)
qed

lemma unmatched_same:
  assumes "nm_partition asg0 F0 A" "nm_partition asg F (\<lambda>sid. A sid @ matched_of mt sid)" "dom asg = dom asg0"
    "asg w = asg0 w \<or> asg0 w = Some None" "\<And>sid. w \<notin> set (matched_of mt sid)"
  shows "asg w = asg0 w"
proof (rule ccontr)
  assume ne: "asg w \<noteq> asg0 w"
  then have free: "asg0 w = Some None" using assms(4) by blast
  then obtain x where x: "asg w = Some x" using assms(3) by blast
  then obtain sid where sid: "x = Some sid" using ne free by (cases x) auto
  then have "w \<in> set (A sid)" using assms(2,5) x unfolding nm_partition_def by (metis Un_iff set_append)
  then have "asg0 w = Some (Some sid)" using assms(1) unfolding nm_partition_def by blast
  then show False using free by simp
qed

lemma process_queue_spec:
  assumes inv: "nm_inv m" and fit: "nm_orderly m (NV_Queue order)"
  shows "\<exists>out m'. process_queue order m = Some (out, m') \<and> nm_inv m' \<and> queue_processed m out m'"
proof -
  note L = nm_inv_lists[OF inv]
  let ?A = "assigned_list m" and ?pf = "platform_of m"
  obtain F D mt where mt: "matching m = (F, D, mt)" by (cases "matching m")
  obtain asg where st: "match_state ?pf (dom (nm_schedulers m)) ?A asg F D mt"
    and asg: "dom asg = dom (assignment m)" "\<And>w. asg w = assignment m w \<or> assignment m w = Some None"
    and G: "map fst D = map fst (demand_list m)" "\<exists>G. free_list m = G @ F"
    and block: "\<forall>p. F \<noteq> [] \<longrightarrow> ?pf (hd F) = Some p \<longrightarrow> (\<forall>(sid, d) \<in> set D. \<not> demand_takes p d)"
    using match_list_spec[OF match_state_start[OF inv fit] mt[unfolded matching_def]] by blast
  let ?B = "\<lambda>sid. ?A sid @ matched_of mt sid"
  have part: "nm_partition asg F ?B" and dem: "nm_demands ?pf (dom (nm_schedulers m)) D ?B"
    and dist: "\<And>sid. distinct (?B sid)" "distinct (map fst mt)" and mtD: "fst ` set mt \<subseteq> fst ` set D"
    using st by (auto simp: match_state_def)
  have dom: "fst ` set mt \<subseteq> dom (nm_schedulers m)" using mtD dem unfolding nm_demands_def by fastforce
  have keys: "fst ` set mt \<subseteq> fst ` set (demand_list m)" using mtD arg_cong[OF G(1), of set] by simp
  obtain un dq where run1: "match_workers (Suc (lvs_len (nm_unassigned_workers m))) m [] =
      Some (m\<lparr>nm_workers_demands_queue := dq, nm_unassigned_workers := un\<rparr>, mt)" "lvs_queue un F" "lvm_list dq D"
    using match_workers_spec[OF L(1,2), of "Suc (lvs_len (nm_unassigned_workers m))" "[]"] mt lvs_queue_facts(2)[OF L(1)]
    unfolding matching_def by auto
  let ?m = "m\<lparr>nm_workers_demands_queue := dq, nm_unassigned_workers := un\<rparr>" and ?mt = "hash_entries order mt"
  have perm: "matched_of ?mt = matched_of mt" "distinct (map fst ?mt)" "set ?mt = set mt"
    using matched_of_perm[OF hash_entries_perm dist(2)] fit keys by auto
  have asgB: "asg w = Some (Some sid)" if "w \<in> set (matched_of mt sid)" for w sid
    using part that unfolding nm_partition_def by (metis Un_iff set_append)
  have conc: "distinct (concat (map snd ?mt))"
    using dist(1) asgB matched_of_mem[OF perm(2)] perm(1)
    by (intro distinct_matched[OF perm(2)]) (fastforce, metis option.inject)
  have alive: "nm_workers m w \<noteq> None" if "w \<in> set (matched_of mt sid)" for w sid
  proof -
    have "w \<in> dom (assignment m)" using asgB[OF that] asg(1) by blast
    then show ?thesis by (auto simp: assignment_def)
  qed
  have ok: "nm_schedulers ?m sid \<noteq> None \<and> set ws \<inter> set (?A sid) = {} \<and> (\<forall>w \<in> set ws. nm_workers ?m w \<noteq> None)"
    if sw: "(sid, ws) \<in> set ?mt" for sid ws
  proof -
    have ws: "ws = matched_of mt sid" "sid \<in> fst ` set mt" using matched_of_mem[OF perm(2) sw] perm(1,3) sw by force+
    show ?thesis using ws dom dist(1)[of sid] alive by auto
  qed
  obtain out W S where r: "assign_matched ?mt ?m = Some (out, ?m\<lparr>nm_workers := W, nm_schedulers := S\<rparr>)"
    "\<forall>sid. map_option ns_uuid (S sid) = scheduler_uuid ?m sid"
    "\<forall>sid s. S sid = Some s \<longrightarrow> lvs_queue (ns_assigned_workers s) (?B sid)"
    "\<forall>w. map_option node_info (W w) = info_of ?m w"
    "\<forall>w. w \<notin> set (concat (map snd ?mt)) \<longrightarrow> W w = nm_workers ?m w"
    "received_workers ?mt out ?m (?m\<lparr>nm_workers := W, nm_schedulers := S\<rparr>)"
    using assign_matched_spec[OF perm(2) conc, of ?m ?A, OF _ ok] L(3) unfolding perm(1) by auto
  let ?m' = "?m\<lparr>nm_workers := W, nm_schedulers := S\<rparr>"
  have v: "info_of ?m' = info_of m" "scheduler_uuid ?m' = scheduler_uuid m"
    using r(2,4) by (auto simp: info_of_def scheduler_uuid_def fun_eq_iff)
  then have pf: "platform_of ?m' = ?pf" by (simp add: platform_of_info fun_eq_iff)
  have "map_option ns_uuid (S sid) = map_option ns_uuid (nm_schedulers m sid)" for sid
    using r(2) by (simp add: scheduler_uuid_def)
  then have Sdom: "S sid = None \<longleftrightarrow> nm_schedulers m sid = None" for sid by (metis option.map_disc_iff)
  have "assignment ?m' w = asg w" for w
  proof (cases "w \<in> set (concat (map snd ?mt))")
    case True
    then obtain sid ws where sw: "(sid, ws) \<in> set ?mt" "w \<in> set ws" by auto
    then have "asg w = Some (Some sid)" using matched_of_mem[OF perm(2) sw(1)] asgB perm(1) by simp
    moreover have "assignment ?m' w = Some (Some sid)"
      using r(6) sw unfolding received_workers_def assignment_def by fastforce
    ultimately show ?thesis by simp
  next
    case False
    then have same: "assignment ?m' w = assignment m w" using r(5) by (simp add: assignment_def)
    have "set (matched_of mt sid) \<subseteq> set (concat (map snd ?mt))" for sid
      by (cases "map_of mt sid") (auto simp: matched_of_def perm(3) dest!: map_of_SomeD)
    then have not: "w \<notin> set (matched_of mt sid)" for sid using False by blast
    show ?thesis unfolding same by (rule unmatched_same[OF L(5) part asg not, symmetric])
  qed
  then have a': "assignment ?m' = asg" by blast
  have dom': "dom S = dom (nm_schedulers m)" using Sdom by (simp add: dom_def)
  have empty: "?B sid = []" if "nm_schedulers ?m' sid = None" for sid
    using that Sdom[of sid] L(4)[of sid] dom by (auto simp: matched_of_def split: option.split dest!: map_of_SomeD)
  have "nm_inv ?m' \<and> free_list ?m' = F \<and> demand_list ?m' = D \<and> assigned_list ?m' = ?B"
    using r(3) run1(2,3) part dem L(7) by (intro nm_invI empty) (simp_all add: a' pf v dom' del: dom_fun_upd)
  moreover have "received_workers mt out m ?m'"
    using r(6) unfolding received_workers_def perm(3) by simp
  ultimately show ?thesis using run1(1) r(1) mt G block
    by (intro exI[of _ out] exI[of _ ?m']) (simp add: process_queue_def queue_processed_def)
qed

end
