(* ===== verification/Node_Manager_Runs.thy ===== *)
theory Node_Manager_Runs
  imports Node_Manager_Queue
begin

text \<open>
  The node manager as a whole: its runs of orderly events from the empty state, as an instance of the
  event loops of \<open>Event_Loops\<close>, and its properties.
\<close>

section \<open>Runs\<close>

abbreviation nm_run :: "nm_event list \<Rightarrow> nm_output list \<Rightarrow> node_manager \<Rightarrow> bool" where
  "nm_run \<equiv> event_run nm_orderly nm_exec node_manager_new"

lemma orderly_queue_flag [simp]:
  "nm_orderly (m\<lparr>nm_need_process_queue := b\<rparr>) (NV_Queue order) = nm_orderly m (NV_Queue order)"
  by simp

lemma nm_exec_inv:
  assumes "nm_inv m" "nm_orderly m e"
  shows "\<exists>out m'. nm_exec m e = Some (out, m') \<and> nm_inv m'"
proof (cases e)
  case (NV_Queue order)
  then show ?thesis
    using process_queue_spec[of "m\<lparr>nm_need_process_queue := False\<rparr>" order] assms by auto
qed (use assms process_node_inv process_expiration_inv process_scheduler_inv in auto)

interpretation node_manager_loop: event_loop node_manager_new nm_orderly nm_exec nm_inv
  by unfold_locales (rule nm_inv_new, rule nm_exec_inv)

text \<open>A concrete run: a scheduler demands one 64-bit Linux node, two nodes connect and the queue is processed.\<close>

definition linux64 :: platform where
  "linux64 = Platform X86_64 Unix Linux"

definition demand_run :: "platform \<Rightarrow> nm_event list" where
  "demand_run first =
     [NV_Scheduler (NS_Connect 7 None 1 10 0), NV_Scheduler (NS_Message 0 (WorkersDemand (Some 1) [linux64])),
      NV_Node (ND_Connect 8 None first 4 2 11 0 0), NV_Node (ND_Connect 9 None linux64 4 3 12 1 1)]"

definition nm_after :: "nm_event list \<Rightarrow> node_manager" where
  "nm_after es = snd (the (exec_events nm_orderly nm_exec node_manager_new es))"

lemma nm_after_run:
  assumes "\<not> Option.is_none (exec_events nm_orderly nm_exec node_manager_new es)"
  shows "\<exists>outs. nm_run es outs (nm_after es)"
proof -
  obtain r where r: "exec_events nm_orderly nm_exec node_manager_new es = Some r"
    using some_by_eval[OF assms] .
  obtain outs m where "r = (outs, m)" by (cases r)
  then show ?thesis using exec_events_run[OF event_run.run_init, of nm_orderly nm_exec node_manager_new es outs m] r
    by (auto simp: nm_after_def)
qed

lemma demand_run_orderly: "\<exists>outs. nm_run (demand_run linux64) outs (nm_after (demand_run linux64))"
  by (rule nm_after_run) code_simp

text \<open>What a node is sent while it is disconnected, and connected.\<close>

lemma node_send_all_kept:
  "nd_disconnect_buffer n = Some b \<Longrightarrow> node_send_all n rs = ([], n\<lparr>nd_disconnect_buffer := Some (b @ rs)\<rparr>)"
  by (induction rs arbitrary: n b) (simp_all add: node_send_def)

lemma node_send_all_sent:
  "nd_disconnect_buffer n = None \<Longrightarrow> node_send_all n rs = (map (To_Node (nd_connection n)) rs, n)"
  by (induction rs) (simp_all add: node_send_def)

section \<open>Properties\<close>

text \<open>C7. In every run of orderly events the node manager handles the next orderly event without a panic:
  no absent entry is indexed, no absent timer is reset or removed, and the containers return.\<close>

theorem node_event_handled:
  assumes "nm_run es outs m" "nm_orderly m e"
  shows "\<exists>out m'. nm_exec m e = Some (out, m') \<and> nm_run (es @ [e]) (outs @ out) m'"
  using node_manager_loop.handled[OF assms] by blast

theorem node_event_handled_witness:
  "\<exists>outs out m'. nm_exec (nm_after (demand_run linux64)) (NV_Queue [0]) = Some (out, m') \<and>
     nm_run (demand_run linux64 @ [NV_Queue [0]]) (outs @ out) m'"
proof -
  obtain outs where run: "nm_run (demand_run linux64) outs (nm_after (demand_run linux64))" using demand_run_orderly ..
  have "nm_orderly (nm_after (demand_run linux64)) (NV_Queue [0])" by code_simp
  from node_event_handled[OF run this] show ?thesis by blast
qed

text \<open>C8. After every run of orderly events, a node waits in the queue exactly if it is assigned to nobody, and is
  in the set of a scheduler exactly if it is assigned to that one, each once. A demand has counted exactly the
  nodes its scheduler has, which are no more than it asks for and on platforms it supports, and a
  scheduler without a demand has none.\<close>

theorem nodes_partitioned:
  assumes "nm_run es outs m"
  shows "distinct (free_list m) \<and> (\<forall>w. w \<in> set (free_list m) \<longleftrightarrow> assignment m w = Some None) \<and>
    (\<forall>sid w. w \<in> set (assigned_list m sid) \<longleftrightarrow> assignment m w = Some (Some sid)) \<and>
    (\<forall>(sid, d) \<in> set (demand_list m). wd_provided_workers d = length (assigned_list m sid) \<and>
       distinct (assigned_list m sid) \<and>
       (\<forall>r. wd_required_workers d = Some r \<longrightarrow> length (assigned_list m sid) \<le> r) \<and>
       (\<forall>w \<in> set (assigned_list m sid). \<exists>p \<in> set (wd_supported_platforms d). platform_of m w = Some p)) \<and>
    (\<forall>sid. sid \<notin> fst ` set (demand_list m) \<longrightarrow> assigned_list m sid = [])"
proof -
  note L = nm_inv_lists[OF node_manager_loop.run_inv[OF assms]]
  have "distinct (assigned_list m sid)" for sid
    using lvs_queue_facts(1)[OF L(3)[of sid]] L(4)[of sid] by (cases "nm_schedulers m sid") auto
  then show ?thesis using L(5,6) lvs_queue_facts(1)[OF L(1)]
    by (auto simp: nm_partition_def nm_demands_def demand_met_def split: option.splits)
qed

theorem nodes_partitioned_witness:
  "assigned_list (nm_after (demand_run linux64 @ [NV_Queue [0]])) 0 = [0] \<and>
   assignment (nm_after (demand_run linux64 @ [NV_Queue [0]])) 0 = Some (Some 0)"
proof -
  have "\<exists>outs. nm_run (demand_run linux64 @ [NV_Queue [0]]) outs (nm_after (demand_run linux64 @ [NV_Queue [0]]))"
    by (rule nm_after_run) code_simp
  then obtain outs where run: "nm_run (demand_run linux64 @ [NV_Queue [0]]) outs (nm_after (demand_run linux64 @ [NV_Queue [0]]))" ..
  have assigned: "assigned_list (nm_after (demand_run linux64 @ [NV_Queue [0]])) 0 = [0]" by code_simp
  then have "0 \<in> set (assigned_list (nm_after (demand_run linux64 @ [NV_Queue [0]])) 0)" by simp
  from conjunct1[OF conjunct2[OF conjunct2[OF nodes_partitioned[OF run]]], rule_format, THEN iffD1, OF this] assigned
  show ?thesis by blast
qed

text \<open>C9. Processing the queue does what \<open>match_list\<close> does on lists: the nodes are taken from the front of the
  queue and go, one by one, to the oldest demand that still wants one of their platform; the rest of the queue
  stays, and no demand takes its first node. Every scheduler that gets nodes is told their identifiers,
  executors, addresses and platforms in one message, and every such node the address of its scheduler,
  or the messages are kept while the connection is lost.\<close>

theorem queue_matched:
  assumes "nm_run es outs m" "nm_orderly m (NV_Queue order)"
  shows "\<exists>out m' G F D mt. nm_exec m (NV_Queue order) = Some (out, m') \<and>
    match_list (platform_of m) (free_list m) (demand_list m) [] = (F, D, mt) \<and>
    free_list m = G @ F \<and> free_list m' = F \<and> demand_list m' = D \<and>
    (\<forall>sid. assigned_list m' sid = assigned_list m sid @ matched_of mt sid) \<and> received_workers mt out m m' \<and>
    (\<forall>p. F \<noteq> [] \<longrightarrow> platform_of m (hd F) = Some p \<longrightarrow> (\<forall>(sid, d) \<in> set D. \<not> demand_takes p d))"
proof -
  obtain out m' where "nm_exec m (NV_Queue order) = Some (out, m')" "queue_processed m out m'"
    using process_queue_spec[of "m\<lparr>nm_need_process_queue := False\<rparr>" order] node_manager_loop.run_inv[OF assms(1)] assms(2)
    by (auto simp: queue_processed_def matching_def received_workers_def)
  then show ?thesis unfolding queue_processed_def matching_def by metis
qed

theorem queue_matched_witness:
  "\<exists>out m'. nm_exec (nm_after (demand_run linux64)) (NV_Queue [0]) = Some (out, m') \<and>
     free_list m' = [1] \<and> assigned_list m' 0 = [0]"
proof -
  obtain outs where run: "nm_run (demand_run linux64) outs (nm_after (demand_run linux64))" using demand_run_orderly ..
  have ok: "nm_orderly (nm_after (demand_run linux64)) (NV_Queue [0])" by code_simp
  have "match_list (platform_of (nm_after (demand_run linux64))) (free_list (nm_after (demand_run linux64)))
      (demand_list (nm_after (demand_run linux64))) [] =
    ([1], [(0, \<lparr>wd_provided_workers = 1, wd_required_workers = Some 1, wd_supported_platforms = [linux64]\<rparr>)], [(0, [0])])"
    by code_simp
  moreover have "assigned_list (nm_after (demand_run linux64)) 0 = []" by code_simp
  ultimately show ?thesis using queue_matched[OF run ok] by (fastforce simp: matched_of_def)
qed

text \<open>Only the front of the queue is looked at: after an orderly run with two unassigned nodes of which the first is
  on another platform, the demand of a scheduler stays unmet although the second node would meet it.\<close>

lemma queue_blocked_by_front:
  "\<exists>outs. nm_run (demand_run WASM_PLATFORM @ [NV_Queue [0]]) outs (nm_after (demand_run WASM_PLATFORM @ [NV_Queue [0]])) \<and>
     free_list (nm_after (demand_run WASM_PLATFORM @ [NV_Queue [0]])) = [0, 1] \<and>
     demand_list (nm_after (demand_run WASM_PLATFORM @ [NV_Queue [0]])) =
       [(0, \<lparr>wd_provided_workers = 0, wd_required_workers = Some 1, wd_supported_platforms = [linux64]\<rparr>)] \<and>
     platform_of (nm_after (demand_run WASM_PLATFORM @ [NV_Queue [0]])) 1 = Some linux64 \<and>
     \<not> nm_need_process_queue (nm_after (demand_run WASM_PLATFORM @ [NV_Queue [0]]))"
proof -
  let ?es = "demand_run WASM_PLATFORM @ [NV_Queue [0]]"
  have "\<exists>outs. nm_run ?es outs (nm_after ?es)" by (rule nm_after_run) code_simp
  moreover have "free_list (nm_after ?es) = [0, 1]" by code_simp
  moreover have "demand_list (nm_after ?es) =
      [(0, \<lparr>wd_provided_workers = 0, wd_required_workers = Some 1, wd_supported_platforms = [linux64]\<rparr>)]" by code_simp
  moreover have "platform_of (nm_after ?es) 1 = Some linux64" by code_simp
  moreover have "\<not> nm_need_process_queue (nm_after ?es)" by code_simp
  ultimately show ?thesis by blast
qed

text \<open>A scheduler that comes back after its timer has run out makes the node manager panic: the expired timer leaves
  the session among the disconnected ones, and restoring it removes a timer that is gone.\<close>

lemma late_scheduler_panics:
  assumes "nm_run es outs m" "nm_schedulers m sid = Some s" "nm_orderly m (NV_Scheduler (NS_Disconnect sid key))"
  shows "\<exists>m1 out m2. nm_exec m (NV_Scheduler (NS_Disconnect sid key)) = Some ([], m1) \<and>
    nm_exec m1 (NV_Expired key) = Some (out, m2) \<and>
    nm_exec m2 (NV_Scheduler (NS_Connect (ns_uuid s) name address conn new_id)) = None"
  using assms(2) by (cases "nm_workers m sid") (simp_all add: process_expiration_def restore_scheduler_session_def Let_def)

text \<open>C10. No message to a node is lost while its connection is: what is sent to it after it has disconnected goes, in
  this order and before anything else, to the connection with which it comes back, and it keeps its
  identifier and its assignment.\<close>

theorem session_messages_kept:
  assumes "nm_run es outs m" "nm_workers m w = Some n"
  shows "\<exists>m1 n1 n2 m2. process_node m (ND_Disconnect w) = Some ([], m1) \<and> nm_workers m1 w = Some n1 \<and>
    node_send_all n1 rs = ([], n2) \<and>
    process_node (m1\<lparr>nm_workers := (nm_workers m1)(w \<mapsto> n2)\<rparr>) (ND_Connect (nd_uuid n) name p k address conn new_id new_key) =
      Some (map (To_Node conn) rs @ [Return_Id w], m2) \<and>
    nm_workers m2 w = Some (n\<lparr>nd_disconnect_buffer := None, nd_connection := conn\<rparr>) \<and> nm_disconnected m2 (nd_uuid n) = None"
proof -
  have "info_of m w = Some (nd_uuid n, nd_platform n, nd_expiration_key n)" using assms(2) by (simp add: info_of_def node_info_def)
  then obtain e where "nm_expirations m (nd_expiration_key n) = Some e"
    using nm_inv_lists(7)[OF node_manager_loop.run_inv[OF assms(1)]] unfolding nm_sessions_def by blast
  then show ?thesis using assms(2) by (simp add: node_send_all_kept node_send_all_sent restore_node_session_def)
qed

theorem session_messages_kept_witness:
  "\<exists>n m1 n1 n2 m2. nm_workers (nm_after (demand_run linux64)) 1 = Some n \<and>
     process_node (nm_after (demand_run linux64)) (ND_Disconnect 1) = Some ([], m1) \<and> nm_workers m1 1 = Some n1 \<and>
     node_send_all n1 [AssignClient 4, UnassignClient] = ([], n2) \<and>
     process_node (m1\<lparr>nm_workers := (nm_workers m1)(1 \<mapsto> n2)\<rparr>) (ND_Connect (nd_uuid n) None linux64 4 3 20 9 9) =
       Some ([To_Node 20 (AssignClient 4), To_Node 20 UnassignClient, Return_Id 1], m2)"
proof -
  obtain outs where run: "nm_run (demand_run linux64) outs (nm_after (demand_run linux64))" using demand_run_orderly ..
  have "\<not> Option.is_none (nm_workers (nm_after (demand_run linux64)) 1)" by code_simp
  then obtain n where n: "nm_workers (nm_after (demand_run linux64)) 1 = Some n" by (rule some_by_eval)
  from session_messages_kept[OF run n, of "[AssignClient 4, UnassignClient]" None linux64 4 3 20 9 9] n
  show ?thesis by fastforce
qed

end
