(* ===== verification/Task_Splitter.thy ===== *)
theory Task_Splitter
  imports Messages
begin

text \<open>
  How a job is cut into tasks: \<open>shared/src/task_manager\<close> (the job and task data) and
  \<open>task_manager/src/splitter.rs\<close>. A job has taxis and passengers; a task is a taxi with two complementary
  sets of passengers, a set being the bits of a \<open>u128\<close>. The splitter is an iterator over the tasks.
\<close>

unbundle bit_operations_syntax

section \<open>Job and task data\<close>

type_synonym u128 = "128 word"
type_synonym u32 = "32 word"
type_synonym distance = "64 word"

record job_data =
  jd_graph :: "u32 list list"
  jd_taxies :: "usize list"
  jd_passengers :: "(usize \<times> usize) list"

text \<open>\<open>JobData::validate\<close>: three loops that return early.\<close>

fun validate_rows :: "nat \<Rightarrow> u32 list list \<Rightarrow> bool" where
  "validate_rows vertex_count [] = True"
| "validate_rows vertex_count (vertex # rows) =
     (if length vertex \<noteq> vertex_count then False else validate_rows vertex_count rows)"

fun validate_taxies :: "nat \<Rightarrow> usize list \<Rightarrow> bool" where
  "validate_taxies vertex_count [] = True"
| "validate_taxies vertex_count (pos # taxies) =
     (if pos \<ge> vertex_count then False else validate_taxies vertex_count taxies)"

fun validate_passengers :: "nat \<Rightarrow> (usize \<times> usize) list \<Rightarrow> bool" where
  "validate_passengers vertex_count [] = True"
| "validate_passengers vertex_count ((pos, destination) # passengers) =
     (if pos \<ge> vertex_count \<or> destination \<ge> vertex_count then False
      else validate_passengers vertex_count passengers)"

definition validate :: "job_data \<Rightarrow> bool" where
  "validate d =
     (let vertex_count = length (jd_graph d) in
      if \<not> validate_rows vertex_count (jd_graph d) then False
      else if \<not> validate_taxies vertex_count (jd_taxies d) then False
      else if \<not> validate_passengers vertex_count (jd_passengers d) then False
      else True)"

record task_data =
  td_taxi :: usize
  td_combinations :: "u128 \<times> u128"

record task_result =
  tr_taxi :: usize
  tr_result :: "(u128 \<times> distance) \<times> (u128 \<times> distance)"

text \<open>\<open>split\<close>: the two words of a combination, as the key of a \<open>MultilevelVecMap\<close>.\<close>

definition split_words :: "u128 \<Rightarrow> nat list" where
  "split_words a = [unat (ucast a :: 64 word), unat (ucast (drop_bit 64 a) :: 64 word)]"

section \<open>Iterators and chunks\<close>

text \<open>\<open>Iterator::next_chunk\<close> of the standard library: \<open>Inr\<close> is a full chunk of \<open>n\<close> items, \<open>Inl\<close> what was left
  of an iterator that ended first. The step of the iterator may panic.\<close>

fun next_chunk :: "('s \<Rightarrow> ('a option \<times> 's) option) \<Rightarrow> nat \<Rightarrow> 's \<Rightarrow> (('a list + 'a list) \<times> 's) option" where
  "next_chunk nx 0 s = Some (Inr [], s)"
| "next_chunk nx (Suc n) s =
     do {
       (r, s) \<leftarrow> nx s;
       case r of
         None \<Rightarrow> Some (Inl [], s)
       | Some x \<Rightarrow>
           do {
             (c, s) \<leftarrow> next_chunk nx n s;
             Some (case c of Inl xs \<Rightarrow> Inl (x # xs) | Inr xs \<Rightarrow> Inr (x # xs), s)
           }
     }"

section \<open>The splitter\<close>

record task_splitter =
  ts_n :: usize
  ts_taxies :: usize
  ts_cur_taxi :: usize
  ts_max :: u128
  ts_mid :: u128
  ts_cur :: u128

definition total_tasks :: "task_splitter \<Rightarrow> u128" where
  "total_tasks s = ts_mid s * of_nat (ts_taxies s)"

definition splitter_new :: "usize \<Rightarrow> usize \<Rightarrow> task_splitter" where
  "splitter_new taxies passengers =
     (let comb = (2 :: u128) ^ wrap 32 passengers;
          (mx, mid) = (comb - 1, comb div 2)
      in \<lparr>ts_n = 0, ts_taxies = taxies, ts_cur_taxi = 0, ts_max = mx, ts_mid = mid, ts_cur = mid\<rparr>)"

definition splitter_next :: "task_splitter \<Rightarrow> (usize \<times> task_data) option \<times> task_splitter" where
  "splitter_next s =
     (if ts_cur_taxi s < ts_taxies s then
        (let data = (ts_n s, \<lparr>td_taxi = ts_cur_taxi s, td_combinations = (ts_cur s, ts_max s XOR ts_cur s)\<rparr>);
             s = s\<lparr>ts_n := usize_add (ts_n s) 1\<rparr>;
             s = (if ts_cur s = ts_max s
                  then s\<lparr>ts_cur_taxi := usize_add (ts_cur_taxi s) 1, ts_cur := ts_mid s\<rparr>
                  else s\<lparr>ts_cur := ts_cur s + 1\<rparr>)
         in (Some data, s))
      else (None, s))"

section \<open>What the splitter yields\<close>

text \<open>With \<open>p\<close> passengers a taxi has \<open>half p\<close> tasks; the task \<open>i\<close>, and the splitter that has yielded \<open>k\<close> tasks.\<close>

definition half :: "nat \<Rightarrow> nat" where
  "half p = 2 ^ (p - 1)"

definition task_of :: "nat \<Rightarrow> nat \<Rightarrow> usize \<times> task_data" where
  "task_of p i =
     (let c = of_nat (half p + i mod half p) in
      (i, \<lparr>td_taxi = i div half p, td_combinations = (c, (2 ^ p - 1) XOR c)\<rparr>))"

definition splitter_at :: "nat \<Rightarrow> nat \<Rightarrow> nat \<Rightarrow> task_splitter" where
  "splitter_at t p k =
     \<lparr>ts_n = k, ts_taxies = t, ts_cur_taxi = k div half p, ts_max = 2 ^ p - 1, ts_mid = of_nat (half p),
      ts_cur = of_nat (half p + k mod half p)\<rparr>"

text \<open>A job that fits: at least one passenger, fewer than 128, and as many tasks as \<open>usize\<close> can count.\<close>

definition job_fits :: "nat \<Rightarrow> nat \<Rightarrow> bool" where
  "job_fits t p \<longleftrightarrow> 0 < p \<and> p < 128 \<and> fits 64 (t * half p)"

lemma half_pos [simp]: "0 < half p"
  by (simp add: half_def)

lemma half_double: "0 < p \<Longrightarrow> 2 * half p = 2 ^ p"
  by (cases p) (simp_all add: half_def)

lemma half_bound: "0 < p \<Longrightarrow> p < 128 \<Longrightarrow> 2 * half p < 2 ^ 128"
  using half_double[of p] power_strict_increasing[of p 128 "2 :: nat"] by simp

lemma of_nat_half: "0 < p \<Longrightarrow> 2 * (of_nat (half p) :: u128) = 2 ^ p"
  using half_double[of p] by (metis of_nat_mult of_nat_numeral of_nat_power)

lemma half_mod: "half p + j mod half p < 2 * half p"
  using mod_less_divisor[OF half_pos[of p], of j] by linarith

lemma u128_of_nat_inject:
  assumes "a < 2 ^ 128" "b < 2 ^ 128"
  shows "(of_nat a :: u128) = of_nat b \<longleftrightarrow> a = b"
  using assms by (simp add: word_of_nat_eq_iff take_bit_nat_eq_self)

lemma splitter_new_at:
  assumes "0 < p" "p < 128"
  shows "splitter_new t p = splitter_at t p 0"
proof -
  have "wrap 32 p = p" using assms(2) by (simp add: wrap_def)
  moreover have "(2 ^ p :: u128) div 2 = of_nat (half p)"
  proof -
    have "unat (of_nat (2 ^ p) :: u128) = 2 ^ p"
      using power_strict_increasing[OF assms(2), of "2 :: nat"] by (simp only: unat_of_nat) simp
    then have "unat (2 ^ p :: u128) = 2 ^ p" by simp
    then have "unat ((2 ^ p :: u128) div 2) = 2 ^ p div 2" by (simp add: unat_div)
    also have "\<dots> = half p" using assms(1) by (cases p) (simp_all add: half_def)
    finally show ?thesis by (metis of_nat_unat ucast_id)
  qed
  ultimately show ?thesis by (simp add: splitter_new_def splitter_at_def)
qed

text \<open>The current combination, and when it is the last one.\<close>

lemma cur_is_max:
  assumes "0 < p" "p < 128"
  shows "(of_nat (half p + j mod half p) :: u128) = 2 ^ p - 1 \<longleftrightarrow> j mod half p = half p - 1"
proof -
  have "1 \<le> 2 * half p" using half_pos[of p] by linarith
  then have mx: "(2 ^ p - 1 :: u128) = of_nat (2 * half p - 1)"
    using of_nat_half[OF assms(1)] by (simp only: of_nat_diff of_nat_mult of_nat_numeral of_nat_1)
  have "(of_nat (half p + j mod half p) :: u128) = 2 ^ p - 1 \<longleftrightarrow> half p + j mod half p = 2 * half p - 1"
    unfolding mx using half_bound[OF assms] half_mod[of p j] by (intro u128_of_nat_inject) linarith+
  then show ?thesis using mod_less_divisor[OF half_pos[of p], of j] by linarith
qed

lemma splitter_next_at:
  assumes "job_fits t p" "k < t * half p"
  shows "splitter_next (splitter_at t p k) = (Some (task_of p k), splitter_at t p (Suc k))"
proof -
  have p: "0 < p" "p < 128" and fit: "t * half p < 2 ^ 64" using assms(1) by (auto simp: job_fits_def fits_def)
  have k: "k div half p < t" using assms(2) by (simp add: div_less_iff_less_mult mult.commute)
  have inc: "usize_add k 1 = k + 1" using assms(2) fit by (simp add: usize_max_def)
  have "k div half p + 1 \<le> usize_max"
    using assms(2) fit div_le_dividend[of k "half p"] by (simp add: usize_max_def del: div_le_dividend)
  then have inc2: "usize_add (k div half p) 1 = k div half p + 1" by (rule usize_add_small)
  show ?thesis
  proof (cases "k mod half p = half p - 1")
    case True
    then have "Suc k mod half p = 0" "Suc k div half p = Suc (k div half p)"
      using half_pos[of p] by (simp_all add: mod_Suc div_Suc)
    then show ?thesis using k inc inc2 True cur_is_max[OF p, of k]
      by (simp add: splitter_next_def splitter_at_def task_of_def Let_def)
  next
    case False
    then have "Suc k mod half p = Suc (k mod half p)" "Suc k div half p = k div half p"
      using half_pos[of p] by (auto simp: mod_Suc div_Suc)
    then show ?thesis using k inc inc2 False cur_is_max[OF p, of k]
      by (simp add: splitter_next_def splitter_at_def task_of_def Let_def ac_simps)
  qed
qed

lemma splitter_next_end: "splitter_next (splitter_at t p (t * half p)) = (None, splitter_at t p (t * half p))"
  by (simp add: splitter_next_def splitter_at_def)

definition splitter_chunk :: "nat \<Rightarrow> task_splitter \<Rightarrow> (((usize \<times> task_data) list + (usize \<times> task_data) list) \<times> task_splitter) option" where
  "splitter_chunk = next_chunk (\<lambda>s. Some (splitter_next s))"

lemma splitter_chunk_spec:
  assumes "job_fits t p" "k \<le> t * half p"
  shows "splitter_chunk n (splitter_at t p k) =
    Some (if k + n \<le> t * half p then (Inr (map (task_of p) [k..<k + n]), splitter_at t p (k + n))
          else (Inl (map (task_of p) [k..<t * half p]), splitter_at t p (t * half p)))"
  using assms(2)
proof (induction n arbitrary: k)
  case 0
  then show ?case by (simp add: splitter_chunk_def)
next
  case (Suc n)
  show ?case
  proof (cases "k = t * half p")
    case True
    then show ?thesis by (simp add: splitter_chunk_def splitter_next_end)
  next
    case False
    then have k: "k < t * half p" using Suc.prems by simp
    then have "splitter_chunk n (splitter_at t p (Suc k)) =
      Some (if Suc k + n \<le> t * half p then (Inr (map (task_of p) [Suc k..<Suc k + n]), splitter_at t p (Suc k + n))
          else (Inl (map (task_of p) [Suc k..<t * half p]), splitter_at t p (t * half p)))"
      using Suc.IH[of "Suc k"] by simp
    then show ?thesis
      using k splitter_next_at[OF assms(1) k] upt_conv_Cons[of k "k + Suc n"] upt_conv_Cons[OF k]
      by (auto simp: splitter_chunk_def)
  qed
qed

section \<open>Complementary combinations\<close>

lemma combination_complement:
  assumes "c < 2 ^ p" "p < 128"
  shows "(2 ^ p - 1 :: u128) XOR of_nat c = of_nat (2 ^ p - 1 - c)"
proof -
  have c: "(of_nat c :: u128) AND mask p = of_nat c"
    using assms by (simp flip: take_bit_eq_mask add: take_bit_of_nat take_bit_nat_eq_self)
  let ?x = "mask p XOR (of_nat c :: u128)"
  have "?x AND of_nat c = 0" using c by (metis (no_types, lifting) and.commute bit.conj_xor_distrib2 and.idem xor_self_eq)
  then have "?x + of_nat c = ?x XOR of_nat c" by (rule disjunctive_add_eq_xor)
  also have "\<dots> = mask p" by (simp add: xor.assoc)
  finally have "?x = mask p - of_nat c" by (simp add: eq_diff_eq)
  then show ?thesis using assms(1) by (simp add: mask_eq_exp_minus_1 of_nat_diff)
qed

lemma task_of_combinations:
  assumes "0 < p" "p < 128"
  shows "td_combinations (snd (task_of p i)) = (of_nat (half p + i mod half p), of_nat (half p - 1 - i mod half p))"
proof -
  have "half p + i mod half p < 2 ^ p" using half_double[OF assms(1)] mod_less_divisor[OF half_pos[of p], of i] by linarith
  moreover have "2 ^ p - 1 - (half p + i mod half p) = half p - 1 - i mod half p" using half_double[OF assms(1)] by linarith
  ultimately show ?thesis
    using combination_complement[OF _ assms(2), of "half p + i mod half p"]
    by (simp add: task_of_def Let_def del: of_nat_add of_nat_diff)
qed

text \<open>Every combination of a taxi is in exactly one task.\<close>

lemma combination_task:
  assumes fits: "job_fits t p" and x: "x < t" and c: "c < 2 ^ p"
  shows "\<exists>!i. i < t * half p \<and> td_taxi (snd (task_of p i)) = x \<and>
    (of_nat c = fst (td_combinations (snd (task_of p i))) \<or> of_nat c = snd (td_combinations (snd (task_of p i))))"
proof -
  have p: "0 < p" "p < 128" using fits by (auto simp: job_fits_def)
  let ?h = "half p" and ?r = "if half p \<le> c then c - half p else half p - 1 - c"
  have h: "2 * ?h = 2 ^ p" "2 * ?h < 2 ^ 128" "0 < ?h" using half_double[OF p(1)] half_bound[OF p] by auto
  have r: "?r < ?h" using c h by auto
  have eq: "(of_nat c = fst (td_combinations (snd (task_of p i))) \<or> of_nat c = snd (td_combinations (snd (task_of p i)))) \<longleftrightarrow>
      i mod ?h = ?r" for i
  proof -
    have m: "i mod ?h < ?h" using h(3) by simp
    have 1: "(of_nat c :: u128) = of_nat (?h + i mod ?h) \<longleftrightarrow> c = ?h + i mod ?h"
      and 2: "(of_nat c :: u128) = of_nat (?h - 1 - i mod ?h) \<longleftrightarrow> c = ?h - 1 - i mod ?h"
      using c h m by (intro u128_of_nat_inject; linarith)+
    have "(c = h + m \<or> c = h - 1 - m) \<longleftrightarrow> m = (if h \<le> c then c - h else h - 1 - c)" if "m < h" "c < 2 * h" for m h
      using that by auto
    then show ?thesis unfolding task_of_combinations[OF p] fst_conv snd_conv 1 2 using m c h(1) by metis
  qed
  have tx: "td_taxi (snd (task_of p i)) = i div ?h" for i by (simp add: task_of_def Let_def)
  show ?thesis unfolding eq tx
  proof (rule ex1I[of _ "x * ?h + ?r"])
    have "x * ?h + ?r < (x + 1) * ?h" using r by simp
    also have "\<dots> \<le> t * ?h" using x by (intro mult_le_mono1) simp
    finally show "x * ?h + ?r < t * ?h \<and> (x * ?h + ?r) div ?h = x \<and> (x * ?h + ?r) mod ?h = ?r" using r by simp
  next
    fix i assume "i < t * ?h \<and> i div ?h = x \<and> i mod ?h = ?r"
    then show "i = x * ?h + ?r" by (metis div_mult_mod_eq)
  qed
qed

lemma total_tasks_at:
  assumes "job_fits t p"
  shows "unat (total_tasks (splitter_at t p k)) = t * half p"
proof -
  have "t * half p < 2 ^ 128" using assms by (simp add: job_fits_def fits_def)
  then have "unat (of_nat (half p * t) :: u128) = t * half p" by (simp only: unat_of_nat mult.commute) simp
  then show ?thesis by (simp add: total_tasks_def splitter_at_def)
qed

end
