(* ===== verification/Shortest_Paths.thy ===== *)
theory Shortest_Paths
  imports Bit_Set Task_Splitter "HOL-Library.Product_Lexorder"
begin

text \<open>
  The first half of the code that the workers run, \<open>task_manager/job/src/path_finding.rs\<close>: Dijkstra's algorithm on an
  adjacency matrix in which \<open>u32::MAX\<close> is no edge, and \<open>reduce_graph\<close>, which replaces the rows of the
  vertices of a job by their distances. The specification is by walks: \<open>shortest\<close> says what an entry of the
  result is. \<open>None\<close> is a panic; the loop is a partial function, so that \<open>None\<close> is also a loop without end.
\<close>

section \<open>Dijkstra's algorithm\<close>

text \<open>\<open>BinaryHeap\<close> of the standard library over \<open>Reverse\<close>: a collection whose \<open>pop\<close> removes a least element.\<close>

definition heap_pop :: "'a :: linorder list \<Rightarrow> ('a \<times> 'a list) option" where
  "heap_pop h = (if h = [] then None else (let m = min_list h in Some (m, remove1 m h)))"

type_synonym graph = "u32 list list"

text \<open>The loop over the row of the current vertex; \<open>neighbor\<close> is the position of the first entry of the rest.\<close>

fun relax_edges ::
  "bitset_core \<Rightarrow> bit_set \<Rightarrow> u32 \<Rightarrow> nat \<Rightarrow> u32 list \<Rightarrow> (u32 \<times> usize) list \<Rightarrow> u32 list \<Rightarrow> ((u32 \<times> usize) list \<times> u32 list) option" where
  "relax_edges B visited current_distance neighbor [] p_queue distances = Some (p_queue, distances)"
| "relax_edges B visited current_distance neighbor (weight # row) p_queue distances =
     do {
       c \<leftarrow> if weight \<noteq> - 1 then bsv_contains B visited neighbor else Some True;
       if weight \<noteq> - 1 \<and> \<not> c then
         do {
           let distance = current_distance + weight;
           old \<leftarrow> vec_get distances neighbor;
           if distance < old then
             relax_edges B visited current_distance (Suc neighbor) row ((distance, neighbor) # p_queue) (distances[neighbor := distance])
           else relax_edges B visited current_distance (Suc neighbor) row p_queue distances
         }
       else relax_edges B visited current_distance (Suc neighbor) row p_queue distances
     }"

partial_function (option) dijkstra_loop ::
  "bitset_core \<Rightarrow> graph \<Rightarrow> (u32 \<times> usize) list \<Rightarrow> bit_set \<Rightarrow> u32 list \<Rightarrow> u32 list option" where
  [code]: "dijkstra_loop B adjacency_matrix p_queue visited distances =
     (case heap_pop p_queue of
        None \<Rightarrow> Some distances
      | Some (p, p_queue) \<Rightarrow>
          do {
            c \<leftarrow> bsv_contains B visited (snd p);
            if c then dijkstra_loop B adjacency_matrix p_queue visited distances
            else do {
              (_, visited) \<leftarrow> bsv_insert B visited (snd p);
              row \<leftarrow> vec_get adjacency_matrix (snd p);
              (p_queue, distances) \<leftarrow> relax_edges B visited (fst p) 0 row p_queue distances;
              dijkstra_loop B adjacency_matrix p_queue visited distances
            }
          })"

definition dijkstra :: "bitset_core \<Rightarrow> graph \<Rightarrow> usize \<Rightarrow> u32 list option" where
  "dijkstra B adjacency_matrix start =
     (let n = length adjacency_matrix;
          distances = replicate n (- 1)
      in if start < n then dijkstra_loop B adjacency_matrix [(0, start)] (bsv_with_capacity n) (distances[start := 0]) else None)"

section \<open>The graph of a job\<close>

definition reduce_vertex :: "bitset_core \<Rightarrow> usize \<Rightarrow> graph \<times> bit_set \<Rightarrow> (graph \<times> bit_set) option" where
  "reduce_vertex B vertex st =
     (case st of (g, visited) \<Rightarrow>
        do {
          c \<leftarrow> bsv_contains B visited vertex;
          if \<not> c then
            do {
              shortest_paths \<leftarrow> dijkstra B g vertex;
              (_, visited) \<leftarrow> bsv_insert B visited vertex;
              Some (g[vertex := shortest_paths], visited)
            }
          else Some (g, visited)
        })"

fun reduce_passengers :: "bitset_core \<Rightarrow> (usize \<times> usize) list \<Rightarrow> graph \<times> bit_set \<Rightarrow> (graph \<times> bit_set) option" where
  "reduce_passengers B [] st = Some st"
| "reduce_passengers B ((start, finish) # passengers) st =
     do {
       st \<leftarrow> reduce_vertex B start st;
       st \<leftarrow> reduce_vertex B finish st;
       reduce_passengers B passengers st
     }"

fun reduce_taxies :: "bitset_core \<Rightarrow> usize list \<Rightarrow> graph \<times> bit_set \<Rightarrow> (graph \<times> bit_set) option" where
  "reduce_taxies B [] st = Some st"
| "reduce_taxies B (vertex # taxies) st =
     do {
       st \<leftarrow> reduce_vertex B vertex st;
       reduce_taxies B taxies st
     }"

definition reduce_graph :: "bitset_core \<Rightarrow> job_data \<Rightarrow> job_data option" where
  "reduce_graph B d =
     do {
       st \<leftarrow> reduce_passengers B (jd_passengers d) (jd_graph d, bsv_with_capacity (length (jd_graph d)));
       (g, _) \<leftarrow> reduce_taxies B (jd_taxies d) st;
       Some (d\<lparr>jd_graph := g\<rparr>)
     }"

section \<open>Walks\<close>

text \<open>\<open>walk g u v c\<close>: there is a walk from \<open>u\<close> to \<open>v\<close> whose weights sum up to \<open>c\<close>.\<close>

inductive walk :: "graph \<Rightarrow> nat \<Rightarrow> nat \<Rightarrow> nat \<Rightarrow> bool" for g u where
  walk_refl: "u < length g \<Longrightarrow> walk g u u 0"
| walk_edge: "walk g u v c \<Longrightarrow> x < length g \<Longrightarrow> g ! v ! x \<noteq> - 1 \<Longrightarrow> walk g u x (c + unat (g ! v ! x))"

definition shortest :: "graph \<Rightarrow> nat \<Rightarrow> nat \<Rightarrow> u32 \<Rightarrow> bool" where
  "shortest g u v d \<longleftrightarrow>
     (if d = - 1 then \<not> (\<exists>c. walk g u v c) else walk g u v (unat d) \<and> (\<forall>c. walk g u v c \<longrightarrow> unat d \<le> c))"

text \<open>A square matrix whose weights and distances are at most \<open>K\<close>, so that the sums of two do not overflow.\<close>

definition square :: "graph \<Rightarrow> bool" where
  "square g \<longleftrightarrow> (\<forall>row \<in> set g. length row = length g)"

definition graph_fits :: "nat \<Rightarrow> graph \<Rightarrow> bool" where
  "graph_fits K g \<longleftrightarrow> square g \<and> 2 * K < 2 ^ 32 - 1 \<and>
     (\<forall>u < length g. \<forall>v < length g. g ! u ! v \<noteq> - 1 \<longrightarrow> unat (g ! u ! v) \<le> K) \<and>
     (\<forall>u v c. walk g u v c \<longrightarrow> (\<exists>c' \<le> K. walk g u v c'))"

lemma walk_less: "walk g u v c \<Longrightarrow> u < length g \<and> v < length g"
  by (induction rule: walk.induct) auto

lemma walk_trans: "walk g v x c' \<Longrightarrow> walk g u v c \<Longrightarrow> walk g u x (c + c')"
proof (induction rule: walk.induct)
  case (walk_edge y c' x)
  then show ?case using walk.walk_edge[of g u y "c + c'" x] by (simp add: add.assoc)
qed simp

lemma max_u32: "x \<noteq> (- 1 :: u32) \<longleftrightarrow> unat x < 2 ^ 32 - 1"
proof -
  have "unat (- 1 :: u32) = 2 ^ 32 - 1" by (simp add: unsigned_minus_1_eq_mask mask_eq_exp_minus_1)
  moreover have "unat x < 2 ^ 32" using unsigned_less[of x, where 'a = nat] by simp
  ultimately show ?thesis unfolding word_unat_eq_iff by linarith
qed

lemma square_nth: "square g \<Longrightarrow> u < length g \<Longrightarrow> length (g ! u) = length g"
  by (simp add: square_def)

lemma shortest_unique:
  assumes "shortest g u v d" "shortest g u v d'"
  shows "d = d'"
  using assms by (auto simp: shortest_def word_unat_eq_iff split: if_splits intro: antisym)

section \<open>Relaxing the edges of a vertex\<close>

definition relaxed :: "nat set \<Rightarrow> u32 \<Rightarrow> u32 list \<Rightarrow> u32 list \<Rightarrow> nat \<Rightarrow> u32" where
  "relaxed V d row D j = (if row ! j \<noteq> - 1 \<and> j \<notin> V \<and> d + row ! j < D ! j then d + row ! j else D ! j)"

context bitset_core_laws
begin

lemma relax_edges_from:
  assumes "k + length ws \<le> length D"
  shows "\<exists>Q' D'. relax_edges B s d k ws Q D = Some (Q', D') \<and> length D' = length D \<and>
    (\<forall>j < length D. D' ! j = (if k \<le> j \<and> j < k + length ws \<and> ws ! (j - k) \<noteq> - 1 \<and> j \<notin> bs_set s \<and> d + ws ! (j - k) < D ! j
       then d + ws ! (j - k) else D ! j)) \<and>
    set Q' = set Q \<union> {(D' ! j, j) | j. j < length D \<and> D' ! j \<noteq> D ! j}"
  using assms
proof (induction ws arbitrary: k Q D)
  case Nil
  then show ?case by (auto simp: linorder_not_less[symmetric])
next
  case (Cons w ws)
  define upd where "upd \<longleftrightarrow> w \<noteq> - 1 \<and> k \<notin> bs_set s \<and> d + w < D ! k"
  let ?Q = "if upd then (d + w, k) # Q else Q" and ?D = "if upd then D[k := d + w] else D"
  have k: "k < length D" using Cons.prems by simp
  have step: "relax_edges B s d k (w # ws) Q D = relax_edges B s d (Suc k) ws ?Q ?D"
    using k by (auto simp: upd_def bsv_contains_spec vec_get_def Let_def)
  have "Suc k + length ws \<le> length ?D" using Cons.prems by simp
  from Cons.IH[OF this, of ?Q] obtain Q' D' where
    r: "relax_edges B s d (Suc k) ws ?Q ?D = Some (Q', D')" "length D' = length ?D"
    "\<forall>j < length ?D. D' ! j = (if Suc k \<le> j \<and> j < Suc k + length ws \<and> ws ! (j - Suc k) \<noteq> - 1 \<and> j \<notin> bs_set s \<and> d + ws ! (j - Suc k) < ?D ! j
       then d + ws ! (j - Suc k) else ?D ! j)"
    "set Q' = set ?Q \<union> {(D' ! j, j) | j. j < length ?D \<and> D' ! j \<noteq> ?D ! j}" by blast
  have len: "length ?D = length D" by simp
  have Dk: "D' ! k = ?D ! k" using r(3) k len by simp
  have D': "D' ! j = (if k \<le> j \<and> j < k + length (w # ws) \<and> (w # ws) ! (j - k) \<noteq> - 1 \<and> j \<notin> bs_set s \<and> d + (w # ws) ! (j - k) < D ! j
       then d + (w # ws) ! (j - k) else D ! j)" if "j < length D" for j
  proof (cases "j = k")
    case True
    then show ?thesis using Dk k by (auto simp: upd_def)
  next
    case False
    then show ?thesis using r(3) that len by (auto simp: nth_Cons' Suc_le_eq)
  qed
  have "{(D' ! j, j) | j. j < length ?D \<and> D' ! j \<noteq> ?D ! j} = {(D' ! j, j) | j. j < length D \<and> D' ! j \<noteq> D ! j \<and> j \<noteq> k}"
    using Dk len by (auto simp: nth_list_update split: if_splits) (metis nth_list_update_neq)
  moreover have "set ?Q = set Q \<union> {(D' ! j, j) | j. j < length D \<and> D' ! j \<noteq> D ! j \<and> j = k}"
    using Dk k by (auto simp: upd_def)
  ultimately have "set Q' = set Q \<union> {(D' ! j, j) | j. j < length D \<and> D' ! j \<noteq> D ! j}" unfolding r(4) by auto
  then show ?case unfolding step using r(1,2) D' len by auto
qed

lemma relax_edges_spec:
  assumes "length row = length D"
  obtains Q' D' where "relax_edges B s d 0 row Q D = Some (Q', D')" "length D' = length D"
    "\<forall>j < length D. D' ! j = relaxed (bs_set s) d row D j" "set Q' = set Q \<union> {(D' ! j, j) | j. j < length D \<and> D' ! j \<noteq> D ! j}"
  using relax_edges_from[of 0 row D s d Q] assms that by (auto simp: relaxed_def)

end

section \<open>The invariant of the loop\<close>

text \<open>Every entry that is set is the sum of a walk, and least for the visited vertices; the queue has an entry for every vertex
  that was reached and is not visited, and the edges of the visited vertices are relaxed.\<close>

definition dijkstra_inv :: "graph \<Rightarrow> nat \<Rightarrow> (u32 \<times> usize) list \<Rightarrow> nat set \<Rightarrow> u32 list \<Rightarrow> bool" where
  "dijkstra_inv g s Q V D \<longleftrightarrow> s < length g \<and> length D = length g \<and> V \<subseteq> {..<length g} \<and> D ! s = 0 \<and>
     (\<forall>v < length g. D ! v \<noteq> - 1 \<longrightarrow> walk g s v (unat (D ! v))) \<and>
     (\<forall>v \<in> V. D ! v \<noteq> - 1 \<and> (\<forall>c. walk g s v c \<longrightarrow> unat (D ! v) \<le> c)) \<and>
     (\<forall>(d, v) \<in> set Q. v < length g \<and> D ! v \<le> d \<and> d \<noteq> - 1) \<and>
     (\<forall>v < length g. v \<notin> V \<longrightarrow> D ! v \<noteq> - 1 \<longrightarrow> (D ! v, v) \<in> set Q) \<and>
     (\<forall>u \<in> V. \<forall>v < length g. v \<notin> V \<longrightarrow> g ! u ! v \<noteq> - 1 \<longrightarrow> D ! v \<noteq> - 1 \<and> unat (D ! v) \<le> unat (D ! u) + unat (g ! u ! v))"

lemma dijkstra_invD:
  assumes "dijkstra_inv g s Q V D"
  shows "s < length g" "length D = length g" "V \<subseteq> {..<length g}" "D ! s = 0"
    "\<And>v. v < length g \<Longrightarrow> D ! v \<noteq> - 1 \<Longrightarrow> walk g s v (unat (D ! v))"
    "\<And>v c. v \<in> V \<Longrightarrow> walk g s v c \<Longrightarrow> unat (D ! v) \<le> c" "\<And>v. v \<in> V \<Longrightarrow> D ! v \<noteq> - 1"
    "\<And>d v. (d, v) \<in> set Q \<Longrightarrow> v < length g \<and> D ! v \<le> d \<and> d \<noteq> - 1"
    "\<And>v. v < length g \<Longrightarrow> v \<notin> V \<Longrightarrow> D ! v \<noteq> - 1 \<Longrightarrow> (D ! v, v) \<in> set Q"
    "\<And>u v. u \<in> V \<Longrightarrow> v < length g \<Longrightarrow> v \<notin> V \<Longrightarrow> g ! u ! v \<noteq> - 1 \<Longrightarrow>
       D ! v \<noteq> - 1 \<and> unat (D ! v) \<le> unat (D ! u) + unat (g ! u ! v)"
  using assms by (auto simp: dijkstra_inv_def)

text \<open>A walk to a vertex that is not visited leaves the visited ones over an entry that is not greater.\<close>

lemma frontier:
  assumes inv: "dijkstra_inv g s Q V D" and walk: "walk g s x c"
  shows "(x \<in> V \<and> unat (D ! x) \<le> c) \<or> (\<exists>y < length g. y \<notin> V \<and> D ! y \<noteq> - 1 \<and> unat (D ! y) \<le> c)"
  using walk
proof (induction rule: walk.induct)
  case walk_refl
  have "D ! s \<noteq> - 1" using dijkstra_invD(4)[OF inv] by simp
  then show ?case using walk_refl dijkstra_invD(4)[OF inv] by auto
next
  case (walk_edge v c x)
  from walk_edge.IH show ?case
  proof (elim disjE exE conjE)
    assume v: "v \<in> V" "unat (D ! v) \<le> c"
    show ?thesis
    proof (cases "x \<in> V")
      case True
      then show ?thesis using dijkstra_invD(6)[OF inv True walk.walk_edge[OF walk_edge.hyps]] by simp
    next
      case False
      then show ?thesis using dijkstra_invD(10)[OF inv v(1) walk_edge.hyps(2) False walk_edge.hyps(3)] v(2) walk_edge.hyps(2)
        by (intro disjI2 exI[of _ x]) linarith
    qed
  next
    fix y assume "y < length g" "y \<notin> V" "D ! y \<noteq> - 1" "unat (D ! y) \<le> c"
    then show ?thesis by (meson trans_le_add1)
  qed
qed

lemma heap_popD:
  assumes "heap_pop h = Some (m, h')"
  shows "m \<in> set h" "\<And>x. x \<in> set h \<Longrightarrow> m \<le> x" "h \<noteq> []" "h' = remove1 m h"
proof -
  show ne: "h \<noteq> []" and "h' = remove1 m h" using assms by (auto simp: heap_pop_def Let_def split: if_splits)
  have m: "m = Min (set h)" using assms ne by (auto simp: heap_pop_def Let_def min_list_Min split: if_splits)
  show "m \<in> set h" using m ne by simp
  show "m \<le> x" if "x \<in> set h" for x using m that by simp
qed

lemma popped_least:
  assumes inv: "dijkstra_inv g s Q V D" and pop: "heap_pop Q = Some ((d, v), Q')" and new: "v \<notin> V"
  shows "d = D ! v" "v < length g" "walk g s v (unat d)" "\<And>c. walk g s v c \<Longrightarrow> unat d \<le> c" "d \<noteq> - 1"
proof -
  note H = heap_popD[OF pop]
  have v: "v < length g" "D ! v \<le> d" "d \<noteq> - 1" using dijkstra_invD(8)[OF inv H(1)] by auto
  then show "v < length g" "d \<noteq> - 1" by auto
  have "unat (D ! v) < 2 ^ 32 - 1" using v(2,3) unfolding max_u32 word_le_nat_alt by linarith
  then have Dv: "D ! v \<noteq> - 1" unfolding max_u32 .
  have "(d, v) \<le> (D ! v, v)" using H(2) dijkstra_invD(9)[OF inv v(1) new Dv] .
  then show d: "d = D ! v" using v(2) by auto
  show "walk g s v (unat d)" unfolding d by (rule dijkstra_invD(5)[OF inv v(1) Dv])
  show "unat d \<le> c" if w: "walk g s v c" for c
  proof -
    obtain y where y: "y < length g" "y \<notin> V" "D ! y \<noteq> - 1" "unat (D ! y) \<le> c" using frontier[OF inv w] new by auto
    have "(d, v) \<le> (D ! y, y)" using H(2) dijkstra_invD(9)[OF inv y(1-3)] .
    then have "unat d \<le> unat (D ! y)" by (auto simp: word_le_nat_alt word_less_nat_alt)
    then show ?thesis using y(4) by simp
  qed
qed

text \<open>An entry of a visited vertex is dropped.\<close>

lemma inv_skip:
  assumes inv: "dijkstra_inv g s Q V D" and pop: "heap_pop Q = Some ((d, v), Q')" and old: "v \<in> V"
  shows "dijkstra_inv g s Q' V D"
proof -
  have Q': "Q' = remove1 (d, v) Q" by (rule heap_popD(4)[OF pop])
  have sub: "set Q' \<subseteq> set Q" unfolding Q' by (rule set_remove1_subset)
  have keep: "(D ! x, x) \<in> set Q'" if "(D ! x, x) \<in> set Q" "x \<notin> V" for x
    using that old unfolding Q' by (subst in_set_remove1) auto
  have "\<forall>(d, v) \<in> set Q'. v < length g \<and> D ! v \<le> d \<and> d \<noteq> - 1" using dijkstra_invD(8)[OF inv] sub by blast
  moreover have "\<forall>x < length g. x \<notin> V \<longrightarrow> D ! x \<noteq> - 1 \<longrightarrow> (D ! x, x) \<in> set Q'" using keep dijkstra_invD(9)[OF inv] by blast
  ultimately show ?thesis using inv by (simp add: dijkstra_inv_def)
qed

text \<open>The edges of a vertex that is visited now are relaxed.\<close>

lemma relaxed_cases:
  assumes "u + unat w < 2 ^ 32 - 1" "unat d = u" "w \<noteq> - 1" "j \<notin> V" "row ! j = w"
  shows "unat (relaxed V d row D j) = min (unat (D ! j)) (u + unat w)"
proof -
  have "unat (d + w) = u + unat w" using assms(1,2) by (simp add: unat_word_ariths)
  then show ?thesis using assms(3-5) by (auto simp: relaxed_def word_less_nat_alt min_def)
qed

lemma inv_visit:
  assumes fits: "graph_fits K g" and inv: "dijkstra_inv g s Q V D" and pop: "heap_pop Q = Some ((d, v), Q1)" and new: "v \<notin> V"
    and len: "length D' = length D" and D': "\<And>j. j < length D \<Longrightarrow> D' ! j = relaxed (insert v V) d (g ! v) D j"
    and Q': "set Q' = set Q1 \<union> {(D' ! j, j) | j. j < length D \<and> D' ! j \<noteq> D ! j}"
  shows "dijkstra_inv g s Q' (insert v V) D'"
proof -
  let ?n = "length g" and ?V = "insert v V"
  note I = dijkstra_invD[OF inv] and P = popped_least[OF inv pop new]
  have n: "length D = ?n" by (rule I(2))
  have fit: "unat d + unat (g ! v ! j) < 2 ^ 32 - 1" if "j < ?n" "g ! v ! j \<noteq> - 1" for j
  proof -
    obtain c where "c \<le> K" "walk g s v c" using fits P(3) unfolding graph_fits_def by blast
    then have "unat d \<le> K" using P(4) by fastforce
    moreover have "unat (g ! v ! j) \<le> K" using fits that P(2) by (simp add: graph_fits_def)
    ultimately show ?thesis using fits by (simp add: graph_fits_def)
  qed
  have vis: "D' ! j = D ! j" if "j \<in> ?V" "j < ?n" for j using D'[of j] that n by (auto simp: relaxed_def)
  have edge: "unat (D' ! j) = min (unat (D ! j)) (unat d + unat (g ! v ! j))" if "j < ?n" "j \<notin> ?V" "g ! v ! j \<noteq> - 1" for j
    using relaxed_cases[OF fit[OF that(1,3)] refl that(3,2) refl, of D] D'[of j] that(1) n by simp
  have less: "D' ! j \<le> D ! j" if "j < ?n" for j using D'[of j] that n by (auto simp: relaxed_def)
  have changed: "j \<notin> ?V \<and> g ! v ! j \<noteq> - 1 \<and> unat (D' ! j) = unat d + unat (g ! v ! j)" if "j < ?n" "D' ! j \<noteq> D ! j" for j
  proof -
    have j: "j \<notin> ?V" "g ! v ! j \<noteq> - 1" using D'[of j] that n by (auto simp: relaxed_def split: if_splits)
    then show ?thesis using edge[OF that(1) j] that(2) by (auto simp: min_def word_unat_eq_iff split: if_splits)
  qed
  have "D' ! s = 0"
  proof (cases "D' ! s = D ! s")
    case False
    then show ?thesis using less[OF I(1)] I(4) by (simp add: word_le_0_iff)
  qed (use I(4) in simp)
  moreover have "walk g s j (unat (D' ! j))" if "j < ?n" "D' ! j \<noteq> - 1" for j
  proof (cases "D' ! j = D ! j")
    case False
    from changed[OF that(1) this] show ?thesis using walk.walk_edge[OF P(3) that(1)] by simp
  qed (use I(5) that in simp)
  moreover have "D' ! j \<noteq> - 1 \<and> (\<forall>c. walk g s j c \<longrightarrow> unat (D' ! j) \<le> c)" if "j \<in> ?V" for j
  proof -
    have "D' ! j = D ! j" using that vis[of j] I(3) P(2) by blast
    then show ?thesis using that I(6,7) P by (cases "j = v") auto
  qed
  moreover have "j < ?n \<and> D' ! j \<le> e \<and> e \<noteq> - 1" if "(e, j) \<in> set Q'" for e j
  proof -
    from that consider "(e, j) \<in> set Q1" | "e = D' ! j" "j < ?n" "D' ! j \<noteq> D ! j" unfolding Q' using n by auto
    then show ?thesis
    proof cases
      case 1
      then have "(e, j) \<in> set Q" using heap_popD(4)[OF pop] set_remove1_subset by fastforce
      then show ?thesis using I(8) less order.trans by blast
    next
      case 2
      then show ?thesis using changed[of j] fit[of j] unfolding max_u32 by simp
    qed
  qed
  moreover have "(D' ! j, j) \<in> set Q'" if "j < ?n" "j \<notin> ?V" "D' ! j \<noteq> - 1" for j
  proof (cases "D' ! j = D ! j")
    case True
    then have "(D' ! j, j) \<in> set Q" "(D' ! j, j) \<noteq> (d, v)" using I(9) that by auto
    then have "(D' ! j, j) \<in> set Q1" unfolding heap_popD(4)[OF pop] by (subst in_set_remove1)
    then show ?thesis unfolding Q' by blast
  qed (use Q' n that in auto)
  moreover have "D' ! j \<noteq> - 1 \<and> unat (D' ! j) \<le> unat (D' ! u) + unat (g ! u ! j)"
    if "u \<in> ?V" "j < ?n" "j \<notin> ?V" "g ! u ! j \<noteq> - 1" for u j
  proof (cases "u = v")
    case True
    then show ?thesis using edge[OF that(2,3)] fit[OF that(2)] that(4) P(1) vis[of v] P(2) unfolding max_u32 by auto
  next
    case False
    then have u: "u \<in> V" "D' ! u = D ! u" using that(1) vis[of u] I(3) by auto
    have "D ! j \<noteq> - 1 \<and> unat (D ! j) \<le> unat (D ! u) + unat (g ! u ! j)" using I(10)[OF u(1)] that by blast
    moreover have "unat (D' ! j) \<le> unat (D ! j)" using less[OF that(2)] by (simp add: word_le_nat_alt)
    ultimately show ?thesis unfolding max_u32 u(2) by linarith
  qed
  ultimately show ?thesis using I(1,3) P(2) len n unfolding dijkstra_inv_def by (auto; blast)
qed

section \<open>Correctness of the loop\<close>

lemma inv_done:
  assumes inv: "dijkstra_inv g s [] V D" and v: "v < length g"
  shows "shortest g s v (D ! v)"
proof -
  have V: "y \<in> V" if "y < length g" "D ! y \<noteq> - 1" for y using dijkstra_invD(9)[OF inv that(1) _ that(2)] by auto
  show ?thesis
  proof (cases "D ! v = - 1")
    case True
    then have "\<not> walk g s v c" for c using frontier[OF inv, of v c] V dijkstra_invD(7)[OF inv, of v] by blast
    then show ?thesis using True by (simp add: shortest_def)
  next
    case False
    then show ?thesis using V[OF v False] dijkstra_invD(5,6)[OF inv] v by (simp add: shortest_def)
  qed
qed

context bitset_core_laws
begin

lemma dijkstra_loop_spec:
  assumes fits: "graph_fits K g"
  shows "bs_inv vis \<Longrightarrow> dijkstra_inv g s Q (bs_set vis) D \<Longrightarrow>
    \<exists>D'. dijkstra_loop B g Q vis D = Some D' \<and> length D' = length g \<and> (\<forall>v < length g. shortest g s v (D' ! v))"
proof (induction "(length g - card (bs_set vis), length Q)" arbitrary: Q vis D
    rule: wf_induct_rule[OF wf_lex_prod[OF wf_less_than wf_less_than]])
  case 1
  show ?case
  proof (cases "heap_pop Q")
    case None
    then have Q: "Q = []" by (simp add: heap_pop_def Let_def split: if_splits)
    have "dijkstra_loop B g Q vis D = Some D" by (subst dijkstra_loop.simps) (simp add: None)
    then show ?thesis using inv_done[OF 1(3)[unfolded Q]] dijkstra_invD(2)[OF 1(3)] by blast
  next
    case (Some p)
    obtain d v Q1 where p: "heap_pop Q = Some ((d, v), Q1)" using Some by (cases p) auto
    note H = heap_popD[OF p] and I = dijkstra_invD[OF 1(3)]
    have len: "length Q1 < length Q" using H(1,4) length_pos_if_in_set[OF H(1)] by (simp add: length_remove1)
    show ?thesis
    proof (cases "v \<in> bs_set vis")
      case True
      then have "dijkstra_loop B g Q vis D = dijkstra_loop B g Q1 vis D"
        by (subst dijkstra_loop.simps) (simp add: p bsv_contains_spec)
      then show ?thesis using 1(1)[OF _ 1(2) inv_skip[OF 1(3) p True]] len by simp
    next
      case False
      have v: "v < length g" using popped_least(2)[OF 1(3) p False] .
      obtain vis1 where vis1: "bsv_insert B vis v = Some (v \<notin> bs_set vis, vis1)" "bs_inv vis1" "bs_set vis1 = insert v (bs_set vis)"
        using bsv_insert_spec[OF 1(2)] by blast
      have "length (g ! v) = length D" using square_nth[OF _ v] fits I(2) by (simp add: graph_fits_def)
      then obtain Q2 D2 where r: "relax_edges B vis1 d 0 (g ! v) Q1 D = Some (Q2, D2)" "length D2 = length D"
        "\<forall>j < length D. D2 ! j = relaxed (bs_set vis1) d (g ! v) D j" "set Q2 = set Q1 \<union> {(D2 ! j, j) | j. j < length D \<and> D2 ! j \<noteq> D ! j}"
        by (rule relax_edges_spec)
      have step: "dijkstra_loop B g Q vis D = dijkstra_loop B g Q2 vis1 D2"
        by (subst dijkstra_loop.simps) (use v in \<open>simp add: p bsv_contains_spec False vis1(1) r(1) vec_get_def\<close>)
      have inv: "dijkstra_inv g s Q2 (bs_set vis1) D2"
        unfolding vis1(3) by (rule inv_visit[OF fits 1(3) p False r(2) _ r(4)]) (use r(3) vis1(3) in simp)
      have "card (bs_set vis1) = Suc (card (bs_set vis))" using vis1(3) False by simp
      moreover have "card (bs_set vis1) \<le> length g" using card_mono[OF _ dijkstra_invD(3)[OF inv]] by simp
      ultimately have "length g - card (bs_set vis1) < length g - card (bs_set vis)" by linarith
      then show ?thesis unfolding step using 1(1)[OF _ vis1(2) inv] by simp
    qed
  qed
qed

lemma dijkstra_spec:
  assumes fits: "graph_fits K g" and s: "s < length g"
  shows "\<exists>D. dijkstra B g s = Some D \<and> length D = length g \<and> (\<forall>v < length g. shortest g s v (D ! v))"
proof -
  have start: "bs_inv (bsv_with_capacity n)" "bs_set (bsv_with_capacity n) = {}" for n
    by (simp_all add: bsv_with_capacity_def bs_inv_def bs_set_def)
  define D :: "u32 list" where "D = (replicate (length g) (- 1))[s := 0]"
  have D: "D ! v = (if v = s then 0 else - 1)" if "v < length g" for v using that s by (simp add: nth_list_update D_def)
  have "length D = length g" by (simp add: D_def)
  then have "dijkstra_inv g s [(0, s)] {} D" using s walk_refl[OF s] by (auto simp: dijkstra_inv_def D split: if_splits)
  then show ?thesis using dijkstra_loop_spec[OF fits start(1), of s "[(0, s)]" "length g" D] s
    by (simp add: dijkstra_def Let_def start(2) D_def)
qed

end

section \<open>Replacing rows by distances\<close>

text \<open>Once a row holds the distances of its vertex, all distances are the same as before.\<close>

lemma replaced_walk:
  assumes row: "\<forall>v < length g. shortest g u v (row ! v)" and u: "u < length g"
  shows "walk (g[u := row]) x y c \<Longrightarrow> walk g x y c"
proof (induction rule: walk.induct)
  case walk_refl
  then show ?case by (simp add: walk.walk_refl)
next
  case (walk_edge v c y)
  then have y: "y < length g" by simp
  show ?case
  proof (cases "v = u")
    case True
    then have "walk g u y (unat (row ! y))" using row[rule_format, OF y] walk_edge.hyps(3) u by (simp add: shortest_def split: if_splits)
    then show ?thesis using walk_trans[OF _ walk_edge.IH] True u by simp
  next
    case False
    then show ?thesis using walk.walk_edge[OF walk_edge.IH y] walk_edge.hyps(3) by simp
  qed
qed

lemma walk_replaced:
  assumes row: "\<forall>v < length g. shortest g u v (row ! v)" and u: "u < length g"
  shows "walk g x y c \<Longrightarrow> \<exists>c' \<le> c. walk (g[u := row]) x y c'"
proof (induction rule: walk.induct)
  case walk_refl
  then show ?case by (auto intro: walk.walk_refl)
next
  case (walk_edge v c y)
  then obtain c' where c': "c' \<le> c" "walk (g[u := row]) x v c'" by blast
  have e: "(g[u := row]) ! v ! y \<noteq> - 1 \<and> unat ((g[u := row]) ! v ! y) \<le> unat (g ! v ! y)"
  proof (cases "v = u")
    case True
    have "walk g u y (0 + unat (g ! u ! y))" using walk.walk_edge[OF walk.walk_refl[OF u] walk_edge.hyps(2)] walk_edge.hyps(3) True by simp
    then show ?thesis using row[rule_format, OF walk_edge.hyps(2)] True u by (auto simp: shortest_def split: if_splits)
  qed (use walk_edge.hyps(3) in simp)
  then have "walk (g[u := row]) x y (c' + unat ((g[u := row]) ! v ! y))"
    using walk.walk_edge[OF c'(2)] walk_edge.hyps(2) by simp
  then show ?case using c'(1) e add_mono by blast
qed

definition same_distances :: "graph \<Rightarrow> graph \<Rightarrow> bool" where
  "same_distances g g' \<longleftrightarrow> length g' = length g \<and> (\<forall>u v d. shortest g' u v d \<longleftrightarrow> shortest g u v d)"

lemma dominated_shortest:
  assumes "\<And>c. walk g u v c \<Longrightarrow> \<exists>c' \<le> c. walk g' u v c'" "\<And>c. walk g' u v c \<Longrightarrow> walk g u v c"
  shows "shortest g' u v d \<longleftrightarrow> shortest g u v d"
proof -
  have "walk g u v c \<Longrightarrow> (\<And>c'. walk g' u v c' \<Longrightarrow> c \<le> c') \<Longrightarrow> walk g' u v c" for c using assms(1)[of c] by (metis antisym)
  then show ?thesis unfolding shortest_def using assms by (auto simp: if_bool_eq_conj) (meson order.trans)+
qed

lemma replaced_row:
  assumes fits: "graph_fits K g" and u: "u < length g" and len: "length row = length g"
    and row: "\<forall>v < length g. shortest g u v (row ! v)"
  shows "graph_fits K (g[u := row])" "same_distances g (g[u := row])"
proof -
  let ?g = "g[u := row]"
  note W = walk_replaced[OF row u] and R = replaced_walk[OF row u]
  show "same_distances g ?g" unfolding same_distances_def using dominated_shortest[OF W R] by simp
  have "unat (row ! v) \<le> K" if "v < length g" "row ! v \<noteq> - 1" for v
  proof -
    have sh: "walk g u v (unat (row ! v))" "\<And>c. walk g u v c \<Longrightarrow> unat (row ! v) \<le> c"
      using row[rule_format, OF that(1)] that(2) by (auto simp: shortest_def)
    then obtain c where "c \<le> K" "walk g u v c" using fits unfolding graph_fits_def by blast
    then show ?thesis using sh(2) by fastforce
  qed
  moreover have "\<exists>c' \<le> K. walk ?g x y c'" if w: "walk ?g x y c" for x y c
  proof -
    obtain c1 where "c1 \<le> K" "walk g x y c1" using fits R[OF w] unfolding graph_fits_def by blast
    then show ?thesis using W[of x y c1] by (meson order.trans)
  qed
  moreover have "square ?g" using fits len by (auto simp: graph_fits_def square_def dest: subsetD[OF set_update_subset_insert])
  moreover have "?g ! x = (if x = u then row else g ! x)" for x using u by (cases "x < length g") (auto simp: nth_list_update)
  ultimately show "graph_fits K ?g" using fits by (auto simp: graph_fits_def split: if_splits)
qed

text \<open>The state of \<open>reduce_graph\<close>: the rows of the visited vertices hold the distances of the graph it was given.\<close>

definition rows_reduced :: "nat \<Rightarrow> graph \<Rightarrow> graph \<times> bit_set \<Rightarrow> bool" where
  "rows_reduced K g st \<longleftrightarrow> graph_fits K (fst st) \<and> same_distances g (fst st) \<and> bs_inv (snd st) \<and>
     (\<forall>u \<in> bs_set (snd st). \<forall>v < length g. shortest g u v (fst st ! u ! v))"

context bitset_core_laws
begin

lemma reduce_vertex_spec:
  assumes red: "rows_reduced K g st" and v: "v < length g"
  shows "\<exists>st'. reduce_vertex B v st = Some st' \<and> rows_reduced K g st' \<and> bs_set (snd st') = insert v (bs_set (snd st))"
proof -
  obtain h vis where st: "st = (h, vis)" by (cases st)
  have R: "graph_fits K h" "same_distances g h" "bs_inv vis" "\<forall>u \<in> bs_set vis. \<forall>v < length g. shortest g u v (h ! u ! v)"
    using red by (auto simp: rows_reduced_def st)
  have len: "length h = length g" and same: "\<And>u x d. shortest h u x d \<longleftrightarrow> shortest g u x d" using R(2) by (auto simp: same_distances_def)
  show ?thesis
  proof (cases "v \<in> bs_set vis")
    case True
    then show ?thesis using red by (auto simp: st reduce_vertex_def bsv_contains_spec)
  next
    case False
    obtain D where D: "dijkstra B h v = Some D" "length D = length h" "\<forall>x < length h. shortest h v x (D ! x)"
      using dijkstra_spec[OF R(1), of v] v len by auto
    obtain vis1 where vis1: "bsv_insert B vis v = Some (v \<notin> bs_set vis, vis1)" "bs_inv vis1" "bs_set vis1 = insert v (bs_set vis)"
      using bsv_insert_spec[OF R(3)] by blast
    note N = replaced_row[OF R(1) _ D(2,3), unfolded len, OF v]
    have "same_distances g (h[v := D])" using N(2) R(2) by (simp add: same_distances_def)
    moreover have "\<forall>u \<in> bs_set vis1. \<forall>x < length g. shortest g u x (h[v := D] ! u ! x)"
      using R(4) D(3) v len same unfolding vis1(3) by (auto simp: nth_list_update)
    ultimately show ?thesis using N(1) D(1) vis1 False
      by (auto simp: st reduce_vertex_def bsv_contains_spec rows_reduced_def)
  qed
qed

lemma reduce_passengers_spec:
  "rows_reduced K g st \<Longrightarrow> \<forall>(a, b) \<in> set ps. a < length g \<and> b < length g \<Longrightarrow>
   \<exists>st'. reduce_passengers B ps st = Some st' \<and> rows_reduced K g st' \<and>
     bs_set (snd st') = bs_set (snd st) \<union> fst ` set ps \<union> snd ` set ps"
proof (induction ps arbitrary: st)
  case (Cons p ps)
  obtain a b where p: "p = (a, b)" by (cases p)
  have ab: "a < length g" "b < length g" "\<forall>(a, b) \<in> set ps. a < length g \<and> b < length g" using Cons.prems(2) p by auto
  obtain st1 where 1: "reduce_vertex B a st = Some st1" "rows_reduced K g st1" "bs_set (snd st1) = insert a (bs_set (snd st))"
    using reduce_vertex_spec[OF Cons.prems(1) ab(1)] by blast
  obtain st2 where 2: "reduce_vertex B b st1 = Some st2" "rows_reduced K g st2" "bs_set (snd st2) = insert b (bs_set (snd st1))"
    using reduce_vertex_spec[OF 1(2) ab(2)] by blast
  show ?case using Cons.IH[OF 2(2) ab(3)] 1(1) 2(1) by (auto simp: p 1(3) 2(3))
qed simp

lemma reduce_taxies_spec:
  "rows_reduced K g st \<Longrightarrow> \<forall>v \<in> set vs. v < length g \<Longrightarrow>
   \<exists>st'. reduce_taxies B vs st = Some st' \<and> rows_reduced K g st' \<and> bs_set (snd st') = bs_set (snd st) \<union> set vs"
proof (induction vs arbitrary: st)
  case (Cons v vs)
  obtain st1 where 1: "reduce_vertex B v st = Some st1" "rows_reduced K g st1" "bs_set (snd st1) = insert v (bs_set (snd st))"
    using reduce_vertex_spec[OF Cons.prems(1), of v] Cons.prems(2) by auto
  show ?case using Cons.IH[OF 1(2)] Cons.prems(2) 1(1) by (auto simp: 1(3))
qed simp

end

lemma validate_iff:
  "validate d \<longleftrightarrow> square (jd_graph d) \<and> (\<forall>x \<in> set (jd_taxies d). x < length (jd_graph d)) \<and>
     (\<forall>(a, b) \<in> set (jd_passengers d). a < length (jd_graph d) \<and> b < length (jd_graph d))"
proof -
  have "validate_rows n rows \<longleftrightarrow> (\<forall>row \<in> set rows. length row = n)" for n rows by (induction rows) auto
  moreover have "validate_taxies n xs \<longleftrightarrow> (\<forall>x \<in> set xs. x < n)" for n xs by (induction xs) auto
  moreover have "validate_passengers n ps \<longleftrightarrow> (\<forall>(a, b) \<in> set ps. a < n \<and> b < n)" for n ps
    by (induction ps) (auto simp: not_le split: if_splits)
  ultimately show ?thesis by (simp add: validate_def Let_def square_def)
qed

definition job_vertices :: "job_data \<Rightarrow> nat set" where
  "job_vertices d = set (jd_taxies d) \<union> fst ` set (jd_passengers d) \<union> snd ` set (jd_passengers d)"

lemma reduce_graph_spec:
  assumes "bitset_core_laws B" and val: "validate d" and fits: "graph_fits K (jd_graph d)"
  shows "\<exists>g. reduce_graph B d = Some (d\<lparr>jd_graph := g\<rparr>) \<and> graph_fits K g \<and> length g = length (jd_graph d) \<and>
    (\<forall>u \<in> job_vertices d. \<forall>v < length g. shortest (jd_graph d) u v (g ! u ! v))"
proof -
  let ?g = "jd_graph d"
  have start: "rows_reduced K ?g (?g, bsv_with_capacity (length ?g))"
    using fits by (simp add: rows_reduced_def same_distances_def bsv_with_capacity_def bs_inv_def bs_set_def)
  have v: "\<forall>(a, b) \<in> set (jd_passengers d). a < length ?g \<and> b < length ?g" "\<forall>x \<in> set (jd_taxies d). x < length ?g"
    using val by (auto simp: validate_iff)
  obtain st1 where 1: "reduce_passengers B (jd_passengers d) (?g, bsv_with_capacity (length ?g)) = Some st1" "rows_reduced K ?g st1"
    "bs_set (snd st1) = bs_set (snd (?g, bsv_with_capacity (length ?g))) \<union> fst ` set (jd_passengers d) \<union> snd ` set (jd_passengers d)"
    using bitset_core_laws.reduce_passengers_spec[OF assms(1) start v(1)] by blast
  obtain g2 vis2 where 2: "reduce_taxies B (jd_taxies d) st1 = Some (g2, vis2)" "rows_reduced K ?g (g2, vis2)"
    "bs_set vis2 = bs_set (snd st1) \<union> set (jd_taxies d)"
    using bitset_core_laws.reduce_taxies_spec[OF assms(1) 1(2) v(2)] by fastforce
  have "job_vertices d \<subseteq> bs_set vis2" unfolding 2(3) 1(3) job_vertices_def by auto
  then have "\<forall>u \<in> job_vertices d. \<forall>v < length ?g. shortest ?g u v (g2 ! u ! v)" using 2(2) by (auto simp: rows_reduced_def)
  then show ?thesis using 1(1) 2(1,2) by (auto simp: reduce_graph_def rows_reduced_def same_distances_def)
qed

text \<open>In a graph with all edges the weights bound the distances.\<close>

definition complete_graph :: "nat \<Rightarrow> graph \<Rightarrow> bool" where
  "complete_graph K g \<longleftrightarrow> 2 * K < 2 ^ 32 - 1 \<and> (\<forall>row \<in> set g. length row = length g \<and> (\<forall>w \<in> set row. w \<noteq> - 1 \<and> unat w \<le> K))"

lemma complete_graph_walk:
  assumes g: "complete_graph K g" and uv: "u < length g" "v < length g"
  shows "g ! u ! v \<noteq> - 1" "unat (g ! u ! v) \<le> K" "walk g u v (unat (g ! u ! v))"
proof -
  have "g ! u \<in> set g" using uv(1) by simp
  then have "length (g ! u) = length g" "\<forall>w \<in> set (g ! u). w \<noteq> - 1 \<and> unat w \<le> K" using g unfolding complete_graph_def by blast+
  then show w: "g ! u ! v \<noteq> - 1" "unat (g ! u ! v) \<le> K" using uv(2) by auto
  show "walk g u v (unat (g ! u ! v))" using walk_edge[OF walk_refl[OF uv(1)] uv(2) w(1)] by simp
qed

lemma complete_graph_fits: "complete_graph K g \<Longrightarrow> graph_fits K g"
proof -
  assume g: "complete_graph K g"
  have "\<exists>c' \<le> K. walk g u v c'" if "walk g u v c" for u v c
    using complete_graph_walk(2,3)[OF g] walk_less[OF that] by blast
  then show ?thesis using complete_graph_walk(2)[OF g] g by (simp add: graph_fits_def square_def complete_graph_def)
qed

section \<open>Properties\<close>

text \<open>C24. Dijkstra's algorithm is right and ends: on a graph whose distances do not overflow it returns, for every vertex,
  the least sum of the weights of a walk from the start, or \<open>u32::MAX\<close> if there is none.\<close>

theorem dijkstra_correct:
  assumes "bitset_core_laws B" "graph_fits K g" "start < length g"
  shows "\<exists>D. dijkstra B g start = Some D \<and> length D = length g \<and> (\<forall>v < length g. shortest g start v (D ! v))"
  by (rule bitset_core_laws.dijkstra_spec[OF assms])

theorem dijkstra_correct_witness:
  "dijkstra words_core [[0, 1, 5], [1, 0, 1], [5, 1, 0]] 0 = Some [0, 1, 2] \<and> shortest [[0, 1, 5], [1, 0, 1], [5, 1, 0]] 0 2 2"
proof -
  let ?g = "[[0, 1, 5], [1, 0, 1], [5, 1, 0]] :: graph"
  have "complete_graph 5 ?g" by (simp add: complete_graph_def)
  moreover have "0 < length ?g" by simp
  moreover have run: "dijkstra words_core ?g 0 = Some [0, 1, 2]" by code_simp
  ultimately have "\<forall>v < 3. shortest ?g 0 v ([0, 1, 2] ! v)"
    using dijkstra_correct[OF words.bitset_core_laws_axioms complete_graph_fits, of 5 ?g 0] by simp
  then have "shortest ?g 0 2 ([0, 1, 2] ! 2)" by (rule allE[of _ 2]) simp
  then show ?thesis using run by simp
qed

end
