(* ===== verification/Route_Search.thy ===== *)
theory Route_Search
  imports Shortest_Paths Multilevel_Vec_Map
begin

text \<open>
  The second half of the code that the workers run, \<open>task_manager/job/src/path_finding.rs\<close>: \<open>transform_graph\<close> makes a matrix
  of the rides of some passengers, \<open>min_path\<close> finds the cheapest order of them by a recursion over sets with a memo,
  and \<open>job\<close> does this for both combinations of a task. The memo is passed along as a state.
  \<open>None\<close> is a panic. The recursion of \<open>min_path\<close> is bounded by a fuel of one more than the number of rows, which is more
  than the number of rides that can be left.
\<close>

section \<open>The matrix of rides\<close>

definition mat_get :: "'a list list \<Rightarrow> nat \<Rightarrow> nat \<Rightarrow> 'a option" where
  "mat_get m i j = do { row \<leftarrow> vec_get m i; vec_get row j }"

definition mat_set :: "'a list list \<Rightarrow> nat \<Rightarrow> nat \<Rightarrow> 'a \<Rightarrow> 'a list list option" where
  "mat_set m i j x = do { row \<leftarrow> vec_get m i; if j < length row then Some (m[i := row[j := x]]) else None }"

text \<open>The drive from \<open>a\<close> to a passenger at \<open>b\<close> who wants to \<open>c\<close>.\<close>

definition ride :: "graph \<Rightarrow> nat \<Rightarrow> nat \<Rightarrow> nat \<Rightarrow> u32 option" where
  "ride origin_graph a b c = do { x \<leftarrow> mat_get origin_graph a b; y \<leftarrow> mat_get origin_graph b c; Some (x + y) }"

text \<open>The inner and the outer loop.\<close>

fun fill_row :: "graph \<Rightarrow> nat \<Rightarrow> nat \<Rightarrow> nat \<Rightarrow> (usize \<times> usize) list \<Rightarrow> graph \<Rightarrow> graph option" where
  "fill_row origin_graph i i_end j [] g = Some g"
| "fill_row origin_graph i i_end j ((j_start, j_end) # passengers) g =
     do {
       x \<leftarrow> ride origin_graph i_end j_start j_end;
       g \<leftarrow> mat_set g i j x;
       fill_row origin_graph i i_end (Suc j) passengers g
     }"

fun fill_rows :: "graph \<Rightarrow> nat \<Rightarrow> (usize \<times> usize) list \<Rightarrow> nat \<Rightarrow> (usize \<times> usize) list \<Rightarrow> graph \<Rightarrow> graph option" where
  "fill_rows origin_graph taxi passengers i [] g = Some g"
| "fill_rows origin_graph taxi passengers i ((i_start, i_end) # rest) g =
     do {
       x \<leftarrow> ride origin_graph taxi i_start i_end;
       g \<leftarrow> mat_set g 0 i x;
       g \<leftarrow> mat_set g i 0 (- 1);
       g \<leftarrow> fill_row origin_graph i i_end 1 passengers g;
       fill_rows origin_graph taxi passengers (Suc i) rest g
     }"

definition transform_graph :: "bitset_core \<Rightarrow> job_data \<Rightarrow> nat \<Rightarrow> bit_set \<Rightarrow> graph option" where
  "transform_graph B d taxi passengers =
     do {
       ids \<leftarrow> bsa_iter B passengers;
       passengers \<leftarrow> those (map (vec_get (jd_passengers d)) ids);
       taxi \<leftarrow> vec_get (jd_taxies d) taxi;
       let n = length passengers;
       g \<leftarrow> mat_set (replicate (n + 1) (replicate (n + 1) (- 1))) 0 0 0;
       fill_rows (jd_graph d) taxi passengers 1 passengers g
     }"

section \<open>The cheapest order\<close>

type_synonym memo = "distance ml_map list"

text \<open>The loop over the rides that may be next; \<open>visit\<close> is the recursive call.\<close>

fun visit_next ::
  "(nat \<Rightarrow> memo \<Rightarrow> (distance \<times> memo) option) \<Rightarrow> graph \<Rightarrow> nat \<Rightarrow> nat list \<Rightarrow> distance \<Rightarrow> memo \<Rightarrow> (distance \<times> memo) option" where
  "visit_next visit dist i [] res memo = Some (res, memo)"
| "visit_next visit dist i (j # js) res memo =
     do {
       (p, memo) \<leftarrow> visit j memo;
       x \<leftarrow> mat_get dist i j;
       let path = p + ucast x;
       visit_next visit dist i js (if res > path then path else res) memo
     }"

fun min_path_from ::
  "bitset_core \<Rightarrow> graph \<Rightarrow> nat \<Rightarrow> nat \<Rightarrow> bit_set \<Rightarrow> memo \<Rightarrow> (distance \<times> memo) option" where
  "min_path_from B dist 0 i msk memo = None"
| "min_path_from B dist (Suc fuel) i msk memo =
     (if bs_is_empty msk then Some (0, memo)
      else do {
        part \<leftarrow> vec_get memo i;
        r \<leftarrow> ml_get part (map unat (bs_inner msk));
        case r of
          Some x \<Rightarrow> Some (x, memo)
        | None \<Rightarrow>
            do {
              js \<leftarrow> bsa_iter B msk;
              (res, memo) \<leftarrow> visit_next
                (\<lambda>j memo. do { rest \<leftarrow> bsa_exclude B msk j; min_path_from B dist fuel j rest memo }) dist i js (- 1) memo;
              part \<leftarrow> vec_get memo i;
              (_, part) \<leftarrow> ml_insert part (map unat (bs_inner msk)) res;
              Some (res, memo[i := part])
            }
      })"

definition min_path :: "bitset_core \<Rightarrow> graph \<Rightarrow> distance option" where
  "min_path B g =
     (let n = length g;
          memo = replicate n (ml_with_capacity n 2)
      in do {
        msk \<leftarrow> bsa_init 2 True n;
        msk \<leftarrow> bsa_exclude B msk 0;
        (min, _) \<leftarrow> min_path_from B g (n + 1) 0 msk memo;
        Some min
      })"

section \<open>The job\<close>

text \<open>What \<open>bincode\<close> does with the data of jobs and tasks.\<close>

record job_codec =
  jc_decode_job :: "bytes \<Rightarrow> string + job_data"
  jc_decode_task :: "bytes \<Rightarrow> string + task_data"
  jc_encode_result :: "task_result \<Rightarrow> string + bytes"

definition combination_distance :: "bitset_core \<Rightarrow> job_data \<Rightarrow> nat \<Rightarrow> u128 \<Rightarrow> (u128 \<times> distance) option" where
  "combination_distance B d taxi combination =
     do {
       let passengers = bsa_from_array B (map of_nat (split_words combination));
       g \<leftarrow> transform_graph B d taxi passengers;
       m \<leftarrow> min_path B g;
       Some (combination, m)
     }"

definition job_run :: "bitset_core \<Rightarrow> job_codec \<Rightarrow> bytes \<Rightarrow> bytes \<Rightarrow> (string + bytes) option" where
  "job_run B codec job_bytes task_bytes =
     (case jc_decode_job codec job_bytes of
        Inl err \<Rightarrow> Some (Inl err)
      | Inr d \<Rightarrow>
          (case jc_decode_task codec task_bytes of
             Inl err \<Rightarrow> Some (Inl err)
           | Inr t \<Rightarrow>
               do {
                 d \<leftarrow> reduce_graph B d;
                 r1 \<leftarrow> combination_distance B d (td_taxi t) (fst (td_combinations t));
                 r2 \<leftarrow> combination_distance B d (td_taxi t) (snd (td_combinations t));
                 Some (jc_encode_result codec \<lparr>tr_taxi = td_taxi t, tr_result = (r1, r2)\<rparr>)
               }))"

section \<open>Routes\<close>

text \<open>\<open>route_cost G i js\<close> is the cost of going from \<open>i\<close> through \<open>js\<close> in this order.\<close>

fun route_cost :: "graph \<Rightarrow> nat \<Rightarrow> nat list \<Rightarrow> nat" where
  "route_cost G i [] = 0"
| "route_cost G i (j # js) = unat (G ! i ! j) + route_cost G j js"

definition is_best_route :: "graph \<Rightarrow> nat \<Rightarrow> nat set \<Rightarrow> nat \<Rightarrow> bool" where
  "is_best_route G i S m \<longleftrightarrow>
     (\<exists>js. distinct js \<and> set js = S \<and> m = route_cost G i js) \<and> (\<forall>js. distinct js \<and> set js = S \<longrightarrow> m \<le> route_cost G i js)"

lemma best_route_exists:
  assumes "finite S"
  shows "\<exists>m. is_best_route G i S m"
proof -
  let ?C = "{route_cost G i js | js. distinct js \<and> set js = S}"
  obtain js where "distinct js" "set js = S" using finite_distinct_list[OF assms] by blast
  then have "route_cost G i js \<in> ?C" by blast
  then have "(LEAST m. m \<in> ?C) \<in> ?C" "\<And>m. m \<in> ?C \<Longrightarrow> (LEAST m. m \<in> ?C) \<le> m" by (rule LeastI) (rule Least_le)
  then show ?thesis unfolding is_best_route_def by (intro exI[of _ "LEAST m. m \<in> ?C"]) blast
qed

lemma best_route_unique: "is_best_route G i S m \<Longrightarrow> is_best_route G i S m' \<Longrightarrow> m = m'"
  by (auto simp: is_best_route_def intro: antisym)

lemma best_route_empty [simp]: "is_best_route G i {} m \<longleftrightarrow> m = 0"
  by (auto simp: is_best_route_def)

lemma best_route_bound:
  assumes "is_best_route G i S m"
  shows "m \<le> card S * (2 ^ 32 - 1)"
proof -
  obtain js where js: "distinct js" "set js = S" "m = route_cost G i js" using assms by (auto simp: is_best_route_def)
  have "route_cost G i js \<le> length js * (2 ^ 32 - 1)" for i js
  proof (induction js arbitrary: i)
    case (Cons j js)
    have "unat (G ! i ! j) \<le> 2 ^ 32 - 1" using unsigned_less[of "G ! i ! j", where 'a = nat] by simp
    then show ?case using Cons.IH[of j] by simp
  qed simp
  then show ?thesis using js distinct_card[OF js(1)] by metis
qed

lemma best_route_step:
  assumes "finite S" "\<And>j p. j \<in> S \<Longrightarrow> is_best_route G j (S - {j}) p \<Longrightarrow> m \<le> p + unat (G ! i ! j)"
    "j \<in> S" "is_best_route G j (S - {j}) p" "m = p + unat (G ! i ! j)"
  shows "is_best_route G i S m"
  unfolding is_best_route_def
proof (intro conjI allI impI)
  obtain js where "distinct js" "set js = S - {j}" "p = route_cost G j js" using assms(4) by (auto simp: is_best_route_def)
  then show "\<exists>js. distinct js \<and> set js = S \<and> m = route_cost G i js" using assms(3,5) by (intro exI[of _ "j # js"]) auto
next
  fix js assume js: "distinct js \<and> set js = S"
  then obtain k ks where ks: "js = k # ks" using assms(3) by (cases js) auto
  then have k: "k \<in> S" "distinct ks" "set ks = S - {k}" using js by auto
  obtain q where q: "is_best_route G k (S - {k}) q" using best_route_exists[of "S - {k}" G k] assms(1) by blast
  have "q \<le> route_cost G k ks" using q k(2,3) by (simp add: is_best_route_def)
  then show "m \<le> route_cost G i js" using assms(2)[OF k(1) q] ks by simp
qed

section \<open>The memo\<close>

text \<open>A stored value is the cost of the cheapest route from its row through the set of its key.\<close>

definition memo_ok :: "graph \<Rightarrow> memo \<Rightarrow> bool" where
  "memo_ok G memo \<longleftrightarrow> length memo = length G \<and> (\<forall>part \<in> set memo. ml_inv part \<and> ml_levels_idx part = 1) \<and>
     (\<forall>i < length G. \<forall>w x. length w = 2 \<longrightarrow> ml_get (memo ! i) (map unat w) = Some (Some x) \<longrightarrow> is_best_route G i (bits_of w) (unat x))"

lemma words_path_inject:
  assumes "length v = 2" "length w = 2" "ml_path 1 (map unat v) = ml_path 1 (map unat w)"
  shows "v = (w :: u64 list)"
proof -
  obtain a b where v: "v = [a, b]" using assms(1) by (auto simp: length_Suc_conv numeral_2_eq_2)
  obtain c d where w: "w = [c, d]" using assms(2) by (auto simp: length_Suc_conv numeral_2_eq_2)
  show ?thesis using assms(3) by (simp add: v w ml_path_def key_at_def vec_get_def word_unat_eq_iff)
qed

lemma memo_part:
  assumes "memo_ok G memo" "i < length G"
  shows "vec_get memo i = Some (memo ! i)" "ml_inv (memo ! i)" "ml_levels_idx (memo ! i) = 1"
    "\<And>w. length w = 2 \<Longrightarrow> \<exists>r. ml_get (memo ! i) (map unat (w :: u64 list)) = Some r"
proof -
  have "memo ! i \<in> set memo" using assms by (simp add: memo_ok_def)
  then show inv: "ml_inv (memo ! i)" and lev: "ml_levels_idx (memo ! i) = 1" using assms by (auto simp: memo_ok_def)
  show "vec_get memo i = Some (memo ! i)" using assms by (simp add: memo_ok_def vec_get_def)
  fix w :: "u64 list" assume "length w = 2"
  then have nlen: "\<not> length (map unat w) > ml_levels_idx (memo ! i) + 1" using lev by simp
  from ml_insert_spec[OF inv, of "map unat w" 0] show "\<exists>r. ml_get (memo ! i) (map unat w) = Some r" unfolding if_not_P[OF nlen] by blast
qed

lemma memo_insert:
  assumes ok: "memo_ok G memo" and i: "i < length G" and w: "length w = 2" and best: "is_best_route G i (bits_of w) (unat x)"
  shows "\<exists>r part. ml_insert (memo ! i) (map unat w) x = Some (r, part) \<and> memo_ok G (memo[i := part])"
proof -
  note P = memo_part[OF ok i]
  have nlen: "\<not> length (map unat w) > ml_levels_idx (memo ! i) + 1" using P(3) w by simp
  from ml_insert_spec[OF P(2), of "map unat w" x] obtain r part where
    p: "ml_insert (memo ! i) (map unat w) x = Some (r, part)" "ml_inv part" "ml_levels_idx part = ml_levels_idx (memo ! i)"
      "\<forall>key'. length key' \<le> ml_levels_idx (memo ! i) + 1 \<longrightarrow> ml_get part key' =
        (if ml_path (ml_levels_idx (memo ! i)) key' = ml_path (ml_levels_idx (memo ! i)) (map unat w) then Some (Some x) else ml_get (memo ! i) key')"
    unfolding if_not_P[OF nlen] by blast
  have get: "ml_get part (map unat v) = (if v = w then Some (Some x) else ml_get (memo ! i) (map unat v))" if "length v = 2" for v :: "u64 list"
    using p(4) that P(3) words_path_inject[OF that w] by auto
  have len: "length memo = length G" using ok by (simp add: memo_ok_def)
  have "is_best_route G k (bits_of v) (unat y)"
    if "k < length G" "length v = 2" "ml_get (memo[i := part] ! k) (map unat v) = Some (Some y)" for k v y
    using that ok best len i by (cases "k = i") (auto simp: get memo_ok_def split: if_splits)
  then have "memo_ok G (memo[i := part])"
    using ok p(2,3) P(3) len by (auto simp: memo_ok_def dest!: subsetD[OF set_update_subset_insert])
  then show ?thesis using p(1) by blast
qed

lemma memo_start:
  shows "memo_ok G (replicate (length G) (ml_with_capacity c 2))"
proof -
  have "ml_inv (ml_with_capacity c 2 :: distance ml_map)" using ml_new_inv[of 2] by (simp add: ml_with_capacity_def ml_new_def usize_max_def)
  then show ?thesis by (auto simp: memo_ok_def ml_with_capacity_def ml_get_def ml_key_too_long_def ml_path_def usize_max_def vec_get_def)
qed

section \<open>The search\<close>

lemma mat_get_square: "square G \<Longrightarrow> i < length G \<Longrightarrow> j < length G \<Longrightarrow> mat_get G i j = Some (G ! i ! j)"
  by (simp add: mat_get_def vec_get_def square_nth)

lemma ride_sum:
  assumes "is_best_route G j S (unat (p :: distance))" "card S < 128"
  shows "unat (p + ucast (G ! i ! j)) = unat p + unat (G ! i ! j)" "unat (p + ucast (G ! i ! j)) < 2 ^ 64 - 1"
proof -
  have x: "unat (ucast (G ! i ! j) :: 64 word) = unat (G ! i ! j)" "unat (G ! i ! j) < 2 ^ 32"
    using unsigned_less[of "G ! i ! j", where 'a = nat] by (simp_all add: unsigned_ucast_eq take_bit_nat_eq_self)
  have "unat p \<le> card S * (2 ^ 32 - 1)" by (rule best_route_bound[OF assms(1)])
  also have "\<dots> \<le> 127 * (2 ^ 32 - 1)" using assms(2) by (intro mult_le_mono1) simp
  finally have b: "unat p + unat (G ! i ! j) < 2 ^ 64 - 1" using x(2) by simp
  then show "unat (p + ucast (G ! i ! j)) = unat p + unat (G ! i ! j)" using x(1) by (simp add: unat_word_ariths)
  then show "unat (p + ucast (G ! i ! j)) < 2 ^ 64 - 1" using b by simp
qed

lemma visit_next_spec:
  assumes visit: "\<And>j memo. j \<in> S \<Longrightarrow> memo_ok G memo \<Longrightarrow>
      \<exists>p memo'. visit j memo = Some (p, memo') \<and> memo_ok G memo' \<and> is_best_route G j (S - {j}) (unat p)"
    and G: "square G" "i < length G" "S \<subseteq> {..<length G}" and S: "finite S" "card S < 128"
  shows "set js \<subseteq> S \<Longrightarrow> memo_ok G memo \<Longrightarrow>
    \<exists>res' memo'. visit_next visit G i js res memo = Some (res', memo') \<and> memo_ok G memo' \<and> unat res' \<le> unat res \<and>
      (\<forall>j \<in> set js. \<forall>p. is_best_route G j (S - {j}) p \<longrightarrow> unat res' \<le> p + unat (G ! i ! j) \<and> p + unat (G ! i ! j) < 2 ^ 64 - 1) \<and>
      (res' = res \<or> (\<exists>j \<in> set js. \<exists>p. is_best_route G j (S - {j}) p \<and> unat res' = p + unat (G ! i ! j)))"
proof (induction js arbitrary: res memo)
  case (Cons j js)
  then have j: "j \<in> S" "set js \<subseteq> S" by auto
  obtain p memo1 where p: "visit j memo = Some (p, memo1)" "memo_ok G memo1" "is_best_route G j (S - {j}) (unat p)"
    using visit[OF j(1) Cons.prems(2)] by blast
  have "card (S - {j}) < 128" using S card_mono[of S "S - {j}"] by force
  note sum = ride_sum[OF p(3) this, of i]
  let ?path = "p + ucast (G ! i ! j)"
  let ?res = "if res > ?path then ?path else res"
  have get: "mat_get G i j = Some (G ! i ! j)" using mat_get_square[OF G(1,2)] j(1) G(3) by auto
  obtain res' memo' where r: "visit_next visit G i js ?res memo1 = Some (res', memo')" "memo_ok G memo'" "unat res' \<le> unat ?res"
    "\<forall>j \<in> set js. \<forall>p. is_best_route G j (S - {j}) p \<longrightarrow> unat res' \<le> p + unat (G ! i ! j) \<and> p + unat (G ! i ! j) < 2 ^ 64 - 1"
    "res' = ?res \<or> (\<exists>j \<in> set js. \<exists>p. is_best_route G j (S - {j}) p \<and> unat res' = p + unat (G ! i ! j))"
    using Cons.IH[OF j(2) p(2), of ?res] by blast
  have le: "unat ?res \<le> unat res" "unat ?res \<le> unat ?path" by (auto simp: word_less_nat_alt)
  have "unat res' \<le> q + unat (G ! i ! j) \<and> q + unat (G ! i ! j) < 2 ^ 64 - 1" if "is_best_route G j (S - {j}) q" for q
    using best_route_unique[OF that p(3)] sum le(2) r(3) by linarith
  moreover have "res' = res \<or> (\<exists>j \<in> set (j # js). \<exists>p. is_best_route G j (S - {j}) p \<and> unat res' = p + unat (G ! i ! j))"
    using r(5) p(3) sum(1) by (auto split: if_splits)
  ultimately show ?case using p(1) get r(1-4) le(1) by (auto simp: Let_def)
qed auto

context bitset_core_laws
begin

lemma min_path_from_spec:
  assumes G: "square G" "length G < 128"
  shows "card (bs_set msk) < fuel \<Longrightarrow> i < length G \<Longrightarrow> bs_inv msk \<Longrightarrow> length (bs_inner msk) = 2 \<Longrightarrow>
    bs_set msk \<subseteq> {..<length G} \<Longrightarrow> memo_ok G memo \<Longrightarrow>
    \<exists>x memo'. min_path_from B G fuel i msk memo = Some (x, memo') \<and> memo_ok G memo' \<and> is_best_route G i (bs_set msk) (unat x)"
proof (induction fuel arbitrary: i msk memo)
  case (Suc fuel)
  let ?S = "bs_set msk"
  have card: "card ?S < 128" using card_mono[OF _ Suc.prems(5)] G(2) by simp
  note P = memo_part[OF Suc.prems(6,2)]
  show ?case
  proof (cases "bs_is_empty msk")
    case True
    then have "?S = {}" using Suc.prems(3) by (simp add: bs_is_empty_def bs_inv_def)
    then show ?thesis using True Suc.prems(6) by simp
  next
    case False
    then have ne: "?S \<noteq> {}" using Suc.prems(3) by (auto simp: bs_is_empty_def bs_inv_def)
    obtain r where r: "ml_get (memo ! i) (map unat (bs_inner msk)) = Some r" using P(4)[OF Suc.prems(4)] by blast
    show ?thesis
    proof (cases r)
      case (Some x)
      then have "is_best_route G i ?S (unat x)" using Suc.prems(2,4,6) r by (simp add: memo_ok_def bs_set_def)
      then show ?thesis using False P(1) r Some Suc.prems(6) by (simp del: vec_get_Some_iff)
    next
      case None
      let ?visit = "\<lambda>j memo. do { rest \<leftarrow> bsa_exclude B msk j; min_path_from B G fuel j rest memo }"
      have visit: "\<exists>p memo'. ?visit j memo = Some (p, memo') \<and> memo_ok G memo' \<and> is_best_route G j (?S - {j}) (unat p)"
        if "j \<in> ?S" "memo_ok G memo" for j memo
      proof -
        obtain rest where rest: "bsa_remove B msk j = Some (j \<in> ?S, rest)" "bs_inv rest" "length (bs_inner rest) = 2" "bs_set rest = ?S - {j}"
          using bsa_remove_spec[OF Suc.prems(3), of j] Suc.prems(4) by auto
        have "card (bs_set rest) < fuel" using Suc.prems(1) rest(4) that(1) card_Diff1_less[of ?S j] by simp
        from Suc.IH[OF this _ rest(2,3) _ that(2), of j] show ?thesis
          using rest(1,4) that(1) Suc.prems(5) by (auto simp: bsa_exclude_def)
      qed
      obtain res memo1 where v: "visit_next ?visit G i (sorted_list_of_set ?S) (- 1) memo = Some (res, memo1)" "memo_ok G memo1"
        "\<forall>j \<in> ?S. \<forall>p. is_best_route G j (?S - {j}) p \<longrightarrow> unat res \<le> p + unat (G ! i ! j) \<and> p + unat (G ! i ! j) < 2 ^ 64 - 1"
        "res = - 1 \<or> (\<exists>j \<in> ?S. \<exists>p. is_best_route G j (?S - {j}) p \<and> unat res = p + unat (G ! i ! j))"
        using visit_next_spec[where visit = ?visit and js = "sorted_list_of_set ?S" and memo = memo and res = "- 1",
            OF visit G(1) Suc.prems(2,5) _ card] Suc.prems(6) by auto
      have "res \<noteq> - 1"
      proof -
        obtain j q where "j \<in> ?S" "is_best_route G j (?S - {j}) q" using ne best_route_exists[of "?S - {j}" G j for j] by fastforce
        then have "unat res < 2 ^ 64 - 1" using v(3) by fastforce
        then show ?thesis by (auto simp: unsigned_minus_1_eq_mask mask_eq_exp_minus_1)
      qed
      then obtain j p where "j \<in> ?S" "is_best_route G j (?S - {j}) p" "unat res = p + unat (G ! i ! j)" using v(4) by blast
      then have best: "is_best_route G i ?S (unat res)" using v(3) by (intro best_route_step[of ?S G "unat res" i j p]) auto
      obtain q part where "ml_insert (memo1 ! i) (map unat (bs_inner msk)) res = Some (q, part)" "memo_ok G (memo1[i := part])"
        using memo_insert[OF v(2) Suc.prems(2,4) best[unfolded bs_set_def]] by blast
      then show ?thesis using False P(1) r None v(1) memo_part(1)[OF v(2) Suc.prems(2)] best
        by (simp add: bsa_iter_spec del: vec_get_Some_iff)
    qed
  qed
qed simp

lemma min_path_spec:
  assumes "square G" "0 < length G" "length G < 128"
  shows "\<exists>m. min_path B G = Some m \<and> is_best_route G 0 {1..<length G} (unat m)"
proof -
  obtain s where s: "bsa_init 2 True (length G) = Some s" "bs_set s = {0..<length G}" "bs_inv s" "bsa_size s = 64 * 2"
    using bit_set_init_true[of "length G" 2] assms(3) by (cases "bsa_init 2 True (length G)") simp_all
  have two: "length (bs_inner s) = 2" using s(4) by (simp add: bsa_size_def)
  obtain s' where s': "bsa_remove B s 0 = Some (0 \<in> bs_set s, s')" "bs_inv s'" "length (bs_inner s') = 2" "bs_set s' = bs_set s - {0}"
    using bsa_remove_spec[OF s(3), of 0] unfolding two by blast
  have S: "bs_set s' = {1..<length G}" unfolding s'(4) s(2) by auto
  have "card (bs_set s') < length G + 1" unfolding S by simp
  moreover have "bs_set s' \<subseteq> {..<length G}" unfolding S by auto
  ultimately obtain x memo where "min_path_from B G (length G + 1) 0 s' (replicate (length G) (ml_with_capacity (length G) 2)) = Some (x, memo)"
    "is_best_route G 0 {1..<length G} (unat x)" using min_path_from_spec[OF assms(1,3) _ assms(2) s'(2,3) _ memo_start] unfolding S by blast
  then show ?thesis using s(1) s'(1) by (simp add: min_path_def Let_def bsa_exclude_def)
qed

end

section \<open>The matrix that is filled\<close>

lemma mat_set_square:
  assumes "square g" "i < length g" "j < length g"
  shows "\<exists>g'. mat_set g i j x = Some g' \<and> square g' \<and> length g' = length g \<and> (\<forall>r. r \<noteq> i \<longrightarrow> g' ! r = g ! r) \<and>
    (\<forall>k. g' ! i ! k = (if k = j then x else g ! i ! k))"
proof -
  have len: "length (g ! i) = length g" using square_nth[OF assms(1,2)] .
  have "mat_set g i j x = Some (g[i := (g ! i)[j := x]])" using assms(2,3) len by (simp add: mat_set_def vec_get_def)
  moreover have "square (g[i := (g ! i)[j := x]])"
    using assms(1) len by (auto simp: square_def dest!: subsetD[OF set_update_subset_insert])
  moreover have "g[i := (g ! i)[j := x]] ! i ! k = (if k = j then x else g ! i ! k)" for k
    using assms(2,3) len by (cases "k < length g") (auto simp: nth_list_update)
  ultimately show ?thesis by simp
qed

definition ride_value :: "graph \<Rightarrow> nat \<Rightarrow> nat \<times> nat \<Rightarrow> u32" where
  "ride_value og a p = og ! a ! fst p + og ! fst p ! snd p"

lemma ride_square:
  "square og \<Longrightarrow> a < length og \<Longrightarrow> b < length og \<Longrightarrow> c < length og \<Longrightarrow> ride og a b c = Some (ride_value og a (b, c))"
  by (simp add: ride_def mat_get_square ride_value_def)

lemma fill_row_spec:
  assumes og: "square og" "e < length og"
  shows "square g \<Longrightarrow> i < length g \<Longrightarrow> j + length ps \<le> length g \<Longrightarrow> \<forall>(a, b) \<in> set ps. a < length og \<and> b < length og \<Longrightarrow>
    \<exists>g'. fill_row og i e j ps g = Some g' \<and> square g' \<and> length g' = length g \<and> (\<forall>r. r \<noteq> i \<longrightarrow> g' ! r = g ! r) \<and>
      (\<forall>k < length ps. g' ! i ! (j + k) = ride_value og e (ps ! k)) \<and> (\<forall>k < j. g' ! i ! k = g ! i ! k)"
proof (induction ps arbitrary: j g)
  case (Cons p ps)
  obtain a b where p: "p = (a, b)" by (cases p)
  have ab: "a < length og" "b < length og" "\<forall>(a, b) \<in> set ps. a < length og \<and> b < length og" using Cons.prems(4) p by auto
  have j: "j < length g" using Cons.prems(3) by simp
  obtain g1 where g1: "mat_set g i j (ride_value og e p) = Some g1" "square g1" "length g1 = length g" "\<forall>r. r \<noteq> i \<longrightarrow> g1 ! r = g ! r"
    "\<forall>k. g1 ! i ! k = (if k = j then ride_value og e p else g ! i ! k)" using mat_set_square[OF Cons.prems(1,2) j] by blast
  have "i < length g1" "Suc j + length ps \<le> length g1" using Cons.prems(2,3) g1(3) by auto
  from Cons.IH[OF g1(2) this ab(3)] obtain g' where g': "fill_row og i e (Suc j) ps g1 = Some g'" "square g'" "length g' = length g1"
    "\<forall>r. r \<noteq> i \<longrightarrow> g' ! r = g1 ! r" "\<forall>k < length ps. g' ! i ! (Suc j + k) = ride_value og e (ps ! k)"
    "\<forall>k < Suc j. g' ! i ! k = g1 ! i ! k" by blast
  have "g' ! i ! (j + k) = ride_value og e ((p # ps) ! k)" if "k < length (p # ps)" for k
    using that g'(5,6) g1(5) by (cases k) auto
  moreover have "fill_row og i e j (p # ps) g = Some g'" using g1(1) g'(1) ride_square[OF og ab(1,2)] by (simp add: p)
  moreover have "\<forall>k < j. g' ! i ! k = g ! i ! k" using g'(6) g1(5) by simp
  ultimately show ?case using g'(2-4) g1(3,4) by auto
qed simp

lemma fill_rows_spec:
  assumes og: "square og" "t < length og" and ps: "\<forall>(a, b) \<in> set ps. a < length og \<and> b < length og"
  shows "square g \<Longrightarrow> length g = length ps + 1 \<Longrightarrow> 0 < i \<Longrightarrow> i + length rest = length ps + 1 \<Longrightarrow> set rest \<subseteq> set ps \<Longrightarrow>
    \<exists>g'. fill_rows og t ps i rest g = Some g' \<and> square g' \<and> length g' = length g \<and>
      (\<forall>k < i. g' ! 0 ! k = g ! 0 ! k) \<and> (\<forall>k < length rest. g' ! 0 ! (i + k) = ride_value og t (rest ! k)) \<and>
      (\<forall>r. 0 < r \<and> r < i \<longrightarrow> g' ! r = g ! r) \<and>
      (\<forall>k < length rest. \<forall>j < length ps. g' ! (i + k) ! Suc j = ride_value og (snd (rest ! k)) (ps ! j))"
proof (induction rest arbitrary: i g)
  case (Cons p rest)
  obtain a b where p: "p = (a, b)" by (cases p)
  have "p \<in> set ps" using Cons.prems(5) by simp
  then have ab: "a < length og" "b < length og" using ps p by auto
  have i: "i < length g" "0 < length g" using Cons.prems(2,4) by auto
  obtain g1 where g1: "mat_set g 0 i (ride_value og t p) = Some g1" "square g1" "length g1 = length g" "\<forall>r. r \<noteq> 0 \<longrightarrow> g1 ! r = g ! r"
    "\<forall>k. g1 ! 0 ! k = (if k = i then ride_value og t p else g ! 0 ! k)" using mat_set_square[OF Cons.prems(1) i(2,1)] by blast
  obtain g2 where g2: "mat_set g1 i 0 (- 1) = Some g2" "square g2" "length g2 = length g1" "\<forall>r. r \<noteq> i \<longrightarrow> g2 ! r = g1 ! r"
    using mat_set_square[OF g1(2), of i 0 "- 1"] i unfolding g1(3) by blast
  have "i < length g2" "1 + length ps \<le> length g2" using i(1) g1(3) g2(3) Cons.prems(2) by auto
  from fill_row_spec[OF og(1) ab(2) g2(2) this ps] obtain g3 where g3: "fill_row og i b 1 ps g2 = Some g3" "square g3" "length g3 = length g2"
    "\<forall>r. r \<noteq> i \<longrightarrow> g3 ! r = g2 ! r" "\<forall>k < length ps. g3 ! i ! (1 + k) = ride_value og b (ps ! k)" by blast
  have "length g3 = length ps + 1" "0 < Suc i" "Suc i + length rest = length ps + 1" "set rest \<subseteq> set ps"
    using Cons.prems g1(3) g2(3) g3(3) by auto
  from Cons.IH[OF g3(2) this] obtain g' where g': "fill_rows og t ps (Suc i) rest g3 = Some g'" "square g'" "length g' = length g3"
    "\<forall>k < Suc i. g' ! 0 ! k = g3 ! 0 ! k" "\<forall>k < length rest. g' ! 0 ! (Suc i + k) = ride_value og t (rest ! k)"
    "\<forall>r. 0 < r \<and> r < Suc i \<longrightarrow> g' ! r = g3 ! r"
    "\<forall>k < length rest. \<forall>j < length ps. g' ! (Suc i + k) ! Suc j = ride_value og (snd (rest ! k)) (ps ! j)" by blast
  have row0: "g3 ! 0 = g1 ! 0" using g3(4) g2(4) Cons.prems(3) by simp
  have "g' ! 0 ! (i + k) = ride_value og t ((p # rest) ! k)" if "k < length (p # rest)" for k
    using that g'(4,5) g1(5) row0 by (cases k) auto
  moreover have "g' ! (i + k) ! Suc j = ride_value og (snd ((p # rest) ! k)) (ps ! j)" if "k < length (p # rest)" "j < length ps" for k j
    using that g'(6,7) g3(5) Cons.prems(3) p by (cases k) auto
  moreover have "\<forall>k < i. g' ! 0 ! k = g ! 0 ! k" using g'(4) row0 g1(5) by simp
  moreover have "\<forall>r. 0 < r \<and> r < i \<longrightarrow> g' ! r = g ! r" using g'(6) g3(4) g2(4) g1(4) by simp
  moreover have "fill_rows og t ps i (p # rest) g = Some g'"
    using g1(1) g2(1) g3(1) g'(1) ride_square[OF og ab] by (simp add: p)
  ultimately show ?case using g'(2,3) g1(3) g2(3) g3(3) by simp
qed simp

text \<open>The rides of the passengers \<open>ids\<close> of a job.\<close>

definition rides_matrix :: "graph \<Rightarrow> nat \<Rightarrow> (nat \<times> nat) list \<Rightarrow> graph \<Rightarrow> bool" where
  "rides_matrix og t ps G \<longleftrightarrow> square G \<and> length G = length ps + 1 \<and>
     (\<forall>k < length ps. G ! 0 ! Suc k = ride_value og t (ps ! k)) \<and>
     (\<forall>i < length ps. \<forall>j < length ps. G ! Suc i ! Suc j = ride_value og (snd (ps ! i)) (ps ! j))"

context bitset_core_laws
begin

lemma transform_graph_spec:
  assumes sq: "square (jd_graph d)" and ids: "bs_set s \<subseteq> {..<length (jd_passengers d)}" and x: "x < length (jd_taxies d)"
    and t: "jd_taxies d ! x < length (jd_graph d)"
    and ps: "\<forall>(a, b) \<in> set (jd_passengers d). a < length (jd_graph d) \<and> b < length (jd_graph d)"
  shows "\<exists>G. transform_graph B d x s = Some G \<and>
    rides_matrix (jd_graph d) (jd_taxies d ! x) (map ((!) (jd_passengers d)) (sorted_list_of_set (bs_set s))) G"
proof -
  let ?ids = "sorted_list_of_set (bs_set s)" and ?og = "jd_graph d" and ?t = "jd_taxies d ! x"
  let ?ps = "map ((!) (jd_passengers d)) ?ids"
  have set: "set ?ids = bs_set s" by simp
  have those: "those (map (vec_get (jd_passengers d)) is) = Some (map ((!) (jd_passengers d)) is)" if "set is \<subseteq> {..<length (jd_passengers d)}" for "is"
    using that by (induction "is") (auto simp: vec_get_def)
  have "set ?ps \<subseteq> set (jd_passengers d)" using ids set by auto
  then have ps': "\<forall>(a, b) \<in> set ?ps. a < length ?og \<and> b < length ?og" using ps by blast
  let ?g = "replicate (length ?ps + 1) (replicate (length ?ps + 1) (- 1)) :: graph"
  have g: "square ?g" "0 < length ?g" by (auto simp: square_def)
  obtain g1 where g1: "mat_set ?g 0 0 0 = Some g1" "square g1" "length g1 = length ?g" using mat_set_square[OF g(1,2,2)] by blast
  have "length g1 = length ?ps + 1" using g1(3) by simp
  from fill_rows_spec[OF sq t ps' g1(2) this, of 1 ?ps] obtain G where "fill_rows ?og ?t ?ps 1 ?ps g1 = Some G" "rides_matrix ?og ?t ?ps G"
    using g1(3) unfolding rides_matrix_def by auto
  then show ?thesis using g1(1) those[of ?ids] ids x set
    by (simp add: transform_graph_def bsa_iter_spec vec_get_def Let_def)
qed

end

section \<open>Properties\<close>

text \<open>C25. The search with the memo finds the same as the search through all orders: on a square matrix with fewer than 128 rows
  \<open>min_path\<close> returns, within its fuel, the least cost of a route from the first row through all others, and some route has it.\<close>

theorem min_path_optimal:
  assumes "bitset_core_laws B" "square G" "0 < length G" "length G < 128"
  shows "\<exists>m. min_path B G = Some m \<and> is_best_route G 0 {1..<length G} (unat m)"
  by (rule bitset_core_laws.min_path_spec[OF assms])

theorem min_path_optimal_witness:
  "min_path words_core [[0, 3, 9], [8, 0, 4], [8, 1, 0]] = Some 7 \<and> is_best_route [[0, 3, 9], [8, 0, 4], [8, 1, 0]] 0 {1..<3} 7"
proof -
  let ?G = "[[0, 3, 9], [8, 0, 4], [8, 1, 0]] :: graph"
  have sq: "square ?G" by (simp add: square_def)
  have run: "min_path words_core ?G = Some 7" by code_simp
  have "0 < length ?G" "length ?G < 128" by simp_all
  from min_path_optimal[OF words.bitset_core_laws_axioms sq this] run show ?thesis by (auto simp: numeral_3_eq_3)
qed

end
