(* ===== verification/Task_Reducer.thy ===== *)
theory Task_Reducer
  imports Task_Splitter Bit_Set Multilevel_Vec_Map
begin

text \<open>
  How the results of a job are combined, \<open>task_manager/src/reducer.rs\<close>: the generator enumerates the ways to give every
  passenger a taxi, as the numbers below \<open>taxies ^ passengers\<close> written to the base \<open>taxies\<close>, and the reducer adds up the
  distances of the taxis for each of them. Sets of passengers are rows of 64-bit words; their bit
  operations are those of the crate \<open>bitset_core\<close>, the argument \<open>B\<close>.
\<close>

section \<open>The combinations\<close>

record pair =
  pr_taxi :: usize
  pr_passenger :: usize

record combination_generator =
  cg_n :: u128
  cg_taxies :: usize
  cg_passengers :: usize

definition generator_new :: "usize \<Rightarrow> usize \<Rightarrow> combination_generator" where
  "generator_new taxies passengers =
     \<lparr>cg_n = of_nat taxies ^ wrap 32 passengers, cg_taxies = taxies, cg_passengers = passengers\<rparr>"

text \<open>The iterator of one combination, as the list it yields; the remainder by zero panics.\<close>

fun extract_pairs :: "u128 \<Rightarrow> nat \<Rightarrow> u128 \<Rightarrow> pair list option" where
  "extract_pairs taxies 0 num = Some []"
| "extract_pairs taxies (Suc passenger) num =
     (if taxies = 0 then None
      else do {
        ps \<leftarrow> extract_pairs taxies passenger (num div taxies);
        Some (\<lparr>pr_taxi = unat (ucast (num mod taxies) :: 64 word), pr_passenger = passenger\<rparr> # ps)
      })"

definition extract_combination :: "combination_generator \<Rightarrow> pair list option" where
  "extract_combination g = extract_pairs (of_nat (cg_taxies g)) (cg_passengers g) (cg_n g)"

definition generator_next :: "combination_generator \<Rightarrow> (pair list option \<times> combination_generator) option" where
  "generator_next g =
     (if cg_n g = 0 then Some (None, g)
      else (let g = g\<lparr>cg_n := cg_n g - 1\<rparr> in do { ps \<leftarrow> extract_combination g; Some (Some ps, g) }))"

section \<open>The reducer\<close>

record task_reducer =
  rd_min :: distance
  rd_buf :: "u64 list list"
  rd_combinations :: combination_generator
  rd_completed_parts :: "distance ml_map list"

definition reducer_new :: "usize \<Rightarrow> usize \<Rightarrow> distance ml_map list \<Rightarrow> task_reducer" where
  "reducer_new taxies passengers completed_parts =
     (let size = passengers div 64 + 1 in
      \<lparr>rd_min = - 1, rd_buf = replicate taxies (replicate size 0),
       rd_combinations = generator_new taxies passengers, rd_completed_parts = completed_parts\<rparr>)"

text \<open>The first loop of \<open>next\<close>. The access is unchecked: out of range it is undefined behaviour.\<close>

fun set_pairs :: "bitset_core \<Rightarrow> pair list \<Rightarrow> u64 list list \<Rightarrow> u64 list list option" where
  "set_pairs B [] buf = Some buf"
| "set_pairs B (p # ps) buf =
     do {
       row \<leftarrow> vec_get buf (pr_taxi p);
       row \<leftarrow> bc_set B row (pr_passenger p);
       set_pairs B ps (buf[pr_taxi p := row])
     }"

text \<open>The second loop, over the rows from the taxi \<open>taxi\<close> on.\<close>

fun sum_rows ::
  "bitset_core \<Rightarrow> distance ml_map list \<Rightarrow> nat \<Rightarrow> u64 list list \<Rightarrow> distance \<Rightarrow> (distance \<times> u64 list list) option" where
  "sum_rows B parts taxi [] distance = Some (distance, [])"
| "sum_rows B parts taxi (row # rows) distance =
     (if bc_any B row then
        do {
          part \<leftarrow> vec_get parts taxi;
          r \<leftarrow> ml_get part (map unat row);
          v \<leftarrow> r;
          (distance, rows) \<leftarrow> sum_rows B parts (Suc taxi) rows (distance + v);
          Some (distance, bc_init B row False # rows)
        }
      else do { (distance, rows) \<leftarrow> sum_rows B parts (Suc taxi) rows distance; Some (distance, row # rows) })"

definition reducer_next :: "bitset_core \<Rightarrow> task_reducer \<Rightarrow> (distance option \<times> task_reducer) option" where
  "reducer_next B r =
     do {
       (c, g) \<leftarrow> generator_next (rd_combinations r);
       case c of
         None \<Rightarrow> Some (None, r\<lparr>rd_combinations := g\<rparr>)
       | Some combination \<Rightarrow>
           do {
             buf \<leftarrow> set_pairs B combination (rd_buf r);
             (distance, buf) \<leftarrow> sum_rows B (rd_completed_parts r) 0 buf 0;
             Some (Some distance, r\<lparr>rd_combinations := g, rd_buf := buf\<rparr>)
           }
     }"

section \<open>What the reducer computes\<close>

text \<open>An assignment gives every passenger below \<open>P\<close> a taxi. The passengers of a taxi as a set and as the number whose bits
  they are, and the total distance.\<close>

definition riders :: "nat \<Rightarrow> (nat \<Rightarrow> nat) \<Rightarrow> nat \<Rightarrow> nat set" where
  "riders P f x = {i. i < P \<and> f i = x}"

definition combination_of :: "nat set \<Rightarrow> nat" where
  "combination_of S = (\<Sum>i\<in>S. 2 ^ i)"

definition total_distance :: "(nat \<Rightarrow> nat \<Rightarrow> distance) \<Rightarrow> nat \<Rightarrow> nat \<Rightarrow> (nat \<Rightarrow> nat) \<Rightarrow> distance" where
  "total_distance dist T P f =
     sum_list (map (\<lambda>x. dist x (combination_of (riders P f x))) (filter (\<lambda>x. riders P f x \<noteq> {}) [0..<T]))"

text \<open>The assignment a number stands for.\<close>

definition assignment_of :: "nat \<Rightarrow> nat \<Rightarrow> nat \<Rightarrow> nat \<Rightarrow> nat" where
  "assignment_of T P n i = n div T ^ (P - 1 - i) mod T"

text \<open>The results that the reducer needs: for every taxi the distance of every combination of \<open>p\<close> passengers.\<close>

definition parts_complete :: "(nat \<Rightarrow> nat \<Rightarrow> distance) \<Rightarrow> nat \<Rightarrow> nat \<Rightarrow> distance ml_map list \<Rightarrow> bool" where
  "parts_complete dist T p parts \<longleftrightarrow> length parts = T \<and>
     (\<forall>x < T. ml_inv (parts ! x) \<and> 0 < ml_levels_idx (parts ! x) \<and>
        (\<forall>c < 2 ^ p. ml_get (parts ! x) (split_words (of_nat c)) = Some (Some (dist x c))))"

lemma bit_combination_of: "finite S \<Longrightarrow> bit (combination_of S) j \<longleftrightarrow> j \<in> S"
proof (induction S arbitrary: j rule: finite_induct)
  case empty
  then show ?case by (simp add: combination_of_def)
next
  case (insert x F)
  then have "combination_of (insert x F) = Bit_Operations.set_bit x (combination_of F)"
    by (simp add: combination_of_def set_bit_eq)
  then show ?case using insert by (auto simp: bit_set_bit_iff)
qed

lemma combination_of_less:
  assumes "S \<subseteq> {..<P}"
  shows "combination_of S < 2 ^ P"
proof -
  have "Suc (combination_of {..<P}) = 2 ^ P" by (induction P) (simp_all add: combination_of_def)
  moreover have "combination_of S \<le> combination_of {..<P}" using assms by (auto simp: combination_of_def intro: sum_mono2)
  ultimately show ?thesis by simp
qed

lemma zero_row: "bits_of w = {} \<Longrightarrow> w = replicate (length w) 0"
  using words_any_bits[of w] by (simp add: words_any_def list_eq_iff_nth_eq)

lemma riders_subset: "riders P f x \<subseteq> {..<P}"
  by (auto simp: riders_def)

lemma finite_riders [simp]: "finite (riders P f x)"
  by (rule finite_subset[OF riders_subset]) simp

text \<open>The row of a taxi and the combination of its passengers address the same entry of a trie.\<close>

lemma row_key:
  assumes "length row = P div 64 + 1" "bits_of row \<subseteq> {..<P}" "P < 128"
  shows "ml_path L (map unat row) = ml_path L (split_words (of_nat (combination_of (bits_of row))))"
proof -
  let ?c = "of_nat (combination_of (bits_of row)) :: u128"
  have c: "bit ?c n \<longleftrightarrow> n \<in> bits_of row" if "n < 128" for n
    using that bit_combination_of[of "bits_of row" n] by (simp add: bit_of_nat_iff)
  have lo: "row ! 0 = ucast ?c"
    by (rule bit_eqI) (use assms(1) in \<open>auto simp: bit_ucast_iff c mem_bits_of\<close>)
  have "key_at (map unat row) i = key_at (split_words ?c) i" for i
  proof -
    consider "i = 0" | "i = 1" | "2 \<le> i" by linarith
    then show ?thesis
    proof cases
      case 1
      then show ?thesis using lo assms(1) by (simp add: key_at_def split_words_def vec_get_def)
    next
      case 2
      have hi: "bit (ucast (drop_bit 64 ?c) :: u64) n \<longleftrightarrow> n < 64 \<and> n + 64 \<in> bits_of row" for n
        using c[of "n + 64"] by (auto simp: bit_ucast_iff bit_drop_bit_eq add.commute)
      show ?thesis
      proof (cases "P < 64")
        case True
        then have "(ucast (drop_bit 64 ?c) :: u64) = 0" using assms(2) by (intro bit_eqI) (auto simp: hi)
        then show ?thesis using 2 True assms(1) by (simp add: key_at_def split_words_def vec_get_def)
      next
        case False
        then have len: "length row = 2" using assms(1,3) by simp
        have "row ! 1 = ucast (drop_bit 64 ?c)"
          by (rule bit_eqI) (simp add: hi mem_bits_of len div_add_self2)
        then show ?thesis using 2 len by (simp add: key_at_def split_words_def vec_get_def)
      qed
    next
      case 3
      have "P div 64 < 2" using assms(3) by (intro less_mult_imp_div_less) simp
      then show ?thesis using 3 assms(1) by (simp add: key_at_def split_words_def vec_get_def)
    qed
  qed
  then show ?thesis by (simp add: ml_path_def)
qed

section \<open>Combinations are assignments\<close>

lemma assignment_of_Suc: "i < P \<Longrightarrow> assignment_of T (Suc P) n i = assignment_of T P (n div T) i"
  using power_Suc[of T "P - Suc i"] by (simp add: assignment_of_def Suc_diff_Suc div_mult2_eq del: power_Suc)

lemma extract_pairs_spec:
  assumes "0 < T" "T < 2 ^ 64"
  shows "n < 2 ^ 128 \<Longrightarrow> extract_pairs (of_nat T) P (of_nat n) =
    Some (map (\<lambda>i. \<lparr>pr_taxi = assignment_of T P n i, pr_passenger = i\<rparr>) (rev [0..<P]))"
proof (induction P arbitrary: n)
  case (Suc P)
  have T: "unat (of_nat T :: u128) = T" using assms(2) by (simp add: unat_of_nat)
  then have T0: "(of_nat T :: u128) \<noteq> 0" using assms(1) by (metis unat_0 less_irrefl)
  have n: "unat (of_nat n :: u128) = n" using Suc.prems by (simp add: unat_of_nat)
  have dm: "(of_nat n :: u128) div of_nat T = of_nat (n div T)" "(of_nat n :: u128) mod of_nat T = of_nat (n mod T)"
    using T n by (metis of_nat_unat ucast_id unat_div, metis of_nat_unat ucast_id unat_mod)
  have "n mod T < 2 ^ 64" using assms by (meson mod_less_divisor order.strict_trans)
  then have "unat (ucast (of_nat (n mod T) :: u128) :: 64 word) = n mod T"
    by (simp add: unsigned_ucast_eq unat_of_nat take_bit_nat_eq_self)
  moreover have "n div T < 2 ^ 128" using Suc.prems div_le_dividend[of n T] by linarith
  ultimately show ?case using Suc.IH[of "n div T"] T0 dm
    by (simp add: assignment_of_Suc assignment_of_def[of T "Suc P" n P])
qed simp

text \<open>Every assignment is the one of a number below \<open>T ^ P\<close>.\<close>

lemma assignment_of_less: "0 < T \<Longrightarrow> assignment_of T P n i < T"
  by (simp add: assignment_of_def)

lemma assignment_of_exists:
  assumes "\<And>i. i < P \<Longrightarrow> f i < T"
  shows "\<exists>n < T ^ P. \<forall>i < P. assignment_of T P n i = f i"
  using assms
proof (induction P)
  case (Suc P)
  then obtain n where n: "n < T ^ P" "\<And>i. i < P \<Longrightarrow> assignment_of T P n i = f i" by auto
  have f: "f P < T" using Suc.prems by simp
  let ?n = "T * n + f P"
  have "T * n + f P < T * (n + 1)" using f by simp
  also have "\<dots> \<le> T * T ^ P" using n(1) by (intro mult_le_mono2) simp
  finally have "?n < T ^ Suc P" by simp
  moreover have "assignment_of T (Suc P) ?n i = f i" if "i < Suc P" for i
  proof (cases "i = P")
    case True
    then show ?thesis using f by (simp add: assignment_of_def)
  next
    case False
    then show ?thesis using that f n(2)[of i] by (simp add: assignment_of_Suc)
  qed
  ultimately show ?case by blast
qed simp

section \<open>One step of the reducer\<close>

definition reducer_at :: "nat \<Rightarrow> nat \<Rightarrow> distance ml_map list \<Rightarrow> nat \<Rightarrow> task_reducer" where
  "reducer_at T P parts k =
     \<lparr>rd_min = - 1, rd_buf = replicate T (replicate (P div 64 + 1) 0),
      rd_combinations = \<lparr>cg_n = of_nat k, cg_taxies = T, cg_passengers = P\<rparr>, rd_completed_parts = parts\<rparr>"

lemma reducer_new_at: "P < 2 ^ 32 \<Longrightarrow> reducer_new T P parts = reducer_at T P parts (T ^ P)"
  by (simp add: reducer_new_def reducer_at_def generator_new_def wrap_def)

context bitset_core_laws
begin

lemma set_pairs_spec:
  assumes "\<And>p. p \<in> set ps \<Longrightarrow> pr_taxi p < length buf \<and> pr_passenger p < 64 * sz" "\<And>row. row \<in> set buf \<Longrightarrow> length row = sz"
  shows "\<exists>buf'. set_pairs B ps buf = Some buf' \<and> length buf' = length buf \<and> (\<forall>row \<in> set buf'. length row = sz) \<and>
    (\<forall>x < length buf. bits_of (buf' ! x) = bits_of (buf ! x) \<union> pr_passenger ` {p \<in> set ps. pr_taxi p = x})"
  using assms
proof (induction ps arbitrary: buf)
  case (Cons p ps)
  let ?t = "pr_taxi p" and ?i = "pr_passenger p"
  have t: "?t < length buf" "?i < 64 * length (buf ! ?t)" "length (buf ! ?t) = sz" using Cons.prems by auto
  let ?row = "(buf ! ?t)[?i div 64 := Bit_Operations.set_bit (?i mod 64) (buf ! ?t ! (?i div 64))]"
  have row: "bc_set B (buf ! ?t) ?i = Some ?row" "length ?row = sz" "bits_of ?row = insert ?i (bits_of (buf ! ?t))"
    using set_law[OF t(2)] bits_of_set_bit[OF t(2)] t(3) by simp_all
  have "\<And>r. r \<in> set (buf[?t := ?row]) \<Longrightarrow> length r = sz"
    using Cons.prems(2) row(2) by (auto dest!: subsetD[OF set_update_subset_insert])
  then obtain buf' where b: "set_pairs B ps (buf[?t := ?row]) = Some buf'" "length buf' = length buf"
    "\<forall>row \<in> set buf'. length row = sz"
    "\<forall>x < length buf. bits_of (buf' ! x) = bits_of (buf[?t := ?row] ! x) \<union> pr_passenger ` {p \<in> set ps. pr_taxi p = x}"
    using Cons.IH[of "buf[?t := ?row]"] Cons.prems(1) by fastforce
  have "bits_of (buf' ! x) = bits_of (buf ! x) \<union> pr_passenger ` {q \<in> set (p # ps). pr_taxi q = x}" if "x < length buf" for x
  proof -
    have "{q \<in> set (p # ps). pr_taxi q = x} = (if ?t = x then insert p {q \<in> set ps. pr_taxi q = x} else {q \<in> set ps. pr_taxi q = x})"
      by auto
    then show ?thesis using b(4) that row(3) t(1) by (auto simp: nth_list_update)
  qed
  then show ?case using b t(1) row(1) by (auto simp: vec_get_def)
qed simp

lemma sum_rows_spec:
  assumes "parts_complete dist T p parts" "P \<le> p" "P < 128" "k + length rows = T"
    "\<And>row. row \<in> set rows \<Longrightarrow> length row = P div 64 + 1" "\<And>j. j < length rows \<Longrightarrow> bits_of (rows ! j) = riders P f (k + j)"
  shows "sum_rows B parts k rows d =
    Some (d + sum_list (map (\<lambda>x. dist x (combination_of (riders P f x))) (filter (\<lambda>x. riders P f x \<noteq> {}) [k..<T])),
      replicate (length rows) (replicate (P div 64 + 1) 0))"
  using assms(4-6)
proof (induction rows arbitrary: k d)
  case Nil
  then show ?case by simp
next
  case (Cons row rows)
  have k: "k < T" "Suc k + length rows = T" using Cons.prems(1) by auto
  have row: "length row = P div 64 + 1" "bits_of row = riders P f k" using Cons.prems(2) Cons.prems(3)[of 0] by auto
  have IH: "sum_rows B parts (Suc k) rows d' =
    Some (d' + sum_list (map (\<lambda>x. dist x (combination_of (riders P f x))) (filter (\<lambda>x. riders P f x \<noteq> {}) [Suc k..<T])),
      replicate (length rows) (replicate (P div 64 + 1) 0))" for d'
    by (rule Cons.IH[OF k(2)]) (use Cons.prems(2) Cons.prems(3)[of "Suc j" for j] in auto)
  have upt: "[k..<T] = k # [Suc k..<T]" using k(1) by (rule upt_conv_Cons)
  show ?case
  proof (cases "riders P f k = {}")
    case True
    then have "row = replicate (P div 64 + 1) 0" using zero_row[of row] row by simp
    then show ?thesis using True IH row(2) any_law[of row] upt by simp
  next
    case False
    let ?c = "combination_of (riders P f k)"
    have part: "ml_inv (parts ! k)" "0 < ml_levels_idx (parts ! k)" "k < length parts" and
      get: "\<And>c. c < 2 ^ p \<Longrightarrow> ml_get (parts ! k) (split_words (of_nat c)) = Some (Some (dist k c))"
      using assms(1) k(1) by (auto simp: parts_complete_def)
    have "?c < 2 ^ P" using combination_of_less[OF riders_subset] .
    also have "\<dots> \<le> 2 ^ p" using assms(2) by simp
    finally have c: "?c < 2 ^ p" .
    have "P div 64 < 2" using assms(3) by (intro less_mult_imp_div_less) simp
    then have short: "\<not> ml_key_too_long (parts ! k) (map unat row)" "\<not> ml_key_too_long (parts ! k) (split_words (of_nat ?c))"
      using ml_too_long_iff[OF part(1)] part(2) row(1) by (auto simp: split_words_def)
    have "ml_get (parts ! k) (map unat row) = ml_get (parts ! k) (split_words (of_nat ?c))"
      using row_key[OF row(1) _ assms(3), of "ml_levels_idx (parts ! k)"] row(2) riders_subset[of P f k] short by (simp add: ml_get_def)
    then show ?thesis using False IH row get[OF c] part(3) any_law[of row] init_law[of row False] upt
      by (simp add: vec_get_def add.assoc)
  qed
qed

text \<open>A reducer that still has \<open>k\<close> combinations to go.\<close>

lemma reducer_next_spec:
  assumes parts: "parts_complete dist T p parts" and P: "P \<le> p" "P < 128" and T: "0 < T" "T < 2 ^ 64" and k: "0 < k" "k < 2 ^ 128"
  shows "reducer_next B (reducer_at T P parts k) =
    Some (Some (total_distance dist T P (assignment_of T P (k - 1))), reducer_at T P parts (k - 1))"
proof -
  let ?f = "assignment_of T P (k - 1)" and ?sz = "P div 64 + 1"
  let ?ps = "map (\<lambda>i. \<lparr>pr_taxi = ?f i, pr_passenger = i\<rparr>) (rev [0..<P])"
  define zero where "zero = replicate T (replicate ?sz (0 :: u64))"
  have zero: "length zero = T" "\<And>row. row \<in> set zero \<Longrightarrow> length row = ?sz" "\<And>x. x < T \<Longrightarrow> bits_of (zero ! x) = {}"
    using bits_of_zeros[of ?sz] by (auto simp: zero_def simp del: replicate_Suc bits_of_zeros)
  have n: "(of_nat k :: u128) \<noteq> 0" "(of_nat k :: u128) - 1 = of_nat (k - 1)"
    using k u128_of_nat_inject[of k 0] by (simp_all add: of_nat_diff)
  have gen: "generator_next \<lparr>cg_n = of_nat k, cg_taxies = T, cg_passengers = P\<rparr> =
      Some (Some ?ps, \<lparr>cg_n = of_nat (k - 1), cg_taxies = T, cg_passengers = P\<rparr>)"
    using extract_pairs_spec[OF T, of "k - 1" P] k n
    by (simp add: generator_next_def extract_combination_def Let_def del: of_nat_diff)
  have ok: "pr_taxi q < length zero \<and> pr_passenger q < 64 * ?sz" if "q \<in> set ?ps" for q
    using that assignment_of_less[OF T(1)] zero(1) by auto
  obtain buf where buf: "set_pairs B ?ps zero = Some buf" "length buf = T" "\<forall>row \<in> set buf. length row = ?sz"
    "\<forall>x < T. bits_of (buf ! x) = bits_of (zero ! x) \<union> pr_passenger ` {q \<in> set ?ps. pr_taxi q = x}"
    using set_pairs_spec[OF ok zero(2)] unfolding zero(1) by blast
  have "pr_passenger ` {q \<in> set ?ps. pr_taxi q = x} = riders P ?f x" for x
  proof -
    have "{q \<in> set ?ps. pr_taxi q = x} = (\<lambda>i. \<lparr>pr_taxi = ?f i, pr_passenger = i\<rparr>) ` riders P ?f x" by (auto simp: riders_def)
    then show ?thesis by (simp add: image_image)
  qed
  then have bits: "bits_of (buf ! x) = riders P ?f x" if "x < T" for x
    using buf(4) that zero(3) by simp
  have "sum_rows B parts 0 buf 0 = Some (total_distance dist T P ?f, zero)"
    using sum_rows_spec[OF parts P, of 0 buf ?f 0] buf(2,3) bits
    by (simp add: total_distance_def zero_def)
  then show ?thesis using gen buf(1) by (simp add: reducer_next_def reducer_at_def zero_def)
qed

lemma reducer_chunk_spec:
  assumes parts: "parts_complete dist T p parts" and P: "P \<le> p" "P < 128" and T: "0 < T" "T < 2 ^ 64"
  shows "k < 2 ^ 128 \<Longrightarrow> next_chunk (reducer_next B) n (reducer_at T P parts k) =
    Some (if n \<le> k then (Inr (map (\<lambda>j. total_distance dist T P (assignment_of T P j)) (rev [k - n..<k])), reducer_at T P parts (k - n))
      else (Inl (map (\<lambda>j. total_distance dist T P (assignment_of T P j)) (rev [0..<k])), reducer_at T P parts 0))"
proof (induction n arbitrary: k)
  case 0
  then show ?case by simp
next
  case (Suc n)
  show ?case
  proof (cases k)
    case 0
    then show ?thesis by (simp add: reducer_next_def reducer_at_def generator_next_def)
  next
    case (Suc j)
    then show ?thesis using Suc.IH[of j] Suc.prems reducer_next_spec[OF assms, of k]
      by auto
  qed
qed

end

section \<open>The best assignment\<close>

text \<open>\<open>m\<close> is the least total distance of an assignment of \<open>P\<close> passengers to \<open>T\<close> taxis.\<close>

definition is_best :: "(nat \<Rightarrow> nat \<Rightarrow> distance) \<Rightarrow> nat \<Rightarrow> nat \<Rightarrow> distance \<Rightarrow> bool" where
  "is_best dist T P m \<longleftrightarrow>
     (\<forall>f. (\<forall>i < P. f i < T) \<longrightarrow> m \<le> total_distance dist T P f) \<and>
     (\<exists>f. (\<forall>i < P. f i < T) \<and> m = total_distance dist T P f)"

definition keep_min :: "distance list \<Rightarrow> distance \<Rightarrow> distance" where
  "keep_min ds m = fold (\<lambda>d m. min m d) ds m"

lemma keep_min_append: "keep_min (xs @ ys) m = keep_min ys (keep_min xs m)"
  by (simp add: keep_min_def)

lemma keep_min_facts:
  "keep_min ds m \<le> m" "d \<in> set ds \<Longrightarrow> keep_min ds m \<le> d" "keep_min ds m = m \<or> keep_min ds m \<in> set ds"
proof -
  have le: "keep_min ds m \<le> m" for ds m
    by (induction ds arbitrary: m) (auto simp: keep_min_def intro: order.trans min.cobounded1)
  then show "keep_min ds m \<le> m" .
  show "keep_min ds m \<le> d" if "d \<in> set ds"
    using that
  proof (induction ds arbitrary: m)
    case (Cons a ds)
    have "keep_min (a # ds) m = keep_min ds (min m a)" by (simp add: keep_min_def)
    then show ?case using Cons le[of ds "min m a"] by (cases "d = a") (auto intro: order.trans)
  qed simp
  show "keep_min ds m = m \<or> keep_min ds m \<in> set ds"
  proof (induction ds arbitrary: m)
    case (Cons a ds)
    have "keep_min (a # ds) m = keep_min ds (min m a)" by (simp add: keep_min_def)
    then show ?case using Cons[of "min m a"] by (auto simp: min_def split: if_splits)
  qed (simp add: keep_min_def)
qed

lemma total_distance_cong:
  assumes "\<And>i. i < P \<Longrightarrow> f i = g i"
  shows "total_distance dist T P f = total_distance dist T P g"
proof -
  have "riders P f x = riders P g x" for x using assms by (auto simp: riders_def)
  then show ?thesis by (simp add: total_distance_def)
qed

lemma best_of_all:
  assumes "0 < T"
  shows "is_best dist T P (keep_min (map (\<lambda>j. total_distance dist T P (assignment_of T P j)) (rev [0..<T ^ P])) (- 1))"
    (is "is_best dist T P (keep_min ?ds (- 1))")
proof -
  have "keep_min ?ds (- 1) \<le> total_distance dist T P f" if f: "\<forall>i < P. f i < T" for f
  proof -
    obtain n where n: "n < T ^ P" "\<And>i. i < P \<Longrightarrow> assignment_of T P n i = f i" using assignment_of_exists[of P f T] f by blast
    have "total_distance dist T P f = total_distance dist T P (assignment_of T P n)"
      by (rule total_distance_cong) (simp add: n(2))
    then have "total_distance dist T P f \<in> set ?ds" using n(1) by simp
    then show ?thesis by (rule keep_min_facts(2))
  qed
  moreover have "\<exists>f. (\<forall>i < P. f i < T) \<and> keep_min ?ds (- 1) = total_distance dist T P f"
  proof -
    have "keep_min ?ds (- 1) \<in> set ?ds"
    proof (cases "keep_min ?ds (- 1) = - 1")
      case True
      let ?d = "total_distance dist T P (assignment_of T P 0)"
      have mem: "?d \<in> set ?ds" using assms by (simp del: upt_Suc)
      have "- 1 \<le> ?d" using keep_min_facts(2)[OF mem, of "- 1"] True by simp
      then have "?d = - 1" by (simp add: word_order.extremum_unique)
      then show ?thesis using True mem by simp
    qed (use keep_min_facts(3)[of ?ds "- 1"] in blast)
    then show ?thesis using assignment_of_less[OF assms] by fastforce
  qed
  ultimately show ?thesis by (simp add: is_best_def)
qed

end
