(* ===== verification/Worker_Job.thy ===== *)
theory Worker_Job
  imports Route_Search Task_Reducer
begin

text \<open>
  What the code of a worker computes for a task: for both combinations of passengers the least distance that the taxi of the task
  has to drive to take each passenger from where he is to where he wants, one after the other, in the
  best order, along shortest paths of the graph of the job.
\<close>

section \<open>Rides\<close>

definition distance_of :: "graph \<Rightarrow> nat \<Rightarrow> nat \<Rightarrow> nat" where
  "distance_of g u v = (LEAST c. walk g u v c)"

text \<open>The cost of taking the passengers \<open>is\<close> in this order, starting at \<open>pos\<close>.\<close>

fun ride_cost :: "graph \<Rightarrow> (nat \<times> nat) list \<Rightarrow> nat \<Rightarrow> nat list \<Rightarrow> nat" where
  "ride_cost g P pos [] = 0"
| "ride_cost g P pos (i # is) =
     distance_of g pos (fst (P ! i)) + distance_of g (fst (P ! i)) (snd (P ! i)) + ride_cost g P (snd (P ! i)) is"

definition is_best_ride :: "job_data \<Rightarrow> nat \<Rightarrow> nat set \<Rightarrow> nat \<Rightarrow> bool" where
  "is_best_ride d x R m \<longleftrightarrow>
     (\<exists>is. distinct is \<and> set is = R \<and> m = ride_cost (jd_graph d) (jd_passengers d) (jd_taxies d ! x) is) \<and>
     (\<forall>is. distinct is \<and> set is = R \<longrightarrow> m \<le> ride_cost (jd_graph d) (jd_passengers d) (jd_taxies d ! x) is)"

text \<open>Every vertex of the job can be reached from every other.\<close>

definition job_connected :: "job_data \<Rightarrow> bool" where
  "job_connected d \<longleftrightarrow> (\<forall>u \<in> job_vertices d. \<forall>v \<in> job_vertices d. \<exists>c. walk (jd_graph d) u v c)"

lemma best_ride_unique: "is_best_ride d x R m \<Longrightarrow> is_best_ride d x R m' \<Longrightarrow> m = m'"
  by (auto simp: is_best_ride_def intro: antisym)

lemma shortest_distance:
  assumes "shortest g u v w" "walk g u v c"
  shows "w \<noteq> - 1" "unat w = distance_of g u v"
proof -
  show "w \<noteq> - 1" using assms by (auto simp: shortest_def)
  then have "walk g u v (unat w)" "\<And>c. walk g u v c \<Longrightarrow> unat w \<le> c" using assms(1) by (auto simp: shortest_def)
  then show "unat w = distance_of g u v" unfolding distance_of_def by (intro Least_equality[symmetric])
qed

lemma ride_value_distance:
  assumes fits: "graph_fits K g" and n: "a < length g" "b < length g" "c < length g"
    and sh: "shortest g0 a b (g ! a ! b)" "shortest g0 b c (g ! b ! c)" and w: "walk g0 a b k" "walk g0 b c k'"
  shows "unat (ride_value g a (b, c)) = distance_of g0 a b + distance_of g0 b c"
proof -
  note 1 = shortest_distance[OF sh(1) w(1)] and 2 = shortest_distance[OF sh(2) w(2)]
  have "unat (g ! a ! b) \<le> K" "unat (g ! b ! c) \<le> K" "2 * K < 2 ^ 32 - 1" using fits n 1(1) 2(1) by (auto simp: graph_fits_def)
  then have "unat (g ! a ! b) + unat (g ! b ! c) < 2 ^ 32" by linarith
  then show ?thesis using 1(2) 2(2) by (simp add: ride_value_def unat_word_ariths)
qed

section \<open>Routes of the matrix are orders of the passengers\<close>

lemma route_ride_cost:
  assumes G: "rides_matrix g t ps G" and ps: "ps = map ((!) P) ids"
    and val: "\<And>a i. i \<in> set ids \<Longrightarrow> a = t \<or> a \<in> snd ` (!) P ` set ids \<Longrightarrow>
      unat (ride_value g a (P ! i)) = distance_of g0 a (fst (P ! i)) + distance_of g0 (fst (P ! i)) (snd (P ! i))"
  shows "set js \<subseteq> {1..length ids} \<Longrightarrow> r \<le> length ids \<Longrightarrow>
    route_cost G r js = ride_cost g0 P (if r = 0 then t else snd (P ! (ids ! (r - 1)))) (map (\<lambda>j. ids ! (j - 1)) js)"
proof (induction js arbitrary: r)
  case (Cons j js)
  then have j: "j - 1 < length ids" "j = Suc (j - 1)" "set js \<subseteq> {1..length ids}" by auto
  let ?pos = "if r = 0 then t else snd (P ! (ids ! (r - 1)))"
  have entry: "G ! r ! j = ride_value g ?pos (P ! (ids ! (j - 1)))"
  proof -
    obtain k where k: "j = Suc k" "k < length ids" using j(1,2) by (metis)
    show ?thesis using G k Cons.prems(2) by (cases r) (auto simp: rides_matrix_def ps Suc_le_eq)
  qed
  have "?pos = t \<or> ?pos \<in> snd ` (!) P ` set ids" using Cons.prems(2) by (auto intro!: imageI nth_mem)
  then have "unat (G ! r ! j) = distance_of g0 ?pos (fst (P ! (ids ! (j - 1)))) + distance_of g0 (fst (P ! (ids ! (j - 1)))) (snd (P ! (ids ! (j - 1))))"
    unfolding entry using val[of "ids ! (j - 1)" ?pos] j(1) by simp
  then show ?case using Cons.IH[OF j(3), of j] Cons.prems(1) j(2) by auto
qed simp

lemma best_route_ride:
  assumes best: "is_best_route G 0 {1..<length G} m" and ids: "distinct ids" "length G = length ids + 1"
    and cost: "\<And>js. set js \<subseteq> {1..length ids} \<Longrightarrow>
      route_cost G 0 js = ride_cost (jd_graph d) (jd_passengers d) (jd_taxies d ! x) (map (\<lambda>j. ids ! (j - 1)) js)"
  shows "is_best_ride d x (set ids) m"
proof -
  let ?f = "\<lambda>j. ids ! (j - 1)" and ?D = "{1..length ids}"
  have D: "{1..<length G} = ?D" unfolding ids(2) by auto
  have "bij_betw ?f ?D (set ids)"
  proof (rule bij_betw_imageI)
    show "inj_on ?f ?D" using ids(1) by (auto simp: inj_on_def nth_eq_iff_index_eq)
    show "?f ` ?D = set ids"
    proof (intro equalityI subsetI)
      fix i assume "i \<in> set ids"
      then obtain k where "k < length ids" "i = ids ! k" by (metis in_set_conv_nth)
      then show "i \<in> ?f ` ?D" by (intro image_eqI[of _ _ "Suc k"]) auto
    qed (auto intro!: nth_mem)
  qed
  then have f: "inj_on ?f ?D" "?f ` ?D = set ids" by (auto simp: bij_betw_def)
  obtain js where js: "distinct js" "set js = ?D" "m = route_cost G 0 js" using best unfolding D is_best_route_def by blast
  have "distinct (map ?f js)" "set (map ?f js) = set ids" using js(1,2) f by (auto simp: distinct_map)
  then have ex: "\<exists>is. distinct is \<and> set is = set ids \<and> m = ride_cost (jd_graph d) (jd_passengers d) (jd_taxies d ! x) is"
    using js(3) cost[of js] js(2) by auto
  have "m \<le> ride_cost (jd_graph d) (jd_passengers d) (jd_taxies d ! x) is" if "is": "distinct is" "set is = set ids" for "is"
  proof -
    let ?h = "the_inv_into ?D ?f"
    have h: "?h i \<in> ?D" "?f (?h i) = i" if "i \<in> set ids" for i
      using the_inv_into_into[OF f(1), of i ?D] f_the_inv_into_f[OF f(1), of i] that f(2) by auto
    have map: "map ?f (map ?h is) = is" using h(2) "is"(2) unfolding map_map by (intro map_idI) auto
    then have "distinct (map ?h is)" using "is"(1) by (metis distinct_map)
    moreover have "set (map ?h is) = ?D"
    proof -
      have "?h ` set ids = ?D" using f by (metis the_inv_into_onto)
      then show ?thesis using "is"(2) by simp
    qed
    ultimately have "m \<le> route_cost G 0 (map ?h is)" using best unfolding D is_best_route_def by blast
    then show ?thesis using cost[of "map ?h is"] \<open>set (map ?h is) = ?D\<close> map by simp
  qed
  then show ?thesis using ex by (simp add: is_best_ride_def)
qed

section \<open>The code of a worker\<close>

lemma bits_of_split:
  "bits_of (map of_nat (split_words c)) = {i. bit (c :: u128) i}"
proof -
  have w: "map of_nat (split_words c) = [ucast c, ucast (drop_bit 64 c) :: u64]" by (simp add: split_words_def)
  have bound: "i < 128" if "bit c i" for i using that bit_imp_le_length[of c i] by simp
  have "i \<in> bits_of (map of_nat (split_words c)) \<longleftrightarrow> bit c i" if "i < 128" for i
  proof (cases "i < 64")
    case True
    then show ?thesis by (simp add: w bits_of_def bit_ucast_iff)
  next
    case False
    then have "i div 64 = 1" "i mod 64 = i - 64" "i - 64 < 64" using that by (simp_all add: div_nat_eqI mod_if)
    then show ?thesis using that False by (simp add: w bits_of_def bit_ucast_iff bit_drop_bit_eq)
  qed
  moreover have "i < 128" if "i \<in> bits_of (map of_nat (split_words c))" for i using that by (simp add: w bits_of_def)
  ultimately show ?thesis using bound by blast
qed

text \<open>A job on which the code of a worker works: the data is valid, the distances are small enough, every vertex of the job is reachable,
  and there are fewer passengers than the mask of \<open>min_path\<close> can hold.\<close>

definition job_served :: "nat \<Rightarrow> job_data \<Rightarrow> bool" where
  "job_served K d \<longleftrightarrow> validate d \<and> graph_fits K (jd_graph d) \<and> job_connected d \<and> length (jd_passengers d) < 127"

context bitset_core_laws
begin

lemma combination_distance_spec:
  assumes d: "job_served K d" and fits: "graph_fits K g" "length g = length (jd_graph d)"
    and red: "\<forall>u \<in> job_vertices d. \<forall>v < length g. shortest (jd_graph d) u v (g ! u ! v)"
    and x: "x < length (jd_taxies d)" and c: "{i. bit c i} \<subseteq> {..<length (jd_passengers d)}"
  shows "\<exists>m. combination_distance B (d\<lparr>jd_graph := g\<rparr>) x c = Some (c, m) \<and> is_best_ride d x {i. bit c i} (unat m)"
proof -
  let ?s = "bsa_from_array B (map of_nat (split_words c))" and ?P = "jd_passengers d" and ?t = "jd_taxies d ! x"
  let ?d = "d\<lparr>jd_graph := g\<rparr>"
  have s: "bs_set ?s = {i. bit c i}" by (simp add: bs_set_def bsa_from_array_def bits_of_split del: map_map)
  then have fin: "finite {i. bit c i}" by (metis bs_set_finite)
  let ?ids = "sorted_list_of_set {i. bit c i}"
  have val: "validate d" "job_connected d" "length ?P < 127" using d by (auto simp: job_served_def)
  have t: "?t < length g" "?t \<in> job_vertices d" using val(1) x fits(2) by (auto simp: validate_iff job_vertices_def)
  have P: "fst (?P ! i) \<in> job_vertices d" "snd (?P ! i) \<in> job_vertices d" if "i < length ?P" for i
    using that by (auto simp: job_vertices_def intro!: imageI nth_mem)
  have V: "u < length g" if "u \<in> job_vertices d" for u using that val(1) fits(2) by (auto simp: validate_iff job_vertices_def)
  obtain G where G: "transform_graph B ?d x ?s = Some G" "rides_matrix g ?t (map ((!) ?P) ?ids) G"
    using transform_graph_spec[of ?d ?s x] fits s c x t(1) val(1) by (auto simp: graph_fits_def validate_iff)
  have len: "length G = length ?ids + 1" "square G" using G(2) by (simp_all add: rides_matrix_def)
  have "length ?ids \<le> length ?P" using card_mono[OF _ c] fin by simp
  then obtain m where m: "min_path B G = Some m" "is_best_route G 0 {1..<length G} (unat m)"
    using min_path_spec[OF len(2)] len(1) val(3) by auto
  have ride: "unat (ride_value g a (?P ! i)) = distance_of (jd_graph d) a (fst (?P ! i)) + distance_of (jd_graph d) (fst (?P ! i)) (snd (?P ! i))"
    if "i \<in> set ?ids" "a = ?t \<or> a \<in> snd ` (!) ?P ` set ?ids" for a i
  proof -
    have i: "i < length ?P" using that(1) fin c by auto
    have a: "a \<in> job_vertices d" using that(2) fin c t(2) P(2) by auto
    obtain k k' where "walk (jd_graph d) a (fst (?P ! i)) k" "walk (jd_graph d) (fst (?P ! i)) (snd (?P ! i)) k'"
      using val(2) a P[OF i] unfolding job_connected_def by blast
    then show ?thesis using ride_value_distance[OF fits(1) V[OF a] V[OF P(1)[OF i]] V[OF P(2)[OF i]]] red a P[OF i] V by simp
  qed
  have "is_best_ride d x (set ?ids) (unat m)"
    using best_route_ride[OF m(2) distinct_sorted_list_of_set len(1)] route_ride_cost[OF G(2) refl ride, of _ 0] by simp
  then show ?thesis using G(1) m(1) fin by (simp add: combination_distance_def Let_def)
qed

lemma job_run_spec:
  assumes d: "job_served K d" and dec: "jc_decode_job codec jb = Inr d" "jc_decode_task codec tb = Inr t"
    and x: "td_taxi t < length (jd_taxies d)" and c: "{i. bit (fst (td_combinations t)) i} \<subseteq> {..<length (jd_passengers d)}"
      "{i. bit (snd (td_combinations t)) i} \<subseteq> {..<length (jd_passengers d)}"
  shows "\<exists>m1 m2. job_run B codec jb tb =
      Some (jc_encode_result codec \<lparr>tr_taxi = td_taxi t, tr_result = ((fst (td_combinations t), m1), (snd (td_combinations t), m2))\<rparr>) \<and>
    is_best_ride d (td_taxi t) {i. bit (fst (td_combinations t)) i} (unat m1) \<and>
    is_best_ride d (td_taxi t) {i. bit (snd (td_combinations t)) i} (unat m2)"
proof -
  have "validate d" "graph_fits K (jd_graph d)" using d by (auto simp: job_served_def)
  from reduce_graph_spec[OF bitset_core_laws_axioms this] obtain g where
    g: "reduce_graph B d = Some (d\<lparr>jd_graph := g\<rparr>)" "graph_fits K g" "length g = length (jd_graph d)"
    "\<forall>u \<in> job_vertices d. \<forall>v < length g. shortest (jd_graph d) u v (g ! u ! v)" by blast
  note C = combination_distance_spec[OF d g(2-4) x]
  obtain m1 m2 where "combination_distance B (d\<lparr>jd_graph := g\<rparr>) (td_taxi t) (fst (td_combinations t)) = Some (fst (td_combinations t), m1)"
    "is_best_ride d (td_taxi t) {i. bit (fst (td_combinations t)) i} (unat m1)"
    "combination_distance B (d\<lparr>jd_graph := g\<rparr>) (td_taxi t) (snd (td_combinations t)) = Some (snd (td_combinations t), m2)"
    "is_best_ride d (td_taxi t) {i. bit (snd (td_combinations t)) i} (unat m2)"
    using C[OF c(1)] C[OF c(2)] by blast
  then show ?thesis using dec g(1) by (intro exI[of _ m1] exI[of _ m2]) (simp add: job_run_def)
qed

end

end
