(* ===== verification/Task_Manager.thy ===== *)
theory Task_Manager
  imports Task_Reducer Event_Loops
begin

text \<open>
  The task manager process, \<open>task_manager/src/task_manager.rs\<close> with \<open>job.rs\<close>, \<open>command.rs\<close>, the events of \<open>scheduler.rs\<close> and
  the views of \<open>http_server/json_job_data.rs\<close>: jobs are queued, the current one is split into tasks that go to the
  scheduler, the results are collected and reduced to the least total distance.

  The serialisation by \<open>bincode\<close>, the bit operations of \<open>bitset_core\<close> and the compiled code of the job, which the
  build embeds, are the fields of the argument \<open>env\<close>. The identifier of a new job is an argument of its command.
\<close>

section \<open>Data\<close>

record tm_env =
  en_encode_job :: "job_data \<Rightarrow> bytes option"
  en_encode_task :: "task_data \<Rightarrow> bytes option"
  en_decode_result :: "bytes \<Rightarrow> string + task_result"
  en_job_code :: "(platform \<times> bytes) list"
  en_bits :: bitset_core

datatype job_result =
  Completed distance "job_stats option"
  | JR_Error string "job_stats option"

datatype job_phase =
  Splitting task_splitter
  | WaitingTasksCompletions
  | Reducing task_reducer distance

datatype job_state =
  NotStarted
  | Started "job_stats option" "distance ml_map list" bit_set job_phase
  | Finished job_result

record job =
  jb_id :: uuid
  jb_data :: job_data
  jb_state :: job_state

datatype tm_scheduler_event =
  TS_Connected
  | TS_Disconnected
  | TS_Message scheduler_response
  | TS_ConnectionNotEstablished

datatype json_phase = JP_Splitting | JP_WaitingTasksCompletion | JP_Reducing

datatype json_state =
  JS_NotStarted
  | JS_Started nat json_phase
  | JS_Completed job_result

record json_job =
  js_id :: uuid
  js_data :: job_data
  js_state :: json_state

datatype tm_command =
  AddJob job_data uuid
  | CancelJob uuid
  | FinishedJobs
  | QueuedJobs
  | CurrentJob

datatype tm_output =
  To_Sched scheduler_request
  | Reconnect
  | Return_Uuid uuid
  | Return_Job "json_job option"
  | Return_Jobs "json_job list"

text \<open>\<open>ControlFlow<Result<JobResult, anyhow::Error>>\<close>\<close>

datatype tm_flow = Continue | Break_Ok job_result | Break_Err string

record task_manager =
  tm_ready :: bool
  tm_jobs_finished :: "job list"
  tm_jobs_queue :: "job list"
  tm_current_job :: "job option"
  tm_need_process_job :: bool

definition task_manager_new :: task_manager where
  "task_manager_new =
     \<lparr>tm_ready = False, tm_jobs_finished = [], tm_jobs_queue = [], tm_current_job = None, tm_need_process_job = False\<rparr>"

definition json_of_phase :: "job_phase \<Rightarrow> json_phase" where
  "json_of_phase phase =
     (case phase of Splitting _ \<Rightarrow> JP_Splitting | WaitingTasksCompletions \<Rightarrow> JP_WaitingTasksCompletion | Reducing _ _ \<Rightarrow> JP_Reducing)"

definition json_of_tm_job :: "job \<Rightarrow> json_job" where
  "json_of_tm_job j =
     \<lparr>js_id = jb_id j, js_data = jb_data j,
      js_state = (case jb_state j of
          NotStarted \<Rightarrow> JS_NotStarted
        | Started stats parts tasks phase \<Rightarrow> JS_Started (bs_length tasks) (json_of_phase phase)
        | Finished result \<Rightarrow> JS_Completed result)\<rparr>"

text \<open>The deserialisation of a job: a \<open>null\<close> of the matrix is read as \<open>u32::MAX\<close>.\<close>

fun visit_row :: "u32 option list \<Rightarrow> u32 list" where
  "visit_row [] = []"
| "visit_row (v # vs) = (case v of Some x \<Rightarrow> x | None \<Rightarrow> - 1) # visit_row vs"

fun visit_rows :: "u32 option list list \<Rightarrow> u32 list list" where
  "visit_rows [] = []"
| "visit_rows (r # rs) = visit_row r # visit_rows rs"

section \<open>Results\<close>

definition process_tm_result ::
  "tm_env \<Rightarrow> distance ml_map list \<Rightarrow> bit_set \<Rightarrow> worker_result \<Rightarrow> job_stats option \<Rightarrow>
   (tm_flow \<times> distance ml_map list \<times> bit_set) option" where
  "process_tm_result env parts tasks result stats =
     (case en_decode_result env (wr_data result) of
        Inl err \<Rightarrow> Some (Break_Ok (JR_Error err stats), parts, tasks)
      | Inr task_result \<Rightarrow>
          (let taxi = tr_taxi task_result; (combination1, combination2) = tr_result task_result in
           do {
             (found, tasks) \<leftarrow> bsv_remove (en_bits env) tasks (wr_id result);
             if found then
               do {
                 part \<leftarrow> vec_get parts taxi;
                 (_, part) \<leftarrow> ml_insert part (split_words (fst combination1)) (snd combination1);
                 (_, part) \<leftarrow> ml_insert part (split_words (fst combination2)) (snd combination2);
                 Some (Continue, parts[taxi := part], tasks)
               }
             else Some (Continue, parts, tasks)
           }))"

text \<open>The loops over the results: \<open>?\<close> leaves the loop at the first \<open>Break\<close>.\<close>

fun process_results ::
  "tm_env \<Rightarrow> distance ml_map list \<Rightarrow> bit_set \<Rightarrow> worker_result list \<Rightarrow> job_stats option \<Rightarrow>
   (tm_flow \<times> distance ml_map list \<times> bit_set) option" where
  "process_results env parts tasks [] stats = Some (Continue, parts, tasks)"
| "process_results env parts tasks (result # results) stats =
     do {
       (flow, parts, tasks) \<leftarrow> process_tm_result env parts tasks result stats;
       case flow of
         Continue \<Rightarrow> process_results env parts tasks results stats
       | _ \<Rightarrow> Some (flow, parts, tasks)
     }"

section \<open>The current job\<close>

text \<open>The loop over a batch of tasks: the answer is \<open>None\<close> when a task cannot be serialised.\<close>

fun batch_tasks ::
  "tm_env \<Rightarrow> bit_set \<Rightarrow> (usize \<times> task_data) list \<Rightarrow> (bit_set \<times> worker_task list option) option" where
  "batch_tasks env tasks [] = Some (tasks, Some [])"
| "batch_tasks env tasks ((ident, task) # batch) =
     do {
       (_, tasks) \<leftarrow> bsv_insert (en_bits env) tasks ident;
       case en_encode_task env task of
         None \<Rightarrow> Some (tasks, None)
       | Some data \<Rightarrow>
           do {
             (tasks, r) \<leftarrow> batch_tasks env tasks batch;
             Some (tasks, map_option (\<lambda>ws. \<lparr>wt_id = ident, wt_data = data\<rparr> # ws) r)
           }
     }"

definition begin_job ::
  "tm_env \<Rightarrow> job \<Rightarrow> (tm_flow \<times> tm_output list \<times> job) option" where
  "begin_job env job =
     (let taxies = length (jd_taxies (jb_data job));
          passengers = length (jd_passengers (jb_data job));
          task_splitter = splitter_new taxies passengers in
      case en_encode_job env (jb_data job) of
        None \<Rightarrow> Some (Break_Ok (JR_Error ''Failed to serialize job arguments'' None), [], job)
      | Some args \<Rightarrow>
          (let worker_job_data = \<lparr>wj_args = args, wj_data = en_job_code env\<rparr>;
               total = total_tasks task_splitter in
           Some (Continue, [To_Sched (SR_NewJob (jb_id job) (unat total) worker_job_data)],
                 job\<lparr>jb_state := Started None
                       (replicate taxies (ml_with_capacity passengers (passengers mod 64 + 1)))
                       (bsv_with_capacity (unat (total mod 64 + 1)))
                       (Splitting task_splitter)\<rparr>)))"

definition split_job ::
  "tm_env \<Rightarrow> job \<Rightarrow> job_stats option \<Rightarrow> distance ml_map list \<Rightarrow> bit_set \<Rightarrow> task_splitter \<Rightarrow>
   (tm_flow \<times> tm_output list \<times> job) option" where
  "split_job env job stats parts tasks splitter =
     do {
       (chunk, splitter) \<leftarrow> splitter_chunk 128 splitter;
       let (batch, phase) =
         (case chunk of Inr batch \<Rightarrow> (batch, Splitting splitter) | Inl left \<Rightarrow> (left, WaitingTasksCompletions));
       (tasks, r) \<leftarrow> batch_tasks env tasks batch;
       case r of
         None \<Rightarrow> Some (Break_Ok (JR_Error ''Failed to serialize task data'' stats), [],
                         job\<lparr>jb_state := Started None parts tasks (Splitting splitter)\<rparr>)
       | Some workers_tasks \<Rightarrow>
           Some (Continue, [To_Sched (SR_Task workers_tasks)], job\<lparr>jb_state := Started stats parts tasks phase\<rparr>)
     }"

text \<open>As in the source, the reducer gets the number of taxis also as the number of passengers.\<close>

definition await_tasks ::
  "job \<Rightarrow> job_stats option \<Rightarrow> distance ml_map list \<Rightarrow> bit_set \<Rightarrow> job" where
  "await_tasks job stats parts tasks =
     (if bs_is_empty tasks then
        (let taxies = length (jd_taxies (jb_data job));
             passengers = length (jd_taxies (jb_data job)) in
         job\<lparr>jb_state := Started stats [] tasks (Reducing (reducer_new taxies passengers parts) (- 1))\<rparr>)
      else job)"

definition reduce_job ::
  "tm_env \<Rightarrow> job \<Rightarrow> job_stats option \<Rightarrow> distance ml_map list \<Rightarrow> bit_set \<Rightarrow> task_reducer \<Rightarrow> distance \<Rightarrow>
   (tm_flow \<times> job) option" where
  "reduce_job env job stats parts tasks reducer minimal =
     do {
       (chunk, reducer) \<leftarrow> next_chunk (reducer_next (en_bits env)) 128 reducer;
       case chunk of
         Inr distances \<Rightarrow>
           Some (Continue, job\<lparr>jb_state := Started stats parts tasks (Reducing reducer (keep_min distances minimal))\<rparr>)
       | Inl left \<Rightarrow>
           (let minimal = keep_min left minimal in
            Some (Break_Ok (Completed minimal stats), job\<lparr>jb_state := Started None parts tasks (Reducing reducer minimal)\<rparr>))
     }"

definition process_job :: "tm_env \<Rightarrow> task_manager \<Rightarrow> (tm_flow \<times> tm_output list \<times> task_manager) option" where
  "process_job env m =
     (case tm_current_job m of
        Some job \<Rightarrow>
          (case jb_state job of
             NotStarted \<Rightarrow>
               if \<not> tm_ready m then Some (Continue, [], m\<lparr>tm_need_process_job := False\<rparr>)
               else do {
                 (flow, out, job) \<leftarrow> begin_job env job;
                 Some (flow, out, m\<lparr>tm_current_job := Some job\<rparr>)
               }
           | Started stats parts tasks (Splitting splitter) \<Rightarrow>
               if \<not> tm_ready m then Some (Continue, [], m\<lparr>tm_need_process_job := False\<rparr>)
               else do {
                 (flow, out, job) \<leftarrow> split_job env job stats parts tasks splitter;
                 Some (flow, out, m\<lparr>tm_current_job := Some job\<rparr>)
               }
           | Started stats parts tasks WaitingTasksCompletions \<Rightarrow>
               if \<not> tm_ready m then Some (Continue, [], m\<lparr>tm_need_process_job := False\<rparr>)
               else Some (Continue, [], m\<lparr>tm_current_job := Some (await_tasks job stats parts tasks)\<rparr>)
           | Started stats parts tasks (Reducing reducer minimal) \<Rightarrow>
               do {
                 (flow, job) \<leftarrow> reduce_job env job stats parts tasks reducer minimal;
                 Some (flow, [], m\<lparr>tm_current_job := Some job\<rparr>)
               }
           | Finished _ \<Rightarrow> Some (Continue, [], m))
      | None \<Rightarrow>
          (case tm_jobs_queue m of
             [] \<Rightarrow> Some (Continue, [], m\<lparr>tm_need_process_job := False\<rparr>)
           | job # queue \<Rightarrow>
               Some (Continue, [], m\<lparr>tm_jobs_queue := queue, tm_current_job := Some job, tm_need_process_job := True\<rparr>)))"

section \<open>The scheduler\<close>

text \<open>A job that is not yet being reduced has to start again.\<close>

definition restart_job :: "task_manager \<Rightarrow> task_manager" where
  "restart_job m =
     (case tm_current_job m of
        Some job \<Rightarrow>
          (case jb_state job of
             Started stats parts tasks phase \<Rightarrow>
               (case phase of
                  Reducing _ _ \<Rightarrow> m
                | _ \<Rightarrow> m\<lparr>tm_current_job := Some (job\<lparr>jb_state := NotStarted\<rparr>)\<rparr>)
           | _ \<Rightarrow> m)
      | None \<Rightarrow> m)"

definition receive_results ::
  "tm_env \<Rightarrow> task_manager \<Rightarrow> worker_result list \<Rightarrow> job_stats option \<Rightarrow> (tm_flow \<times> tm_output list \<times> task_manager) option" where
  "receive_results env m results new_stats =
     (case tm_current_job m of
        Some job \<Rightarrow>
          (case jb_state job of
             Started stats parts tasks phase \<Rightarrow>
               (let stats = (case new_stats of None \<Rightarrow> stats | Some _ \<Rightarrow> new_stats) in
                do {
                  (flow, parts, tasks) \<leftarrow> process_results env parts tasks results stats;
                  Some (flow, [], m\<lparr>tm_current_job := Some (job\<lparr>jb_state := Started stats parts tasks phase\<rparr>)\<rparr>)
                })
           | _ \<Rightarrow> Some (Continue, [], m))
      | None \<Rightarrow> Some (Continue, [], m))"

fun process_tm_scheduler ::
  "tm_env \<Rightarrow> task_manager \<Rightarrow> tm_scheduler_event \<Rightarrow> (tm_flow \<times> tm_output list \<times> task_manager) option" where
  "process_tm_scheduler env m (TS_Message (JobComplete left stats)) = receive_results env m left (Some stats)"
| "process_tm_scheduler env m TS_Connected = Some (Continue, [], m)"
| "process_tm_scheduler env m TS_Disconnected = Some (Continue, [Reconnect], restart_job (m\<lparr>tm_ready := False\<rparr>))"
| "process_tm_scheduler env m (TS_Message (TaskResults results)) = receive_results env m results None"
| "process_tm_scheduler env m (TS_Message SchedulerBusy) = Some (Continue, [], restart_job (m\<lparr>tm_ready := False\<rparr>))"
| "process_tm_scheduler env m (TS_Message SchedulerFree) =
     Some (Continue, [], m\<lparr>tm_ready := True, tm_need_process_job := True\<rparr>)"
| "process_tm_scheduler env m (TS_Message (SP_TaskExecutionError error stats)) =
     Some (Break_Ok (JR_Error error (Some stats)), [], m)"
| "process_tm_scheduler env m TS_ConnectionNotEstablished =
     Some (Break_Err ''Failed to establish connection with scheduler'', [], m)"

section \<open>Commands\<close>

definition tm_job_stats :: "job \<Rightarrow> job_stats option" where
  "tm_job_stats j = (case jb_state j of Started stats _ _ _ \<Rightarrow> stats | _ \<Rightarrow> None)"

definition cancel_queued :: "task_manager \<Rightarrow> uuid \<Rightarrow> (tm_flow \<times> tm_output list \<times> task_manager) option" where
  "cancel_queued m uu =
     (case position (\<lambda>x. jb_id x = uu) (tm_jobs_queue m) of
        Some pos \<Rightarrow>
          Some (Continue, [Return_Job (map_option json_of_tm_job (vec_get (tm_jobs_queue m) pos))],
            m\<lparr>tm_jobs_queue := take pos (tm_jobs_queue m) @ drop (Suc pos) (tm_jobs_queue m)\<rparr>)
      | None \<Rightarrow> Some (Continue, [Return_Job None], m))"

fun process_tm_command :: "task_manager \<Rightarrow> tm_command \<Rightarrow> (tm_flow \<times> tm_output list \<times> task_manager) option" where
  "process_tm_command m (AddJob data uu) =
     Some (Continue, [Return_Uuid uu],
       m\<lparr>tm_jobs_queue := tm_jobs_queue m @ [\<lparr>jb_id = uu, jb_data = data, jb_state = NotStarted\<rparr>], tm_need_process_job := True\<rparr>)"
| "process_tm_command m (CancelJob uu) =
     (case tm_current_job m of
        Some job \<Rightarrow>
          if jb_id job = uu then
            Some (Break_Ok (JR_Error ''Job has been cancelled'' (tm_job_stats job)), [Return_Job (Some (json_of_tm_job job))], m)
          else cancel_queued m uu
      | None \<Rightarrow> cancel_queued m uu)"
| "process_tm_command m FinishedJobs = Some (Continue, [Return_Jobs (map json_of_tm_job (tm_jobs_finished m))], m)"
| "process_tm_command m QueuedJobs = Some (Continue, [Return_Jobs (map json_of_tm_job (tm_jobs_finished m))], m)"
| "process_tm_command m CurrentJob = Some (Continue, [Return_Job (map_option json_of_tm_job (tm_current_job m))], m)"

section \<open>The event loop\<close>

datatype tm_event =
  TV_Scheduler tm_scheduler_event
  | TV_Command tm_command
  | TV_Job

fun tm_turn :: "tm_env \<Rightarrow> task_manager \<Rightarrow> tm_event \<Rightarrow> (tm_flow \<times> tm_output list \<times> task_manager) option" where
  "tm_turn env m (TV_Scheduler e) = process_tm_scheduler env m e"
| "tm_turn env m (TV_Command c) = process_tm_command m c"
| "tm_turn env m TV_Job = process_job env m"

text \<open>What \<open>start\<close> does with the outcome: a job that is done is moved to the finished ones; after an error the loop ends,
  which is no next state.\<close>

definition finish_job :: "task_manager \<Rightarrow> job_result \<Rightarrow> task_manager" where
  "finish_job m result =
     (case tm_current_job m of
        Some job \<Rightarrow> m\<lparr>tm_current_job := None, tm_jobs_finished := tm_jobs_finished m @ [job\<lparr>jb_state := Finished result\<rparr>]\<rparr>
      | None \<Rightarrow> m)"

definition tm_exec :: "tm_env \<Rightarrow> task_manager \<Rightarrow> tm_event \<Rightarrow> (tm_output list \<times> task_manager) option" where
  "tm_exec env m e =
     do {
       (flow, out, m) \<leftarrow> tm_turn env m e;
       case flow of
         Continue \<Rightarrow> Some (out, m)
       | Break_Ok result \<Rightarrow> Some (out, finish_job m result)
       | Break_Err _ \<Rightarrow> None
     }"

end
