(* ===== verification/Task_Manager_Invariants.thy ===== *)
theory Task_Manager_Invariants
  imports Task_Manager
begin

text \<open>
  The invariant of the task manager. \<open>dist d x c\<close> is the distance that the workers compute for the taxi \<open>x\<close> of the job
  \<open>d\<close> with the combination of passengers \<open>c\<close>; the results that arrive are assumed to be these, the
  task manager does not check them. The invariant says that the open tasks and the stored results of the
  current job together are the tasks sent so far, and that the reducer has all results and the
  minimum of what it has seen.
\<close>

section \<open>Jobs\<close>

abbreviation taxi_count :: "job_data \<Rightarrow> nat" where
  "taxi_count d \<equiv> length (jd_taxies d)"

abbreviation passenger_count :: "job_data \<Rightarrow> nat" where
  "passenger_count d \<equiv> length (jd_passengers d)"

definition task_count :: "job_data \<Rightarrow> nat" where
  "task_count d = taxi_count d * half (passenger_count d)"

text \<open>The jobs for which the program works: the number of tasks fits, the tries have two levels or more, and there are no more
  taxis than passengers.\<close>

definition job_ok :: "job_data \<Rightarrow> bool" where
  "job_ok d \<longleftrightarrow> job_fits (taxi_count d) (passenger_count d) \<and> 0 < taxi_count d \<and> taxi_count d \<le> passenger_count d \<and>
     passenger_count d mod 64 \<noteq> 0 \<and> fits 128 (taxi_count d ^ taxi_count d)"

lemma job_okD:
  assumes "job_ok d"
  shows "job_fits (taxi_count d) (passenger_count d)" "0 < taxi_count d" "taxi_count d \<le> passenger_count d"
    "0 < passenger_count d" "passenger_count d < 128" "0 < passenger_count d mod 64" "taxi_count d < 2 ^ 64"
    "taxi_count d ^ taxi_count d < 2 ^ 128"
  using assms by (auto simp: job_ok_def job_fits_def fits_def)

section \<open>Stored results\<close>

type_synonym answers = "job_data \<Rightarrow> nat \<Rightarrow> nat \<Rightarrow> distance"

abbreviation task_at :: "job_data \<Rightarrow> nat \<Rightarrow> task_data" where
  "task_at d i \<equiv> snd (task_of (passenger_count d) i)"

definition answer_of :: "answers \<Rightarrow> job_data \<Rightarrow> nat \<Rightarrow> task_result" where
  "answer_of dist d i =
     (let t = task_at d i; x = td_taxi t; (c1, c2) = td_combinations t in
      \<lparr>tr_taxi = x, tr_result = ((c1, dist d x (unat c1)), (c2, dist d x (unat c2)))\<rparr>)"

definition stored :: "answers \<Rightarrow> job_data \<Rightarrow> distance ml_map list \<Rightarrow> nat \<Rightarrow> bool" where
  "stored dist d parts i \<longleftrightarrow>
     (\<forall>c \<in> {fst (td_combinations (task_at d i)), snd (td_combinations (task_at d i))}.
        ml_get (parts ! td_taxi (task_at d i)) (split_words c) = Some (Some (dist d (td_taxi (task_at d i)) (unat c))))"

definition parts_wf :: "job_data \<Rightarrow> distance ml_map list \<Rightarrow> bool" where
  "parts_wf d parts \<longleftrightarrow> length parts = taxi_count d \<and>
     (\<forall>part \<in> set parts. ml_inv part \<and> ml_levels_idx part = passenger_count d mod 64)"

text \<open>Of the first \<open>k\<close> tasks, those that are not open have their results stored.\<close>

definition collected :: "answers \<Rightarrow> job_data \<Rightarrow> distance ml_map list \<Rightarrow> bit_set \<Rightarrow> nat \<Rightarrow> bool" where
  "collected dist d parts tasks k \<longleftrightarrow>
     bs_inv tasks \<and> bs_set tasks \<subseteq> {..<k} \<and> parts_wf d parts \<and> (\<forall>i < k. i \<notin> bs_set tasks \<longrightarrow> stored dist d parts i)"

lemma split_words_inject:
  assumes "split_words a = split_words b"
  shows "a = b"
proof (rule bit_eqI)
  fix n assume "possible_bit TYPE(u128) n"
  then have n: "n < 128" by simp
  have lo: "(ucast a :: 64 word) = ucast b" and hi: "(ucast (drop_bit 64 a) :: 64 word) = ucast (drop_bit 64 b)"
    using assms by (simp_all add: split_words_def word_unat_eq_iff)
  show "bit a n \<longleftrightarrow> bit b n"
  proof (cases "n < 64")
    case True
    then show ?thesis using arg_cong[OF lo, of "\<lambda>w. bit w n"] n by (simp add: bit_ucast_iff)
  next
    case False
    then have "n - 64 < 64" using n by linarith
    then show ?thesis using False arg_cong[OF hi, of "\<lambda>w. bit w (n - 64)"] n by (simp add: bit_ucast_iff bit_drop_bit_eq)
  qed
qed

lemma split_path_inject:
  assumes "ml_path L (split_words a) = ml_path L (split_words b)" "0 < L"
  shows "a = b"
proof -
  have at: "ml_path L key ! i = key_at key i" if "i \<le> L" for key i using that by (simp add: ml_path_def del: upt_Suc)
  have "key_at (split_words a) i = key_at (split_words b) i" if "i \<le> L" for i using at[OF that] assms(1) by metis
  from this[of 0] this[of 1] assms(2) have "split_words a = split_words b"
    by (simp add: key_at_def vec_get_def split_words_def)
  then show ?thesis by (rule split_words_inject)
qed

text \<open>Storing the result of a combination.\<close>

lemma part_insert:
  assumes "ml_inv part" "0 < ml_levels_idx part"
  obtains r part' where "ml_insert part (split_words c) x = Some (r, part')" "ml_inv part'" "ml_levels_idx part' = ml_levels_idx part"
    "\<And>c'. ml_get part' (split_words c') = (if c' = c then Some (Some x) else ml_get part (split_words c'))"
proof -
  have len: "length (split_words c') \<le> ml_levels_idx part + 1" for c' using assms(2) by (simp add: split_words_def)
  then have nlen: "\<not> length (split_words c) > ml_levels_idx part + 1" by (simp add: not_less)
  from ml_insert_spec[OF assms(1), of "split_words c" x] obtain r part' where
    p: "ml_insert part (split_words c) x = Some (r, part')" "ml_inv part'" "ml_levels_idx part' = ml_levels_idx part"
      "\<forall>key'. length key' \<le> ml_levels_idx part + 1 \<longrightarrow> ml_get part' key' =
        (if ml_path (ml_levels_idx part) key' = ml_path (ml_levels_idx part) (split_words c) then Some (Some x) else ml_get part key')"
    unfolding if_not_P[OF nlen] by blast
  show ?thesis using that[OF p(1-3)] p(4) len split_path_inject[OF _ assms(2)] by metis
qed

lemma store_answer:
  assumes ok: "job_ok d" and parts: "parts_wf d parts" and i: "i < task_count d"
  defines "x \<equiv> td_taxi (task_at d i)" and "c1 \<equiv> fst (td_combinations (task_at d i))" and "c2 \<equiv> snd (td_combinations (task_at d i))"
  obtains part part1 part2 r1 r2 where "vec_get parts x = Some part"
    "ml_insert part (split_words c1) (dist d x (unat c1)) = Some (r1, part1)"
    "ml_insert part1 (split_words c2) (dist d x (unat c2)) = Some (r2, part2)" "parts_wf d (parts[x := part2])"
    "\<forall>j. j = i \<or> stored dist d parts j \<longrightarrow> stored dist d (parts[x := part2]) j"
proof -
  have "x < taxi_count d" using i by (simp add: x_def task_of_def Let_def task_count_def div_less_iff_less_mult mult.commute)
  then have x: "x < length parts" using parts by (simp add: parts_wf_def)
  then have part: "vec_get parts x = Some (parts ! x)" "ml_inv (parts ! x)" "ml_levels_idx (parts ! x) = passenger_count d mod 64"
    using parts by (auto simp: vec_get_def parts_wf_def)
  have pos: "0 < passenger_count d mod 64" by (rule job_okD(6)[OF ok])
  obtain r1 part1 where 1: "ml_insert (parts ! x) (split_words c1) (dist d x (unat c1)) = Some (r1, part1)" "ml_inv part1"
    "ml_levels_idx part1 = ml_levels_idx (parts ! x)"
    "\<And>c'. ml_get part1 (split_words c') = (if c' = c1 then Some (Some (dist d x (unat c1))) else ml_get (parts ! x) (split_words c'))"
    by (rule part_insert[OF part(2)]) (use part(3) pos in auto)
  obtain r2 part2 where 2: "ml_insert part1 (split_words c2) (dist d x (unat c2)) = Some (r2, part2)" "ml_inv part2"
    "ml_levels_idx part2 = ml_levels_idx part1"
    "\<And>c'. ml_get part2 (split_words c') = (if c' = c2 then Some (Some (dist d x (unat c2))) else ml_get part1 (split_words c'))"
    by (rule part_insert[OF 1(2)]) (use 1(3) part(3) pos in auto)
  have "parts_wf d (parts[x := part2])"
    using parts 1(3) 2(2,3) part(3) by (auto simp: parts_wf_def dest!: subsetD[OF set_update_subset_insert])
  moreover have "stored dist d (parts[x := part2]) j" if "j = i \<or> stored dist d parts j" for j
  proof (cases "td_taxi (task_at d j) = x")
    case True
    then have "ml_get part2 (split_words c) = Some (Some (dist d x (unat c)))"
      if "c \<in> {fst (td_combinations (task_at d j)), snd (td_combinations (task_at d j))}" for c
      using \<open>j = i \<or> stored dist d parts j\<close> that unfolding 2(4) 1(4) stored_def c1_def c2_def by auto
    then show ?thesis using True x by (simp add: stored_def)
  next
    case False
    then show ?thesis using that x_def by (auto simp: stored_def)
  qed
  ultimately show ?thesis using that part(1) 1(1) 2(1) by blast
qed

section \<open>Results arrive\<close>

text \<open>A result that can be decoded and whose task is open is the right one.\<close>

definition right_result :: "tm_env \<Rightarrow> answers \<Rightarrow> job_data \<Rightarrow> bit_set \<Rightarrow> worker_result \<Rightarrow> bool" where
  "right_result env dist d tasks r \<longleftrightarrow>
     (bsv_contains (en_bits env) tasks (wr_id r) = Some True \<longrightarrow>
        (case en_decode_result env (wr_data r) of Inl _ \<Rightarrow> True | Inr a \<Rightarrow> a = answer_of dist d (wr_id r)))"

definition flow_ok :: "tm_flow \<Rightarrow> bool" where
  "flow_ok flow \<longleftrightarrow> flow = Continue \<or> (\<exists>err stats. flow = Break_Ok (JR_Error err stats))"

context bitset_core_laws
begin

lemma process_tm_result_spec:
  assumes env: "en_bits env = B" and ok: "job_ok d" and col: "collected dist d parts tasks k" and k: "k \<le> task_count d"
    and right: "right_result env dist d tasks r"
  shows "\<exists>flow parts' tasks'. process_tm_result env parts tasks r stats = Some (flow, parts', tasks') \<and>
    collected dist d parts' tasks' k \<and> bs_set tasks' \<subseteq> bs_set tasks \<and> flow_ok flow"
proof (cases "en_decode_result env (wr_data r)")
  case (Inl err)
  then show ?thesis using col by (simp add: process_tm_result_def flow_ok_def)
next
  case (Inr a)
  have inv: "bs_inv tasks" and sub: "bs_set tasks \<subseteq> {..<k}" and wf: "parts_wf d parts" using col by (auto simp: collected_def)
  obtain tasks' where t: "bsv_remove B tasks (wr_id r) = Some (wr_id r \<in> bs_set tasks, tasks')" "bs_inv tasks'"
    "bs_set tasks' = bs_set tasks - {wr_id r}" using bsv_remove_spec[OF inv] by blast
  show ?thesis
  proof (cases "wr_id r \<in> bs_set tasks")
    case False
    then have "collected dist d parts tasks' k" using col t by (simp add: collected_def)
    then show ?thesis using Inr t False env by (auto simp: process_tm_result_def Let_def flow_ok_def split: prod.split)
  next
    case True
    let ?i = "wr_id r"
    have a: "a = answer_of dist d ?i" using right Inr True env bsv_contains_spec by (auto simp: right_result_def)
    have i: "?i < task_count d" using True sub k by auto
    obtain part part1 part2 r1 r2 where s: "vec_get parts (td_taxi (task_at d ?i)) = Some part"
      "ml_insert part (split_words (fst (td_combinations (task_at d ?i))))
        (dist d (td_taxi (task_at d ?i)) (unat (fst (td_combinations (task_at d ?i))))) = Some (r1, part1)"
      "ml_insert part1 (split_words (snd (td_combinations (task_at d ?i))))
        (dist d (td_taxi (task_at d ?i)) (unat (snd (td_combinations (task_at d ?i))))) = Some (r2, part2)"
      "parts_wf d (parts[td_taxi (task_at d ?i) := part2])"
      "\<forall>j. j = ?i \<or> stored dist d parts j \<longrightarrow> stored dist d (parts[td_taxi (task_at d ?i) := part2]) j"
      by (rule store_answer[OF ok wf i, where dist = dist])
    have "collected dist d (parts[td_taxi (task_at d ?i) := part2]) tasks' k"
      using col s(4,5) t(2,3) unfolding collected_def by auto
    moreover have "process_tm_result env parts tasks r stats = Some (Continue, parts[td_taxi (task_at d ?i) := part2], tasks')"
      using Inr True env t(1) s(1-3)
      by (simp add: process_tm_result_def Let_def a answer_of_def case_prod_beta del: vec_get_Some_iff)
    ultimately show ?thesis using t(3) by (auto simp: flow_ok_def)
  qed
qed

lemma right_result_less:
  assumes "right_result env dist d tasks r" "bs_set tasks' \<subseteq> bs_set tasks" "en_bits env = B"
  shows "right_result env dist d tasks' r"
  using assms bsv_contains_spec by (auto simp: right_result_def)

lemma process_results_spec:
  assumes env: "en_bits env = B" and ok: "job_ok d" and k: "k \<le> task_count d"
  shows "collected dist d parts tasks k \<Longrightarrow> \<forall>r \<in> set rs. right_result env dist d tasks r \<Longrightarrow>
    \<exists>flow parts' tasks'. process_results env parts tasks rs stats = Some (flow, parts', tasks') \<and>
    collected dist d parts' tasks' k \<and> bs_set tasks' \<subseteq> bs_set tasks \<and> flow_ok flow"
proof (induction rs arbitrary: parts tasks)
  case Nil
  then show ?case by (simp add: flow_ok_def)
next
  case (Cons r rs)
  obtain flow parts1 tasks1 where 1: "process_tm_result env parts tasks r stats = Some (flow, parts1, tasks1)"
    "collected dist d parts1 tasks1 k" "bs_set tasks1 \<subseteq> bs_set tasks" "flow_ok flow"
    using process_tm_result_spec[OF env ok Cons.prems(1) k] Cons.prems(2) by fastforce
  show ?case
  proof (cases "flow = Continue")
    case True
    then show ?thesis using 1 Cons.IH[OF 1(2)] Cons.prems(2) right_result_less[OF _ 1(3) env] by fastforce
  next
    case False
    then show ?thesis using 1 by (cases flow) (auto simp: flow_ok_def)
  qed
qed

text \<open>Without open tasks every result is ignored.\<close>

lemma process_results_none:
  assumes env: "en_bits env = B" and t: "bs_inv tasks" "bs_set tasks = {}"
  shows "\<exists>flow tasks'. process_results env parts tasks rs stats = Some (flow, parts, tasks') \<and> bs_inv tasks' \<and> bs_set tasks' = {} \<and> flow_ok flow"
  using t
proof (induction rs arbitrary: tasks)
  case Nil
  then show ?case by (simp add: flow_ok_def)
next
  case (Cons r rs)
  obtain tasks' where t': "bsv_remove B tasks (wr_id r) = Some (False, tasks')" "bs_inv tasks'" "bs_set tasks' = {}"
    using bsv_remove_spec[OF Cons.prems(1), of "wr_id r"] Cons.prems(2) by auto
  show ?case
  proof (cases "en_decode_result env (wr_data r)")
    case (Inl err)
    then show ?thesis using Cons.prems by (simp add: process_tm_result_def flow_ok_def)
  next
    case (Inr a)
    then have "process_tm_result env parts tasks r stats = Some (Continue, parts, tasks')"
      using t'(1) env by (simp add: process_tm_result_def Let_def case_prod_beta)
    then show ?thesis using Cons.IH[OF t'(2,3)] by simp
  qed
qed

text \<open>A batch of tasks is sent.\<close>

lemma batch_tasks_spec:
  assumes env: "en_bits env = B" and ok: "job_ok d" and n: "n \<le> task_count d"
  shows "k \<le> n \<Longrightarrow> collected dist d parts tasks k \<Longrightarrow>
    \<exists>tasks' r. batch_tasks env tasks (map (task_of (passenger_count d)) [k..<n]) = Some (tasks', r) \<and>
      (case r of None \<Rightarrow> True | Some ws \<Rightarrow> collected dist d parts tasks' n \<and> map wt_id ws = [k..<n])"
proof (induction "n - k" arbitrary: k tasks)
  case 0
  then show ?case by simp
next
  case (Suc j)
  then have k: "k < n" "[k..<n] = k # [Suc k..<n]" using upt_conv_Cons[of k n] by auto
  have fst: "fst (task_of (passenger_count d) k) = k" by (simp add: task_of_def Let_def)
  have inv: "bs_inv tasks" using Suc.prems(2) by (simp add: collected_def)
  obtain tasks1 where t: "bsv_insert B tasks k = Some (k \<notin> bs_set tasks, tasks1)" "bs_inv tasks1" "bs_set tasks1 = insert k (bs_set tasks)"
    using bsv_insert_spec[OF inv] by blast
  have col: "collected dist d parts tasks1 (Suc k)"
    using Suc.prems(2) t(2,3) unfolding collected_def by (auto simp: less_Suc_eq)
  obtain tasks2 r where r: "batch_tasks env tasks1 (map (task_of (passenger_count d)) [Suc k..<n]) = Some (tasks2, r)"
    "case r of None \<Rightarrow> True | Some ws \<Rightarrow> collected dist d parts tasks2 n \<and> map wt_id ws = [Suc k..<n]"
    using Suc.hyps(1)[OF _ _ col] Suc.hyps(2) k(1) by fastforce
  obtain td where "task_of (passenger_count d) k = (k, td)" using fst by (metis prod.collapse)
  then show ?case unfolding k(2) using t(1) r env
    by (cases "en_encode_task env td"; cases r) simp_all
qed

end

section \<open>The state\<close>

text \<open>The current job, by its phase. \<open>reduced\<close>: the reducer has \<open>j\<close> combinations to go and the minimum of the others.\<close>

definition cost_of :: "answers \<Rightarrow> job_data \<Rightarrow> nat \<Rightarrow> distance" where
  "cost_of dist d j = total_distance (dist d) (taxi_count d) (taxi_count d) (assignment_of (taxi_count d) (taxi_count d) j)"

definition reduced :: "answers \<Rightarrow> job_data \<Rightarrow> task_reducer \<Rightarrow> distance \<Rightarrow> bool" where
  "reduced dist d reducer minimal \<longleftrightarrow>
     (\<exists>parts j. parts_complete (dist d) (taxi_count d) (passenger_count d) parts \<and> j \<le> taxi_count d ^ taxi_count d \<and>
        reducer = reducer_at (taxi_count d) (taxi_count d) parts j \<and>
        minimal = keep_min (map (cost_of dist d) (rev [j..<taxi_count d ^ taxi_count d])) (- 1))"

fun phase_ok :: "answers \<Rightarrow> job_data \<Rightarrow> distance ml_map list \<Rightarrow> bit_set \<Rightarrow> job_phase \<Rightarrow> bool" where
  "phase_ok dist d parts tasks (Splitting splitter) \<longleftrightarrow>
     (\<exists>k \<le> task_count d. splitter = splitter_at (taxi_count d) (passenger_count d) k \<and> collected dist d parts tasks k)"
| "phase_ok dist d parts tasks WaitingTasksCompletions \<longleftrightarrow> collected dist d parts tasks (task_count d)"
| "phase_ok dist d parts tasks (Reducing reducer minimal) \<longleftrightarrow>
     bs_inv tasks \<and> bs_set tasks = {} \<and> reduced dist d reducer minimal"

definition current_ok :: "answers \<Rightarrow> job \<Rightarrow> bool" where
  "current_ok dist job \<longleftrightarrow> job_ok (jb_data job) \<and>
     (case jb_state job of
        NotStarted \<Rightarrow> True
      | Started stats parts tasks phase \<Rightarrow> phase_ok dist (jb_data job) parts tasks phase
      | Finished _ \<Rightarrow> False)"

definition finished_ok :: "answers \<Rightarrow> job \<Rightarrow> bool" where
  "finished_ok dist job \<longleftrightarrow>
     (\<exists>result. jb_state job = Finished result \<and>
        (\<forall>m stats. result = Completed m stats \<longrightarrow>
           is_best (dist (jb_data job)) (taxi_count (jb_data job)) (taxi_count (jb_data job)) m))"

definition tm_inv :: "answers \<Rightarrow> task_manager \<Rightarrow> bool" where
  "tm_inv dist m \<longleftrightarrow>
     (\<forall>job \<in> set (tm_jobs_queue m). job_ok (jb_data job) \<and> jb_state job = NotStarted) \<and>
     (\<forall>job. tm_current_job m = Some job \<longrightarrow> current_ok dist job) \<and>
     (\<forall>job \<in> set (tm_jobs_finished m). finished_ok dist job)"

text \<open>The events that the environment may produce: jobs the program works for, right results, and no failure to connect,
  which ends the process. The branch for the job is taken while there is work.\<close>

definition results_right :: "tm_env \<Rightarrow> answers \<Rightarrow> task_manager \<Rightarrow> worker_result list \<Rightarrow> bool" where
  "results_right env dist m rs \<longleftrightarrow>
     (case tm_current_job m of
        None \<Rightarrow> True
      | Some job \<Rightarrow>
          (case jb_state job of
             Started stats parts tasks phase \<Rightarrow> list_all (right_result env dist (jb_data job) tasks) rs
           | _ \<Rightarrow> True))"

fun tm_orderly :: "tm_env \<Rightarrow> answers \<Rightarrow> task_manager \<Rightarrow> tm_event \<Rightarrow> bool" where
  "tm_orderly env dist m (TV_Command (AddJob data uu)) \<longleftrightarrow> job_ok data"
| "tm_orderly env dist m (TV_Scheduler (TS_Message (TaskResults rs))) \<longleftrightarrow> results_right env dist m rs"
| "tm_orderly env dist m (TV_Scheduler (TS_Message (JobComplete rs stats))) \<longleftrightarrow> results_right env dist m rs"
| "tm_orderly env dist m (TV_Scheduler TS_ConnectionNotEstablished) \<longleftrightarrow> False"
| "tm_orderly env dist m TV_Job \<longleftrightarrow> tm_need_process_job m"
| "tm_orderly env dist m _ \<longleftrightarrow> True"

section \<open>The handlers keep the invariant\<close>

lemma collected_start:
  assumes "job_ok d"
  shows "collected dist d (replicate (taxi_count d) (ml_with_capacity c (passenger_count d mod 64 + 1))) (bsv_with_capacity n) 0"
proof -
  have "passenger_count d mod 64 < 64" by simp
  moreover have "64 \<le> usize_max" by (simp add: usize_max_def)
  ultimately have "passenger_count d mod 64 + 1 \<le> usize_max" by linarith
  then have "ml_inv (ml_with_capacity c (passenger_count d mod 64 + 1) :: distance ml_map)"
    using ml_new_inv[of "passenger_count d mod 64 + 1"] by (simp add: ml_with_capacity_def ml_new_def)
  then show ?thesis
    by (auto simp: collected_def parts_wf_def bsv_with_capacity_def bs_inv_def bs_set_def ml_with_capacity_def)
qed

lemma collected_complete:
  assumes ok: "job_ok d" and col: "collected dist d parts tasks (task_count d)" and none: "bs_set tasks = {}"
  shows "parts_complete (dist d) (taxi_count d) (passenger_count d) parts"
proof -
  note J = job_okD[OF ok]
  have wf: "parts_wf d parts" and st: "\<And>i. i < task_count d \<Longrightarrow> stored dist d parts i" using col none by (auto simp: collected_def)
  have "ml_get (parts ! x) (split_words (of_nat c)) = Some (Some (dist d x c))" if x: "x < taxi_count d" and c: "c < 2 ^ passenger_count d" for x c
  proof -
    obtain i where i: "i < task_count d" "td_taxi (task_at d i) = x"
      "of_nat c = fst (td_combinations (task_at d i)) \<or> of_nat c = snd (td_combinations (task_at d i))"
      using combination_task[OF J(1) x c] unfolding task_count_def by blast
    have "c < 2 ^ 128" using c power_strict_increasing[OF J(5), of "2 :: nat"] by linarith
    then have "unat (of_nat c :: u128) = c" by (simp add: unat_of_nat)
    then show ?thesis using st[OF i(1)] i(2,3) unfolding stored_def by auto
  qed
  then show ?thesis using wf J(6) by (auto simp: parts_complete_def parts_wf_def)
qed

text \<open>A turn of the loop: a job that is finished as completed has its best distance.\<close>

definition flow_best :: "answers \<Rightarrow> task_manager \<Rightarrow> tm_flow \<Rightarrow> bool" where
  "flow_best dist m flow \<longleftrightarrow> flow = Continue \<or> (\<exists>err stats. flow = Break_Ok (JR_Error err stats)) \<or>
     (\<exists>v stats job. flow = Break_Ok (Completed v stats) \<and> tm_current_job m = Some job \<and>
        is_best (dist (jb_data job)) (taxi_count (jb_data job)) (taxi_count (jb_data job)) v)"

definition tm_kept :: "answers \<Rightarrow> tm_flow \<Rightarrow> task_manager \<Rightarrow> bool" where
  "tm_kept dist flow m \<longleftrightarrow> flow_best dist m flow \<and> (flow = Continue \<longrightarrow> tm_inv dist m) \<and>
     tm_inv dist (m\<lparr>tm_current_job := None\<rparr>)"

lemma tm_kept_current:
  assumes "tm_inv dist m" "tm_current_job m = Some job" "jb_data job' = jb_data job" "flow = Continue \<longrightarrow> current_ok dist job'"
    "flow_ok flow"
  shows "tm_kept dist flow (m\<lparr>tm_current_job := Some job'\<rparr>)"
  using assms by (auto simp: tm_kept_def flow_best_def flow_ok_def tm_inv_def)

lemma tm_kept_continue: "tm_inv dist m \<Longrightarrow> tm_kept dist Continue m"
  by (auto simp: tm_kept_def flow_best_def tm_inv_def)

context bitset_core_laws
begin

lemma split_job_spec:
  assumes env: "en_bits env = B" and ok: "current_ok dist job" and st: "jb_state job = Started stats parts tasks (Splitting splitter)"
  shows "\<exists>flow out job'. split_job env job stats parts tasks splitter = Some (flow, out, job') \<and> jb_data job' = jb_data job \<and>
    (flow = Continue \<longrightarrow> current_ok dist job') \<and> flow_ok flow"
proof -
  let ?d = "jb_data job" and ?p = "passenger_count (jb_data job)" and ?t = "taxi_count (jb_data job)"
  have jok: "job_ok ?d" using ok by (simp add: current_ok_def)
  note J = job_okD[OF jok]
  obtain k where k: "k \<le> task_count ?d" "splitter = splitter_at ?t ?p k" "collected dist ?d parts tasks k"
    using ok st by (auto simp: current_ok_def)
  let ?n = "min (k + 128) (task_count ?d)" and ?last = "\<not> k + 128 \<le> task_count ?d"
  have chunk: "splitter_chunk 128 splitter = Some ((if ?last then Inl else Inr) (map (task_of ?p) [k..<?n]), splitter_at ?t ?p ?n)"
    using splitter_chunk_spec[OF J(1), of k 128] k(1,2) by (auto simp: task_count_def min_def)
  obtain tasks' r where r: "batch_tasks env tasks (map (task_of ?p) [k..<?n]) = Some (tasks', r)"
    "case r of None \<Rightarrow> True | Some ws \<Rightarrow> collected dist ?d parts tasks' ?n \<and> map wt_id ws = [k..<?n]"
    using batch_tasks_spec[OF env jok, of ?n k dist parts tasks] k by auto
  show ?thesis
  proof (cases r)
    case None
    then show ?thesis using chunk r by (auto simp: split_job_def flow_ok_def Let_def)
  next
    case (Some ws)
    then have col: "collected dist ?d parts tasks' ?n" using r(2) by simp
    show ?thesis
    proof (cases ?last)
      case True
      then have "?n = task_count ?d" by simp
      then show ?thesis using chunk r Some col True jok by (auto simp: split_job_def flow_ok_def Let_def current_ok_def)
    next
      case False
      then show ?thesis using chunk r Some col jok
        by (auto simp: split_job_def flow_ok_def Let_def current_ok_def intro!: exI[of _ ?n])
    qed
  qed
qed

lemma reduce_job_spec:
  assumes env: "en_bits env = B" and ok: "current_ok dist job" and st: "jb_state job = Started stats parts tasks (Reducing reducer minimal)"
  shows "if 128 \<le> unat (cg_n (rd_combinations reducer)) then
      (\<exists>reducer' minimal'. let job' = job\<lparr>jb_state := Started stats parts tasks (Reducing reducer' minimal')\<rparr> in
         reduce_job env job stats parts tasks reducer minimal = Some (Continue, job') \<and> current_ok dist job' \<and>
         unat (cg_n (rd_combinations reducer')) = unat (cg_n (rd_combinations reducer)) - 128)
    else
      (\<exists>state' m. reduce_job env job stats parts tasks reducer minimal = Some (Break_Ok (Completed m stats), job\<lparr>jb_state := state'\<rparr>) \<and>
         is_best (dist (jb_data job)) (taxi_count (jb_data job)) (taxi_count (jb_data job)) m)"
proof -
  let ?d = "jb_data job" and ?t = "taxi_count (jb_data job)" and ?N = "taxi_count (jb_data job) ^ taxi_count (jb_data job)"
  have jok: "job_ok ?d" and t: "bs_inv tasks" "bs_set tasks = {}" and red: "reduced dist ?d reducer minimal"
    using ok st by (auto simp: current_ok_def)
  note J = job_okD[OF jok]
  obtain ps j where j: "parts_complete (dist ?d) ?t (passenger_count ?d) ps" "j \<le> ?N" "reducer = reducer_at ?t ?t ps j"
    "minimal = keep_min (map (cost_of dist ?d) (rev [j..<?N])) (- 1)" using red by (auto simp: reduced_def)
  have bound: "?t < 128" "j < 2 ^ 128" using J(3,5,8) j(2) by linarith+
  have left: "unat (cg_n (rd_combinations (reducer_at ?t ?t ps i))) = i" if "i \<le> j" for i
    using that bound(2) by (simp add: reducer_at_def unat_of_nat)
  note chunk = reducer_chunk_spec[OF j(1) J(3) bound(1) J(2,7) bound(2), of 128, folded j(3), folded cost_of_def]
  have more: "keep_min (map (cost_of dist ?d) (rev [i..<j])) minimal = keep_min (map (cost_of dist ?d) (rev [i..<?N])) (- 1)"
    if "i \<le> j" for i
  proof -
    have "[i..<?N] = [i..<j] @ [j..<?N]" using that j(2) by (metis le_add_diff_inverse upt_add_eq_append)
    then show ?thesis unfolding j(4) by (simp add: keep_min_append)
  qed
  show ?thesis
  proof (cases "128 \<le> j")
    case True
    let ?min = "keep_min (map (cost_of dist ?d) (rev [j - 128..<j])) minimal"
    have "reduced dist ?d (reducer_at ?t ?t ps (j - 128)) ?min"
      unfolding reduced_def using j(1,2) more[of "j - 128"] by (intro exI[of _ ps] exI[of _ "j - 128"]) simp
    then show ?thesis using chunk True env jok t left[of j] left[of "j - 128"]
      by (simp add: j(3) Let_def reduce_job_def current_ok_def) (rule exI[of _ "reducer_at ?t ?t ps (j - 128)"], auto)
  next
    case False
    have "is_best (dist ?d) ?t ?t (keep_min (map (cost_of dist ?d) (rev [0..<?N])) (- 1))"
      using best_of_all[OF J(2), of "dist ?d" ?t] by (simp add: cost_of_def[abs_def])
    then show ?thesis using chunk False env more[of 0] left[of j] by (auto simp: j(3) reduce_job_def Let_def)
  qed
qed

lemma process_job_kept:
  assumes env: "en_bits env = B" and inv: "tm_inv dist m"
  shows "\<exists>flow out m'. process_job env m = Some (flow, out, m') \<and> tm_kept dist flow m'"
proof (cases "tm_current_job m")
  case None
  then show ?thesis using inv by (cases "tm_jobs_queue m")
      (auto simp: process_job_def tm_inv_def current_ok_def intro!: tm_kept_continue)
next
  case (Some job)
  let ?d = "jb_data job"
  have ok: "current_ok dist job" using inv Some by (simp add: tm_inv_def)
  then have jok: "job_ok ?d" by (simp add: current_ok_def)
  note J = job_okD[OF jok]
  note idle = tm_kept_continue[of dist "m\<lparr>tm_need_process_job := False\<rparr>"]
  have inv': "tm_inv dist (m\<lparr>tm_need_process_job := False\<rparr>)" using inv by (simp add: tm_inv_def)
  consider "jb_state job = NotStarted" | stats parts tasks splitter where "jb_state job = Started stats parts tasks (Splitting splitter)"
    | stats parts tasks where "jb_state job = Started stats parts tasks WaitingTasksCompletions"
    | stats parts tasks reducer minimal where "jb_state job = Started stats parts tasks (Reducing reducer minimal)"
    using ok by (cases "jb_state job") (auto simp: current_ok_def elim: phase_ok.elims)
  then show ?thesis
  proof cases
    case 1
    have "current_ok dist (job\<lparr>jb_state := Started None
        (replicate (taxi_count ?d) (ml_with_capacity c (passenger_count ?d mod 64 + 1))) (bsv_with_capacity n)
        (Splitting (splitter_new (taxi_count ?d) (passenger_count ?d)))\<rparr>)" for c n
      using jok collected_start[OF jok] splitter_new_at[OF J(4,5)] by (auto simp: current_ok_def)
    then show ?thesis using 1 Some idle[OF inv'] tm_kept_current[OF inv Some]
      by (cases "en_encode_job env ?d") (auto simp: process_job_def begin_job_def Let_def flow_ok_def)
  next
    case (2 stats parts tasks splitter)
    obtain flow out job' where "split_job env job stats parts tasks splitter = Some (flow, out, job')" "jb_data job' = ?d"
      "flow = Continue \<longrightarrow> current_ok dist job'" "flow_ok flow" using split_job_spec[OF env ok 2] by blast
    then show ?thesis using 2 Some idle[OF inv'] tm_kept_current[OF inv Some, of job' flow] by (auto simp: process_job_def)
  next
    case (3 stats parts tasks)
    have "current_ok dist (await_tasks job stats parts tasks)"
    proof (cases "bs_is_empty tasks")
      case True
      have col: "collected dist ?d parts tasks (task_count ?d)" using ok 3 by (simp add: current_ok_def)
      then have none: "bs_set tasks = {}" "bs_inv tasks" using True by (auto simp: collected_def bs_is_empty_def bs_inv_def)
      have "taxi_count ?d < 2 ^ 32" using J(3,5) by simp
      then have "reduced dist ?d (reducer_new (taxi_count ?d) (taxi_count ?d) parts) (- 1)"
        unfolding reduced_def using collected_complete[OF jok col none(1)] reducer_new_at
        by (intro exI[of _ parts] exI[of _ "taxi_count ?d ^ taxi_count ?d"]) (simp add: keep_min_def)
      then show ?thesis using True none jok by (simp add: await_tasks_def Let_def current_ok_def)
    qed (use ok in \<open>simp add: await_tasks_def\<close>)
    moreover have "jb_data (await_tasks job stats parts tasks) = ?d" by (simp add: await_tasks_def Let_def)
    ultimately show ?thesis using 3 Some idle[OF inv'] tm_kept_current[OF inv Some] by (auto simp: process_job_def flow_ok_def)
  next
    case (4 stats parts tasks reducer minimal)
    obtain flow job' where r: "reduce_job env job stats parts tasks reducer minimal = Some (flow, job')" "jb_data job' = ?d"
      "flow = Continue \<and> current_ok dist job' \<or>
       (\<exists>v. flow = Break_Ok (Completed v stats) \<and> is_best (dist ?d) (taxi_count ?d) (taxi_count ?d) v)"
      using reduce_job_spec[OF env ok 4] by (auto simp: Let_def split: if_splits)
    have "tm_kept dist flow (m\<lparr>tm_current_job := Some job'\<rparr>)"
      using r(2,3) inv by (auto simp: tm_kept_def flow_best_def tm_inv_def)
    then show ?thesis using 4 Some r(1) by (auto simp: process_job_def)
  qed
qed

lemma receive_results_kept:
  assumes env: "en_bits env = B" and inv: "tm_inv dist m" and right: "results_right env dist m rs"
  shows "\<exists>flow out m'. receive_results env m rs st = Some (flow, out, m') \<and> tm_kept dist flow m'"
proof (cases "tm_current_job m")
  case None
  then show ?thesis using tm_kept_continue[OF inv] by (simp add: receive_results_def)
next
  case (Some job)
  let ?d = "jb_data job"
  have ok: "current_ok dist job" using inv Some by (simp add: tm_inv_def)
  then have jok: "job_ok ?d" by (simp add: current_ok_def)
  show ?thesis
  proof (cases "jb_state job")
    case (Started stats parts tasks phase)
    let ?st = "case st of None \<Rightarrow> stats | Some _ \<Rightarrow> st"
    have rr: "\<forall>r \<in> set rs. right_result env dist ?d tasks r" using right Some Started by (simp add: results_right_def list_all_iff)
    have ph: "phase_ok dist ?d parts tasks phase" using ok Started by (simp add: current_ok_def)
    have "\<exists>flow parts' tasks'. process_results env parts tasks rs ?st = Some (flow, parts', tasks') \<and>
      phase_ok dist ?d parts' tasks' phase \<and> flow_ok flow"
    proof (cases phase)
      case (Splitting splitter)
      then obtain k where k: "k \<le> task_count ?d" "splitter = splitter_at (taxi_count ?d) (passenger_count ?d) k"
        "collected dist ?d parts tasks k" using ph by auto
      obtain flow parts' tasks' where r: "process_results env parts tasks rs ?st = Some (flow, parts', tasks')"
        "collected dist ?d parts' tasks' k" "flow_ok flow" using process_results_spec[OF env jok k(1,3) rr] by blast
      moreover have "phase_ok dist ?d parts' tasks' phase" using Splitting k(1,2) r(2) by auto
      ultimately show ?thesis by blast
    next
      case WaitingTasksCompletions
      then have "collected dist ?d parts tasks (task_count ?d)" using ph by simp
      from process_results_spec[OF env jok order.refl this rr, of ?st] show ?thesis
        unfolding WaitingTasksCompletions phase_ok.simps by blast
    next
      case (Reducing reducer minimal)
      then have t: "bs_inv tasks" "bs_set tasks = {}" using ph by auto
      show ?thesis using process_results_none[OF env t] ph Reducing by (metis phase_ok.simps(3))
    qed
    then obtain flow parts' tasks' where r: "process_results env parts tasks rs ?st = Some (flow, parts', tasks')"
      "phase_ok dist ?d parts' tasks' phase" "flow_ok flow" by blast
    have "current_ok dist (job\<lparr>jb_state := Started ?st parts' tasks' phase\<rparr>)" using r(2) jok by (simp add: current_ok_def)
    then show ?thesis using Some Started r(1,3) tm_kept_current[OF inv Some] by (auto simp: receive_results_def Let_def)
  qed (use Some tm_kept_continue[OF inv] in \<open>simp_all add: receive_results_def\<close>)
qed

lemma restart_job_inv:
  assumes "tm_inv dist m"
  shows "tm_inv dist (restart_job m)"
proof (cases "restart_job m = m")
  case False
  then obtain job where "tm_current_job m = Some job" "restart_job m = m\<lparr>tm_current_job := Some (job\<lparr>jb_state := NotStarted\<rparr>)\<rparr>"
    by (auto simp: restart_job_def split: option.splits job_state.splits job_phase.splits)
  then show ?thesis using assms by (auto simp: tm_inv_def current_ok_def)
qed (use assms in simp)

lemma process_tm_scheduler_kept:
  assumes env: "en_bits env = B" and inv: "tm_inv dist m" and ord: "tm_orderly env dist m (TV_Scheduler e)"
  shows "\<exists>flow out m'. process_tm_scheduler env m e = Some (flow, out, m') \<and> tm_kept dist flow m'"
proof -
  have ready: "tm_inv dist (m\<lparr>tm_ready := b\<rparr>)" for b using inv by (simp add: tm_inv_def)
  note restart = tm_kept_continue[OF restart_job_inv[OF ready]]
  have err: "tm_kept dist (Break_Ok (JR_Error error (Some stats))) m" for error stats
    using inv by (auto simp: tm_kept_def flow_best_def tm_inv_def)
  have free: "tm_inv dist (m\<lparr>tm_ready := True, tm_need_process_job := True\<rparr>)" using inv by (simp add: tm_inv_def)
  show ?thesis
  proof (cases e)
    case (TS_Message msg)
    then show ?thesis using ord receive_results_kept[OF env inv] restart err tm_kept_continue[OF free] by (cases msg) auto
  qed (use ord inv restart in \<open>auto intro: tm_kept_continue\<close>)
qed

end

lemma process_tm_command_kept:
  assumes inv: "tm_inv dist m" and ord: "tm_orderly env dist m (TV_Command c)"
  shows "\<exists>flow out m'. process_tm_command m c = Some (flow, out, m') \<and> tm_kept dist flow m'"
proof -
  have queue: "tm_inv dist (m\<lparr>tm_jobs_queue := q\<rparr>)" if "set q \<subseteq> set (tm_jobs_queue m)" for q
    using inv that by (auto simp: tm_inv_def)
  have "set (take n q @ drop k q) \<subseteq> set q" for n k and q :: "job list" using set_take_subset set_drop_subset by fastforce
  then have cancel: "\<exists>flow out m'. cancel_queued m uu = Some (flow, out, m') \<and> tm_kept dist flow m'" for uu
    using tm_kept_continue[OF inv] tm_kept_continue[OF queue] by (auto simp: cancel_queued_def split: option.split)
  have err: "tm_kept dist (Break_Ok (JR_Error error stats)) m" for error stats
    using inv by (auto simp: tm_kept_def flow_best_def tm_inv_def)
  show ?thesis
  proof (cases c)
    case (AddJob data uu)
    have "tm_inv dist (m\<lparr>tm_jobs_queue := tm_jobs_queue m @ [\<lparr>jb_id = uu, jb_data = data, jb_state = NotStarted\<rparr>],
        tm_need_process_job := True\<rparr>)" using inv ord AddJob by (auto simp: tm_inv_def)
    then show ?thesis using AddJob by (simp add: tm_kept_continue)
  next
    case (CancelJob uu)
    then show ?thesis using cancel[of uu] err by (cases "tm_current_job m") auto
  qed (use tm_kept_continue[OF inv] in simp_all)
qed

lemma finish_job_inv:
  assumes "tm_kept dist (Break_Ok result) m"
  shows "tm_inv dist (finish_job m result)"
  using assms by (cases "tm_current_job m") (auto simp: tm_kept_def finish_job_def tm_inv_def flow_best_def finished_ok_def)

lemma tm_exec_inv:
  assumes laws: "bitset_core_laws (en_bits env)" and inv: "tm_inv dist m" and ord: "tm_orderly env dist m e"
  shows "\<exists>out m'. tm_exec env m e = Some (out, m') \<and> tm_inv dist m'"
proof -
  have "\<exists>flow out m'. tm_turn env m e = Some (flow, out, m') \<and> tm_kept dist flow m'"
  proof (cases e)
    case (TV_Scheduler x)
    then show ?thesis using bitset_core_laws.process_tm_scheduler_kept[OF laws refl inv] ord by simp
  next
    case (TV_Command c)
    then show ?thesis using process_tm_command_kept[OF inv] ord by simp
  next
    case TV_Job
    then show ?thesis using bitset_core_laws.process_job_kept[OF laws refl inv] by simp
  qed
  then obtain flow out m' where t: "tm_turn env m e = Some (flow, out, m')" "tm_kept dist flow m'" by blast
  show ?thesis
  proof (cases flow)
    case Continue
    then show ?thesis using t by (simp add: tm_exec_def tm_kept_def)
  next
    case (Break_Ok result)
    then show ?thesis using t finish_job_inv by (auto simp: tm_exec_def)
  next
    case (Break_Err err)
    then show ?thesis using t(2) by (simp add: tm_kept_def flow_best_def)
  qed
qed

lemma task_manager_loop:
  assumes "bitset_core_laws (en_bits env)"
  shows "event_loop task_manager_new (tm_orderly env dist) (tm_exec env) (tm_inv dist)"
  by unfold_locales (simp add: task_manager_new_def tm_inv_def, rule tm_exec_inv[OF assms])

end
