(* ===== verification/Task_Manager_Runs.thy ===== *)
theory Task_Manager_Runs
  imports Task_Manager_Invariants
begin

text \<open>
  The task manager as a whole: its runs of orderly events from the empty state, what the turns of its loop
  that work on a job do together, and its properties.
\<close>

section \<open>Runs\<close>

abbreviation tm_run :: "tm_env \<Rightarrow> answers \<Rightarrow> tm_event list \<Rightarrow> tm_output list \<Rightarrow> task_manager \<Rightarrow> bool" where
  "tm_run env dist \<equiv> event_run (tm_orderly env dist) (tm_exec env) task_manager_new"

definition tm_turns :: "tm_env \<Rightarrow> answers \<Rightarrow> task_manager \<Rightarrow> nat \<Rightarrow> (tm_output list \<times> task_manager) option" where
  "tm_turns env dist m n = exec_events (tm_orderly env dist) (tm_exec env) m (replicate n TV_Job)"

lemma tm_turns_Suc [simp]:
  "tm_turns env dist m 0 = Some ([], m)"
  "tm_turns env dist m (Suc n) =
     (if tm_need_process_job m then
        do { (out, m) \<leftarrow> tm_exec env m TV_Job; (outs, m) \<leftarrow> tm_turns env dist m n; Some (out @ outs, m) }
      else None)"
  by (simp_all add: tm_turns_def)

section \<open>A job is split\<close>

text \<open>The messages with which the tasks \<open>k\<close> to \<open>n - 1\<close> of a job are sent.\<close>

definition sent_task :: "(task_data \<Rightarrow> bytes) \<Rightarrow> job_data \<Rightarrow> nat \<Rightarrow> worker_task" where
  "sent_task enc d i = \<lparr>wt_id = i, wt_data = enc (task_at d i)\<rparr>"

definition sent_batches :: "(task_data \<Rightarrow> bytes) \<Rightarrow> job_data \<Rightarrow> nat \<Rightarrow> worker_task list list \<Rightarrow> bool" where
  "sent_batches enc d k batches \<longleftrightarrow>
     concat batches = map (sent_task enc d) [k..<task_count d] \<and> (\<forall>batch \<in> set batches. length batch \<le> 128)"

context bitset_core_laws
begin

lemma batch_tasks_sent:
  assumes env: "en_bits env = B" and enc: "\<And>t. en_encode_task env t = Some (enc t)"
  shows "k \<le> n \<Longrightarrow> bs_inv tasks \<Longrightarrow> bs_set tasks = {..<k} \<Longrightarrow>
    \<exists>tasks'. batch_tasks env tasks (map (task_of (passenger_count d)) [k..<n]) = Some (tasks', Some (map (sent_task enc d) [k..<n])) \<and>
      bs_inv tasks' \<and> bs_set tasks' = {..<n}"
proof (induction "n - k" arbitrary: k tasks)
  case 0
  then show ?case by simp
next
  case (Suc j)
  have k: "k < n" using Suc.hyps(2) by simp
  have upt: "[k..<n] = k # [Suc k..<n]" by (rule upt_conv_Cons[OF k])
  obtain td where td: "task_of (passenger_count d) k = (k, td)" by (simp add: task_of_def Let_def)
  obtain tasks1 where t: "bsv_insert B tasks k = Some (k \<notin> bs_set tasks, tasks1)" "bs_inv tasks1" "bs_set tasks1 = insert k (bs_set tasks)"
    using bsv_insert_spec[OF Suc.prems(2)] by blast
  have "j = n - Suc k" using Suc.hyps(2) by simp
  moreover have "bs_set tasks1 = {..<Suc k}" unfolding t(3) Suc.prems(3) lessThan_Suc ..
  ultimately obtain tasks2 where "batch_tasks env tasks1 (map (task_of (passenger_count d)) [Suc k..<n]) =
      Some (tasks2, Some (map (sent_task enc d) [Suc k..<n]))" "bs_inv tasks2" "bs_set tasks2 = {..<n}"
    using Suc.hyps(1)[OF _ Suc_leI[OF k] t(2)] by blast
  then show ?case unfolding upt using t(1) env td enc by (simp add: sent_task_def)
qed

lemma split_turns:
  assumes env: "en_bits env = B" and enc: "\<And>t. en_encode_task env t = Some (enc t)" and ok: "job_ok d"
    and m: "tm_ready m" "tm_need_process_job m"
  shows "tm_current_job m = Some job \<Longrightarrow> jb_data job = d \<Longrightarrow> jb_state job = Started stats parts tasks (Splitting (splitter_at (taxi_count d) (passenger_count d) k)) \<Longrightarrow>
    k \<le> task_count d \<Longrightarrow> bs_inv tasks \<Longrightarrow> bs_set tasks = {..<k} \<Longrightarrow>
    \<exists>batches tasks'. tm_turns env dist m (Suc ((task_count d - k) div 128)) =
        Some (map (\<lambda>b. To_Sched (SR_Task b)) batches,
          m\<lparr>tm_current_job := Some (job\<lparr>jb_state := Started stats parts tasks' WaitingTasksCompletions\<rparr>)\<rparr>) \<and>
      sent_batches enc d k batches \<and> bs_inv tasks' \<and> bs_set tasks' = {..<task_count d}"
  using m
proof (induction "(task_count d - k) div 128" arbitrary: k m job tasks)
  case 0
  let ?t = "taxi_count d" and ?p = "passenger_count d"
  note J = job_okD[OF ok]
  have "\<not> k + 128 \<le> task_count d" using 0(1,5) by (auto simp: div_eq_0_iff)
  then have chunk: "splitter_chunk 128 (splitter_at ?t ?p k) = Some (Inl (map (task_of ?p) [k..<task_count d]), splitter_at ?t ?p (task_count d))"
    using splitter_chunk_spec[OF J(1), of k 128] 0(5) by (simp add: task_count_def)
  have len: "length [k..<task_count d] \<le> 128" using \<open>\<not> k + 128 \<le> task_count d\<close> by simp
  obtain tasks' where "batch_tasks env tasks (map (task_of ?p) [k..<task_count d]) = Some (tasks', Some (map (sent_task enc d) [k..<task_count d]))"
    "bs_inv tasks'" "bs_set tasks' = {..<task_count d}" using batch_tasks_sent[OF env enc 0(5-7)] by blast
  moreover from this(1) have "tm_exec env m TV_Job = Some ([To_Sched (SR_Task (map (sent_task enc d) [k..<task_count d]))],
      m\<lparr>tm_current_job := Some (job\<lparr>jb_state := Started stats parts tasks' WaitingTasksCompletions\<rparr>)\<rparr>)"
    using 0(2-4,8) chunk by (simp add: tm_exec_def process_job_def split_job_def)
  ultimately show ?case using len 0(9) unfolding 0(1)[symmetric]
    by (intro exI[of _ "[map (sent_task enc d) [k..<task_count d]]"] exI[of _ tasks']) (simp add: sent_batches_def)
next
  case (Suc q)
  let ?t = "taxi_count d" and ?p = "passenger_count d"
  note J = job_okD[OF ok]
  have "128 \<le> task_count d - k" using Suc(2) by (metis Zero_not_Suc div_less not_le)
  then have k: "k + 128 \<le> task_count d" "q = (task_count d - (k + 128)) div 128"
    using Suc(2) le_div_geq[of 128 "task_count d - k"] by auto
  then have chunk: "splitter_chunk 128 (splitter_at ?t ?p k) = Some (Inr (map (task_of ?p) [k..<k + 128]), splitter_at ?t ?p (k + 128))"
    using splitter_chunk_spec[OF J(1), of k 128] by (simp add: task_count_def)
  obtain tasks1 where 1: "batch_tasks env tasks (map (task_of ?p) [k..<k + 128]) = Some (tasks1, Some (map (sent_task enc d) [k..<k + 128]))"
    "bs_inv tasks1" "bs_set tasks1 = {..<k + 128}" using batch_tasks_sent[OF env enc _ Suc(7,8), of "k + 128" d] by auto
  let ?job = "job\<lparr>jb_state := Started stats parts tasks1 (Splitting (splitter_at ?t ?p (k + 128)))\<rparr>"
  let ?m = "m\<lparr>tm_current_job := Some ?job\<rparr>"
  have turn: "tm_exec env m TV_Job = Some ([To_Sched (SR_Task (map (sent_task enc d) [k..<k + 128]))], ?m)"
    using Suc(3-5,9) chunk 1(1) by (simp add: tm_exec_def process_job_def split_job_def)
  obtain batches tasks' where r: "tm_turns env dist ?m (Suc ((task_count d - (k + 128)) div 128)) =
      Some (map (\<lambda>b. To_Sched (SR_Task b)) batches,
          ?m\<lparr>tm_current_job := Some (?job\<lparr>jb_state := Started stats parts tasks' WaitingTasksCompletions\<rparr>)\<rparr>)"
    "sent_batches enc d (k + 128) batches" "bs_inv tasks'" "bs_set tasks' = {..<task_count d}"
    using Suc(1)[OF k(2), of ?m ?job tasks1] Suc(4,9,10) k(1) 1(2,3) by auto
  have "[k..<task_count d] = [k..<k + 128] @ [k + 128..<task_count d]" using k(1) by (metis le_add1 upt_add_eq_append le_add_diff_inverse)
  then have "sent_batches enc d k (map (sent_task enc d) [k..<k + 128] # batches)" using r(2) by (simp add: sent_batches_def)
  then show ?case using r turn Suc(10) unfolding Suc(2)[symmetric] k(2)
    by (intro exI[of _ "map (sent_task enc d) [k..<k + 128] # batches"] exI[of _ tasks']) simp
qed

lemma begin_turn:
  assumes env: "en_bits env = B" and enc: "en_encode_job env d = Some args" and ok: "job_ok d"
    and m: "tm_ready m" "tm_current_job m = Some job" "jb_data job = d" "jb_state job = NotStarted"
  shows "\<exists>parts tasks. tm_exec env m TV_Job =
      Some ([To_Sched (SR_NewJob (jb_id job) (task_count d) \<lparr>wj_args = args, wj_data = en_job_code env\<rparr>)],
        m\<lparr>tm_current_job := Some (job\<lparr>jb_state := Started None parts tasks
            (Splitting (splitter_at (taxi_count d) (passenger_count d) 0))\<rparr>)\<rparr>) \<and> bs_inv tasks \<and> bs_set tasks = {}"
proof -
  note J = job_okD[OF ok]
  have total: "unat (total_tasks (splitter_new (taxi_count d) (passenger_count d))) = task_count d"
    unfolding splitter_new_at[OF J(4,5)] task_count_def by (rule total_tasks_at[OF J(1)])
  have start: "bs_inv (bsv_with_capacity n)" "bs_set (bsv_with_capacity n) = {}" for n
    by (simp_all add: bsv_with_capacity_def bs_inv_def bs_set_def)
  have "tm_exec env m TV_Job =
      Some ([To_Sched (SR_NewJob (jb_id job) (task_count d) \<lparr>wj_args = args, wj_data = en_job_code env\<rparr>)],
        m\<lparr>tm_current_job := Some (job\<lparr>jb_state := Started None
            (replicate (taxi_count d) (ml_with_capacity (passenger_count d) (passenger_count d mod 64 + 1)))
            (bsv_with_capacity (unat (total_tasks (splitter_new (taxi_count d) (passenger_count d)) mod 64 + 1)))
            (Splitting (splitter_new (taxi_count d) (passenger_count d)))\<rparr>)\<rparr>)"
    unfolding total[symmetric] using m enc by (simp add: tm_exec_def process_job_def begin_job_def Let_def)
  then show ?thesis using start unfolding splitter_new_at[OF J(4,5)] by blast
qed

section \<open>A job is reduced\<close>

lemma await_turn:
  assumes env: "en_bits env = B" and inv: "tm_inv dist m" and m: "tm_ready m" "tm_current_job m = Some job"
    and st: "jb_state job = Started stats parts tasks WaitingTasksCompletions" "bs_is_empty tasks"
  shows "\<exists>reducer. tm_exec env m TV_Job =
      Some ([], m\<lparr>tm_current_job := Some (job\<lparr>jb_state := Started stats [] tasks (Reducing reducer (- 1))\<rparr>)\<rparr>) \<and>
    unat (cg_n (rd_combinations reducer)) = taxi_count (jb_data job) ^ taxi_count (jb_data job)"
proof -
  let ?t = "taxi_count (jb_data job)"
  have ok: "job_ok (jb_data job)" using inv m(2) by (simp add: tm_inv_def current_ok_def)
  have "?t < 2 ^ 32" "?t ^ ?t < 2 ^ 128" using job_okD(3,5,8)[OF ok] by simp_all
  then have "unat (cg_n (rd_combinations (reducer_new ?t ?t parts))) = ?t ^ ?t"
    by (simp add: reducer_new_at reducer_at_def unat_of_nat flip: of_nat_power)
  moreover have "tm_exec env m TV_Job = Some ([], m\<lparr>tm_current_job :=
      Some (job\<lparr>jb_state := Started stats [] tasks (Reducing (reducer_new ?t ?t parts) (- 1))\<rparr>)\<rparr>)"
    using m st by (simp add: tm_exec_def process_job_def await_tasks_def Let_def)
  ultimately show ?thesis by blast
qed

lemma reduce_turns:
  assumes env: "en_bits env = B"
  shows "tm_inv dist m \<Longrightarrow> tm_need_process_job m \<Longrightarrow> tm_current_job m = Some job \<Longrightarrow>
    jb_state job = Started stats parts tasks (Reducing reducer minimal) \<Longrightarrow> j = unat (cg_n (rd_combinations reducer)) \<Longrightarrow>
    \<exists>v. tm_turns env dist m (Suc (j div 128)) =
        Some ([], m\<lparr>tm_current_job := None, tm_jobs_finished := tm_jobs_finished m @ [job\<lparr>jb_state := Finished (Completed v stats)\<rparr>]\<rparr>) \<and>
      is_best (dist (jb_data job)) (taxi_count (jb_data job)) (taxi_count (jb_data job)) v"
proof (induction "j div 128" arbitrary: j m job reducer minimal)
  case 0
  let ?d = "jb_data job" and ?t = "taxi_count (jb_data job)"
  have ok: "current_ok dist job" using 0(2,4) by (simp add: tm_inv_def)
  have "\<not> 128 \<le> unat (cg_n (rd_combinations reducer))" using 0(1,6) by (simp add: div_eq_0_iff)
  then obtain state' v where r: "reduce_job env job stats parts tasks reducer minimal = Some (Break_Ok (Completed v stats), job\<lparr>jb_state := state'\<rparr>)"
    "is_best (dist ?d) ?t ?t v" using reduce_job_spec[OF env ok 0(5)] by auto
  have "tm_exec env m TV_Job =
      Some ([], m\<lparr>tm_current_job := None, tm_jobs_finished := tm_jobs_finished m @ [job\<lparr>jb_state := Finished (Completed v stats)\<rparr>]\<rparr>)"
    using 0(4,5) r(1) by (simp add: tm_exec_def process_job_def finish_job_def)
  then show ?case using r(2) 0(3) unfolding 0(1)[symmetric] by auto
next
  case (Suc q)
  have ok: "current_ok dist job" using Suc(3,5) by (simp add: tm_inv_def)
  have j: "128 \<le> j" using Suc(2) by (metis Zero_not_Suc div_less not_le)
  then have q: "q = (j - 128) div 128" using Suc(2) le_div_geq[of 128 j] by simp
  let ?job = "\<lambda>reducer' minimal'. job\<lparr>jb_state := Started stats parts tasks (Reducing reducer' minimal')\<rparr>"
  obtain reducer' minimal' where r: "reduce_job env job stats parts tasks reducer minimal = Some (Continue, ?job reducer' minimal')"
    "current_ok dist (?job reducer' minimal')" "unat (cg_n (rd_combinations reducer')) = j - 128"
    using reduce_job_spec[OF env ok Suc(6)] j Suc(7) by (auto simp: Let_def)
  let ?m = "m\<lparr>tm_current_job := Some (?job reducer' minimal')\<rparr>"
  have turn: "tm_exec env m TV_Job = Some ([], ?m)" using Suc(5,6) r(1) by (simp add: tm_exec_def process_job_def)
  have "tm_inv dist ?m" using Suc(3) r(2) by (simp add: tm_inv_def)
  then obtain v where "tm_turns env dist ?m (Suc ((j - 128) div 128)) = Some ([], ?m\<lparr>tm_current_job := None,
      tm_jobs_finished := tm_jobs_finished ?m @ [?job reducer' minimal'\<lparr>jb_state := Finished (Completed v stats)\<rparr>]\<rparr>)"
    "is_best (dist (jb_data job)) (taxi_count (jb_data job)) (taxi_count (jb_data job)) v"
    using Suc(1)[OF q, of ?m "?job reducer' minimal'" reducer' minimal'] Suc(4) r(3) by auto
  then show ?case using turn Suc(4) unfolding Suc(2)[symmetric] q by auto
qed

lemma job_turns:
  assumes env: "en_bits env = B" and enc: "\<And>t. en_encode_task env t = Some (enc t)" "en_encode_job env (jb_data job) = Some args"
    and ok: "job_ok (jb_data job)" and m: "tm_ready m" "tm_need_process_job m" "tm_current_job m = Some job" "jb_state job = NotStarted"
  shows "\<exists>batches parts tasks. tm_turns env dist m (task_count (jb_data job) div 128 + 2) =
      Some (To_Sched (SR_NewJob (jb_id job) (task_count (jb_data job)) \<lparr>wj_args = args, wj_data = en_job_code env\<rparr>) #
          map (\<lambda>b. To_Sched (SR_Task b)) batches,
        m\<lparr>tm_current_job := Some (job\<lparr>jb_state := Started None parts tasks WaitingTasksCompletions\<rparr>)\<rparr>) \<and>
    sent_batches enc (jb_data job) 0 batches \<and> bs_set tasks = {..<task_count (jb_data job)}"
proof -
  let ?d = "jb_data job"
  obtain parts tasks where 1: "tm_exec env m TV_Job =
      Some ([To_Sched (SR_NewJob (jb_id job) (task_count ?d) \<lparr>wj_args = args, wj_data = en_job_code env\<rparr>)],
        m\<lparr>tm_current_job := Some (job\<lparr>jb_state := Started None parts tasks
            (Splitting (splitter_at (taxi_count ?d) (passenger_count ?d) 0))\<rparr>)\<rparr>)" "bs_inv tasks" "bs_set tasks = {}"
    using begin_turn[OF env enc(2) ok m(1,3) refl m(4)] by blast
  let ?job = "job\<lparr>jb_state := Started None parts tasks (Splitting (splitter_at (taxi_count ?d) (passenger_count ?d) 0))\<rparr>"
  let ?m = "m\<lparr>tm_current_job := Some ?job\<rparr>"
  have flags: "tm_ready ?m" "tm_need_process_job ?m" "tm_current_job ?m = Some ?job" "jb_data ?job = ?d"
    "jb_state ?job = Started None parts tasks (Splitting (splitter_at (taxi_count ?d) (passenger_count ?d) 0))"
    "bs_set tasks = {..<0}" using m 1(3) by simp_all
  obtain batches tasks' where "tm_turns env dist ?m (Suc ((task_count ?d - 0) div 128)) = Some (map (\<lambda>b. To_Sched (SR_Task b)) batches,
        ?m\<lparr>tm_current_job := Some (?job\<lparr>jb_state := Started None parts tasks' WaitingTasksCompletions\<rparr>)\<rparr>)"
      "sent_batches enc ?d 0 batches" "bs_set tasks' = {..<task_count ?d}"
    using split_turns[OF env enc(1) ok flags(1-5) le0 1(2) flags(6)] by blast
  then show ?thesis using 1(1) m(2) by auto
qed

lemma complete_turns:
  assumes env: "en_bits env = B" and inv: "tm_inv dist m" and m: "tm_ready m" "tm_need_process_job m" "tm_current_job m = Some job"
    and st: "jb_state job = Started stats parts tasks WaitingTasksCompletions" "bs_is_empty tasks"
  shows "\<exists>v. tm_turns env dist m (taxi_count (jb_data job) ^ taxi_count (jb_data job) div 128 + 2) =
      Some ([], m\<lparr>tm_current_job := None, tm_jobs_finished := tm_jobs_finished m @ [job\<lparr>jb_state := Finished (Completed v stats)\<rparr>]\<rparr>) \<and>
    is_best (dist (jb_data job)) (taxi_count (jb_data job)) (taxi_count (jb_data job)) v"
proof -
  obtain reducer where r: "tm_exec env m TV_Job =
      Some ([], m\<lparr>tm_current_job := Some (job\<lparr>jb_state := Started stats [] tasks (Reducing reducer (- 1))\<rparr>)\<rparr>)"
    "unat (cg_n (rd_combinations reducer)) = taxi_count (jb_data job) ^ taxi_count (jb_data job)"
    using await_turn[OF env inv m(1,3) st] by blast
  let ?job = "job\<lparr>jb_state := Started stats [] tasks (Reducing reducer (- 1))\<rparr>"
  let ?m = "m\<lparr>tm_current_job := Some ?job\<rparr>"
  have "tm_inv dist ?m" using tm_exec_inv[OF _ inv, of env TV_Job] bitset_core_laws_axioms env r(1) m(2) by auto
  then obtain v where "tm_turns env dist ?m (Suc (taxi_count (jb_data job) ^ taxi_count (jb_data job) div 128)) =
      Some ([], ?m\<lparr>tm_current_job := None, tm_jobs_finished := tm_jobs_finished ?m @ [?job\<lparr>jb_state := Finished (Completed v stats)\<rparr>]\<rparr>)"
    "is_best (dist (jb_data job)) (taxi_count (jb_data job)) (taxi_count (jb_data job)) v"
    using reduce_turns[OF env, of dist ?m ?job stats "[]" tasks reducer "- 1"] m(2) r(2) by auto
  then show ?thesis using r(1) m(2) by auto
qed

end

section \<open>A concrete job\<close>

text \<open>Two taxis and two passengers on a graph with three vertices. Jobs and tasks are serialised to a single byte, the
  result of a task is decoded from its taxi and its first combination; the distance of a taxi \<open>x\<close> with the
  combination \<open>c\<close> is \<open>10 * c + x\<close>.\<close>

definition demo_job :: job_data where
  "demo_job = \<lparr>jd_graph = [[0, 1, 5], [1, 0, 1], [5, 1, 0]], jd_taxies = [0, 2], jd_passengers = [(0, 1), (1, 2)]\<rparr>"

definition demo_dist :: answers where
  "demo_dist d x c = of_nat (10 * c + x)"

definition demo_bytes :: "nat \<Rightarrow> bytes" where
  "demo_bytes n = [of_nat n]"

definition demo_decode :: "job_data \<Rightarrow> bytes \<Rightarrow> string + task_result" where
  "demo_decode d data =
     (case data of
        [b] \<Rightarrow> Inr (answer_of demo_dist d (unat b))
      | _ \<Rightarrow> Inl ''unexpected end'')"

definition demo_env :: "job_data \<Rightarrow> tm_env" where
  "demo_env d = \<lparr>en_encode_job = (\<lambda>_. Some (demo_bytes 0)), en_encode_task = (\<lambda>t. Some (demo_bytes (td_taxi t))),
     en_decode_result = demo_decode d, en_job_code = [], en_bits = words_core\<rparr>"

definition demo_result :: "nat \<Rightarrow> worker_result" where
  "demo_result i = \<lparr>wr_id = i, wr_execution_time = 1, wr_data = demo_bytes i\<rparr>"

definition tm_after :: "job_data \<Rightarrow> tm_event list \<Rightarrow> task_manager" where
  "tm_after d es = snd (the (exec_events (tm_orderly (demo_env d) demo_dist) (tm_exec (demo_env d)) task_manager_new es))"

definition demo_start :: "job_data \<Rightarrow> tm_event list" where
  "demo_start d = [TV_Scheduler (TS_Message SchedulerFree), TV_Command (AddJob d 5), TV_Job]"

definition demo_work :: "job_data \<Rightarrow> tm_event list" where
  "demo_work d = demo_start d @ [TV_Job, TV_Job, TV_Scheduler (TS_Message (TaskResults (map demo_result (rev [0..<task_count d]))))]"

lemma tm_after_run:
  assumes "\<not> Option.is_none (exec_events (tm_orderly (demo_env d) demo_dist) (tm_exec (demo_env d)) task_manager_new es)"
  shows "\<exists>outs. tm_run (demo_env d) demo_dist es outs (tm_after d es)"
proof -
  obtain r where r: "exec_events (tm_orderly (demo_env d) demo_dist) (tm_exec (demo_env d)) task_manager_new es = Some r"
    using some_by_eval[OF assms] .
  obtain outs m where "r = (outs, m)" by (cases r)
  then show ?thesis
    using exec_events_run[OF event_run.run_init, of "tm_orderly (demo_env d) demo_dist" "tm_exec (demo_env d)" task_manager_new es outs m] r
    by (auto simp: tm_after_def)
qed

lemma demo_laws: "bitset_core_laws (en_bits (demo_env d))"
  by (simp add: demo_env_def words.bitset_core_laws_axioms)

lemma demo_work_run: "\<exists>outs. tm_run (demo_env demo_job) demo_dist (demo_work demo_job) outs (tm_after demo_job (demo_work demo_job))"
  by (rule tm_after_run) code_simp


lemma demo_start_run: "\<exists>outs. tm_run (demo_env demo_job) demo_dist (demo_start demo_job) outs (tm_after demo_job (demo_start demo_job))"
  by (rule tm_after_run) code_simp

lemma demo_encode: "en_encode_task (demo_env d) t = Some (demo_bytes (td_taxi t))" "en_encode_job (demo_env d) d' = Some (demo_bytes 0)"
  by (simp_all add: demo_env_def)

text \<open>The current job after the results: it waits, with no task open.\<close>

lemma demo_waiting:
  obtains job parts tasks where "tm_current_job (tm_after demo_job (demo_work demo_job)) = Some job"
    "jb_state job = Started None parts tasks WaitingTasksCompletions" "bs_is_empty tasks" "jb_id job = 5" "jb_data job = demo_job"
proof -
  let ?m = "tm_after demo_job (demo_work demo_job)"
  have "\<not> Option.is_none (tm_current_job ?m)" by code_simp
  then obtain job where job: "tm_current_job ?m = Some job" by (rule some_by_eval)
  have "(case tm_current_job ?m of Some job \<Rightarrow> jb_id job = 5 \<and> jb_data job = demo_job \<and>
      (case jb_state job of Started None parts tasks WaitingTasksCompletions \<Rightarrow> bs_is_empty tasks | _ \<Rightarrow> False) | None \<Rightarrow> False)" by code_simp
  then show ?thesis using job that by (auto split: job_state.splits option.splits job_phase.splits)
qed

section \<open>Properties\<close>

text \<open>C21. The result of a job is right: after every run of orderly events, a job that is finished as completed has the
  least total distance over all assignments of passengers to taxis, where the passengers are the first ones, as many as there
  are taxis, and the distances are those the workers computed; an assignment attains it.\<close>

theorem job_result_best:
  assumes "bitset_core_laws (en_bits env)" "tm_run env dist es outs m" "job \<in> set (tm_jobs_finished m)"
    "jb_state job = Finished (Completed v stats)"
  shows "is_best (dist (jb_data job)) (taxi_count (jb_data job)) (taxi_count (jb_data job)) v"
  using event_loop.run_inv[OF task_manager_loop[OF assms(1)] assms(2)] assms(3,4) by (auto simp: tm_inv_def finished_ok_def)

theorem job_result_best_witness:
  "\<exists>job \<in> set (tm_jobs_finished (tm_after demo_job (demo_work demo_job @ [TV_Job, TV_Job]))).
     jb_state job = Finished (Completed 30 None) \<and> is_best (demo_dist demo_job) 2 2 30"
proof -
  let ?m = "tm_after demo_job (demo_work demo_job @ [TV_Job, TV_Job])"
  have "\<exists>outs. tm_run (demo_env demo_job) demo_dist (demo_work demo_job @ [TV_Job, TV_Job]) outs ?m" by (rule tm_after_run) code_simp
  then obtain outs where run: "tm_run (demo_env demo_job) demo_dist (demo_work demo_job @ [TV_Job, TV_Job]) outs ?m" ..
  have fin: "tm_jobs_finished ?m = [\<lparr>jb_id = 5, jb_data = demo_job, jb_state = Finished (Completed 30 None)\<rparr>]" by code_simp
  have "taxi_count demo_job = 2" by code_simp
  then show ?thesis using job_result_best[OF demo_laws run, of "\<lparr>jb_id = 5, jb_data = demo_job, jb_state = Finished (Completed 30 None)\<rparr>" 30 None] fin
    by simp
qed

text \<open>C27. In every run of orderly events the task manager handles the next orderly event without a panic: no stored
  result that the reducer looks up is missing, no part and no bit is indexed out of range, and the loop goes on.\<close>

theorem tm_event_handled:
  assumes "bitset_core_laws (en_bits env)" "tm_run env dist es outs m" "tm_orderly env dist m e"
  shows "\<exists>out m'. tm_exec env m e = Some (out, m') \<and> tm_run env dist (es @ [e]) (outs @ out) m'"
  using event_loop.handled[OF task_manager_loop[OF assms(1)] assms(2,3)] by blast

theorem tm_event_handled_witness:
  "\<exists>outs out m'. tm_exec (demo_env demo_job) (tm_after demo_job (demo_work demo_job)) TV_Job = Some (out, m') \<and>
     tm_run (demo_env demo_job) demo_dist (demo_work demo_job @ [TV_Job]) (outs @ out) m'"
proof -
  obtain outs where run: "tm_run (demo_env demo_job) demo_dist (demo_work demo_job) outs (tm_after demo_job (demo_work demo_job))"
    using demo_work_run ..
  have "tm_orderly (demo_env demo_job) demo_dist (tm_after demo_job (demo_work demo_job)) TV_Job" by code_simp
  from tm_event_handled[OF demo_laws run this] show ?thesis by blast
qed

text \<open>C22. A job is announced and sent completely: with a ready scheduler, the turns on a job that has not started send
  its announcement with the number of its tasks and then, in batches of at most 128, exactly these tasks with
  the identifiers from 0 on in order; afterwards all of them are open and the job waits for them.\<close>

theorem job_tasks_sent:
  assumes "bitset_core_laws (en_bits env)" "\<And>t. en_encode_task env t = Some (enc t)" "en_encode_job env (jb_data job) = Some args"
    "job_ok (jb_data job)" "tm_ready m" "tm_need_process_job m" "tm_current_job m = Some job" "jb_state job = NotStarted"
  shows "\<exists>batches parts tasks. tm_turns env dist m (task_count (jb_data job) div 128 + 2) =
      Some (To_Sched (SR_NewJob (jb_id job) (task_count (jb_data job)) \<lparr>wj_args = args, wj_data = en_job_code env\<rparr>) #
          map (\<lambda>b. To_Sched (SR_Task b)) batches,
        m\<lparr>tm_current_job := Some (job\<lparr>jb_state := Started None parts tasks WaitingTasksCompletions\<rparr>)\<rparr>) \<and>
    sent_batches enc (jb_data job) 0 batches \<and> bs_set tasks = {..<task_count (jb_data job)}"
  by (rule bitset_core_laws.job_turns[OF assms(1) refl assms(2-8)])

theorem job_tasks_sent_witness:
  "\<exists>batches m'. tm_turns (demo_env demo_job) demo_dist (tm_after demo_job (demo_start demo_job)) 2 =
      Some (To_Sched (SR_NewJob 5 4 \<lparr>wj_args = [0], wj_data = []\<rparr>) # map (\<lambda>b. To_Sched (SR_Task b)) batches, m') \<and>
    concat batches = [\<lparr>wt_id = 0, wt_data = [0]\<rparr>, \<lparr>wt_id = 1, wt_data = [0]\<rparr>, \<lparr>wt_id = 2, wt_data = [1]\<rparr>, \<lparr>wt_id = 3, wt_data = [1]\<rparr>]"
proof -
  let ?m = "tm_after demo_job (demo_start demo_job)" and ?job = "\<lparr>jb_id = 5, jb_data = demo_job, jb_state = NotStarted\<rparr>"
  have m: "tm_ready ?m" "tm_need_process_job ?m" by code_simp+
  have cur: "tm_current_job ?m = Some ?job" by code_simp
  have st: "jb_state ?job = NotStarted" by simp
  have ok: "job_ok (jb_data ?job)" by code_simp
  have n: "task_count demo_job = 4" "4 div 128 + 2 = (2 :: nat)" by code_simp+
  have sent: "map (sent_task (\<lambda>t. demo_bytes (td_taxi t)) demo_job) [0..<4] =
    [\<lparr>wt_id = 0, wt_data = [0]\<rparr>, \<lparr>wt_id = 1, wt_data = [0]\<rparr>, \<lparr>wt_id = 2, wt_data = [1]\<rparr>, \<lparr>wt_id = 3, wt_data = [1]\<rparr>]" by code_simp
  have code: "en_job_code (demo_env demo_job) = []" "demo_bytes 0 = [0]" by (simp_all add: demo_env_def demo_bytes_def)
  from job_tasks_sent[OF demo_laws[of demo_job] demo_encode ok m cur st, where dist = demo_dist, unfolded job.simps n sent_batches_def sent]
  show ?thesis unfolding code by blast
qed

text \<open>C26. A job whose tasks are all answered completes: the turns of the loop, one for the start of the reduction and one for
  every 128 assignments, move it to the finished jobs with its least total distance and the statistics
  the scheduler has sent.\<close>

theorem job_completes:
  assumes laws: "bitset_core_laws (en_bits env)" and run: "tm_run env dist es outs m"
    and m: "tm_ready m" "tm_need_process_job m" "tm_current_job m = Some job"
    and st: "jb_state job = Started stats parts tasks WaitingTasksCompletions" "bs_is_empty tasks"
  shows "\<exists>v. tm_turns env dist m (taxi_count (jb_data job) ^ taxi_count (jb_data job) div 128 + 2) =
      Some ([], m\<lparr>tm_current_job := None, tm_jobs_finished := tm_jobs_finished m @ [job\<lparr>jb_state := Finished (Completed v stats)\<rparr>]\<rparr>) \<and>
    is_best (dist (jb_data job)) (taxi_count (jb_data job)) (taxi_count (jb_data job)) v"
  by (rule bitset_core_laws.complete_turns[OF laws refl event_loop.run_inv[OF task_manager_loop[OF laws] run] m st])

theorem job_completes_witness:
  "\<exists>v m'. tm_turns (demo_env demo_job) demo_dist (tm_after demo_job (demo_work demo_job)) 2 = Some ([], m') \<and>
     tm_jobs_finished m' = [\<lparr>jb_id = 5, jb_data = demo_job, jb_state = Finished (Completed v None)\<rparr>] \<and>
     is_best (demo_dist demo_job) 2 2 v"
proof -
  let ?m = "tm_after demo_job (demo_work demo_job)"
  obtain outs where run: "tm_run (demo_env demo_job) demo_dist (demo_work demo_job) outs ?m" using demo_work_run ..
  have m: "tm_ready ?m" "tm_need_process_job ?m" "tm_jobs_finished ?m = []" by code_simp+
  obtain job parts tasks where job: "tm_current_job ?m = Some job"
    and st: "jb_state job = Started None parts tasks WaitingTasksCompletions" "bs_is_empty tasks"
    and d: "jb_id job = 5" "jb_data job = demo_job" by (rule demo_waiting)
  have j: "job\<lparr>jb_state := s\<rparr> = \<lparr>jb_id = 5, jb_data = demo_job, jb_state = s\<rparr>" for s using d by (cases job) simp
  have t: "taxi_count demo_job = 2" "2 ^ 2 div 128 + 2 = (2 :: nat)" by code_simp+
  from job_completes[OF demo_laws run m(1,2) job st, unfolded d(2) t j m(3) append_Nil] show ?thesis by (fastforce simp del: tm_turns_Suc)
qed

text \<open>C30. A job is not lost with the connection: when the scheduler disconnects or turns busy while the tasks of the
  current job are being sent or awaited, what was collected is dropped, and once the scheduler is free the
  whole job is announced and sent again; a job that is being reduced goes on.\<close>

theorem job_restarts:
  assumes laws: "bitset_core_laws (en_bits env)" and enc: "\<And>t. en_encode_task env t = Some (enc t)" "en_encode_job env (jb_data job) = Some args"
    and run: "tm_run env dist es outs m" and m: "tm_current_job m = Some job" "jb_state job = Started stats parts tasks phase"
    and e: "e \<in> {TS_Disconnected, TS_Message SchedulerBusy}"
  shows "\<exists>out m1 m2. tm_exec env m (TV_Scheduler e) = Some (out, m1) \<and>
    tm_exec env m1 (TV_Scheduler (TS_Message SchedulerFree)) = Some ([], m2) \<and>
    (case phase of
       Reducing _ _ \<Rightarrow> tm_current_job m2 = Some job
     | _ \<Rightarrow> (\<exists>batches parts' tasks'. tm_turns env dist m2 (task_count (jb_data job) div 128 + 2) =
         Some (To_Sched (SR_NewJob (jb_id job) (task_count (jb_data job)) \<lparr>wj_args = args, wj_data = en_job_code env\<rparr>) #
             map (\<lambda>b. To_Sched (SR_Task b)) batches,
           m2\<lparr>tm_current_job := Some (job\<lparr>jb_state := Started None parts' tasks' WaitingTasksCompletions\<rparr>)\<rparr>) \<and>
         sent_batches enc (jb_data job) 0 batches \<and> bs_set tasks' = {..<task_count (jb_data job)}))"
proof -
  let ?fresh = "job\<lparr>jb_state := NotStarted\<rparr>"
  have "tm_inv dist m" by (rule event_loop.run_inv[OF task_manager_loop[OF laws] run])
  then have ok: "job_ok (jb_data ?fresh)" using m(1) by (simp add: tm_inv_def current_ok_def)
  have turns: "\<exists>batches parts' tasks'. tm_turns env dist m2 (task_count (jb_data job) div 128 + 2) =
         Some (To_Sched (SR_NewJob (jb_id job) (task_count (jb_data job)) \<lparr>wj_args = args, wj_data = en_job_code env\<rparr>) #
             map (\<lambda>b. To_Sched (SR_Task b)) batches,
           m2\<lparr>tm_current_job := Some (job\<lparr>jb_state := Started None parts' tasks' WaitingTasksCompletions\<rparr>)\<rparr>) \<and>
         sent_batches enc (jb_data job) 0 batches \<and> bs_set tasks' = {..<task_count (jb_data job)}"
    if "tm_ready m2" "tm_need_process_job m2" "tm_current_job m2 = Some ?fresh" for m2
    using bitset_core_laws.job_turns[OF laws refl enc(1) _ ok that, of args] enc(2) by simp
  obtain out where out: "tm_exec env m (TV_Scheduler e) = Some (out, restart_job (m\<lparr>tm_ready := False\<rparr>))"
    using e by (auto simp: tm_exec_def)
  let ?m2 = "restart_job (m\<lparr>tm_ready := False\<rparr>)\<lparr>tm_ready := True, tm_need_process_job := True\<rparr>"
  have "tm_exec env (restart_job (m\<lparr>tm_ready := False\<rparr>)) (TV_Scheduler (TS_Message SchedulerFree)) = Some ([], ?m2)"
    by (simp add: tm_exec_def)
  moreover have "case phase of Reducing _ _ \<Rightarrow> tm_current_job ?m2 = Some job | _ \<Rightarrow> tm_current_job ?m2 = Some ?fresh"
    using m by (simp add: restart_job_def split: job_phase.split)
  ultimately show ?thesis using out turns[of ?m2] by (auto split: job_phase.splits)
qed

theorem job_restarts_witness:
  "\<exists>out m1 m2 batches m3. tm_exec (demo_env demo_job) (tm_after demo_job (demo_work demo_job)) (TV_Scheduler TS_Disconnected) = Some (out, m1) \<and>
     tm_exec (demo_env demo_job) m1 (TV_Scheduler (TS_Message SchedulerFree)) = Some ([], m2) \<and>
     tm_turns (demo_env demo_job) demo_dist m2 2 =
       Some (To_Sched (SR_NewJob 5 4 \<lparr>wj_args = [0], wj_data = []\<rparr>) # map (\<lambda>b. To_Sched (SR_Task b)) batches, m3) \<and>
     sent_batches (\<lambda>t. demo_bytes (td_taxi t)) demo_job 0 batches"
proof -
  let ?m = "tm_after demo_job (demo_work demo_job)"
  obtain outs where run: "tm_run (demo_env demo_job) demo_dist (demo_work demo_job) outs ?m" using demo_work_run ..
  obtain job parts tasks where job: "tm_current_job ?m = Some job" and st: "jb_state job = Started None parts tasks WaitingTasksCompletions"
    and d: "jb_id job = 5" "jb_data job = demo_job" by (rule demo_waiting)
  have n: "task_count demo_job = 4" "4 div 128 + 2 = (2 :: nat)" by code_simp+
  have code: "en_job_code (demo_env demo_job) = []" "demo_bytes 0 = [0]" by (simp_all add: demo_env_def demo_bytes_def)
  have e: "TS_Disconnected \<in> {TS_Disconnected, TS_Message SchedulerBusy}" by simp
  from job_restarts[OF demo_laws demo_encode run job st e, unfolded d n code job_phase.case] show ?thesis by blast
qed

text \<open>C23. The splitter covers the work of a job exactly once: for a job that fits it yields as many tasks as announced, numbered
  from 0 on, every task with a combination of passengers and its complement, and every combination of passengers of every
  taxi is in exactly one task.\<close>

theorem splitter_covers:
  assumes "job_fits taxies passengers" "unat (total_tasks (splitter_new taxies passengers)) < n"
  shows "\<exists>tasks s. splitter_chunk n (splitter_new taxies passengers) = Some (Inl tasks, s) \<and>
    length tasks = unat (total_tasks (splitter_new taxies passengers)) \<and> map fst tasks = [0..<length tasks] \<and>
    (\<forall>(i, t) \<in> set tasks. fst (td_combinations t) XOR snd (td_combinations t) = 2 ^ passengers - 1) \<and>
    (\<forall>x < taxies. \<forall>c < 2 ^ passengers. \<exists>!i. i < length tasks \<and> td_taxi (snd (tasks ! i)) = x \<and>
       (of_nat c = fst (td_combinations (snd (tasks ! i))) \<or> of_nat c = snd (td_combinations (snd (tasks ! i)))))"
proof -
  have p: "0 < passengers" "passengers < 128" using assms(1) by (auto simp: job_fits_def)
  note new = splitter_new_at[OF p] and total = total_tasks_at[OF assms(1)]
  let ?N = "taxies * half passengers"
  let ?tasks = "map (task_of passengers) [0..<?N]"
  have "splitter_chunk n (splitter_new taxies passengers) = Some (Inl ?tasks, splitter_at taxies passengers ?N)"
    using splitter_chunk_spec[OF assms(1), of 0 n] assms(2) by (simp add: new total)
  moreover have "map fst ?tasks = [0..<length ?tasks]" by (simp add: task_of_def Let_def comp_def)
  moreover have "\<forall>(i, t) \<in> set ?tasks. fst (td_combinations t) XOR snd (td_combinations t) = 2 ^ passengers - 1"
    using xor.left_commute[where 'a = u128] by (auto simp: task_of_def Let_def)
  moreover have "\<exists>!i. i < length ?tasks \<and> td_taxi (snd (?tasks ! i)) = x \<and>
      (of_nat c = fst (td_combinations (snd (?tasks ! i))) \<or> of_nat c = snd (td_combinations (snd (?tasks ! i))))"
    if "x < taxies" "c < 2 ^ passengers" for x c
    using combination_task[OF assms(1) that] by (simp cong: conj_cong)
  ultimately show ?thesis by (auto simp: new total)
qed

theorem splitter_covers_witness:
  "\<exists>tasks s. splitter_chunk 9 (splitter_new 2 3) = Some (Inl tasks, s) \<and> length tasks = 8 \<and>
     (\<exists>!i. i < 8 \<and> td_taxi (snd (tasks ! i)) = 1 \<and>
        (of_nat 5 = fst (td_combinations (snd (tasks ! i))) \<or> of_nat 5 = snd (td_combinations (snd (tasks ! i)))))"
proof -
  have fits: "job_fits 2 3" and total: "unat (total_tasks (splitter_new 2 3)) = 8" by code_simp+
  from total have "unat (total_tasks (splitter_new 2 3)) < 9" by simp
  from splitter_covers[OF fits this, unfolded total] obtain tasks s where t: "splitter_chunk 9 (splitter_new 2 3) = Some (Inl tasks, s)"
    "length tasks = 8" "\<forall>x < 2. \<forall>c < 2 ^ 3. \<exists>!i. i < length tasks \<and> td_taxi (snd (tasks ! i)) = x \<and>
       (of_nat c = fst (td_combinations (snd (tasks ! i))) \<or> of_nat c = snd (td_combinations (snd (tasks ! i))))" by blast
  have "(1 :: nat) < 2" "(5 :: nat) < 2 ^ 3" by simp_all
  then show ?thesis using t(1,2) t(3)[rule_format, of 1 5] by metis
qed

text \<open>The reducer enumerates every assignment once and sums the stored distances: if for each taxi the distance of every
  combination of the passengers is stored, it yields as many sums as there are assignments, without a panic,
  and their minimum is the least total distance.\<close>

lemma reducer_minimum:
  assumes "bitset_core_laws B" "parts_complete dist taxies p parts" "passengers \<le> p" "passengers < 128" "0 < taxies" "taxies < 2 ^ 64"
    "taxies ^ passengers < 2 ^ 128"
  shows "\<exists>ds r. next_chunk (reducer_next B) (Suc (taxies ^ passengers)) (reducer_new taxies passengers parts) = Some (Inl ds, r) \<and>
    length ds = taxies ^ passengers \<and> is_best dist taxies passengers (keep_min ds (- 1))"
proof -
  have "passengers < 2 ^ 32" using assms(4) by simp
  then have new: "reducer_new taxies passengers parts = reducer_at taxies passengers parts (taxies ^ passengers)" by (rule reducer_new_at)
  show ?thesis
    using bitset_core_laws.reducer_chunk_spec[OF assms(1-6,7), of "Suc (taxies ^ passengers)"] best_of_all[OF assms(5), of dist passengers]
    by (simp add: new)
qed

text \<open>The result of a job with more passengers than taxis ignores the passengers that are too many: the two passengers of this
  job have to share its only taxi, which the workers have computed to be a distance of 30, but the result is the distance
  10 for the first passenger alone.\<close>

definition crowded_job :: job_data where
  "crowded_job = \<lparr>jd_graph = [[0, 1], [1, 0]], jd_taxies = [0], jd_passengers = [(0, 1), (1, 0)]\<rparr>"

lemma passengers_ignored:
  "\<exists>outs. tm_run (demo_env crowded_job) demo_dist (demo_work crowded_job @ [TV_Job, TV_Job]) outs
       (tm_after crowded_job (demo_work crowded_job @ [TV_Job, TV_Job])) \<and>
     map jb_state (tm_jobs_finished (tm_after crowded_job (demo_work crowded_job @ [TV_Job, TV_Job]))) = [Finished (Completed 10 None)] \<and>
     total_distance (demo_dist crowded_job) 1 2 (\<lambda>_. 0) = 30"
proof -
  have "riders 2 (\<lambda>_. 0) 0 = {0, 1}" by (auto simp: riders_def)
  then have "total_distance (demo_dist crowded_job) 1 2 (\<lambda>_. 0) = 30"
    by (simp add: total_distance_def combination_of_def demo_dist_def)
  moreover have "map jb_state (tm_jobs_finished (tm_after crowded_job (demo_work crowded_job @ [TV_Job, TV_Job]))) =
    [Finished (Completed 10 None)]" by code_simp
  moreover have "\<exists>outs. tm_run (demo_env crowded_job) demo_dist (demo_work crowded_job @ [TV_Job, TV_Job]) outs
       (tm_after crowded_job (demo_work crowded_job @ [TV_Job, TV_Job]))" by (rule tm_after_run) code_simp
  ultimately show ?thesis by simp
qed

text \<open>Without passengers no task is announced, but one is sent for every taxi.\<close>

lemma no_passengers:
  "total_tasks (splitter_new 1 0) = 0 \<and>
   (\<exists>s. splitter_chunk 2 (splitter_new 1 0) = Some (Inl [(0, \<lparr>td_taxi = 0, td_combinations = (0, 0)\<rparr>)], s))"
proof -
  have "(1 :: u128) div 2 = 0" by code_simp
  moreover have "usize_add 0 (Suc 0) = 1" by (simp add: usize_max_def)
  ultimately show ?thesis
    by (simp add: total_tasks_def splitter_new_def wrap_def splitter_chunk_def splitter_next_def numeral_2_eq_2 Let_def)
qed

end
