(* ===== verification/Grid_Results.thy ===== *)
theory Grid_Results
  imports Worker_Job Task_Manager_Runs
begin

text \<open>
  The task manager together with the code that its workers run: the distances that a worker computes for a task are the
  right answers of \<open>Task_Manager_Invariants\<close>, and with these answers the result of a job is the least distance that its
  taxis have to drive together.
\<close>

section \<open>The answers of the workers\<close>

text \<open>The distance that the code of a worker computes for a taxi and a combination of passengers.\<close>

definition worker_distance :: "bitset_core \<Rightarrow> answers" where
  "worker_distance B d x c =
     (case reduce_graph B d of
        Some d' \<Rightarrow> (case combination_distance B d' x (of_nat c) of Some r \<Rightarrow> snd r | None \<Rightarrow> 0)
      | None \<Rightarrow> 0)"

lemma bits_subset: "c < 2 ^ p \<Longrightarrow> {i. bit c i} \<subseteq> {..<p}" for c :: nat
proof -
  assume "c < 2 ^ p"
  then have "take_bit p c = c" by (rule take_bit_nat_eq_self)
  then show ?thesis by (metis (no_types, lifting) bit_take_bit_iff lessThan_iff mem_Collect_eq subsetI)
qed

lemma bits_of_nat: "c < 2 ^ 128 \<Longrightarrow> {i. bit (of_nat c :: u128) i} = {i. bit c i}" for c :: nat
  using bits_subset[of c 128] by (auto simp: bit_of_nat_iff)

lemma task_combinations:
  assumes "job_ok d" "i < task_count d"
  obtains c1 c2 where "td_combinations (task_at d i) = (of_nat c1, of_nat c2)" "c1 < 2 ^ passenger_count d" "c2 < 2 ^ passenger_count d"
    "c1 < 2 ^ 128" "c2 < 2 ^ 128" "td_taxi (task_at d i) < taxi_count d"
proof -
  note J = job_okD[OF assms(1)]
  let ?h = "half (passenger_count d)"
  have h: "i mod ?h < ?h" "2 * ?h = 2 ^ passenger_count d" "2 * ?h < 2 ^ 128"
    using half_pos[of "passenger_count d"] half_double[OF J(4)] half_bound[OF J(4,5)] by auto
  have b: "?h + i mod ?h < 2 ^ passenger_count d" "?h - 1 - i mod ?h < 2 ^ passenger_count d" using h(1,2) by linarith+
  then have "?h + i mod ?h < 2 ^ 128" "?h - 1 - i mod ?h < 2 ^ 128" using h(2,3) by linarith+
  moreover have "td_taxi (task_at d i) < taxi_count d"
    using assms(2) by (simp add: task_of_def Let_def task_count_def div_less_iff_less_mult mult.commute)
  ultimately show ?thesis using that[OF task_of_combinations[OF J(4,5), of i] b] by blast
qed

text \<open>The answers of the workers are the best rides.\<close>

lemma worker_distance_best:
  assumes "bitset_core_laws B" "job_served K d" "x < taxi_count d" "c < 2 ^ passenger_count d"
  shows "is_best_ride d x {i. bit c i} (unat (worker_distance B d x c))"
    "\<exists>d'. reduce_graph B d = Some d' \<and> combination_distance B d' x (of_nat c) = Some (of_nat c, worker_distance B d x c)"
proof -
  have d: "validate d" "graph_fits K (jd_graph d)" "passenger_count d < 127" using assms(2) by (auto simp: job_served_def)
  from reduce_graph_spec[OF assms(1) d(1,2)] obtain g where
    g: "reduce_graph B d = Some (d\<lparr>jd_graph := g\<rparr>)" "graph_fits K g" "length g = length (jd_graph d)"
    "\<forall>u \<in> job_vertices d. \<forall>v < length g. shortest (jd_graph d) u v (g ! u ! v)" by blast
  have "(2 :: nat) ^ passenger_count d < 2 ^ 128" by (rule power_strict_increasing) (use d(3) in simp_all)
  note bits = bits_of_nat[OF order.strict_trans[OF assms(4) this]]
  obtain m where "combination_distance B (d\<lparr>jd_graph := g\<rparr>) x (of_nat c) = Some (of_nat c, m)" "is_best_ride d x {i. bit c i} (unat m)"
    using bitset_core_laws.combination_distance_spec[OF assms(1,2) g(2-4) assms(3), of "of_nat c"] bits_subset[OF assms(4)] unfolding bits by blast
  then show "is_best_ride d x {i. bit c i} (unat (worker_distance B d x c))"
    "\<exists>d'. reduce_graph B d = Some d' \<and> combination_distance B d' x (of_nat c) = Some (of_nat c, worker_distance B d x c)"
    using g(1) by (simp_all add: worker_distance_def)
qed

section \<open>Total distances\<close>

lemma ride_cost_bound:
  assumes d: "job_served K d"
  shows "set is \<subseteq> {..<passenger_count d} \<Longrightarrow> pos \<in> job_vertices d \<Longrightarrow>
    ride_cost (jd_graph d) (jd_passengers d) pos is \<le> length is * (2 * K)"
proof (induction "is" arbitrary: pos)
  case (Cons i "is")
  let ?p = "jd_passengers d ! i"
  have "distance_of (jd_graph d) u v \<le> K" if uv: "u \<in> job_vertices d" "v \<in> job_vertices d" for u v
  proof -
    obtain c where "walk (jd_graph d) u v c" using d uv unfolding job_served_def job_connected_def by blast
    then obtain c' where "c' \<le> K" "walk (jd_graph d) u v c'" using d unfolding job_served_def graph_fits_def by blast
    then show ?thesis unfolding distance_of_def by (meson Least_le order.trans)
  qed
  moreover have "fst ?p \<in> job_vertices d" "snd ?p \<in> job_vertices d" using Cons.prems(1) by (auto simp: job_vertices_def intro!: imageI nth_mem)
  ultimately have "distance_of (jd_graph d) pos (fst ?p) \<le> K" "distance_of (jd_graph d) (fst ?p) (snd ?p) \<le> K"
    "ride_cost (jd_graph d) (jd_passengers d) (snd ?p) is \<le> length is * (2 * K)" using Cons by auto
  then show ?case by simp
qed simp

lemma unat_sum_list:
  fixes ws :: "distance list"
  shows "sum_list (map unat ws) < 2 ^ 64 \<Longrightarrow> unat (sum_list ws) = sum_list (map unat ws)"
proof (induction ws)
  case (Cons w ws)
  then have "unat (sum_list ws) = sum_list (map unat ws)" by simp
  then show ?case using Cons.prems by (simp add: unat_word_ariths)
qed simp

text \<open>The distance that all taxis drive if the passenger \<open>i\<close> gets the taxi \<open>f i\<close> and the taxi \<open>x\<close> takes its passengers in the order \<open>ord x\<close>.\<close>

definition fleet_cost :: "job_data \<Rightarrow> (nat \<Rightarrow> nat list) \<Rightarrow> nat" where
  "fleet_cost d ord = (\<Sum>x < taxi_count d. ride_cost (jd_graph d) (jd_passengers d) (jd_taxies d ! x) (ord x))"

definition fleet_plan :: "job_data \<Rightarrow> nat \<Rightarrow> (nat \<Rightarrow> nat) \<Rightarrow> (nat \<Rightarrow> nat list) \<Rightarrow> bool" where
  "fleet_plan d P f ord \<longleftrightarrow> (\<forall>i < P. f i < taxi_count d) \<and> (\<forall>x < taxi_count d. distinct (ord x) \<and> set (ord x) = riders P f x)"

lemma best_ride_bound:
  assumes d: "job_served K d" and x: "x < taxi_count d" and R: "R \<subseteq> {..<passenger_count d}" and best: "is_best_ride d x R m"
  shows "m \<le> 127 * 2 ^ 32"
proof -
  obtain "is" where "is": "distinct is" "set is = R" "m = ride_cost (jd_graph d) (jd_passengers d) (jd_taxies d ! x) is"
    using best by (auto simp: is_best_ride_def)
  have "length is = card R" using "is"(1,2) distinct_card by force
  also have "\<dots> \<le> passenger_count d" using card_mono[OF _ R] by simp
  finally have "length is \<le> 127" using d by (simp add: job_served_def)
  moreover have "2 * K \<le> 2 ^ 32" using d by (simp add: job_served_def graph_fits_def)
  moreover have "m \<le> length is * (2 * K)" using ride_cost_bound[OF d, of "is"] "is"(2,3) R x by (simp add: job_vertices_def)
  ultimately show ?thesis using mult_le_mono[of "length is" 127 "2 * K" "2 ^ 32"] by linarith
qed

lemma total_distance_rides:
  assumes laws: "bitset_core_laws B" and d: "job_served K d" and few: "taxi_count d \<le> passenger_count d"
  shows "unat (total_distance (worker_distance B d) (taxi_count d) (taxi_count d) f) =
      (\<Sum>x < taxi_count d. unat (worker_distance B d x (combination_of (riders (taxi_count d) f x))))"
    "x < taxi_count d \<Longrightarrow> is_best_ride d x (riders (taxi_count d) f x) (unat (worker_distance B d x (combination_of (riders (taxi_count d) f x))))"
proof -
  let ?T = "taxi_count d"
  let ?R = "riders ?T f" and ?w = "\<lambda>x. worker_distance B d x (combination_of (riders (taxi_count d) f x))"
  have best: "is_best_ride d x (?R x) (unat (?w x))" if "x < ?T" for x
  proof -
    have "combination_of (?R x) < 2 ^ ?T" by (rule combination_of_less[OF riders_subset])
    also have "\<dots> \<le> 2 ^ passenger_count d" using few by (simp add: power_increasing)
    finally have "is_best_ride d x {i. bit (combination_of (?R x)) i} (unat (?w x))" by (rule worker_distance_best(1)[OF laws d that])
    then show ?thesis using bit_combination_of[OF finite_riders] by simp
  qed
  then show "x < ?T \<Longrightarrow> is_best_ride d x (?R x) (unat (?w x))" .
  have R: "?R x \<subseteq> {..<passenger_count d}" for x using riders_subset[of ?T f x] few by auto
  have le: "unat (?w x) \<le> 127 * 2 ^ 32" if "x < ?T" for x by (rule best_ride_bound[OF d that R best[OF that]])
  have none: "unat (?w x) = 0" if "x < ?T" "?R x = {}" for x using best[OF that(1)] that(2) by (auto simp: is_best_ride_def)
  let ?xs = "filter (\<lambda>x. ?R x \<noteq> {}) [0..<?T]"
  have "sum_list (map unat (map ?w ?xs)) = (\<Sum>x \<in> set ?xs. unat (?w x))"
    using sum.distinct_set_conv_list[of ?xs "\<lambda>x. unat (?w x)"] by (simp add: comp_def)
  also have "\<dots> = (\<Sum>x < ?T. unat (?w x))"
  proof (rule sum.mono_neutral_left)
    show "\<forall>x \<in> {..<?T} - set ?xs. unat (?w x) = 0"
    proof
      fix x assume "x \<in> {..<?T} - set ?xs"
      then have "x < ?T" "?R x = {}" by (simp_all add: set_upt)
      then show "unat (?w x) = 0" by (rule none)
    qed
  qed auto
  finally have sum: "sum_list (map unat (map ?w ?xs)) = (\<Sum>x < ?T. unat (?w x))" .
  have "(\<Sum>x < ?T. unat (?w x)) \<le> ?T * (127 * 2 ^ 32)" using sum_bounded_above[of "{..<?T}" "\<lambda>x. unat (?w x)" "127 * 2 ^ 32"] le by simp
  also have "\<dots> \<le> 127 * (127 * 2 ^ 32)" using few d by (intro mult_le_mono1) (simp add: job_served_def)
  finally have "sum_list (map unat (map ?w ?xs)) < 2 ^ 64" unfolding sum by simp
  from unat_sum_list[OF this] sum show "unat (total_distance (worker_distance B d) ?T ?T f) = (\<Sum>x < ?T. unat (?w x))"
    by (simp add: total_distance_def)
qed

lemma best_fleet:
  assumes laws: "bitset_core_laws B" and d: "job_served K d" and few: "taxi_count d \<le> passenger_count d"
    and best: "is_best (worker_distance B d) (taxi_count d) (taxi_count d) v"
  shows "(\<exists>f ord. fleet_plan d (taxi_count d) f ord \<and> unat v = fleet_cost d ord) \<and>
    (\<forall>f ord. fleet_plan d (taxi_count d) f ord \<longrightarrow> unat v \<le> fleet_cost d ord)"
proof (intro conjI allI impI)
  let ?T = "taxi_count d"
  note total = total_distance_rides[OF laws d few]
  obtain f where f: "\<forall>i < ?T. f i < ?T" "v = total_distance (worker_distance B d) ?T ?T f" using best by (auto simp: is_best_def)
  let ?w = "\<lambda>x. unat (worker_distance B d x (combination_of (riders (taxi_count d) f x)))"
  have "\<forall>x. \<exists>is. x < ?T \<longrightarrow> distinct is \<and> set is = riders ?T f x \<and> ?w x = ride_cost (jd_graph d) (jd_passengers d) (jd_taxies d ! x) is"
    using total(2)[of _ f] unfolding is_best_ride_def by metis
  then obtain ord where ord: "\<And>x. x < ?T \<Longrightarrow> distinct (ord x) \<and> set (ord x) = riders ?T f x \<and> ?w x = ride_cost (jd_graph d) (jd_passengers d) (jd_taxies d ! x) (ord x)"
    by metis
  then have "fleet_plan d ?T f ord" "unat v = fleet_cost d ord" using f total(1)[of f] by (auto simp: fleet_plan_def fleet_cost_def)
  then show "\<exists>f ord. fleet_plan d ?T f ord \<and> unat v = fleet_cost d ord" by blast
next
  let ?T = "taxi_count d"
  fix f ord assume plan: "fleet_plan d ?T f ord"
  note total = total_distance_rides[OF laws d few]
  have "v \<le> total_distance (worker_distance B d) ?T ?T f" using best plan by (auto simp: is_best_def fleet_plan_def)
  then have "unat v \<le> (\<Sum>x < ?T. unat (worker_distance B d x (combination_of (riders ?T f x))))" using total(1)[of f] by (simp add: word_le_nat_alt)
  also have "\<dots> \<le> fleet_cost d ord" unfolding fleet_cost_def
    using total(2)[of _ f] plan by (intro sum_mono) (auto simp: is_best_ride_def fleet_plan_def)
  finally show "unat v \<le> fleet_cost d ord" .
qed

section \<open>A concrete grid\<close>

text \<open>A taxi and a passenger: the taxi drives from 2 over 1 to 0 and takes the passenger to 1. The only task and its result are serialised
  as a single byte.\<close>

definition lone_job :: job_data where
  "lone_job = \<lparr>jd_graph = [[0, 1, 5], [1, 0, 1], [5, 1, 0]], jd_taxies = [2], jd_passengers = [(0, 1)]\<rparr>"

definition lone_codec :: job_codec where
  "lone_codec = \<lparr>jc_decode_job = (\<lambda>_. Inr lone_job), jc_decode_task = (\<lambda>_. Inr (task_at lone_job 0)),
     jc_encode_result = (\<lambda>r. Inr [ucast (snd (fst (tr_result r)))])\<rparr>"

text \<open>The distances of this job, computed once.\<close>

definition lone_rides :: answers where
  "lone_rides d x c = (if d = lone_job \<and> x = 0 \<and> c < 2 then [0, 3] ! c else worker_distance words_core d x c)"

lemma lone_rides_eq: "lone_rides = worker_distance words_core"
proof -
  let ?d = "lone_job\<lparr>jd_graph := [[0, 1, 2], [1, 0, 1], [2, 1, 0]]\<rparr>"
  have red: "reduce_graph words_core lone_job = Some ?d" by code_simp
  have "map_option snd (combination_distance words_core ?d 0 (of_nat 0)) = Some 0" by code_simp
  moreover have "map_option snd (combination_distance words_core ?d 0 (of_nat 1)) = Some 3" by code_simp
  ultimately have "worker_distance words_core lone_job 0 0 = 0" "worker_distance words_core lone_job 0 1 = 3"
    by (auto simp: worker_distance_def red)
  then have "lone_rides lone_job 0 c = worker_distance words_core lone_job 0 c" for c by (cases c) (auto simp: lone_rides_def less_Suc_eq)
  then show ?thesis by (intro ext) (metis lone_rides_def)
qed

definition grid_env :: tm_env where
  "grid_env = (demo_env lone_job)\<lparr>en_decode_result := (\<lambda>_. Inr (answer_of lone_rides lone_job 0))\<rparr>"

definition grid_after :: "tm_event list \<Rightarrow> (tm_output list \<times> task_manager) option" where
  "grid_after = exec_events (tm_orderly grid_env lone_rides) (tm_exec grid_env) task_manager_new"

lemma lone_served: "job_served 5 lone_job"
proof -
  have g: "complete_graph 5 (jd_graph lone_job)" by (simp add: complete_graph_def lone_job_def)
  have val: "validate lone_job" by code_simp
  then have "u < length (jd_graph lone_job)" if "u \<in> job_vertices lone_job" for u
    using that by (auto simp: validate_iff job_vertices_def)
  then have "job_connected lone_job" using complete_graph_walk(3)[OF g] unfolding job_connected_def by blast
  then show ?thesis using complete_graph_fits[OF g] val by (simp add: job_served_def lone_job_def)
qed

section \<open>Properties\<close>

text \<open>C14. The code of the workers computes the right answers: for every task of a job it serves, it returns the serialisation of the
  answer that the task manager assumes, the distances being, for both combinations of passengers, the least distance in which the
  taxi can take these passengers one after the other, along shortest paths and in the best order. It
  does not panic and its loops end.\<close>

theorem worker_answers:
  assumes laws: "bitset_core_laws B" and d: "job_served K d" "job_ok d" and i: "i < task_count d"
    and dec: "jc_decode_job codec job_bytes = Inr d" "jc_decode_task codec task_bytes = Inr (task_at d i)"
  shows "job_run B codec job_bytes task_bytes = Some (jc_encode_result codec (answer_of (worker_distance B) d i)) \<and>
    (\<forall>c \<in> {fst (td_combinations (task_at d i)), snd (td_combinations (task_at d i))}.
       is_best_ride d (td_taxi (task_at d i)) {j. bit c j} (unat (worker_distance B d (td_taxi (task_at d i)) (unat c))))"
proof -
  let ?x = "td_taxi (task_at d i)"
  obtain c1 c2 where c: "td_combinations (task_at d i) = (of_nat c1, of_nat c2)" "c1 < 2 ^ passenger_count d" "c2 < 2 ^ passenger_count d"
    "c1 < 2 ^ 128" "c2 < 2 ^ 128" "?x < taxi_count d" by (rule task_combinations[OF d(2) i])
  have u: "unat (of_nat c1 :: u128) = c1" "unat (of_nat c2 :: u128) = c2" using c(4,5) by (simp_all add: unat_of_nat)
  note W1 = worker_distance_best[OF laws d(1) c(6,2)] and W2 = worker_distance_best[OF laws d(1) c(6,3)]
  have "job_run B codec job_bytes task_bytes = Some (jc_encode_result codec (answer_of (worker_distance B) d i))"
    using W1(2) W2(2) dec by (auto simp: job_run_def c(1) u answer_of_def Let_def)
  then show ?thesis using W1(1) W2(1) by (simp add: c(1) u bits_of_nat[OF c(4)] bits_of_nat[OF c(5)])
qed

theorem worker_answers_witness:
  "job_run words_core lone_codec [] [] = Some (Inr [3]) \<and> is_best_ride lone_job 0 {0} 3"
proof -
  have ok: "job_ok lone_job" and i: "0 < task_count lone_job" by code_simp+
  have dec: "jc_decode_job lone_codec [] = Inr lone_job" "jc_decode_task lone_codec [] = Inr (task_at lone_job 0)"
    by (simp_all add: lone_codec_def)
  have task: "td_taxi (task_at lone_job 0) = 0" "td_combinations (task_at lone_job 0) = (1, 0)" by code_simp+
  have "jc_encode_result lone_codec (answer_of lone_rides lone_job 0) = Inr [3]" by code_simp
  moreover have "lone_rides lone_job 0 1 = 3" by (simp add: lone_rides_def)
  moreover have "{j. bit (1 :: u128) j} = {0}" by (auto simp: bit_1_iff)
  ultimately show ?thesis using worker_answers[OF words.bitset_core_laws_axioms lone_served ok i dec]
    unfolding lone_rides_eq[symmetric] task by simp
qed

text \<open>C13. The grid finds the best plan: after every run of orderly events in which the results are those the workers compute, a job
  that is finished as completed has the least distance that the taxis drive together, over all assignments of the first
  passengers, as many as taxis, to the taxis and all orders in which a taxi takes its passengers; some plan attains it,
  and no sum overflows.\<close>

theorem grid_result_best:
  assumes "bitset_core_laws (en_bits env)" "tm_run env (worker_distance (en_bits env)) es outs m" "job \<in> set (tm_jobs_finished m)"
    "jb_state job = Finished (Completed v stats)" "job_served K (jb_data job)" "taxi_count (jb_data job) \<le> passenger_count (jb_data job)"
  shows "(\<exists>f ord. fleet_plan (jb_data job) (taxi_count (jb_data job)) f ord \<and> unat v = fleet_cost (jb_data job) ord) \<and>
    (\<forall>f ord. fleet_plan (jb_data job) (taxi_count (jb_data job)) f ord \<longrightarrow> unat v \<le> fleet_cost (jb_data job) ord)"
proof -
  have "is_best (worker_distance (en_bits env) (jb_data job)) (taxi_count (jb_data job)) (taxi_count (jb_data job)) v"
    using event_loop.run_inv[OF task_manager_loop[OF assms(1)] assms(2)] assms(3,4) by (auto simp: tm_inv_def finished_ok_def)
  from best_fleet[OF assms(1,5,6) this] show ?thesis .
qed

theorem grid_result_best_witness:
  "\<exists>outs m. grid_after (demo_work lone_job @ [TV_Job, TV_Job]) = Some (outs, m) \<and>
     tm_jobs_finished m = [\<lparr>jb_id = 5, jb_data = lone_job, jb_state = Finished (Completed 3 None)\<rparr>] \<and>
     (\<exists>f ord. fleet_plan lone_job 1 f ord \<and> fleet_cost lone_job ord = 3) \<and>
     (\<forall>f ord. fleet_plan lone_job 1 f ord \<longrightarrow> 3 \<le> fleet_cost lone_job ord)"
proof -
  let ?es = "demo_work lone_job @ [TV_Job, TV_Job]" and ?job = "\<lparr>jb_id = 5, jb_data = lone_job, jb_state = Finished (Completed 3 None)\<rparr>"
  have "(case grid_after ?es of Some (outs, m) \<Rightarrow> tm_jobs_finished m = [?job] | None \<Rightarrow> False)" by code_simp
  then obtain outs m where g: "grid_after ?es = Some (outs, m)" "tm_jobs_finished m = [?job]" by (auto split: option.splits)
  have bits: "en_bits grid_env = words_core" by (simp add: grid_env_def demo_env_def)
  have run: "tm_run grid_env (worker_distance (en_bits grid_env)) ?es outs m"
    using exec_events_run[OF event_run.run_init g(1)[unfolded grid_after_def lone_rides_eq]] by (simp add: bits)
  have n: "taxi_count lone_job = 1" "passenger_count lone_job = 1" by code_simp+
  have laws: "bitset_core_laws (en_bits grid_env)" unfolding bits by (rule words.bitset_core_laws_axioms)
  have "?job \<in> set (tm_jobs_finished m)" "jb_state ?job = Finished (Completed 3 None)" "job_served 5 (jb_data ?job)"
    "taxi_count (jb_data ?job) \<le> passenger_count (jb_data ?job)" using g(2) lone_served n by simp_all
  from grid_result_best[OF laws run this] g n show ?thesis by (auto simp: eq_commute[of 3])
qed

text \<open>A valid job whose passenger is on another component of the graph than the taxi.\<close>

definition stranded_job :: job_data where
  "stranded_job = \<lparr>jd_graph = [[0, - 1, - 1], [- 1, 0, 1], [- 1, 1, 0]], jd_taxies = [0], jd_passengers = [(1, 2)]\<rparr>"

text \<open>A passenger whom no taxi can reach costs nothing: the distance \<open>u32::MAX\<close> of no path is added to the distance of the ride, and
  the sum wraps around. The job is valid, there is no walk to the passenger, and the worker returns the distance 0.\<close>

lemma unreachable_is_free:
  "validate stranded_job \<and> (\<nexists>c. walk (jd_graph stranded_job) 0 1 c) \<and>
   (\<exists>d. reduce_graph words_core stranded_job = Some d \<and> combination_distance words_core d 0 1 = Some (1, 0))"
proof (intro conjI)
  show "validate stranded_job" by code_simp
  have "v = 0" if "walk (jd_graph stranded_job) 0 v c" for v c
    using that
  proof (induction rule: walk.induct)
    case (walk_edge v c x)
    then have "x = 0 \<or> x = 1 \<or> x = 2" by (auto simp: stranded_job_def)
    then show ?case using walk_edge by (auto simp: stranded_job_def)
  qed simp
  then show "\<nexists>c. walk (jd_graph stranded_job) 0 1 c" by (metis zero_neq_one)
  have "reduce_graph words_core stranded_job = Some stranded_job" by code_simp
  moreover have "combination_distance words_core stranded_job 0 1 = Some (1, 0)" by code_simp
  ultimately show "\<exists>d. reduce_graph words_core stranded_job = Some d \<and> combination_distance words_core d 0 1 = Some (1, 0)" by blast
qed

end
