(* ===== verification/Worker_Pool.thy ===== *)
theory Worker_Pool
  imports Messages Event_Loops
begin

text \<open>
  What the two workers of a node share (\<open>node/src/worker.rs\<close>, \<open>node/src/dll/dll_worker.rs\<close>,
  \<open>node/src/wasm/wasm_worker.rs\<close>): a stack of free executors, the assignment of tasks to executors,
  the answer made from the result of an executor, and the trait \<open>Worker\<close> as a record of
  operations with the locale \<open>node_worker\<close> of what the node relies on.
\<close>

declare split_paired_All [simp del] split_paired_Ex [simp del]

type_synonym executor_id = nat
type_synonym job_key = "uuid \<times> task_id"

definition key_of_job :: "executor_job \<Rightarrow> job_key" where
  "key_of_job j = (ej_job_id j, ej_task_id j)"

definition key_of_result :: "executor_result \<Rightarrow> job_key" where
  "key_of_result r = (er_job_id r, er_task_id r)"

text \<open>The answer of \<open>process_message\<close> to the result of an executor.\<close>

definition worker_answer :: "executor_result \<Rightarrow> worker_response" where
  "worker_answer r =
     (case er_result r of
        Inr data \<Rightarrow> Result \<lparr>wr_id = er_task_id r, wr_execution_time = er_execution_time r, wr_data = data\<rparr>
      | Inl error \<Rightarrow> Error (TaskExecutionError (er_task_id r) error))"

text \<open>The error of a request whose job is not cached.\<close>

definition library_missing :: "worker_request \<Rightarrow> worker_error" where
  "library_missing rq =
     LibraryMissing (map wt_id (rq_tasks rq)) (map (\<lambda>(id, task). (id, wt_id task)) (rq_replacements rq))"

text \<open>The keys of the tasks that a request brings.\<close>

definition new_tasks :: "worker_request \<Rightarrow> worker_task list" where
  "new_tasks rq = map snd (rq_replacements rq) @ rq_tasks rq"

definition task_keys :: "uuid \<Rightarrow> worker_task list \<Rightarrow> job_key set" where
  "task_keys job ts = (\<lambda>t. (job, wt_id t)) ` set ts"

definition new_keys :: "worker_request \<Rightarrow> job_key set" where
  "new_keys rq = task_keys (rq_job rq) (new_tasks rq)"

lemma task_keys_simps [simp]:
  "task_keys job [] = {}"
  "task_keys job (t # ts) = insert (job, wt_id t) (task_keys job ts)"
  "task_keys job (ts @ us) = task_keys job ts \<union> task_keys job us"
  by (auto simp: task_keys_def)

lemma task_keys_iff: "(job', i) \<in> task_keys job ts \<longleftrightarrow> job' = job \<and> i \<in> wt_id ` set ts"
  by (auto simp: task_keys_def)

lemma task_keys_disjoint:
  "wt_id ` set ts \<inter> wt_id ` set us = {} \<Longrightarrow> task_keys job ts \<inter> task_keys job us = {}"
  unfolding task_keys_def by blast

lemma task_keys_take_drop: "task_keys job ts = task_keys job (take n ts) \<union> task_keys job (drop n ts)"
  by (metis append_take_drop_id task_keys_simps(3))

text \<open>Requests name each of their tasks once, and no task that the worker already has.\<close>

definition fresh_request :: "job_key set \<Rightarrow> worker_request \<Rightarrow> bool" where
  "fresh_request held rq \<longleftrightarrow> distinct (map wt_id (new_tasks rq)) \<and> new_keys rq \<inter> held = {}"

text \<open>The task a response is about.\<close>

fun answered :: "worker_response \<Rightarrow> task_id set" where
  "answered (Result r) = {wr_id r}"
| "answered (Error (TaskExecutionError t _)) = {t}"
| "answered (Error (LibraryMissing ts rs)) = set ts \<union> snd ` set rs"
| "answered (Error (NoFreeExecutors ts)) = set ts"

text \<open>Whether it ends a task, rather than refusing it.\<close>

definition is_answer :: "worker_response \<Rightarrow> bool" where
  "is_answer r = (case r of Result _ \<Rightarrow> True | Error (TaskExecutionError _ _) \<Rightarrow> True | Error _ \<Rightarrow> False)"

lemma answered_worker_answer [simp]: "answered (worker_answer r) = {er_task_id r}"
  by (simp add: worker_answer_def split: sum.splits)

lemma answered_library_missing: "answered (Error (library_missing rq)) = wt_id ` set (new_tasks rq)"
  by (force simp: library_missing_def new_tasks_def)

lemma fresh_request_refused:
  assumes "fresh_request held rq" "t \<in> wt_id ` set (new_tasks rq)"
  shows "(rq_job rq, t) \<in> new_keys rq - held"
  using assms by (auto simp: fresh_request_def new_keys_def task_keys_def)

lemma fresh_request_parts:
  assumes "fresh_request held rq"
  shows "distinct (map wt_id (map snd (rq_replacements rq)))" "distinct (map wt_id (rq_tasks rq))"
    "wt_id ` set (map snd (rq_replacements rq)) \<inter> wt_id ` set (rq_tasks rq) = {}"
    "task_keys (rq_job rq) (map snd (rq_replacements rq)) \<inter> held = {}"
    "task_keys (rq_job rq) (rq_tasks rq) \<inter> held = {}"
    "new_keys rq = task_keys (rq_job rq) (map snd (rq_replacements rq)) \<union> task_keys (rq_job rq) (rq_tasks rq)"
  using assms by (auto simp: fresh_request_def new_tasks_def new_keys_def)

text \<open>The tasks at the front, which find no executor, are not among those that are taken.\<close>

lemma refused_tasks:
  assumes "distinct (map wt_id ts)" "task_keys job ts \<inter> D = {}" "t \<in> wt_id ` set (take n ts)"
  shows "(job, t) \<in> task_keys job ts - (D \<union> task_keys job (drop n ts))"
proof -
  have "wt_id ` set (take n ts) \<inter> wt_id ` set (drop n ts) = {}"
    using assms(1) set_take_disj_set_drop_if_distinct[of "map wt_id ts" n n] by (simp add: take_map drop_map)
  from task_keys_disjoint[OF this, of job] show ?thesis
    using assms(2,3) task_keys_take_drop[of job ts n] task_keys_iff[of job t job "take n ts"] by blast
qed

section \<open>The pool of executors\<close>

text \<open>Free executors are different and alive, none is assigned, and no executor has two tasks.\<close>

definition pool_ok :: "executor_id list \<Rightarrow> ('k \<rightharpoonup> executor_id) \<Rightarrow> executor_id set \<Rightarrow> bool" where
  "pool_ok F A X \<longleftrightarrow>
     distinct F \<and> set F \<subseteq> X \<and> set F \<inter> ran A = {} \<and> finite (dom A) \<and>
     (\<forall>k k' e. A k = Some e \<longrightarrow> A k' = Some e \<longrightarrow> k = k')"

lemma pool_empty: "pool_ok [] Map.empty X"
  by (simp add: pool_ok_def)

lemma pool_assigned_once: "pool_ok F A X \<Longrightarrow> A k = Some e \<Longrightarrow> A k' = Some e \<Longrightarrow> k = k'"
  by (auto simp: pool_ok_def)

lemma pool_free_unassigned: "pool_ok F A X \<Longrightarrow> e \<in> set F \<Longrightarrow> A k \<noteq> Some e"
  by (auto simp: pool_ok_def ran_def)

lemma pool_free_alive: "pool_ok F A X \<Longrightarrow> e \<in> set F \<Longrightarrow> e \<in> X"
  by (auto simp: pool_ok_def)

lemma pool_finite: "pool_ok F A X \<Longrightarrow> finite (dom A)"
  by (simp add: pool_ok_def)

lemma pool_assign:
  assumes "pool_ok F A X" "\<forall>k'. A k' \<noteq> Some e" "e \<notin> set F"
  shows "pool_ok F (A(k \<mapsto> e)) X"
  using assms by (auto simp: pool_ok_def ran_def split: if_splits)

lemma pool_assign_last:
  assumes "pool_ok F A X" "F \<noteq> []"
  shows "pool_ok (butlast F) (A(k \<mapsto> last F)) X"
proof -
  have F: "F = butlast F @ [last F]" using assms(2) by simp
  have "pool_ok (butlast F) A X" "last F \<notin> set (butlast F)"
    using assms(1) by (subst (asm) F, auto simp: pool_ok_def)+
  moreover have "\<forall>k'. A k' \<noteq> Some (last F)" using pool_free_unassigned[OF assms(1) last_in_set[OF assms(2)]] by blast
  ultimately show ?thesis by (intro pool_assign) auto
qed

lemma pool_remove: "pool_ok F A X \<Longrightarrow> pool_ok F (A(k := None)) X"
  by (auto simp: pool_ok_def ran_def split: if_splits)

lemma pool_push:
  assumes "pool_ok F A X" "e \<in> X" "\<forall>k. A k \<noteq> Some e" "e \<notin> set F"
  shows "pool_ok (F @ [e]) A X"
  using assms by (auto simp: pool_ok_def ran_def)

lemma pool_release:
  assumes "pool_ok F A X" "A k = Some e" "e \<in> X"
  shows "pool_ok (F @ [e]) (A(k := None)) X"
proof (rule pool_push[OF pool_remove[OF assms(1)] assms(3)])
  show "\<forall>k'. (A(k := None)) k' \<noteq> Some e"
    using pool_assigned_once[OF assms(1,2)] by (auto simp: fun_upd_def)
  show "e \<notin> set F" using pool_free_unassigned[OF assms(1), of e k] assms(2) by blast
qed

lemma pool_grow: "pool_ok F A X \<Longrightarrow> X \<subseteq> Y \<Longrightarrow> pool_ok F A Y"
  by (auto simp: pool_ok_def)

lemma ran_unassigned:
  assumes "pool_ok F A X" "A k = Some e"
  shows "ran (A(k := None)) = ran A - {e}"
proof -
  have "(A(k := None)) k' = Some x \<longleftrightarrow> A k' = Some x \<and> x \<noteq> e" for k' x
    using pool_assigned_once[OF assms(1) assms(2), of k'] assms(2) by (cases "k' = k") auto
  then show ?thesis unfolding ran_def by blast
qed

text \<open>Stopping an executor takes it from the free ones.\<close>

lemma pool_stop:
  assumes "pool_ok F A X"
  shows "pool_ok (filter (\<lambda>i. i \<noteq> e) F) A (X - {e})"
  using assms by (auto simp: pool_ok_def)

section \<open>The trait Worker\<close>

text \<open>\<open>'w\<close> is the state of the worker, \<open>'e\<close> what its executors produce, \<open>'r\<close> the order in which a
  reset happens to go through the assignments. \<open>recv\<close> is a loop over \<open>wk_message\<close>, which gives \<open>None\<close>
  for an event that needs no answer.\<close>

record ('w, 'e, 'r) worker_ops =
  wk_process :: "'w \<Rightarrow> worker_request \<Rightarrow> ((worker_error + unit) \<times> 'w) option"
  wk_message :: "'w \<Rightarrow> 'e \<Rightarrow> (worker_response option \<times> 'w) option"
  wk_reset :: "'w \<Rightarrow> 'r \<Rightarrow> 'w option"

datatype ('e, 'r) worker_input =
  WI_Request worker_request
  | WI_Event 'e
  | WI_Reset 'r

text \<open>What a turn of the worker answers.\<close>

fun worker_turn ::
  "('w, 'e, 'r) worker_ops \<Rightarrow> 'w \<Rightarrow> ('e, 'r) worker_input \<Rightarrow> (worker_response list \<times> 'w) option" where
  "worker_turn W w (WI_Request rq) =
     do { (r, w) \<leftarrow> wk_process W w rq; Some (case r of Inl er \<Rightarrow> [Error er] | Inr _ \<Rightarrow> [], w) }"
| "worker_turn W w (WI_Event e) =
     do { (r, w) \<leftarrow> wk_message W w e; Some (case r of Some a \<Rightarrow> [a] | None \<Rightarrow> [], w) }"
| "worker_turn W w (WI_Reset order) = do { w \<leftarrow> wk_reset W w order; Some ([], w) }"

fun worker_input_ok ::
  "('w \<Rightarrow> 'e \<Rightarrow> bool) \<Rightarrow> ('w \<Rightarrow> 'r \<Rightarrow> bool) \<Rightarrow> ('w \<Rightarrow> worker_request \<Rightarrow> bool) \<Rightarrow> 'w \<Rightarrow> ('e, 'r) worker_input \<Rightarrow> bool" where
  "worker_input_ok ok_event ok_order ok_request w (WI_Request rq) \<longleftrightarrow> ok_request w rq"
| "worker_input_ok ok_event ok_order ok_request w (WI_Event e) \<longleftrightarrow> ok_event w e"
| "worker_input_ok ok_event ok_order ok_request w (WI_Reset order) \<longleftrightarrow> ok_order w order"

text \<open>What the node relies on. \<open>held\<close> are the tasks a worker has accepted and not yet answered, and
  \<open>ok_event\<close> the events that its executors can produce; \<open>ok_request\<close> are requests that bring new tasks and that the worker can take. A request adds at most its own tasks, and all of them
  when it is accepted; a request that is refused for want of the library adds none, and one refused for
  want of executors adds those that the error does not name. An answer is about a task that is held, and
  ends it. A reset ends all of them.\<close>

locale node_worker =
  fixes W :: "('w, 'e, 'r) worker_ops"
    and inv :: "'w \<Rightarrow> bool"
    and ok_event :: "'w \<Rightarrow> 'e \<Rightarrow> bool"
    and ok_order :: "'w \<Rightarrow> 'r \<Rightarrow> bool"
    and ok_request :: "'w \<Rightarrow> worker_request \<Rightarrow> bool"
    and held :: "'w \<Rightarrow> job_key set"
  assumes process_ok: "inv w \<Longrightarrow> ok_request w rq \<Longrightarrow>
      \<exists>r w'. wk_process W w rq = Some (r, w') \<and> inv w' \<and> held w' \<subseteq> held w \<union> new_keys rq"
    and process_refused: "inv w \<Longrightarrow> ok_request w rq \<Longrightarrow> wk_process W w rq = Some (Inl er, w') \<Longrightarrow>
      \<not> is_answer (Error er) \<and> (\<forall>t \<in> answered (Error er). (rq_job rq, t) \<in> new_keys rq - held w')"
    and message_ok: "inv w \<Longrightarrow> ok_event w e \<Longrightarrow>
      \<exists>r w'. wk_message W w e = Some (r, w') \<and> inv w' \<and>
        (case r of None \<Rightarrow> held w' \<subseteq> held w
         | Some a \<Rightarrow> \<exists>job t. answered a = {t} \<and> (job, t) \<in> held w \<and> held w' = held w - {(job, t)})"
    and reset_ok: "inv w \<Longrightarrow> ok_order w ord \<Longrightarrow> \<exists>w'. wk_reset W w ord = Some w' \<and> inv w' \<and> held w' = {}"

begin

lemma turn_inv:
  assumes "inv w" "worker_input_ok ok_event ok_order ok_request w i"
  shows "\<exists>out w'. worker_turn W w i = Some (out, w') \<and> inv w'"
proof (cases i)
  case (WI_Request rq)
  then show ?thesis using process_ok[of w rq] assms by auto
next
  case (WI_Event e)
  then show ?thesis using message_ok[of w e] assms by auto
next
  case (WI_Reset ord)
  then show ?thesis using reset_ok[of w ord] assms by auto
qed

lemma worker_loop:
  assumes "inv w0"
  shows "event_loop w0 (worker_input_ok ok_event ok_order ok_request) (worker_turn W) inv"
  using assms turn_inv by unfold_locales auto

end

section \<open>Workers whose answers are right\<close>

text \<open>What the clients of a grid mean by their identifiers: the arguments and the library of a job, and the
  data of a task. An honest request carries these.\<close>

record job_code =
  jc_args :: "uuid \<Rightarrow> bytes"
  jc_library :: "uuid \<Rightarrow> bytes"
  jc_task :: "job_key \<Rightarrow> bytes"

definition honest_request :: "job_code \<Rightarrow> worker_request \<Rightarrow> bool" where
  "honest_request C rq \<longleftrightarrow>
     (\<forall>d. rq_job_data rq = Some d \<longrightarrow> d = (jc_args C (rq_job rq), jc_library C (rq_job rq))) \<and>
     (\<forall>t \<in> set (new_tasks rq). wt_data t = jc_task C (rq_job rq, wt_id t))"

definition code_job :: "job_code \<Rightarrow> job_key \<Rightarrow> executor_job" where
  "code_job C k = \<lparr>ej_job_id = fst k, ej_job_data = jc_args C (fst k), ej_task_id = snd k, ej_task_data = jc_task C k\<rparr>"

lemma key_of_code_job [simp]: "key_of_job (code_job C k) = k"
  by (simp add: code_job_def key_of_job_def)

text \<open>The answer for a task whose job computes \<open>res\<close>.\<close>

definition answer_for :: "(job_key \<Rightarrow> string + bytes) \<Rightarrow> job_key \<Rightarrow> nanos \<Rightarrow> worker_response" where
  "answer_for res k time =
     worker_answer \<lparr>er_job_id = fst k, er_task_id = snd k, er_execution_time = time, er_result = res k\<rparr>"

lemma answer_for_cong: "answer_for (\<lambda>_. res k) k time = answer_for res k time"
  by (simp add: answer_for_def)

lemma worker_answer_for:
  "er_result r = res \<Longrightarrow> worker_answer r = answer_for (\<lambda>_. res) (key_of_result r) (er_execution_time r)"
  by (simp add: answer_for_def worker_answer_def key_of_result_def split: sum.splits)

lemma answered_answer_for [simp]: "answered (answer_for res k time) = {snd k}"
  by (simp add: answer_for_def)

text \<open>A worker that serves honest requests answers each of them with a right result.\<close>

locale answering_worker = node_worker W inv ok_event ok_order ok_request held
  for W :: "('w, 'e, 'r) worker_ops" and inv ok_event ok_order ok_request held +
  fixes C :: job_code
    and faithful :: "'w \<Rightarrow> bool"
    and right :: "job_key \<Rightarrow> string + bytes \<Rightarrow> bool"
  assumes process_faithful: "inv w \<Longrightarrow> faithful w \<Longrightarrow> ok_request w rq \<Longrightarrow> honest_request C rq \<Longrightarrow>
      wk_process W w rq = Some (r, w') \<Longrightarrow> faithful w'"
    and message_faithful: "inv w \<Longrightarrow> faithful w \<Longrightarrow> ok_event w e \<Longrightarrow> wk_message W w e = Some (a', w') \<Longrightarrow>
      faithful w' \<and> (case a' of None \<Rightarrow> held w' \<subseteq> held w
        | Some a \<Rightarrow> \<exists>k time res. k \<in> held w \<and> held w' = held w - {k} \<and> right k res \<and> a = answer_for (\<lambda>_. res) k time)"
    and reset_faithful: "inv w \<Longrightarrow> faithful w \<Longrightarrow> ok_order w ord \<Longrightarrow> wk_reset W w ord = Some w' \<Longrightarrow> faithful w'"

end
