(* ===== verification/Grid_Node.thy ===== *)
theory Grid_Node
  imports Worker_Pool "HOL-Library.Sublist"
begin

text \<open>
  The node (\<open>node/src/node.rs\<close>, \<open>node/src/client.rs\<close>, \<open>node/src/node_manager.rs\<close>): an event loop over the
  connection to the node manager, the heartbeat, the client that the node manager assigned, and the
  worker. The node is generic in the worker, as \<open>Node<W: Worker>\<close> is: \<open>W\<close> is the record of its operations.

  A turn answers \<open>None\<close> when a panic of the worker ends the node; an error that leaves the loop is the
  value \<open>Inl\<close>. The spawned tasks that connect the channels to the network are the events; the events of the
  worker's executors are read only while there is a client.
\<close>

declare split_paired_All [simp del] split_paired_Ex [simp del]

section \<open>The client\<close>

datatype client_event =
  CE_Connected
  | CE_Disconnected
  | CE_Message worker_request

text \<open>\<open>cl_sent\<close> is what was put into the channel to the client, \<open>cl_written\<close> how much of it the task of the connection has
  written to the peer, \<open>cl_open\<close> whether this task still runs: it ends with every end of the connection, and the channel with it.\<close>

record client =
  cl_connected :: bool
  cl_buffer :: "worker_response list"
  cl_addr :: socket_addr
  cl_sent :: "worker_response list"
  cl_written :: nat
  cl_open :: bool

text \<open>What the peer has got.\<close>

definition received :: "client \<Rightarrow> worker_response list" where
  "received c = take (cl_written c) (cl_sent c)"

definition client_new :: "socket_addr \<Rightarrow> client" where
  "client_new addr = \<lparr>cl_connected = False, cl_buffer = [], cl_addr = addr, cl_sent = [], cl_written = 0, cl_open = True\<rparr>"

text \<open>A response goes to the channel of a connected client, and to the buffer otherwise. The flag is false
  when the channel is closed.\<close>

definition client_send :: "client \<Rightarrow> worker_response \<Rightarrow> bool \<times> client" where
  "client_send c item =
     (if cl_connected c then
        (if cl_open c then (True, c\<lparr>cl_sent := cl_sent c @ [item]\<rparr>) else (False, c))
      else (True, c\<lparr>cl_buffer := cl_buffer c @ [item]\<rparr>))"

fun client_send_all :: "worker_response list \<Rightarrow> client \<Rightarrow> client" where
  "client_send_all [] c = c"
| "client_send_all (b # bs) c = client_send_all bs (snd (client_send c b))"

text \<open>The task of the connection takes a response from the channel and writes it to the peer.\<close>

definition forward_one :: "client \<Rightarrow> client" where
  "forward_one c = (if cl_open c \<and> cl_written c < length (cl_sent c) then c\<lparr>cl_written := cl_written c + 1\<rparr> else c)"

section \<open>The node\<close>

datatype manager_event =
  ME_Connected
  | ME_Disconnected
  | ME_Message node_request
  | ME_ConnectionNotEstablished

datatype node_exit = Not_Established | Manager_Closed | Client_Closed

text \<open>What a node does: a heartbeat, a new connection to the node manager, and the responses that its worker
  produces for the client.\<close>

datatype node_output =
  NO_Heartbeat
  | NO_Reconnect
  | NO_Response worker_response

record 'w grid_node =
  nd_worker :: 'w
  nd_client :: "client option"

text \<open>\<open>order\<close> is the order in which a reset goes through the assignments; a heartbeat says whether the channel
  takes it; \<open>NV_Forward\<close> is a step of the task that forwards the responses, \<open>NV_Closed\<close> its end.\<close>

datatype ('e, 'r) loop_event =
  NV_Manager manager_event 'r
  | NV_Heartbeat bool
  | NV_Client client_event
  | NV_Worker 'e
  | NV_Forward
  | NV_Closed

type_synonym 'w node_result = "((node_exit + node_output list) \<times> 'w grid_node) option"

definition node_process_manager ::
  "('w, 'e, 'r) worker_ops \<Rightarrow> 'w grid_node \<Rightarrow> manager_event \<Rightarrow> 'r \<Rightarrow> 'w node_result" where
  "node_process_manager W n ev order =
     (case ev of
        ME_Connected \<Rightarrow> Some (Inr [], n)
      | ME_Disconnected \<Rightarrow> Some (Inr [NO_Reconnect], n)
      | ME_Message (AssignClient addr) \<Rightarrow> do {
          w \<leftarrow> wk_reset W (nd_worker n) order;
          Some (Inr [], n\<lparr>nd_worker := w, nd_client := Some (client_new addr)\<rparr>) }
      | ME_Message UnassignClient \<Rightarrow> do {
          w \<leftarrow> wk_reset W (nd_worker n) order;
          Some (Inr [], n\<lparr>nd_worker := w, nd_client := None\<rparr>) }
      | ME_ConnectionNotEstablished \<Rightarrow> Some (Inl Not_Established, n))"

definition node_process_request ::
  "('w, 'e, 'r) worker_ops \<Rightarrow> 'w grid_node \<Rightarrow> client_event \<Rightarrow> 'w node_result" where
  "node_process_request W n ev =
     (case ev of
        CE_Connected \<Rightarrow>
          (case nd_client n of
             Some c \<Rightarrow> Some (Inr [], n\<lparr>nd_client :=
               Some (client_send_all (cl_buffer c) (c\<lparr>cl_connected := True, cl_buffer := []\<rparr>))\<rparr>)
           | None \<Rightarrow> Some (Inr [], n))
      | CE_Disconnected \<Rightarrow>
          Some (Inr [], n\<lparr>nd_client := map_option (\<lambda>c. c\<lparr>cl_connected := False\<rparr>) (nd_client n)\<rparr>)
      | CE_Message rq \<Rightarrow> do {
          (r, w) \<leftarrow> wk_process W (nd_worker n) rq;
          n \<leftarrow> Some (n\<lparr>nd_worker := w\<rparr>);
          case r of
            Inr _ \<Rightarrow> Some (Inr [], n)
          | Inl er \<Rightarrow>
              (case nd_client n of
                 None \<Rightarrow> Some (Inr [], n)
               | Some c \<Rightarrow>
                   let (sent, c) = client_send c (Error er) in
                   Some (if sent then Inr [NO_Response (Error er)] else Inl Client_Closed,
                         n\<lparr>nd_client := Some c\<rparr>)) })"

text \<open>The loop: the branches over the client and the worker are polled only while there is a client. The
  result of sending an answer is not looked at.\<close>

definition node_turn ::
  "('w, 'e, 'r) worker_ops \<Rightarrow> 'w grid_node \<Rightarrow> ('e, 'r) loop_event \<Rightarrow> 'w node_result" where
  "node_turn W n ev =
     (case ev of
        NV_Manager m order \<Rightarrow> node_process_manager W n m order
      | NV_Heartbeat taken \<Rightarrow> Some (if taken then Inr [NO_Heartbeat] else Inl Manager_Closed, n)
      | NV_Client e \<Rightarrow> (if nd_client n = None then Some (Inr [], n) else node_process_request W n e)
      | NV_Worker e \<Rightarrow>
          (case nd_client n of
             None \<Rightarrow> Some (Inr [], n)
           | Some c \<Rightarrow> do {
               (a, w) \<leftarrow> wk_message W (nd_worker n) e;
               n \<leftarrow> Some (n\<lparr>nd_worker := w\<rparr>);
               Some (case a of
                 None \<Rightarrow> (Inr [], n)
               | Some a \<Rightarrow> (Inr [NO_Response a], n\<lparr>nd_client := Some (snd (client_send c a))\<rparr>)) })
      | NV_Forward \<Rightarrow> Some (Inr [], n\<lparr>nd_client := map_option forward_one (nd_client n)\<rparr>)
      | NV_Closed \<Rightarrow> Some (Inr [], n\<lparr>nd_client := map_option (\<lambda>c. c\<lparr>cl_open := False\<rparr>) (nd_client n)\<rparr>))"

text \<open>A turn after which the loop goes on.\<close>

definition node_exec ::
  "('w, 'e, 'r) worker_ops \<Rightarrow> 'w grid_node \<Rightarrow> ('e, 'r) loop_event \<Rightarrow> (node_output list \<times> 'w grid_node) option" where
  "node_exec W n ev = (case node_turn W n ev of Some (Inr out, n) \<Rightarrow> Some (out, n) | _ \<Rightarrow> None)"

definition grid_node_new :: "'w \<Rightarrow> 'w grid_node" where
  "grid_node_new w = \<lparr>nd_worker = w, nd_client = None\<rparr>"

section \<open>What the client asked for\<close>

text \<open>The tasks that the present client has sent since it was assigned, with repetitions.\<close>

fun note_event :: "('e, 'r) loop_event \<Rightarrow> job_key list \<Rightarrow> job_key list" where
  "note_event (NV_Manager (ME_Message _) _) ks = []"
| "note_event (NV_Client (CE_Message rq)) ks = ks @ map (\<lambda>t. (rq_job rq, wt_id t)) (new_tasks rq)"
| "note_event _ ks = ks"

definition requested :: "('e, 'r) loop_event list \<Rightarrow> job_key list" where
  "requested es = fold note_event es []"

lemma requested_snoc [simp]: "requested (es @ [e]) = note_event e (requested es)"
  by (simp add: requested_def)

lemma requested_Nil [simp]: "requested [] = []"
  by (simp add: requested_def)

lemma set_new_tasks_keys: "set (map (\<lambda>t. (rq_job rq, wt_id t)) (new_tasks rq)) = new_keys rq"
  by (simp add: new_keys_def task_keys_def)

lemma is_answer_for [simp]: "is_answer (answer_for res k time)"
  by (simp add: is_answer_def answer_for_def worker_answer_def split: sum.splits)

text \<open>The responses a client may get: a right result for a task the client asked for, or a refusal of
  tasks the client asked for.\<close>

definition proper_response :: "(job_key \<Rightarrow> string + bytes \<Rightarrow> bool) \<Rightarrow> job_key set \<Rightarrow> worker_response \<Rightarrow> bool" where
  "proper_response right K r \<longleftrightarrow>
     (if is_answer r then \<exists>k \<in> K. \<exists>time res. right k res \<and> r = answer_for (\<lambda>_. res) k time else answered r \<subseteq> snd ` K)"

lemma proper_response_mono: "proper_response right K r \<Longrightarrow> K \<subseteq> K' \<Longrightarrow> proper_response right K' r"
  using image_mono[of K K' snd] by (auto simp: proper_response_def split: if_splits)

text \<open>The events: what the worker allows, with honest requests, heartbeats that are taken, a connection to the
  node manager, and an open channel to the client.\<close>

fun node_event_ok ::
  "('w \<Rightarrow> 'e \<Rightarrow> bool) \<Rightarrow> ('w \<Rightarrow> 'r \<Rightarrow> bool) \<Rightarrow> ('w \<Rightarrow> worker_request \<Rightarrow> bool) \<Rightarrow> job_code \<Rightarrow> 'w grid_node \<Rightarrow> ('e, 'r) loop_event \<Rightarrow> bool" where
  "node_event_ok ok_event ok_order ok_request C n (NV_Manager m order) \<longleftrightarrow>
     m \<noteq> ME_ConnectionNotEstablished \<and> ok_order (nd_worker n) order"
| "node_event_ok ok_event ok_order ok_request C n (NV_Heartbeat taken) \<longleftrightarrow> taken"
| "node_event_ok ok_event ok_order ok_request C n (NV_Client e) \<longleftrightarrow> nd_client n \<noteq> None \<and>
     (case e of CE_Message rq \<Rightarrow> ok_request (nd_worker n) rq \<and> honest_request C rq | _ \<Rightarrow> True)"
| "node_event_ok ok_event ok_order ok_request C n (NV_Worker e) \<longleftrightarrow> nd_client n \<noteq> None \<and> ok_event (nd_worker n) e"
| "node_event_ok ok_event ok_order ok_request C n NV_Forward \<longleftrightarrow> nd_client n \<noteq> None"
| "node_event_ok ok_event ok_order ok_request C n NV_Closed \<longleftrightarrow> False"

section \<open>Delivery\<close>

text \<open>What the client has and will have, in the order in which it gets it.\<close>

definition delivered :: "client \<Rightarrow> worker_response list" where
  "delivered c = cl_sent c @ cl_buffer c"

definition client_ok :: "client \<Rightarrow> bool" where
  "client_ok c \<longleftrightarrow> cl_open c \<and> (cl_connected c \<longrightarrow> cl_buffer c = [])"

lemma client_send_ok:
  assumes "client_ok c"
  shows "fst (client_send c a)" "client_ok (snd (client_send c a))"
    "delivered (snd (client_send c a)) = delivered c @ [a]" "cl_addr (snd (client_send c a)) = cl_addr c"
  using assms by (auto simp: client_send_def client_ok_def delivered_def)

lemma client_send_all_connected:
  assumes "cl_connected c" "cl_open c"
  shows "client_send_all bs c = c\<lparr>cl_sent := cl_sent c @ bs\<rparr>"
  using assms by (induction bs arbitrary: c) (simp_all add: client_send_def)

text \<open>When the client connects, what was kept for it is sent in order.\<close>

lemma client_flush:
  assumes "client_ok c"
  shows "client_ok (client_send_all (cl_buffer c) (c\<lparr>cl_connected := True, cl_buffer := []\<rparr>))"
    "delivered (client_send_all (cl_buffer c) (c\<lparr>cl_connected := True, cl_buffer := []\<rparr>)) = delivered c"
  using assms by (auto simp: client_send_all_connected client_ok_def delivered_def)

text \<open>The responses among the outputs.\<close>

fun responses :: "node_output list \<Rightarrow> worker_response list" where
  "responses [] = []"
| "responses (NO_Response r # os) = r # responses os"
| "responses (_ # os) = responses os"

lemma responses_append [simp]: "responses (os @ os') = responses os @ responses os'"
  by (induction os rule: responses.induct) simp_all

text \<open>Events that neither assign nor unassign a client.\<close>

fun keeps_client :: "('e, 'r) loop_event \<Rightarrow> bool" where
  "keeps_client (NV_Manager (ME_Message _) _) \<longleftrightarrow> False"
| "keeps_client _ \<longleftrightarrow> True"

section \<open>What a client gets\<close>

text \<open>After the responses \<open>rs\<close> have been produced for it, a client has got a beginning of them; while its connection's task runs, all of them are
  written, in the channel or kept for it, in this order.\<close>

definition tracks :: "client \<Rightarrow> worker_response list \<Rightarrow> bool" where
  "tracks c rs \<longleftrightarrow> cl_written c \<le> length (cl_sent c) \<and> prefix (received c) rs \<and>
     (cl_open c \<longrightarrow> delivered c = rs \<and> (cl_connected c \<longrightarrow> cl_buffer c = []))"

lemma tracks_new: "tracks (client_new addr) []"
  by (simp add: tracks_def client_new_def received_def delivered_def)

lemma tracks_send:
  assumes "tracks c rs"
  shows "tracks (snd (client_send c a)) (rs @ [a])" "cl_open (snd (client_send c a)) = cl_open c"
    "\<not> cl_open c \<Longrightarrow> received (snd (client_send c a)) = received c"
  using assms by (auto simp: tracks_def client_send_def received_def delivered_def)

lemma client_send_all_closed:
  "\<not> cl_open c \<Longrightarrow> cl_connected c \<Longrightarrow> client_send_all bs c = c"
  by (induction bs) (simp_all add: client_send_def)

lemma tracks_connect:
  fixes c
  defines "c' \<equiv> client_send_all (cl_buffer c) (c\<lparr>cl_connected := True, cl_buffer := []\<rparr>)"
  assumes "tracks c rs"
  shows "tracks c' rs" "cl_open c' = cl_open c" "\<not> cl_open c \<Longrightarrow> received c' = received c"
proof -
  have "c' = (if cl_open c then c\<lparr>cl_connected := True, cl_buffer := [], cl_sent := cl_sent c @ cl_buffer c\<rparr>
      else c\<lparr>cl_connected := True, cl_buffer := []\<rparr>)"
    by (simp add: c'_def client_send_all_connected client_send_all_closed)
  then show "tracks c' rs" "cl_open c' = cl_open c" "\<not> cl_open c \<Longrightarrow> received c' = received c"
    using assms(2) by (auto simp: tracks_def received_def delivered_def)
qed

lemma tracks_forward:
  assumes "tracks c rs"
  shows "tracks (forward_one c) rs" "cl_open (forward_one c) = cl_open c"
    "\<not> cl_open c \<Longrightarrow> received (forward_one c) = received c"
proof -
  have "prefix (take n (cl_sent c)) (delivered c)" for n
    using prefix_order.trans[OF take_is_prefix[of n "cl_sent c"]] by (simp add: delivered_def)
  then show "tracks (forward_one c) rs" using assms by (auto simp: tracks_def forward_one_def received_def delivered_def)
qed (simp_all add: forward_one_def)

text \<open>A turn, whatever the worker does.\<close>

lemma node_turn_tracks:
  assumes "nd_client n = Some c" "tracks c rs" "keeps_client e" "node_exec W n e = Some (out, n')"
  shows "\<exists>c'. nd_client n' = Some c' \<and> tracks c' (rs @ responses out) \<and> (cl_open c' \<longleftrightarrow> cl_open c \<and> e \<noteq> NV_Closed) \<and>
    (\<not> cl_open c \<longrightarrow> received c' = received c)"
proof (cases e)
  case (NV_Manager m order)
  then show ?thesis using assms by (cases m) (auto simp: node_exec_def node_turn_def node_process_manager_def)
next
  case (NV_Heartbeat taken)
  then show ?thesis using assms by (auto simp: node_exec_def node_turn_def split: if_splits)
next
  case (NV_Client ev)
  show ?thesis
  proof (cases ev)
    case CE_Connected
    then show ?thesis using NV_Client assms(1,4) tracks_connect[OF assms(2)]
      by (auto simp: node_exec_def node_turn_def node_process_request_def)
  next
    case CE_Disconnected
    have "tracks (c\<lparr>cl_connected := False\<rparr>) rs" using assms(2) by (simp add: tracks_def received_def delivered_def)
    then show ?thesis using NV_Client CE_Disconnected assms(1,4)
      by (auto simp: node_exec_def node_turn_def node_process_request_def received_def)
  next
    case (CE_Message rq)
    then show ?thesis using NV_Client assms(1,2,4) tracks_send[OF assms(2)]
      by (auto simp: node_exec_def node_turn_def node_process_request_def case_prod_beta split: bind_splits sum.splits if_splits)
  qed
next
  case (NV_Worker ev)
  then show ?thesis using assms(1,2,4) tracks_send[OF assms(2)]
    by (auto simp: node_exec_def node_turn_def split: bind_splits option.splits)
next
  case NV_Forward
  then show ?thesis using assms(1,4) tracks_forward[OF assms(2)] by (auto simp: node_exec_def node_turn_def)
next
  case NV_Closed
  then show ?thesis using assms(1,2,4) by (auto simp: node_exec_def node_turn_def tracks_def received_def)
qed

lemma node_run_tracks:
  assumes "event_run (\<lambda>_. keeps_client) (node_exec W) n es outs n'" "nd_client n = Some c" "tracks c rs"
  shows "\<exists>c'. nd_client n' = Some c' \<and> tracks c' (rs @ responses outs) \<and> (cl_open c' \<longleftrightarrow> cl_open c \<and> NV_Closed \<notin> set es) \<and>
    (\<not> cl_open c \<longrightarrow> received c' = received c)"
  using assms(1)
proof (induction rule: event_run.induct)
  case run_init
  then show ?case using assms(2,3) by auto
next
  case (run_event es outs n1 e out n2)
  then obtain c1 where "nd_client n1 = Some c1" "tracks c1 (rs @ responses outs)" "cl_open c1 \<longleftrightarrow> cl_open c \<and> NV_Closed \<notin> set es"
    "\<not> cl_open c \<longrightarrow> received c1 = received c" by blast
  then show ?case using node_turn_tracks[of n1 c1 "rs @ responses outs" e W out n2] run_event.hyps(2,3) by auto
qed

section \<open>The invariant of a node with a worker\<close>

context answering_worker
begin

definition served :: "job_key list \<Rightarrow> 'w \<Rightarrow> client \<Rightarrow> bool" where
  "served ks w c \<longleftrightarrow> client_ok c \<and> held w \<subseteq> set ks \<and>
     (\<forall>r \<in> set (delivered c). proper_response right (set ks) r) \<and>
     length (filter is_answer (delivered c)) + card (held w) \<le> length ks"

definition node_inv :: "job_key list \<Rightarrow> 'w grid_node \<Rightarrow> bool" where
  "node_inv ks n \<longleftrightarrow> inv (nd_worker n) \<and> faithful (nd_worker n) \<and>
     (case nd_client n of None \<Rightarrow> held (nd_worker n) = {} | Some c \<Rightarrow> served ks (nd_worker n) c)"

abbreviation ok_node :: "'w grid_node \<Rightarrow> ('e, 'r) loop_event \<Rightarrow> bool" where
  "ok_node \<equiv> node_event_ok ok_event ok_order ok_request C"

lemma served_new: "held w = {} \<Longrightarrow> served [] w (client_new addr)"
  by (simp add: served_def client_ok_def client_new_def delivered_def)

lemma served_answer:
  assumes "served ks w c" "k \<in> held w" "held w' = held w - {k}" "right k res" "a = answer_for (\<lambda>_. res) k time"
  shows "served ks w' (snd (client_send c a))"
proof -
  have "finite (held w)" using assms(1) finite_subset[of "held w" "set ks"] by (simp add: served_def)
  then have "card (held w') + 1 = card (held w)" using assms(2,3) card.remove[of "held w" k] by simp
  moreover have "proper_response right (set ks) a"
    using assms(1,2,4,5) by (auto simp: proper_response_def served_def)
  ultimately show ?thesis using assms(1,3,5) client_send_ok[of c a] by (auto simp: served_def)
qed

lemma served_less: "served ks w c \<Longrightarrow> held w' \<subseteq> held w \<Longrightarrow> served ks w' c"
  using card_mono[of "held w" "held w'"] finite_subset[of "held w" "set ks"] by (force simp: served_def)

lemma served_request:
  assumes "served ks w c" "held w' \<subseteq> held w \<union> new_keys rq"
  shows "served (ks @ map (\<lambda>t. (rq_job rq, wt_id t)) (new_tasks rq)) w' c"
proof -
  let ?new = "map (\<lambda>t. (rq_job rq, wt_id t)) (new_tasks rq)"
  have fin: "finite (held w)" using assms(1) finite_subset[of "held w" "set ks"] by (simp add: served_def)
  have "card (held w') \<le> card (held w \<union> set ?new)"
    using assms(2) fin by (intro card_mono) (auto simp: new_keys_def task_keys_def)
  also have "\<dots> \<le> card (held w) + length ?new"
    using card_Un_le[of "held w" "set ?new"] card_length[of ?new] by linarith
  finally have "card (held w') \<le> card (held w) + length ?new" .
  moreover have "held w' \<subseteq> set (ks @ ?new)"
    using assms set_new_tasks_keys[of rq] by (auto simp: served_def)
  ultimately show ?thesis using assms(1) proper_response_mono[of right "set ks" _ "set (ks @ ?new)"]
    by (auto simp: served_def)
qed

lemma served_refusal:
  assumes "served ks w c" "\<not> is_answer a" "answered a \<subseteq> snd ` set ks"
  shows "served ks w (snd (client_send c a))"
  using assms client_send_ok[of c a] by (auto simp: served_def proper_response_def)

lemma node_message_step:
  assumes "node_inv ks n" "ok_node n (NV_Client (CE_Message rq))"
  shows "\<exists>out n' c'. node_exec W n (NV_Client (CE_Message rq)) = Some (out, n') \<and>
    node_inv (note_event (NV_Client (CE_Message rq)) ks) n' \<and> nd_client n' = Some c' \<and>
    delivered c' = delivered (the (nd_client n)) @ responses out"
proof -
  obtain c where c: "nd_client n = Some c" "served ks (nd_worker n) c" "inv (nd_worker n)" "faithful (nd_worker n)"
    using assms(1,2) by (auto simp: node_inv_def)
  have rq: "ok_request (nd_worker n) rq" "honest_request C rq" using assms(2) by auto
  let ?new = "map (\<lambda>t. (rq_job rq, wt_id t)) (new_tasks rq)"
  obtain r w' where w': "wk_process W (nd_worker n) rq = Some (r, w')" "inv w'"
    "held w' \<subseteq> held (nd_worker n) \<union> new_keys rq" using process_ok[OF c(3) rq(1)] by blast
  have f: "faithful w'" by (rule process_faithful[OF c(3,4) rq w'(1)])
  have s: "served (ks @ ?new) w' c" by (rule served_request[OF c(2) w'(3)])
  show ?thesis
  proof (cases r)
    case (Inr u)
    then show ?thesis using c(1) w' f s by (simp add: node_exec_def node_turn_def node_process_request_def node_inv_def)
  next
    case (Inl er)
    have "answered (Error er) \<subseteq> snd ` set (ks @ ?new)"
    proof
      fix t assume "t \<in> answered (Error er)"
      then have "(rq_job rq, t) \<in> set (ks @ ?new)"
        using process_refused[OF c(3) rq(1)] w'(1) Inl set_new_tasks_keys[of rq] by auto
      then show "t \<in> snd ` set (ks @ ?new)" by (rule image_eqI[rotated]) simp
    qed
    then have s': "served (ks @ ?new) w' (snd (client_send c (Error er)))"
      using served_refusal[OF s] process_refused[OF c(3) rq(1)] w'(1) Inl by blast
    have ok: "client_ok c" using c(2) by (simp add: served_def)
    show ?thesis using c(1) w' f s' Inl client_send_ok[OF ok, of "Error er"]
      by (auto simp: node_exec_def node_turn_def node_process_request_def node_inv_def split: prod.splits)
  qed
qed

lemma node_worker_step:
  assumes "node_inv ks n" "ok_node n (NV_Worker e)"
  shows "\<exists>out n' c'. node_exec W n (NV_Worker e) = Some (out, n') \<and> node_inv ks n' \<and> nd_client n' = Some c' \<and>
    delivered c' = delivered (the (nd_client n)) @ responses out"
proof -
  obtain c where c: "nd_client n = Some c" "served ks (nd_worker n) c" "inv (nd_worker n)" "faithful (nd_worker n)"
    using assms(1,2) by (auto simp: node_inv_def)
  have e: "ok_event (nd_worker n) e" using assms(2) by simp
  obtain a w' where w': "wk_message W (nd_worker n) e = Some (a, w')" "inv w'" using message_ok[OF c(3) e] by blast
  note f = message_faithful[OF c(3,4) e w'(1)]
  show ?thesis
  proof (cases a)
    case None
    then have "served ks w' c" using f served_less[OF c(2)] by simp
    then show ?thesis using c(1) w' f None by (simp add: node_exec_def node_turn_def node_inv_def)
  next
    case (Some b)
    then obtain k time res where k: "k \<in> held (nd_worker n)" "held w' = held (nd_worker n) - {k}" "right k res"
      "b = answer_for (\<lambda>_. res) k time"
      using f by auto
    have "client_ok c" using c(2) by (simp add: served_def)
    then show ?thesis using c(1) w' f Some served_answer[OF c(2) k] client_send_ok[of c b]
      by (simp add: node_exec_def node_turn_def node_inv_def)
  qed
qed

lemma node_client_step:
  assumes "node_inv ks n" "ok_node n (NV_Client e)"
  shows "\<exists>out n' c'. node_exec W n (NV_Client e) = Some (out, n') \<and> node_inv (note_event (NV_Client e) ks) n' \<and>
    nd_client n' = Some c' \<and> delivered c' = delivered (the (nd_client n)) @ responses out"
proof -
  obtain c where c: "nd_client n = Some c" "served ks (nd_worker n) c" "inv (nd_worker n)" "faithful (nd_worker n)"
    using assms(1,2) by (auto simp: node_inv_def)
  have ok: "client_ok c" using c(2) by (simp add: served_def)
  show ?thesis
  proof (cases e)
    case CE_Connected
    let ?c = "client_send_all (cl_buffer c) (c\<lparr>cl_connected := True, cl_buffer := []\<rparr>)"
    have "served ks (nd_worker n) ?c" using c(2) client_flush[OF ok] by (simp add: served_def)
    then show ?thesis using c CE_Connected client_flush[OF ok]
      by (simp add: node_exec_def node_turn_def node_process_request_def node_inv_def)
  next
    case CE_Disconnected
    have "served ks (nd_worker n) (c\<lparr>cl_connected := False\<rparr>)" using c(2) by (simp add: served_def client_ok_def delivered_def)
    then show ?thesis using c CE_Disconnected
      by (simp add: node_exec_def node_turn_def node_process_request_def node_inv_def delivered_def)
  next
    case (CE_Message rq)
    then show ?thesis using node_message_step[OF assms(1), of rq] assms(2) by simp
  qed
qed

lemma node_manager_step:
  assumes "node_inv ks n" "ok_node n (NV_Manager m order)"
  shows "\<exists>out n'. node_exec W n (NV_Manager m order) = Some (out, n') \<and> node_inv (note_event (NV_Manager m order) ks) n' \<and>
    responses out = [] \<and> (keeps_client (NV_Manager m order) \<longrightarrow> nd_client n' = nd_client n)"
proof -
  have n: "inv (nd_worker n)" "faithful (nd_worker n)" "ok_order (nd_worker n) order"
    using assms by (auto simp: node_inv_def)
  obtain w' where w': "wk_reset W (nd_worker n) order = Some w'" "inv w'" "held w' = {}" using reset_ok[OF n(1,3)] by blast
  have f: "faithful w'" by (rule reset_faithful[OF n w'(1)])
  have s: "served [] w' (client_new addr)" for addr by (rule served_new[OF w'(3)])
  show ?thesis
  proof (cases m)
    case (ME_Message rq)
    then show ?thesis using w' f s
      by (cases rq) (simp_all add: node_exec_def node_turn_def node_process_manager_def node_inv_def)
  qed (use assms in \<open>simp_all add: node_exec_def node_turn_def node_process_manager_def\<close>)
qed

lemma node_step:
  assumes "node_inv ks n" "ok_node n e"
  shows "\<exists>out n'. node_exec W n e = Some (out, n') \<and> node_inv (note_event e ks) n' \<and>
    (keeps_client e \<longrightarrow> (case nd_client n of None \<Rightarrow> nd_client n' = None \<and> responses out = []
       | Some c \<Rightarrow> \<exists>c'. nd_client n' = Some c' \<and> delivered c' = delivered c @ responses out))"
proof (cases e)
  case (NV_Manager m order)
  then show ?thesis using node_manager_step[OF assms(1), of m order] assms(2) by (cases "nd_client n") auto
next
  case (NV_Heartbeat taken)
  then show ?thesis using assms by (cases "nd_client n") (auto simp: node_exec_def node_turn_def)
next
  case (NV_Client ev)
  moreover obtain c where "nd_client n = Some c" using assms(2) NV_Client by auto
  ultimately show ?thesis using node_client_step[OF assms(1), of ev] assms(2) by auto
next
  case (NV_Worker ev)
  moreover obtain c where "nd_client n = Some c" using assms(2) NV_Worker by auto
  ultimately show ?thesis using node_worker_step[OF assms(1), of ev] assms(2) by auto
next
  case NV_Forward
  moreover obtain c where c: "nd_client n = Some c" using assms(2) NV_Forward by auto
  moreover have "delivered (forward_one c) = delivered c" by (simp add: delivered_def forward_one_def)
  moreover have "served ks (nd_worker n) (forward_one c)"
    using assms(1) c calculation(3) by (auto simp: node_inv_def served_def client_ok_def forward_one_def)
  ultimately show ?thesis using assms(1) by (auto simp: node_exec_def node_turn_def node_inv_def)
next
  case NV_Closed
  then show ?thesis using assms(2) by simp
qed

lemma node_run_inv:
  assumes "inv w0" "faithful w0" "held w0 = {}" "event_run ok_node (node_exec W) (grid_node_new w0) es outs n"
  shows "node_inv (requested es) n"
  using assms(4)
proof (induction rule: event_run.induct)
  case run_init
  then show ?case using assms(1-3) by (simp add: node_inv_def grid_node_new_def)
next
  case (run_event es outs n e out n')
  then show ?case using node_step[of "requested es" n e] by auto
qed

lemma node_client_facts:
  assumes "node_inv ks n" "nd_client n = Some c"
  shows "\<forall>r \<in> set (delivered c). proper_response right (set ks) r"
    "length (filter is_answer (delivered c)) \<le> length ks" "cl_connected c \<Longrightarrow> cl_buffer c = []"
  using assms by (auto simp: node_inv_def served_def client_ok_def)

end

end
