(* ===== verification/Bin_Codec.thy ===== *)
theory Bin_Codec
  imports Messages
begin

text \<open>
  The codec of all connections, \<open>shared/src/utils/bin_codec.rs\<close>: a value is serialised by \<open>bincode\<close> and sent as a
  frame of \<open>LengthDelimitedCodec\<close> of \<open>tokio_util\<close>, eight bytes with the length of the value, the greatest
  first, and the value. Both crates are arguments of the definitions; the locales \<open>frame_laws\<close> and
  \<open>bin_codec\<close> state what their documentation promises. A decoder is fed with the bytes as they arrive, in pieces
  that need not be frames.
\<close>

section \<open>Big-endian integers\<close>

text \<open>\<open>to_be_bytes\<close> and \<open>from_be_bytes\<close>, for integers of \<open>k\<close> bytes.\<close>

primrec to_be_bytes :: "nat \<Rightarrow> nat \<Rightarrow> bytes" where
  "to_be_bytes 0 n = []"
| "to_be_bytes (Suc k) n = to_be_bytes k (n div 256) @ [of_nat n]"

definition from_be_bytes :: "bytes \<Rightarrow> nat" where
  "from_be_bytes bs = foldl (\<lambda>a b. 256 * a + unat b) 0 bs"

lemma length_to_be_bytes [simp]: "length (to_be_bytes k n) = k"
  by (induction k arbitrary: n) simp_all

lemma from_be_bytes_snoc [simp]: "from_be_bytes (bs @ [b]) = 256 * from_be_bytes bs + unat b"
  by (simp add: from_be_bytes_def)

lemma be_bytes_roundtrip: "n < 256 ^ k \<Longrightarrow> from_be_bytes (to_be_bytes k n) = n"
proof (induction k arbitrary: n)
  case 0
  then show ?case by (simp add: from_be_bytes_def)
next
  case (Suc k)
  have "n div 256 < 256 ^ k" using Suc.prems by (simp add: less_mult_imp_div_less mult.commute)
  then show ?case using Suc.IH by (simp add: unat_of_nat mult.commute)
qed

section \<open>The crates\<close>

text \<open>\<open>LengthDelimitedCodec\<close> keeps a state of type \<open>'k\<close> between calls: it may have taken the length of a frame
  from the buffer already. \<open>lc_decode\<close> gives the next frame, if it is complete, the state and what is left of the
  buffer.\<close>

record 'k length_codec =
  lc_new :: 'k
  lc_encode :: "bytes \<Rightarrow> bytes \<Rightarrow> string + bytes"
  lc_decode :: "'k \<Rightarrow> bytes \<Rightarrow> (string + bytes option) \<times> 'k \<times> bytes"

record 'a bincode =
  bc_encode :: "'a \<Rightarrow> string + bytes"
  bc_decode :: "bytes \<Rightarrow> string + 'a"

definition frame :: "bytes \<Rightarrow> bytes" where
  "frame payload = to_be_bytes 8 (length payload) @ payload"

text \<open>The first frame of a sequence of bytes, when it is complete.\<close>

definition first_frame :: "bytes \<Rightarrow> (bytes \<times> bytes) option" where
  "first_frame s =
     (let n = from_be_bytes (take 8 s) in
      if length s < 8 \<or> length s < 8 + n then None else Some (take n (drop 8 s), drop (8 + n) s))"

text \<open>\<open>view\<close> are the bytes that a decoder has received and not delivered.\<close>

locale frame_laws =
  fixes L :: "'k length_codec" and view :: "'k \<Rightarrow> bytes \<Rightarrow> bytes"
  assumes new_view: "view (lc_new L) s = s"
    and feed_view: "view k (s @ arrived) = view k s @ arrived"
    and encode_frame: "length payload < 2 ^ 64 \<Longrightarrow> lc_encode L payload dst = Inr (dst @ frame payload)"
    and decode_frame: "lc_decode L k s = (r, k', s') \<Longrightarrow>
      (case first_frame (view k s) of
         None \<Rightarrow> r = Inr None \<and> view k' s' = view k s
       | Some (payload, rest) \<Rightarrow> r = Inr (Some payload) \<and> view k' s' = rest)"

section \<open>The codec\<close>

text \<open>Errors of both crates are reported as \<open>io::Error\<close>.\<close>

definition bin_encode :: "'k length_codec \<Rightarrow> 'a bincode \<Rightarrow> 'a \<Rightarrow> bytes \<Rightarrow> string + bytes" where
  "bin_encode L B item dst =
     (case bc_encode B item of Inr bs \<Rightarrow> lc_encode L bs dst | Inl err \<Rightarrow> Inl err)"

definition bin_decode ::
  "'k length_codec \<Rightarrow> 'a bincode \<Rightarrow> 'k \<Rightarrow> bytes \<Rightarrow> (string + 'a option) \<times> 'k \<times> bytes" where
  "bin_decode L B k src =
     (case lc_decode L k src of
        (Inl err, k, src) \<Rightarrow> (Inl err, k, src)
      | (Inr None, k, src) \<Rightarrow> (Inr None, k, src)
      | (Inr (Some bs), k, src) \<Rightarrow>
          (case bc_decode B bs of Inr item \<Rightarrow> (Inr (Some item), k, src) | Inl err \<Rightarrow> (Inl err, k, src)))"

text \<open>Encoding a sequence of values into one buffer, as a sink does.\<close>

fun bin_encode_all :: "'k length_codec \<Rightarrow> 'a bincode \<Rightarrow> 'a list \<Rightarrow> bytes \<Rightarrow> string + bytes" where
  "bin_encode_all L B [] dst = Inr dst"
| "bin_encode_all L B (x # xs) dst =
     (case bin_encode L B x dst of Inl err \<Rightarrow> Inl err | Inr dst \<Rightarrow> bin_encode_all L B xs dst)"

text \<open>A stream of frames decodes until it needs more bytes; a piece that arrives is appended to the buffer.
  The number of values in a buffer is less than its length, since a frame has eight bytes at least.\<close>

fun decode_ready ::
  "'k length_codec \<Rightarrow> 'a bincode \<Rightarrow> nat \<Rightarrow> 'k \<Rightarrow> bytes \<Rightarrow> (string + 'a list) \<times> 'k \<times> bytes" where
  "decode_ready L B 0 k src = (Inr [], k, src)"
| "decode_ready L B (Suc fuel) k src =
     (case bin_decode L B k src of
        (Inl err, k, src) \<Rightarrow> (Inl err, k, src)
      | (Inr None, k, src) \<Rightarrow> (Inr [], k, src)
      | (Inr (Some x), k, src) \<Rightarrow>
          (case decode_ready L B fuel k src of
             (Inl err, k, src) \<Rightarrow> (Inl err, k, src)
           | (Inr xs, k, src) \<Rightarrow> (Inr (x # xs), k, src)))"

fun decode_pieces ::
  "'k length_codec \<Rightarrow> 'a bincode \<Rightarrow> nat \<Rightarrow> bytes list \<Rightarrow> 'k \<Rightarrow> bytes \<Rightarrow> (string + 'a list) \<times> 'k \<times> bytes" where
  "decode_pieces L B fuel [] k src = (Inr [], k, src)"
| "decode_pieces L B fuel (p # ps) k src =
     (case decode_ready L B fuel k (src @ p) of
        (Inl err, k, src) \<Rightarrow> (Inl err, k, src)
      | (Inr xs, k, src) \<Rightarrow>
          (case decode_pieces L B fuel ps k src of
             (Inl err, k, src) \<Rightarrow> (Inl err, k, src)
           | (Inr ys, k, src) \<Rightarrow> (Inr (xs @ ys), k, src)))"

section \<open>Frames\<close>

lemma length_frame: "length (frame p) = 8 + length p"
  by (simp add: frame_def)

lemma first_frame_frame:
  assumes "length p < 2 ^ 64"
  shows "first_frame (frame p @ rest) = Some (p, rest)"
proof -
  have "from_be_bytes (to_be_bytes 8 (length p)) = length p" using assms by (intro be_bytes_roundtrip) simp
  then show ?thesis by (simp add: first_frame_def frame_def)
qed

text \<open>A proper beginning of a frame is no frame.\<close>

lemma first_frame_partial:
  assumes "length p < 2 ^ 64" "s @ t = frame p" "t \<noteq> []"
  shows "first_frame s = None"
proof (cases "length s < 8")
  case False
  then have "take 8 s = take 8 (s @ t)" by simp
  then have "take 8 s = to_be_bytes 8 (length p)" by (simp add: assms(2) frame_def)
  moreover have "from_be_bytes (to_be_bytes 8 (length p)) = length p" using assms(1) by (intro be_bytes_roundtrip) simp
  moreover have "length s < 8 + length p"
    using arg_cong[OF assms(2), of length] assms(3) by (cases t) (simp_all add: length_frame)
  ultimately show ?thesis by (simp add: first_frame_def)
qed (simp add: first_frame_def)

text \<open>A sequence of bytes that begins like a sequence of frames is some of the frames and a beginning of the next.\<close>

lemma frames_split:
  assumes "s @ t = concat (map frame ps)"
  obtains d rest where "ps = d @ rest" "\<exists>u. s = concat (map frame d) @ u \<and>
    (rest = [] \<longrightarrow> u = []) \<and> (\<forall>p qs. rest = p # qs \<longrightarrow> (\<exists>v. u @ v = frame p \<and> v \<noteq> [] \<and> t = v @ concat (map frame qs)))"
proof -
  have "\<exists>d rest u. ps = d @ rest \<and> s = concat (map frame d) @ u \<and> (rest = [] \<longrightarrow> u = []) \<and>
    (\<forall>p qs. rest = p # qs \<longrightarrow> (\<exists>v. u @ v = frame p \<and> v \<noteq> [] \<and> t = v @ concat (map frame qs)))"
    using assms
  proof (induction ps arbitrary: s)
    case Nil
    then show ?case by simp
  next
    case (Cons p ps)
    show ?case
    proof (cases "length (frame p) \<le> length s")
      case True
      then obtain s' where s': "s = frame p @ s'"
        using Cons.prems by (metis append_eq_append_conv_if append_take_drop_id concat.simps(2) list.simps(9))
      then have "s' @ t = concat (map frame ps)" using Cons.prems by simp
      from Cons.IH[OF this] obtain d r u where
        "ps = d @ r" "s' = concat (map frame d) @ u" "r = [] \<longrightarrow> u = []"
        "\<forall>p qs. r = p # qs \<longrightarrow> (\<exists>v. u @ v = frame p \<and> v \<noteq> [] \<and> t = v @ concat (map frame qs))" by blast
      then show ?thesis using s' by (intro exI[of _ "p # d"] exI[of _ r] exI[of _ u]) simp
    next
      case False
      then obtain v where v: "s @ v = frame p" "t = v @ concat (map frame ps)"
        using Cons.prems by (auto simp: append_eq_append_conv2)
      moreover have "v \<noteq> []" using False v(1) by auto
      ultimately show ?thesis by (intro exI[of _ "[]"] exI[of _ "p # ps"] exI[of _ s]) simp
    qed
  qed
  then show ?thesis using that by blast
qed

section \<open>Round trips\<close>

locale bin_codec = frame_laws L view
  for L :: "'k length_codec" and view +
  fixes B :: "'a bincode"
  assumes decodes: "bc_encode B x = Inr bs \<Longrightarrow> bc_decode B bs = Inr x"
    and short: "bc_encode B x = Inr bs \<Longrightarrow> length bs < 2 ^ 64"
begin

text \<open>The bytes of a sequence of values.\<close>

definition payload :: "'a \<Rightarrow> bytes" where
  "payload x = (case bc_encode B x of Inr bs \<Rightarrow> bs | Inl _ \<Rightarrow> [])"

definition encodes :: "'a \<Rightarrow> bool" where
  "encodes x = (case bc_encode B x of Inr _ \<Rightarrow> True | Inl _ \<Rightarrow> False)"

definition wire :: "'a list \<Rightarrow> bytes" where
  "wire xs = concat (map frame (map payload xs))"

lemma wire_simps [simp]: "wire [] = []" "wire (x # xs) = frame (payload x) @ wire xs" "wire (xs @ ys) = wire xs @ wire ys"
  by (simp_all add: wire_def)

lemma encodes_iff: "encodes x \<longleftrightarrow> (\<exists>bs. bc_encode B x = Inr bs)"
  by (cases "bc_encode B x") (auto simp: encodes_def)

lemma payload_short: "encodes x \<Longrightarrow> length (payload x) < 2 ^ 64"
  using short by (auto simp: encodes_def payload_def split: sum.splits)

lemma payload_decodes: "encodes x \<Longrightarrow> bc_decode B (payload x) = Inr x"
  using decodes by (auto simp: encodes_def payload_def split: sum.splits)

lemma bin_encode_wire: "encodes x \<Longrightarrow> bin_encode L B x dst = Inr (dst @ frame (payload x))"
  using encode_frame short by (auto simp: encodes_def payload_def bin_encode_def split: sum.splits)

lemma bin_encode_all_wire: "list_all encodes xs \<Longrightarrow> bin_encode_all L B xs dst = Inr (dst @ wire xs)"
  by (induction xs arbitrary: dst) (simp_all add: bin_encode_wire)

lemma bin_encode_all_encodes: "bin_encode_all L B xs dst = Inr out \<Longrightarrow> list_all encodes xs"
  by (induction xs arbitrary: dst) (auto simp: bin_encode_def encodes_def split: sum.splits)

text \<open>One call of the decoder delivers the first value of what it has received, when it is complete.\<close>

lemma bin_decode_value:
  assumes "view k src = frame (payload x) @ rest" "encodes x"
  shows "\<exists>k' src'. bin_decode L B k src = (Inr (Some x), k', src') \<and> view k' src' = rest"
proof -
  obtain r k' src' where d: "lc_decode L k src = (r, k', src')" by (metis prod_cases3)
  from decode_frame[OF d] have "r = Inr (Some (payload x))" "view k' src' = rest"
    by (simp_all add: assms(1) first_frame_frame[OF payload_short[OF assms(2)]])
  then show ?thesis by (simp add: bin_decode_def d payload_decodes[OF assms(2)])
qed

lemma bin_decode_partial:
  assumes "first_frame (view k src) = None"
  shows "\<exists>k' src'. bin_decode L B k src = (Inr None, k', src') \<and> view k' src' = view k src"
proof -
  obtain r k' src' where d: "lc_decode L k src = (r, k', src')" by (metis prod_cases3)
  from decode_frame[OF d] show ?thesis by (simp add: assms bin_decode_def d)
qed

lemma decode_ready_values:
  assumes "view k src = wire xs @ u" "first_frame u = None" "list_all encodes xs" "length xs < fuel"
  shows "\<exists>k' src'. decode_ready L B fuel k src = (Inr xs, k', src') \<and> view k' src' = u"
  using assms
proof (induction xs arbitrary: fuel k src)
  case Nil
  then obtain m where m: "fuel = Suc m" by (cases fuel) auto
  from bin_decode_partial[of k src] Nil.prems(1,2) show ?case by (auto simp: m)
next
  case (Cons x xs)
  then obtain m where m: "fuel = Suc m" by (cases fuel) auto
  obtain k1 s1 where d: "bin_decode L B k src = (Inr (Some x), k1, s1)" "view k1 s1 = wire xs @ u"
    using bin_decode_value[of k src x "wire xs @ u"] Cons.prems(1,3) by auto
  from Cons.IH[OF d(2) Cons.prems(2), of m] Cons.prems(3,4) d(1) show ?case by (auto simp: m)
qed

text \<open>Whatever the pieces in which the bytes arrive, the values are delivered in order.\<close>

lemma decode_pieces_values:
  assumes "view k src @ concat pieces = wire xs" "first_frame (view k src) = None" "list_all encodes xs" "length xs < fuel"
  shows "\<exists>k' src'. decode_pieces L B fuel pieces k src = (Inr xs, k', src') \<and> view k' src' = []"
  using assms
proof (induction pieces arbitrary: k src xs)
  case Nil
  have "xs = []"
  proof (rule ccontr)
    assume "xs \<noteq> []"
    then obtain x ys where "xs = x # ys" by (cases xs) auto
    then show False using Nil.prems first_frame_frame[OF payload_short, of x "wire ys"] by simp
  qed
  then show ?case using Nil.prems by simp
next
  case (Cons p ps)
  note enc = Cons.prems(3) and all = Cons.prems(1)
  have "(view k src @ p) @ concat ps = concat (map frame (map payload xs))"
    using Cons.prems(1) by (simp add: wire_def)
  then obtain ds rs where split: "map payload xs = ds @ rs" "\<exists>u. view k src @ p = concat (map frame ds) @ u \<and>
    (rs = [] \<longrightarrow> u = []) \<and> (\<forall>q qs. rs = q # qs \<longrightarrow> (\<exists>v. u @ v = frame q \<and> v \<noteq> [] \<and> concat ps = v @ concat (map frame qs)))"
    by (rule frames_split)
  then obtain xs1 xs2 where xs: "xs = xs1 @ xs2" "ds = map payload xs1" "rs = map payload xs2"
    by (auto simp: map_eq_append_conv)
  obtain u where u: "view k src @ p = wire xs1 @ u" "xs2 = [] \<longrightarrow> u = []"
    "\<forall>q qs. rs = q # qs \<longrightarrow> (\<exists>v. u @ v = frame q \<and> v \<noteq> [] \<and> concat ps = v @ concat (map frame qs))"
    using split(2) by (auto simp: xs(2,3) wire_def)
  have rest: "first_frame u = None \<and> u @ concat ps = wire xs2"
  proof (cases xs2)
    case Nil
    then show ?thesis using u(1,2) all by (simp add: xs(1) first_frame_def flip: append_assoc)
  next
    case (Cons x ys)
    note xs2 = this
    then obtain v where v: "u @ v = frame (payload x)" "v \<noteq> []" "concat ps = v @ wire ys"
      using u(3) xs(3) by (auto simp: wire_def)
    have "length (payload x) < 2 ^ 64" using enc by (intro payload_short) (simp add: xs(1) xs2)
    from first_frame_partial[OF this v(1,2)] show ?thesis using v(3) by (simp add: xs2 flip: v(1))
  qed
  have feed: "view k (src @ p) = wire xs1 @ u" using u(1) feed_view by simp
  obtain k1 s1 where d: "decode_ready L B fuel k (src @ p) = (Inr xs1, k1, s1)" "view k1 s1 = u"
    using decode_ready_values[OF feed, of fuel] rest Cons.prems(3,4) by (auto simp: xs(1))
  have "view k1 s1 @ concat ps = wire xs2" "first_frame (view k1 s1) = None" using rest by (simp_all add: d(2))
  from Cons.IH[OF this] Cons.prems(3,4) obtain k2 s2 where
    "decode_pieces L B fuel ps k1 s1 = (Inr xs2, k2, s2)" "view k2 s2 = []" by (auto simp: xs(1))
  then show ?case by (simp add: d(1) xs(1))
qed

lemma codec_roundtrip:
  assumes "bin_encode_all L B xs [] = Inr (concat pieces)" "length xs < fuel"
  shows "fst (decode_pieces L B fuel pieces (lc_new L) []) = Inr xs"
proof -
  have e: "list_all encodes xs" by (rule bin_encode_all_encodes[OF assms(1)])
  then have "concat pieces = wire xs" using assms(1) bin_encode_all_wire[of xs "[]"] by simp
  then have "view (lc_new L) [] @ concat pieces = wire xs" "first_frame (view (lc_new L) []) = None"
    by (simp_all add: new_view first_frame_def)
  from decode_pieces_values[OF this e assms(2)] show ?thesis by auto
qed

end

end
