(* ===== verification/Bincode_Format.thy ===== *)
theory Bincode_Format
  imports Bin_Codec
begin

text \<open>
  The encoding of \<open>bincode\<close> with \<open>config::standard()\<close>, as its specification gives it, for the messages between a
  worker and its executors: an integer is one byte, or a marker and two, four or eight bytes, the least first; a
  vector or a string is its length and its bytes; a structure is its fields in order; a variant is its number and
  its content. \<open>uuid\<close> is sent as sixteen bytes, a duration as seconds and nanoseconds. These definitions and the codec
  \<open>delimited\<close> show that the laws of \<open>Bin_Codec\<close> can be met; they model no code of the repository.
\<close>

section \<open>Codes that end by themselves\<close>

record 'a serde =
  ser :: "'a \<Rightarrow> bytes option"
  de :: "bytes \<Rightarrow> ('a \<times> bytes) option"

definition serde_ok :: "'a serde \<Rightarrow> bool" where
  "serde_ok S \<longleftrightarrow> (\<forall>x bs rest. ser S x = Some bs \<longrightarrow> de S (bs @ rest) = Some (x, rest))"

named_theorems serde_intro \<open>the serialisers that end by themselves\<close>

definition serde_pair :: "'a serde \<Rightarrow> 'b serde \<Rightarrow> ('a \<times> 'b) serde" where
  "serde_pair S T =
     \<lparr>ser = (\<lambda>(x, y). do { xs \<leftarrow> ser S x; ys \<leftarrow> ser T y; Some (xs @ ys) }),
      de = (\<lambda>bs. do { (x, bs) \<leftarrow> de S bs; (y, bs) \<leftarrow> de T bs; Some ((x, y), bs) })\<rparr>"

definition serde_conv :: "('a \<Rightarrow> 'b) \<Rightarrow> ('b \<Rightarrow> 'a) \<Rightarrow> 'b serde \<Rightarrow> 'a serde" where
  "serde_conv f g S = \<lparr>ser = (\<lambda>x. ser S (f x)), de = (\<lambda>bs. do { (y, bs) \<leftarrow> de S bs; Some (g y, bs) })\<rparr>"

definition serde_result :: "'a serde \<Rightarrow> 'b serde \<Rightarrow> ('b + 'a) serde" where
  "serde_result S T =
     \<lparr>ser = (\<lambda>r. case r of Inr x \<Rightarrow> map_option ((#) 0) (ser S x) | Inl y \<Rightarrow> map_option ((#) 1) (ser T y)),
      de = (\<lambda>bs. case bs of
        [] \<Rightarrow> None
      | b # bs \<Rightarrow>
          if b = 0 then map_option (\<lambda>(x, bs). (Inr x, bs)) (de S bs)
          else if b = 1 then map_option (\<lambda>(y, bs). (Inl y, bs)) (de T bs)
          else None)\<rparr>"

lemma serde_pair_ok [serde_intro]: "serde_ok S \<Longrightarrow> serde_ok T \<Longrightarrow> serde_ok (serde_pair S T)"
  by (auto simp: serde_ok_def serde_pair_def split: bind_splits)

lemma serde_conv_ok: "serde_ok S \<Longrightarrow> (\<And>x. g (f x) = x) \<Longrightarrow> serde_ok (serde_conv f g S)"
  by (auto simp: serde_ok_def serde_conv_def)

lemma serde_result_ok [serde_intro]: "serde_ok S \<Longrightarrow> serde_ok T \<Longrightarrow> serde_ok (serde_result S T)"
  by (auto simp: serde_ok_def serde_result_def split: sum.splits)

section \<open>Integers and bytes\<close>

definition le_bytes :: "nat \<Rightarrow> nat \<Rightarrow> bytes" where
  "le_bytes k n = rev (to_be_bytes k n)"

definition varint :: "nat \<Rightarrow> bytes option" where
  "varint n =
     (if n < 251 then Some [of_nat n]
      else if n < 2 ^ 16 then Some (251 # le_bytes 2 n)
      else if n < 2 ^ 32 then Some (252 # le_bytes 4 n)
      else if n < 2 ^ 64 then Some (253 # le_bytes 8 n)
      else None)"

definition take_le :: "nat \<Rightarrow> bytes \<Rightarrow> (nat \<times> bytes) option" where
  "take_le k bs = (if length bs < k then None else Some (from_be_bytes (rev (take k bs)), drop k bs))"

definition parse_varint :: "bytes \<Rightarrow> (nat \<times> bytes) option" where
  "parse_varint bs =
     (case bs of
        [] \<Rightarrow> None
      | b # bs \<Rightarrow>
          if unat b < 251 then Some (unat b, bs)
          else if b = 251 then take_le 2 bs
          else if b = 252 then take_le 4 bs
          else if b = 253 then take_le 8 bs
          else None)"

definition serde_nat :: "nat serde" where
  "serde_nat = \<lparr>ser = varint, de = parse_varint\<rparr>"

definition serde_bytes :: "bytes serde" where
  "serde_bytes =
     \<lparr>ser = (\<lambda>bs. map_option (\<lambda>n. n @ bs) (varint (length bs))),
      de = (\<lambda>bs. do { (n, bs) \<leftarrow> parse_varint bs; if length bs < n then None else Some (take n bs, drop n bs) })\<rparr>"

lemma take_le_bytes [simp]: "n < 256 ^ k \<Longrightarrow> take_le k (le_bytes k n @ rest) = Some (n, rest)"
  by (simp add: take_le_def le_bytes_def be_bytes_roundtrip)

lemma parse_varint: "varint n = Some bs \<Longrightarrow> parse_varint (bs @ rest) = Some (n, rest)"
  by (auto simp: varint_def parse_varint_def unat_of_nat split: if_splits)

lemma serde_nat_ok [serde_intro]: "serde_ok serde_nat"
  by (simp add: serde_ok_def serde_nat_def parse_varint)

lemma serde_bytes_ok [serde_intro]: "serde_ok serde_bytes"
  by (auto simp: serde_ok_def serde_bytes_def parse_varint)

section \<open>The messages of an executor\<close>

definition serde_uuid :: "uuid serde" where
  "serde_uuid = serde_conv (\<lambda>u. to_be_bytes 16 (unat u)) (\<lambda>bs. of_nat (from_be_bytes bs)) serde_bytes"

definition serde_string :: "string serde" where
  "serde_string = serde_conv (map (\<lambda>c. of_nat (of_char c))) (map (\<lambda>b. char_of (unat b))) serde_bytes"

definition serde_duration :: "nanos serde" where
  "serde_duration = serde_conv (\<lambda>n. (n div 10 ^ 9, n mod 10 ^ 9)) (\<lambda>(s, n). 10 ^ 9 * s + n) (serde_pair serde_nat serde_nat)"

definition serde_job :: "executor_job serde" where
  "serde_job =
     serde_conv (\<lambda>j. (ej_job_id j, ej_job_data j, ej_task_id j, ej_task_data j))
       (\<lambda>(u, d, t, x). \<lparr>ej_job_id = u, ej_job_data = d, ej_task_id = t, ej_task_data = x\<rparr>)
       (serde_pair serde_uuid (serde_pair serde_bytes (serde_pair serde_nat serde_bytes)))"

definition serde_executor_result :: "executor_result serde" where
  "serde_executor_result =
     serde_conv (\<lambda>r. (er_job_id r, er_task_id r, er_execution_time r, er_result r))
       (\<lambda>(u, t, d, x). \<lparr>er_job_id = u, er_task_id = t, er_execution_time = d, er_result = x\<rparr>)
       (serde_pair serde_uuid (serde_pair serde_nat (serde_pair serde_duration (serde_result serde_bytes serde_string))))"

lemma serde_uuid_ok [serde_intro]: "serde_ok serde_uuid"
proof -
  have "unat u < 256 ^ 16" for u :: uuid using unsigned_less[of u] by simp
  then show ?thesis unfolding serde_uuid_def
    by (intro serde_conv_ok serde_bytes_ok) (simp add: be_bytes_roundtrip)
qed

lemma serde_string_ok [serde_intro]: "serde_ok serde_string"
proof -
  have "char_of (unat (of_nat (of_char c) :: 8 word)) = c" for c
    by (simp add: unat_of_nat)
  then show ?thesis unfolding serde_string_def by (intro serde_conv_ok serde_bytes_ok) (simp add: o_def)
qed

lemma serde_duration_ok [serde_intro]: "serde_ok serde_duration"
  unfolding serde_duration_def by (intro serde_conv_ok serde_intro) simp

lemma serde_job_ok [serde_intro]: "serde_ok serde_job"
  unfolding serde_job_def by (intro serde_conv_ok serde_intro) simp

lemma serde_executor_result_ok [serde_intro]: "serde_ok serde_executor_result"
  unfolding serde_executor_result_def by (intro serde_conv_ok serde_intro) simp

section \<open>The instances\<close>

text \<open>A vector has fewer than 2^64 bytes.\<close>

definition bincode_of :: "'a serde \<Rightarrow> 'a bincode" where
  "bincode_of S =
     \<lparr>bc_encode = (\<lambda>x. case ser S x of
        Some bs \<Rightarrow> if length bs < 2 ^ 64 then Inr bs else Inl ''too long'' | None \<Rightarrow> Inl ''out of range''),
      bc_decode = (\<lambda>bs. case de S bs of Some (x, _) \<Rightarrow> Inr x | None \<Rightarrow> Inl ''malformed'')\<rparr>"

text \<open>Between two calls the codec may know the length of the frame whose bytes it waits for.\<close>

definition delimited_data :: "64 word \<Rightarrow> bytes \<Rightarrow> (string + bytes option) \<times> 64 word option \<times> bytes" where
  "delimited_data n s =
     (if length s < unat n then (Inr None, Some n, s)
      else (Inr (Some (take (unat n) s)), None, drop (unat n) s))"

definition delimited :: "64 word option length_codec" where
  "delimited =
     \<lparr>lc_new = None,
      lc_encode = (\<lambda>payload dst. Inr (dst @ frame payload)),
      lc_decode = (\<lambda>k s. case k of
        Some n \<Rightarrow> delimited_data n s
      | None \<Rightarrow> if length s < 8 then (Inr None, None, s)
          else delimited_data (of_nat (from_be_bytes (take 8 s))) (drop 8 s))\<rparr>"

definition delimited_view :: "64 word option \<Rightarrow> bytes \<Rightarrow> bytes" where
  "delimited_view k s = (case k of None \<Rightarrow> s | Some n \<Rightarrow> to_be_bytes 8 (unat n) @ s)"

lemma bincode_of_encode:
  "bc_encode (bincode_of S) x = Inr bs \<longleftrightarrow> ser S x = Some bs \<and> length bs < 2 ^ 64"
  by (auto simp: bincode_of_def split: option.splits)

lemma bincode_of_decode:
  assumes "serde_ok S" "ser S x = Some bs"
  shows "bc_decode (bincode_of S) bs = Inr x"
proof -
  have "de S bs = Some (x, [])" using assms by (metis serde_ok_def append_Nil2)
  then show ?thesis by (simp add: bincode_of_def)
qed

lemma from_be_bytes_less: "from_be_bytes bs < 256 ^ length bs"
proof (induction bs rule: rev_induct)
  case (snoc b bs)
  have "unat b < 256" using unsigned_less[of b] by simp
  then show ?case using snoc by simp
qed (simp add: from_be_bytes_def)

lemma be_bytes_inverse: "to_be_bytes (length bs) (from_be_bytes bs) = bs"
proof (induction bs rule: rev_induct)
  case (snoc b bs)
  have "unat b < 256" using unsigned_less[of b] by simp
  then have "unat b div 256 = 0" "of_nat (256 * from_be_bytes bs + unat b) = b"
    by (simp_all add: word_unat_eq_iff unat_of_nat del: of_nat_add of_nat_mult)
  then show ?case using snoc by simp
qed (simp add: from_be_bytes_def)

lemma delimited_data_frame:
  "delimited_data n s = (r, k', s') \<Longrightarrow>
    (case first_frame (to_be_bytes 8 (unat n) @ s) of
       None \<Rightarrow> r = Inr None \<and> delimited_view k' s' = to_be_bytes 8 (unat n) @ s
     | Some (payload, rest) \<Rightarrow> r = Inr (Some payload) \<and> delimited_view k' s' = rest)"
proof -
  assume d: "delimited_data n s = (r, k', s')"
  have "unat n < 256 ^ 8" using unsigned_less[of n] by simp
  then have "from_be_bytes (to_be_bytes 8 (unat n)) = unat n" by (rule be_bytes_roundtrip)
  then show ?thesis using d by (auto simp: first_frame_def delimited_data_def delimited_view_def split: if_splits)
qed

interpretation delimited: frame_laws delimited delimited_view
proof unfold_locales
  fix k s r k' s'
  assume d: "lc_decode delimited k s = (r, k', s')"
  show "case first_frame (delimited_view k s) of
     None \<Rightarrow> r = Inr None \<and> delimited_view k' s' = delimited_view k s
   | Some (payload, rest) \<Rightarrow> r = Inr (Some payload) \<and> delimited_view k' s' = rest"
  proof (cases k)
    case (Some n)
    then have view: "delimited_view k s = to_be_bytes 8 (unat n) @ s" by (simp add: delimited_view_def)
    show ?thesis unfolding view using delimited_data_frame[of n s] d Some by (simp add: delimited_def)
  next
    case None
    show ?thesis
    proof (cases "length s < 8")
      case True
      then show ?thesis using d None by (auto simp: delimited_def delimited_view_def first_frame_def)
    next
      case False
      define n :: "64 word" where "n = of_nat (from_be_bytes (take 8 s))"
      have "from_be_bytes (take 8 s) < 2 ^ 64" using from_be_bytes_less[of "take 8 s"] False by simp
      then have "unat n = from_be_bytes (take 8 s)" by (simp add: n_def unat_of_nat)
      moreover have "length (take 8 s) = 8" using False by simp
      ultimately have view: "to_be_bytes 8 (unat n) @ drop 8 s = s"
        by (metis append_take_drop_id be_bytes_inverse)
      have all: "delimited_view k s = s" using None by (simp add: delimited_view_def)
      show ?thesis unfolding all using delimited_data_frame[of n "drop 8 s", unfolded view] d None False
        by (simp add: delimited_def n_def)
    qed
  qed
qed (simp_all add: delimited_def delimited_view_def split: option.splits)

lemma bincode_codec: "serde_ok S \<Longrightarrow> bin_codec delimited delimited_view (bincode_of S)"
  by unfold_locales (auto simp: bincode_of_encode bincode_of_decode)

interpretation job_frames: bin_codec delimited delimited_view "bincode_of serde_job"
  by (rule bincode_codec) (rule serde_job_ok)

interpretation result_frames: bin_codec delimited delimited_view "bincode_of serde_executor_result"
  by (rule bincode_codec) (rule serde_executor_result_ok)

end
