(* ===== verification/Lru_Cache.thy ===== *)
theory Lru_Cache
  imports Messages
begin

text \<open>
  The \<open>LruCache\<close> of the crate \<open>lru\<close>, which is not part of the repository: the nodes and their
  executors keep the code and the arguments of jobs in such caches, by the identifier of the job.
  Its operations are an argument of the definitions that use them, a record of the functions the
  code calls; the locale \<open>lru_laws\<close> states what the documentation of the crate promises, in terms
  of the entries of a cache from the most to the least recently used one.
\<close>

record ('c, 'v) lru_ops =
  lru_new :: "nat \<Rightarrow> 'c"
  lru_contains :: "'c \<Rightarrow> uuid \<Rightarrow> bool"
  lru_peek :: "'c \<Rightarrow> uuid \<Rightarrow> 'v option"
  lru_peek_mut :: "'c \<Rightarrow> uuid \<Rightarrow> 'v \<Rightarrow> 'c"
  lru_get :: "'c \<Rightarrow> uuid \<Rightarrow> 'v option \<times> 'c"
  lru_push :: "'c \<Rightarrow> uuid \<Rightarrow> 'v \<Rightarrow> (uuid \<times> 'v) option \<times> 'c"

section \<open>What the operations do to the entries\<close>

definition drop_key :: "uuid \<Rightarrow> (uuid \<times> 'v) list \<Rightarrow> (uuid \<times> 'v) list" where
  "drop_key k xs = filter (\<lambda>(k', _). k' \<noteq> k) xs"

text \<open>Reading an entry makes it the most recently used one.\<close>

definition touch :: "uuid \<Rightarrow> (uuid \<times> 'v) list \<Rightarrow> (uuid \<times> 'v) list" where
  "touch k xs = (case map_of xs k of None \<Rightarrow> xs | Some v \<Rightarrow> (k, v) # drop_key k xs)"

text \<open>Pushing replaces the value of a key that is there and otherwise makes room by giving up the
  least recently used entry when the cache is full.\<close>

definition pushed :: "nat \<Rightarrow> uuid \<Rightarrow> 'v \<Rightarrow> (uuid \<times> 'v) list \<Rightarrow> (uuid \<times> 'v) list" where
  "pushed n k v xs =
     (if map_of xs k \<noteq> None then (k, v) # drop_key k xs
      else if length xs = n then (k, v) # butlast xs else (k, v) # xs)"

definition given_up :: "nat \<Rightarrow> uuid \<Rightarrow> (uuid \<times> 'v) list \<Rightarrow> (uuid \<times> 'v) option" where
  "given_up n k xs =
     (case map_of xs k of Some v \<Rightarrow> Some (k, v) | None \<Rightarrow> if length xs = n then Some (last xs) else None)"

definition overwritten :: "uuid \<Rightarrow> 'v \<Rightarrow> (uuid \<times> 'v) list \<Rightarrow> (uuid \<times> 'v) list" where
  "overwritten k v xs = map (\<lambda>(k', v'). (k', if k' = k then v else v')) xs"

lemma drop_key_keys [simp]: "fst ` set (drop_key k xs) = fst ` set xs - {k}"
  by (force simp: drop_key_def)

lemma distinct_drop_key: "distinct (map fst xs) \<Longrightarrow> distinct (map fst (drop_key k xs))"
  by (induction xs) (auto simp: drop_key_def)

lemma map_of_drop_key: "map_of (drop_key k xs) k' = (if k' = k then None else map_of xs k')"
  by (induction xs) (auto simp: drop_key_def)

lemma length_drop_key_less: "k \<in> fst ` set xs \<Longrightarrow> length (drop_key k xs) < length xs"
  by (induction xs) (auto simp: drop_key_def intro: le_imp_less_Suc length_filter_le)

lemma map_of_known: "map_of xs k \<noteq> None \<longleftrightarrow> k \<in> fst ` set xs"
  by (metis map_of_eq_None_iff)

lemma touch_keys [simp]: "fst ` set (touch k xs) = fst ` set xs"
  using map_of_known[of xs k] by (auto simp: touch_def split: option.splits)

lemma map_of_touch [simp]: "map_of (touch k xs) k' = map_of xs k'"
  by (auto simp: touch_def map_of_drop_key split: option.splits)

lemma distinct_touch: "distinct (map fst xs) \<Longrightarrow> distinct (map fst (touch k xs))"
  using drop_key_keys[of k xs] by (simp add: touch_def distinct_drop_key del: drop_key_keys split: option.splits)

lemma length_touch: "length (touch k xs) \<le> length xs"
  using length_drop_key_less[of k xs] map_of_known[of xs k] by (simp add: touch_def Suc_le_eq split: option.splits)

lemma map_of_overwritten:
  "map_of (overwritten k v xs) k' = (if k' = k then map_option (\<lambda>_. v) (map_of xs k) else map_of xs k')"
  by (induction xs) (auto simp: overwritten_def)

lemma overwritten_keys [simp]: "map fst (overwritten k v xs) = map fst xs"
  by (auto simp: overwritten_def)

lemma length_overwritten [simp]: "length (overwritten k v xs) = length xs"
  by (simp add: overwritten_def)

lemma butlast_keys:
  assumes "distinct (map fst xs)" "xs \<noteq> []"
  shows "fst ` set (butlast xs) = fst ` set xs - {fst (last xs)}" "fst (last xs) \<in> fst ` set xs"
  using assms by (induction xs rule: rev_induct) force+

lemma pushed_keys:
  assumes "distinct (map fst xs)" "xs \<noteq> [] \<or> n \<noteq> 0"
  shows "fst ` set (pushed n k v xs) =
    insert k (fst ` set xs - (case given_up n k xs of None \<Rightarrow> {} | Some (k', _) \<Rightarrow> {k'}))"
proof (cases "map_of xs k = None \<and> length xs = n")
  case True
  then have "xs \<noteq> []" using assms(2) by auto
  then show ?thesis using True butlast_keys[OF assms(1)]
    by (auto simp: pushed_def given_up_def split: prod.splits)
next
  case False
  then show ?thesis by (auto simp: pushed_def given_up_def split: option.splits)
qed

lemma map_of_pushed_same [simp]: "map_of (pushed n k v xs) k = Some v"
  by (simp add: pushed_def)

lemma map_of_pushed:
  assumes "map_of (pushed n k v xs) u = Some z" "distinct (map fst xs)"
  shows "u = k \<and> z = v \<or> map_of xs u = Some z"
proof -
  have "map_of xs u = Some z" if "map_of (butlast xs) u = Some z"
    using that assms(2) in_set_butlastD[OF map_of_SomeD] by (metis map_of_eq_Some_iff)
  then show ?thesis using assms(1) by (auto simp: pushed_def map_of_drop_key split: if_splits)
qed

section \<open>The laws\<close>

locale lru_laws =
  fixes L :: "('c, 'v) lru_ops"
    and ok :: "'c \<Rightarrow> bool"
    and cap :: "'c \<Rightarrow> nat"
    and entries :: "'c \<Rightarrow> (uuid \<times> 'v) list"
  assumes new_law: "0 < n \<Longrightarrow> ok (lru_new L n) \<and> cap (lru_new L n) = n \<and> entries (lru_new L n) = []"
    and ok_law: "ok c \<Longrightarrow> distinct (map fst (entries c)) \<and> length (entries c) \<le> cap c \<and> 0 < cap c"
    and contains_law: "ok c \<Longrightarrow> lru_contains L c k \<longleftrightarrow> map_of (entries c) k \<noteq> None"
    and peek_law: "ok c \<Longrightarrow> lru_peek L c k = map_of (entries c) k"
    and peek_mut_law: "ok c \<Longrightarrow> ok (lru_peek_mut L c k v) \<and> cap (lru_peek_mut L c k v) = cap c \<and>
      entries (lru_peek_mut L c k v) = overwritten k v (entries c)"
    and get_value: "ok c \<Longrightarrow> fst (lru_get L c k) = map_of (entries c) k"
    and get_law: "ok c \<Longrightarrow> ok (snd (lru_get L c k)) \<and> cap (snd (lru_get L c k)) = cap c \<and>
      entries (snd (lru_get L c k)) = touch k (entries c)"
    and push_value: "ok c \<Longrightarrow> fst (lru_push L c k v) = given_up (cap c) k (entries c)"
    and push_law: "ok c \<Longrightarrow> ok (snd (lru_push L c k v)) \<and> cap (snd (lru_push L c k v)) = cap c \<and>
      entries (snd (lru_push L c k v)) = pushed (cap c) k v (entries c)"
begin

definition keys :: "'c \<Rightarrow> uuid set" where
  "keys c = fst ` set (entries c)"

lemma keys_new: "0 < n \<Longrightarrow> keys (lru_new L n) = {}"
  using new_law by (simp add: keys_def)

lemma keys_get [simp]: "ok c \<Longrightarrow> keys (snd (lru_get L c k)) = keys c"
  using get_law by (simp add: keys_def)

lemma get_None: "ok c \<Longrightarrow> fst (lru_get L c k) = None \<longleftrightarrow> k \<notin> keys c"
  using get_value map_of_known[of "entries c" k] by (auto simp: keys_def)

lemma contains_keys: "ok c \<Longrightarrow> lru_contains L c k \<longleftrightarrow> k \<in> keys c"
  using contains_law map_of_known[of "entries c" k] by (simp add: keys_def)

text \<open>Pushing a new key removes exactly the key that is given up.\<close>

lemma keys_push:
  assumes "ok c"
  shows "keys (snd (lru_push L c k v)) =
    insert k (keys c - (case fst (lru_push L c k v) of None \<Rightarrow> {} | Some (k', _) \<Rightarrow> {k'}))"
  using pushed_keys[of "entries c" "cap c" k v] ok_law[OF assms] push_law[OF assms, of k v] push_value[OF assms, of k v]
  by (simp add: keys_def)

lemma push_gives_up_known:
  assumes "ok c" "fst (lru_push L c k v) = Some (k', v')" "k \<notin> keys c"
  shows "k' \<in> keys c" "k' \<noteq> k"
proof -
  have "map_of (entries c) k = None" using assms(3) map_of_known[of "entries c" k] by (simp add: keys_def)
  then have "length (entries c) = cap c" "last (entries c) = (k', v')"
    using assms(2) push_value[OF assms(1), of k v] by (auto simp: given_up_def split: if_splits)
  moreover have "0 < cap c" using ok_law[OF assms(1)] by simp
  ultimately show "k' \<in> keys c" using last_in_set[of "entries c"] by (force simp: keys_def)
  then show "k' \<noteq> k" using assms(3) by blast
qed

lemma push_lookup: "ok c \<Longrightarrow> map_of (entries (snd (lru_push L c k v))) k = Some v"
  using push_law by simp

end

section \<open>An instance\<close>

text \<open>A cache as the list of its entries, so that the laws can be met and the definitions evaluated.\<close>

record 'v lru_list =
  ll_cap :: nat
  ll_entries :: "(uuid \<times> 'v) list"

definition list_lru :: "('v lru_list, 'v) lru_ops" where
  "list_lru =
     \<lparr>lru_new = (\<lambda>n. \<lparr>ll_cap = n, ll_entries = []\<rparr>),
      lru_contains = (\<lambda>c k. map_of (ll_entries c) k \<noteq> None),
      lru_peek = (\<lambda>c k. map_of (ll_entries c) k),
      lru_peek_mut = (\<lambda>c k v. c\<lparr>ll_entries := overwritten k v (ll_entries c)\<rparr>),
      lru_get = (\<lambda>c k. (map_of (ll_entries c) k, c\<lparr>ll_entries := touch k (ll_entries c)\<rparr>)),
      lru_push = (\<lambda>c k v. (given_up (ll_cap c) k (ll_entries c),
        c\<lparr>ll_entries := pushed (ll_cap c) k v (ll_entries c)\<rparr>))\<rparr>"

definition lru_list_ok :: "'v lru_list \<Rightarrow> bool" where
  "lru_list_ok c \<longleftrightarrow>
     distinct (map fst (ll_entries c)) \<and> length (ll_entries c) \<le> ll_cap c \<and> 0 < ll_cap c"

lemma pushed_ok:
  assumes "distinct (map fst xs)" "length xs \<le> n" "0 < n"
  shows "distinct (map fst (pushed n k v xs))" "length (pushed n k v xs) \<le> n"
proof -
  have "k \<notin> fst ` set (butlast xs)" if "map_of xs k = None" using that in_set_butlastD[of _ xs] by (auto simp: map_of_eq_None_iff)
  then show "distinct (map fst (pushed n k v xs))"
    using assms(1) distinct_butlast[of "map fst xs"]
    by (auto simp: pushed_def distinct_drop_key map_butlast map_of_eq_None_iff dest: in_set_butlastD)
  show "length (pushed n k v xs) \<le> n"
  proof (cases "map_of xs k = None")
    case False
    then show ?thesis using assms(2) length_drop_key_less[of k xs] map_of_known[of xs k] by (simp add: pushed_def)
  qed (use assms in \<open>auto simp: pushed_def\<close>)
qed

interpretation list_lru: lru_laws list_lru lru_list_ok ll_cap ll_entries
proof unfold_locales
  fix c :: "'v lru_list" and k
  assume "lru_list_ok c"
  then show "lru_list_ok (snd (lru_get list_lru c k)) \<and> ll_cap (snd (lru_get list_lru c k)) = ll_cap c \<and>
      ll_entries (snd (lru_get list_lru c k)) = touch k (ll_entries c)"
    using length_touch[of k "ll_entries c"] by (auto simp: list_lru_def lru_list_ok_def distinct_touch)
next
  fix c :: "'v lru_list" and k v
  assume "lru_list_ok c"
  then show "lru_list_ok (snd (lru_push list_lru c k v)) \<and> ll_cap (snd (lru_push list_lru c k v)) = ll_cap c \<and>
      ll_entries (snd (lru_push list_lru c k v)) = pushed (ll_cap c) k v (ll_entries c)"
    using pushed_ok[of "ll_entries c" "ll_cap c" k v] by (simp add: list_lru_def lru_list_ok_def)
next
  fix c :: "'v lru_list" and k v
  assume "lru_list_ok c"
  then show "lru_list_ok (lru_peek_mut list_lru c k v) \<and> ll_cap (lru_peek_mut list_lru c k v) = ll_cap c \<and>
      ll_entries (lru_peek_mut list_lru c k v) = overwritten k v (ll_entries c)"
    by (simp add: list_lru_def lru_list_ok_def)
qed (simp_all add: list_lru_def lru_list_ok_def)

end
