(* ===== verification/Executor_Process.thy ===== *)
theory Executor_Process
  imports Bincode_Format Lru_Cache
begin

text \<open>
  The process that runs the dynamic library of a job, \<open>node/executor/src/main.rs\<close>: it reads jobs from its socket,
  loads the library of a job through a cache of five libraries, calls its function and writes the result.
  \<open>None\<close> is a panic, which ends the process like an error does.

  The bytes that ever arrive at the socket are the state \<open>ex_input\<close>; when they are used up the socket is closed.
  The system and the libraries are the argument \<open>E\<close>: what opening the library of a job and looking up its function
  gives, what the function does, how long it takes and whether the socket takes more bytes. \<open>bincode\<close> and \<open>lru\<close>
  are arguments like in the worker. The process writes its frames itself; that they are the frames of
  \<open>BinCodec\<close>, which the worker at the other end of the socket uses, is part of what is proved.
\<close>

declare split_paired_All [simp del] split_paired_Ex [simp del]

section \<open>The data\<close>

datatype call_outcome = Returned "string + bytes" | Unwound

record 'lib executor_env =
  open_library :: "uuid \<Rightarrow> string + 'lib"
  execute_job :: "'lib \<Rightarrow> string + (bytes \<Rightarrow> bytes \<Rightarrow> call_outcome)"
  elapsed :: "executor_job \<Rightarrow> nanos"
  writable :: "bytes \<Rightarrow> bool"

record 'c executor =
  ex_input :: bytes
  ex_output :: bytes
  lru_cache :: 'c

text \<open>\<open>LruCache::try_get_or_insert\<close>, with the value that the closure would give.\<close>

type_synonym ('c, 'lib) try_insert = "'c \<Rightarrow> uuid \<Rightarrow> string + 'lib \<Rightarrow> (string + 'lib) \<times> 'c"

locale lru_try_laws = lru_laws L ok cap entries
  for L :: "('c, 'v) lru_ops" and ok :: "'c \<Rightarrow> bool" and cap :: "'c \<Rightarrow> nat" and entries :: "'c \<Rightarrow> (uuid \<times> 'v) list" +
  fixes T :: "('c, 'v) try_insert"
  assumes try_value: "ok c \<Longrightarrow> fst (T c k r) = (case map_of (entries c) k of Some x \<Rightarrow> Inr x | None \<Rightarrow> r)"
    and try_law: "ok c \<Longrightarrow> ok (snd (T c k r)) \<and> cap (snd (T c k r)) = cap c \<and>
      entries (snd (T c k r)) =
        (case (map_of (entries c) k, r) of
           (Some x, _) \<Rightarrow> touch k (entries c)
         | (None, Inr x) \<Rightarrow> pushed (cap c) k x (entries c)
         | (None, Inl _) \<Rightarrow> entries c)"

section \<open>The operations\<close>

definition executor_new :: "('c, 'lib) lru_ops \<Rightarrow> bytes \<Rightarrow> 'c executor" where
  "executor_new L input = \<lparr>ex_input = input, ex_output = [], lru_cache = lru_new L 5\<rparr>"

definition read_exact :: "nat \<Rightarrow> 'c executor \<Rightarrow> (bytes \<times> 'c executor) option" where
  "read_exact n ex =
     (if length (ex_input ex) < n then None
      else Some (take n (ex_input ex), ex\<lparr>ex_input := drop n (ex_input ex)\<rparr>))"

text \<open>The prefix may announce more than can be allocated, which aborts the process in the code; here, as for every frame that is not complete, it ends with an error.\<close>

definition recv_job :: "executor_job bincode \<Rightarrow> 'c executor \<Rightarrow> string + executor_job \<times> 'c executor" where
  "recv_job BJ ex =
     (case read_exact 8 ex of
        None \<Rightarrow> Inl ''Unable to read size-prefix''
      | Some (len, ex) \<Rightarrow>
          (case read_exact (from_be_bytes len) ex of
             None \<Rightarrow> Inl ''Unable to read data''
           | Some (data, ex) \<Rightarrow>
               (case bc_decode BJ data of
                  Inl _ \<Rightarrow> Inl ''Unable to deserialize Job''
                | Inr job \<Rightarrow> Inr (job, ex))))"

definition get_library ::
  "'lib executor_env \<Rightarrow> ('c, 'lib) try_insert \<Rightarrow> uuid \<Rightarrow> 'c executor \<Rightarrow> (string + 'lib) \<times> 'c executor" where
  "get_library E T uuid ex =
     (let (r, c) = T (lru_cache ex) uuid
            (case open_library E uuid of Inr lib \<Rightarrow> Inr lib | Inl _ \<Rightarrow> Inl ''Unable to open library'')
      in (r, ex\<lparr>lru_cache := c\<rparr>))"

definition get_func ::
  "'lib executor_env \<Rightarrow> ('c, 'lib) try_insert \<Rightarrow> uuid \<Rightarrow> 'c executor \<Rightarrow>
   (string + (bytes \<Rightarrow> bytes \<Rightarrow> call_outcome)) \<times> 'c executor" where
  "get_func E T uuid ex =
     (case get_library E T uuid ex of
        (Inl err, ex) \<Rightarrow> (Inl err, ex)
      | (Inr lib, ex) \<Rightarrow>
          (case execute_job E lib of
             Inl _ \<Rightarrow> (Inl ''Unable to find executor function'', ex)
           | Inr func \<Rightarrow> (Inr func, ex)))"

text \<open>The \<open>try\<close> block of \<open>start\<close>. The function of the library is a function of its arguments, and every unwinding out of it is caught.\<close>

definition run_job ::
  "'lib executor_env \<Rightarrow> ('c, 'lib) try_insert \<Rightarrow> executor_job \<Rightarrow> 'c executor \<Rightarrow> (string + bytes) \<times> 'c executor" where
  "run_job E T job ex =
     (case get_func E T (ej_job_id job) ex of
        (Inl err, ex) \<Rightarrow> (Inl err, ex)
      | (Inr func, ex) \<Rightarrow>
          (case func (ej_job_data job) (ej_task_data job) of
             Unwound \<Rightarrow> (Inl ''Failed to execute function'', ex)
           | Returned r \<Rightarrow> (r, ex)))"

definition write_all :: "'lib executor_env \<Rightarrow> bytes \<Rightarrow> 'c executor \<Rightarrow> 'c executor option" where
  "write_all E bs ex =
     (if writable E (ex_output ex) then Some (ex\<lparr>ex_output := ex_output ex @ bs\<rparr>) else None)"

definition send_result ::
  "'lib executor_env \<Rightarrow> executor_result bincode \<Rightarrow> executor_result \<Rightarrow> 'c executor \<Rightarrow>
   ((string + unit) \<times> 'c executor) option" where
  "send_result E BR r ex =
     (case bc_encode BR r of
        Inl _ \<Rightarrow> None
      | Inr data \<Rightarrow> Some
          (case write_all E (to_be_bytes 8 (length data)) ex of
             None \<Rightarrow> (Inl ''write'', ex)
           | Some ex \<Rightarrow> (case write_all E data ex of None \<Rightarrow> (Inl ''write'', ex) | Some ex \<Rightarrow> (Inr (), ex))))"

lemma read_exact_Some:
  "read_exact n ex = Some (bs, ex') \<longleftrightarrow> ex_input ex = bs @ ex_input ex' \<and> length bs = n \<and>
     ex' = ex\<lparr>ex_input := ex_input ex'\<rparr>"
  by (auto simp: read_exact_def not_less intro!: executor.equality)

lemma recv_job_shorter: "recv_job BJ ex = Inr (job, ex') \<Longrightarrow> length (ex_input ex') < length (ex_input ex)"
  by (auto simp: recv_job_def read_exact_Some split: option.splits sum.splits)

lemma get_library_input [simp]: "ex_input (snd (get_library E T u ex)) = ex_input ex"
  by (simp add: get_library_def split: prod.splits)

lemma run_job_input [simp]: "ex_input (snd (run_job E T job ex)) = ex_input ex"
  using get_library_input[of E T "ej_job_id job" ex]
  by (auto simp: run_job_def get_func_def simp del: get_library_input split: prod.splits sum.splits call_outcome.splits)

lemma send_result_input: "send_result E BR r ex = Some (x, ex') \<Longrightarrow> ex_input ex' = ex_input ex"
  by (auto simp: send_result_def write_all_def split: sum.splits option.splits if_splits)

text \<open>\<open>Executor::start\<close> with the error that ends it and what it has written then.\<close>

function executor_start ::
  "'lib executor_env \<Rightarrow> ('c, 'lib) try_insert \<Rightarrow> executor_job bincode \<Rightarrow> executor_result bincode \<Rightarrow> 'c executor \<Rightarrow>
   (string \<times> bytes) option" where
  "executor_start E T BJ BR ex =
     (case recv_job BJ ex of
        Inl err \<Rightarrow> Some (err, ex_output ex)
      | Inr (job, ex) \<Rightarrow>
          (let (r, ex) = run_job E T job ex;
               res = \<lparr>er_job_id = ej_job_id job, er_task_id = ej_task_id job,
                 er_execution_time = elapsed E job, er_result = r\<rparr>
           in case send_result E BR res ex of
                None \<Rightarrow> None
              | Some (Inl err, ex) \<Rightarrow> Some (err, ex_output ex)
              | Some (Inr _, ex) \<Rightarrow> executor_start E T BJ BR ex))"
  by pat_completeness auto
termination
proof (relation "measure (\<lambda>(_, _, _, _, ex). length (ex_input ex))", goal_cases)
  case (2 E T BJ BR ex p job ex1 q r ex2 res s u ex3 v)
  then have "ex_input ex2 = ex_input ex1" using run_job_input[of E T job ex1] by (metis snd_conv)
  then show ?case using 2 recv_job_shorter[of BJ ex job ex1] send_result_input[of E BR res ex2 u ex3] by auto
qed simp

declare executor_start.simps [simp del]

section \<open>What a job gives\<close>

text \<open>The result of a job depends on its library alone, not on the cache or on the jobs before it.\<close>

definition job_outcome :: "'lib executor_env \<Rightarrow> executor_job \<Rightarrow> string + bytes" where
  "job_outcome E job =
     (case open_library E (ej_job_id job) of
        Inl _ \<Rightarrow> Inl ''Unable to open library''
      | Inr lib \<Rightarrow>
          (case execute_job E lib of
             Inl _ \<Rightarrow> Inl ''Unable to find executor function''
           | Inr func \<Rightarrow>
               (case func (ej_job_data job) (ej_task_data job) of
                  Unwound \<Rightarrow> Inl ''Failed to execute function''
                | Returned r \<Rightarrow> r)))"

definition job_answer :: "'lib executor_env \<Rightarrow> executor_job \<Rightarrow> executor_result" where
  "job_answer E job = \<lparr>er_job_id = ej_job_id job, er_task_id = ej_task_id job,
     er_execution_time = elapsed E job, er_result = job_outcome E job\<rparr>"

context lru_try_laws
begin

text \<open>The cache holds libraries as they are opened.\<close>

definition cache_ok :: "'v executor_env \<Rightarrow> 'c \<Rightarrow> bool" where
  "cache_ok E c \<longleftrightarrow> ok c \<and> (\<forall>k x. map_of (entries c) k = Some x \<longrightarrow> open_library E k = Inr x)"

lemma cache_ok_new: "cache_ok E (lru_new L 5)"
  using new_law[of 5] by (simp add: cache_ok_def)

lemma cache_ok_try:
  assumes "cache_ok E c" "\<And>x. r = Inr x \<Longrightarrow> open_library E k = Inr x"
  shows "cache_ok E (snd (T c k r))"
proof -
  have ok: "ok c" and d: "distinct (map fst (entries c))" using assms(1) ok_law by (auto simp: cache_ok_def)
  have "open_library E u = Inr z" if "map_of (entries (snd (T c k r))) u = Some z" for u z
    using that try_law[OF ok, of k r] assms
    by (auto simp: cache_ok_def split: option.splits sum.splits dest!: map_of_pushed[OF _ d])
  then show ?thesis using try_law[OF ok, of k r] by (simp add: cache_ok_def)
qed

lemma get_library_value:
  assumes "cache_ok E (lru_cache ex)"
  shows "\<exists>c. cache_ok E c \<and> get_library E T u ex =
    (case open_library E u of Inr lib \<Rightarrow> Inr lib | Inl _ \<Rightarrow> Inl ''Unable to open library'', ex\<lparr>lru_cache := c\<rparr>)"
proof -
  define r where "r = (case open_library E u of Inr lib \<Rightarrow> Inr lib | Inl _ \<Rightarrow> Inl ''Unable to open library'')"
  have "cache_ok E (snd (T (lru_cache ex) u r))"
    using assms by (rule cache_ok_try) (simp add: r_def split: sum.splits)
  moreover have "fst (T (lru_cache ex) u r) = r"
    using assms try_value[of "lru_cache ex" u r] by (auto simp: cache_ok_def r_def split: option.splits sum.splits)
  ultimately show ?thesis
    by (intro exI[of _ "snd (T (lru_cache ex) u r)"]) (simp add: get_library_def r_def[symmetric] case_prod_beta)
qed

lemma run_job_value:
  assumes "cache_ok E (lru_cache ex)"
  shows "\<exists>c. cache_ok E c \<and> run_job E T job ex = (job_outcome E job, ex\<lparr>lru_cache := c\<rparr>)"
  using get_library_value[OF assms, of "ej_job_id job"]
  by (auto simp: run_job_def get_func_def job_outcome_def split: sum.splits call_outcome.splits)

text \<open>A library that cannot be opened now, but is the same whenever it can be.\<close>

lemma run_job_shared:
  assumes "cache_ok E (lru_cache ex)" "execute_job E' = execute_job E"
    "open_library E' (ej_job_id job) = open_library E (ej_job_id job) \<or> (\<exists>err. open_library E' (ej_job_id job) = Inl err)"
  shows "\<exists>r c. run_job E' T job ex = (r, ex\<lparr>lru_cache := c\<rparr>) \<and> cache_ok E c \<and>
    (r = job_outcome E job \<or>
     r = Inl ''Unable to open library'' \<and> open_library E' (ej_job_id job) \<noteq> open_library E (ej_job_id job))"
proof -
  let ?u = "ej_job_id job"
  define r where "r = (case open_library E' ?u of Inr lib \<Rightarrow> Inr lib | Inl _ \<Rightarrow> Inl ''Unable to open library'')"
  define c where "c = snd (T (lru_cache ex) ?u r)"
  have "open_library E ?u = Inr x" if "r = Inr x" for x using that assms(3) by (auto simp: r_def split: sum.splits)
  then have c: "cache_ok E c" unfolding c_def by (rule cache_ok_try[OF assms(1)])
  have v: "fst (T (lru_cache ex) ?u r) = (case map_of (entries (lru_cache ex)) ?u of Some x \<Rightarrow> Inr x | None \<Rightarrow> r)"
    using assms(1) by (intro try_value) (simp add: cache_ok_def)
  have lib: "get_library E' T ?u ex = (fst (T (lru_cache ex) ?u r), ex\<lparr>lru_cache := c\<rparr>)"
    by (simp add: get_library_def r_def[symmetric] c_def case_prod_beta)
  show ?thesis
  proof (cases "map_of (entries (lru_cache ex)) ?u")
    case (Some x)
    then have "open_library E ?u = Inr x" using assms(1) by (simp add: cache_ok_def)
    then show ?thesis using Some c lib v
      by (auto simp: run_job_def get_func_def job_outcome_def assms(2) split: sum.splits call_outcome.splits)
  next
    case None
    then show ?thesis using c lib v assms(3)
      by (auto simp: run_job_def get_func_def job_outcome_def assms(2) r_def split: sum.splits call_outcome.splits)
  qed
qed

end

section \<open>Both ends of the socket\<close>

locale executor_socket = lru_try_laws L ok cap entries T + jobs: bin_codec D view BJ + results: bin_codec D view BR
  for L :: "('c, 'lib) lru_ops" and ok and cap and entries and T and D :: "'k length_codec" and view
    and BJ :: "executor_job bincode" and BR :: "executor_result bincode" +
  fixes E :: "'lib executor_env"
  assumes writes: "writable E out"
begin

lemma recv_job_frame:
  assumes "ex_input ex = frame (jobs.payload j) @ rest" "jobs.encodes j"
  shows "recv_job BJ ex = Inr (j, ex\<lparr>ex_input := rest\<rparr>)"
proof -
  have "from_be_bytes (to_be_bytes 8 (length (jobs.payload j))) = length (jobs.payload j)"
    using jobs.payload_short[OF assms(2)] by (intro be_bytes_roundtrip) simp
  then show ?thesis using assms by (simp add: recv_job_def read_exact_def frame_def jobs.payload_decodes)
qed

lemma recv_job_partial: "first_frame (ex_input ex) = None \<Longrightarrow> \<exists>err. recv_job BJ ex = Inl err"
  by (auto simp: recv_job_def read_exact_def first_frame_def Let_def split: if_splits)

lemma send_result_frame:
  "results.encodes r \<Longrightarrow>
    send_result E BR r ex = Some (Inr (), ex\<lparr>ex_output := ex_output ex @ frame (results.payload r)\<rparr>)"
  by (auto simp: send_result_def results.encodes_def results.payload_def write_all_def writes frame_def split: sum.splits)

lemma start_answers:
  assumes "ex_input ex = jobs.wire js @ u" "first_frame u = None" "list_all jobs.encodes js"
    "list_all results.encodes (map (job_answer E) js)" "cache_ok E (lru_cache ex)"
  shows "\<exists>err. executor_start E T BJ BR ex = Some (err, ex_output ex @ results.wire (map (job_answer E) js))"
  using assms
proof (induction js arbitrary: ex)
  case Nil
  then show ?case using recv_job_partial[of ex] by (subst executor_start.simps) auto
next
  case (Cons j js)
  obtain c where c: "cache_ok E c" "run_job E T j (ex\<lparr>ex_input := jobs.wire js @ u\<rparr>) =
      (job_outcome E j, ex\<lparr>ex_input := jobs.wire js @ u, lru_cache := c\<rparr>)"
    using run_job_value[of E "ex\<lparr>ex_input := jobs.wire js @ u\<rparr>" j] Cons.prems(5) by auto
  have "recv_job BJ ex = Inr (j, ex\<lparr>ex_input := jobs.wire js @ u\<rparr>)"
    using Cons.prems(1,3) by (intro recv_job_frame) simp_all
  then have "executor_start E T BJ BR ex = executor_start E T BJ BR
      (ex\<lparr>ex_input := jobs.wire js @ u, lru_cache := c, ex_output := ex_output ex @ frame (results.payload (job_answer E j))\<rparr>)"
    using Cons.prems(4) send_result_frame[of "job_answer E j" "ex\<lparr>ex_input := jobs.wire js @ u, lru_cache := c\<rparr>"]
    by (subst executor_start.simps) (simp add: c(2) job_answer_def)
  then show ?case using Cons.IH[of "ex\<lparr>ex_input := jobs.wire js @ u, lru_cache := c,
      ex_output := ex_output ex @ frame (results.payload (job_answer E j))\<rparr>"] Cons.prems(2-4) c(1) by simp
qed

end

section \<open>An instance\<close>

definition list_try_insert :: "('v lru_list, 'v) try_insert" where
  "list_try_insert c k r =
     (case map_of (ll_entries c) k of
        Some x \<Rightarrow> (Inr x, snd (lru_get list_lru c k))
      | None \<Rightarrow> (case r of Inr x \<Rightarrow> (r, snd (lru_push list_lru c k x)) | Inl _ \<Rightarrow> (r, c)))"

interpretation list_try: lru_try_laws list_lru lru_list_ok ll_cap ll_entries list_try_insert
proof unfold_locales
  fix c :: "'v lru_list" and k r
  assume ok: "lru_list_ok c"
  show "fst (list_try_insert c k r) = (case map_of (ll_entries c) k of Some x \<Rightarrow> Inr x | None \<Rightarrow> r)"
    by (simp add: list_try_insert_def split: option.splits sum.splits)
  show "lru_list_ok (snd (list_try_insert c k r)) \<and> ll_cap (snd (list_try_insert c k r)) = ll_cap c \<and>
      ll_entries (snd (list_try_insert c k r)) =
        (case (map_of (ll_entries c) k, r) of
           (Some x, _) \<Rightarrow> touch k (ll_entries c)
         | (None, Inr x) \<Rightarrow> pushed (ll_cap c) k x (ll_entries c)
         | (None, Inl _) \<Rightarrow> ll_entries c)"
    using list_lru.get_law[OF ok, of k] list_lru.push_law[OF ok, of k] ok
    by (auto simp: list_try_insert_def split: option.splits sum.splits)
qed

text \<open>A library that joins the arguments of the job and of the task and unwinds when the task has none, for the job 1 alone.\<close>

definition joining_env :: "unit executor_env" where
  "joining_env =
     \<lparr>open_library = (\<lambda>u. if u = 1 then Inr () else Inl ''no file''),
      execute_job = (\<lambda>_. Inr (\<lambda>a b. if b = [] then Unwound else Returned (Inr (a @ b)))),
      elapsed = (\<lambda>_. 7), writable = (\<lambda>_. True)\<rparr>"

interpretation joining: executor_socket list_lru lru_list_ok ll_cap ll_entries list_try_insert delimited delimited_view
    "bincode_of serde_job" "bincode_of serde_executor_result" joining_env
  by unfold_locales (simp add: joining_env_def)

definition some_jobs :: "executor_job list" where
  "some_jobs =
     [\<lparr>ej_job_id = 1, ej_job_data = [1], ej_task_id = 300, ej_task_data = [2]\<rparr>,
      \<lparr>ej_job_id = 2, ej_job_data = [1], ej_task_id = 4, ej_task_data = [2]\<rparr>,
      \<lparr>ej_job_id = 1, ej_job_data = [], ej_task_id = 5, ej_task_data = []\<rparr>]"

definition some_results :: "executor_result list" where
  "some_results =
     [\<lparr>er_job_id = 1, er_task_id = 300, er_execution_time = 7, er_result = Inr [1, 2]\<rparr>,
      \<lparr>er_job_id = 2, er_task_id = 4, er_execution_time = 7, er_result = Inl ''Unable to open library''\<rparr>,
      \<lparr>er_job_id = 1, er_task_id = 5, er_execution_time = 7, er_result = Inl ''Failed to execute function''\<rparr>]"

lemmas serde_eval = serde_job_def serde_executor_result_def serde_conv_def serde_pair_def serde_result_def serde_uuid_def
  serde_bytes_def serde_nat_def serde_duration_def serde_string_def varint_def le_bytes_def

lemma some_results_job_answer: "map (job_answer joining_env) some_jobs = some_results"
  by (simp add: some_jobs_def some_results_def job_answer_def job_outcome_def joining_env_def)

lemma some_jobs_encoded: "list_all job_frames.encodes some_jobs"
  unfolding some_jobs_def job_frames.encodes_def by (simp add: bincode_of_def serde_eval)

lemma some_results_encoded: "list_all result_frames.encodes some_results"
  unfolding some_results_def result_frames.encodes_def by (simp add: bincode_of_def serde_eval)

section \<open>Properties\<close>

text \<open>C20. \<open>BinCodec\<close> delivers what it was given: when a sequence of values has been encoded and the bytes arrive at a
  decoder in any pieces, the decoder delivers exactly these values in their order, without an error.\<close>

theorem codec_delivers:
  assumes "bin_codec D view B"
    and "bin_encode_all D B xs [] = Inr (concat pieces)"
    and "length xs < fuel"
  shows "fst (decode_pieces D B fuel pieces (lc_new D) []) = Inr xs"
  by (rule bin_codec.codec_roundtrip[OF assms])

theorem codec_delivers_witness:
  "fst (decode_pieces delimited (bincode_of serde_job) 4
     [take 11 (job_frames.wire some_jobs), drop 11 (job_frames.wire some_jobs)] (lc_new delimited) []) = Inr some_jobs"
proof -
  have "bin_encode_all delimited (bincode_of serde_job) some_jobs [] =
      Inr (concat [take 11 (job_frames.wire some_jobs), drop 11 (job_frames.wire some_jobs)])"
    using job_frames.bin_encode_all_wire[OF some_jobs_encoded, of "[]"] by simp
  moreover have "length some_jobs < 4" by (simp add: some_jobs_def)
  ultimately show ?thesis by (rule codec_delivers[OF job_frames.bin_codec_axioms])
qed

text \<open>C17. The executor process answers every job that its worker has encoded with \<open>BinCodec\<close>, in order and with what the
  library of the job computes (an error when the library cannot be opened, has no function or unwinds), whatever its
  cache holds; a beginning of a further job is not answered. What it writes is what a \<open>BinCodec\<close> decodes to these
  results, in whatever pieces it arrives. It ends when the bytes end.\<close>

theorem executor_serves:
  assumes "lru_try_laws L ok cap entries T"
    and "bin_codec D view BJ" and "bin_codec D view BR"
    and "\<And>out. writable E out"
    and "bin_encode_all D BJ jobs [] = Inr sent"
    and "\<And>j. j \<in> set jobs \<Longrightarrow> \<exists>bs. bc_encode BR (job_answer E j) = Inr bs"
    and "first_frame beginning = None"
    and "length jobs < fuel"
  shows "\<exists>err out. executor_start E T BJ BR (executor_new L (sent @ beginning)) = Some (err, out) \<and>
    (\<forall>pieces. concat pieces = out \<longrightarrow>
       fst (decode_pieces D BR fuel pieces (lc_new D) []) = Inr (map (job_answer E) jobs))"
proof -
  have loc: "executor_socket L ok cap entries T D view BJ BR E"
    using assms(1-4) by (intro executor_socket.intro executor_socket_axioms.intro)
  note jobs = bin_codec.bin_encode_all_encodes[OF assms(2,5)]
  have enc: "list_all (bin_codec.encodes BR) (map (job_answer E) jobs)"
    using assms(6) by (simp add: list_all_iff bin_codec.encodes_iff[OF assms(3)])
  have "sent = bin_codec.wire BJ jobs" using bin_codec.bin_encode_all_wire[OF assms(2) jobs, of "[]"] assms(5) by simp
  then have "\<exists>err. executor_start E T BJ BR (executor_new L (sent @ beginning)) =
      Some (err, bin_codec.wire BR (map (job_answer E) jobs))"
    using executor_socket.start_answers[OF loc, of "executor_new L (sent @ beginning)" jobs beginning] assms(7) jobs enc
      lru_try_laws.cache_ok_new[OF assms(1)] by (simp add: executor_new_def)
  moreover have "fst (decode_pieces D BR fuel pieces (lc_new D) []) = Inr (map (job_answer E) jobs)"
    if "concat pieces = bin_codec.wire BR (map (job_answer E) jobs)" for pieces
    using bin_codec.codec_roundtrip[OF assms(3), of "map (job_answer E) jobs" pieces fuel]
      bin_codec.bin_encode_all_wire[OF assms(3) enc, of "[]"] assms(8) that by simp
  ultimately show ?thesis by blast
qed

theorem executor_serves_witness:
  "\<exists>err out. executor_start joining_env list_try_insert (bincode_of serde_job) (bincode_of serde_executor_result)
      (executor_new list_lru (job_frames.wire some_jobs @ [0, 0, 0])) = Some (err, out) \<and>
    (\<forall>pieces. concat pieces = out \<longrightarrow>
       fst (decode_pieces delimited (bincode_of serde_executor_result) 4 pieces (lc_new delimited) []) = Inr some_results)"
proof -
  have sent: "bin_encode_all delimited (bincode_of serde_job) some_jobs [] = Inr (job_frames.wire some_jobs)"
    using job_frames.bin_encode_all_wire[OF some_jobs_encoded, of "[]"] by simp
  have res: "\<exists>bs. bc_encode (bincode_of serde_executor_result) (job_answer joining_env j) = Inr bs" if "j \<in> set some_jobs" for j
    using that some_results_encoded[folded some_results_job_answer]
    by (simp add: list_all_iff result_frames.encodes_iff)
  have fin: "first_frame [0, 0, 0] = None" "length some_jobs < 4" by (simp_all add: first_frame_def some_jobs_def)
  have up: "\<And>out. writable joining_env out" by (simp add: joining_env_def)
  show ?thesis
    using executor_serves[OF list_try.lru_try_laws_axioms job_frames.bin_codec_axioms result_frames.bin_codec_axioms
        up sent res fin] by (simp add: some_results_job_answer)
qed

end
