(* ===== verification/Dll_Worker.thy ===== *)
theory Dll_Worker
  imports Worker_Pool Executor_Process
begin

text \<open>
  \<open>DllWorker\<close> of \<open>node/src/dll/dll_worker.rs\<close>: the worker of a node that runs the job's dynamic
  library in a process per executor. \<open>None\<close> is a panic.

  The operating system is the argument \<open>E\<close>: the identifiers of the processes it starts, in the order in
  which they are started (\<open>None\<close> when it cannot start one), whether the disk takes a file, what loading a library
  from the bytes of a file gives and what its function is; and the crate \<open>lru\<close> as the processes use it. The directory \<open>library\<close> and the
  processes are part of the state: the jobs a process has been sent and not run, the results it has written and
  the worker has not read, its cache of libraries, and whether it still has its end of the socket (\<open>sockets\<close>). A process runs a job with \<open>run_job\<close> of
  \<open>Executor_Process\<close> on the files that are there at that moment. Sending a job to a process that has closed its end panics.
  The streams of the executors (\<open>dll_executor.rs\<close>) deliver the events \<open>DE_Result\<close>, \<open>DE_Terminated\<close> and \<open>DE_End\<close>; \<open>DE_Run\<close> and \<open>DE_Exit\<close>
  are steps of the processes. A request is processed in one step: a process does not take a step in the middle of it.
\<close>

declare split_paired_All [simp del] split_paired_Ex [simp del]

section \<open>The data\<close>

datatype dll_output =
  Spawned executor_id
  | Killed executor_id
  | Job_Sent executor_id executor_job

record ('lib, 'lc) dll_env =
  spawn_id :: "nat \<Rightarrow> executor_id option"
  disk_up :: "uuid \<Rightarrow> bool"
  load_library :: "bytes \<Rightarrow> string + 'lib"
  library_function :: "'lib \<Rightarrow> string + (bytes \<Rightarrow> bytes \<Rightarrow> call_outcome)"
  process_cache :: "('lc, 'lib) lru_ops"
  process_try :: "('lc, 'lib) try_insert"

text \<open>\<open>executors\<close> and \<open>message\<close> have the same keys until a stream ends; \<open>sent_jobs\<close> are the jobs a process
  has not run, \<open>finished\<close> the results it has written, \<open>libraries\<close> its cache, \<open>spawn_count\<close> the number of processes started so far, \<open>dw_output\<close> what the worker has
  done to its executors.\<close>

record ('jc, 'ja, 'lc) dll_worker =
  free_executors :: "executor_id list"
  assignments :: "job_key \<rightharpoonup> executor_id"
  executors :: "executor_id set"
  message :: "executor_id set"
  job_cache :: 'jc
  job_args :: 'ja
  library_files :: "uuid \<rightharpoonup> bytes"
  sockets :: "executor_id set"
  sent_jobs :: "executor_id \<Rightarrow> executor_job list"
  finished :: "executor_id \<Rightarrow> executor_result list"
  libraries :: "executor_id \<Rightarrow> 'lc"
  spawn_count :: nat
  dw_output :: "dll_output list"

type_synonym 'jc cache_ops = "('jc, unit) lru_ops"
type_synonym 'ja args_ops = "('ja, bytes) lru_ops"

section \<open>The executors\<close>

text \<open>Removing an executor drops its stream, which kills the process.\<close>

definition stop_executor :: "executor_id \<Rightarrow> ('jc, 'ja, 'lc) dll_worker \<Rightarrow> ('jc, 'ja, 'lc) dll_worker" where
  "stop_executor e w =
     (if e \<in> executors w then
        w\<lparr>executors := executors w - {e},
          free_executors := filter (\<lambda>id. id \<noteq> e) (free_executors w),
          message := message w - {e},
          sockets := sockets w - {e},
          sent_jobs := (sent_jobs w)(e := []),
          finished := (finished w)(e := []),
          dw_output := dw_output w @ (if e \<in> message w then [Killed e] else [])\<rparr>
      else w)"

definition start_executor ::
  "('lib, 'lc) dll_env \<Rightarrow> ('jc, 'ja, 'lc) dll_worker \<Rightarrow> (executor_id \<times> ('jc, 'ja, 'lc) dll_worker) option" where
  "start_executor E w = do {
     p \<leftarrow> spawn_id E (spawn_count w);
     Some (p, w\<lparr>executors := insert p (executors w), message := insert p (message w),
       sockets := insert p (sockets w), sent_jobs := (sent_jobs w)(p := []), finished := (finished w)(p := []),
       libraries := (libraries w)(p := lru_new (process_cache E) 5), spawn_count := spawn_count w + 1,
       dw_output := dw_output w @ [Spawned p]\<rparr>) }"

definition restart_executor ::
  "('lib, 'lc) dll_env \<Rightarrow> executor_id \<Rightarrow> ('jc, 'ja, 'lc) dll_worker \<Rightarrow> (executor_id \<times> ('jc, 'ja, 'lc) dll_worker) option" where
  "restart_executor E e w = start_executor E (stop_executor e w)"

definition push_free :: "executor_id \<Rightarrow> ('jc, 'ja, 'lc) dll_worker \<Rightarrow> ('jc, 'ja, 'lc) dll_worker" where
  "push_free e w = w\<lparr>free_executors := free_executors w @ [e]\<rparr>"

text \<open>\<open>DllExecutor::start_job\<close>, with its \<open>expect\<close>.\<close>

definition dll_start_job ::
  "executor_id \<Rightarrow> executor_job \<Rightarrow> ('jc, 'ja, 'lc) dll_worker \<Rightarrow> ('jc, 'ja, 'lc) dll_worker option" where
  "dll_start_job e j w =
     (if e \<in> sockets w
      then Some (w\<lparr>sent_jobs := (sent_jobs w)(e := sent_jobs w e @ [j]), dw_output := dw_output w @ [Job_Sent e j]\<rparr>)
      else None)"

definition assign_task ::
  "'ja args_ops \<Rightarrow> executor_id \<Rightarrow> uuid \<Rightarrow> worker_task \<Rightarrow> ('jc, 'ja, 'lc) dll_worker \<Rightarrow>
   ('jc, 'ja, 'lc) dll_worker option" where
  "assign_task LA e job task w =
     (if e \<in> executors w then
        let w = w\<lparr>assignments := (assignments w)((job, wt_id task) \<mapsto> e)\<rparr>;
            (args, c) = lru_get LA (job_args w) job;
            w = w\<lparr>job_args := c\<rparr>
        in case args of
             Some args \<Rightarrow> dll_start_job e \<lparr>ej_job_id = job, ej_job_data = args, ej_task_id = wt_id task,
               ej_task_data = wt_data task\<rparr> w
           | None \<Rightarrow> Some w
      else Some w)"

section \<open>Requests\<close>

text \<open>The tasks and the free executors are taken from the ends of their vectors.\<close>

function process_tasks_assignment ::
  "'ja args_ops \<Rightarrow> uuid \<Rightarrow> worker_task list \<Rightarrow> ('jc, 'ja, 'lc) dll_worker \<Rightarrow>
   ((worker_error + unit) \<times> ('jc, 'ja, 'lc) dll_worker) option" where
  "process_tasks_assignment LA job tasks w =
     (if tasks = [] then Some (Inr (), w)
      else let task = last tasks; tasks = butlast tasks in
        if free_executors w = [] then
          Some (Inl (NoFreeExecutors (map wt_id (tasks @ [task]))), w)
        else do {
          w \<leftarrow> assign_task LA (last (free_executors w)) job task
                 (w\<lparr>free_executors := butlast (free_executors w)\<rparr>);
          process_tasks_assignment LA job tasks w })"
  by pat_completeness auto
termination by (relation "measure (\<lambda>(_, _, tasks, _). length tasks)") auto

declare process_tasks_assignment.simps [simp del]

fun process_task_replacement ::
  "('lib, 'lc) dll_env \<Rightarrow> 'ja args_ops \<Rightarrow> uuid \<Rightarrow> (task_id \<times> worker_task) list \<Rightarrow> ('jc, 'ja, 'lc) dll_worker \<Rightarrow>
   ('jc, 'ja, 'lc) dll_worker option" where
  "process_task_replacement E LA job [] w = Some w"
| "process_task_replacement E LA job ((replace_task_id, task) # rs) w =
     (case assignments w (job, replace_task_id) of
        Some e \<Rightarrow> do {
          (e, w) \<leftarrow> restart_executor E e (w\<lparr>assignments := (assignments w)((job, replace_task_id) := None)\<rparr>);
          w \<leftarrow> assign_task LA e job task w;
          process_task_replacement E LA job rs w }
      | None \<Rightarrow> process_task_replacement E LA job rs w)"

definition add_library :: "('lib, 'lc) dll_env \<Rightarrow> uuid \<Rightarrow> bytes \<Rightarrow> ('jc, 'ja, 'lc) dll_worker \<Rightarrow> ('jc, 'ja, 'lc) dll_worker option" where
  "add_library E job data w =
     (if disk_up E job then Some (w\<lparr>library_files := (library_files w)(job \<mapsto> data)\<rparr>) else None)"

text \<open>Removing a file that is not there panics.\<close>

definition remove_library :: "uuid \<Rightarrow> ('jc, 'ja, 'lc) dll_worker \<Rightarrow> ('jc, 'ja, 'lc) dll_worker option" where
  "remove_library job w =
     (if library_files w job = None then None
      else Some (w\<lparr>library_files := (library_files w)(job := None)\<rparr>))"

definition process_library ::
  "('lib, 'lc) dll_env \<Rightarrow> 'jc cache_ops \<Rightarrow> 'ja args_ops \<Rightarrow> worker_request \<Rightarrow> ('jc, 'ja, 'lc) dll_worker \<Rightarrow>
   ((worker_error + unit) \<times> ('jc, 'ja, 'lc) dll_worker) option" where
  "process_library E LC LA rq w =
     (let (cached, c) = lru_get LC (job_cache w) (rq_job rq); w = w\<lparr>job_cache := c\<rparr> in
      case cached of
        Some _ \<Rightarrow> Some (Inr (), w)
      | None \<Rightarrow>
          (case rq_job_data rq of
             None \<Rightarrow> Some (Inl (library_missing rq), w)
           | Some (args, data) \<Rightarrow> do {
               w \<leftarrow> add_library E (rq_job rq) data w;
               w \<leftarrow> Some (w\<lparr>job_args := snd (lru_push LA (job_args w) (rq_job rq) args)\<rparr>);
               (old, c) \<leftarrow> Some (lru_push LC (job_cache w) (rq_job rq) ());
               w \<leftarrow> Some (w\<lparr>job_cache := c\<rparr>);
               w \<leftarrow> (case old of Some (uuid, _) \<Rightarrow> remove_library uuid w | None \<Rightarrow> Some w);
               Some (Inr (), w) }))"

definition process_request ::
  "('lib, 'lc) dll_env \<Rightarrow> 'jc cache_ops \<Rightarrow> 'ja args_ops \<Rightarrow> ('jc, 'ja, 'lc) dll_worker \<Rightarrow> worker_request \<Rightarrow>
   ((worker_error + unit) \<times> ('jc, 'ja, 'lc) dll_worker) option" where
  "process_request E LC LA w rq = do {
     (r, w) \<leftarrow> process_library E LC LA rq w;
     case r of
       Inl er \<Rightarrow> Some (Inl er, w)
     | Inr _ \<Rightarrow> do {
         w \<leftarrow> process_task_replacement E LA (rq_job rq) (rq_replacements rq) w;
         process_tasks_assignment LA (rq_job rq) (rq_tasks rq) w } }"

section \<open>Events of the executors\<close>

text \<open>\<open>order\<close> is the order in which the hash map of assignments happens to iterate. The identifier that is
  looked up after a termination is the one of the new executor. \<open>DE_End\<close> is the end of a stream, with the end of the socket or with bytes that
  are no result; it drops the stream, which kills the process. The executor stays where it is.\<close>

datatype dll_event =
  DE_Terminated executor_id string "job_key list"
  | DE_Result executor_id executor_result
  | DE_End executor_id
  | DE_Run executor_id nanos
  | DE_Exit executor_id

text \<open>The files a process sees. A process runs the oldest job it was sent and writes the result, or exits.\<close>

definition process_env :: "('lib, 'lc) dll_env \<Rightarrow> (uuid \<rightharpoonup> bytes) \<Rightarrow> 'lib executor_env" where
  "process_env E files =
     \<lparr>open_library = (\<lambda>u. case files u of None \<Rightarrow> Inl ''No such file'' | Some b \<Rightarrow> load_library E b),
      execute_job = library_function E, elapsed = (\<lambda>_. 0), writable = (\<lambda>_. True)\<rparr>"

definition process_run ::
  "('lib, 'lc) dll_env \<Rightarrow> executor_id \<Rightarrow> nanos \<Rightarrow> ('jc, 'ja, 'lc) dll_worker \<Rightarrow> ('jc, 'ja, 'lc) dll_worker" where
  "process_run E x time w =
     (case sent_jobs w x of
        [] \<Rightarrow> w
      | j # js \<Rightarrow>
          let (r, ex) = run_job (process_env E (library_files w)) (process_try E) j
                \<lparr>ex_input = [], ex_output = [], lru_cache = libraries w x\<rparr>
          in w\<lparr>sent_jobs := (sent_jobs w)(x := js),
               finished := (finished w)(x := finished w x @ [\<lparr>er_job_id = ej_job_id j, er_task_id = ej_task_id j,
                 er_execution_time = time, er_result = r\<rparr>]),
               libraries := (libraries w)(x := lru_cache ex)\<rparr>)"

definition process_exit :: "executor_id \<Rightarrow> ('jc, 'ja, 'lc) dll_worker \<Rightarrow> ('jc, 'ja, 'lc) dll_worker" where
  "process_exit x w = w\<lparr>sockets := sockets w - {x}, sent_jobs := (sent_jobs w)(x := [])\<rparr>"

definition process_message ::
  "('lib, 'lc) dll_env \<Rightarrow> ('jc, 'ja, 'lc) dll_worker \<Rightarrow> dll_event \<Rightarrow> (worker_response option \<times> ('jc, 'ja, 'lc) dll_worker) option" where
  "process_message E w ev =
     (case ev of
        DE_Terminated e error order \<Rightarrow> do {
          (e, w) \<leftarrow> restart_executor E e w;
          w \<leftarrow> Some (push_free e w);
          case find (\<lambda>k. assignments w k = Some e) order of
            Some k \<Rightarrow> Some (Some (Error (TaskExecutionError (snd k) error)),
              w\<lparr>assignments := (assignments w)(k := None)\<rparr>)
          | None \<Rightarrow> Some (None, w) }
      | DE_Result x r \<Rightarrow>
          (let w = w\<lparr>finished := (finished w)(x := tl (finished w x))\<rparr> in
           case assignments w (key_of_result r) of
             Some e \<Rightarrow> Some (Some (worker_answer r),
               push_free e (w\<lparr>assignments := (assignments w)(key_of_result r := None)\<rparr>))
           | None \<Rightarrow> Some (None, w))
      | DE_End x \<Rightarrow> Some (None, w\<lparr>message := message w - {x}, sockets := sockets w - {x}, sent_jobs := (sent_jobs w)(x := []),
          finished := (finished w)(x := []), dw_output := dw_output w @ [Killed x]\<rparr>)
      | DE_Run x time \<Rightarrow> Some (None, process_run E x time w)
      | DE_Exit x \<Rightarrow> Some (None, process_exit x w))"

text \<open>\<open>recv\<close>: the loop of \<open>process_message\<close>, with the events that arrive. While there are streams it waits for an event; a map without streams gives
  \<open>None\<close> at once, and the loop goes on without waiting. The fuel counts the turns of the loop.\<close>

datatype 'w recv_outcome = Received worker_response 'w | Waiting 'w | Panicked | Running

fun dll_recv :: "nat \<Rightarrow> ('lib, 'lc) dll_env \<Rightarrow> ('jc, 'ja, 'lc) dll_worker \<Rightarrow> dll_event list \<Rightarrow>
  ('jc, 'ja, 'lc) dll_worker recv_outcome" where
  "dll_recv 0 E w evs = Running"
| "dll_recv (Suc fuel) E w evs =
     (if message w = {} then dll_recv fuel E w evs
      else case evs of
             [] \<Rightarrow> Waiting w
           | ev # evs \<Rightarrow>
               (case process_message E w ev of
                  None \<Rightarrow> Panicked
                | Some (Some r, w) \<Rightarrow> Received r w
                | Some (None, w) \<Rightarrow> dll_recv fuel E w evs))"

fun reset_all ::
  "('lib, 'lc) dll_env \<Rightarrow> (job_key \<rightharpoonup> executor_id) \<Rightarrow> job_key list \<Rightarrow> ('jc, 'ja, 'lc) dll_worker \<Rightarrow> ('jc, 'ja, 'lc) dll_worker option" where
  "reset_all E A [] w = Some w"
| "reset_all E A (k # ks) w =
     (case A k of
        Some e \<Rightarrow> do { (e, w) \<leftarrow> restart_executor E e w; reset_all E A ks (push_free e w) }
      | None \<Rightarrow> reset_all E A ks w)"

definition dll_reset ::
  "('lib, 'lc) dll_env \<Rightarrow> ('jc, 'ja, 'lc) dll_worker \<Rightarrow> job_key list \<Rightarrow> ('jc, 'ja, 'lc) dll_worker option" where
  "dll_reset E w order = reset_all E (assignments w) order (w\<lparr>assignments := Map.empty\<rparr>)"

section \<open>Start\<close>

fun start_executors :: "('lib, 'lc) dll_env \<Rightarrow> nat \<Rightarrow> ('jc, 'ja, 'lc) dll_worker \<Rightarrow> ('jc, 'ja, 'lc) dll_worker option" where
  "start_executors E 0 w = Some w"
| "start_executors E (Suc n) w = do { (e, w) \<leftarrow> start_executor E w; start_executors E n (push_free e w) }"

definition empty_worker :: "('lc, 'lib) lru_ops \<Rightarrow> 'jc cache_ops \<Rightarrow> 'ja args_ops \<Rightarrow> ('jc, 'ja, 'lc) dll_worker" where
  "empty_worker LL LC LA =
     \<lparr>free_executors = [], assignments = Map.empty, executors = {}, message = {}, job_cache = lru_new LC 10,
      job_args = lru_new LA 10, library_files = Map.empty,
      sockets = {}, sent_jobs = (\<lambda>_. []), finished = (\<lambda>_. []), libraries = (\<lambda>_. lru_new LL 5), spawn_count = 0, dw_output = []\<rparr>"

definition dll_new :: "('lib, 'lc) dll_env \<Rightarrow> 'jc cache_ops \<Rightarrow> 'ja args_ops \<Rightarrow> nat \<Rightarrow> ('jc, 'ja, 'lc) dll_worker option" where
  "dll_new E LC LA executor_num = start_executors E executor_num (empty_worker (process_cache E) LC LA)"

definition dll_ops ::
  "('lib, 'lc) dll_env \<Rightarrow> 'jc cache_ops \<Rightarrow> 'ja args_ops \<Rightarrow> (('jc, 'ja, 'lc) dll_worker, dll_event, job_key list) worker_ops" where
  "dll_ops E LC LA =
     \<lparr>wk_process = process_request E LC LA, wk_message = process_message E, wk_reset = dll_reset E\<rparr>"

section \<open>The invariant\<close>

text \<open>\<open>H\<close> are executors in hand: taken from the free or the assigned ones and not yet returned.\<close>

definition started :: "('lib, 'lc) dll_env \<Rightarrow> nat \<Rightarrow> executor_id set" where
  "started E n = {p. \<exists>m < n. spawn_id E m = Some p}"

text \<open>The tasks of an executor whose results have not been read.\<close>

definition unanswered :: "('jc, 'ja, 'lc) dll_worker \<Rightarrow> executor_id \<Rightarrow> job_key list" where
  "unanswered w x = map key_of_result (finished w x) @ map key_of_job (sent_jobs w x)"

definition busy_ok :: "executor_id set \<Rightarrow> ('jc, 'ja, 'lc) dll_worker \<Rightarrow> executor_id \<Rightarrow> bool" where
  "busy_ok H w x \<longleftrightarrow> unanswered w x = [] \<or>
     x \<in> executors w \<and> (x \<in> H \<or> length (unanswered w x) = 1 \<and> assignments w (hd (unanswered w x)) = Some x)"

definition pool_inv :: "('lib, 'lc) dll_env \<Rightarrow> executor_id set \<Rightarrow> ('jc, 'ja, 'lc) dll_worker \<Rightarrow> bool" where
  "pool_inv E H w \<longleftrightarrow>
     pool_ok (free_executors w) (assignments w) (executors w) \<and>
     executors w \<union> ran (assignments w) \<union> H \<subseteq> started E (spawn_count w) \<and>
     message w \<subseteq> executors w \<and>
     H \<inter> set (free_executors w) = {} \<and> H \<inter> ran (assignments w) = {} \<and>
     executors w \<subseteq> set (free_executors w) \<union> ran (assignments w) \<union> H \<and>
     (\<forall>x. busy_ok H w x)"

lemma started_mono: "m \<le> n \<Longrightarrow> started E m \<subseteq> started E n"
  by (auto simp: started_def intro: less_le_trans)

lemma started_new: "inj (spawn_id E) \<Longrightarrow> spawn_id E n = Some p \<Longrightarrow> p \<notin> started E n"
  by (auto simp: started_def inj_def) (metis less_irrefl)

lemma finite_started: "finite (started E n)"
proof -
  have "started E n \<subseteq> (\<lambda>m. the (spawn_id E m)) ` {..<n}" by (force simp: started_def)
  then show ?thesis by (rule finite_subset) simp
qed

lemma pool_inv_caches [simp]:
  "pool_inv E H (w\<lparr>job_cache := c\<rparr>) = pool_inv E H w"
  "pool_inv E H (w\<lparr>job_args := a\<rparr>) = pool_inv E H w"
  "pool_inv E H (w\<lparr>library_files := f\<rparr>) = pool_inv E H w"
  "pool_inv E H (w\<lparr>libraries := l\<rparr>) = pool_inv E H w"
  "pool_inv E H (w\<lparr>sockets := x\<rparr>) = pool_inv E H w"
  by (simp_all add: pool_inv_def busy_ok_def unanswered_def)

lemma pool_inv_busy: "pool_inv E H w \<Longrightarrow> busy_ok H w x"
  by (simp add: pool_inv_def)

lemma pool_inv_unassign:
  assumes "pool_inv E H w" "assignments w k = Some e"
  shows "pool_inv E (insert e H) (w\<lparr>assignments := (assignments w)(k := None)\<rparr>)"
proof -
  have ran: "ran ((assignments w)(k := None)) = ran (assignments w) - {e}"
    using assms unfolding pool_inv_def by (blast intro!: ran_unassigned)
  have e: "e \<in> ran (assignments w)" "e \<notin> set (free_executors w)"
    using assms by (auto simp: pool_inv_def pool_ok_def ran_def)
  have "busy_ok (insert e H) (w\<lparr>assignments := (assignments w)(k := None)\<rparr>) x" for x
    using pool_inv_busy[OF assms(1), of x] assms(2) by (auto simp: busy_ok_def unanswered_def)
  then show ?thesis using assms(1) e pool_remove by (auto simp: pool_inv_def ran)
qed

text \<open>The tasks of an executor get fewer, or the result of one is written.\<close>

lemma pool_inv_jobs:
  assumes "pool_inv E H w" "unanswered (w\<lparr>sent_jobs := s, finished := f\<rparr>) x \<in> {[], unanswered w x}"
    "\<And>y. y \<noteq> x \<Longrightarrow> s y = sent_jobs w y \<and> f y = finished w y"
  shows "pool_inv E H (w\<lparr>sent_jobs := s, finished := f\<rparr>)"
proof -
  have "unanswered (w\<lparr>sent_jobs := s, finished := f\<rparr>) y \<in> {[], unanswered w y}" for y
    using assms(2,3) by (cases "y = x") (auto simp: unanswered_def)
  then have "busy_ok H (w\<lparr>sent_jobs := s, finished := f\<rparr>) y" for y
    using pool_inv_busy[OF assms(1), of y] by (fastforce simp: busy_ok_def)
  then show ?thesis using assms(1) by (auto simp: pool_inv_def)
qed

lemma pool_inv_unassign_all:
  assumes "pool_inv E {} w"
  shows "pool_inv E (ran (assignments w)) (w\<lparr>assignments := Map.empty\<rparr>)"
  using assms by (auto simp: pool_inv_def pool_ok_def busy_ok_def unanswered_def ran_def)

lemma pool_inv_stop:
  assumes "pool_inv E H w"
  shows "pool_inv E (H - {e}) (stop_executor e w)"
proof (cases "e \<in> executors w")
  case True
  have "busy_ok (H - {e}) (stop_executor e w) x" for x
    using assms True by (auto simp: pool_inv_def busy_ok_def unanswered_def stop_executor_def)
  then show ?thesis using assms True pool_stop[of "free_executors w" "assignments w" "executors w" e]
    by (auto simp: pool_inv_def stop_executor_def)
next
  case False
  then show ?thesis using assms by (auto simp: pool_inv_def busy_ok_def unanswered_def stop_executor_def)
qed

lemma pool_inv_start:
  assumes "pool_inv E H w" "inj (spawn_id E)" "start_executor E w = Some (p, w')"
  shows "pool_inv E (insert p H) w'" "p \<in> executors w'" "unanswered w' p = []" "p \<notin> H"
    "p \<notin> ran (assignments w)" "p \<notin> set (free_executors w)" "p \<in> sockets w'"
proof -
  from assms(3) have w': "w' = w\<lparr>executors := insert p (executors w), message := insert p (message w),
       sockets := insert p (sockets w), sent_jobs := (sent_jobs w)(p := []), finished := (finished w)(p := []),
       libraries := (libraries w)(p := lru_new (process_cache E) 5), spawn_count := spawn_count w + 1,
       dw_output := dw_output w @ [Spawned p]\<rparr>" "spawn_id E (spawn_count w) = Some p"
    by (auto simp: start_executor_def split: bind_splits)
  have new: "p \<notin> started E (spawn_count w)" by (rule started_new[OF assms(2) w'(2)])
  have more: "started E (Suc (spawn_count w)) = insert p (started E (spawn_count w))"
    using w'(2) by (auto simp: started_def less_Suc_eq)
  have "busy_ok (insert p H) w' x" for x
    using assms(1) new by (auto simp: pool_inv_def busy_ok_def unanswered_def w')
  then show "pool_inv E (insert p H) w'" using assms(1) new pool_grow[of "free_executors w" "assignments w" "executors w"]
    by (auto simp: pool_inv_def w' more pool_ok_def)
  show "p \<notin> H" "p \<notin> ran (assignments w)" "p \<notin> set (free_executors w)" using assms(1) new by (auto simp: pool_inv_def pool_ok_def)
qed (use assms(3) in \<open>auto simp: start_executor_def unanswered_def split: bind_splits\<close>)

lemma pool_inv_push_free:
  assumes "pool_inv E H w" "e \<in> H" "e \<in> executors w" "unanswered w e = []"
  shows "pool_inv E (H - {e}) (push_free e w)"
proof -
  have "busy_ok (H - {e}) (push_free e w) x" for x
    using assms by (auto simp: pool_inv_def busy_ok_def unanswered_def push_free_def)
  moreover have "pool_ok (free_executors w @ [e]) (assignments w) (executors w)"
    using assms by (intro pool_push) (auto simp: pool_inv_def ran_def)
  ultimately show ?thesis using assms by (auto simp: pool_inv_def push_free_def)
qed

lemma pool_inv_take_free:
  assumes "pool_inv E {} w" "free_executors w \<noteq> []"
  shows "pool_inv E {last (free_executors w)} (w\<lparr>free_executors := butlast (free_executors w)\<rparr>)"
    "last (free_executors w) \<in> executors w" "unanswered w (last (free_executors w)) = []"
proof -
  define e F where eF: "e = last (free_executors w)" "F = butlast (free_executors w)"
  have F: "free_executors w = F @ [e]" using assms(2) by (simp add: eF)
  have e: "e \<in> executors w" "e \<notin> ran (assignments w)" "e \<notin> set F" "pool_ok F (assignments w) (executors w)"
    using assms(1) by (auto simp: pool_inv_def pool_ok_def F)
  then show "last (free_executors w) \<in> executors w" "unanswered w (last (free_executors w)) = []"
    using assms(1) by (auto simp: pool_inv_def busy_ok_def ran_def simp flip: eF)
  have "busy_ok {e} (w\<lparr>free_executors := F\<rparr>) x" for x
    using assms(1) by (auto simp: pool_inv_def busy_ok_def unanswered_def)
  then show "pool_inv E {last (free_executors w)} (w\<lparr>free_executors := butlast (free_executors w)\<rparr>)"
    using assms(1) e by (auto simp: pool_inv_def F simp flip: eF)
qed

lemma pool_inv_assign:
  assumes "pool_inv E H w" "e \<in> H" "e \<in> executors w" "k \<notin> dom (assignments w)"
    "unanswered w e = []" "sent = [] \<or> length sent = 1 \<and> key_of_job (hd sent) = k"
  shows "pool_inv E (H - {e}) (w\<lparr>assignments := (assignments w)(k \<mapsto> e),
    sent_jobs := (sent_jobs w)(e := sent), dw_output := out\<rparr>)" (is "pool_inv E _ ?w'")
proof -
  have k: "assignments w k = None" using assms(4) by blast
  have ran: "ran ((assignments w)(k \<mapsto> e)) = insert e (ran (assignments w))" using k by simp
  have "busy_ok (H - {e}) ?w' x" for x
    using pool_inv_busy[OF assms(1), of x] assms(2-3,5,6) k by (auto simp: busy_ok_def unanswered_def length_Suc_conv)
  moreover have "pool_ok (free_executors w) ((assignments w)(k \<mapsto> e)) (executors w)"
    using assms(1,2) by (intro pool_assign) (auto simp: pool_inv_def ran_def)
  ultimately show ?thesis using assms(1-3) by (auto simp: pool_inv_def ran simp del: ran_map_upd)
qed

section \<open>Requests and events keep the invariant\<close>

text \<open>The files in the directory are those of the cached jobs.\<close>

definition files_ok :: "('jc \<Rightarrow> bool) \<Rightarrow> ('jc \<Rightarrow> (uuid \<times> unit) list) \<Rightarrow> ('jc, 'ja, 'lc) dll_worker \<Rightarrow> bool" where
  "files_ok cok centries w \<longleftrightarrow>
     cok (job_cache w) \<and> dom (library_files w) = fst ` set (centries (job_cache w))"

definition dll_inv ::
  "('lib, 'lc) dll_env \<Rightarrow> ('jc \<Rightarrow> bool) \<Rightarrow> ('jc \<Rightarrow> (uuid \<times> unit) list) \<Rightarrow> ('ja \<Rightarrow> bool) \<Rightarrow> ('jc, 'ja, 'lc) dll_worker \<Rightarrow> bool" where
  "dll_inv E cok centries aok w \<longleftrightarrow> pool_inv E {} w \<and> files_ok cok centries w \<and> aok (job_args w)"

text \<open>The events that the executors of a worker can produce: a process that has its end of the socket runs the
  jobs it was sent, or exits; the worker reads from an open stream the results in the order in which they were written, that the process has
  terminated once it has exited, or the end of the stream.\<close>

fun dll_event_ok :: "('jc, 'ja, 'lc) dll_worker \<Rightarrow> dll_event \<Rightarrow> bool" where
  "dll_event_ok w (DE_Terminated e _ order) \<longleftrightarrow>
     e \<in> message w \<and> e \<notin> sockets w \<and> distinct order \<and> set order = dom (assignments w)"
| "dll_event_ok w (DE_Result x r) \<longleftrightarrow> x \<in> message w \<and> finished w x \<noteq> [] \<and> r = hd (finished w x)"
| "dll_event_ok w (DE_End x) \<longleftrightarrow> x \<in> message w"
| "dll_event_ok w (DE_Run x time) \<longleftrightarrow> x \<in> sockets w \<and> sent_jobs w x \<noteq> []"
| "dll_event_ok w (DE_Exit x) \<longleftrightarrow> x \<in> sockets w"

definition dll_order_ok :: "('jc, 'ja, 'lc) dll_worker \<Rightarrow> job_key list \<Rightarrow> bool" where
  "dll_order_ok w order \<longleftrightarrow> distinct order \<and> set order = dom (assignments w)"

definition dll_held :: "('jc, 'ja, 'lc) dll_worker \<Rightarrow> job_key set" where
  "dll_held w = dom (assignments w)"

text \<open>The free executors that the tasks of a request would be sent to, and the requests that reach no process that has gone.\<close>

definition reached :: "nat \<Rightarrow> ('jc, 'ja, 'lc) dll_worker \<Rightarrow> executor_id set" where
  "reached n w = set (drop (length (free_executors w) - n) (free_executors w))"

definition dll_request_ok :: "('jc, 'ja, 'lc) dll_worker \<Rightarrow> worker_request \<Rightarrow> bool" where
  "dll_request_ok w rq \<longleftrightarrow> fresh_request (dll_held w) rq \<and> reached (length (rq_tasks rq)) w \<subseteq> sockets w"

text \<open>What the assignment of tasks to free executors sends, when the arguments of the job are cached.\<close>

definition jobs_sent ::
  "bytes option \<Rightarrow> uuid \<Rightarrow> worker_task list \<Rightarrow> executor_id list \<Rightarrow> dll_output list" where
  "jobs_sent args job tasks free =
     (case args of None \<Rightarrow> []
      | Some args \<Rightarrow> map2 (\<lambda>t e. Job_Sent e \<lparr>ej_job_id = job, ej_job_data = args, ej_task_id = wt_id t,
          ej_task_data = wt_data t\<rparr>) (rev tasks) (rev free))"

lemma restart_executor_calls:
  assumes "restart_executor E e w = Some (p, w')"
  shows "assignments w' = assignments w" "job_args w' = job_args w" "job_cache w' = job_cache w"
    "library_files w' = library_files w" "message w' = insert p (if e \<in> executors w then message w - {e} else message w)"
    "e \<notin> set (free_executors w) \<Longrightarrow> free_executors w' = free_executors w"
    "x \<noteq> e \<Longrightarrow> x \<noteq> p \<Longrightarrow> x \<in> sockets w' \<longleftrightarrow> x \<in> sockets w"
  using assms by (auto simp: restart_executor_def start_executor_def stop_executor_def filter_id_conv split: bind_splits if_splits)

lemma process_run_frame:
  "assignments (process_run E x time w) = assignments w" "job_cache (process_run E x time w) = job_cache w"
  "job_args (process_run E x time w) = job_args w" "library_files (process_run E x time w) = library_files w"
  "message (process_run E x time w) = message w"
  by (simp_all add: process_run_def split: list.splits prod.splits)

locale dll_setting =
  cache: lru_laws LC cok ccap centries + args: lru_laws LA aok acap aentries
  for LC :: "'jc cache_ops" and cok ccap centries and LA :: "'ja args_ops" and aok acap aentries +
  fixes E :: "('lib, 'lc) dll_env"
  assumes spawns: "spawn_id E n \<noteq> None"
    and fresh: "inj (spawn_id E)"
    and disk: "disk_up E u"
begin

lemma restart_spec:
  assumes "pool_inv E H w"
  shows "\<exists>p w'. restart_executor E e w = Some (p, w') \<and> pool_inv E (insert p (H - {e})) w' \<and>
    p \<in> executors w' \<and> unanswered w' p = [] \<and> p \<notin> H - {e} \<and> p \<notin> ran (assignments w) \<and> p \<in> sockets w' \<and>
    (e \<notin> set (free_executors w) \<longrightarrow> p \<notin> set (free_executors w))"
proof -
  obtain p where "spawn_id E (spawn_count (stop_executor e w)) = Some p" using spawns by blast
  then obtain w' where w': "start_executor E (stop_executor e w) = Some (p, w')" by (auto simp: start_executor_def)
  have "assignments (stop_executor e w) = assignments w" "e \<notin> set (free_executors w) \<Longrightarrow> free_executors (stop_executor e w) = free_executors w"
    by (auto simp: stop_executor_def filter_id_conv)
  then show ?thesis using pool_inv_start[OF pool_inv_stop[OF assms] fresh w'] w'
    by (auto simp: restart_executor_def)
qed

lemma assign_task_spec:
  assumes "pool_inv E H w" "e \<in> H" "e \<in> executors w" "unanswered w e = []"
    "(job, wt_id t) \<notin> dom (assignments w)" "aok (job_args w)" "e \<in> sockets w"
  shows "\<exists>w'. assign_task LA e job t w = Some w' \<and> pool_inv E (H - {e}) w' \<and>
    assignments w' = (assignments w)((job, wt_id t) \<mapsto> e) \<and> free_executors w' = free_executors w \<and>
    job_cache w' = job_cache w \<and> library_files w' = library_files w \<and> aok (job_args w') \<and>
    aentries (job_args w') = touch job (aentries (job_args w)) \<and> sockets w' = sockets w \<and>
    dw_output w' = dw_output w @ jobs_sent (map_of (aentries (job_args w)) job) job [t] [e]"
proof -
  obtain v c where get: "lru_get LA (job_args w) job = (v, c)" by fastforce
  have c: "v = map_of (aentries (job_args w)) job" "aok c" "aentries c = touch job (aentries (job_args w))"
    using args.get_value[OF assms(6), of job] args.get_law[OF assms(6), of job] by (auto simp: get)
  show ?thesis
  proof (cases v)
    case None
    then show ?thesis
      using pool_inv_assign[OF assms(1-3,5,4), of "[]" "dw_output w"] assms(3,4) get c(2,3)
      by (simp add: assign_task_def jobs_sent_def unanswered_def fun_upd_idem flip: c(1))
  next
    case (Some a)
    define j where "j = \<lparr>ej_job_id = job, ej_job_data = a, ej_task_id = wt_id t, ej_task_data = wt_data t\<rparr>"
    have "key_of_job j = (job, wt_id t)" by (simp add: key_of_job_def j_def)
    then have "pool_inv E (H - {e}) (w\<lparr>assignments := (assignments w)((job, wt_id t) \<mapsto> e),
        sent_jobs := (sent_jobs w)(e := [j]), dw_output := dw_output w @ [Job_Sent e j]\<rparr>)"
      by (intro pool_inv_assign[OF assms(1-3,5,4)]) simp
    moreover have "assign_task LA e job t w = Some (w\<lparr>assignments := (assignments w)((job, wt_id t) \<mapsto> e),
        sent_jobs := (sent_jobs w)(e := [j]), dw_output := dw_output w @ [Job_Sent e j], job_args := c\<rparr>)"
      using assms(3,4,7) get Some by (simp add: assign_task_def dll_start_job_def unanswered_def j_def)
    ultimately show ?thesis using c(2,3) Some by (simp add: jobs_sent_def j_def flip: c(1))
  qed
qed

text \<open>The tasks go to the free executors from the end; the ones at the front that find none are named in
  the error.\<close>

lemma process_tasks_spec:
  assumes "pool_inv E {} w" "aok (job_args w)" "distinct (map wt_id tasks)"
    "task_keys job tasks \<inter> dom (assignments w) = {}" "reached (length tasks) w \<subseteq> sockets w"
  shows "\<exists>w'. process_tasks_assignment LA job tasks w =
      Some (if length tasks \<le> length (free_executors w) then Inr ()
            else Inl (NoFreeExecutors (map wt_id (take (length tasks - length (free_executors w)) tasks))), w') \<and>
    pool_inv E {} w' \<and> aok (job_args w') \<and> job_cache w' = job_cache w \<and> library_files w' = library_files w \<and>
    free_executors w' = take (length (free_executors w) - length tasks) (free_executors w) \<and>
    dom (assignments w') = dom (assignments w) \<union>
      task_keys job (drop (length tasks - length (free_executors w)) tasks) \<and>
    dw_output w' = dw_output w @ jobs_sent (map_of (aentries (job_args w)) job) job tasks (free_executors w)"
  using assms
proof (induction tasks arbitrary: w rule: rev_induct)
  case Nil
  then show ?case by (simp add: process_tasks_assignment.simps jobs_sent_def split: option.splits)
next
  case (snoc t tasks)
  show ?case
  proof (cases "free_executors w = []")
    case True
    then show ?thesis using snoc.prems
      by (simp add: process_tasks_assignment.simps jobs_sent_def split: option.splits)
  next
    case False
    then obtain F e where F: "free_executors w = F @ [e]" by (metis append_butlast_last_id)
    let ?w = "w\<lparr>free_executors := F\<rparr>"
    have e: "pool_inv E {e} ?w" "e \<in> executors ?w" "unanswered ?w e = []"
      using pool_inv_take_free[OF snoc.prems(1) False] by (simp_all add: F unanswered_def)
    have up: "e \<in> sockets ?w" "set (drop (length F - length tasks) F) \<subseteq> sockets w"
      using snoc.prems(5) by (simp_all add: reached_def F)
    have t: "(job, wt_id t) \<notin> dom (assignments ?w)" using snoc.prems(4) by auto
    obtain w1 where w1: "assign_task LA e job t ?w = Some w1" "pool_inv E {} w1"
      "assignments w1 = (assignments w)((job, wt_id t) \<mapsto> e)" "free_executors w1 = F"
      "job_cache w1 = job_cache w" "library_files w1 = library_files w" "aok (job_args w1)"
      "aentries (job_args w1) = touch job (aentries (job_args w))" "sockets w1 = sockets w"
      "dw_output w1 = dw_output w @ jobs_sent (map_of (aentries (job_args w)) job) job [t] [e]"
      using assign_task_spec[OF e(1) singletonI e(2,3) t _ up(1)] snoc.prems(2) by auto
    have dom: "dom (assignments w1) = insert (job, wt_id t) (dom (assignments w))" by (simp add: w1(3))
    have rest: "distinct (map wt_id tasks)" "task_keys job tasks \<inter> dom (assignments w1) = {}"
      using snoc.prems(3,4) by (auto simp: dom task_keys_iff)
    have step: "process_tasks_assignment LA job (tasks @ [t]) w = process_tasks_assignment LA job tasks w1"
      by (subst process_tasks_assignment.simps) (simp add: F w1(1))
    have out: "jobs_sent a job (tasks @ [t]) (F @ [e]) = jobs_sent a job [t] [e] @ jobs_sent a job tasks F" for a
      by (simp add: jobs_sent_def split: option.splits)
    have "reached (length tasks) w1 \<subseteq> sockets w1" using up(2) by (simp add: reached_def w1(4,9))
    from snoc.IH[OF w1(2,7) rest this] obtain w' where w':
      "process_tasks_assignment LA job tasks w1 =
        Some (if length tasks \<le> length F then Inr ()
              else Inl (NoFreeExecutors (map wt_id (take (length tasks - length F) tasks))), w')"
      "pool_inv E {} w'" "aok (job_args w')" "job_cache w' = job_cache w" "library_files w' = library_files w"
      "free_executors w' = take (length F - length tasks) F"
      "dom (assignments w') = dom (assignments w1) \<union> task_keys job (drop (length tasks - length F) tasks)"
      "dw_output w' = dw_output w1 @ jobs_sent (map_of (aentries (job_args w)) job) job tasks F"
      by (auto simp: w1(4-6,8))
    show ?thesis unfolding step by (intro exI[of _ w']) (simp add: F w1(10) dom out w')
  qed
qed

lemma process_replacement_spec:
  assumes "pool_inv E {} w" "aok (job_args w)" "distinct (map wt_id (map snd rs))"
    "task_keys job (map snd rs) \<inter> dom (assignments w) = {}"
  shows "\<exists>w'. process_task_replacement E LA job rs w = Some w' \<and> pool_inv E {} w' \<and> aok (job_args w') \<and>
    job_cache w' = job_cache w \<and> library_files w' = library_files w \<and> free_executors w' = free_executors w \<and>
    (\<forall>x \<in> set (free_executors w). x \<in> sockets w' \<longleftrightarrow> x \<in> sockets w) \<and>
    map_of (aentries (job_args w')) = map_of (aentries (job_args w)) \<and>
    dom (assignments w') \<subseteq> dom (assignments w) \<union> task_keys job (map snd rs)"
  using assms
proof (induction rs arbitrary: w)
  case Nil
  then show ?case by simp
next
  case (Cons r rs)
  obtain old t where r: "r = (old, t)" by fastforce
  show ?case
  proof (cases "assignments w (job, old)")
    case None
    have rest: "distinct (map wt_id (map snd rs))" "task_keys job (map snd rs) \<inter> dom (assignments w) = {}" using Cons.prems by auto
    from Cons.IH[OF Cons.prems(1,2) rest] None show ?thesis by (simp add: r) blast
  next
    case (Some e)
    let ?w = "w\<lparr>assignments := (assignments w)((job, old) := None)\<rparr>"
    note un = pool_inv_unassign[OF Cons.prems(1) Some]
    have e: "e \<notin> set (free_executors ?w)" using un by (auto simp: pool_inv_def)
    obtain p w1 where w1: "restart_executor E e ?w = Some (p, w1)" "pool_inv E {p} w1" "p \<in> executors w1"
      "unanswered w1 p = []" "p \<in> sockets w1" "p \<notin> set (free_executors w)"
      using restart_spec[OF un, of e] e by auto
    note same = restart_executor_calls[OF w1(1)]
    have "x \<in> sockets w1 \<longleftrightarrow> x \<in> sockets w" if "x \<in> set (free_executors w)" for x
      using same(7)[of x] that e w1(6) by auto
    then have free1: "free_executors w1 = free_executors w" "\<forall>x \<in> set (free_executors w). x \<in> sockets w1 \<longleftrightarrow> x \<in> sockets w"
      using same(6)[OF e] by auto
    have t: "(job, wt_id t) \<notin> dom (assignments w1)" "aok (job_args w1)"
      using Cons.prems(2,4) by (auto simp: same r)
    obtain w2 where w2: "assign_task LA p job t w1 = Some w2" "pool_inv E {} w2"
      "assignments w2 = (assignments w1)((job, wt_id t) \<mapsto> p)" "free_executors w2 = free_executors w1"
      "job_cache w2 = job_cache w1" "library_files w2 = library_files w1" "aok (job_args w2)"
      "aentries (job_args w2) = touch job (aentries (job_args w1))" "sockets w2 = sockets w1"
      using assign_task_spec[OF w1(2) singletonI w1(3,4) t w1(5)] by auto
    have dom: "dom (assignments w2) = insert (job, wt_id t) (dom (assignments w) - {(job, old)})"
      by (auto simp: w2(3) same)
    have rest: "distinct (map wt_id (map snd rs))" "task_keys job (map snd rs) \<inter> dom (assignments w2) = {}"
      using Cons.prems(3,4) by (auto simp: dom r task_keys_iff)
    have args: "map_of (aentries (job_args w2)) = map_of (aentries (job_args w))" by (simp add: fun_eq_iff w2(8) same)
    from Cons.IH[OF w2(2,7) rest] obtain w' where
      "process_task_replacement E LA job rs w2 = Some w'" "pool_inv E {} w'" "aok (job_args w')"
      "job_cache w' = job_cache w" "library_files w' = library_files w" "free_executors w' = free_executors w"
      "\<forall>x \<in> set (free_executors w). x \<in> sockets w' \<longleftrightarrow> x \<in> sockets w"
      "map_of (aentries (job_args w')) = map_of (aentries (job_args w))"
      "dom (assignments w') \<subseteq> dom (assignments w2) \<union> task_keys job (map snd rs)"
      using w2(4-6,9) same(3,4) free1 unfolding args by auto
    then show ?thesis using Some w1(1) w2(1) dom by (intro exI[of _ w']) (simp add: r, blast)
  qed
qed

text \<open>Caching a job keeps one file for each cached job, so the file of the job that is given up is there
  to be removed.\<close>

lemma dll_inv_iff:
  "dll_inv E cok centries aok w \<longleftrightarrow> pool_inv E {} w \<and> aok (job_args w) \<and> cok (job_cache w) \<and>
     dom (library_files w) = cache.keys (job_cache w)"
  by (auto simp: dll_inv_def files_ok_def cache.keys_def)

lemma process_library_spec:
  assumes "dll_inv E cok centries aok w"
  shows "\<exists>r w'. process_library E LC LA rq w = Some (r, w') \<and> dll_inv E cok centries aok w' \<and>
    assignments w' = assignments w \<and> free_executors w' = free_executors w \<and> dw_output w' = dw_output w \<and> sockets w' = sockets w \<and>
    (r = Inr () \<and> rq_job rq \<in> dom (library_files w') \<or> r = Inl (library_missing rq) \<and> rq_job_data rq = None) \<and>
    (rq_job rq \<in> dom (library_files w) \<longrightarrow> r = Inr () \<and> job_args w' = job_args w) \<and>
    (\<forall>args data. rq_job rq \<notin> dom (library_files w) \<longrightarrow> rq_job_data rq = Some (args, data) \<longrightarrow>
       r = Inr () \<and> library_files w' (rq_job rq) = Some data \<and> map_of (aentries (job_args w')) (rq_job rq) = Some args)"
proof -
  let ?k = "rq_job rq"
  obtain v c where get: "lru_get LC (job_cache w) ?k = (v, c)" by fastforce
  have inv: "pool_inv E {} w" "aok (job_args w)" "cok (job_cache w)"
    "dom (library_files w) = cache.keys (job_cache w)"
    using assms by (auto simp: dll_inv_iff)
  have c: "cok c" "cache.keys c = dom (library_files w)" "v = None \<longleftrightarrow> ?k \<notin> dom (library_files w)"
    using cache.get_None[OF inv(3), of ?k] cache.keys_get[OF inv(3), of ?k] cache.get_law[OF inv(3), of ?k] inv(4)
    by (auto simp: get)
  show ?thesis
  proof (cases "v = None \<and> rq_job_data rq \<noteq> None")
    case False
    have run: "process_library E LC LA rq w =
        Some (if v = None then Inl (library_missing rq) else Inr (), w\<lparr>job_cache := c\<rparr>)"
      using False by (auto simp: process_library_def get split: option.splits)
    have "dll_inv E cok centries aok (w\<lparr>job_cache := c\<rparr>)" using inv c by (simp add: dll_inv_iff)
    then show ?thesis using run c(3) False by (intro exI[of _ "if v = None then Inl (library_missing rq) else Inr ()"]
      exI[of _ "w\<lparr>job_cache := c\<rparr>"]) (auto simp del: domIff)
  next
    case True
    then obtain ar data where new: "v = None" "rq_job_data rq = Some (ar, data)" by auto
    obtain old c' where push: "lru_push LC c ?k () = (old, c')" by fastforce
    have k: "?k \<notin> cache.keys c" using c new(1) by simp
    have c': "cok c'" "cache.keys c' = insert ?k (cache.keys c - (case old of None \<Rightarrow> {} | Some (u, _) \<Rightarrow> {u}))"
      using cache.push_law[OF c(1), of ?k "()"] cache.keys_push[OF c(1), of ?k "()"] by (auto simp: push)
    define fs where "fs = (case old of None \<Rightarrow> (library_files w)(?k \<mapsto> data)
      | Some (u, _) \<Rightarrow> (library_files w)(?k \<mapsto> data, u := None))"
    have old: "u \<in> cache.keys c" "u \<noteq> ?k" if "old = Some (u, z)" for u z
      using cache.push_gives_up_known[OF c(1), of ?k "()" u z] k that by (auto simp: push)
    have fs: "dom fs = cache.keys c'" "fs ?k = Some data"
      using old k by (auto simp: fs_def c' c(2) split: option.splits if_splits)
    let ?w = "w\<lparr>job_cache := c', library_files := fs, job_args := snd (lru_push LA (job_args w) ?k ar)\<rparr>"
    have run: "process_library E LC LA rq w = Some (Inr (), ?w)"
      using old c(2) by (auto simp: process_library_def get new add_library_def disk push remove_library_def fs_def
          split: option.splits)
    have "dll_inv E cok centries aok ?w"
      using inv c'(1) fs(1) args.push_law[OF inv(2), of ?k ar] by (simp add: dll_inv_iff)
    then show ?thesis using run fs(2) c(3) new args.push_lookup[OF inv(2), of ?k ar]
      by (intro exI[of _ "Inr ()"] exI[of _ ?w]) auto
  qed
qed

lemma process_request_spec:
  assumes "dll_inv E cok centries aok w" "dll_request_ok w rq"
  shows "\<exists>r w'. process_request E LC LA w rq = Some (r, w') \<and> dll_inv E cok centries aok w' \<and>
    dll_held w' \<subseteq> dll_held w \<union> new_keys rq \<and>
    (\<forall>er. r = Inl er \<longrightarrow> \<not> is_answer (Error er) \<and>
       (\<forall>t \<in> answered (Error er). (rq_job rq, t) \<in> new_keys rq - dll_held w'))"
proof -
  have fresh: "fresh_request (dll_held w) rq" and up: "reached (length (rq_tasks rq)) w \<subseteq> sockets w"
    using assms(2) by (auto simp: dll_request_ok_def)
  note fr = fresh_request_parts[OF fresh, unfolded dll_held_def]
  from process_library_spec[OF assms(1), of rq] obtain r1 w1 where
    w1: "process_library E LC LA rq w = Some (r1, w1)" "dll_inv E cok centries aok w1"
      "assignments w1 = assignments w" "r1 = Inr () \<or> r1 = Inl (library_missing rq)" "free_executors w1 = free_executors w"
      "sockets w1 = sockets w" by blast
  show ?thesis
  proof (cases r1)
    case (Inl er)
    then have er: "er = library_missing rq" using w1(4) by auto
    have "(rq_job rq, t) \<in> new_keys rq - dll_held w1" if "t \<in> answered (Error er)" for t
      using that fresh_request_refused[OF fresh] by (simp only: er answered_library_missing dll_held_def w1(3))
    then show ?thesis using Inl w1 by (simp add: process_request_def dll_held_def er library_missing_def is_answer_def)
  next
    case (Inr u)
    have p1: "pool_inv E {} w1" "aok (job_args w1)" using w1(2) by (auto simp: dll_inv_def)
    obtain w2 where w2: "process_task_replacement E LA (rq_job rq) (rq_replacements rq) w1 = Some w2"
      "pool_inv E {} w2" "aok (job_args w2)" "job_cache w2 = job_cache w1" "library_files w2 = library_files w1"
      "dom (assignments w2) \<subseteq> dom (assignments w) \<union> task_keys (rq_job rq) (map snd (rq_replacements rq))"
      "free_executors w2 = free_executors w" "\<forall>x \<in> set (free_executors w). x \<in> sockets w2 \<longleftrightarrow> x \<in> sockets w"
      using process_replacement_spec[OF p1 fr(1), of "rq_job rq"] fr(4) unfolding w1(3,5,6) by blast
    let ?ts = "rq_tasks rq" and ?n = "length (rq_tasks rq) - length (free_executors w2)"
    have free: "task_keys (rq_job rq) ?ts \<inter> dom (assignments w2) = {}"
      using w2(6) task_keys_disjoint[OF fr(3), of "rq_job rq"] fr(5) by blast
    have up2: "reached (length ?ts) w2 \<subseteq> sockets w2" using up w2(7,8) by (auto simp: reached_def dest: in_set_dropD)
    obtain w3 where w3: "process_tasks_assignment LA (rq_job rq) ?ts w2 =
        Some (if length ?ts \<le> length (free_executors w2) then Inr ()
              else Inl (NoFreeExecutors (map wt_id (take ?n ?ts))), w3)"
      "pool_inv E {} w3" "aok (job_args w3)" "job_cache w3 = job_cache w2" "library_files w3 = library_files w2"
      "dom (assignments w3) = dom (assignments w2) \<union> task_keys (rq_job rq) (drop ?n ?ts)"
      using process_tasks_spec[OF w2(2,3) fr(2) free up2] by blast
    have "dll_inv E cok centries aok w3" using w1(2) w2(4,5) w3(2-5) by (simp add: dll_inv_def files_ok_def)
    moreover have "dll_held w3 \<subseteq> dll_held w \<union> new_keys rq"
      using w2(6) w3(6) fr(6) task_keys_take_drop[of "rq_job rq" ?ts ?n] by (auto simp: dll_held_def)
    moreover have "(rq_job rq, t) \<in> new_keys rq - dll_held w3" if "t \<in> wt_id ` set (take ?n ?ts)" for t
      using refused_tasks[OF fr(2) free that] unfolding fr(6) dll_held_def w3(6) by blast
    ultimately show ?thesis using Inr w1(1) w2(1) w3(1) by (simp add: process_request_def is_answer_def)
  qed
qed

text \<open>An executor that terminates is replaced by a free one; the assignment of the task it had stays.\<close>

lemma terminated_spec:
  assumes "pool_inv E {} w"
  shows "\<exists>p w'. process_message E w (DE_Terminated e er order) = Some (None, w') \<and> pool_inv E {} w' \<and>
    assignments w' = assignments w \<and> job_args w' = job_args w \<and> job_cache w' = job_cache w \<and>
    library_files w' = library_files w \<and> p \<notin> ran (assignments w) \<and>
    message w' = insert p (if e \<in> executors w then message w - {e} else message w) \<and>
    free_executors w' = filter (\<lambda>i. i \<noteq> e \<or> e \<notin> executors w) (free_executors w) @ [p] \<and>
    executors w' = insert p (executors w - {e})"
proof -
  obtain p w1 where w1: "restart_executor E e w = Some (p, w1)" "pool_inv E {p} w1" "p \<in> executors w1"
    "unanswered w1 p = []" "p \<notin> ran (assignments w)"
    using restart_spec[OF assms, of e] by auto
  note same = restart_executor_calls[OF w1(1)]
  have find: "find (\<lambda>k. assignments w k = Some p) order = None"
    using w1(5) by (auto simp: find_None_iff ran_def)
  have "free_executors w1 = filter (\<lambda>i. i \<noteq> e \<or> e \<notin> executors w) (free_executors w)"
    "executors w1 = insert p (executors w - {e})"
    using w1(1) by (auto simp: restart_executor_def start_executor_def stop_executor_def split: bind_splits if_splits)
  then show ?thesis using pool_inv_push_free[OF w1(2) singletonI w1(3,4)] w1(1,5) same find
    by (simp add: process_message_def push_free_def)
qed

lemma result_spec:
  assumes "pool_inv E {} w" "dll_event_ok w (DE_Result x r)"
  shows "\<exists>w'. process_message E w (DE_Result x r) = Some (Some (worker_answer r), w') \<and> pool_inv E {} w' \<and>
    assignments w (key_of_result r) = Some x \<and> assignments w' = (assignments w)(key_of_result r := None) \<and>
    free_executors w' = free_executors w @ [x] \<and> job_args w' = job_args w \<and> job_cache w' = job_cache w \<and>
    library_files w' = library_files w"
proof -
  let ?k = "key_of_result r"
  have x: "x \<in> executors w" "tl (finished w x) = []" "sent_jobs w x = []" "assignments w ?k = Some x"
    using pool_inv_busy[OF assms(1), of x] assms(2) by (auto simp: busy_ok_def unanswered_def length_Suc_conv neq_Nil_conv)
  let ?w1 = "w\<lparr>finished := (finished w)(x := [])\<rparr>"
  have p1: "pool_inv E {} ?w1"
    using pool_inv_jobs[OF assms(1), where s = "sent_jobs w" and f = "(finished w)(x := [])" and x = x] x(3) by (simp add: unanswered_def)
  let ?w2 = "?w1\<lparr>assignments := (assignments ?w1)(?k := None)\<rparr>"
  have "pool_inv E {x} ?w2" using pool_inv_unassign[OF p1, of ?k x] x(4) by simp
  from pool_inv_push_free[OF this singletonI] have "pool_inv E {} (push_free x ?w2)" using x(1,3) by (simp add: unanswered_def)
  then show ?thesis using x by (simp add: process_message_def push_free_def)
qed

lemma process_run_pool:
  assumes "pool_inv E H w"
  shows "pool_inv E H (process_run E x time w)"
proof (cases "sent_jobs w x")
  case (Cons j js)
  obtain r ex where run: "run_job (process_env E (library_files w)) (process_try E) j
      \<lparr>ex_input = [], ex_output = [], lru_cache = libraries w x\<rparr> = (r, ex)" by fastforce
  let ?s = "(sent_jobs w)(x := js)" and ?f = "(finished w)(x := finished w x @ [\<lparr>er_job_id = ej_job_id j, er_task_id = ej_task_id j,
    er_execution_time = time, er_result = r\<rparr>])"
  have "pool_inv E H (w\<lparr>sent_jobs := ?s, finished := ?f\<rparr>)"
    by (rule pool_inv_jobs[OF assms, where x = x]) (simp_all add: unanswered_def Cons key_of_result_def key_of_job_def)
  then show ?thesis using run Cons by (simp add: process_run_def)
qed (use assms in \<open>simp add: process_run_def\<close>)

lemma end_spec:
  assumes "pool_inv E {} w"
  shows "pool_inv E {} (w\<lparr>message := message w - {x}, sockets := ss, sent_jobs := (sent_jobs w)(x := []),
    finished := (finished w)(x := []), dw_output := out\<rparr>)"
proof -
  have "pool_inv E {} (w\<lparr>sent_jobs := (sent_jobs w)(x := []), finished := (finished w)(x := [])\<rparr>)"
    by (rule pool_inv_jobs[OF assms, where x = x]) (simp_all add: unanswered_def)
  then show ?thesis by (auto simp: pool_inv_def busy_ok_def unanswered_def)
qed

lemma exit_spec:
  assumes "pool_inv E {} w"
  shows "pool_inv E {} (process_exit x w)"
proof -
  have "busy_ok {} (process_exit x w) y" for y
    using pool_inv_busy[OF assms, of y] by (cases "finished w y") (auto simp: busy_ok_def unanswered_def process_exit_def)
  then show ?thesis using assms by (auto simp: pool_inv_def process_exit_def)
qed

lemma process_message_spec:
  assumes "dll_inv E cok centries aok w" "dll_event_ok w ev"
  shows "\<exists>r w'. process_message E w ev = Some (r, w') \<and> dll_inv E cok centries aok w' \<and>
    (case r of None \<Rightarrow> dll_held w' \<subseteq> dll_held w
     | Some a \<Rightarrow> \<exists>job t. answered a = {t} \<and> (job, t) \<in> dll_held w \<and> dll_held w' = dll_held w - {(job, t)})"
proof -
  have p: "pool_inv E {} w" using assms(1) by (simp add: dll_inv_def)
  show ?thesis
  proof (cases ev)
    case (DE_Terminated e er order)
    obtain w' where "process_message E w ev = Some (None, w')" "pool_inv E {} w'" "assignments w' = assignments w"
      "job_args w' = job_args w" "job_cache w' = job_cache w" "library_files w' = library_files w"
      using terminated_spec[OF p, of e er order] DE_Terminated by blast
    then show ?thesis using assms(1) by (simp add: dll_inv_def files_ok_def dll_held_def)
  next
    case (DE_Result x r)
    obtain w' where w': "process_message E w ev = Some (Some (worker_answer r), w')" "pool_inv E {} w'"
      "assignments w (key_of_result r) = Some x" "assignments w' = (assignments w)(key_of_result r := None)"
      "job_args w' = job_args w" "job_cache w' = job_cache w" "library_files w' = library_files w"
      using result_spec[OF p, of x r] assms(2) DE_Result by blast
    moreover have "dll_inv E cok centries aok w'" using assms(1) w' by (simp add: dll_inv_def files_ok_def)
    moreover have "\<exists>job t. answered (worker_answer r) = {t} \<and> (job, t) \<in> dll_held w \<and> dll_held w' = dll_held w - {(job, t)}"
      using w'(3,4) by (intro exI[of _ "er_job_id r"] exI[of _ "er_task_id r"]) (auto simp: dll_held_def key_of_result_def)
    ultimately show ?thesis by simp
  next
    case (DE_End x)
    then show ?thesis using assms(1) end_spec[OF p] by (simp add: process_message_def dll_inv_def files_ok_def dll_held_def)
  next
    case (DE_Run x time)
    then show ?thesis using assms(1) process_run_pool[OF p]
      by (simp add: process_message_def dll_inv_def files_ok_def dll_held_def process_run_frame)
  next
    case (DE_Exit x)
    then show ?thesis using assms(1) exit_spec[OF p, of x]
      by (simp add: process_message_def dll_inv_def files_ok_def dll_held_def) (simp add: process_exit_def)
  qed
qed

lemma reset_all_spec:
  assumes "pool_inv E (A ` set ks) w" "\<forall>k \<in> set ks. A' k = Some (A k)" "inj_on A (set ks)" "distinct ks"
    "assignments w = Map.empty"
  shows "\<exists>w'. reset_all E A' ks w = Some w' \<and> pool_inv E {} w' \<and> assignments w' = Map.empty \<and>
    job_args w' = job_args w \<and> job_cache w' = job_cache w \<and> library_files w' = library_files w"
  using assms
proof (induction ks arbitrary: w)
  case Nil
  then show ?case by simp
next
  case (Cons k ks)
  obtain p w1 where w1: "restart_executor E (A k) w = Some (p, w1)"
    "pool_inv E (insert p (A ` set (k # ks) - {A k})) w1" "p \<in> executors w1" "unanswered w1 p = []"
    "p \<notin> A ` set (k # ks) - {A k}" 
    using restart_spec[OF Cons.prems(1), of "A k"] by blast
  note same = restart_executor_calls[OF w1(1)]
  have "A ` set (k # ks) - {A k} = A ` set ks" using Cons.prems(3,4) by (auto simp: inj_on_def)
  then have "pool_inv E (A ` set ks) (push_free p w1)"
    using pool_inv_push_free[OF w1(2) insertI1 w1(3,4)] w1(5) by simp
  then have "\<exists>w'. reset_all E A' ks (push_free p w1) = Some w' \<and> pool_inv E {} w' \<and> assignments w' = Map.empty \<and>
    job_args w' = job_args (push_free p w1) \<and> job_cache w' = job_cache (push_free p w1) \<and>
    library_files w' = library_files (push_free p w1)"
    using Cons.prems same by (intro Cons.IH) (auto simp: inj_on_def push_free_def)
  then show ?case using w1(1) same Cons.prems(2) by (simp add: push_free_def)
qed

lemma dll_reset_spec:
  assumes "dll_inv E cok centries aok w" "dll_order_ok w order"
  shows "\<exists>w'. dll_reset E w order = Some w' \<and> dll_inv E cok centries aok w' \<and> dll_held w' = {}"
proof -
  have p: "pool_inv E {} w" using assms(1) by (simp add: dll_inv_def)
  define A where "A k = the (assignments w k)" for k
  have A: "\<forall>k \<in> set order. assignments w k = Some (A k)" using assms(2) by (auto simp: A_def dll_order_ok_def)
  have once: "inj_on A (set order)"
  proof (rule inj_onI)
    fix k k' assume k: "k \<in> set order" "k' \<in> set order" "A k = A k'"
    have "pool_ok (free_executors w) (assignments w) (executors w)" using p by (simp add: pool_inv_def)
    from pool_assigned_once[OF this, of k "A k" k'] A k show "k = k'" by auto
  qed
  have "A ` set order = ran (assignments w)"
    using assms(2) by (force simp: A_def dll_order_ok_def ran_def dom_def)
  then have "pool_inv E (A ` set order) (w\<lparr>assignments := Map.empty\<rparr>)" using pool_inv_unassign_all[OF p] by simp
  from reset_all_spec[OF this A once] assms(2) show ?thesis using assms(1)
    by (auto simp: dll_reset_def dll_order_ok_def dll_inv_def files_ok_def dll_held_def)
qed

lemma start_executors_spec:
  assumes "pool_inv E {} w"
  shows "\<exists>w'. start_executors E n w = Some w' \<and> pool_inv E {} w' \<and> assignments w' = assignments w \<and>
    length (free_executors w') = length (free_executors w) + n \<and>
    job_args w' = job_args w \<and> job_cache w' = job_cache w \<and> library_files w' = library_files w"
  using assms
proof (induction n arbitrary: w)
  case 0
  then show ?case by simp
next
  case (Suc n)
  obtain p where "spawn_id E (spawn_count w) = Some p" using spawns by blast
  then obtain w1 where w1: "start_executor E w = Some (p, w1)" by (auto simp: start_executor_def)
  note p = pool_inv_start[OF Suc.prems fresh w1]
  have "assignments w1 = assignments w" "free_executors w1 = free_executors w" "job_args w1 = job_args w"
    "job_cache w1 = job_cache w" "library_files w1 = library_files w"
    using w1 by (auto simp: start_executor_def split: bind_splits)
  then show ?case using Suc.IH[of "push_free p w1"] pool_inv_push_free[OF p(1) singletonI p(2,3)] w1
    by (simp add: push_free_def)
qed

lemma dll_new_spec:
  "\<exists>w. dll_new E LC LA n = Some w \<and> dll_inv E cok centries aok w \<and> dll_held w = {} \<and> length (free_executors w) = n"
proof -
  have "pool_inv E {} (empty_worker (process_cache E) LC LA)"
    by (simp add: empty_worker_def pool_inv_def pool_empty busy_ok_def unanswered_def)
  from start_executors_spec[OF this, of n] obtain w where
    w: "dll_new E LC LA n = Some w" "pool_inv E {} w" "assignments w = Map.empty" "length (free_executors w) = n"
      "job_args w = lru_new LA 10" "job_cache w = lru_new LC 10" "library_files w = Map.empty"
    by (auto simp: dll_new_def empty_worker_def)
  then show ?thesis using cache.new_law[of 10] args.new_law[of 10] cache.keys_new[of 10]
    by (simp add: dll_inv_iff dll_held_def)
qed

end

text \<open>The worker keeps the contract of the trait.\<close>

sublocale dll_setting \<subseteq> dll: node_worker "dll_ops E LC LA" "dll_inv E cok centries aok" "dll_event_ok"
  dll_order_ok dll_request_ok dll_held
proof unfold_locales
  fix w rq er w'
  assume "dll_inv E cok centries aok w" "dll_request_ok w rq"
    "wk_process (dll_ops E LC LA) w rq = Some (Inl er, w')"
  then show "\<not> is_answer (Error er) \<and> (\<forall>t \<in> answered (Error er). (rq_job rq, t) \<in> new_keys rq - dll_held w')"
    using process_request_spec[of w rq] by (auto simp: dll_ops_def)
next
  fix w rq
  assume "dll_inv E cok centries aok w" "dll_request_ok w rq"
  then show "\<exists>r w'. wk_process (dll_ops E LC LA) w rq = Some (r, w') \<and> dll_inv E cok centries aok w' \<and>
      dll_held w' \<subseteq> dll_held w \<union> new_keys rq"
    using process_request_spec[of w rq] by (auto simp: dll_ops_def)
qed (simp_all add: dll_ops_def process_message_spec dll_reset_spec)

end
