(* ===== verification/Dll_Worker_Runs.thy ===== *)
theory Dll_Worker_Runs
  imports Dll_Worker
begin

text \<open>
  Runs of \<open>DllWorker\<close>: the invariant from the start of the worker, the tasks a request hands out, the
  task of an executor that terminates, and the job whose arguments have left the cache.
\<close>

declare split_paired_All [simp del] split_paired_Ex [simp del]

section \<open>Properties\<close>

abbreviation dll_ok :: "('jc, 'ja, 'lc) dll_worker \<Rightarrow> (dll_event, job_key list) worker_input \<Rightarrow> bool" where
  "dll_ok \<equiv> worker_input_ok dll_event_ok dll_order_ok dll_request_ok"

context dll_setting
begin

lemma dll_reachable:
  assumes "dll_new E LC LA n = Some w0" "event_run (dll_ok) (worker_turn (dll_ops E LC LA)) w0 es outs w"
  shows "dll_inv E cok centries aok w"
proof -
  have "dll_inv E cok centries aok w0" using dll_new_spec[of n] assms(1) by auto
  from event_loop.run_inv[OF dll.worker_loop[OF this] assms(2)] show ?thesis .
qed

lemma dll_turn_inv:
  "dll_inv E cok centries aok w \<Longrightarrow> dll_ok w i \<Longrightarrow>
    \<exists>out w'. worker_turn (dll_ops E LC LA) w i = Some (out, w') \<and> dll_inv E cok centries aok w'"
  by (rule dll.turn_inv)

lemma dll_inv_facts:
  assumes "dll_inv E cok centries aok w"
  shows "distinct (free_executors w)" "set (free_executors w) \<subseteq> executors w"
    "\<forall>e \<in> executors w. (e \<in> set (free_executors w)) \<noteq> (\<exists>k. assignments w k = Some e)"
    "\<forall>e k k'. assignments w k = Some e \<longrightarrow> assignments w k' = Some e \<longrightarrow> k = k'"
    "\<forall>e. unanswered w e = [] \<or> (\<exists>k. unanswered w e = [k] \<and> assignments w k = Some e)"
    "dom (library_files w) = fst ` set (centries (job_cache w))"
proof -
  have p: "pool_inv E {} w" using assms by (simp add: dll_inv_def)
  then have pool: "pool_ok (free_executors w) (assignments w) (executors w)"
    and cover: "executors w \<subseteq> set (free_executors w) \<union> ran (assignments w)" by (auto simp: pool_inv_def)
  show "distinct (free_executors w)" "set (free_executors w) \<subseteq> executors w" using pool by (auto simp: pool_ok_def)
  show "\<forall>e k k'. assignments w k = Some e \<longrightarrow> assignments w k' = Some e \<longrightarrow> k = k'"
    using pool_assigned_once[OF pool] by blast
  show "\<forall>e \<in> executors w. (e \<in> set (free_executors w)) \<noteq> (\<exists>k. assignments w k = Some e)"
    using pool_free_unassigned[OF pool] cover by (auto simp: ran_def)
  show "\<forall>e. unanswered w e = [] \<or> (\<exists>k. unanswered w e = [k] \<and> assignments w k = Some e)"
  proof
    fix e
    show "unanswered w e = [] \<or> (\<exists>k. unanswered w e = [k] \<and> assignments w k = Some e)"
      using pool_inv_busy[OF p, of e] by (auto simp: busy_ok_def length_Suc_conv)
  qed
  show "dom (library_files w) = fst ` set (centries (job_cache w))" using assms by (simp add: dll_inv_def files_ok_def)
qed

end

text \<open>A system on which every process starts, for evaluation; a library that is not empty returns the data of the task.\<close>

definition calm_env :: "(bytes, bytes lru_list) dll_env" where
  "calm_env = \<lparr>spawn_id = (\<lambda>n. Some (100 + n)), disk_up = (\<lambda>_. True),
     load_library = (\<lambda>b. if b = [] then Inl ''empty'' else Inr b), library_function = (\<lambda>_. Inr (\<lambda>args data. Returned (Inr data))),
     process_cache = list_lru, process_try = list_try_insert\<rparr>"

interpretation calm: dll_setting list_lru lru_list_ok ll_cap ll_entries list_lru lru_list_ok ll_cap ll_entries calm_env
  by unfold_locales (auto simp: calm_env_def inj_def)

abbreviation calm_ops :: "((unit lru_list, bytes lru_list, bytes lru_list) dll_worker, dll_event, job_key list) worker_ops" where
  "calm_ops \<equiv> dll_ops calm_env list_lru list_lru"



definition small_request :: worker_request where
  "small_request = \<lparr>rq_job = 1, rq_job_data = Some ([7], [8]), rq_replacements = [],
     rq_tasks = [\<lparr>wt_id = 0, wt_data = [1]\<rparr>, \<lparr>wt_id = 1, wt_data = [2]\<rparr>]\<rparr>"

lemma small_request_fresh: "fresh_request {} small_request"
  by (simp add: fresh_request_def small_request_def new_tasks_def)


section \<open>Tasks that are lost\<close>

text \<open>\<open>k\<close> stays with an executor that is gone.\<close>

definition dead :: "('lib, 'lc) dll_env \<Rightarrow> executor_id \<Rightarrow> ('jc, 'ja, 'lc) dll_worker \<Rightarrow> bool" where
  "dead E e w \<longleftrightarrow> e \<in> started E (spawn_count w) \<and> e \<notin> executors w"

definition orphan :: "('lib, 'lc) dll_env \<Rightarrow> job_key \<Rightarrow> executor_id \<Rightarrow> ('jc, 'ja, 'lc) dll_worker \<Rightarrow> bool" where
  "orphan E k e w \<longleftrightarrow> assignments w k = Some e \<and> dead E e w"

text \<open>Inputs that do not name \<open>k\<close>: no reset, and no request that replaces it.\<close>

fun leaves_task :: "job_key \<Rightarrow> (dll_event, job_key list) worker_input \<Rightarrow> bool" where
  "leaves_task k (WI_Request rq) \<longleftrightarrow> k \<notin> (\<lambda>(old, _). (rq_job rq, old)) ` set (rq_replacements rq)"
| "leaves_task k (WI_Event _) \<longleftrightarrow> True"
| "leaves_task k (WI_Reset _) \<longleftrightarrow> False"

lemma restart_dead:
  assumes "restart_executor E e' w = Some (p, w')" "inj (spawn_id E)" "dead E e w"
  shows "dead E e w'" "p \<noteq> e"
proof -
  have p: "spawn_id E (spawn_count w) = Some p" "spawn_count w' = Suc (spawn_count w)" "executors w' \<subseteq> insert p (executors w)"
    using assms(1) by (auto simp: restart_executor_def start_executor_def stop_executor_def split: bind_splits if_splits)
  show "p \<noteq> e" using started_new[OF assms(2) p(1)] assms(3) by (auto simp: dead_def)
  then show "dead E e w'" using assms(3) p(2,3) started_mono[of "spawn_count w" "Suc (spawn_count w)" E]
    by (auto simp: dead_def)
qed

lemma assign_task_orphan:
  assumes "assign_task LA e' job t w = Some w'" "orphan E k e w" "k \<noteq> (job, wt_id t)"
  shows "orphan E k e w'"
  using assms by (auto simp: assign_task_def dll_start_job_def orphan_def dead_def Let_def split: if_splits option.splits prod.splits)

lemma process_tasks_orphan:
  assumes "process_tasks_assignment LA job ts w = Some (r, w')" "orphan E k e w" "k \<notin> task_keys job ts"
  shows "orphan E k e w'"
  using assms
proof (induction ts arbitrary: w rule: rev_induct)
  case Nil
  then show ?case by (simp add: process_tasks_assignment.simps)
next
  case (snoc t ts)
  show ?case
  proof (cases "free_executors w = []")
    case True
    then show ?thesis using snoc.prems by (simp add: process_tasks_assignment.simps)
  next
    case False
    let ?w = "w\<lparr>free_executors := butlast (free_executors w)\<rparr>"
    from snoc.prems(1) False obtain w1 where
      w1: "assign_task LA (last (free_executors w)) job t ?w = Some w1"
        "process_tasks_assignment LA job ts w1 = Some (r, w')"
      by (subst (asm) process_tasks_assignment.simps) (auto split: bind_splits)
    have "orphan E k e ?w" using snoc.prems(2) by (simp add: orphan_def dead_def)
    from assign_task_orphan[OF w1(1) this] snoc.prems(3) show ?thesis using snoc.IH[OF w1(2)] by simp
  qed
qed

lemma process_replacement_orphan:
  assumes "process_task_replacement E LA job rs w = Some w'" "orphan E k e w" "inj (spawn_id E)"
    "k \<notin> task_keys job (map snd rs)" "k \<notin> (\<lambda>(old, _). (job, old)) ` set rs"
  shows "orphan E k e w'"
  using assms
proof (induction rs arbitrary: w)
  case Nil
  then show ?case by simp
next
  case (Cons x rs)
  obtain old t where x: "x = (old, t)" by fastforce
  show ?case
  proof (cases "assignments w (job, old)")
    case None
    then show ?thesis using Cons by (simp add: x)
  next
    case (Some e')
    let ?w = "w\<lparr>assignments := (assignments w)((job, old) := None)\<rparr>"
    from Cons.prems(1) Some obtain p w1 w2 where w1: "restart_executor E e' ?w = Some (p, w1)"
      "assign_task LA p job t w1 = Some w2" "process_task_replacement E LA job rs w2 = Some w'"
      by (auto simp: x split: bind_splits)
    have k: "k \<noteq> (job, old)" "k \<noteq> (job, wt_id t)" using Cons.prems(4,5) by (auto simp: x)
    have "dead E e ?w" using Cons.prems(2) by (simp add: orphan_def dead_def)
    from restart_dead[OF w1(1) Cons.prems(3) this] have "orphan E k e w1"
      using Cons.prems(2) k(1) by (simp add: orphan_def restart_executor_calls[OF w1(1)])
    from assign_task_orphan[OF w1(2) this k(2)] show ?thesis
      using Cons.IH[OF w1(3)] Cons.prems(3-5) by (simp add: x)
  qed
qed

lemma process_library_frame:
  assumes "process_library E LC LA rq w = Some (r, w')"
  shows "assignments w' = assignments w" "executors w' = executors w" "spawn_count w' = spawn_count w"
  using assms by (auto simp: process_library_def add_library_def remove_library_def Let_def
      split: prod.splits option.splits bind_splits if_splits)

lemma process_request_orphan:
  assumes "process_request E LC LA w rq = Some (r, w')" "orphan E k e w" "inj (spawn_id E)"
    "dll_request_ok w rq" "leaves_task k (WI_Request rq)"
  shows "orphan E k e w'"
proof -
  from assms(1) obtain r1 w1 where w1: "process_library E LC LA rq w = Some (r1, w1)"
    "(case r1 of Inl er \<Rightarrow> Some (Inl er, w1) | Inr _ \<Rightarrow> do {
         w \<leftarrow> process_task_replacement E LA (rq_job rq) (rq_replacements rq) w1;
         process_tasks_assignment LA (rq_job rq) (rq_tasks rq) w }) = Some (r, w')"
    by (auto simp: process_request_def split: bind_splits)
  note same = process_library_frame[OF w1(1)]
  have o1: "orphan E k e w1" using assms(2) by (simp add: orphan_def dead_def same)
  have k: "k \<notin> task_keys (rq_job rq) (map snd (rq_replacements rq))" "k \<notin> task_keys (rq_job rq) (rq_tasks rq)"
    using assms(2,4) by (auto simp: dll_request_ok_def fresh_request_def new_keys_def new_tasks_def dll_held_def orphan_def)
  show ?thesis
  proof (cases r1)
    case (Inl er)
    then show ?thesis using w1(2) o1 by simp
  next
    case (Inr u)
    then obtain w2 where w2: "process_task_replacement E LA (rq_job rq) (rq_replacements rq) w1 = Some w2"
      "process_tasks_assignment LA (rq_job rq) (rq_tasks rq) w2 = Some (r, w')"
      using w1(2) by (auto split: bind_splits)
    have "orphan E k e w2" using process_replacement_orphan[OF w2(1) o1 assms(3) k(1)] assms(5) by simp
    from process_tasks_orphan[OF w2(2) this k(2)] show ?thesis .
  qed
qed

context dll_setting
begin

lemma event_orphan:
  assumes "dll_inv E cok centries aok w" "dll_event_ok w ev" "orphan E k e w"
    "process_message E w ev = Some (r, w')"
  shows "orphan E k e w'"
proof (cases ev)
  case (DE_Terminated e' er order)
  let ?find = "\<lambda>p w. find (\<lambda>k. assignments w k = Some p) order"
  from assms(4) DE_Terminated obtain p w1 where w1: "restart_executor E e' w = Some (p, w1)"
    "(case ?find p (push_free p w1) of
        Some k \<Rightarrow> Some (Some (Error (TaskExecutionError (snd k) er)),
          (push_free p w1)\<lparr>assignments := (assignments (push_free p w1))(k := None)\<rparr>)
      | None \<Rightarrow> Some (None, push_free p w1)) = Some (r, w')"
    by (auto simp: process_message_def split: bind_splits)
  have d: "dead E e w1" "p \<noteq> e" using restart_dead[OF w1(1) fresh] assms(3) by (auto simp: orphan_def)
  have o1: "orphan E k e (push_free p w1)"
    using assms(3) d(1) restart_executor_calls(1)[OF w1(1)] by (simp add: orphan_def dead_def push_free_def)
  show ?thesis
  proof (cases "?find p (push_free p w1)")
    case None
    then show ?thesis using w1(2) o1 by simp
  next
    case (Some k')
    then have "assignments (push_free p w1) k' = Some p" by (auto simp: find_Some_iff)
    then have "k' \<noteq> k" using o1 d(2) by (auto simp: orphan_def)
    then show ?thesis using w1(2) o1 Some by (auto simp: orphan_def dead_def)
  qed
next
  case (DE_Result x res)
  have p: "pool_inv E {} w" using assms(1) by (simp add: dll_inv_def)
  from result_spec[OF p] assms(2) DE_Result have x: "assignments w (key_of_result res) = Some x" by blast
  have "x \<in> executors w" using p assms(2) DE_Result by (auto simp: pool_inv_def)
  then have "k \<noteq> key_of_result res" using x assms(3) by (auto simp: orphan_def dead_def)
  then show ?thesis using assms(3,4) DE_Result x by (auto simp: process_message_def push_free_def orphan_def dead_def)
next
  case (DE_End x)
  then show ?thesis using assms(3,4) by (auto simp: process_message_def orphan_def dead_def)
next
  case (DE_Run x time)
  then show ?thesis using assms(3,4) by (auto simp: process_message_def orphan_def dead_def process_run_def split: list.splits prod.splits)
next
  case (DE_Exit x)
  then show ?thesis using assms(3,4) by (auto simp: process_message_def orphan_def dead_def process_exit_def)
qed

lemma turn_orphan:
  assumes "dll_inv E cok centries aok w" "dll_ok w i" "leaves_task k i" "orphan E k e w"
    "worker_turn (dll_ops E LC LA) w i = Some (out, w')"
  shows "orphan E k e w'"
proof (cases i)
  case (WI_Request rq)
  then show ?thesis using process_request_orphan[OF _ assms(4) fresh, of LC LA rq _ w'] assms(2,3,5)
    by (auto simp: dll_ops_def split: bind_splits)
next
  case (WI_Event ev)
  then show ?thesis using event_orphan[OF assms(1) _ assms(4), of ev _ w'] assms(2,5)
    by (auto simp: dll_ops_def split: bind_splits)
next
  case (WI_Reset ord)
  then show ?thesis using assms(3) by simp
qed

lemma orphan_run:
  assumes "dll_inv E cok centries aok w" "orphan E k e w"
    "event_run (\<lambda>w i. dll_ok w i \<and> leaves_task k i) (worker_turn (dll_ops E LC LA)) w es outs w'"
  shows "dll_inv E cok centries aok w' \<and> orphan E k e w'"
  using assms(3)
proof (induction rule: event_run.induct)
  case run_init
  then show ?case using assms(1,2) by simp
next
  case (run_event es outs s i out s')
  then show ?case using dll_turn_inv[of s i] turn_orphan[of s i k e out s'] by auto
qed

lemma orphan_unsent:
  assumes "dll_inv E cok centries aok w" "orphan E k e w"
  shows "k \<in> dll_held w" "k \<notin> set (unanswered w x)"
proof -
  have p: "pool_inv E {} w" using assms(1) by (simp add: dll_inv_def)
  show "k \<in> dll_held w" using assms(2) by (auto simp: orphan_def dll_held_def)
  show "k \<notin> set (unanswered w x)"
    using pool_inv_busy[OF p, of x] assms(2) by (auto simp: busy_ok_def orphan_def dead_def length_Suc_conv)
qed

lemma terminated_orphan:
  assumes "dll_inv E cok centries aok w" "dll_event_ok w (DE_Terminated e er order)" "assignments w k = Some e"
  shows "\<exists>w'. process_message E w (DE_Terminated e er order) = Some (None, w') \<and>
    dll_inv E cok centries aok w' \<and> orphan E k e w'"
proof -
  have p: "pool_inv E {} w" using assms(1) by (simp add: dll_inv_def)
  obtain q w' where w': "process_message E w (DE_Terminated e er order) = Some (None, w')" "pool_inv E {} w'"
    "assignments w' = assignments w" "q \<notin> ran (assignments w)" "executors w' = insert q (executors w - {e})"
    using terminated_spec[OF p, of e er order] by blast
  have inv: "dll_inv E cok centries aok w'" using process_message_spec[OF assms(1,2)] w'(1) by auto
  have "e \<noteq> q" using w'(4) assms(3) by (auto simp: ran_def)
  moreover have "e \<in> started E (spawn_count w')" using w'(2,3) assms(3) by (auto simp: pool_inv_def ran_def)
  ultimately have "orphan E k e w'" using w'(3,5) assms(3) by (simp add: orphan_def dead_def)
  then show ?thesis using w'(1) inv by blast
qed

end

text \<open>The task of an executor that terminates is lost. The worker replaces the executor and looks the
  task up under the identifier of the new process, so it reports nothing; the task stays assigned to the
  process that is gone and no executor has it, through any sequence of results, terminations and requests,
  until the worker is reset or the scheduler replaces the task.\<close>

lemma terminated_task_lost:
  assumes "dll_setting LC cok ccap centries LA aok acap aentries E" "dll_new E LC LA n = Some w0"
    "event_run (dll_ok) (worker_turn (dll_ops E LC LA)) w0 es outs w"
    "dll_ok w (WI_Event (DE_Terminated e er order))" "assignments w k = Some e"
  shows "\<exists>w1. worker_turn (dll_ops E LC LA) w (WI_Event (DE_Terminated e er order)) = Some ([], w1) \<and>
    (\<forall>es' outs' w2. event_run (\<lambda>w i. dll_ok w i \<and> leaves_task k i) (worker_turn (dll_ops E LC LA)) w1 es' outs' w2 \<longrightarrow>
       k \<in> dll_held w2 \<and> (\<forall>x. k \<notin> set (unanswered w2 x)))"
proof -
  note inv = dll_setting.dll_reachable[OF assms(1-3)]
  obtain w1 where w1: "process_message E w (DE_Terminated e er order) = Some (None, w1)"
    "dll_inv E cok centries aok w1" "orphan E k e w1"
    using dll_setting.terminated_orphan[OF assms(1) inv _ assms(5), of er order] assms(4) by auto
  have "k \<in> dll_held w2 \<and> (\<forall>x. k \<notin> set (unanswered w2 x))"
    if run: "event_run (\<lambda>w i. dll_ok w i \<and> leaves_task k i) (worker_turn (dll_ops E LC LA)) w1 es' outs' w2" for es' outs' w2
    using dll_setting.orphan_run[OF assms(1) w1(2,3) run] dll_setting.orphan_unsent[OF assms(1)] by blast
  then show ?thesis using w1(1) by (simp add: dll_ops_def)
qed

lemmas dll_eval = dll_new_def start_executor_def calm_env_def empty_worker_def push_free_def
  fresh_request_def new_tasks_def new_keys_def dll_held_def dll_ops_def process_request_def process_library_def
  list_lru_def touch_def given_up_def pushed_def drop_key_def add_library_def remove_library_def
  process_tasks_assignment.simps assign_task_def dll_start_job_def process_message_def key_of_result_def key_of_job_def
  dll_request_ok_def reached_def process_run_def process_exit_def process_env_def run_job_def get_func_def get_library_def
  list_try_insert_def

lemma calm_loaded:
  "\<exists>w0 w. dll_new calm_env list_lru list_lru 2 = Some w0 \<and>
     exec_events (dll_ok) (worker_turn calm_ops) w0 [WI_Request small_request] = Some ([], w) \<and>
     assignments w = [(1, 1) \<mapsto> 101, (1, 0) \<mapsto> 100] \<and> message w = {100, 101}"
  by (simp add: dll_eval small_request_def numeral_2_eq_2 insert_commute)

section \<open>The tasks of a request\<close>

context dll_setting
begin

lemma process_request_tasks:
  assumes "dll_inv E cok centries aok w" "fresh_request (dll_held w) rq" "rq_replacements rq = []"
    "reached (length (rq_tasks rq)) w \<subseteq> sockets w"
    "rq_job rq \<in> dom (library_files w) \<and> args = map_of (aentries (job_args w)) (rq_job rq) \<or>
     rq_job rq \<notin> dom (library_files w) \<and> (\<exists>a data. rq_job_data rq = Some (a, data) \<and> args = Some a)"
  shows "\<exists>w'. process_request E LC LA w rq =
      Some (if length (rq_tasks rq) \<le> length (free_executors w) then Inr ()
            else Inl (NoFreeExecutors (map wt_id (take (length (rq_tasks rq) - length (free_executors w)) (rq_tasks rq)))), w') \<and>
    dll_inv E cok centries aok w' \<and>
    free_executors w' = take (length (free_executors w) - length (rq_tasks rq)) (free_executors w) \<and>
    dll_held w' = dll_held w \<union>
      task_keys (rq_job rq) (drop (length (rq_tasks rq) - length (free_executors w)) (rq_tasks rq)) \<and>
    dw_output w' = dw_output w @ jobs_sent args (rq_job rq) (rq_tasks rq) (free_executors w)"
proof -
  from process_library_spec[OF assms(1), of rq] assms(5) obtain w1 where
    w1: "process_library E LC LA rq w = Some (Inr (), w1)" "dll_inv E cok centries aok w1" "sockets w1 = sockets w"
      "assignments w1 = assignments w" "free_executors w1 = free_executors w" "dw_output w1 = dw_output w"
      "map_of (aentries (job_args w1)) (rq_job rq) = args" by auto
  have up: "reached (length (rq_tasks rq)) w1 \<subseteq> sockets w1" using assms(4) w1(3,5) by (simp add: reached_def)
  have p: "pool_inv E {} w1" "aok (job_args w1)" using w1(2) by (auto simp: dll_inv_def)
  have fr: "distinct (map wt_id (rq_tasks rq))" "task_keys (rq_job rq) (rq_tasks rq) \<inter> dom (assignments w1) = {}"
    using assms(2,3) by (auto simp: fresh_request_def new_tasks_def new_keys_def dll_held_def w1(4))
  show ?thesis
    using process_tasks_spec[OF p fr up] w1 assms(3) by (auto simp: process_request_def dll_inv_def files_ok_def dll_held_def)
qed

end

text \<open>What a request that reaches no process that has gone does with its tasks, when the job and its arguments are cached or come with it: the
  last tasks of the vector go to the executors at the end of the vector of free executors, in that order,
  each with the arguments of the job and its own data; when there are more tasks than free executors, the
  error names exactly the first ones, which are not taken.\<close>

lemma dll_tasks_assigned:
  assumes "dll_setting LC cok ccap centries LA aok acap aentries E" "dll_new E LC LA n = Some w0"
    "event_run (dll_ok) (worker_turn (dll_ops E LC LA)) w0 es outs w" "dll_request_ok w rq"
    "rq_replacements rq = []"
    "rq_job rq \<in> dom (library_files w) \<and> map_of (aentries (job_args w)) (rq_job rq) = Some args \<or>
     rq_job rq \<notin> dom (library_files w) \<and> rq_job_data rq = Some (args, data)"
    "m = length (rq_tasks rq) - length (free_executors w)"
  shows "\<exists>w'. process_request E LC LA w rq =
      Some (if m = 0 then Inr () else Inl (NoFreeExecutors (map wt_id (take m (rq_tasks rq)))), w') \<and>
    dw_output w' = dw_output w @
      map2 (\<lambda>t e. Job_Sent e \<lparr>ej_job_id = rq_job rq, ej_job_data = args, ej_task_id = wt_id t, ej_task_data = wt_data t\<rparr>)
        (rev (rq_tasks rq)) (rev (free_executors w)) \<and>
    free_executors w' = take (length (free_executors w) - length (rq_tasks rq)) (free_executors w) \<and>
    dll_held w' = dll_held w \<union> task_keys (rq_job rq) (drop m (rq_tasks rq))"
proof -
  note inv = dll_setting.dll_reachable[OF assms(1-3)]
  have "rq_job rq \<in> dom (library_files w) \<and> Some args = map_of (aentries (job_args w)) (rq_job rq) \<or>
     rq_job rq \<notin> dom (library_files w) \<and> (\<exists>a data. rq_job_data rq = Some (a, data) \<and> Some args = Some a)"
    using assms(6) by auto
  from dll_setting.process_request_tasks[OF assms(1) inv _ assms(5) _ this] assms(4) show ?thesis
    by (auto simp: dll_request_ok_def) (auto simp: assms(7) jobs_sent_def)
qed

section \<open>Processes that have gone\<close>

context dll_setting
begin

lemma process_tasks_panic:
  assumes "pool_inv E {} w" "aok (job_args w)" "distinct (map wt_id tasks)" "task_keys job tasks \<inter> dom (assignments w) = {}"
    "map_of (aentries (job_args w)) job \<noteq> None" "\<not> reached (length tasks) w \<subseteq> sockets w"
  shows "process_tasks_assignment LA job tasks w = None"
  using assms
proof (induction tasks arbitrary: w rule: rev_induct)
  case Nil
  then show ?case by (simp add: reached_def)
next
  case (snoc t tasks)
  have free: "free_executors w \<noteq> []" using snoc.prems(6) by (auto simp: reached_def)
  then obtain F e where F: "free_executors w = F @ [e]" by (metis append_butlast_last_id)
  let ?w = "w\<lparr>free_executors := F\<rparr>"
  have e: "pool_inv E {e} ?w" "e \<in> executors ?w" "unanswered ?w e = []"
    using pool_inv_take_free[OF snoc.prems(1) free] by (simp_all add: F unanswered_def)
  have step: "process_tasks_assignment LA job (tasks @ [t]) w =
      do { w \<leftarrow> assign_task LA e job t ?w; process_tasks_assignment LA job tasks w }"
    by (subst process_tasks_assignment.simps) (simp add: F)
  show ?case
  proof (cases "e \<in> sockets w")
    case True
    have t: "(job, wt_id t) \<notin> dom (assignments ?w)" using snoc.prems(4) by auto
    obtain w1 where w1: "assign_task LA e job t ?w = Some w1" "pool_inv E {} w1"
      "assignments w1 = (assignments w)((job, wt_id t) \<mapsto> e)" "free_executors w1 = F" "aok (job_args w1)"
      "aentries (job_args w1) = touch job (aentries (job_args w))" "sockets w1 = sockets w"
      using assign_task_spec[OF e(1) singletonI e(2,3) t] snoc.prems(2) True by auto
    have "\<not> reached (length tasks) w1 \<subseteq> sockets w1" using snoc.prems(6) True by (auto simp: reached_def F w1(4,7))
    moreover have "task_keys job tasks \<inter> dom (assignments w1) = {}" "distinct (map wt_id tasks)"
      using snoc.prems(3,4) by (auto simp: w1(3) task_keys_iff)
    moreover have "map_of (aentries (job_args w1)) job \<noteq> None" using snoc.prems(5) by (simp add: w1(6))
    ultimately show ?thesis using snoc.IH[OF w1(2,5)] by (simp add: step w1(1))
  next
    case False
    then show ?thesis using e(2) snoc.prems(5) args.get_value[OF snoc.prems(2), of job]
      by (auto simp: step assign_task_def dll_start_job_def case_prod_beta split: option.splits)
  qed
qed

lemma process_request_panics:
  assumes "dll_inv E cok centries aok w" "fresh_request (dll_held w) rq"
    "rq_job rq \<in> dom (library_files w) \<and> map_of (aentries (job_args w)) (rq_job rq) \<noteq> None \<or>
     rq_job rq \<notin> dom (library_files w) \<and> rq_job_data rq \<noteq> None"
    "\<not> reached (length (rq_tasks rq)) w \<subseteq> sockets w"
  shows "process_request E LC LA w rq = None"
proof -
  note fr = fresh_request_parts[OF assms(2), unfolded dll_held_def]
  from process_library_spec[OF assms(1), of rq] assms(3) obtain w1 where
    w1: "process_library E LC LA rq w = Some (Inr (), w1)" "dll_inv E cok centries aok w1"
      "assignments w1 = assignments w" "free_executors w1 = free_executors w" "sockets w1 = sockets w"
      "map_of (aentries (job_args w1)) (rq_job rq) \<noteq> None" by auto
  have p: "pool_inv E {} w1" "aok (job_args w1)" using w1(2) by (auto simp: dll_inv_def)
  obtain w2 where w2: "process_task_replacement E LA (rq_job rq) (rq_replacements rq) w1 = Some w2"
    "pool_inv E {} w2" "aok (job_args w2)" "free_executors w2 = free_executors w"
    "\<forall>x \<in> set (free_executors w). x \<in> sockets w2 \<longleftrightarrow> x \<in> sockets w"
    "map_of (aentries (job_args w2)) = map_of (aentries (job_args w1))"
    "dom (assignments w2) \<subseteq> dom (assignments w) \<union> task_keys (rq_job rq) (map snd (rq_replacements rq))"
    using process_replacement_spec[OF p fr(1), of "rq_job rq"] fr(4) unfolding w1(3-5) by blast
  have "task_keys (rq_job rq) (rq_tasks rq) \<inter> dom (assignments w2) = {}"
    using w2(7) task_keys_disjoint[OF fr(3), of "rq_job rq"] fr(5) by blast
  moreover have "\<not> reached (length (rq_tasks rq)) w2 \<subseteq> sockets w2"
    using assms(4) w2(4,5) by (auto simp: reached_def dest: in_set_dropD)
  moreover have "map_of (aentries (job_args w2)) (rq_job rq) \<noteq> None" using w1(6) w2(6) by simp
  ultimately have "process_tasks_assignment LA (rq_job rq) (rq_tasks rq) w2 = None"
    using process_tasks_panic[OF w2(2,3) fr(2)] by blast
  then show ?thesis using w1(1) w2(1) by (simp add: process_request_def)
qed

end


definition ended_inputs :: "(dll_event, job_key list) worker_input list" where
  "ended_inputs = [WI_Event (DE_Exit 101), WI_Event (DE_End 101)]"

lemma ended_run:
  "\<exists>w0 w. dll_new calm_env list_lru list_lru 2 = Some w0 \<and>
     exec_events dll_ok (worker_turn calm_ops) w0 ended_inputs = Some ([], w) \<and>
     free_executors w = [100, 101] \<and> sockets w = {100} \<and> dll_held w = {} \<and> library_files w = Map.empty"
  by (simp add: dll_eval ended_inputs_def numeral_2_eq_2 insert_Diff_if)


section \<open>Waiting for an event\<close>

lemma recv_without_streams: "message w = {} \<Longrightarrow> dll_recv fuel E w evs = Running"
  by (induction fuel) simp_all

lemma recv_streams_end: "message w \<subseteq> set xs \<Longrightarrow> dll_recv fuel E w (map DE_End xs @ evs) = Running"
proof (induction xs arbitrary: w fuel)
  case Nil
  then show ?case by (simp add: recv_without_streams)
next
  case (Cons x xs)
  show ?case
  proof (cases "message w = {}")
    case False
    have "message w - {x} \<subseteq> set xs" using Cons.prems by auto
    then show ?thesis using False Cons.IH by (cases fuel) (simp_all add: process_message_def)
  qed (rule recv_without_streams)
qed

lemma message_streams_stay:
  assumes "process_message E w ev = Some (r, w')" "message w \<noteq> {}" "\<nexists>x. ev = DE_End x"
  shows "message w' \<noteq> {}"
proof (cases ev)
  case (DE_Terminated e er order)
  then obtain p w1 where w1: "restart_executor E e w = Some (p, w1)" "message w' = message w1"
    using assms(1) by (auto simp: process_message_def push_free_def split: bind_splits option.splits)
  then show ?thesis using restart_executor_calls(5)[OF w1(1)] by simp
qed (use assms in \<open>auto simp: process_message_def process_run_frame process_exit_def push_free_def Let_def split: option.splits\<close>)

lemma recv_returns:
  "message w \<noteq> {} \<Longrightarrow> \<forall>x. DE_End x \<notin> set evs \<Longrightarrow> dll_recv (Suc (length evs)) E w evs \<noteq> Running"
proof (induction evs arbitrary: w)
  case (Cons ev evs)
  show ?case
  proof (cases "process_message E w ev")
    case (Some rw)
    obtain r w1 where rw: "rw = (r, w1)" by fastforce
    have ne: "\<nexists>x. ev = DE_End x" using Cons.prems(2) by auto
    have "message w1 \<noteq> {}" by (rule message_streams_stay[OF Some[unfolded rw] Cons.prems(1) ne])
    from Cons.IH[OF this] Cons.prems show ?thesis by (cases r) (simp_all add: Some rw)
  qed (use Cons.prems in simp)
qed simp

text \<open>Waiting for an event never ends when the streams of all executors have ended: the loop goes on without an event and without giving way to anything
  else, however many of its turns are counted, and whatever events would follow; as long as no stream ends, it takes one turn for each event, at most, until it
  has an answer or waits.\<close>

lemma recv_spins:
  "(message w \<subseteq> set xs \<longrightarrow> (\<forall>fuel. dll_recv fuel E w (map DE_End xs @ evs) = Running)) \<and>
   (message w \<noteq> {} \<and> (\<forall>x. DE_End x \<notin> set evs) \<longrightarrow> dll_recv (Suc (length evs)) E w evs \<noteq> Running)"
  using recv_streams_end recv_returns by blast

section \<open>The two caches of a worker\<close>

text \<open>The libraries and the arguments of jobs are kept in two caches that give up different jobs: a
  request renews the entry of its job in the first one always, and in the second one only when a task is
  handed out. When the library of a job is cached and its arguments are not, a request for it is accepted
  without its data, its tasks take executors, and no job is sent to them: the tasks are never run.\<close>

lemma cached_job_without_arguments:
  assumes "dll_setting LC cok ccap centries LA aok acap aentries E" "dll_new E LC LA n = Some w0"
    "event_run (dll_ok) (worker_turn (dll_ops E LC LA)) w0 es outs w" "dll_request_ok w rq"
    "rq_replacements rq = []" "length (rq_tasks rq) \<le> length (free_executors w)"
    "rq_job rq \<in> dom (library_files w)" "map_of (aentries (job_args w)) (rq_job rq) = None"
  shows "\<exists>w'. worker_turn (dll_ops E LC LA) w (WI_Request rq) = Some ([], w') \<and>
    dll_held w' = dll_held w \<union> new_keys rq \<and> dw_output w' = dw_output w \<and>
    length (free_executors w') = length (free_executors w) - length (rq_tasks rq)"
proof -
  note inv = dll_setting.dll_reachable[OF assms(1-3)]
  have "rq_job rq \<in> dom (library_files w) \<and> None = map_of (aentries (job_args w)) (rq_job rq)"
    using assms(7,8) by simp
  from dll_setting.process_request_tasks[OF assms(1) inv _ assms(5) _ disjI1[OF this]] show ?thesis
    using assms(4,5,6) unfolding dll_request_ok_def by (auto simp: jobs_sent_def dll_ops_def new_keys_def new_tasks_def)
qed

text \<open>A run of a worker with one executor that gets there: while the executor is busy with the first job,
  nine other jobs arrive, then a second task of the first job, then one more job.\<close>

definition one_task :: "uuid \<Rightarrow> task_id \<Rightarrow> bool \<Rightarrow> worker_request" where
  "one_task job t with_data = \<lparr>rq_job = job, rq_job_data = (if with_data then Some ([7], [8]) else None),
     rq_replacements = [], rq_tasks = [\<lparr>wt_id = t, wt_data = [1]\<rparr>]\<rparr>"

definition evicting_inputs :: "(dll_event, job_key list) worker_input list" where
  "evicting_inputs =
     map (\<lambda>job. WI_Request (one_task job 0 True)) [1, 2, 3, 4, 5, 6, 7, 8, 9, 10] @
     [WI_Request (one_task 1 1 False), WI_Request (one_task 11 0 True), WI_Event (DE_Run 100 5),
      WI_Event (DE_Result 100 \<lparr>er_job_id = 1, er_task_id = 0, er_execution_time = 5, er_result = Inr [1]\<rparr>)]"

lemma evicting_run:
  "\<exists>w0 outs w. dll_new calm_env list_lru list_lru 1 = Some w0 \<and>
     exec_events (dll_ok) (worker_turn calm_ops) w0 evicting_inputs = Some (outs, w) \<and>
     assignments w = Map.empty \<and> free_executors w = [100] \<and> 1 \<in> dom (library_files w) \<and>
     map_of (ll_entries (job_args w)) 1 = None"
  by (simp add: dll_eval evicting_inputs_def one_task_def worker_answer_def)

end
