(* ===== verification/Dll_Answers.thy ===== *)
theory Dll_Answers
  imports Dll_Worker_Runs
begin

text \<open>
  The answers of \<open>DllWorker\<close>: when the requests of a job carry its arguments, its library and the data of its tasks, every
  file in the directory is the library of its job, every job that an executor is sent has the arguments of the job and the data of the task,
  and every answer is what the process computes with this library. A process that has to open a library which the worker has removed
  in the meantime answers that it cannot; with at most ten jobs, as many as the worker caches, no library is removed.
\<close>

declare split_paired_All [simp del] split_paired_Ex [simp del]

section \<open>Right answers\<close>

text \<open>What a process computes for a task when the library of every job is there.\<close>

definition dll_result :: "('lib, 'lc) dll_env \<Rightarrow> job_code \<Rightarrow> job_key \<Rightarrow> string + bytes" where
  "dll_result E C k = job_outcome (process_env E (\<lambda>u. Some (jc_library C u))) (code_job C k)"

definition few :: "uuid set \<Rightarrow> bool" where
  "few J \<longleftrightarrow> finite J \<and> card J \<le> 10"

definition dll_right :: "('lib, 'lc) dll_env \<Rightarrow> job_code \<Rightarrow> uuid set \<Rightarrow> job_key \<Rightarrow> string + bytes \<Rightarrow> bool" where
  "dll_right E C J k res \<longleftrightarrow> res = dll_result E C k \<or> res = Inl ''Unable to open library'' \<and> \<not> few J"

text \<open>The arguments and the files are those of their jobs; the jobs on their way are those of their tasks; the results are right; the libraries that
  processes have loaded are right (\<open>lok\<close>); and with few jobs no file is removed.\<close>

definition sources_ok :: "job_code \<Rightarrow> ('ja \<Rightarrow> (uuid \<times> bytes) list) \<Rightarrow> ('jc, 'ja, 'lc) dll_worker \<Rightarrow> bool" where
  "sources_ok C aentries w \<longleftrightarrow>
     (\<forall>u a. map_of (aentries (job_args w)) u = Some a \<longrightarrow> a = jc_args C u) \<and>
     (\<forall>u b. library_files w u = Some b \<longrightarrow> b = jc_library C u)"

definition job_right :: "job_code \<Rightarrow> executor_job \<Rightarrow> bool" where
  "job_right C j \<longleftrightarrow> j = code_job C (key_of_job j)"

lemma job_right_code [simp]: "job_right C (code_job C k)"
  by (simp add: job_right_def)

definition processes_ok ::
  "(job_key \<Rightarrow> string + bytes \<Rightarrow> bool) \<Rightarrow> job_code \<Rightarrow> uuid set \<Rightarrow> ('lc \<Rightarrow> bool) \<Rightarrow> ('jc, 'ja, 'lc) dll_worker \<Rightarrow> bool" where
  "processes_ok right C J lok w \<longleftrightarrow>
     (\<forall>x. lok (libraries w x) \<and> (\<forall>r \<in> set (finished w x). right (key_of_result r) (er_result r)) \<and>
        (\<forall>j \<in> set (sent_jobs w x). job_right C j \<and> (few J \<longrightarrow> ej_job_id j \<in> dom (library_files w))))"

definition few_ok :: "uuid set \<Rightarrow> ('jc \<Rightarrow> nat) \<Rightarrow> ('jc \<Rightarrow> (uuid \<times> unit) list) \<Rightarrow> ('jc, 'ja, 'lc) dll_worker \<Rightarrow> bool" where
  "few_ok J ccap centries w \<longleftrightarrow> few J \<longrightarrow> ccap (job_cache w) = 10 \<and> fst ` set (centries (job_cache w)) \<subseteq> J"

definition dll_faithful ::
  "('lib, 'lc) dll_env \<Rightarrow> job_code \<Rightarrow> uuid set \<Rightarrow> ('jc \<Rightarrow> nat) \<Rightarrow> ('jc \<Rightarrow> (uuid \<times> unit) list) \<Rightarrow> ('ja \<Rightarrow> (uuid \<times> bytes) list) \<Rightarrow>
   ('lc \<Rightarrow> bool) \<Rightarrow> ('jc, 'ja, 'lc) dll_worker \<Rightarrow> bool" where
  "dll_faithful E C J ccap centries aentries lok w \<longleftrightarrow>
     sources_ok C aentries w \<and> processes_ok (dll_right E C J) C J lok w \<and> few_ok J ccap centries w"

lemmas faithful_defs = dll_faithful_def sources_ok_def processes_ok_def few_ok_def

lemma dll_faithful_frame [simp]:
  "dll_faithful E C J cc ce ae lok (w\<lparr>free_executors := F\<rparr>) = dll_faithful E C J cc ce ae lok w"
  "dll_faithful E C J cc ce ae lok (w\<lparr>assignments := A\<rparr>) = dll_faithful E C J cc ce ae lok w"
  "dll_faithful E C J cc ce ae lok (push_free e w) = dll_faithful E C J cc ce ae lok w"
  by (simp_all add: faithful_defs push_free_def)

lemma dll_faithful_fewer:
  assumes "dll_faithful E C J cc ce ae lok w" "job_args w' = job_args w" "job_cache w' = job_cache w"
    "library_files w' = library_files w" "libraries w' = libraries w"
    "\<And>y. set (sent_jobs w' y) \<subseteq> set (sent_jobs w y)" "\<And>y. set (finished w' y) \<subseteq> set (finished w y)"
  shows "dll_faithful E C J cc ce ae lok w'"
proof -
  have "processes_ok (dll_right E C J) C J lok w'"
    using assms(1,6,7) unfolding dll_faithful_def processes_ok_def assms(4,5) by blast
  then show ?thesis using assms(1) by (simp add: dll_faithful_def sources_ok_def few_ok_def assms(2-4))
qed

lemma restart_faithful:
  assumes "restart_executor E e w = Some (p, w')" "dll_faithful E C J cc ce ae lok w" "lok (lru_new (process_cache E) 5)"
  shows "dll_faithful E C J cc ce ae lok w'"
proof -
  note same = restart_executor_calls[OF assms(1)]
  have q: "sent_jobs w' y \<in> {[], sent_jobs w y}" "finished w' y \<in> {[], finished w y}"
    "libraries w' y \<in> {libraries w y, lru_new (process_cache E) 5}" for y
    using assms(1) by (auto simp: restart_executor_def start_executor_def stop_executor_def split: bind_splits if_splits)
  have "processes_ok (dll_right E C J) C J lok w"
    using assms(2) by (simp add: dll_faithful_def)
  then have "processes_ok (dll_right E C J) C J lok w'"
    unfolding processes_ok_def same(4) using q assms(3) by (metis empty_iff empty_set insert_iff)
  then show ?thesis using assms(2) same by (simp add: dll_faithful_def sources_ok_def few_ok_def)
qed

lemma reset_all_faithful:
  "reset_all E A ks w = Some w' \<Longrightarrow> dll_faithful E C J cc ce ae lok w \<Longrightarrow> lok (lru_new (process_cache E) 5) \<Longrightarrow>
    dll_faithful E C J cc ce ae lok w'"
  by (induction ks arbitrary: w) (auto split: option.splits bind_splits dest: restart_faithful)

lemma full_of_jobs:
  assumes "few J" "k \<in> J" "distinct ks" "set ks \<subseteq> J" "k \<notin> set ks"
  shows "length ks < 10"
proof -
  have "card (insert k (set ks)) \<le> card J" using assms by (intro card_mono) (auto simp: few_def)
  then show ?thesis using assms by (simp add: distinct_card few_def)
qed

section \<open>The operations\<close>

locale dll_code = dll_setting LC cok ccap centries LA aok acap aentries E +
  libs: lru_try_laws "process_cache E" pok pcap pentries "process_try E"
  for LC :: "'jc cache_ops" and cok ccap centries and LA :: "'ja args_ops" and aok acap aentries
    and E :: "('lib, 'lc) dll_env" and pok pcap pentries +
  fixes C :: job_code and J :: "uuid set"
begin

abbreviation code_env :: "'lib executor_env" where
  "code_env \<equiv> process_env E (\<lambda>u. Some (jc_library C u))"

abbreviation faithful :: "('jc, 'ja, 'lc) dll_worker \<Rightarrow> bool" where
  "faithful w \<equiv> dll_faithful E C J ccap centries aentries (libs.cache_ok code_env) w \<and> aok (job_args w)"

lemmas restart_keeps = restart_faithful[where lok = "libs.cache_ok code_env" and E = E, OF _ _ libs.cache_ok_new]

lemma assign_faithful:
  assumes "assign_task LA e job t w = Some w'" "faithful w" "wt_data t = jc_task C (job, wt_id t)" "job \<in> dom (library_files w)"
  shows "faithful w' \<and> library_files w' = library_files w"
proof (cases "e \<in> executors w")
  case True
  obtain v c where get: "lru_get LA (job_args w) job = (v, c)" by fastforce
  have c: "v = map_of (aentries (job_args w)) job" "aok c" "aentries c = touch job (aentries (job_args w))"
    using args.get_value[of "job_args w" job] args.get_law[of "job_args w" job] assms(2) by (auto simp: get)
  show ?thesis
  proof (cases v)
    case None
    then have "w' = w\<lparr>assignments := (assignments w)((job, wt_id t) \<mapsto> e), job_args := c\<rparr>"
      using assms(1) True get by (simp add: assign_task_def Let_def)
    then show ?thesis using assms(2) c(2,3) by (simp add: faithful_defs)
  next
    case (Some a)
    let ?j = "code_job C (job, wt_id t)"
    have "a = jc_args C job" using Some assms(2) c(1) by (simp add: faithful_defs)
    then have "w' = w\<lparr>assignments := (assignments w)((job, wt_id t) \<mapsto> e), job_args := c,
        sent_jobs := (sent_jobs w)(e := sent_jobs w e @ [?j]), dw_output := dw_output w @ [Job_Sent e ?j]\<rparr>"
      using assms(1,3) True get Some by (simp add: assign_task_def Let_def dll_start_job_def code_job_def split: if_splits)
    moreover have "ej_job_id ?j = job" by (simp add: code_job_def)
    ultimately show ?thesis using assms(2,4) c(2,3) by (auto simp: faithful_defs)
  qed
qed (use assms in \<open>simp add: assign_task_def\<close>)

lemma tasks_faithful:
  assumes "process_tasks_assignment LA job ts w = Some (r, w')" "faithful w"
    "\<forall>t \<in> set ts. wt_data t = jc_task C (job, wt_id t)" "job \<in> dom (library_files w)"
  shows "faithful w'"
  using assms
proof (induction ts arbitrary: w rule: rev_induct)
  case Nil
  then show ?case by (simp add: process_tasks_assignment.simps)
next
  case (snoc t ts)
  show ?case
  proof (cases "free_executors w = []")
    case True
    then show ?thesis using snoc.prems by (simp add: process_tasks_assignment.simps)
  next
    case False
    let ?w = "w\<lparr>free_executors := butlast (free_executors w)\<rparr>"
    from snoc.prems(1) False obtain w1 where
      w1: "assign_task LA (last (free_executors w)) job t ?w = Some w1" "process_tasks_assignment LA job ts w1 = Some (r, w')"
      by (subst (asm) process_tasks_assignment.simps) (auto split: bind_splits)
    have "faithful w1 \<and> library_files w1 = library_files ?w"
      using snoc.prems(2-4) by (intro assign_faithful[OF w1(1)]) simp_all
    then show ?thesis using snoc.IH[OF w1(2)] snoc.prems(3,4) by simp
  qed
qed

lemma replacement_faithful:
  assumes "process_task_replacement E LA job rs w = Some w'" "faithful w"
    "\<forall>t \<in> snd ` set rs. wt_data t = jc_task C (job, wt_id t)" "job \<in> dom (library_files w)"
  shows "faithful w' \<and> library_files w' = library_files w"
  using assms
proof (induction rs arbitrary: w)
  case Nil
  then show ?case by simp
next
  case (Cons x rs)
  obtain old t where x: "x = (old, t)" by fastforce
  show ?case
  proof (cases "assignments w (job, old)")
    case None
    then show ?thesis using Cons by (simp add: x)
  next
    case (Some e)
    let ?w = "w\<lparr>assignments := (assignments w)((job, old) := None)\<rparr>"
    from Cons.prems(1) Some obtain p w1 w2 where w1: "restart_executor E e ?w = Some (p, w1)"
      "assign_task LA p job t w1 = Some w2" "process_task_replacement E LA job rs w2 = Some w'"
      by (auto simp: x split: bind_splits)
    note same = restart_executor_calls[OF w1(1)]
    have "faithful w1" using restart_keeps[OF w1(1)] same(2) Cons.prems(2) by simp
    from assign_faithful[OF w1(2) this] have "faithful w2 \<and> library_files w2 = library_files w"
      using Cons.prems(3,4) same(4) by (simp add: x)
    then show ?thesis using Cons.IH[OF w1(3)] Cons.prems(3,4) by simp
  qed
qed

text \<open>With few jobs the cache of jobs never gives one up.\<close>

lemma push_keeps_few:
  assumes "cok c" "ccap c = 10" "cache.keys c \<subseteq> J" "few J" "k \<in> J" "k \<notin> cache.keys c"
  shows "fst (lru_push LC c k v) = None"
proof -
  have "length (map fst (centries c)) < 10"
    using cache.ok_law[OF assms(1)] assms(3-6) by (intro full_of_jobs[of J k]) (auto simp: cache.keys_def)
  moreover have "map_of (centries c) k = None" using assms(6) map_of_known[of "centries c" k] by (auto simp: cache.keys_def)
  ultimately show ?thesis using cache.push_value[OF assms(1), of k v] assms(2) by (simp add: given_up_def)
qed

lemma library_faithful:
  assumes "dll_inv E cok centries aok w" "process_library E LC LA rq w = Some (r, w')" "faithful w" "honest_request C rq" "rq_job rq \<in> J"
  shows "faithful w'"
proof -
  let ?k = "rq_job rq"
  have inv: "cok (job_cache w)" "dom (library_files w) = cache.keys (job_cache w)" using assms(1) by (auto simp: dll_inv_iff)
  obtain v c where get: "lru_get LC (job_cache w) ?k = (v, c)" by fastforce
  have c: "cok c" "ccap c = ccap (job_cache w)" "cache.keys c = cache.keys (job_cache w)" "v = None \<longleftrightarrow> ?k \<notin> cache.keys c"
    using cache.get_None[OF inv(1), of ?k] cache.keys_get[OF inv(1), of ?k] cache.get_law[OF inv(1), of ?k] by (auto simp: get)
  show ?thesis
  proof (cases "v = None \<and> rq_job_data rq \<noteq> None")
    case False
    then have "w' = w\<lparr>job_cache := c\<rparr>" using assms(2) by (auto simp: process_library_def get Let_def split: option.splits)
    then show ?thesis using assms(3) c(2,3) by (auto simp: faithful_defs cache.keys_def)
  next
    case True
    then obtain ar data where new: "v = None" "rq_job_data rq = Some (ar, data)" by auto
    have data: "ar = jc_args C ?k" "data = jc_library C ?k" using assms(4) new(2) by (auto simp: honest_request_def)
    obtain old c' where push: "lru_push LC c ?k () = (old, c')" by fastforce
    let ?fs = "(library_files w)(?k \<mapsto> data)" and ?a = "snd (lru_push LA (job_args w) ?k ar)"
    have w': "job_args w' = ?a" "job_cache w' = c'" "sent_jobs w' = sent_jobs w" "finished w' = finished w" "libraries w' = libraries w"
      "old = None \<longrightarrow> library_files w' = ?fs" "library_files w' u = Some b \<Longrightarrow> ?fs u = Some b" for u b
      using assms(2) by (auto simp: process_library_def get new add_library_def disk push remove_library_def
          Let_def split: option.splits if_splits)
    have old: "\<forall>u a. map_of (aentries (job_args w)) u = Some a \<longrightarrow> a = jc_args C u" "\<forall>u b. library_files w u = Some b \<longrightarrow> b = jc_library C u"
      using assms(3) by (simp_all add: dll_faithful_def sources_ok_def)
    have "b = jc_library C u" if "library_files w' u = Some b" for u b
      using w'(7)[OF that] old(2) data(2) by (auto split: if_splits)
    moreover have "a = jc_args C u" if "map_of (aentries (job_args w')) u = Some a" for u a
      using that old(1) data(1) args.push_law[of "job_args w" ?k ar] args.ok_law[of "job_args w"] assms(3)
      by (auto simp: w'(1) dest!: map_of_pushed)
    ultimately have "sources_ok C aentries w'" by (simp add: sources_ok_def)
    moreover have cap: "ccap c' = ccap c" "cache.keys c' \<subseteq> insert ?k (cache.keys c)"
      using cache.push_law[OF c(1), of ?k "()"] cache.keys_push[OF c(1), of ?k "()"] by (auto simp: push)
    have "few J \<longrightarrow> ccap c = 10 \<and> cache.keys c \<subseteq> J" using assms(3) c(2,3) by (simp add: dll_faithful_def few_ok_def cache.keys_def)
    then have "few J \<longrightarrow> ccap c' = 10 \<and> cache.keys c' \<subseteq> J" using cap assms(5) by auto
    then have "few_ok J ccap centries w'" unfolding few_ok_def w'(2) cache.keys_def .
    moreover have "old = None" if "few J"
      using push_keeps_few[OF c(1) _ _ that assms(5), of "()"] assms(3) c that new(1) by (simp add: push dll_faithful_def few_ok_def cache.keys_def)
    then have "few J \<longrightarrow> dom (library_files w) \<subseteq> dom (library_files w')" using w'(6) by auto
    then have "processes_ok (dll_right E C J) C J (libs.cache_ok code_env) w'"
      using assms(3) unfolding dll_faithful_def processes_ok_def w'(3-5) by blast
    moreover have "aok ?a" using assms(3) args.push_law by blast
    ultimately show ?thesis by (simp add: dll_faithful_def w'(1))
  qed
qed

lemma request_faithful:
  assumes "dll_inv E cok centries aok w" "process_request E LC LA w rq = Some (r, w')" "faithful w" "honest_request C rq" "rq_job rq \<in> J"
  shows "faithful w'"
proof -
  from assms(2) obtain r1 w1 where w1: "process_library E LC LA rq w = Some (r1, w1)"
    "(\<exists>er. r1 = Inl er) \<and> w1 = w' \<or> r1 = Inr () \<and> (\<exists>w2. process_task_replacement E LA (rq_job rq) (rq_replacements rq) w1 = Some w2 \<and>
       process_tasks_assignment LA (rq_job rq) (rq_tasks rq) w2 = Some (r, w'))"
    by (auto simp: process_request_def split: bind_splits sum.splits)
  have f: "faithful w1" by (rule library_faithful[OF assms(1) w1(1) assms(3-5)])
  have lib: "rq_job rq \<in> dom (library_files w1)" if "r1 = Inr ()"
    using process_library_spec[OF assms(1), of rq] w1(1) that by auto
  have honest: "\<forall>t \<in> snd ` set (rq_replacements rq). wt_data t = jc_task C (rq_job rq, wt_id t)"
    "\<forall>t \<in> set (rq_tasks rq). wt_data t = jc_task C (rq_job rq, wt_id t)"
    using assms(4) by (auto simp: honest_request_def new_tasks_def)
  show ?thesis using w1(2)
  proof (elim disjE conjE exE)
    fix w2 assume r1: "r1 = Inr ()" and w2: "process_task_replacement E LA (rq_job rq) (rq_replacements rq) w1 = Some w2"
      "process_tasks_assignment LA (rq_job rq) (rq_tasks rq) w2 = Some (r, w')"
    from replacement_faithful[OF w2(1) f honest(1) lib[OF r1]] show ?thesis
      using tasks_faithful[OF w2(2) _ honest(2)] lib[OF r1] by simp
  qed (use f in simp)
qed

text \<open>What a process computes: with the library, or that it cannot open it.\<close>

lemma process_run_faithful:
  assumes "faithful w"
  shows "faithful (process_run E x time w)"
proof (cases "sent_jobs w x")
  case (Cons j js)
  let ?files = "process_env E (library_files w)" and ?ex = "\<lparr>ex_input = [], ex_output = [], lru_cache = libraries w x\<rparr>"
  let ?u = "ej_job_id j"
  have "libs.cache_ok code_env (libraries w x) \<and>
      (\<forall>j \<in> set (sent_jobs w x). job_right C j \<and> (few J \<longrightarrow> ej_job_id j \<in> dom (library_files w)))"
    using assms unfolding dll_faithful_def processes_ok_def by blast
  then have ok: "libs.cache_ok code_env (libraries w x)" "job_right C j" "few J \<longrightarrow> ?u \<in> dom (library_files w)"
    and rest: "\<forall>j \<in> set js. job_right C j \<and> (few J \<longrightarrow> ej_job_id j \<in> dom (library_files w))"
    by (simp_all add: Cons)
  have "b = jc_library C ?u" if "library_files w ?u = Some b" for b using assms that by (auto simp: faithful_defs)
  then have opened: "open_library ?files ?u = open_library code_env ?u \<or> library_files w ?u = None \<and> (\<exists>err. open_library ?files ?u = Inl err)"
    by (auto simp: process_env_def split: option.splits)
  have same: "execute_job ?files = execute_job code_env" by (simp add: process_env_def)
  obtain r c where run: "run_job ?files (process_try E) j ?ex = (r, ?ex\<lparr>lru_cache := c\<rparr>)" "libs.cache_ok code_env c"
    "r = job_outcome code_env j \<or> r = Inl ''Unable to open library'' \<and> open_library ?files ?u \<noteq> open_library code_env ?u"
    using libs.run_job_shared[of code_env ?ex ?files j] ok(1) same opened by auto
  have "dll_right E C J (key_of_job j) r"
    using run(3) ok(3) opened ok(2)[unfolded job_right_def, symmetric] by (auto simp: dll_right_def dll_result_def)
  then have right: "dll_right E C J (ej_job_id j, ej_task_id j) r" by (simp add: key_of_job_def)
  have fields: "sent_jobs (process_run E x time w) = (sent_jobs w)(x := js)"
    "libraries (process_run E x time w) = (libraries w)(x := c)"
    "finished (process_run E x time w) = (finished w)(x := finished w x @ [\<lparr>er_job_id = ej_job_id j, er_task_id = ej_task_id j,
      er_execution_time = time, er_result = r\<rparr>])"
    using run(1) Cons by (simp_all add: process_run_def)
  have "processes_ok (dll_right E C J) C J (libs.cache_ok code_env) w" using assms by (simp add: dll_faithful_def)
  then have "processes_ok (dll_right E C J) C J (libs.cache_ok code_env) (process_run E x time w)"
    unfolding processes_ok_def fields process_run_frame fun_upd_apply using right run(2) rest
    by (auto simp: key_of_result_def simp del: domIff)
  then show ?thesis using assms by (simp add: dll_faithful_def sources_ok_def few_ok_def process_run_frame)
qed (use assms in \<open>simp add: process_run_def\<close>)

lemma message_faithful:
  assumes "dll_inv E cok centries aok w" "faithful w" "dll_event_ok w ev" "process_message E w ev = Some (r, w')"
  shows "faithful w' \<and> (case r of None \<Rightarrow> dll_held w' \<subseteq> dll_held w
    | Some a \<Rightarrow> \<exists>k time res. k \<in> dll_held w \<and> dll_held w' = dll_held w - {k} \<and> dll_right E C J k res \<and> a = answer_for (\<lambda>_. res) k time)"
proof -
  have p: "pool_inv E {} w" using assms(1) by (simp add: dll_inv_def)
  show ?thesis
  proof (cases ev)
    case (DE_Terminated e er order)
    then obtain p w1 where "restart_executor E e w = Some (p, w1)" using restart_spec[OF p, of e] by blast
    then have "faithful w1" using assms(2) restart_keeps restart_executor_calls(2) by metis
    moreover have "dll_faithful E C J ccap centries aentries (libs.cache_ok code_env) w' =
        dll_faithful E C J ccap centries aentries (libs.cache_ok code_env) w1"
      using assms(4) DE_Terminated \<open>restart_executor E e w = Some (p, w1)\<close> by (auto simp: process_message_def split: option.splits)
    moreover have "job_args w' = job_args w1"
      using assms(4) DE_Terminated \<open>restart_executor E e w = Some (p, w1)\<close>
      by (auto simp: process_message_def push_free_def split: option.splits)
    ultimately show ?thesis using process_message_spec[OF assms(1,3)] terminated_spec[OF p, of e er order] assms(4) DE_Terminated
      by auto
  next
    case (DE_Result x res)
    from result_spec[OF p assms(3)[unfolded DE_Result]] assms(4)[unfolded DE_Result] have w': "r = Some (worker_answer res)"
      "assignments w (key_of_result res) = Some x" "assignments w' = (assignments w)(key_of_result res := None)" by auto
    have res: "finished w x \<noteq> []" "res = hd (finished w x)" using assms(3) DE_Result by auto
    have "dll_right E C J (key_of_result res) (er_result res)"
      using assms(2) hd_in_set[OF res(1)] unfolding dll_faithful_def processes_ok_def res(2) by blast
    moreover have "worker_answer res = answer_for (\<lambda>_. er_result res) (key_of_result res) (er_execution_time res)"
      by (rule worker_answer_for) simp
    moreover have "key_of_result res \<in> dll_held w" "dll_held w' = dll_held w - {key_of_result res}"
      using w'(2,3) by (auto simp: dll_held_def)
    moreover have w1: "w' = push_free x (w\<lparr>finished := (finished w)(x := tl (finished w x)),
        assignments := (assignments w)(key_of_result res := None)\<rparr>)"
      using assms(4) DE_Result w'(2) by (simp add: process_message_def)
    have "dll_faithful E C J ccap centries aentries (libs.cache_ok code_env) w'"
      by (rule dll_faithful_fewer[OF conjunct1[OF assms(2)]])
        (auto simp: w1 push_free_def split: if_splits dest: list.set_sel(2)[OF res(1)])
    then have "faithful w'" using assms(2) by (simp add: w1 push_free_def)
    ultimately show ?thesis using w'(1) by auto
  next
    case (DE_End x)
    then show ?thesis using assms(2,4) dll_faithful_fewer[OF conjunct1[OF assms(2)], of w']
      by (auto simp: process_message_def dll_held_def)
  next
    case (DE_Run x time)
    then show ?thesis using process_run_faithful[OF assms(2)] assms(4) by (auto simp: process_message_def dll_held_def process_run_frame)
  next
    case (DE_Exit x)
    then show ?thesis using assms(2,4) dll_faithful_fewer[OF conjunct1[OF assms(2)], of w']
      by (auto simp: process_message_def process_exit_def dll_held_def)
  qed
qed

end

sublocale dll_code \<subseteq> answers: answering_worker "dll_ops E LC LA" "dll_inv E cok centries aok" dll_event_ok
  dll_order_ok "\<lambda>w rq. dll_request_ok w rq \<and> rq_job rq \<in> J" dll_held C faithful "dll_right E C J"
proof unfold_locales
  fix w rq r w'
  assume "dll_inv E cok centries aok w" "faithful w" "dll_request_ok w rq \<and> rq_job rq \<in> J" "honest_request C rq"
    "wk_process (dll_ops E LC LA) w rq = Some (r, w')"
  then show "faithful w'" using request_faithful[of w rq r w'] by (simp add: dll_ops_def)
next
  fix w e a w'
  assume "dll_inv E cok centries aok w" "faithful w" "dll_event_ok w e" "wk_message (dll_ops E LC LA) w e = Some (a, w')"
  then show "faithful w' \<and> (case a of None \<Rightarrow> dll_held w' \<subseteq> dll_held w
    | Some b \<Rightarrow> \<exists>k time res. k \<in> dll_held w \<and> dll_held w' = dll_held w - {k} \<and> dll_right E C J k res \<and> b = answer_for (\<lambda>_. res) k time)"
    using message_faithful[of w e a w'] by (simp add: dll_ops_def)
next
  fix w ord w'
  assume a: "dll_inv E cok centries aok w" "faithful w" "dll_order_ok w ord" "wk_reset (dll_ops E LC LA) w ord = Some w'"
  have "dll_faithful E C J ccap centries aentries (libs.cache_ok code_env) w'"
    using reset_all_faithful[of E "assignments w" ord "w\<lparr>assignments := Map.empty\<rparr>" w' C J ccap centries aentries "libs.cache_ok code_env"] a(2,4)
      libs.cache_ok_new
    by (simp add: dll_ops_def dll_reset_def)
  moreover have "aok (job_args w')" using dll_reset_spec[OF a(1,3)] a(4) by (auto simp: dll_ops_def dll_inv_def)
  ultimately show "faithful w'" by simp
qed (use dll.process_ok dll.process_refused dll.message_ok dll.reset_ok in auto)

context dll_code
begin

lemma dll_new_faithful:
  assumes "dll_new E LC LA n = Some w"
  shows "faithful w"
proof -
  let ?empty = "\<lambda>v. \<forall>x. sent_jobs v x = [] \<and> finished v x = [] \<and> libs.cache_ok code_env (libraries v x)"
  have start: "start_executors E n v = Some w \<Longrightarrow> ?empty v \<Longrightarrow>
      ?empty w \<and> job_args w = job_args v \<and> job_cache w = job_cache v \<and> library_files w = library_files v" for v
    by (induction n arbitrary: v) (auto simp: start_executor_def push_free_def libs.cache_ok_new split: bind_splits)
  have "?empty w \<and> job_args w = lru_new LA 10 \<and> job_cache w = lru_new LC 10 \<and> library_files w = Map.empty"
    using start[of "empty_worker (process_cache E) LC LA"] assms by (auto simp: dll_new_def empty_worker_def libs.cache_ok_new)
  then show ?thesis using args.new_law[of 10] cache.new_law[of 10] by (auto simp: faithful_defs)
qed

end

text \<open>A process that has not loaded the library of a job whose file the worker has removed answers that it cannot open it.\<close>

lemma removed_library_not_opened:
  assumes "lru_try_laws (process_cache E) pok pcap pentries (process_try E)" "pok (libraries w x)"
    "sent_jobs w x = j # js" "library_files w (ej_job_id j) = None" "map_of (pentries (libraries w x)) (ej_job_id j) = None"
  shows "finished (process_run E x time w) x = finished w x @ [\<lparr>er_job_id = ej_job_id j, er_task_id = ej_task_id j,
    er_execution_time = time, er_result = Inl ''Unable to open library''\<rparr>]"
proof -
  have "fst (process_try E (libraries w x) (ej_job_id j) (Inl ''Unable to open library'')) = Inl ''Unable to open library''"
    using lru_try_laws.try_value[OF assms(1,2)] assms(5) by simp
  then show ?thesis using assms(3,4)
    by (simp add: process_run_def run_job_def get_func_def get_library_def process_env_def case_prod_beta)
qed

end
