(* ===== verification/Wasm_Worker.thy ===== *)
theory Wasm_Worker
  imports Worker_Pool Lru_Cache
begin

text \<open>
  \<open>WasmWorker\<close> and its executors (\<open>node/src/wasm/wasm_worker.rs\<close>, \<open>node/src/wasm/wasm_executor.rs\<close>): the
  worker of a node that runs the job's WebAssembly component in a thread per executor. \<open>None\<close> is a panic of
  the worker.

  The crates \<open>wasmtime\<close> and \<open>slab\<close> are the argument \<open>E\<close>: whether the \<open>n\<close>-th engine can be made, the key of
  the \<open>n\<close>-th insertion into the slab, the compilation of a component, its serialised form, and the call
  of its function. The threads are part of the model: a thread takes a job from its channel and looks its
  module up, compiles or reads it and runs it, or is interrupted.
\<close>

declare split_paired_All [simp del] split_paired_Ex [simp del]

section \<open>The data\<close>

datatype wasm_module = Compiled bytes | Source bytes

definition is_compiled :: "wasm_module \<Rightarrow> bool" where
  "is_compiled m = (case m of Compiled _ \<Rightarrow> True | Source _ \<Rightarrow> False)"

definition is_source :: "wasm_module \<Rightarrow> bool" where
  "is_source m = (case m of Compiled _ \<Rightarrow> False | Source _ \<Rightarrow> True)"

record 'c wasm_env =
  engine_up :: "nat \<Rightarrow> bool"
  slab_key :: "nat \<Rightarrow> executor_id"
  component_new :: "bytes \<Rightarrow> string + 'c"
  component_serialize :: "'c \<Rightarrow> string + bytes"
  component_deserialize :: "bytes \<Rightarrow> string + 'c"
  call_execute_job :: "'c \<Rightarrow> bytes \<Rightarrow> bytes \<Rightarrow> string + (string + bytes)"

text \<open>A thread: the jobs in its channel, the job it is executing with the module it saw, the results it
  has sent and the worker has not read, whether an interruption is pending, and whether it is alive.\<close>

record wasm_executor =
  recv_job :: "executor_job list"
  executing :: "(executor_job \<times> wasm_module) option"
  send_result :: "executor_result list"
  interruption :: bool
  alive :: bool

record ('mc, 'ja) wasm_worker =
  ww_free_executors :: "executor_id list"
  ww_assignments :: "job_key \<rightharpoonup> executor_id"
  ww_executors :: "executor_id \<rightharpoonup> wasm_executor"
  ww_job_cache :: 'mc
  ww_job_args :: 'ja
  ww_inserted :: nat

type_synonym 'mc module_ops = "('mc, wasm_module) lru_ops"
type_synonym 'ja args_ops = "('ja, bytes) lru_ops"

section \<open>The executors\<close>

definition wasm_executor_new :: wasm_executor where
  "wasm_executor_new = \<lparr>recv_job = [], executing = None, send_result = [], interruption = False, alive = True\<rparr>"

definition executor_abort :: "wasm_executor \<Rightarrow> wasm_executor" where
  "executor_abort x = x\<lparr>interruption := True\<rparr>"

text \<open>The channel of a thread that has ended takes no job.\<close>

definition executor_start_job :: "executor_job \<Rightarrow> wasm_executor \<Rightarrow> wasm_executor option" where
  "executor_start_job j x = (if alive x then Some (x\<lparr>recv_job := recv_job x @ [j]\<rparr>) else None)"

text \<open>\<open>ExecutorState::execute\<close>, first part: the job is taken and its module looked up; a module that is not
  there ends the thread.\<close>

definition execute_recv :: "'mc module_ops \<Rightarrow> 'mc \<Rightarrow> wasm_executor \<Rightarrow> wasm_executor" where
  "execute_recv LC cache x =
     (case recv_job x of
        [] \<Rightarrow> x
      | j # js \<Rightarrow>
          (case lru_peek LC cache (ej_job_id j) of
             None \<Rightarrow> x\<lparr>recv_job := js, alive := False\<rparr>
           | Some m \<Rightarrow> x\<lparr>recv_job := js, executing := Some (j, m)\<rparr>))"

text \<open>The component of a job: from the module that was seen, when it was compiled, and otherwise from the one
  that is in the cache when the thread holds the lock for writing, which it compiles and replaces. The
  answer is \<open>None\<close> when the module has left the cache in between.\<close>

definition load_component ::
  "'c wasm_env \<Rightarrow> 'mc module_ops \<Rightarrow> uuid \<Rightarrow> wasm_module \<Rightarrow> 'mc \<Rightarrow> ((string + 'c) \<times> 'mc) option" where
  "load_component E LC job seen cache =
     (case seen of
        Compiled b \<Rightarrow> Some (component_deserialize E b, cache)
      | Source _ \<Rightarrow>
          (case lru_peek LC cache job of
             None \<Rightarrow> None
           | Some (Compiled b) \<Rightarrow> Some (component_deserialize E b, cache)
           | Some (Source b) \<Rightarrow>
               (case component_new E b of
                  Inl er \<Rightarrow> Some (Inl er, cache)
                | Inr c \<Rightarrow>
                    (case component_serialize E c of
                       Inl er \<Rightarrow> Some (Inl er, cache)
                     | Inr p \<Rightarrow> Some (Inr c, lru_peek_mut LC cache job (Compiled p))))))"

text \<open>The call, with the error of the runtime and the error of the job in one.\<close>

definition run_component :: "'c wasm_env \<Rightarrow> string + 'c \<Rightarrow> executor_job \<Rightarrow> string + bytes" where
  "run_component E cmp j =
     (case cmp of
        Inl er \<Rightarrow> Inl er
      | Inr c \<Rightarrow>
          (case call_execute_job E c (ej_job_data j) (ej_task_data j) of Inl er \<Rightarrow> Inl er | Inr r \<Rightarrow> r))"

text \<open>\<open>ExecutorState::execute\<close>, second part: compilation, update of the cache and call are one step. An interruption that arrives between them leaves the
  compiled module in the cache, as one after the step does, but the step has its result.\<close>

definition execute_finish ::
  "'c wasm_env \<Rightarrow> 'mc module_ops \<Rightarrow> nanos \<Rightarrow> 'mc \<Rightarrow> wasm_executor \<Rightarrow> 'mc \<times> wasm_executor" where
  "execute_finish E LC time cache x =
     (case executing x of
        None \<Rightarrow> (cache, x)
      | Some (j, seen) \<Rightarrow>
          (case load_component E LC (ej_job_id j) seen cache of
             None \<Rightarrow> (cache, x\<lparr>executing := None, alive := False\<rparr>)
           | Some (cmp, cache) \<Rightarrow>
               (cache, x\<lparr>executing := None, send_result := send_result x @
                  [\<lparr>er_job_id = ej_job_id j, er_task_id = ej_task_id j, er_execution_time = time,
                    er_result = run_component E cmp j\<rparr>]\<rparr>)))"

text \<open>The other branch of the loop: what is executed is dropped.\<close>

definition execute_interrupted :: "wasm_executor \<Rightarrow> wasm_executor" where
  "execute_interrupted x = x\<lparr>executing := None, interruption := False\<rparr>"

section \<open>The worker\<close>

text \<open>A failure to make an engine is an error, not a panic.\<close>

definition wasm_start_executor ::
  "'c wasm_env \<Rightarrow> ('mc, 'ja) wasm_worker \<Rightarrow> (executor_id \<times> ('mc, 'ja) wasm_worker) option" where
  "wasm_start_executor E w =
     (if engine_up E (ww_inserted w) then
        let eid = slab_key E (ww_inserted w) in
        Some (eid, w\<lparr>ww_executors := (ww_executors w)(eid \<mapsto> wasm_executor_new), ww_inserted := ww_inserted w + 1\<rparr>)
      else None)"

definition wasm_stop_executor :: "executor_id \<Rightarrow> ('mc, 'ja) wasm_worker \<Rightarrow> ('mc, 'ja) wasm_worker" where
  "wasm_stop_executor eid w =
     (if ww_executors w eid \<noteq> None then
        w\<lparr>ww_executors := (ww_executors w)(eid := None),
          ww_free_executors := filter (\<lambda>i. i \<noteq> eid) (ww_free_executors w)\<rparr>
      else w)"

definition wasm_restart_executor ::
  "'c wasm_env \<Rightarrow> executor_id \<Rightarrow> ('mc, 'ja) wasm_worker \<Rightarrow> (executor_id \<times> ('mc, 'ja) wasm_worker) option" where
  "wasm_restart_executor E eid w = wasm_start_executor E (wasm_stop_executor eid w)"

definition abort_executor :: "executor_id \<Rightarrow> ('mc, 'ja) wasm_worker \<Rightarrow> ('mc, 'ja) wasm_worker" where
  "abort_executor eid w =
     (case ww_executors w eid of
        Some x \<Rightarrow> w\<lparr>ww_executors := (ww_executors w)(eid \<mapsto> executor_abort x)\<rparr>
      | None \<Rightarrow> w)"

definition wasm_assign_task ::
  "'ja args_ops \<Rightarrow> executor_id \<Rightarrow> uuid \<Rightarrow> worker_task \<Rightarrow> bool \<Rightarrow> ('mc, 'ja) wasm_worker \<Rightarrow>
   ('mc, 'ja) wasm_worker option" where
  "wasm_assign_task LA eid job task need_abort w =
     (case ww_executors w eid of
        None \<Rightarrow> Some w
      | Some x \<Rightarrow>
          let x = (if need_abort then executor_abort x else x);
              w = w\<lparr>ww_assignments := (ww_assignments w)((job, wt_id task) \<mapsto> eid),
                    ww_executors := (ww_executors w)(eid \<mapsto> x)\<rparr>;
              (args, c) = lru_get LA (ww_job_args w) job;
              w = w\<lparr>ww_job_args := c\<rparr>
          in case args of
               None \<Rightarrow> Some w
             | Some args \<Rightarrow> do {
                 x \<leftarrow> executor_start_job \<lparr>ej_job_id = job, ej_job_data = args, ej_task_id = wt_id task,
                        ej_task_data = wt_data task\<rparr> x;
                 Some (w\<lparr>ww_executors := (ww_executors w)(eid \<mapsto> x)\<rparr>) })"

function wasm_process_tasks_assignment ::
  "'ja args_ops \<Rightarrow> uuid \<Rightarrow> worker_task list \<Rightarrow> ('mc, 'ja) wasm_worker \<Rightarrow>
   ((worker_error + unit) \<times> ('mc, 'ja) wasm_worker) option" where
  "wasm_process_tasks_assignment LA job tasks w =
     (if tasks = [] then Some (Inr (), w)
      else let task = last tasks; tasks = butlast tasks in
        if ww_free_executors w = [] then
          Some (Inl (NoFreeExecutors (map wt_id (tasks @ [task]))), w)
        else do {
          w \<leftarrow> wasm_assign_task LA (last (ww_free_executors w)) job task False
                 (w\<lparr>ww_free_executors := butlast (ww_free_executors w)\<rparr>);
          wasm_process_tasks_assignment LA job tasks w })"
  by pat_completeness auto
termination by (relation "measure (\<lambda>(_, _, tasks, _). length tasks)") auto

declare wasm_process_tasks_assignment.simps [simp del]

fun wasm_process_task_replacement ::
  "'ja args_ops \<Rightarrow> uuid \<Rightarrow> (task_id \<times> worker_task) list \<Rightarrow> ('mc, 'ja) wasm_worker \<Rightarrow>
   ('mc, 'ja) wasm_worker option" where
  "wasm_process_task_replacement LA job [] w = Some w"
| "wasm_process_task_replacement LA job ((replace_task_id, task) # rs) w =
     (case ww_assignments w (job, replace_task_id) of
        Some eid \<Rightarrow> do {
          w \<leftarrow> wasm_assign_task LA eid job task True
                 (w\<lparr>ww_assignments := (ww_assignments w)((job, replace_task_id) := None)\<rparr>);
          wasm_process_task_replacement LA job rs w }
      | None \<Rightarrow> wasm_process_task_replacement LA job rs w)"

definition process_module ::
  "'mc module_ops \<Rightarrow> 'ja args_ops \<Rightarrow> worker_request \<Rightarrow> ('mc, 'ja) wasm_worker \<Rightarrow>
   (worker_error + unit) \<times> ('mc, 'ja) wasm_worker" where
  "process_module LC LA rq w =
     (if lru_contains LC (ww_job_cache w) (rq_job rq) then (Inr (), w)
      else case rq_job_data rq of
        None \<Rightarrow> (Inl (library_missing rq), w)
      | Some (args, data) \<Rightarrow>
          (Inr (), w\<lparr>ww_job_cache := snd (lru_push LC (ww_job_cache w) (rq_job rq) (Source data)),
             ww_job_args := snd (lru_push LA (ww_job_args w) (rq_job rq) args)\<rparr>))"

definition wasm_process_request ::
  "'mc module_ops \<Rightarrow> 'ja args_ops \<Rightarrow> ('mc, 'ja) wasm_worker \<Rightarrow> worker_request \<Rightarrow>
   ((worker_error + unit) \<times> ('mc, 'ja) wasm_worker) option" where
  "wasm_process_request LC LA w rq =
     (case process_module LC LA rq w of
        (Inl er, w) \<Rightarrow> Some (Inl er, w)
      | (Inr _, w) \<Rightarrow> do {
          w \<leftarrow> wasm_process_task_replacement LA (rq_job rq) (rq_replacements rq) w;
          wasm_process_tasks_assignment LA (rq_job rq) (rq_tasks rq) w })"

text \<open>What happens at the executors: the steps of the threads, and a result that the worker reads.\<close>

datatype wasm_event =
  WE_Recv executor_id
  | WE_Finish executor_id nanos
  | WE_Interrupted executor_id
  | WE_Result executor_id

definition wasm_process_message ::
  "('mc, 'ja) wasm_worker \<Rightarrow> executor_result \<Rightarrow> worker_response option \<times> ('mc, 'ja) wasm_worker" where
  "wasm_process_message w r =
     (case ww_assignments w (key_of_result r) of
        Some eid \<Rightarrow> (Some (worker_answer r),
          w\<lparr>ww_assignments := (ww_assignments w)(key_of_result r := None),
            ww_free_executors := ww_free_executors w @ [eid]\<rparr>)
      | None \<Rightarrow> (None, w))"

definition wasm_event_step ::
  "'c wasm_env \<Rightarrow> 'mc module_ops \<Rightarrow> ('mc, 'ja) wasm_worker \<Rightarrow> wasm_event \<Rightarrow>
   (worker_response option \<times> ('mc, 'ja) wasm_worker) option" where
  "wasm_event_step E LC w ev =
     (case ev of
        WE_Recv eid \<Rightarrow> do {
          x \<leftarrow> ww_executors w eid;
          Some (None, w\<lparr>ww_executors := (ww_executors w)(eid \<mapsto> execute_recv LC (ww_job_cache w) x)\<rparr>) }
      | WE_Finish eid time \<Rightarrow> do {
          x \<leftarrow> ww_executors w eid;
          (cache, x) \<leftarrow> Some (execute_finish E LC time (ww_job_cache w) x);
          Some (None, w\<lparr>ww_executors := (ww_executors w)(eid \<mapsto> x), ww_job_cache := cache\<rparr>) }
      | WE_Interrupted eid \<Rightarrow> do {
          x \<leftarrow> ww_executors w eid;
          Some (None, w\<lparr>ww_executors := (ww_executors w)(eid \<mapsto> execute_interrupted x)\<rparr>) }
      | WE_Result eid \<Rightarrow> do {
          x \<leftarrow> ww_executors w eid;
          case send_result x of
            [] \<Rightarrow> Some (None, w)
          | r # rs \<Rightarrow> Some (wasm_process_message (w\<lparr>ww_executors := (ww_executors w)(eid \<mapsto> x\<lparr>send_result := rs\<rparr>)\<rparr>) r) })"

fun abort_all :: "(job_key \<rightharpoonup> executor_id) \<Rightarrow> job_key list \<Rightarrow> ('mc, 'ja) wasm_worker \<Rightarrow> ('mc, 'ja) wasm_worker" where
  "abort_all A [] w = w"
| "abort_all A (k # ks) w =
     (case A k of
        Some eid \<Rightarrow>
          let w = abort_executor eid w in abort_all A ks (w\<lparr>ww_free_executors := ww_free_executors w @ [eid]\<rparr>)
      | None \<Rightarrow> abort_all A ks w)"

definition wasm_reset :: "('mc, 'ja) wasm_worker \<Rightarrow> job_key list \<Rightarrow> ('mc, 'ja) wasm_worker" where
  "wasm_reset w order = abort_all (ww_assignments w) order (w\<lparr>ww_assignments := Map.empty\<rparr>)"

fun wasm_start_executors :: "'c wasm_env \<Rightarrow> nat \<Rightarrow> ('mc, 'ja) wasm_worker \<Rightarrow> ('mc, 'ja) wasm_worker option" where
  "wasm_start_executors E 0 w = Some w"
| "wasm_start_executors E (Suc n) w = do {
     (eid, w) \<leftarrow> wasm_start_executor E w;
     wasm_start_executors E n (w\<lparr>ww_free_executors := ww_free_executors w @ [eid]\<rparr>) }"

definition wasm_new ::
  "'c wasm_env \<Rightarrow> 'mc module_ops \<Rightarrow> 'ja args_ops \<Rightarrow> nat \<Rightarrow> ('mc, 'ja) wasm_worker option" where
  "wasm_new E LC LA executors_num = wasm_start_executors E executors_num
     \<lparr>ww_free_executors = [], ww_assignments = Map.empty, ww_executors = Map.empty, ww_job_cache = lru_new LC 10,
      ww_job_args = lru_new LA 10, ww_inserted = 0\<rparr>"

definition wasm_ops ::
  "'c wasm_env \<Rightarrow> 'mc module_ops \<Rightarrow> 'ja args_ops \<Rightarrow> (('mc, 'ja) wasm_worker, wasm_event, job_key list) worker_ops" where
  "wasm_ops E LC LA =
     \<lparr>wk_process = wasm_process_request LC LA, wk_message = wasm_event_step E LC,
      wk_reset = (\<lambda>w order. Some (wasm_reset w order))\<rparr>"

section \<open>The invariant\<close>

text \<open>\<open>H\<close> are executors in hand, neither free nor assigned.\<close>

definition wasm_pool_inv :: "executor_id set \<Rightarrow> ('mc, 'ja) wasm_worker \<Rightarrow> bool" where
  "wasm_pool_inv H w \<longleftrightarrow>
     pool_ok (ww_free_executors w) (ww_assignments w) (dom (ww_executors w)) \<and>
     ran (ww_assignments w) \<union> H \<subseteq> dom (ww_executors w) \<and>
     H \<inter> set (ww_free_executors w) = {} \<and> H \<inter> ran (ww_assignments w) = {} \<and>
     dom (ww_executors w) \<subseteq> set (ww_free_executors w) \<union> ran (ww_assignments w) \<union> H \<and>
     (\<forall>x \<in> ran (ww_executors w). alive x)"

definition wasm_inv ::
  "('mc \<Rightarrow> bool) \<Rightarrow> ('ja \<Rightarrow> bool) \<Rightarrow> ('mc, 'ja) wasm_worker \<Rightarrow> bool" where
  "wasm_inv cok aok w \<longleftrightarrow> wasm_pool_inv {} w \<and> cok (ww_job_cache w) \<and> aok (ww_job_args w)"

definition wasm_held :: "('mc, 'ja) wasm_worker \<Rightarrow> job_key set" where
  "wasm_held w = dom (ww_assignments w)"

definition wasm_order_ok :: "('mc, 'ja) wasm_worker \<Rightarrow> job_key list \<Rightarrow> bool" where
  "wasm_order_ok w order \<longleftrightarrow> distinct order \<and> set order = dom (ww_assignments w)"

text \<open>The steps that the threads can take while the modules of the jobs they have are cached.\<close>

fun wasm_event_ok :: "'c wasm_env \<Rightarrow> 'mc module_ops \<Rightarrow> ('mc, 'ja) wasm_worker \<Rightarrow> wasm_event \<Rightarrow> bool" where
  "wasm_event_ok E LC w (WE_Recv e) \<longleftrightarrow>
     (case ww_executors w e of None \<Rightarrow> False
      | Some x \<Rightarrow> alive x \<and> executing x = None \<and> recv_job x \<noteq> [] \<and>
          lru_peek LC (ww_job_cache w) (ej_job_id (hd (recv_job x))) \<noteq> None)"
| "wasm_event_ok E LC w (WE_Finish e _) \<longleftrightarrow>
     (case ww_executors w e of None \<Rightarrow> False
      | Some x \<Rightarrow> alive x \<and> (case executing x of None \<Rightarrow> False
          | Some (j, m) \<Rightarrow> is_compiled m \<or> lru_peek LC (ww_job_cache w) (ej_job_id j) \<noteq> None))"
| "wasm_event_ok E LC w (WE_Interrupted e) \<longleftrightarrow>
     (case ww_executors w e of None \<Rightarrow> False | Some x \<Rightarrow> alive x \<and> interruption x)"
| "wasm_event_ok E LC w (WE_Result e) \<longleftrightarrow>
     (case ww_executors w e of None \<Rightarrow> False | Some x \<Rightarrow> send_result x \<noteq> [])"

lemma wasm_pool_caches [simp]:
  "wasm_pool_inv H (w\<lparr>ww_job_cache := c\<rparr>) = wasm_pool_inv H w"
  "wasm_pool_inv H (w\<lparr>ww_job_args := a\<rparr>) = wasm_pool_inv H w"
  "wasm_pool_inv H (w\<lparr>ww_inserted := n\<rparr>) = wasm_pool_inv H w"
  by (simp_all add: wasm_pool_inv_def)

lemma wasm_pool_thread:
  assumes "wasm_pool_inv H w" "e \<in> dom (ww_executors w)" "alive x"
  shows "wasm_pool_inv H (w\<lparr>ww_executors := (ww_executors w)(e \<mapsto> x)\<rparr>)"
proof -
  have "\<forall>y \<in> ran ((ww_executors w)(e \<mapsto> x)). alive y"
    using assms(1,3) by (auto simp: wasm_pool_inv_def ran_def)
  then show ?thesis using assms(1) by (simp add: wasm_pool_inv_def insert_absorb[OF assms(2)])
qed

lemma wasm_pool_unassign:
  assumes "wasm_pool_inv H w" "ww_assignments w k = Some e"
  shows "wasm_pool_inv (insert e H) (w\<lparr>ww_assignments := (ww_assignments w)(k := None)\<rparr>)"
proof -
  have p: "pool_ok (ww_free_executors w) (ww_assignments w) (dom (ww_executors w))"
    using assms(1) by (simp add: wasm_pool_inv_def)
  have "e \<in> ran (ww_assignments w)" "e \<notin> set (ww_free_executors w)"
    using assms(2) pool_free_unassigned[OF p, of e k] by (auto simp: ran_def)
  then show ?thesis using assms(1) pool_remove[OF p, of k] ran_unassigned[OF p assms(2)]
    by (auto simp: wasm_pool_inv_def)
qed

lemma wasm_pool_unassign_all:
  assumes "wasm_pool_inv {} w"
  shows "wasm_pool_inv (ran (ww_assignments w)) (w\<lparr>ww_assignments := Map.empty\<rparr>)"
  using assms by (auto simp: wasm_pool_inv_def pool_ok_def)

lemma wasm_pool_push_free:
  assumes "wasm_pool_inv H w" "e \<in> H"
  shows "wasm_pool_inv (H - {e}) (w\<lparr>ww_free_executors := ww_free_executors w @ [e]\<rparr>)"
proof -
  have "pool_ok (ww_free_executors w @ [e]) (ww_assignments w) (dom (ww_executors w))"
    using assms by (intro pool_push) (auto simp: wasm_pool_inv_def ran_def)
  then show ?thesis using assms by (auto simp: wasm_pool_inv_def)
qed

lemma wasm_pool_take_free:
  assumes "wasm_pool_inv {} w" "ww_free_executors w = F @ [e]"
  shows "wasm_pool_inv {e} (w\<lparr>ww_free_executors := F\<rparr>)"
  using assms by (auto simp: wasm_pool_inv_def pool_ok_def)

lemma wasm_pool_assign:
  assumes "wasm_pool_inv H w" "e \<in> H" "k \<notin> dom (ww_assignments w)"
  shows "wasm_pool_inv (H - {e}) (w\<lparr>ww_assignments := (ww_assignments w)(k \<mapsto> e)\<rparr>)"
proof -
  have "ran ((ww_assignments w)(k \<mapsto> e)) = insert e (ran (ww_assignments w))"
    using assms(3) by (simp add: domIff)
  moreover have "pool_ok (ww_free_executors w) ((ww_assignments w)(k \<mapsto> e)) (dom (ww_executors w))"
    using assms(1,2) by (intro pool_assign) (auto simp: wasm_pool_inv_def ran_def)
  ultimately show ?thesis using assms(1,2) by (auto simp: wasm_pool_inv_def simp del: ran_map_upd)
qed

section \<open>What the jobs compute\<close>

text \<open>The modules of a job: its library, or the serialised form of what it compiles to.\<close>

definition good_module :: "'c wasm_env \<Rightarrow> job_code \<Rightarrow> uuid \<Rightarrow> wasm_module \<Rightarrow> bool" where
  "good_module E C u m \<longleftrightarrow>
     (case m of
        Source b \<Rightarrow> b = jc_library C u
      | Compiled p \<Rightarrow> \<exists>c. component_new E (jc_library C u) = Inr c \<and> component_serialize E c = Inr p)"

text \<open>Compiling the library of a job anew, and calling it with the data of a task.\<close>

definition base_component :: "'c wasm_env \<Rightarrow> job_code \<Rightarrow> uuid \<Rightarrow> string + 'c" where
  "base_component E C u =
     (case component_new E (jc_library C u) of
        Inl er \<Rightarrow> Inl er
      | Inr c \<Rightarrow> (case component_serialize E c of Inl er \<Rightarrow> Inl er | Inr _ \<Rightarrow> Inr c))"

definition wasm_result :: "'c wasm_env \<Rightarrow> job_code \<Rightarrow> job_key \<Rightarrow> string + bytes" where
  "wasm_result E C k = run_component E (base_component E C (fst k)) (code_job C k)"

definition good_executor :: "'c wasm_env \<Rightarrow> job_code \<Rightarrow> wasm_executor \<Rightarrow> bool" where
  "good_executor E C x \<longleftrightarrow>
     (\<forall>j \<in> set (recv_job x). j = code_job C (key_of_job j)) \<and>
     (\<forall>j m. executing x = Some (j, m) \<longrightarrow> j = code_job C (key_of_job j) \<and> good_module E C (ej_job_id j) m) \<and>
     (\<forall>r \<in> set (send_result x). er_result r = wasm_result E C (key_of_result r))"

definition wasm_faithful ::
  "'c wasm_env \<Rightarrow> job_code \<Rightarrow> ('mc \<Rightarrow> (uuid \<times> wasm_module) list) \<Rightarrow> ('ja \<Rightarrow> (uuid \<times> bytes) list) \<Rightarrow>
   ('mc, 'ja) wasm_worker \<Rightarrow> bool" where
  "wasm_faithful E C centries aentries w \<longleftrightarrow>
     (\<forall>u m. map_of (centries (ww_job_cache w)) u = Some m \<longrightarrow> good_module E C u m) \<and>
     (\<forall>u a. map_of (aentries (ww_job_args w)) u = Some a \<longrightarrow> a = jc_args C u) \<and>
     (\<forall>x \<in> ran (ww_executors w). good_executor E C x)"

lemma wasm_faithful_frame [simp]:
  "wasm_faithful E C ce ae (w\<lparr>ww_free_executors := F\<rparr>) = wasm_faithful E C ce ae w"
  "wasm_faithful E C ce ae (w\<lparr>ww_assignments := A\<rparr>) = wasm_faithful E C ce ae w"
  by (simp_all add: wasm_faithful_def)

lemma wasm_faithful_thread:
  assumes "wasm_faithful E C ce ae w" "good_executor E C x"
  shows "wasm_faithful E C ce ae (w\<lparr>ww_executors := (ww_executors w)(e \<mapsto> x)\<rparr>)"
  using assms by (auto simp: wasm_faithful_def ran_def)

lemma faithful_executor:
  "wasm_faithful E C ce ae w \<Longrightarrow> ww_executors w e = Some x \<Longrightarrow> good_executor E C x"
  by (auto simp: wasm_faithful_def ran_def)

section \<open>Requests and events keep the invariant\<close>

text \<open>What is relied on: engines can be made, the slab gives new keys, and a component that is read back from
  its serialised form is the component.\<close>

locale wasm_setting =
  cache: lru_laws LC cok ccap centries + args: lru_laws LA aok acap aentries
  for LC :: "'mc module_ops" and cok ccap centries and LA :: "'ja args_ops" and aok acap aentries +
  fixes E :: "'c wasm_env" and C :: job_code
  assumes engines: "engine_up E n"
    and new_keys_differ: "inj (slab_key E)"
    and serialised: "component_new E b = Inr c \<Longrightarrow> component_serialize E c = Inr p \<Longrightarrow> component_deserialize E p = Inr c"
begin

abbreviation faithful :: "('mc, 'ja) wasm_worker \<Rightarrow> bool" where
  "faithful \<equiv> wasm_faithful E C centries aentries"

lemma wasm_assign_spec:
  assumes "wasm_pool_inv H w" "e \<in> H" "(job, wt_id t) \<notin> dom (ww_assignments w)" "aok (ww_job_args w)"
  shows "\<exists>w'. wasm_assign_task LA e job t ab w = Some w' \<and> wasm_pool_inv (H - {e}) w' \<and>
    ww_assignments w' = (ww_assignments w)((job, wt_id t) \<mapsto> e) \<and> ww_free_executors w' = ww_free_executors w \<and>
    ww_job_cache w' = ww_job_cache w \<and> aok (ww_job_args w') \<and>
    (faithful w \<longrightarrow> wt_data t = jc_task C (job, wt_id t) \<longrightarrow> faithful w')"
proof -
  have e: "e \<in> dom (ww_executors w)" using assms(1,2) by (auto simp: wasm_pool_inv_def)
  then obtain x0 where x0: "ww_executors w e = Some x0" "alive x0"
    using assms(1) by (auto simp: wasm_pool_inv_def ran_def)
  define x where "x = (if ab then executor_abort x0 else x0)"
  have x: "alive x" "recv_job x = recv_job x0" "executing x = executing x0" "send_result x = send_result x0"
    using x0(2) by (auto simp: x_def executor_abort_def)
  obtain v c where get: "lru_get LA (ww_job_args w) job = (v, c)" by fastforce
  have c: "v = map_of (aentries (ww_job_args w)) job" "aok c" "aentries c = touch job (aentries (ww_job_args w))"
    using args.get_value[OF assms(4), of job] args.get_law[OF assms(4), of job] by (auto simp: get)
  define w1 where "w1 = w\<lparr>ww_assignments := (ww_assignments w)((job, wt_id t) \<mapsto> e)\<rparr>"
  have w1: "wasm_pool_inv (H - {e}) w1" using wasm_pool_assign[OF assms(1-3)] by (simp add: w1_def)
  define y where "y = (case v of None \<Rightarrow> x | Some a \<Rightarrow> x\<lparr>recv_job := recv_job x @ [\<lparr>ej_job_id = job, ej_job_data = a,
    ej_task_id = wt_id t, ej_task_data = wt_data t\<rparr>]\<rparr>)"
  have y: "alive y" using x(1) by (simp add: y_def split: option.splits)
  define w' where "w' = w1\<lparr>ww_executors := (ww_executors w1)(e \<mapsto> y), ww_job_args := c\<rparr>"
  have run: "wasm_assign_task LA e job t ab w = Some w'"
    using x(1) by (simp add: wasm_assign_task_def x0(1) get w'_def w1_def y_def executor_start_job_def
        split: option.splits flip: x_def)
  have "wasm_pool_inv (H - {e}) w'"
    using wasm_pool_thread[OF w1 _ y, of e] e by (simp add: w'_def w1_def)
  moreover have "faithful w'" if f: "faithful w" "wt_data t = jc_task C (job, wt_id t)"
  proof -
    have "good_executor E C y"
      using faithful_executor[OF f(1) x0(1)] f c(1) x
      by (auto simp: good_executor_def y_def wasm_faithful_def code_job_def key_of_job_def split: option.splits)
    then have "faithful (w1\<lparr>ww_executors := (ww_executors w1)(e \<mapsto> y)\<rparr>)"
      using f(1) by (intro wasm_faithful_thread) (simp_all add: w1_def)
    then show ?thesis using c(3) by (simp add: wasm_faithful_def w'_def w1_def)
  qed
  ultimately show ?thesis using run c(2) by (simp add: w'_def w1_def)
qed

lemma wasm_tasks_spec:
  assumes "wasm_pool_inv {} w" "aok (ww_job_args w)" "distinct (map wt_id tasks)"
    "task_keys job tasks \<inter> dom (ww_assignments w) = {}"
  shows "\<exists>w'. wasm_process_tasks_assignment LA job tasks w =
      Some (if length tasks \<le> length (ww_free_executors w) then Inr ()
            else Inl (NoFreeExecutors (map wt_id (take (length tasks - length (ww_free_executors w)) tasks))), w') \<and>
    wasm_pool_inv {} w' \<and> aok (ww_job_args w') \<and> ww_job_cache w' = ww_job_cache w \<and>
    dom (ww_assignments w') = dom (ww_assignments w) \<union>
      task_keys job (drop (length tasks - length (ww_free_executors w)) tasks) \<and>
    (faithful w \<longrightarrow> (\<forall>t \<in> set tasks. wt_data t = jc_task C (job, wt_id t)) \<longrightarrow> faithful w')"
  using assms
proof (induction tasks arbitrary: w rule: rev_induct)
  case Nil
  then show ?case by (simp add: wasm_process_tasks_assignment.simps)
next
  case (snoc t tasks)
  show ?case
  proof (cases "ww_free_executors w = []")
    case True
    then show ?thesis using snoc.prems by (simp add: wasm_process_tasks_assignment.simps)
  next
    case False
    then obtain F e where F: "ww_free_executors w = F @ [e]" by (metis append_butlast_last_id)
    let ?w = "w\<lparr>ww_free_executors := F\<rparr>"
    have t: "(job, wt_id t) \<notin> dom (ww_assignments ?w)" using snoc.prems(4) by auto
    obtain w1 where w1: "wasm_assign_task LA e job t False ?w = Some w1" "wasm_pool_inv {} w1"
      "ww_assignments w1 = (ww_assignments w)((job, wt_id t) \<mapsto> e)" "ww_free_executors w1 = F"
      "ww_job_cache w1 = ww_job_cache w" "aok (ww_job_args w1)"
      "faithful w \<longrightarrow> wt_data t = jc_task C (job, wt_id t) \<longrightarrow> faithful w1"
      using wasm_assign_spec[OF wasm_pool_take_free[OF snoc.prems(1) F] singletonI t, of False] snoc.prems(2) by auto
    have dom: "dom (ww_assignments w1) = insert (job, wt_id t) (dom (ww_assignments w))" by (simp add: w1(3))
    have rest: "distinct (map wt_id tasks)" "task_keys job tasks \<inter> dom (ww_assignments w1) = {}"
      using snoc.prems(3,4) by (auto simp: dom task_keys_iff)
    have step: "wasm_process_tasks_assignment LA job (tasks @ [t]) w = wasm_process_tasks_assignment LA job tasks w1"
      by (subst wasm_process_tasks_assignment.simps) (simp add: F w1(1))
    from snoc.IH[OF w1(2,6) rest] obtain w' where w':
      "wasm_process_tasks_assignment LA job tasks w1 =
        Some (if length tasks \<le> length F then Inr ()
              else Inl (NoFreeExecutors (map wt_id (take (length tasks - length F) tasks))), w')"
      "wasm_pool_inv {} w'" "aok (ww_job_args w')" "ww_job_cache w' = ww_job_cache w"
      "dom (ww_assignments w') = dom (ww_assignments w1) \<union> task_keys job (drop (length tasks - length F) tasks)"
      "faithful w1 \<longrightarrow> (\<forall>t \<in> set tasks. wt_data t = jc_task C (job, wt_id t)) \<longrightarrow> faithful w'"
      unfolding w1(4,5) by blast
    show ?thesis unfolding step using w1(7) w'(6) by (intro exI[of _ w']) (simp add: F dom w'(1-5))
  qed
qed

lemma wasm_replacement_spec:
  assumes "wasm_pool_inv {} w" "aok (ww_job_args w)" "distinct (map wt_id (map snd rs))"
    "task_keys job (map snd rs) \<inter> dom (ww_assignments w) = {}"
  shows "\<exists>w'. wasm_process_task_replacement LA job rs w = Some w' \<and> wasm_pool_inv {} w' \<and> aok (ww_job_args w') \<and>
    ww_job_cache w' = ww_job_cache w \<and>
    dom (ww_assignments w') \<subseteq> dom (ww_assignments w) \<union> task_keys job (map snd rs) \<and>
    (faithful w \<longrightarrow> (\<forall>t \<in> snd ` set rs. wt_data t = jc_task C (job, wt_id t)) \<longrightarrow> faithful w')"
  using assms
proof (induction rs arbitrary: w)
  case Nil
  then show ?case by simp
next
  case (Cons r rs)
  obtain old t where r: "r = (old, t)" by fastforce
  show ?case
  proof (cases "ww_assignments w (job, old)")
    case None
    from Cons.IH[OF Cons.prems(1,2)] Cons.prems(3,4) obtain w' where
      "wasm_process_task_replacement LA job rs w = Some w'" "wasm_pool_inv {} w'" "aok (ww_job_args w')"
      "ww_job_cache w' = ww_job_cache w" "dom (ww_assignments w') \<subseteq> dom (ww_assignments w) \<union> task_keys job (map snd rs)"
      "faithful w \<longrightarrow> (\<forall>t \<in> snd ` set rs. wt_data t = jc_task C (job, wt_id t)) \<longrightarrow> faithful w'" by auto
    then show ?thesis using None by (intro exI[of _ w']) (simp add: r, blast)
  next
    case (Some e)
    let ?w = "w\<lparr>ww_assignments := (ww_assignments w)((job, old) := None)\<rparr>"
    have t: "(job, wt_id t) \<notin> dom (ww_assignments ?w)" "aok (ww_job_args ?w)"
      using Cons.prems(2,4) by (auto simp: r)
    obtain w1 where w1: "wasm_assign_task LA e job t True ?w = Some w1" "wasm_pool_inv {} w1"
      "ww_assignments w1 = (ww_assignments ?w)((job, wt_id t) \<mapsto> e)"
      "ww_job_cache w1 = ww_job_cache w" "aok (ww_job_args w1)"
      "faithful w \<longrightarrow> wt_data t = jc_task C (job, wt_id t) \<longrightarrow> faithful w1"
      using wasm_assign_spec[OF wasm_pool_unassign[OF Cons.prems(1) Some] insertI1 t, of True] by auto
    have dom: "dom (ww_assignments w1) = insert (job, wt_id t) (dom (ww_assignments w) - {(job, old)})"
      by (auto simp: w1(3))
    have "distinct (map wt_id (map snd rs))" "task_keys job (map snd rs) \<inter> dom (ww_assignments w1) = {}"
      using Cons.prems(3,4) by (auto simp: dom r task_keys_iff)
    from Cons.IH[OF w1(2,5) this] obtain w' where w':
      "wasm_process_task_replacement LA job rs w1 = Some w'" "wasm_pool_inv {} w'" "aok (ww_job_args w')"
      "ww_job_cache w' = ww_job_cache w"
      "dom (ww_assignments w') \<subseteq> dom (ww_assignments w1) \<union> task_keys job (map snd rs)"
      "faithful w1 \<longrightarrow> (\<forall>t \<in> snd ` set rs. wt_data t = jc_task C (job, wt_id t)) \<longrightarrow> faithful w'"
      using w1(4) by auto
    have "dom (ww_assignments w') \<subseteq> dom (ww_assignments w) \<union> task_keys job (map snd (r # rs))"
      using w'(5) by (auto simp: dom r)
    then show ?thesis using Some w1(1,6) w' by (intro exI[of _ w']) (simp add: r)
  qed
qed

lemma process_module_spec:
  assumes "wasm_inv cok aok w" "process_module LC LA rq w = (r, w')"
  shows "wasm_inv cok aok w'" "ww_assignments w' = ww_assignments w"
    "r = Inr () \<or> r = Inl (library_missing rq)" "faithful w \<Longrightarrow> honest_request C rq \<Longrightarrow> faithful w'"
proof -
  let ?k = "rq_job rq"
  have inv: "wasm_pool_inv {} w" "cok (ww_job_cache w)" "aok (ww_job_args w)" using assms(1) by (auto simp: wasm_inv_def)
  let ?push = "\<lambda>a d. w\<lparr>ww_job_cache := snd (lru_push LC (ww_job_cache w) ?k (Source d)),
             ww_job_args := snd (lru_push LA (ww_job_args w) ?k a)\<rparr>"
  have cases: "w' = w \<or> (\<exists>a d. rq_job_data rq = Some (a, d) \<and> w' = ?push a d)"
    using assms(2) by (auto simp: process_module_def split: if_splits option.splits)
  show "wasm_inv cok aok w'"
    using cases inv cache.push_law[OF inv(2)] args.push_law[OF inv(3)] by (elim disjE exE) (simp_all add: wasm_inv_def)
  show "ww_assignments w' = ww_assignments w" using cases by auto
  show "r = Inr () \<or> r = Inl (library_missing rq)"
    using assms(2) by (auto simp: process_module_def split: if_splits option.splits)
  show "faithful w'" if f: "faithful w" "honest_request C rq"
  proof (cases "w' = w")
    case False
    then obtain a d where d: "rq_job_data rq = Some (a, d)" "w' = ?push a d" using cases by blast
    have ad: "a = jc_args C ?k" "d = jc_library C ?k" using f(2) d(1) by (auto simp: honest_request_def)
    have "distinct (map fst (centries (ww_job_cache w)))" "distinct (map fst (aentries (ww_job_args w)))"
      using cache.ok_law[OF inv(2)] args.ok_law[OF inv(3)] by auto
    then show ?thesis
      using f(1) ad cache.push_law[OF inv(2), of ?k "Source d"] args.push_law[OF inv(3), of ?k a]
      by (auto simp: d(2) wasm_faithful_def good_module_def dest!: map_of_pushed)
  qed (use f in simp)
qed

lemma wasm_request_spec:
  assumes "wasm_inv cok aok w" "fresh_request (wasm_held w) rq"
  shows "\<exists>r w'. wasm_process_request LC LA w rq = Some (r, w') \<and> wasm_inv cok aok w' \<and>
    wasm_held w' \<subseteq> wasm_held w \<union> new_keys rq \<and>
    (\<forall>er. r = Inl er \<longrightarrow> \<not> is_answer (Error er) \<and>
       (\<forall>t \<in> answered (Error er). (rq_job rq, t) \<in> new_keys rq - wasm_held w')) \<and>
    (faithful w \<longrightarrow> honest_request C rq \<longrightarrow> faithful w')"
proof -
  note fr = fresh_request_parts[OF assms(2), unfolded wasm_held_def]
  obtain r1 w1 where m: "process_module LC LA rq w = (r1, w1)" by fastforce
  note w1 = process_module_spec[OF assms(1) m]
  show ?thesis
  proof (cases r1)
    case (Inl er)
    then have er: "er = library_missing rq" using w1(3) by auto
    have "(rq_job rq, t) \<in> new_keys rq - wasm_held w1" if "t \<in> answered (Error er)" for t
      using that fresh_request_refused[OF assms(2)] by (simp only: er answered_library_missing wasm_held_def w1(2))
    then show ?thesis using Inl w1(1,2,4) m by (simp add: wasm_process_request_def wasm_held_def er library_missing_def is_answer_def)
  next
    case (Inr u)
    have p1: "wasm_pool_inv {} w1" "aok (ww_job_args w1)" using w1(1) by (auto simp: wasm_inv_def)
    obtain w2 where w2: "wasm_process_task_replacement LA (rq_job rq) (rq_replacements rq) w1 = Some w2"
      "wasm_pool_inv {} w2" "aok (ww_job_args w2)" "ww_job_cache w2 = ww_job_cache w1"
      "dom (ww_assignments w2) \<subseteq> dom (ww_assignments w) \<union> task_keys (rq_job rq) (map snd (rq_replacements rq))"
      "faithful w1 \<longrightarrow> (\<forall>t \<in> snd ` set (rq_replacements rq). wt_data t = jc_task C (rq_job rq, wt_id t)) \<longrightarrow> faithful w2"
      using wasm_replacement_spec[OF p1 fr(1), of "rq_job rq"] fr(4) unfolding w1(2) by blast
    let ?ts = "rq_tasks rq" and ?n = "length (rq_tasks rq) - length (ww_free_executors w2)"
    have free: "task_keys (rq_job rq) ?ts \<inter> dom (ww_assignments w2) = {}"
      using w2(5) task_keys_disjoint[OF fr(3), of "rq_job rq"] fr(5) by blast
    obtain w3 where w3: "wasm_process_tasks_assignment LA (rq_job rq) ?ts w2 =
        Some (if length ?ts \<le> length (ww_free_executors w2) then Inr ()
              else Inl (NoFreeExecutors (map wt_id (take ?n ?ts))), w3)"
      "wasm_pool_inv {} w3" "aok (ww_job_args w3)" "ww_job_cache w3 = ww_job_cache w2"
      "dom (ww_assignments w3) = dom (ww_assignments w2) \<union> task_keys (rq_job rq) (drop ?n ?ts)"
      "faithful w2 \<longrightarrow> (\<forall>t \<in> set ?ts. wt_data t = jc_task C (rq_job rq, wt_id t)) \<longrightarrow> faithful w3"
      using wasm_tasks_spec[OF w2(2,3) fr(2) free] by blast
    have "wasm_inv cok aok w3" using w1(1) w2(4) w3(2-4) by (simp add: wasm_inv_def)
    moreover have "wasm_held w3 \<subseteq> wasm_held w \<union> new_keys rq"
      using w2(5) w3(5) task_keys_take_drop[of "rq_job rq" ?ts ?n] unfolding fr(6) wasm_held_def by blast
    moreover have "(rq_job rq, t) \<in> new_keys rq - wasm_held w3" if "t \<in> wt_id ` set (take ?n ?ts)" for t
      using refused_tasks[OF fr(2) free that] unfolding fr(6) wasm_held_def w3(5) by blast
    moreover have "faithful w3" if "faithful w" "honest_request C rq"
      using that w1(4) w2(6) w3(6) by (auto simp: honest_request_def new_tasks_def)
    ultimately show ?thesis using Inr m w2(1) w3(1) by (simp add: wasm_process_request_def is_answer_def)
  qed
qed

text \<open>Whatever the cache has for a job, the library or its compiled form, what is loaded is the component
  that its library compiles to, and the cache stays right.\<close>

lemma load_component_keeps:
  assumes "cok cache" "load_component E LC u seen cache = Some (cmp, cache')"
  shows "cok cache'"
  using assms cache.peek_mut_law[OF assms(1)]
  by (auto simp: load_component_def split: wasm_module.splits option.splits sum.splits)

lemma load_component_cases:
  assumes "cok cache" "good_module E C u seen" "\<forall>v m. map_of (centries cache) v = Some m \<longrightarrow> good_module E C v m"
    "load_component E LC u seen cache = Some (cmp, cache')"
  obtains (read) b where "good_module E C u (Compiled b)" "cmp = component_deserialize E b" "cache' = cache"
    | (fail) er where "base_component E C u = Inl er" "cmp = Inl er" "cache' = cache"
    | (store) c p where "component_new E (jc_library C u) = Inr c" "component_serialize E c = Inr p" "cmp = Inr c"
        "cache' = lru_peek_mut LC cache u (Compiled p)"
proof (cases seen)
  case (Compiled b)
  then show ?thesis using assms(2,4) by (intro read[of b]) (simp_all add: load_component_def)
next
  case (Source b0)
  then obtain m where m: "lru_peek LC cache u = Some m" using assms(4) by (auto simp: load_component_def split: option.splits)
  then have here: "good_module E C u m" using assms(3) cache.peek_law[OF assms(1), of u] by simp
  show ?thesis
  proof (cases m)
    case (Compiled b)
    then show ?thesis using assms(4) here m Source by (intro read[of b]) (simp_all add: load_component_def)
  next
    case (Source b)
    then have "b = jc_library C u" using here by (simp add: good_module_def)
    then show ?thesis using assms(4) m Source \<open>seen = Source b0\<close> fail store
      by (auto simp: load_component_def base_component_def split: sum.splits)
  qed
qed

lemma load_component_correct:
  assumes "cok cache" "good_module E C u seen" "\<forall>v m. map_of (centries cache) v = Some m \<longrightarrow> good_module E C v m"
    "load_component E LC u seen cache = Some (cmp, cache')"
  shows "cmp = base_component E C u \<and> (\<forall>v m. map_of (centries cache') v = Some m \<longrightarrow> good_module E C v m)"
  using assms
proof (cases rule: load_component_cases)
  case (read b)
  then show ?thesis using assms(3) serialised by (auto simp: good_module_def base_component_def)
next
  case (fail er)
  then show ?thesis using assms(3) by simp
next
  case (store c p)
  then show ?thesis using assms(3) cache.peek_mut_law[OF assms(1), of u "Compiled p"]
    by (auto simp: map_of_overwritten good_module_def base_component_def split: if_splits)
qed

lemma execute_finish_spec:
  assumes "cok cache" "alive x" "executing x = Some (j, seen)" "is_compiled seen \<or> lru_peek LC cache (ej_job_id j) \<noteq> None"
  shows "\<exists>cmp cache'. load_component E LC (ej_job_id j) seen cache = Some (cmp, cache') \<and> cok cache' \<and>
    execute_finish E LC time cache x = (cache', x\<lparr>executing := None, send_result := send_result x @
       [\<lparr>er_job_id = ej_job_id j, er_task_id = ej_task_id j, er_execution_time = time,
         er_result = run_component E cmp j\<rparr>]\<rparr>)"
proof -
  have "load_component E LC (ej_job_id j) seen cache \<noteq> None"
    using assms(4) by (auto simp: load_component_def is_compiled_def split: wasm_module.splits option.splits sum.splits)
  then obtain cmp cache' where "load_component E LC (ej_job_id j) seen cache = Some (cmp, cache')" by auto
  then show ?thesis using load_component_keeps[OF assms(1)] assms(3) by (auto simp: execute_finish_def)
qed

lemma finish_faithful:
  assumes "faithful w" "cok (ww_job_cache w)" "ww_executors w e = Some x" "executing x = Some (j, seen)"
    "load_component E LC (ej_job_id j) seen (ww_job_cache w) = Some (cmp, cache')"
  shows "faithful (w\<lparr>ww_executors := (ww_executors w)(e \<mapsto> x\<lparr>executing := None, send_result := send_result x @
       [\<lparr>er_job_id = ej_job_id j, er_task_id = ej_task_id j, er_execution_time = time,
         er_result = run_component E cmp j\<rparr>]\<rparr>), ww_job_cache := cache'\<rparr>)" (is "faithful (w\<lparr>ww_executors := (ww_executors w)(e \<mapsto> ?x), ww_job_cache := cache'\<rparr>)")
proof -
  have x: "good_executor E C x" by (rule faithful_executor[OF assms(1,3)])
  then have j: "j = code_job C (key_of_job j)" "good_module E C (ej_job_id j) seen"
    using assms(4) by (auto simp: good_executor_def)
  have good: "\<forall>v m. map_of (centries (ww_job_cache w)) v = Some m \<longrightarrow> good_module E C v m"
    using assms(1) by (simp add: wasm_faithful_def)
  have load: "cmp = base_component E C (ej_job_id j)" "\<forall>v m. map_of (centries cache') v = Some m \<longrightarrow> good_module E C v m"
    using load_component_correct[OF assms(2) j(2) good assms(5)] by auto
  have "run_component E cmp j = wasm_result E C (key_of_job j)"
    using j(1) by (simp add: wasm_result_def load(1) key_of_job_def)
  then have "good_executor E C ?x"
    using x by (auto simp: good_executor_def key_of_result_def key_of_job_def)
  from wasm_faithful_thread[OF assms(1) this, of e] show ?thesis using load(2) by (simp add: wasm_faithful_def)
qed

lemma recv_spec:
  assumes "wasm_pool_inv {} w" "cok (ww_job_cache w)" "wasm_event_ok E LC w (WE_Recv e)"
  shows "\<exists>w'. wasm_event_step E LC w (WE_Recv e) = Some (None, w') \<and> wasm_pool_inv {} w' \<and>
    ww_assignments w' = ww_assignments w \<and> ww_job_cache w' = ww_job_cache w \<and> ww_job_args w' = ww_job_args w \<and>
    (faithful w \<longrightarrow> faithful w')"
proof -
  obtain x j js m where x: "ww_executors w e = Some x" "alive x" "recv_job x = j # js" "executing x = None"
    "lru_peek LC (ww_job_cache w) (ej_job_id j) = Some m"
    using assms(3) by (auto simp: neq_Nil_conv split: option.splits)
  let ?x = "x\<lparr>recv_job := js, executing := Some (j, m)\<rparr>"
  have "wasm_pool_inv {} (w\<lparr>ww_executors := (ww_executors w)(e \<mapsto> ?x)\<rparr>)"
    using wasm_pool_thread[OF assms(1), of e ?x] x(1,2) by auto
  moreover have "faithful (w\<lparr>ww_executors := (ww_executors w)(e \<mapsto> ?x)\<rparr>)" if f: "faithful w"
  proof (rule wasm_faithful_thread[OF f])
    have "good_module E C (ej_job_id j) m"
      using f x(5) cache.peek_law[OF assms(2), of "ej_job_id j"] by (simp add: wasm_faithful_def)
    then show "good_executor E C ?x" using faithful_executor[OF f x(1)] x(3) by (auto simp: good_executor_def)
  qed
  ultimately show ?thesis using x by (simp add: wasm_event_step_def execute_recv_def)
qed

lemma finish_spec:
  assumes "wasm_pool_inv {} w" "cok (ww_job_cache w)" "wasm_event_ok E LC w (WE_Finish e time)"
  shows "\<exists>w'. wasm_event_step E LC w (WE_Finish e time) = Some (None, w') \<and> wasm_pool_inv {} w' \<and>
    ww_assignments w' = ww_assignments w \<and> cok (ww_job_cache w') \<and> ww_job_args w' = ww_job_args w \<and>
    (faithful w \<longrightarrow> faithful w')"
proof -
  obtain x j seen where x: "ww_executors w e = Some x" "alive x" "executing x = Some (j, seen)"
    "is_compiled seen \<or> lru_peek LC (ww_job_cache w) (ej_job_id j) \<noteq> None"
    using assms(3) by (auto split: option.splits)
  from execute_finish_spec[OF assms(2) x(2-4), of time] obtain cmp cache' where
    c: "load_component E LC (ej_job_id j) seen (ww_job_cache w) = Some (cmp, cache')" "cok cache'"
    "execute_finish E LC time (ww_job_cache w) x = (cache', x\<lparr>executing := None, send_result := send_result x @
       [\<lparr>er_job_id = ej_job_id j, er_task_id = ej_task_id j, er_execution_time = time,
         er_result = run_component E cmp j\<rparr>]\<rparr>)" by blast
  have "wasm_pool_inv {} (w\<lparr>ww_executors := (ww_executors w)(e \<mapsto> snd (execute_finish E LC time (ww_job_cache w) x))\<rparr>)"
    using x(1,2) by (intro wasm_pool_thread[OF assms(1)]) (auto simp: c(3))
  then show ?thesis using c(2) finish_faithful[OF _ assms(2) x(1,3) c(1), of time] x(1)
    by (simp add: wasm_event_step_def c(3))
qed

lemma interrupted_spec:
  assumes "wasm_pool_inv {} w" "wasm_event_ok E LC w (WE_Interrupted e)"
  shows "\<exists>w'. wasm_event_step E LC w (WE_Interrupted e) = Some (None, w') \<and> wasm_pool_inv {} w' \<and>
    ww_assignments w' = ww_assignments w \<and> ww_job_cache w' = ww_job_cache w \<and> ww_job_args w' = ww_job_args w \<and>
    (faithful w \<longrightarrow> faithful w')"
proof -
  obtain x where x: "ww_executors w e = Some x" "alive x" using assms(2) by (auto split: option.splits)
  have "wasm_pool_inv {} (w\<lparr>ww_executors := (ww_executors w)(e \<mapsto> execute_interrupted x)\<rparr>)"
    using wasm_pool_thread[OF assms(1), of e "execute_interrupted x"] x by (auto simp: execute_interrupted_def)
  moreover have "faithful (w\<lparr>ww_executors := (ww_executors w)(e \<mapsto> execute_interrupted x)\<rparr>)" if f: "faithful w"
    using faithful_executor[OF f x(1)] by (intro wasm_faithful_thread[OF f]) (auto simp: good_executor_def execute_interrupted_def)
  ultimately show ?thesis using x by (simp add: wasm_event_step_def)
qed

text \<open>A result is answered when its task is assigned, and ignored when the task was replaced or the worker
  reset since.\<close>

lemma wasm_result_spec:
  assumes "wasm_pool_inv {} w" "wasm_event_ok E LC w (WE_Result e)"
  shows "\<exists>r w' res. wasm_event_step E LC w (WE_Result e) = Some (r, w') \<and> wasm_pool_inv {} w' \<and>
    ww_job_cache w' = ww_job_cache w \<and> ww_job_args w' = ww_job_args w \<and>
    (case r of None \<Rightarrow> ww_assignments w' = ww_assignments w
     | Some a \<Rightarrow> key_of_result res \<in> dom (ww_assignments w) \<and> a = worker_answer res \<and>
         ww_assignments w' = (ww_assignments w)(key_of_result res := None)) \<and>
    (faithful w \<longrightarrow> faithful w' \<and> er_result res = wasm_result E C (key_of_result res))"
proof -
  obtain x res rs where x: "ww_executors w e = Some x" "send_result x = res # rs"
    using assms(2) by (auto simp: neq_Nil_conv split: option.splits)
  let ?w = "w\<lparr>ww_executors := (ww_executors w)(e \<mapsto> x\<lparr>send_result := rs\<rparr>)\<rparr>"
  have alive: "alive x" using assms(1) x(1) by (auto simp: wasm_pool_inv_def ran_def)
  have p: "wasm_pool_inv {} ?w" using wasm_pool_thread[OF assms(1), of e "x\<lparr>send_result := rs\<rparr>"] x(1) alive by auto
  have f: "faithful ?w \<and> er_result res = wasm_result E C (key_of_result res)" if "faithful w"
    using faithful_executor[OF that x(1)] x(2) by (auto intro!: wasm_faithful_thread[OF that] simp: good_executor_def)
  show ?thesis
  proof (cases "ww_assignments w (key_of_result res)")
    case None
    then show ?thesis using x p f by (intro exI[of _ None] exI[of _ ?w] exI[of _ res])
        (simp add: wasm_event_step_def wasm_process_message_def)
  next
    case (Some e')
    let ?w1 = "?w\<lparr>ww_assignments := (ww_assignments ?w)(key_of_result res := None)\<rparr>"
    let ?w' = "?w1\<lparr>ww_free_executors := ww_free_executors ?w1 @ [e']\<rparr>"
    have "wasm_pool_inv {e'} ?w1" using wasm_pool_unassign[OF p, of "key_of_result res" e'] Some by simp
    from wasm_pool_push_free[OF this singletonI] have "wasm_pool_inv {} ?w'" by simp
    moreover have "faithful ?w'" if "faithful w" using f[OF that] by simp
    ultimately show ?thesis using x f Some
      by (intro exI[of _ "Some (worker_answer res)"] exI[of _ ?w'] exI[of _ res])
        (auto simp: wasm_event_step_def wasm_process_message_def)
  qed
qed

lemma wasm_event_spec:
  assumes "wasm_inv cok aok w" "wasm_event_ok E LC w ev"
  shows "\<exists>r w' res. wasm_event_step E LC w ev = Some (r, w') \<and> wasm_inv cok aok w' \<and>
    (case r of None \<Rightarrow> wasm_held w' = wasm_held w
     | Some a \<Rightarrow> key_of_result res \<in> wasm_held w \<and> a = worker_answer res \<and>
         wasm_held w' = wasm_held w - {key_of_result res}) \<and>
    (faithful w \<longrightarrow> faithful w' \<and> (r \<noteq> None \<longrightarrow> er_result res = wasm_result E C (key_of_result res)))"
proof -
  have inv: "wasm_pool_inv {} w" "cok (ww_job_cache w)" "aok (ww_job_args w)" using assms(1) by (auto simp: wasm_inv_def)
  show ?thesis
  proof (cases ev)
    case (WE_Recv e)
    then show ?thesis using recv_spec[OF inv(1,2), of e] assms(2) inv(2,3) by (auto simp: wasm_inv_def wasm_held_def)
  next
    case (WE_Finish e time)
    then show ?thesis using finish_spec[OF inv(1,2), of e time] assms(2) inv(3) by (auto simp: wasm_inv_def wasm_held_def)
  next
    case (WE_Interrupted e)
    then show ?thesis using interrupted_spec[OF inv(1), of e] assms(2) inv(2,3) by (auto simp: wasm_inv_def wasm_held_def)
  next
    case (WE_Result e)
    from wasm_result_spec[OF inv(1)] assms(2) WE_Result obtain r w' res where w':
      "wasm_event_step E LC w ev = Some (r, w')" "wasm_pool_inv {} w'" "ww_job_cache w' = ww_job_cache w"
      "ww_job_args w' = ww_job_args w"
      "case r of None \<Rightarrow> ww_assignments w' = ww_assignments w
       | Some a \<Rightarrow> key_of_result res \<in> dom (ww_assignments w) \<and> a = worker_answer res \<and>
           ww_assignments w' = (ww_assignments w)(key_of_result res := None)"
      "faithful w \<longrightarrow> faithful w' \<and> er_result res = wasm_result E C (key_of_result res)" by blast
    moreover have "wasm_inv cok aok w'" using w'(2-4) inv(2,3) by (simp add: wasm_inv_def)
    ultimately show ?thesis by (intro exI[of _ r] exI[of _ w'] exI[of _ res])
        (auto simp: wasm_held_def split: option.splits)
  qed
qed

lemma abort_executor_frame:
  "ww_assignments (abort_executor e w) = ww_assignments w" "ww_job_cache (abort_executor e w) = ww_job_cache w"
  "ww_job_args (abort_executor e w) = ww_job_args w"
  by (simp_all add: abort_executor_def split: option.splits)

lemma abort_executor_spec:
  "wasm_pool_inv H w \<Longrightarrow> wasm_pool_inv H (abort_executor e w)"
  "faithful w \<Longrightarrow> faithful (abort_executor e w)"
proof -
  show "wasm_pool_inv H (abort_executor e w)" if p: "wasm_pool_inv H w"
  proof (cases "ww_executors w e")
    case (Some x)
    moreover from this have "alive x" using p by (auto simp: wasm_pool_inv_def ran_def)
    ultimately show ?thesis using wasm_pool_thread[OF p, of e "executor_abort x"]
      by (auto simp: abort_executor_def executor_abort_def)
  qed (use p in \<open>simp add: abort_executor_def\<close>)
  show "faithful (abort_executor e w)" if f: "faithful w"
  proof (cases "ww_executors w e")
    case (Some x)
    then have "good_executor E C (executor_abort x)"
      using faithful_executor[OF f] by (auto simp: good_executor_def executor_abort_def)
    then show ?thesis using wasm_faithful_thread[OF f, of "executor_abort x" e] Some by (simp add: abort_executor_def)
  qed (use f in \<open>simp add: abort_executor_def\<close>)
qed

lemma abort_all_spec:
  assumes "wasm_pool_inv (A ` set ks) w" "\<forall>k \<in> set ks. A' k = Some (A k)" "inj_on A (set ks)" "distinct ks"
  shows "wasm_pool_inv {} (abort_all A' ks w) \<and> ww_assignments (abort_all A' ks w) = ww_assignments w \<and>
    ww_job_cache (abort_all A' ks w) = ww_job_cache w \<and> ww_job_args (abort_all A' ks w) = ww_job_args w \<and>
    (faithful w \<longrightarrow> faithful (abort_all A' ks w))"
  using assms
proof (induction ks arbitrary: w)
  case Nil
  then show ?case by simp
next
  case (Cons k ks)
  let ?w = "abort_executor (A k) w"
  let ?w' = "?w\<lparr>ww_free_executors := ww_free_executors ?w @ [A k]\<rparr>"
  have "A ` set (k # ks) - {A k} = A ` set ks" using Cons.prems(3,4) by (auto simp: inj_on_def)
  then have "wasm_pool_inv (A ` set ks) ?w'"
    using wasm_pool_push_free[OF abort_executor_spec(1)[OF Cons.prems(1)], of "A k" "A k"] by simp
  from Cons.IH[OF this] Cons.prems show ?case
    using abort_executor_spec(2)[of w "A k"] by (auto simp: Let_def abort_executor_frame inj_on_def)
qed

lemma wasm_reset_spec:
  assumes "wasm_inv cok aok w" "wasm_order_ok w order"
  shows "wasm_inv cok aok (wasm_reset w order)" "wasm_held (wasm_reset w order) = {}"
    "faithful w \<Longrightarrow> faithful (wasm_reset w order)"
proof -
  have p: "wasm_pool_inv {} w" using assms(1) by (simp add: wasm_inv_def)
  define A where "A k = the (ww_assignments w k)" for k
  have A: "\<forall>k \<in> set order. ww_assignments w k = Some (A k)" using assms(2) by (auto simp: A_def wasm_order_ok_def)
  have once: "inj_on A (set order)"
  proof (rule inj_onI)
    fix k k' assume k: "k \<in> set order" "k' \<in> set order" "A k = A k'"
    have "pool_ok (ww_free_executors w) (ww_assignments w) (dom (ww_executors w))" using p by (simp add: wasm_pool_inv_def)
    from pool_assigned_once[OF this, of k "A k" k'] A k show "k = k'" by auto
  qed
  have "A ` set order = ran (ww_assignments w)"
    using assms(2) by (force simp: A_def wasm_order_ok_def ran_def dom_def)
  then have "wasm_pool_inv (A ` set order) (w\<lparr>ww_assignments := Map.empty\<rparr>)" using wasm_pool_unassign_all[OF p] by simp
  from abort_all_spec[OF this A once] assms(2)
  have "wasm_pool_inv {} (wasm_reset w order) \<and> ww_assignments (wasm_reset w order) = Map.empty \<and>
    ww_job_cache (wasm_reset w order) = ww_job_cache w \<and> ww_job_args (wasm_reset w order) = ww_job_args w \<and>
    (faithful w \<longrightarrow> faithful (wasm_reset w order))"
    by (simp add: wasm_order_ok_def wasm_reset_def)
  then show "wasm_inv cok aok (wasm_reset w order)" "wasm_held (wasm_reset w order) = {}"
    "faithful w \<Longrightarrow> faithful (wasm_reset w order)"
    using assms(1) by (simp_all add: wasm_inv_def wasm_held_def)
qed

lemma wasm_start_executors_spec:
  assumes "wasm_pool_inv {} w" "dom (ww_executors w) \<subseteq> slab_key E ` {..<ww_inserted w}" "faithful w"
  shows "\<exists>w'. wasm_start_executors E n w = Some w' \<and> wasm_pool_inv {} w' \<and> faithful w' \<and>
    ww_assignments w' = ww_assignments w \<and> ww_job_cache w' = ww_job_cache w \<and> ww_job_args w' = ww_job_args w \<and>
    length (ww_free_executors w') = length (ww_free_executors w) + n"
  using assms
proof (induction n arbitrary: w)
  case 0
  then show ?case by simp
next
  case (Suc n)
  let ?e = "slab_key E (ww_inserted w)"
  have new: "?e \<notin> dom (ww_executors w)" using Suc.prems(2) new_keys_differ by (force simp: inj_def)
  let ?w = "w\<lparr>ww_executors := (ww_executors w)(?e \<mapsto> wasm_executor_new), ww_inserted := ww_inserted w + 1\<rparr>"
  let ?w' = "?w\<lparr>ww_free_executors := ww_free_executors ?w @ [?e]\<rparr>"
  have "wasm_pool_inv {?e} ?w"
  proof -
    have "\<forall>x \<in> ran ((ww_executors w)(?e \<mapsto> wasm_executor_new)). alive x"
      using Suc.prems(1) by (auto simp: wasm_pool_inv_def ran_def wasm_executor_new_def)
    then show ?thesis using Suc.prems(1) new pool_grow[of "ww_free_executors w" "ww_assignments w" "dom (ww_executors w)"]
      by (auto simp: wasm_pool_inv_def pool_ok_def)
  qed
  from wasm_pool_push_free[OF this singletonI] have "wasm_pool_inv {} ?w'" by simp
  moreover have "dom (ww_executors ?w') \<subseteq> slab_key E ` {..<ww_inserted ?w'}"
    using Suc.prems(2) by (force simp: less_Suc_eq)
  moreover have "faithful ?w'"
    using wasm_faithful_thread[OF Suc.prems(3), of wasm_executor_new ?e]
    by (simp add: wasm_faithful_def good_executor_def wasm_executor_new_def)
  ultimately have "\<exists>w'. wasm_start_executors E n ?w' = Some w' \<and> wasm_pool_inv {} w' \<and> faithful w' \<and>
    ww_assignments w' = ww_assignments ?w' \<and> ww_job_cache w' = ww_job_cache ?w' \<and> ww_job_args w' = ww_job_args ?w' \<and>
    length (ww_free_executors w') = length (ww_free_executors ?w') + n" by (rule Suc.IH)
  then show ?case by (simp add: wasm_start_executor_def engines Let_def)
qed

lemma wasm_new_spec:
  "\<exists>w. wasm_new E LC LA n = Some w \<and> wasm_inv cok aok w \<and> faithful w \<and> wasm_held w = {} \<and>
     length (ww_free_executors w) = n"
proof -
  let ?w = "\<lparr>ww_free_executors = [], ww_assignments = Map.empty, ww_executors = Map.empty, ww_job_cache = lru_new LC 10,
      ww_job_args = lru_new LA 10, ww_inserted = 0\<rparr>"
  have "wasm_pool_inv {} ?w" by (simp add: wasm_pool_inv_def pool_empty)
  moreover have "faithful ?w" using cache.new_law[of 10] args.new_law[of 10] by (simp add: wasm_faithful_def)
  ultimately show ?thesis using wasm_start_executors_spec[of ?w n] cache.new_law[of 10] args.new_law[of 10]
    by (auto simp: wasm_new_def wasm_inv_def wasm_held_def)
qed

end

text \<open>The worker keeps the contract of the trait, and its answers are what the library of the job computes.\<close>

sublocale wasm_setting \<subseteq> wasm: answering_worker "wasm_ops E LC LA" "wasm_inv cok aok" "wasm_event_ok E LC"
  wasm_order_ok "\<lambda>w. fresh_request (wasm_held w)" wasm_held C faithful "\<lambda>k res. res = wasm_result E C k"
proof unfold_locales
  fix w rq
  assume "wasm_inv cok aok w" "fresh_request (wasm_held w) rq"
  then show "\<exists>r w'. wk_process (wasm_ops E LC LA) w rq = Some (r, w') \<and> wasm_inv cok aok w' \<and>
      wasm_held w' \<subseteq> wasm_held w \<union> new_keys rq"
    using wasm_request_spec[of w rq] by (auto simp: wasm_ops_def)
next
  fix w rq er w'
  assume "wasm_inv cok aok w" "fresh_request (wasm_held w) rq"
    "wk_process (wasm_ops E LC LA) w rq = Some (Inl er, w')"
  then show "\<not> is_answer (Error er) \<and> (\<forall>t \<in> answered (Error er). (rq_job rq, t) \<in> new_keys rq - wasm_held w')"
    using wasm_request_spec[of w rq] by (auto simp: wasm_ops_def)
next
  fix w rq r w'
  assume "wasm_inv cok aok w" "fresh_request (wasm_held w) rq" "faithful w" "honest_request C rq"
    "wk_process (wasm_ops E LC LA) w rq = Some (r, w')"
  then show "faithful w'" using wasm_request_spec[of w rq] by (auto simp: wasm_ops_def)
next
  fix w e
  assume a: "wasm_inv cok aok w" "wasm_event_ok E LC w e"
  then obtain r w' res where w': "wasm_event_step E LC w e = Some (r, w')" "wasm_inv cok aok w'"
    "case r of None \<Rightarrow> wasm_held w' = wasm_held w
     | Some a \<Rightarrow> key_of_result res \<in> wasm_held w \<and> a = worker_answer res \<and>
         wasm_held w' = wasm_held w - {key_of_result res}"
    using wasm_event_spec[OF a] by blast
  then show "\<exists>r w'. wk_message (wasm_ops E LC LA) w e = Some (r, w') \<and> wasm_inv cok aok w' \<and>
        (case r of None \<Rightarrow> wasm_held w' \<subseteq> wasm_held w
         | Some a \<Rightarrow> \<exists>job t. answered a = {t} \<and> (job, t) \<in> wasm_held w \<and> wasm_held w' = wasm_held w - {(job, t)})"
    by (intro exI[of _ r] exI[of _ w']) (auto simp: wasm_ops_def key_of_result_def split: option.splits)
next
  fix w e r w'
  assume a: "wasm_inv cok aok w" "faithful w" "wasm_event_ok E LC w e" "wk_message (wasm_ops E LC LA) w e = Some (r, w')"
  obtain res where r: "faithful w'"
    "case r of None \<Rightarrow> wasm_held w' = wasm_held w
     | Some a \<Rightarrow> key_of_result res \<in> wasm_held w \<and> a = worker_answer res \<and>
         wasm_held w' = wasm_held w - {key_of_result res}"
    "r \<noteq> None \<longrightarrow> er_result res = wasm_result E C (key_of_result res)"
    using wasm_event_spec[OF a(1,3)] a(2,4) by (auto simp: wasm_ops_def)
  have "worker_answer res = answer_for (\<lambda>_. wasm_result E C (key_of_result res)) (key_of_result res) (er_execution_time res)"
    if "r \<noteq> None" using r(3) that by (intro worker_answer_for) simp
  then show "faithful w' \<and> (case r of None \<Rightarrow> wasm_held w' \<subseteq> wasm_held w
        | Some a \<Rightarrow> \<exists>k time res. k \<in> wasm_held w \<and> wasm_held w' = wasm_held w - {k} \<and> res = wasm_result E C k \<and>
            a = answer_for (\<lambda>_. res) k time)"
    using r(1,2) by (auto split: option.splits)
qed (auto simp: wasm_ops_def wasm_reset_spec)

end
