(* ===== verification/Grid_Node_Runs.thy ===== *)
theory Grid_Node_Runs
  imports Grid_Node Dll_Answers Wasm_Worker
begin

text \<open>
  Runs of nodes with either worker: a client gets right answers to what it asked for and nothing else, in
  the order in which they are produced; a thread whose module has left the cache ends, and the next job for it
  ends the node.
\<close>

declare split_paired_All [simp del] split_paired_Ex [simp del]

section \<open>Concrete settings\<close>

text \<open>The meaning of the identifiers in the concrete runs.\<close>

definition sample_code :: job_code where
  "sample_code = \<lparr>jc_args = (\<lambda>_. [7]), jc_library = (\<lambda>_. [8]), jc_task = (\<lambda>k. if snd k = 0 then [1] else [2])\<rparr>"

lemma calm_libraries: "lru_try_laws (process_cache calm_env) lru_list_ok ll_cap ll_entries (process_try calm_env)"
  using list_try.lru_try_laws_axioms by (simp add: calm_env_def)

interpretation calm_code: dll_code list_lru lru_list_ok ll_cap ll_entries list_lru lru_list_ok ll_cap ll_entries
  calm_env lru_list_ok ll_cap ll_entries sample_code "{1}"
  by (rule dll_code.intro[OF calm.dll_setting_axioms calm_libraries])

text \<open>A runtime whose components are their own serialised form and return the data of the task.\<close>

definition echo_env :: "bytes wasm_env" where
  "echo_env = \<lparr>engine_up = (\<lambda>_. True), slab_key = (\<lambda>n. n), component_new = Inr, component_serialize = Inr,
     component_deserialize = Inr, call_execute_job = (\<lambda>c args data. Inr (Inr data))\<rparr>"

interpretation echo: wasm_setting list_lru lru_list_ok ll_cap ll_entries list_lru lru_list_ok ll_cap ll_entries
  echo_env sample_code
  by unfold_locales (auto simp: echo_env_def inj_def)

text \<open>The requests to a node with native libraries name jobs of \<open>J\<close>, bring new tasks and reach no process that has gone.\<close>

abbreviation dll_node_ok ::
  "job_code \<Rightarrow> uuid set \<Rightarrow> ('jc, 'ja, 'lc) dll_worker grid_node \<Rightarrow> (dll_event, job_key list) loop_event \<Rightarrow> bool" where
  "dll_node_ok C J \<equiv> node_event_ok dll_event_ok dll_order_ok (\<lambda>w rq. dll_request_ok w rq \<and> rq_job rq \<in> J) C"

abbreviation wasm_node_ok ::
  "'c wasm_env \<Rightarrow> 'mc module_ops \<Rightarrow> job_code \<Rightarrow> ('mc, 'ja) wasm_worker grid_node \<Rightarrow>
   (wasm_event, job_key list) loop_event \<Rightarrow> bool" where
  "wasm_node_ok E LC C \<equiv> node_event_ok (wasm_event_ok E LC) wasm_order_ok (\<lambda>w. fresh_request (wasm_held w)) C"

section \<open>Facts of the two nodes\<close>

context dll_code
begin

lemma dll_node_inv:
  assumes "dll_new E LC LA m = Some w0" "event_run (dll_node_ok C J) (node_exec (dll_ops E LC LA)) (grid_node_new w0) es outs n"
  shows "answers.node_inv (requested es) n"
proof -
  have w0: "dll_inv E cok centries aok w0" "dll_held w0 = {}" using dll_new_spec[of m] assms(1) by auto
  from answers.node_run_inv[OF w0(1) dll_new_faithful[OF assms(1)] w0(2) assms(2)] show ?thesis .
qed

lemmas dll_node_step = answers.node_step
lemmas dll_node_facts = answers.node_client_facts

end

context wasm_setting
begin

lemma wasm_node_inv:
  assumes "wasm_new E LC LA m = Some w0"
    "event_run (wasm_node_ok E LC C) (node_exec (wasm_ops E LC LA)) (grid_node_new w0) es outs n"
  shows "wasm.node_inv (requested es) n"
proof -
  have w0: "wasm_inv cok aok w0" "faithful w0" "wasm_held w0 = {}" using wasm_new_spec[of m] assms(1) by auto
  from wasm.node_run_inv[OF w0 assms(2)] show ?thesis .
qed

lemmas wasm_node_step = wasm.node_step
lemmas wasm_node_facts = wasm.node_client_facts

end

section \<open>Concrete runs\<close>

lemmas node_eval = node_exec_def node_turn_def node_process_manager_def node_process_request_def grid_node_new_def
  client_new_def client_send_def forward_one_def honest_request_def small_request_def sample_code_def worker_answer_def

lemmas wasm_eval = wasm_new_def wasm_start_executor_def echo_env_def wasm_ops_def wasm_process_request_def
  process_module_def wasm_process_tasks_assignment.simps wasm_assign_task_def executor_start_job_def wasm_executor_new_def
  wasm_event_step_def execute_recv_def execute_finish_def load_component_def run_component_def wasm_process_message_def
  list_lru_def touch_def given_up_def pushed_def drop_key_def overwritten_def fresh_request_def new_tasks_def new_keys_def
  wasm_held_def wasm_order_ok_def wasm_reset_def key_of_result_def is_compiled_def

definition first_result :: executor_result where
  "first_result = \<lparr>er_job_id = 1, er_task_id = 0, er_execution_time = 5, er_result = Inr [1]\<rparr>"

definition client_assigned :: "('e, job_key list) loop_event list" where
  "client_assigned = [NV_Manager (ME_Message (AssignClient 5)) []]"

definition dll_service :: "(dll_event, job_key list) loop_event list" where
  "dll_service = [NV_Client (CE_Message small_request), NV_Worker (DE_Run 100 5), NV_Worker (DE_Result 100 first_result),
     NV_Client CE_Connected, NV_Forward]"

lemma dll_node_assigned:
  "\<exists>w0 n. dll_new calm_env list_lru list_lru 2 = Some w0 \<and>
     exec_events (dll_node_ok sample_code {1}) (node_exec calm_ops) (grid_node_new w0) client_assigned = Some ([], n) \<and>
     nd_client n = Some (client_new 5) \<and>
     (\<exists>n'. exec_events (\<lambda>_. keeps_client) (node_exec calm_ops) n dll_service =
        Some ([NO_Response (worker_answer first_result)], n'))"
  by (simp add: dll_eval node_eval client_assigned_def dll_service_def first_result_def dll_order_ok_def dll_reset_def numeral_2_eq_2)

lemma dll_node_served:
  "\<exists>w0 n c. dll_new calm_env list_lru list_lru 2 = Some w0 \<and>
     exec_events (dll_node_ok sample_code {1}) (node_exec calm_ops) (grid_node_new w0) (client_assigned @ dll_service) =
       Some ([NO_Response (worker_answer first_result)], n) \<and>
     nd_client n = Some c \<and> cl_sent c = [worker_answer first_result] \<and> cl_buffer c = [] \<and> cl_written c = 1"
  by (simp add: dll_eval node_eval client_assigned_def dll_service_def first_result_def dll_order_ok_def dll_reset_def numeral_2_eq_2)

definition wasm_service :: "(wasm_event, job_key list) loop_event list" where
  "wasm_service = [NV_Client (CE_Message small_request), NV_Worker (WE_Recv 0), NV_Worker (WE_Finish 0 5), NV_Worker (WE_Result 0)]"

abbreviation echo_ops :: "((wasm_module lru_list, bytes lru_list) wasm_worker, wasm_event, job_key list) worker_ops" where
  "echo_ops \<equiv> wasm_ops echo_env list_lru list_lru"

lemma wasm_node_served:
  "\<exists>w0 n c. wasm_new echo_env list_lru list_lru 2 = Some w0 \<and>
     exec_events (wasm_node_ok echo_env list_lru sample_code) (node_exec echo_ops) (grid_node_new w0) (client_assigned @ wasm_service) =
       Some ([NO_Response (worker_answer first_result)], n) \<and>
     nd_client n = Some c \<and> cl_sent c = [] \<and> cl_buffer c = [worker_answer first_result]"
  by (simp add: wasm_eval node_eval client_assigned_def wasm_service_def first_result_def numeral_2_eq_2)

section \<open>Properties\<close>

text \<open>C15. A node with the worker for native libraries serves its client: while the channel to the client is open and no request reaches an executor whose process has
  gone, no event ends the node, and
  every response that has been sent to the client or waits for it is either the answer for a task this client has asked for since it
  was assigned, or the refusal of such tasks; there are never more answers than tasks it asked for. An answer is what a process computes with the bytes of the library that the client
  sent for the job, the job's arguments and the task's data; when the client names more than ten jobs, it may also be that the library cannot be
  opened.\<close>

theorem dll_node_serves:
  assumes "dll_setting LC cok ccap centries LA aok acap aentries E"
    and "lru_try_laws (process_cache E) pok pcap pentries (process_try E)"
    and "dll_new E LC LA m = Some w0"
    and "event_run (dll_node_ok C J) (node_exec (dll_ops E LC LA)) (grid_node_new w0) es outs n"
  shows "(\<forall>e. dll_node_ok C J n e \<longrightarrow> node_exec (dll_ops E LC LA) n e \<noteq> None) \<and>
    (\<forall>c. nd_client n = Some c \<longrightarrow>
       (\<forall>r \<in> set (cl_sent c @ cl_buffer c).
          if is_answer r
          then \<exists>k time res. k \<in> set (requested es) \<and> r = answer_for (\<lambda>_. res) k time \<and>
            (res = job_outcome (process_env E (\<lambda>u. Some (jc_library C u))) (code_job C k) \<or>
             res = Inl ''Unable to open library'' \<and> \<not> (finite J \<and> card J \<le> 10))
          else answered r \<subseteq> snd ` set (requested es)) \<and>
       length (filter is_answer (cl_sent c @ cl_buffer c)) \<le> length (requested es))"
proof -
  have code: "dll_code LC cok ccap centries LA aok acap aentries E pok pcap pentries" using assms(1,2) by (rule dll_code.intro)
  note inv = dll_code.dll_node_inv[OF code assms(3,4)]
  show ?thesis
    using dll_code.dll_node_step[OF code inv] dll_code.dll_node_facts[OF code inv]
    unfolding delivered_def proper_response_def dll_right_def dll_result_def few_def
    by (fastforce split: if_splits)
qed

theorem dll_node_serves_witness:
  "\<exists>w0 outs n c. dll_new calm_env list_lru list_lru 2 = Some w0 \<and>
     event_run (dll_node_ok sample_code {1}) (node_exec calm_ops) (grid_node_new w0) (client_assigned @ dll_service) outs n \<and>
     nd_client n = Some c \<and> cl_sent c = [worker_answer first_result] \<and>
     (\<exists>k time. k \<in> set (requested (client_assigned @ dll_service)) \<and>
        worker_answer first_result =
          answer_for (\<lambda>_. job_outcome (process_env calm_env (\<lambda>u. Some (jc_library sample_code u))) (code_job sample_code k)) k time)"
proof -
  obtain w0 outs n c where w: "dll_new calm_env list_lru list_lru 2 = Some w0"
    "exec_events (dll_node_ok sample_code {1}) (node_exec calm_ops) (grid_node_new w0) (client_assigned @ dll_service) = Some (outs, n)"
    "nd_client n = Some c" "cl_sent c = [worker_answer first_result]" using dll_node_served by blast
  have run: "event_run (dll_node_ok sample_code {1}) (node_exec calm_ops) (grid_node_new w0) (client_assigned @ dll_service) outs n"
    using exec_events_run[OF run_init w(2)] by simp
  have "is_answer (worker_answer first_result)" by (simp add: is_answer_def worker_answer_def first_result_def)
  then have "\<exists>k time. k \<in> set (requested (client_assigned @ dll_service)) \<and> worker_answer first_result =
      answer_for (\<lambda>_. job_outcome (process_env calm_env (\<lambda>u. Some (jc_library sample_code u))) (code_job sample_code k)) k time"
    using conjunct2[OF dll_node_serves[OF calm.dll_setting_axioms calm_libraries w(1) run], rule_format, OF w(3)] by (simp add: w(4))
  then show ?thesis using w(1,3,4) run by blast
qed

text \<open>C16. A node with the worker for WebAssembly serves its client: as for native libraries, and the answers are
  what the library of the job computes when it is compiled anew, however often its compiled form was taken
  from the cache, compiled by another thread, dropped by an interruption or read back from bytes.\<close>

theorem wasm_node_serves:
  assumes "wasm_setting LC cok ccap centries LA aok acap aentries E" "wasm_new E LC LA m = Some w0"
    "event_run (wasm_node_ok E LC C) (node_exec (wasm_ops E LC LA)) (grid_node_new w0) es outs n"
  shows "(\<forall>e. wasm_node_ok E LC C n e \<longrightarrow> node_exec (wasm_ops E LC LA) n e \<noteq> None) \<and>
    (\<forall>c. nd_client n = Some c \<longrightarrow>
       (\<forall>r \<in> set (cl_sent c @ cl_buffer c).
          if is_answer r
          then \<exists>k time. k \<in> set (requested es) \<and> r = answer_for (wasm_result E C) k time
          else answered r \<subseteq> snd ` set (requested es)) \<and>
       length (filter is_answer (cl_sent c @ cl_buffer c)) \<le> length (requested es))"
proof -
  note inv = wasm_setting.wasm_node_inv[OF assms]
  have res: "answer_for (\<lambda>_. wasm_result E C k) k time = answer_for (wasm_result E C) k time" for k time
    by (rule answer_for_cong)
  show ?thesis
    using wasm_setting.wasm_node_step[OF assms(1) inv] wasm_setting.wasm_node_facts[OF assms(1) inv]
    unfolding delivered_def proper_response_def simp_thms ex_simps res by (fastforce split: if_splits)
qed

theorem wasm_node_serves_witness:
  "\<exists>w0 outs n c. wasm_new echo_env list_lru list_lru 2 = Some w0 \<and>
     event_run (wasm_node_ok echo_env list_lru sample_code) (node_exec echo_ops) (grid_node_new w0) (client_assigned @ wasm_service) outs n \<and>
     nd_client n = Some c \<and> cl_buffer c = [worker_answer first_result] \<and>
     (\<exists>k time. k \<in> set (requested (client_assigned @ wasm_service)) \<and>
        worker_answer first_result = answer_for (wasm_result echo_env sample_code) k time)"
proof -
  obtain w0 outs n c where w: "wasm_new echo_env list_lru list_lru 2 = Some w0"
    "exec_events (wasm_node_ok echo_env list_lru sample_code) (node_exec echo_ops) (grid_node_new w0) (client_assigned @ wasm_service) =
       Some (outs, n)"
    "nd_client n = Some c" "cl_sent c = []" "cl_buffer c = [worker_answer first_result]" using wasm_node_served by blast
  have run: "event_run (wasm_node_ok echo_env list_lru sample_code) (node_exec echo_ops) (grid_node_new w0) (client_assigned @ wasm_service) outs n"
    using exec_events_run[OF run_init w(2)] by simp
  have "is_answer (worker_answer first_result)" by (simp add: is_answer_def worker_answer_def first_result_def)
  then have "\<exists>k time. k \<in> set (requested (client_assigned @ wasm_service)) \<and>
      worker_answer first_result = answer_for (wasm_result echo_env sample_code) k time"
    using conjunct2[OF wasm_node_serves[OF echo.wasm_setting_axioms w(1) run], rule_format, OF w(3)] by (simp add: w(5))
  then show ?thesis using w(1,3,5) run by blast
qed

text \<open>C19. Whatever its worker does, a node gives its client the responses that the worker produces exactly in their order and none twice: from its assignment on, as long as
  it is not replaced, what the client has got is a beginning of what has been produced; until the task of its connection ends, all that has been produced is
  in the channel or kept for the client, and nothing is kept while it is connected. The task ends with every end of the connection, and
  then the client gets nothing more.\<close>

theorem node_delivers_in_order:
  assumes "nd_client n = Some (client_new addr)" "event_run (\<lambda>_. keeps_client) (node_exec W) n es outs n'"
  shows "\<exists>c. nd_client n' = Some c \<and> prefix (received c) (responses outs) \<and>
    (NV_Closed \<notin> set es \<longrightarrow> cl_sent c @ cl_buffer c = responses outs \<and> (cl_connected c \<longrightarrow> cl_buffer c = [])) \<and>
    (NV_Closed \<in> set es \<longrightarrow> (\<forall>es' outs' n''. event_run (\<lambda>_. keeps_client) (node_exec W) n' es' outs' n'' \<longrightarrow>
       (\<exists>c'. nd_client n'' = Some c' \<and> received c' = received c)))"
proof -
  obtain c where c: "nd_client n' = Some c" "tracks c (responses outs)" "cl_open c \<longleftrightarrow> NV_Closed \<notin> set es"
    using node_run_tracks[OF assms(2,1) tracks_new] by (auto simp: client_new_def)
  have "\<exists>c'. nd_client n'' = Some c' \<and> received c' = received c"
    if "NV_Closed \<in> set es" "event_run (\<lambda>_. keeps_client) (node_exec W) n' es' outs' n''" for es' outs' n''
    using node_run_tracks[OF that(2) c(1,2)] c(3) that(1) by auto
  then show ?thesis using c by (auto simp: tracks_def delivered_def)
qed

theorem node_delivers_in_order_witness:
  "\<exists>w0 n outs' n' c. dll_new calm_env list_lru list_lru 2 = Some w0 \<and>
     exec_events (dll_node_ok sample_code {1}) (node_exec calm_ops) (grid_node_new w0) client_assigned = Some ([], n) \<and>
     event_run (\<lambda>_. keeps_client) (node_exec calm_ops) n dll_service outs' n' \<and>
     nd_client n' = Some c \<and> cl_sent c @ cl_buffer c = [worker_answer first_result] \<and>
     prefix (received c) [worker_answer first_result]"
proof -
  obtain w0 n n' where w: "dll_new calm_env list_lru list_lru 2 = Some w0"
    "exec_events (dll_node_ok sample_code {1}) (node_exec calm_ops) (grid_node_new w0) client_assigned = Some ([], n)"
    "nd_client n = Some (client_new 5)"
    "exec_events (\<lambda>_. keeps_client) (node_exec calm_ops) n dll_service = Some ([NO_Response (worker_answer first_result)], n')"
    using dll_node_assigned by blast
  have run: "event_run (\<lambda>_. keeps_client) (node_exec calm_ops) n dll_service [NO_Response (worker_answer first_result)] n'"
    using exec_events_run[OF run_init w(4)] by simp
  have "NV_Closed \<notin> set dll_service" by (simp add: dll_service_def)
  with node_delivers_in_order[OF w(3) run] obtain c where
    "nd_client n' = Some c" "cl_sent c @ cl_buffer c = [worker_answer first_result]" "prefix (received c) [worker_answer first_result]" by auto
  then show ?thesis using w(1,2) run by blast
qed

text \<open>The refusal of a request that is processed after the task of the connection has ended, and before the node has seen the disconnection, ends the node.\<close>

lemma closed_channel_ends_node:
  assumes "nd_client n = Some c" "cl_connected c" "\<not> cl_open c" "wk_process W (nd_worker n) rq = Some (Inl er, w)"
  shows "node_turn W n (NV_Client (CE_Message rq)) = Some (Inl Client_Closed, n\<lparr>nd_worker := w\<rparr>)"
  using assms by (simp add: node_turn_def node_process_request_def client_send_def)

section \<open>Modules and arguments that leave the caches\<close>

text \<open>A thread that takes a job whose module has left the cache ends, and so does one that was waiting to
  compile it; the worker panics at the next job it sends there.\<close>

lemma evicted_module_ends_thread:
  assumes "recv_job x = j # js" "lru_peek LC cache (ej_job_id j) = None"
  shows "\<not> alive (execute_recv LC cache x)" "executor_start_job j' (execute_recv LC cache x) = None"
  using assms by (simp_all add: execute_recv_def executor_start_job_def)

lemma evicted_source_ends_thread:
  assumes "executing x = Some (j, Source b)" "lru_peek LC cache (ej_job_id j) = None"
  shows "\<not> alive (snd (execute_finish E LC time cache x))"
  using assms by (simp add: execute_finish_def load_component_def)

text \<open>The two caches of the WebAssembly worker give up different jobs: the modules in the order in which they
  came, the arguments in the order of use. After ten jobs, a second task of the first one and an eleventh job,
  the second job is cached without its arguments: its next task is accepted and never run.\<close>

definition no_task :: "uuid \<Rightarrow> worker_request" where
  "no_task job = \<lparr>rq_job = job, rq_job_data = Some ([7], [8]), rq_replacements = [], rq_tasks = []\<rparr>"

definition wasm_evicting_inputs :: "(wasm_event, job_key list) worker_input list" where
  "wasm_evicting_inputs =
     map (\<lambda>job. WI_Request (no_task job)) [1, 2, 3, 4, 5, 6, 7, 8, 9, 10] @
     [WI_Request (one_task 1 0 False), WI_Request (no_task 11), WI_Request (one_task 2 0 False)]"

lemma wasm_job_without_arguments:
  "do { w \<leftarrow> wasm_new echo_env list_lru list_lru 2;
        (outs, w) \<leftarrow> exec_events (\<lambda>_ _. True) (worker_turn echo_ops) w wasm_evicting_inputs;
        x \<leftarrow> ww_executors w 0;
        Some (outs, ww_assignments w (2, 0), recv_job x, executing x) } = Some ([], Some 0, [], None)"
  by code_simp

end
