(* ===== verification/Necklace_Manager.thy ===== *)
theory Necklace_Manager
  imports Task_Manager
begin

text \<open>
  The second task manager, \<open>necklace-task-manager/src/task_manager.rs\<close> with \<open>splitter.rs\<close>, \<open>reducer.rs\<close>, \<open>job.rs\<close>,
  \<open>command.rs\<close> and the views of \<open>http_server/json_job_data.rs\<close>. It has the loop of the first one, but a job
  is bytes, and what it is split into and how its results are reduced is up to two Python scripts.

  The scripts, run by \<open>pyo3\<close>, are fields of the argument \<open>env\<close>: \<open>py_splitter\<close> gives the number of tasks and
  what the iterator yields at each of its steps (an exception, data or its end), \<open>py_reducer\<close> the result of a job. So are the
  embedded code of the job, the bit operations and whether the allocator can reserve a vector of a
  number of results. The identifier of a new job is an argument of its command. \<open>None\<close> is a panic.
\<close>

section \<open>Data\<close>

type_synonym py_iterator = "nat \<Rightarrow> (string + bytes) option"

record nk_env =
  py_splitter :: "bytes \<Rightarrow> string + nat \<times> py_iterator"
  py_reducer :: "bytes \<Rightarrow> bytes list \<Rightarrow> string + string"
  nk_job_code :: "(platform \<times> bytes) list"
  nk_bits :: bitset_core
  nk_reserve :: "nat \<Rightarrow> bool"

record nk_splitter =
  ns_total_tasks :: nat
  ns_n :: usize
  ns_iter :: py_iterator
  ns_pos :: nat

datatype nk_result =
  NK_Completed string "job_stats option"
  | NK_Error string "job_stats option"

datatype nk_phase =
  NK_Splitting nk_splitter
  | NK_WaitingTasksCompletions
  | NK_Reducing

datatype nk_state =
  NK_NotStarted
  | NK_Started "job_stats option" "worker_result list" bit_set nk_phase
  | NK_Finished nk_result

record nk_job =
  nj_id :: uuid
  nj_data :: bytes
  nj_state :: nk_state

datatype nk_json_state =
  NJ_NotStarted
  | NJ_Started nat json_phase
  | NJ_Completed nk_result

record nk_json =
  nx_id :: uuid
  nx_data :: bytes
  nx_state :: nk_json_state

datatype nk_command =
  NK_AddJob bytes uuid
  | NK_CancelJob uuid
  | NK_FinishedJobs
  | NK_QueuedJobs
  | NK_CurrentJob

datatype nk_output =
  NO_Sched scheduler_request
  | NO_Reconnect
  | NO_Uuid uuid
  | NO_Job "nk_json option"
  | NO_Jobs "nk_json list"

datatype nk_flow = NK_Continue | NK_Break_Ok nk_result | NK_Break_Err string

record nk_manager =
  nk_ready :: bool
  nk_jobs_finished :: "nk_job list"
  nk_jobs_queue :: "nk_job list"
  nk_current_job :: "nk_job option"
  nk_need_process_job :: bool

definition nk_manager_new :: nk_manager where
  "nk_manager_new =
     \<lparr>nk_ready = False, nk_jobs_finished = [], nk_jobs_queue = [], nk_current_job = None, nk_need_process_job = False\<rparr>"

definition nk_json_phase :: "nk_phase \<Rightarrow> json_phase" where
  "nk_json_phase phase =
     (case phase of
        NK_Splitting _ \<Rightarrow> JP_Splitting
      | NK_WaitingTasksCompletions \<Rightarrow> JP_WaitingTasksCompletion
      | NK_Reducing \<Rightarrow> JP_Reducing)"

definition nk_json_of_job :: "nk_job \<Rightarrow> nk_json" where
  "nk_json_of_job j =
     \<lparr>nx_id = nj_id j, nx_data = nj_data j,
      nx_state = (case nj_state j of
          NK_NotStarted \<Rightarrow> NJ_NotStarted
        | NK_Started stats results tasks phase \<Rightarrow> NJ_Started (bs_length tasks) (nk_json_phase phase)
        | NK_Finished result \<Rightarrow> NJ_Completed result)\<rparr>"

section \<open>The splitter\<close>

definition nk_splitter_new :: "nk_env \<Rightarrow> bytes \<Rightarrow> string + nk_splitter" where
  "nk_splitter_new env data =
     (case py_splitter env data of
        Inl err \<Rightarrow> Inl err
      | Inr (count, it) \<Rightarrow> Inr \<lparr>ns_total_tasks = count, ns_n = 0, ns_iter = it, ns_pos = 0\<rparr>)"

text \<open>A step of the iterator: only data is numbered.\<close>

definition nk_splitter_next :: "nk_splitter \<Rightarrow> (string + usize \<times> bytes) option \<times> nk_splitter" where
  "nk_splitter_next s =
     (case ns_iter s (ns_pos s) of
        None \<Rightarrow> (None, s)
      | Some (Inl err) \<Rightarrow> (Some (Inl err), s\<lparr>ns_pos := ns_pos s + 1\<rparr>)
      | Some (Inr x) \<Rightarrow> (Some (Inr (ns_n s, x)), s\<lparr>ns_n := usize_add (ns_n s) 1, ns_pos := ns_pos s + 1\<rparr>))"

section \<open>The current job\<close>

text \<open>\<open>{:?}\<close> of a string: quoted, with escapes for quotes, backslashes and control characters.\<close>

definition hex_digit :: "nat \<Rightarrow> char" where
  "hex_digit n = ''0123456789abcdef'' ! n"

definition hex_text :: "nat \<Rightarrow> string" where
  "hex_text n = (if n < 16 then [hex_digit n] else [hex_digit (n div 16), hex_digit (n mod 16)])"

definition escape_debug :: "char \<Rightarrow> string" where
  "escape_debug c =
     (if c = CHR 0x22 \<or> c = CHR 0x5C then [CHR 0x5C, c]
      else if c = CHR 0x00 then [CHR 0x5C, CHR ''0'']
      else if c = CHR 0x09 then [CHR 0x5C, CHR ''t'']
      else if c = CHR 0x0A then [CHR 0x5C, CHR ''n'']
      else if c = CHR 0x0D then [CHR 0x5C, CHR ''r'']
      else if (of_char c :: nat) < 32 \<or> of_char c = (127 :: nat)
        then [CHR 0x5C] @ ''u{'' @ hex_text (of_char c) @ ''}''
      else [c])"

definition str_debug :: "string \<Rightarrow> string" where
  "str_debug s = [CHR 0x22] @ concat (map escape_debug s) @ [CHR 0x22]"

definition nk_begin_job :: "nk_env \<Rightarrow> nk_job \<Rightarrow> (nk_flow \<times> nk_output list \<times> nk_job) option" where
  "nk_begin_job env job =
     (case nk_splitter_new env (nj_data job) of
        Inl err \<Rightarrow> Some (NK_Break_Ok (NK_Error (''Failed to create task splitter: '' @ str_debug err) None), [], job)
      | Inr splitter \<Rightarrow>
          (let count = ns_total_tasks splitter in
           if nk_reserve env count then
             Some (NK_Continue,
               [NO_Sched (SR_NewJob (nj_id job) count \<lparr>wj_args = nj_data job, wj_data = nk_job_code env\<rparr>)],
               job\<lparr>nj_state := NK_Started None [] (bsv_with_capacity (count mod 64 + 1)) (NK_Splitting splitter)\<rparr>)
           else None))"

text \<open>The loop over a batch of tasks ends at the first exception.\<close>

fun nk_batch ::
  "nk_env \<Rightarrow> bit_set \<Rightarrow> (string + usize \<times> bytes) list \<Rightarrow> (bit_set \<times> (string + worker_task list)) option" where
  "nk_batch env tasks [] = Some (tasks, Inr [])"
| "nk_batch env tasks (Inl err # batch) = Some (tasks, Inl err)"
| "nk_batch env tasks (Inr (ident, data) # batch) =
     do {
       (_, tasks) \<leftarrow> bsv_insert (nk_bits env) tasks ident;
       (tasks, r) \<leftarrow> nk_batch env tasks batch;
       Some (tasks, map_sum (\<lambda>err. err) (\<lambda>ws. \<lparr>wt_id = ident, wt_data = data\<rparr> # ws) r)
     }"

definition nk_split_job ::
  "nk_env \<Rightarrow> nk_job \<Rightarrow> job_stats option \<Rightarrow> worker_result list \<Rightarrow> bit_set \<Rightarrow> nk_splitter \<Rightarrow>
   (nk_flow \<times> nk_output list \<times> nk_job) option" where
  "nk_split_job env job stats results tasks splitter =
     do {
       (chunk, splitter) \<leftarrow> next_chunk (\<lambda>s. Some (nk_splitter_next s)) 128 splitter;
       let (batch, phase) =
         (case chunk of Inr batch \<Rightarrow> (batch, NK_Splitting splitter) | Inl left \<Rightarrow> (left, NK_WaitingTasksCompletions));
       (tasks, r) \<leftarrow> nk_batch env tasks batch;
       case r of
         Inl err \<Rightarrow> Some (NK_Break_Ok (NK_Error err None), [],
           job\<lparr>nj_state := NK_Started stats results tasks (NK_Splitting splitter)\<rparr>)
       | Inr workers_tasks \<Rightarrow>
           Some (NK_Continue, [NO_Sched (SR_Task workers_tasks)], job\<lparr>nj_state := NK_Started stats results tasks phase\<rparr>)
     }"

definition nk_await_tasks :: "nk_job \<Rightarrow> job_stats option \<Rightarrow> worker_result list \<Rightarrow> bit_set \<Rightarrow> nk_job" where
  "nk_await_tasks job stats results tasks =
     (if bs_is_empty tasks then job\<lparr>nj_state := NK_Started stats results tasks NK_Reducing\<rparr> else job)"

text \<open>The data of the results is taken out of them.\<close>

definition nk_reduce_job ::
  "nk_env \<Rightarrow> nk_job \<Rightarrow> job_stats option \<Rightarrow> worker_result list \<Rightarrow> bit_set \<Rightarrow> nk_flow \<times> nk_job" where
  "nk_reduce_job env job stats results tasks =
     (let taken = map (\<lambda>r. r\<lparr>wr_data := []\<rparr>) results in
      case py_reducer env (nj_data job) (map wr_data results) of
        Inl err \<Rightarrow> (NK_Break_Ok (NK_Error (''Failed to create reduce tasks: '' @ str_debug err) None),
          job\<lparr>nj_state := NK_Started stats taken tasks NK_Reducing\<rparr>)
      | Inr output \<Rightarrow> (NK_Break_Ok (NK_Completed output stats),
          job\<lparr>nj_state := NK_Started None taken tasks NK_Reducing\<rparr>))"

definition nk_process_job :: "nk_env \<Rightarrow> nk_manager \<Rightarrow> (nk_flow \<times> nk_output list \<times> nk_manager) option" where
  "nk_process_job env m =
     (case nk_current_job m of
        Some job \<Rightarrow>
          (case nj_state job of
             NK_NotStarted \<Rightarrow>
               if \<not> nk_ready m then Some (NK_Continue, [], m\<lparr>nk_need_process_job := False\<rparr>)
               else do {
                 (flow, out, job) \<leftarrow> nk_begin_job env job;
                 Some (flow, out, m\<lparr>nk_current_job := Some job\<rparr>)
               }
           | NK_Started stats results tasks (NK_Splitting splitter) \<Rightarrow>
               if \<not> nk_ready m then Some (NK_Continue, [], m\<lparr>nk_need_process_job := False\<rparr>)
               else do {
                 (flow, out, job) \<leftarrow> nk_split_job env job stats results tasks splitter;
                 Some (flow, out, m\<lparr>nk_current_job := Some job\<rparr>)
               }
           | NK_Started stats results tasks NK_WaitingTasksCompletions \<Rightarrow>
               if \<not> nk_ready m then Some (NK_Continue, [], m\<lparr>nk_need_process_job := False\<rparr>)
               else Some (NK_Continue, [], m\<lparr>nk_current_job := Some (nk_await_tasks job stats results tasks)\<rparr>)
           | NK_Started stats results tasks NK_Reducing \<Rightarrow>
               (let (flow, job) = nk_reduce_job env job stats results tasks in
                Some (flow, [], m\<lparr>nk_current_job := Some job\<rparr>))
           | NK_Finished _ \<Rightarrow> Some (NK_Continue, [], m))
      | None \<Rightarrow>
          (case nk_jobs_queue m of
             [] \<Rightarrow> Some (NK_Continue, [], m\<lparr>nk_need_process_job := False\<rparr>)
           | job # queue \<Rightarrow>
               Some (NK_Continue, [], m\<lparr>nk_jobs_queue := queue, nk_current_job := Some job, nk_need_process_job := True\<rparr>)))"

section \<open>The scheduler\<close>

text \<open>The loop over the results of a message: a result is kept when its task is open.\<close>

fun nk_take_results ::
  "nk_env \<Rightarrow> worker_result list \<Rightarrow> bit_set \<Rightarrow> worker_result list \<Rightarrow> (worker_result list \<times> bit_set) option" where
  "nk_take_results env results tasks [] = Some (results, tasks)"
| "nk_take_results env results tasks (r # rs) =
     do {
       (found, tasks) \<leftarrow> bsv_remove (nk_bits env) tasks (wr_id r);
       nk_take_results env (if found then results @ [r] else results) tasks rs
     }"

definition nk_receive_results ::
  "nk_env \<Rightarrow> nk_manager \<Rightarrow> worker_result list \<Rightarrow> job_stats option \<Rightarrow> (nk_flow \<times> nk_output list \<times> nk_manager) option" where
  "nk_receive_results env m rs new_stats =
     (case nk_current_job m of
        Some job \<Rightarrow>
          (case nj_state job of
             NK_Started stats results tasks phase \<Rightarrow>
               (let stats = (case new_stats of None \<Rightarrow> stats | Some _ \<Rightarrow> new_stats) in
                do {
                  (results, tasks) \<leftarrow> nk_take_results env results tasks rs;
                  Some (NK_Continue, [],
                    m\<lparr>nk_current_job := Some (job\<lparr>nj_state := NK_Started stats results tasks phase\<rparr>)\<rparr>)
                })
           | _ \<Rightarrow> Some (NK_Continue, [], m))
      | None \<Rightarrow> Some (NK_Continue, [], m))"

definition nk_restart_job :: "nk_manager \<Rightarrow> nk_manager" where
  "nk_restart_job m =
     (case nk_current_job m of
        Some job \<Rightarrow>
          (case nj_state job of
             NK_Started stats results tasks phase \<Rightarrow>
               (case phase of
                  NK_Reducing \<Rightarrow> m
                | _ \<Rightarrow> m\<lparr>nk_current_job := Some (job\<lparr>nj_state := NK_NotStarted\<rparr>)\<rparr>)
           | _ \<Rightarrow> m)
      | None \<Rightarrow> m)"

fun nk_process_scheduler ::
  "nk_env \<Rightarrow> nk_manager \<Rightarrow> tm_scheduler_event \<Rightarrow> (nk_flow \<times> nk_output list \<times> nk_manager) option" where
  "nk_process_scheduler env m (TS_Message (JobComplete left stats)) = nk_receive_results env m left (Some stats)"
| "nk_process_scheduler env m TS_Connected = Some (NK_Continue, [], m)"
| "nk_process_scheduler env m TS_Disconnected =
     Some (NK_Continue, [NO_Reconnect], nk_restart_job (m\<lparr>nk_ready := False\<rparr>))"
| "nk_process_scheduler env m (TS_Message (TaskResults rs)) = nk_receive_results env m rs None"
| "nk_process_scheduler env m (TS_Message SchedulerBusy) =
     Some (NK_Continue, [], nk_restart_job (m\<lparr>nk_ready := False\<rparr>))"
| "nk_process_scheduler env m (TS_Message SchedulerFree) =
     Some (NK_Continue, [], m\<lparr>nk_ready := True, nk_need_process_job := True\<rparr>)"
| "nk_process_scheduler env m (TS_Message (SP_TaskExecutionError error stats)) =
     Some (NK_Break_Ok (NK_Error error (Some stats)), [], m)"
| "nk_process_scheduler env m TS_ConnectionNotEstablished =
     Some (NK_Break_Err ''Failed to establish connection with scheduler'', [], m)"

section \<open>Commands\<close>

definition nk_job_stats :: "nk_job \<Rightarrow> job_stats option" where
  "nk_job_stats j = (case nj_state j of NK_Started stats _ _ _ \<Rightarrow> stats | _ \<Rightarrow> None)"

definition nk_cancel_queued :: "nk_manager \<Rightarrow> uuid \<Rightarrow> (nk_flow \<times> nk_output list \<times> nk_manager) option" where
  "nk_cancel_queued m uu =
     (case position (\<lambda>x. nj_id x = uu) (nk_jobs_queue m) of
        Some pos \<Rightarrow>
          Some (NK_Continue, [NO_Job (map_option nk_json_of_job (vec_get (nk_jobs_queue m) pos))],
            m\<lparr>nk_jobs_queue := take pos (nk_jobs_queue m) @ drop (Suc pos) (nk_jobs_queue m)\<rparr>)
      | None \<Rightarrow> Some (NK_Continue, [NO_Job None], m))"

fun nk_process_command :: "nk_manager \<Rightarrow> nk_command \<Rightarrow> (nk_flow \<times> nk_output list \<times> nk_manager) option" where
  "nk_process_command m (NK_AddJob data uu) =
     Some (NK_Continue, [NO_Uuid uu],
       m\<lparr>nk_jobs_queue := nk_jobs_queue m @ [\<lparr>nj_id = uu, nj_data = data, nj_state = NK_NotStarted\<rparr>],
         nk_need_process_job := True\<rparr>)"
| "nk_process_command m (NK_CancelJob uu) =
     (case nk_current_job m of
        Some job \<Rightarrow>
          if nj_id job = uu then
            Some (NK_Break_Ok (NK_Error ''Job has been cancelled'' (nk_job_stats job)), [NO_Job (Some (nk_json_of_job job))], m)
          else nk_cancel_queued m uu
      | None \<Rightarrow> nk_cancel_queued m uu)"
| "nk_process_command m NK_FinishedJobs = Some (NK_Continue, [NO_Jobs (map nk_json_of_job (nk_jobs_finished m))], m)"
| "nk_process_command m NK_QueuedJobs = Some (NK_Continue, [NO_Jobs (map nk_json_of_job (nk_jobs_finished m))], m)"
| "nk_process_command m NK_CurrentJob = Some (NK_Continue, [NO_Job (map_option nk_json_of_job (nk_current_job m))], m)"

section \<open>The event loop\<close>

datatype nk_event =
  NV_Scheduler tm_scheduler_event
  | NV_Command nk_command
  | NV_Job

fun nk_turn :: "nk_env \<Rightarrow> nk_manager \<Rightarrow> nk_event \<Rightarrow> (nk_flow \<times> nk_output list \<times> nk_manager) option" where
  "nk_turn env m (NV_Scheduler e) = nk_process_scheduler env m e"
| "nk_turn env m (NV_Command c) = nk_process_command m c"
| "nk_turn env m NV_Job = nk_process_job env m"

definition nk_finish_job :: "nk_manager \<Rightarrow> nk_result \<Rightarrow> nk_manager" where
  "nk_finish_job m result =
     (case nk_current_job m of
        Some job \<Rightarrow> m\<lparr>nk_current_job := None, nk_jobs_finished := nk_jobs_finished m @ [job\<lparr>nj_state := NK_Finished result\<rparr>]\<rparr>
      | None \<Rightarrow> m)"

definition nk_exec :: "nk_env \<Rightarrow> nk_manager \<Rightarrow> nk_event \<Rightarrow> (nk_output list \<times> nk_manager) option" where
  "nk_exec env m e =
     do {
       (flow, out, m) \<leftarrow> nk_turn env m e;
       case flow of
         NK_Continue \<Rightarrow> Some (out, m)
       | NK_Break_Ok result \<Rightarrow> Some (out, nk_finish_job m result)
       | NK_Break_Err _ \<Rightarrow> None
     }"

end
