(* ===== verification/Necklace_Runs.thy ===== *)
theory Necklace_Runs
  imports Necklace_Manager
begin

text \<open>
  The runs of the second task manager. \<open>work d i\<close> is what a worker computes for the task \<open>i\<close> of the job \<open>d\<close>; the
  messages carry no job, so that a result counts for the current one. The invariant says that the open tasks and
  the results of the current job together are the tasks the iterator has yielded, each once.
\<close>

declare split_paired_All [simp del] split_paired_Ex [simp del]

section \<open>The iterator\<close>

definition yields :: "py_iterator \<Rightarrow> nat \<Rightarrow> bool" where
  "yields it k \<longleftrightarrow> (\<forall>i < k. \<exists>x. it i = Some (Inr x))"

definition item :: "py_iterator \<Rightarrow> nat \<Rightarrow> bytes" where
  "item it i = (case it i of Some (Inr x) \<Rightarrow> x | _ \<Rightarrow> [])"

definition splitter_from :: "nat \<Rightarrow> py_iterator \<Rightarrow> nat \<Rightarrow> nk_splitter" where
  "splitter_from count it k = \<lparr>ns_total_tasks = count, ns_n = k, ns_iter = it, ns_pos = k\<rparr>"

abbreviation numbered :: "py_iterator \<Rightarrow> nat \<Rightarrow> string + usize \<times> bytes" where
  "numbered it i \<equiv> Inr (i, item it i)"

lemma yields_Suc: "yields it (Suc k) \<longleftrightarrow> yields it k \<and> (\<exists>x. it k = Some (Inr x))"
  by (auto simp: yields_def less_Suc_eq)

lemma yields_le: "yields it k \<Longrightarrow> it m = None \<Longrightarrow> k \<le> m"
  by (metis yields_def not_le option.distinct(1))

lemma next_chunk_total: "\<exists>c s'. next_chunk (\<lambda>s. Some (f s)) n s = Some (c, s')"
proof (induction n arbitrary: s)
  case (Suc n)
  obtain r s1 where "f s = (r, s1)" by (cases "f s")
  then show ?case using Suc[of s1] by (cases r) auto
qed simp

lemma nk_chunk_spec:
  assumes "it m = None" "m < 2 ^ 64" "yields it k"
  shows "\<exists>c s'. next_chunk (\<lambda>s. Some (nk_splitter_next s)) n (splitter_from count it k) = Some (c, s') \<and>
    ((\<exists>x \<in> set (case c of Inl b \<Rightarrow> b | Inr b \<Rightarrow> b). isl x) \<or>
     (\<exists>j. (case c of Inl b \<Rightarrow> b | Inr b \<Rightarrow> b) = map (numbered it) [k..<k + j] \<and> yields it (k + j) \<and>
        s' = splitter_from count it (k + j) \<and> (case c of Inl _ \<Rightarrow> it (k + j) = None \<and> j < n | Inr _ \<Rightarrow> j = n)))"
  using assms(3)
proof (induction n arbitrary: k)
  case 0
  then show ?case by (intro exI[of _ "Inr []"] exI[of _ "splitter_from count it k"]) simp
next
  case (Suc n)
  consider "it k = None" | e where "it k = Some (Inl e)" | x where "it k = Some (Inr x)"
    by (metis not_Some_eq sum.exhaust)
  then show ?case
  proof cases
    case 1
    then have "nk_splitter_next (splitter_from count it k) = (None, splitter_from count it k)"
      by (simp add: nk_splitter_next_def splitter_from_def)
    then show ?thesis using 1 Suc.prems
      by (intro exI[of _ "Inl []"] exI[of _ "splitter_from count it k"] conjI disjI2 exI[of _ 0]) simp_all
  next
    case 2
    then have s: "nk_splitter_next (splitter_from count it k) = (Some (Inl e), splitter_from count it k\<lparr>ns_pos := Suc k\<rparr>)"
      by (simp add: nk_splitter_next_def splitter_from_def)
    obtain c s' where c: "next_chunk (\<lambda>s. Some (nk_splitter_next s)) n (splitter_from count it k\<lparr>ns_pos := Suc k\<rparr>) = Some (c, s')"
      using next_chunk_total[of nk_splitter_next n "splitter_from count it k\<lparr>ns_pos := Suc k\<rparr>"] by blast
    show ?thesis
      by (intro exI[of _ "case c of Inl b \<Rightarrow> Inl (Inl e # b) | Inr b \<Rightarrow> Inr (Inl e # b)"] exI[of _ s'])
        (cases c; simp add: s c)
  next
    case 3
    then have y: "yields it (Suc k)" using Suc.prems by (simp add: yields_Suc)
    then have "usize_add k 1 = Suc k" using yields_le[OF y assms(1)] assms(2) usize_add_small[of k 1] by (simp add: usize_max_def)
    then have s: "nk_splitter_next (splitter_from count it k) = (Some (numbered it k), splitter_from count it (Suc k))"
      using 3 by (simp add: nk_splitter_next_def splitter_from_def item_def)
    obtain c s' where c: "next_chunk (\<lambda>s. Some (nk_splitter_next s)) n (splitter_from count it (Suc k)) = Some (c, s')"
      "(\<exists>x \<in> set (case c of Inl b \<Rightarrow> b | Inr b \<Rightarrow> b). isl x) \<or>
       (\<exists>j. (case c of Inl b \<Rightarrow> b | Inr b \<Rightarrow> b) = map (numbered it) [Suc k..<Suc k + j] \<and> yields it (Suc k + j) \<and>
          s' = splitter_from count it (Suc k + j) \<and> (case c of Inl _ \<Rightarrow> it (Suc k + j) = None \<and> j < n | Inr _ \<Rightarrow> j = n))"
      using Suc.IH[OF y] by blast
    let ?c = "case c of Inl b \<Rightarrow> Inl (numbered it k # b) | Inr b \<Rightarrow> Inr (numbered it k # b)"
    have all: "(case ?c of Inl b \<Rightarrow> b | Inr b \<Rightarrow> b) = numbered it k # (case c of Inl b \<Rightarrow> b | Inr b \<Rightarrow> b)"
      by (cases c) simp_all
    have nx: "next_chunk (\<lambda>s. Some (nk_splitter_next s)) (Suc n) (splitter_from count it k) = Some (?c, s')" by (simp add: s c(1))
    from c(2) show ?thesis
    proof (elim disjE exE conjE)
      assume "\<exists>x \<in> set (case c of Inl b \<Rightarrow> b | Inr b \<Rightarrow> b). isl x"
      then have "\<exists>x \<in> set (case ?c of Inl b \<Rightarrow> b | Inr b \<Rightarrow> b). isl x" unfolding all by simp
      then show ?thesis using nx by blast
    next
      fix j
      assume j: "(case c of Inl b \<Rightarrow> b | Inr b \<Rightarrow> b) = map (numbered it) [Suc k..<Suc k + j]" "yields it (Suc k + j)"
        "s' = splitter_from count it (Suc k + j)" "case c of Inl _ \<Rightarrow> it (Suc k + j) = None \<and> j < n | Inr _ \<Rightarrow> j = n"
      have "[k..<k + Suc j] = k # [Suc k..<Suc k + j]" using upt_conv_Cons[of k "k + Suc j"] by simp
      then show ?thesis using nx all j
        by (intro exI[of _ ?c] exI[of _ s'] conjI disjI2 exI[of _ "Suc j"]) (cases c; simp)+
    qed
  qed
qed

section \<open>Batches and results\<close>

definition nk_task :: "py_iterator \<Rightarrow> nat \<Rightarrow> worker_task" where
  "nk_task it i = \<lparr>wt_id = i, wt_data = item it i\<rparr>"

definition nk_collected ::
  "(bytes \<Rightarrow> nat \<Rightarrow> bytes) \<Rightarrow> bytes \<Rightarrow> worker_result list \<Rightarrow> bit_set \<Rightarrow> nat \<Rightarrow> bool" where
  "nk_collected work d results tasks k \<longleftrightarrow>
     bs_inv tasks \<and> distinct (map wr_id results) \<and> wr_id ` set results \<inter> bs_set tasks = {} \<and>
     wr_id ` set results \<union> bs_set tasks = {..<k} \<and> (\<forall>r \<in> set results. wr_data r = work d (wr_id r))"

definition honest :: "(bytes \<Rightarrow> nat \<Rightarrow> bytes) \<Rightarrow> bytes \<Rightarrow> worker_result \<Rightarrow> bool" where
  "honest work d r \<longleftrightarrow> wr_data r = work d (wr_id r)"

lemma empty_tasks: "bs_inv tasks \<Longrightarrow> bs_is_empty tasks \<longleftrightarrow> bs_set tasks = {}"
  by (simp add: bs_inv_def bs_is_empty_def)

context bitset_core_laws
begin

lemma nk_batch_total:
  assumes env: "nk_bits env = B"
  shows "bs_inv tasks \<Longrightarrow> \<exists>tasks' r. nk_batch env tasks b = Some (tasks', r) \<and> ((\<exists>x \<in> set b. isl x) \<longrightarrow> isl r)"
proof (induction b arbitrary: tasks)
  case (Cons x b)
  show ?case
  proof (cases x)
    case (Inr y)
    then obtain i dat where y: "x = Inr (i, dat)" by (cases y) simp
    obtain t where t: "bsv_insert B tasks i = Some (i \<notin> bs_set tasks, t)" "bs_inv t"
      using bsv_insert_spec[OF Cons.prems] by blast
    from Cons.IH[OF t(2)] obtain t' r where r: "nk_batch env t b = Some (t', r)" "(\<exists>x \<in> set b. isl x) \<longrightarrow> isl r" by blast
    then show ?thesis using t(1) by (cases r) (auto simp: y env)
  qed simp
qed simp

lemma nk_batch_sent:
  assumes env: "nk_bits env = B"
  shows "bs_inv tasks \<Longrightarrow> \<exists>tasks'. nk_batch env tasks (map (numbered it) is) = Some (tasks', Inr (map (nk_task it) is)) \<and>
    bs_inv tasks' \<and> bs_set tasks' = bs_set tasks \<union> set is"
proof (induction "is" arbitrary: tasks)
  case (Cons i js)
  obtain t where t: "bsv_insert B tasks i = Some (i \<notin> bs_set tasks, t)" "bs_inv t" "bs_set t = insert i (bs_set tasks)"
    using bsv_insert_spec[OF Cons.prems] by blast
  then show ?case using Cons.IH[OF t(2)] by (auto simp: env nk_task_def)
qed simp

text \<open>A result is kept exactly when its task is open.\<close>

lemma take_results_step:
  assumes "nk_bits env = B" "bs_inv tasks"
  shows "\<exists>t. nk_take_results env results tasks (r # rs) =
      nk_take_results env (if wr_id r \<in> bs_set tasks then results @ [r] else results) t rs \<and>
    bs_inv t \<and> bs_set t = bs_set tasks - {wr_id r}"
  using bsv_remove_spec[OF assms(2), of "wr_id r"] by (auto simp: assms(1))

lemma take_results_collected:
  assumes env: "nk_bits env = B"
  shows "nk_collected work d results tasks k \<Longrightarrow> list_all (honest work d) rs \<Longrightarrow>
    \<exists>results' tasks'. nk_take_results env results tasks rs = Some (results', tasks') \<and> nk_collected work d results' tasks' k \<and>
      bs_set tasks' \<subseteq> bs_set tasks"
proof (induction rs arbitrary: results tasks)
  case (Cons r rs)
  have inv: "bs_inv tasks" using Cons.prems(1) by (simp add: nk_collected_def)
  obtain t where t: "nk_take_results env results tasks (r # rs) =
      nk_take_results env (if wr_id r \<in> bs_set tasks then results @ [r] else results) t rs"
    "bs_inv t" "bs_set t = bs_set tasks - {wr_id r}" using take_results_step[OF env inv] by blast
  have "nk_collected work d (if wr_id r \<in> bs_set tasks then results @ [r] else results) t k"
    using Cons.prems t(2,3) by (auto simp: nk_collected_def honest_def)
  from Cons.IH[OF this] Cons.prems(2) t(1,3) show ?case by auto
qed simp

lemma take_results_all:
  assumes env: "nk_bits env = B"
  shows "bs_inv tasks \<Longrightarrow> distinct (map wr_id rs) \<Longrightarrow> wr_id ` set rs = bs_set tasks \<Longrightarrow>
    \<exists>tasks'. nk_take_results env results tasks rs = Some (results @ rs, tasks') \<and> bs_inv tasks' \<and> bs_set tasks' = {}"
proof (induction rs arbitrary: results tasks)
  case (Cons r rs)
  obtain t where t: "nk_take_results env results tasks (r # rs) =
      nk_take_results env (if wr_id r \<in> bs_set tasks then results @ [r] else results) t rs"
    "bs_inv t" "bs_set t = bs_set tasks - {wr_id r}" using take_results_step[OF env Cons.prems(1)] by blast
  have "bs_set tasks = insert (wr_id r) (wr_id ` set rs)" "wr_id r \<notin> wr_id ` set rs" using Cons.prems(2,3) by simp_all
  then have "wr_id r \<in> bs_set tasks" "wr_id ` set rs = bs_set t" by (simp_all add: t(3))
  then show ?case using Cons.IH[OF t(2), of "results @ [r]"] Cons.prems(2) t(1) by simp
qed simp

end

section \<open>The invariant\<close>

text \<open>The jobs for which the program works: their iterator ends, and the vector of results can be reserved.\<close>

definition nk_job_ok :: "nk_env \<Rightarrow> bytes \<Rightarrow> bool" where
  "nk_job_ok env d \<longleftrightarrow>
     (\<forall>count it. py_splitter env d = Inr (count, it) \<longrightarrow> nk_reserve env count \<and> (\<exists>m < 2 ^ 64. it m = None))"

definition splits_into :: "nk_env \<Rightarrow> bytes \<Rightarrow> nat \<Rightarrow> bool" where
  "splits_into env d n \<longleftrightarrow> (\<exists>count it. py_splitter env d = Inr (count, it) \<and> yields it n \<and> it n = None)"

fun nk_phase_ok ::
  "nk_env \<Rightarrow> (bytes \<Rightarrow> nat \<Rightarrow> bytes) \<Rightarrow> bytes \<Rightarrow> worker_result list \<Rightarrow> bit_set \<Rightarrow> nk_phase \<Rightarrow> bool" where
  "nk_phase_ok env work d results tasks (NK_Splitting s) \<longleftrightarrow>
     (\<exists>count it k. py_splitter env d = Inr (count, it) \<and> s = splitter_from count it k \<and> yields it k \<and>
        nk_collected work d results tasks k)"
| "nk_phase_ok env work d results tasks NK_WaitingTasksCompletions \<longleftrightarrow>
     (\<exists>n. splits_into env d n \<and> nk_collected work d results tasks n)"
| "nk_phase_ok env work d results tasks NK_Reducing \<longleftrightarrow>
     (\<exists>n. splits_into env d n \<and> nk_collected work d results tasks n) \<and> bs_set tasks = {}"

text \<open>A completed job was reduced from what was computed for each of its tasks, in some order.\<close>

definition reduced_from :: "nk_env \<Rightarrow> (bytes \<Rightarrow> nat \<Rightarrow> bytes) \<Rightarrow> bytes \<Rightarrow> string \<Rightarrow> bool" where
  "reduced_from env work d output \<longleftrightarrow>
     (\<exists>n order. splits_into env d n \<and> distinct order \<and> set order = {..<n} \<and>
        py_reducer env d (map (work d) order) = Inr output)"

definition nk_current_ok :: "nk_env \<Rightarrow> (bytes \<Rightarrow> nat \<Rightarrow> bytes) \<Rightarrow> nk_job \<Rightarrow> bool" where
  "nk_current_ok env work job \<longleftrightarrow> nk_job_ok env (nj_data job) \<and>
     (case nj_state job of
        NK_NotStarted \<Rightarrow> True
      | NK_Started stats results tasks phase \<Rightarrow> nk_phase_ok env work (nj_data job) results tasks phase
      | NK_Finished _ \<Rightarrow> False)"

definition nk_finished_ok :: "nk_env \<Rightarrow> (bytes \<Rightarrow> nat \<Rightarrow> bytes) \<Rightarrow> nk_job \<Rightarrow> bool" where
  "nk_finished_ok env work job \<longleftrightarrow>
     (\<forall>output stats. nj_state job = NK_Finished (NK_Completed output stats) \<longrightarrow> reduced_from env work (nj_data job) output)"

definition nk_inv :: "nk_env \<Rightarrow> (bytes \<Rightarrow> nat \<Rightarrow> bytes) \<Rightarrow> nk_manager \<Rightarrow> bool" where
  "nk_inv env work m \<longleftrightarrow>
     (\<forall>job \<in> set (nk_jobs_queue m). nk_job_ok env (nj_data job) \<and> nj_state job = NK_NotStarted) \<and>
     (\<forall>job. nk_current_job m = Some job \<longrightarrow> nk_current_ok env work job) \<and>
     (\<forall>job \<in> set (nk_jobs_finished m). nk_finished_ok env work job)"

definition nk_honest :: "(bytes \<Rightarrow> nat \<Rightarrow> bytes) \<Rightarrow> nk_manager \<Rightarrow> worker_result list \<Rightarrow> bool" where
  "nk_honest work m rs \<longleftrightarrow>
     (case nk_current_job m of None \<Rightarrow> True | Some job \<Rightarrow> list_all (honest work (nj_data job)) rs)"

fun nk_orderly :: "nk_env \<Rightarrow> (bytes \<Rightarrow> nat \<Rightarrow> bytes) \<Rightarrow> nk_manager \<Rightarrow> nk_event \<Rightarrow> bool" where
  "nk_orderly env work m (NV_Command (NK_AddJob data uu)) \<longleftrightarrow> nk_job_ok env data"
| "nk_orderly env work m (NV_Scheduler (TS_Message (TaskResults rs))) \<longleftrightarrow> nk_honest work m rs"
| "nk_orderly env work m (NV_Scheduler (TS_Message (JobComplete rs stats))) \<longleftrightarrow> nk_honest work m rs"
| "nk_orderly env work m (NV_Scheduler TS_ConnectionNotEstablished) \<longleftrightarrow> False"
| "nk_orderly env work m NV_Job \<longleftrightarrow> nk_need_process_job m"
| "nk_orderly env work m _ \<longleftrightarrow> True"

text \<open>What a handler may leave: a flow, and a current job that is in order when the loop goes on.\<close>

definition nk_flow_ok :: "nk_env \<Rightarrow> (bytes \<Rightarrow> nat \<Rightarrow> bytes) \<Rightarrow> bytes \<Rightarrow> nk_flow \<Rightarrow> bool" where
  "nk_flow_ok env work d flow \<longleftrightarrow>
     (case flow of
        NK_Continue \<Rightarrow> True
      | NK_Break_Ok (NK_Completed output _) \<Rightarrow> reduced_from env work d output
      | NK_Break_Ok (NK_Error _ _) \<Rightarrow> True
      | NK_Break_Err _ \<Rightarrow> False)"

definition nk_left :: "nk_env \<Rightarrow> (bytes \<Rightarrow> nat \<Rightarrow> bytes) \<Rightarrow> nk_flow \<Rightarrow> nk_job \<Rightarrow> bool" where
  "nk_left env work flow job \<longleftrightarrow>
     nk_flow_ok env work (nj_data job) flow \<and> (flow = NK_Continue \<longrightarrow> nk_current_ok env work job)"

definition nk_kept :: "nk_env \<Rightarrow> (bytes \<Rightarrow> nat \<Rightarrow> bytes) \<Rightarrow> nk_flow \<Rightarrow> nk_manager \<Rightarrow> bool" where
  "nk_kept env work flow m \<longleftrightarrow>
     nk_inv env work (m\<lparr>nk_current_job := None\<rparr>) \<and>
     (case nk_current_job m of
        Some job \<Rightarrow> nk_left env work flow job
      | None \<Rightarrow> nk_flow_ok env work [] flow)"

lemma nk_kept_current:
  "nk_inv env work m \<Longrightarrow> nk_left env work flow job \<Longrightarrow> nk_kept env work flow (m\<lparr>nk_current_job := Some job\<rparr>)"
  by (simp add: nk_kept_def nk_inv_def)

lemma nk_kept_continue: "nk_inv env work m \<Longrightarrow> nk_kept env work NK_Continue m"
  by (auto simp: nk_kept_def nk_inv_def nk_flow_ok_def nk_left_def split: option.splits)

lemma nk_kept_error: "nk_inv env work m \<Longrightarrow> nk_kept env work (NK_Break_Ok (NK_Error err stats)) m"
  by (auto simp: nk_kept_def nk_inv_def nk_flow_ok_def nk_left_def split: option.splits)

text \<open>What the loop does with the outcome.\<close>

lemma nk_kept_exec:
  assumes "nk_turn env m e = Some (flow, out, m1)" "nk_kept env work flow m1"
  shows "\<exists>m'. nk_exec env m e = Some (out, m') \<and> nk_inv env work m'"
  using assms
  by (auto simp: nk_exec_def nk_kept_def nk_inv_def nk_finish_job_def nk_flow_ok_def nk_left_def nk_finished_ok_def
      split: nk_flow.splits nk_result.splits option.splits)

section \<open>The handlers keep the invariant\<close>

lemma nk_collected_start: "nk_collected work d [] (bsv_with_capacity n) 0"
  by (simp add: nk_collected_def bsv_with_capacity_def bs_inv_def bs_set_def)

lemma nk_collected_more:
  assumes "nk_collected work d results tasks k" "bs_inv t" "bs_set t = bs_set tasks \<union> {k..<k + j}"
  shows "nk_collected work d results t (k + j)"
proof -
  have ids: "wr_id ` set results \<union> bs_set tasks = {..<k}" using assms(1) by (simp add: nk_collected_def)
  then have "wr_id ` set results \<subseteq> {..<k}" by blast
  then have "wr_id ` set results \<inter> {k..<k + j} = {}" by fastforce
  moreover have "{..<k} \<union> {k..<k + j} = {..<k + j}" by auto
  ultimately show ?thesis using assms ids by (simp add: nk_collected_def Int_Un_distrib flip: Un_assoc)
qed

lemma begin_kept:
  assumes "nk_job_ok env (nj_data job)"
  shows "\<exists>flow out job'. nk_begin_job env job = Some (flow, out, job') \<and> nk_left env work flow job'"
proof (cases "py_splitter env (nj_data job)")
  case (Inl err)
  then show ?thesis by (simp add: nk_begin_job_def nk_splitter_new_def nk_left_def nk_flow_ok_def)
next
  case (Inr p)
  obtain count it where p: "py_splitter env (nj_data job) = Inr (count, it)" using Inr by (cases p) simp
  then have "nk_reserve env count" using assms by (simp add: nk_job_ok_def)
  then have "nk_begin_job env job = Some (NK_Continue,
      [NO_Sched (SR_NewJob (nj_id job) count \<lparr>wj_args = nj_data job, wj_data = nk_job_code env\<rparr>)],
      job\<lparr>nj_state := NK_Started None [] (bsv_with_capacity (count mod 64 + 1)) (NK_Splitting (splitter_from count it 0))\<rparr>)"
    by (simp add: nk_begin_job_def nk_splitter_new_def p splitter_from_def)
  moreover have "yields it 0" by (simp add: yields_def)
  ultimately show ?thesis using p assms nk_collected_start
    by (auto simp: nk_left_def nk_flow_ok_def nk_current_ok_def)
qed

lemma reduce_kept:
  assumes "nk_phase_ok env work (nj_data job) results tasks NK_Reducing" "nk_reduce_job env job stats results tasks = (flow, job')"
  shows "nk_left env work flow job'"
proof -
  obtain n where n: "splits_into env (nj_data job) n" "nk_collected work (nj_data job) results tasks n" "bs_set tasks = {}"
    using assms(1) by auto
  have dat: "map (work (nj_data job) \<circ> wr_id) results = map wr_data results" using n(2) by (simp add: nk_collected_def)
  have "reduced_from env work (nj_data job) out" if "py_reducer env (nj_data job) (map wr_data results) = Inr out" for out
    unfolding reduced_from_def using n that
    by (intro exI[of _ n] exI[of _ "map wr_id results"]) (simp add: nk_collected_def dat)
  then show ?thesis using assms(2)
    by (auto simp: nk_reduce_job_def Let_def nk_left_def nk_flow_ok_def split: sum.splits)
qed

context bitset_core_laws
begin

lemma split_kept:
  assumes env: "nk_bits env = B" and ok: "nk_job_ok env (nj_data job)"
    and ph: "nk_phase_ok env work (nj_data job) results tasks (NK_Splitting s)"
  shows "\<exists>flow out job'. nk_split_job env job stats results tasks s = Some (flow, out, job') \<and> nk_left env work flow job'"
proof -
  obtain count it k where k: "py_splitter env (nj_data job) = Inr (count, it)" "s = splitter_from count it k" "yields it k"
    "nk_collected work (nj_data job) results tasks k" using ph by auto
  obtain m where m: "it m = None" "m < 2 ^ 64" using ok k(1) by (auto simp: nk_job_ok_def)
  let ?b = "\<lambda>c. case c of Inl b \<Rightarrow> b | Inr b \<Rightarrow> b"
  obtain c s' where c: "next_chunk (\<lambda>s. Some (nk_splitter_next s)) 128 s = Some (c, s')"
    "(\<exists>x \<in> set (?b c). isl x) \<or> (\<exists>j. ?b c = map (numbered it) [k..<k + j] \<and> yields it (k + j) \<and>
        s' = splitter_from count it (k + j) \<and> (case c of Inl _ \<Rightarrow> it (k + j) = None \<and> j < 128 | Inr _ \<Rightarrow> j = 128))"
    using nk_chunk_spec[OF m k(3), of 128 count] unfolding k(2) by blast
  have inv: "bs_inv tasks" using k(4) by (simp add: nk_collected_def)
  have run: "nk_split_job env job stats results tasks s = do {
      (tasks, r) \<leftarrow> nk_batch env tasks (?b c);
      case r of
        Inl err \<Rightarrow> Some (NK_Break_Ok (NK_Error err None), [], job\<lparr>nj_state := NK_Started stats results tasks (NK_Splitting s')\<rparr>)
      | Inr ws \<Rightarrow> Some (NK_Continue, [NO_Sched (SR_Task ws)], job\<lparr>nj_state := NK_Started stats results tasks
          (case c of Inl _ \<Rightarrow> NK_WaitingTasksCompletions | Inr _ \<Rightarrow> NK_Splitting s')\<rparr>) }"
  proof (cases c)
    case (Inl b)
    show ?thesis using c(1) unfolding Inl sum.case by (simp add: nk_split_job_def)
  next
    case (Inr b)
    show ?thesis using c(1) unfolding Inr sum.case by (simp add: nk_split_job_def)
  qed
  from c(2) show ?thesis
  proof (elim disjE exE conjE)
    assume bad: "\<exists>x \<in> set (?b c). isl x"
    obtain t r where "nk_batch env tasks (?b c) = Some (t, r)" "isl r" using nk_batch_total[OF env inv, of "?b c"] bad by blast
    then show ?thesis by (cases r) (simp_all add: run nk_left_def nk_flow_ok_def)
  next
    fix j
    assume j: "?b c = map (numbered it) [k..<k + j]" "yields it (k + j)" "s' = splitter_from count it (k + j)"
      "case c of Inl _ \<Rightarrow> it (k + j) = None \<and> j < 128 | Inr _ \<Rightarrow> j = 128"
    obtain t where t: "nk_batch env tasks (?b c) = Some (t, Inr (map (nk_task it) [k..<k + j]))" "bs_inv t"
      "bs_set t = bs_set tasks \<union> {k..<k + j}" using nk_batch_sent[OF env inv, of it "[k..<k + j]"] j(1) by auto
    have "nk_collected work (nj_data job) results t (k + j)"
      using nk_collected_more[OF k(4) t(2,3)] .
    then have "nk_phase_ok env work (nj_data job) results t
        (case c of Inl _ \<Rightarrow> NK_WaitingTasksCompletions | Inr _ \<Rightarrow> NK_Splitting s')"
      using k(1) j(2-4) by (cases c) (auto simp: splits_into_def)
    then show ?thesis using ok by (simp add: run t(1) nk_left_def nk_flow_ok_def nk_current_ok_def)
  qed
qed

lemma process_job_kept:
  assumes env: "nk_bits env = B" and inv: "nk_inv env work m"
  shows "\<exists>flow out m1. nk_process_job env m = Some (flow, out, m1) \<and> nk_kept env work flow m1"
proof (cases "nk_current_job m")
  case None
  then show ?thesis using inv
    by (cases "nk_jobs_queue m") (auto simp: nk_process_job_def nk_kept_def nk_inv_def nk_left_def nk_flow_ok_def nk_current_ok_def)
next
  case (Some job)
  have ok: "nk_current_ok env work job" and jok: "nk_job_ok env (nj_data job)"
    using inv Some by (auto simp: nk_inv_def nk_current_ok_def)
  have wait: "nk_kept env work NK_Continue (m\<lparr>nk_need_process_job := False\<rparr>)"
    using nk_kept_continue[OF inv] by (simp add: nk_kept_def nk_inv_def)
  note kept = nk_kept_current[OF inv]
  show ?thesis
  proof (cases "nj_state job")
    case NK_NotStarted
    then show ?thesis using begin_kept[OF jok, of work] wait kept by (auto simp: nk_process_job_def Some)
  next
    case (NK_Started stats results tasks phase)
    have ph: "nk_phase_ok env work (nj_data job) results tasks phase" using ok NK_Started by (simp add: nk_current_ok_def)
    show ?thesis
    proof (cases phase)
      case (NK_Splitting s)
      then show ?thesis using split_kept[OF env jok, of work results tasks s stats] ph wait kept
        by (auto simp: nk_process_job_def Some NK_Started)
    next
      case NK_WaitingTasksCompletions
      then have "nk_left env work NK_Continue (nk_await_tasks job stats results tasks)"
        using ph ok by (auto simp: nk_left_def nk_flow_ok_def nk_current_ok_def nk_await_tasks_def nk_collected_def empty_tasks)
      then show ?thesis using wait kept by (simp add: nk_process_job_def Some NK_Started NK_WaitingTasksCompletions)
    next
      case NK_Reducing
      obtain flow job' where r: "nk_reduce_job env job stats results tasks = (flow, job')" by fastforce
      then show ?thesis using reduce_kept[of env work job results tasks stats flow job'] ph kept
        by (simp add: nk_process_job_def Some NK_Started NK_Reducing)
    qed
  next
    case (NK_Finished r)
    then show ?thesis using ok by (simp add: nk_current_ok_def)
  qed
qed

lemma receive_kept:
  assumes env: "nk_bits env = B" and inv: "nk_inv env work m" and rs: "nk_honest work m rs"
  shows "\<exists>m1. nk_receive_results env m rs stats = Some (NK_Continue, [], m1) \<and> nk_kept env work NK_Continue m1"
proof (cases "\<exists>job st results tasks phase. nk_current_job m = Some job \<and> nj_state job = NK_Started st results tasks phase")
  case True
  then obtain job st results tasks phase where j: "nk_current_job m = Some job" "nj_state job = NK_Started st results tasks phase"
    by blast
  have ok: "nk_job_ok env (nj_data job)" "nk_phase_ok env work (nj_data job) results tasks phase"
    using inv j by (auto simp: nk_inv_def nk_current_ok_def)
  have h: "list_all (honest work (nj_data job)) rs" using rs j by (simp add: nk_honest_def)
  obtain k where k: "nk_collected work (nj_data job) results tasks k" using ok(2) by (cases phase) auto
  obtain results' tasks' where r: "nk_take_results env results tasks rs = Some (results', tasks')" "bs_set tasks' \<subseteq> bs_set tasks"
    "\<And>k. nk_collected work (nj_data job) results tasks k \<Longrightarrow> nk_collected work (nj_data job) results' tasks' k"
    using take_results_collected[OF env _ h, of results tasks] k by (metis option.inject prod.inject)
  then have "nk_phase_ok env work (nj_data job) results' tasks' phase" using ok(2) by (cases phase) fastforce+
  then show ?thesis using r(1) j ok(1) nk_kept_current[OF inv]
    by (simp add: nk_receive_results_def Let_def nk_left_def nk_flow_ok_def nk_current_ok_def)
next
  case False
  then have "nk_receive_results env m rs stats = Some (NK_Continue, [], m)"
    by (auto simp: nk_receive_results_def split: option.splits nk_state.splits)
  then show ?thesis using nk_kept_continue[OF inv] by simp
qed

end

lemma restart_inv: "nk_inv env work m \<Longrightarrow> nk_inv env work (nk_restart_job (m\<lparr>nk_ready := False\<rparr>))"
  by (auto simp: nk_restart_job_def nk_inv_def nk_current_ok_def split: option.splits nk_state.splits nk_phase.splits)

lemma cancel_queued_kept:
  assumes "nk_inv env work m"
  shows "\<exists>out m1. nk_cancel_queued m uu = Some (NK_Continue, out, m1) \<and> nk_kept env work NK_Continue m1"
proof -
  have "nk_inv env work (m\<lparr>nk_jobs_queue := take pos (nk_jobs_queue m) @ drop (Suc pos) (nk_jobs_queue m)\<rparr>)" for pos
    using assms by (auto simp: nk_inv_def dest: in_set_takeD in_set_dropD)
  then show ?thesis using nk_kept_continue assms by (auto simp: nk_cancel_queued_def split: option.splits)
qed

context bitset_core_laws
begin

lemma turn_kept:
  assumes env: "nk_bits env = B" and inv: "nk_inv env work m" and ev: "nk_orderly env work m e"
  shows "\<exists>flow out m1. nk_turn env m e = Some (flow, out, m1) \<and> nk_kept env work flow m1"
proof (cases e)
  case (NV_Scheduler se)
  note keep = nk_kept_continue[OF inv] nk_kept_error[OF inv] nk_kept_continue[OF restart_inv[OF inv]]
  have free: "nk_inv env work (m\<lparr>nk_ready := True, nk_need_process_job := True\<rparr>)" using inv by (simp add: nk_inv_def)
  show ?thesis
  proof (cases se)
    case (TS_Message r)
    then show ?thesis using ev keep nk_kept_continue[OF free] receive_kept[OF env inv]
      by (cases r) (auto simp: NV_Scheduler, blast+)
  qed (use ev keep in \<open>auto simp: NV_Scheduler\<close>)
next
  case (NV_Command c)
  note keep = nk_kept_continue[OF inv] nk_kept_error[OF inv] cancel_queued_kept[OF inv]
  show ?thesis
  proof (cases c)
    case (NK_AddJob data uu)
    have "nk_inv env work (m\<lparr>nk_jobs_queue := nk_jobs_queue m @ [\<lparr>nj_id = uu, nj_data = data, nj_state = NK_NotStarted\<rparr>],
         nk_need_process_job := True\<rparr>)" using inv ev by (auto simp: nk_inv_def NV_Command NK_AddJob)
    from nk_kept_continue[OF this] show ?thesis by (simp add: NV_Command NK_AddJob)
  next
    case (NK_CancelJob uu)
    then show ?thesis using keep by (auto simp: NV_Command split: option.splits, blast+)
  qed (use keep in \<open>auto simp: NV_Command\<close>)
next
  case NV_Job
  then show ?thesis using process_job_kept[OF env inv] by simp
qed

lemma nk_event_loop:
  assumes env: "nk_bits env = B"
  shows "event_loop nk_manager_new (nk_orderly env work) (nk_exec env) (nk_inv env work)"
proof
  show "nk_inv env work nk_manager_new" by (simp add: nk_inv_def nk_manager_new_def)
  fix m e
  assume "nk_inv env work m" "nk_orderly env work m e"
  then obtain flow out m1 where "nk_turn env m e = Some (flow, out, m1)" "nk_kept env work flow m1"
    using turn_kept[OF env] by blast
  then show "\<exists>out m'. nk_exec env m e = Some (out, m') \<and> nk_inv env work m'" using nk_kept_exec by blast
qed

end

section \<open>A job is served\<close>

definition nk_enabled :: "nk_manager \<Rightarrow> nk_event \<Rightarrow> bool" where
  "nk_enabled m e \<longleftrightarrow> (e = NV_Job \<longrightarrow> nk_need_process_job m)"

abbreviation nk_events :: "nk_env \<Rightarrow> nk_manager \<Rightarrow> nk_event list \<Rightarrow> (nk_output list \<times> nk_manager) option" where
  "nk_events env \<equiv> exec_events nk_enabled (nk_exec env)"

text \<open>How a job with the results \<open>rs\<close> ends.\<close>

definition nk_outcome :: "nk_env \<Rightarrow> bytes \<Rightarrow> worker_result list \<Rightarrow> nk_result" where
  "nk_outcome env d rs =
     (case py_reducer env d (map wr_data rs) of
        Inl err \<Rightarrow> NK_Error (''Failed to create reduce tasks: '' @ str_debug err) None
      | Inr out \<Rightarrow> NK_Completed out None)"

lemma begin_exec:
  assumes "nk_ready m" "nk_current_job m = Some job" "nj_state job = NK_NotStarted"
    and "py_splitter env (nj_data job) = Inr (count, it)" "nk_reserve env count"
  shows "nk_exec env m NV_Job =
    Some ([NO_Sched (SR_NewJob (nj_id job) count \<lparr>wj_args = nj_data job, wj_data = nk_job_code env\<rparr>)],
      m\<lparr>nk_current_job := Some (job\<lparr>nj_state := NK_Started None [] (bsv_with_capacity (count mod 64 + 1))
        (NK_Splitting (splitter_from count it 0))\<rparr>)\<rparr>)"
  using assms by (simp add: nk_exec_def nk_process_job_def nk_begin_job_def nk_splitter_new_def splitter_from_def)

text \<open>A chunk of an iterator that yields \<open>n\<close> tasks and ends.\<close>

lemma nk_chunk_good:
  assumes "yields it n" "it n = None" "n < 2 ^ 64" "k \<le> n"
  shows "next_chunk (\<lambda>s. Some (nk_splitter_next s)) c (splitter_from count it k) =
    Some (if k + c \<le> n then (Inr (map (numbered it) [k..<k + c]), splitter_from count it (k + c))
      else (Inl (map (numbered it) [k..<n]), splitter_from count it n))"
  using assms(4)
proof (induction c arbitrary: k)
  case (Suc c)
  show ?case
  proof (cases "k = n")
    case True
    then show ?thesis using assms(2) by (simp add: nk_splitter_next_def splitter_from_def)
  next
    case False
    then have k: "k < n" using Suc.prems by simp
    then obtain x where "it k = Some (Inr x)" using assms(1) by (auto simp: yields_def)
    moreover have "usize_add k 1 = Suc k" using k assms(3) usize_add_small[of k 1] by (simp add: usize_max_def)
    ultimately have "nk_splitter_next (splitter_from count it k) = (Some (numbered it k), splitter_from count it (Suc k))"
      by (simp add: nk_splitter_next_def splitter_from_def item_def)
    then show ?thesis using Suc.IH[of "Suc k"] k upt_conv_Cons[of k n] upt_conv_Cons[of k "k + Suc c"]
      by (simp del: upt_Suc)
  qed
qed simp

context bitset_core_laws
begin

lemma split_exec:
  assumes env: "nk_bits env = B" and m: "nk_ready m" "nk_current_job m = Some job"
    and job: "nj_state job = NK_Started stats results tasks (NK_Splitting (splitter_from count it k))"
    and it: "yields it n" "it n = None" "n < 2 ^ 64" "k \<le> n" and tasks: "bs_inv tasks" "bs_set tasks = {..<k}"
  shows "\<exists>t. nk_exec env m NV_Job = Some ([NO_Sched (SR_Task (map (nk_task it) [k..<min (k + 128) n]))],
      m\<lparr>nk_current_job := Some (job\<lparr>nj_state := NK_Started stats results t
        (if k + 128 \<le> n then NK_Splitting (splitter_from count it (k + 128)) else NK_WaitingTasksCompletions)\<rparr>)\<rparr>) \<and>
    bs_inv t \<and> bs_set t = {..<min (k + 128) n}"
proof -
  obtain t where t: "nk_batch env tasks (map (numbered it) [k..<min (k + 128) n]) =
      Some (t, Inr (map (nk_task it) [k..<min (k + 128) n]))" "bs_inv t" "bs_set t = {..<k} \<union> {k..<min (k + 128) n}"
    using nk_batch_sent[OF env tasks(1), of it "[k..<min (k + 128) n]"] tasks(2) by auto
  have "{..<k} \<union> {k..<min (k + 128) n} = {..<min (k + 128) n}" using it(4) by auto
  then show ?thesis using t m job nk_chunk_good[OF it, of 128 count]
    by (cases "k + 128 \<le> n") (auto simp: nk_exec_def nk_process_job_def nk_split_job_def min_def)
qed

lemma split_run:
  assumes env: "nk_bits env = B" and it: "yields it n" "it n = None" "n < 2 ^ 64"
  shows "nk_ready m \<Longrightarrow> nk_need_process_job m \<Longrightarrow> nk_current_job m = Some job \<Longrightarrow>
    nj_state job = NK_Started stats results tasks (NK_Splitting (splitter_from count it k)) \<Longrightarrow> k \<le> n \<Longrightarrow>
    bs_inv tasks \<Longrightarrow> bs_set tasks = {..<k} \<Longrightarrow>
    \<exists>batches t. nk_events env m (replicate (Suc ((n - k) div 128)) NV_Job) =
        Some (map (\<lambda>b. NO_Sched (SR_Task b)) batches,
          m\<lparr>nk_current_job := Some (job\<lparr>nj_state := NK_Started stats results t NK_WaitingTasksCompletions\<rparr>)\<rparr>) \<and>
      concat batches = map (nk_task it) [k..<n] \<and> bs_inv t \<and> bs_set t = {..<n}"
proof (induction "(n - k) div 128" arbitrary: k m job tasks)
  case 0
  have "\<not> k + 128 \<le> n" using 0(1,6) by (auto simp: div_eq_0_iff)
  then obtain t where t: "nk_exec env m NV_Job = Some ([NO_Sched (SR_Task (map (nk_task it) [k..<n]))],
      m\<lparr>nk_current_job := Some (job\<lparr>nj_state := NK_Started stats results t NK_WaitingTasksCompletions\<rparr>)\<rparr>)"
    "bs_inv t" "bs_set t = {..<n}" using split_exec[OF env 0(2,4,5) it 0(6-8)] by (auto simp: min_def)
  show ?case unfolding 0(1)[symmetric] using t 0(3)
    by (intro exI[of _ "[map (nk_task it) [k..<n]]"] exI[of _ t]) (simp add: nk_enabled_def)
next
  case (Suc q)
  have "128 \<le> n - k" using Suc(2) by (metis Zero_not_Suc div_less not_le)
  then have k: "k + 128 \<le> n" "q = (n - (k + 128)) div 128" using Suc(2) le_div_geq[of 128 "n - k"] by auto
  let ?job = "\<lambda>t. job\<lparr>nj_state := NK_Started stats results t (NK_Splitting (splitter_from count it (k + 128)))\<rparr>"
  obtain t where t: "nk_exec env m NV_Job = Some ([NO_Sched (SR_Task (map (nk_task it) [k..<k + 128]))],
      m\<lparr>nk_current_job := Some (?job t)\<rparr>)" "bs_inv t" "bs_set t = {..<k + 128}"
    using split_exec[OF env Suc(3,5,6) it Suc(7-9)] k(1) by (auto simp: min_def)
  obtain batches t' where r: "nk_events env (m\<lparr>nk_current_job := Some (?job t)\<rparr>) (replicate (Suc ((n - (k + 128)) div 128)) NV_Job) =
      Some (map (\<lambda>b. NO_Sched (SR_Task b)) batches,
        m\<lparr>nk_current_job := Some (job\<lparr>nj_state := NK_Started stats results t' NK_WaitingTasksCompletions\<rparr>)\<rparr>)"
    "concat batches = map (nk_task it) [k + 128..<n]" "bs_inv t'" "bs_set t' = {..<n}"
    using Suc(1)[OF k(2), of "m\<lparr>nk_current_job := Some (?job t)\<rparr>" "?job t" t] Suc(3,4) k(1) t(2,3) by auto
  have "[k..<n] = [k..<k + 128] @ [k + 128..<n]" using k(1) by (metis le_add1 upt_add_eq_append le_add_diff_inverse)
  then show ?case using r t(1) Suc(4) unfolding Suc(2)[symmetric] k(2)
    by (intro exI[of _ "map (nk_task it) [k..<k + 128] # batches"] exI[of _ t']) (simp add: nk_enabled_def)
qed

lemma collect_run:
  assumes env: "nk_bits env = B" and m: "nk_ready m" "nk_need_process_job m" "nk_current_job m = Some job"
    and job: "nj_state job = NK_Started None [] tasks NK_WaitingTasksCompletions" "bs_inv tasks" "bs_set tasks = {..<n}"
    and rs: "distinct (map wr_id rs)" "wr_id ` set rs = {..<n}"
  shows "nk_events env m [NV_Scheduler (TS_Message (TaskResults rs)), NV_Job, NV_Job] =
    Some ([], m\<lparr>nk_current_job := None,
      nk_jobs_finished := nk_jobs_finished m @ [job\<lparr>nj_state := NK_Finished (nk_outcome env (nj_data job) rs)\<rparr>]\<rparr>)"
proof -
  obtain t where t: "nk_take_results env [] tasks rs = Some (rs, t)" "bs_inv t" "bs_set t = {}"
    using take_results_all[OF env job(2) rs(1), of "[]"] rs(2) job(3) by auto
  then have e: "bs_is_empty t" by (simp add: empty_tasks)
  show ?thesis using m job t(1) e
    by (simp add: nk_enabled_def nk_exec_def nk_receive_results_def nk_process_job_def nk_await_tasks_def
        nk_reduce_job_def Let_def nk_outcome_def nk_finish_job_def split: sum.splits)
qed

end

section \<open>An instance\<close>

text \<open>Two tasks for every job; the reducer spells the first bytes of the results.\<close>

definition spelling_env :: nk_env where
  "spelling_env =
     \<lparr>py_splitter = (\<lambda>d. if d = [] then Inl ''empty'' else Inr (2, \<lambda>i. if i < 2 then Some (Inr (of_nat i # d)) else None)),
      py_reducer = (\<lambda>d rs. Inr (map (\<lambda>r. char_of (unat (hd r))) rs)),
      nk_job_code = [], nk_bits = words_core, nk_reserve = (\<lambda>_. True)\<rparr>"

definition spelled :: "bytes \<Rightarrow> nat \<Rightarrow> bytes" where
  "spelled d i = [hd d + of_nat i]"

definition spelled_result :: "bytes \<Rightarrow> nat \<Rightarrow> worker_result" where
  "spelled_result d i = \<lparr>wr_id = i, wr_execution_time = 0, wr_data = spelled d i\<rparr>"

lemma spelling_job_ok: "nk_job_ok spelling_env d"
  by (auto simp: nk_job_ok_def spelling_env_def intro!: exI[of _ 2])

interpretation spelling: event_loop nk_manager_new "nk_orderly spelling_env spelled" "nk_exec spelling_env" "nk_inv spelling_env spelled"
  by (rule words.nk_event_loop) (simp add: spelling_env_def)

text \<open>Runs of this instance, with an executable condition on the events.\<close>

fun spelling_ok :: "nk_manager \<Rightarrow> nk_event \<Rightarrow> bool" where
  "spelling_ok m (NV_Scheduler (TS_Message (TaskResults rs))) \<longleftrightarrow> nk_honest spelled m rs"
| "spelling_ok m (NV_Scheduler (TS_Message (JobComplete rs stats))) \<longleftrightarrow> nk_honest spelled m rs"
| "spelling_ok m (NV_Scheduler TS_ConnectionNotEstablished) \<longleftrightarrow> False"
| "spelling_ok m NV_Job \<longleftrightarrow> nk_need_process_job m"
| "spelling_ok m _ \<longleftrightarrow> True"

lemma spelling_command_ok: "nk_orderly spelling_env spelled m (NV_Command c)"
  by (cases c) (simp_all add: spelling_job_ok)

lemma spelling_ok_orderly: "spelling_ok m e \<Longrightarrow> nk_orderly spelling_env spelled m e"
  by (induction m e rule: spelling_ok.induct) (simp_all add: spelling_command_ok)

text \<open>The view of a job that has not started or is finished shows all of it.\<close>

lemma nk_json_finished:
  "nk_json_of_job j = \<lparr>nx_id = u, nx_data = d, nx_state = NJ_Completed r\<rparr> \<longleftrightarrow> j = \<lparr>nj_id = u, nj_data = d, nj_state = NK_Finished r\<rparr>"
  by (cases j) (auto simp: nk_json_of_job_def split: nk_state.splits)

lemma nk_json_not_started:
  "nk_json_of_job j = \<lparr>nx_id = u, nx_data = d, nx_state = NJ_NotStarted\<rparr> \<longleftrightarrow> j = \<lparr>nj_id = u, nj_data = d, nj_state = NK_NotStarted\<rparr>"
  by (cases j) (auto simp: nk_json_of_job_def split: nk_state.splits)

lemma exec_events_weaken:
  "(\<And>s e. ok s e \<Longrightarrow> ok' s e) \<Longrightarrow> exec_events ok exec s es = Some r \<Longrightarrow> exec_events ok' exec s es = Some r"
proof (induction es arbitrary: s r)
  case (Cons e es)
  then show ?case by (auto split: if_splits bind_splits)
qed simp

definition spelling_after :: "nk_event list \<Rightarrow> nk_manager" where
  "spelling_after es = (case exec_events spelling_ok (nk_exec spelling_env) nk_manager_new es of Some (_, m) \<Rightarrow> m | None \<Rightarrow> nk_manager_new)"

lemma spelling_after_run:
  assumes "\<not> Option.is_none (exec_events spelling_ok (nk_exec spelling_env) nk_manager_new es)"
  shows "\<exists>outs. event_run (nk_orderly spelling_env spelled) (nk_exec spelling_env) nk_manager_new es outs (spelling_after es)"
proof -
  obtain outs m where "exec_events spelling_ok (nk_exec spelling_env) nk_manager_new es = Some (outs, m)"
    using assms by (auto simp: Option.is_none_def)
  moreover from exec_events_weaken[OF spelling_ok_orderly this]
  have "exec_events (nk_orderly spelling_env spelled) (nk_exec spelling_env) nk_manager_new es = Some (outs, m)" .
  ultimately show ?thesis using exec_events_run[OF run_init, of "nk_orderly spelling_env spelled" "nk_exec spelling_env" nk_manager_new es outs m]
    by (auto simp: spelling_after_def)
qed

lemma spelling_laws: "bitset_core_laws (nk_bits spelling_env)"
  by (simp add: spelling_env_def words.bitset_core_laws_axioms)

definition spelling_start :: "nk_event list" where
  "spelling_start = [NV_Command (NK_AddJob [65] 1), NV_Scheduler (TS_Message SchedulerFree), NV_Job]"

definition spelling_work :: "nk_event list" where
  "spelling_work = spelling_start @ [NV_Job, NV_Job,
     NV_Scheduler (TS_Message (TaskResults [spelled_result [65] 1, spelled_result [65] 1, spelled_result [65] 0])), NV_Job, NV_Job]"

section \<open>Properties\<close>

text \<open>C28. The second task manager handles every event (it does not panic) as long as the jobs have splitters that end, results are what the
  workers compute for the current job and the connection is established; and a job that it reports as completed has been reduced from
  exactly one result for each task that its splitter yields, whatever the order and the number of times in which results came,
  through cancellations, reconnections and restarts.\<close>

theorem necklace_manager_safe:
  assumes "bitset_core_laws (nk_bits env)"
    and "event_run (nk_orderly env work) (nk_exec env) nk_manager_new es outs m"
  shows "(\<forall>e. nk_orderly env work m e \<longrightarrow> nk_exec env m e \<noteq> None) \<and>
    (\<forall>job \<in> set (nk_jobs_finished m). \<forall>out stats.
       nj_state job = NK_Finished (NK_Completed out stats) \<longrightarrow>
       (\<exists>count it n order. py_splitter env (nj_data job) = Inr (count, it) \<and>
          (\<forall>i < n. \<exists>x. it i = Some (Inr x)) \<and> it n = None \<and> distinct order \<and> set order = {..<n} \<and>
          py_reducer env (nj_data job) (map (work (nj_data job)) order) = Inr out))"
proof -
  note loop = bitset_core_laws.nk_event_loop[OF assms(1) refl, of work]
  have "nk_exec env m e \<noteq> None" if "nk_orderly env work m e" for e
    using event_loop.handled[OF loop assms(2) that] by auto
  moreover have "nk_inv env work m" by (rule event_loop.run_inv[OF loop assms(2)])
  then have "\<forall>job \<in> set (nk_jobs_finished m). nk_finished_ok env work job" by (simp add: nk_inv_def)
  ultimately show ?thesis unfolding nk_finished_ok_def reduced_from_def splits_into_def yields_def by blast
qed

theorem necklace_manager_safe_witness:
  "\<exists>job \<in> set (nk_jobs_finished (spelling_after spelling_work)). \<exists>order.
     nj_state job = NK_Finished (NK_Completed ''BA'' None) \<and> distinct order \<and> set order = {..<2} \<and>
     map (\<lambda>r. char_of (unat (hd r))) (map (spelled [65]) order) = ''BA''"
proof -
  have "\<exists>outs. event_run (nk_orderly spelling_env spelled) (nk_exec spelling_env) nk_manager_new spelling_work outs (spelling_after spelling_work)"
    by (rule spelling_after_run) code_simp
  then obtain outs where run: "event_run (nk_orderly spelling_env spelled) (nk_exec spelling_env) nk_manager_new spelling_work outs
    (spelling_after spelling_work)" ..
  have "map nk_json_of_job (nk_jobs_finished (spelling_after spelling_work)) =
    [\<lparr>nx_id = 1, nx_data = [65], nx_state = NJ_Completed (NK_Completed ''BA'' None)\<rparr>]" by code_simp
  then have fin: "nk_jobs_finished (spelling_after spelling_work) =
    [\<lparr>nj_id = 1, nj_data = [65], nj_state = NK_Finished (NK_Completed ''BA'' None)\<rparr>]" by (auto simp: nk_json_finished)
  let ?job = "\<lparr>nj_id = 1, nj_data = [65], nj_state = NK_Finished (NK_Completed ''BA'' None)\<rparr>"
  have job: "?job \<in> set (nk_jobs_finished (spelling_after spelling_work))" by (simp add: fin)
  have st: "nj_state ?job = NK_Finished (NK_Completed ''BA'' None)" by simp
  obtain count it n order where
    o: "py_splitter spelling_env [65] = Inr (count, it)" "\<forall>i < n. \<exists>x. it i = Some (Inr x)" "it n = None" "distinct order"
      "set order = {..<n}" "py_reducer spelling_env [65] (map (spelled [65]) order) = Inr ''BA''"
    using conjunct2[OF necklace_manager_safe[OF spelling_laws run], rule_format, OF job st] unfolding nk_job.simps by blast
  have it: "it = (\<lambda>i. if i < 2 then Some (Inr [of_nat i, 65]) else None)" using o(1) by (simp add: spelling_env_def)
  have "\<not> n < 2" using o(3) by (simp add: it split: if_splits)
  moreover have "\<not> 2 < n" using o(2) by (auto simp: it)
  ultimately have "n = 2" by simp
  then have "distinct order" "set order = {..<2}" "map (\<lambda>r. char_of (unat (hd r))) (map (spelled [65]) order) = ''BA''"
    using o(4-6) by (simp_all add: spelling_env_def)
  then show ?thesis using st by (intro bexI[OF _ job] exI[of _ order] conjI)
qed

text \<open>C29. The second task manager serves a job: when the scheduler is ready and the splitter of the job yields \<open>n\<close> tasks and ends, the turns
  of its loop send the job and then its tasks, each once and in order, in batches; when the results of all tasks have come,
  two more turns finish the job with what the reducer makes of the results, and it is the next job's turn.\<close>

theorem necklace_job_served:
  assumes "bitset_core_laws (nk_bits env)"
    and "nk_ready m" "nk_need_process_job m" "nk_current_job m = Some job" "nj_state job = NK_NotStarted"
    and "py_splitter env (nj_data job) = Inr (count, it)" "nk_reserve env count"
    and "\<forall>i < n. \<exists>x. it i = Some (Inr x)" "it n = None" "n < 2 ^ 64"
  shows "\<exists>batches m1. exec_events nk_enabled (nk_exec env) m (replicate (n div 128 + 2) NV_Job) =
      Some (NO_Sched (SR_NewJob (nj_id job) count \<lparr>wj_args = nj_data job, wj_data = nk_job_code env\<rparr>) #
          map (\<lambda>b. NO_Sched (SR_Task b)) batches, m1) \<and>
    map wt_id (concat batches) = [0..<n] \<and> (\<forall>i < n. it i = Some (Inr (wt_data (concat batches ! i)))) \<and>
    (\<forall>rs. distinct (map wr_id rs) \<and> wr_id ` set rs = {..<n} \<longrightarrow>
       (\<exists>m2. exec_events nk_enabled (nk_exec env) m1 [NV_Scheduler (TS_Message (TaskResults rs)), NV_Job, NV_Job] = Some ([], m2) \<and>
          nk_current_job m2 = None \<and> nk_jobs_queue m2 = nk_jobs_queue m \<and>
          nk_jobs_finished m2 = nk_jobs_finished m @ [job\<lparr>nj_state := NK_Finished
            (case py_reducer env (nj_data job) (map wr_data rs) of
               Inl err \<Rightarrow> NK_Error (''Failed to create reduce tasks: '' @ str_debug err) None
             | Inr out \<Rightarrow> NK_Completed out None)\<rparr>]))"
proof -
  have it: "yields it n" using assms(8) by (simp add: yields_def)
  let ?job = "\<lambda>t p. job\<lparr>nj_state := NK_Started None [] t p\<rparr>"
  let ?t0 = "bsv_with_capacity (count mod 64 + 1)" and ?s0 = "NK_Splitting (splitter_from count it 0)"
  have t0: "bs_inv ?t0" "bs_set ?t0 = {..<0}" using nk_collected_start[of undefined undefined "count mod 64 + 1"]
    by (simp_all add: nk_collected_def)
  obtain batches t where r: "nk_events env (m\<lparr>nk_current_job := Some (?job ?t0 ?s0)\<rparr>) (replicate (Suc (n div 128)) NV_Job) =
      Some (map (\<lambda>b. NO_Sched (SR_Task b)) batches, m\<lparr>nk_current_job := Some (?job t NK_WaitingTasksCompletions)\<rparr>)"
    "concat batches = map (nk_task it) [0..<n]" "bs_inv t" "bs_set t = {..<n}"
    using bitset_core_laws.split_run[OF assms(1) refl it assms(9,10), of "m\<lparr>nk_current_job := Some (?job ?t0 ?s0)\<rparr>" "?job ?t0 ?s0"
        None "[]" ?t0 count 0] assms(2,3) t0 by auto
  have "nk_events env m (replicate (n div 128 + 2) NV_Job) =
      Some (NO_Sched (SR_NewJob (nj_id job) count \<lparr>wj_args = nj_data job, wj_data = nk_job_code env\<rparr>) #
          map (\<lambda>b. NO_Sched (SR_Task b)) batches, m\<lparr>nk_current_job := Some (?job t NK_WaitingTasksCompletions)\<rparr>)"
    using begin_exec[OF assms(2,4-7)] r(1) assms(3) by (simp add: nk_enabled_def)
  moreover have "map wt_id (concat batches) = [0..<n]" by (simp add: r(2) nk_task_def o_def)
  moreover have "it i = Some (Inr (wt_data (concat batches ! i)))" if "i < n" for i
    using assms(8) that by (fastforce simp: r(2) nk_task_def item_def)
  moreover have "\<exists>m2. nk_events env (m\<lparr>nk_current_job := Some (?job t NK_WaitingTasksCompletions)\<rparr>)
      [NV_Scheduler (TS_Message (TaskResults rs)), NV_Job, NV_Job] = Some ([], m2) \<and>
      nk_current_job m2 = None \<and> nk_jobs_queue m2 = nk_jobs_queue m \<and>
      nk_jobs_finished m2 = nk_jobs_finished m @ [job\<lparr>nj_state := NK_Finished
        (case py_reducer env (nj_data job) (map wr_data rs) of
           Inl err \<Rightarrow> NK_Error (''Failed to create reduce tasks: '' @ str_debug err) None
         | Inr out \<Rightarrow> NK_Completed out None)\<rparr>]"
    if "distinct (map wr_id rs)" "wr_id ` set rs = {..<n}" for rs
    using bitset_core_laws.collect_run[OF assms(1) refl, of "m\<lparr>nk_current_job := Some (?job t NK_WaitingTasksCompletions)\<rparr>"
        "?job t NK_WaitingTasksCompletions" t n rs] assms(2,3) r(3,4) that by (simp add: nk_outcome_def del: exec_events.simps)
  ultimately show ?thesis by blast
qed

theorem necklace_job_served_witness:
  "\<exists>batches m1 m2. exec_events nk_enabled (nk_exec spelling_env) (spelling_after spelling_start) (replicate 2 NV_Job) =
      Some (NO_Sched (SR_NewJob 1 2 \<lparr>wj_args = [65], wj_data = []\<rparr>) # map (\<lambda>b. NO_Sched (SR_Task b)) batches, m1) \<and>
    map wt_id (concat batches) = [0, 1] \<and>
    exec_events nk_enabled (nk_exec spelling_env) m1
      [NV_Scheduler (TS_Message (TaskResults [spelled_result [65] 1, spelled_result [65] 0])), NV_Job, NV_Job] = Some ([], m2) \<and>
    nk_jobs_finished m2 = [\<lparr>nj_id = 1, nj_data = [65], nj_state = NK_Finished (NK_Completed ''BA'' None)\<rparr>]"
proof -
  let ?m = "spelling_after spelling_start" and ?job = "\<lparr>nj_id = 1, nj_data = [65], nj_state = NK_NotStarted\<rparr>"
  let ?it = "\<lambda>i. if i < 2 then Some (Inr [of_nat i, 65]) else None" and ?rs = "[spelled_result [65] 1, spelled_result [65] 0]"
  have m: "nk_ready ?m" "nk_need_process_job ?m" by code_simp+
  have "map_option nk_json_of_job (nk_current_job ?m) = Some \<lparr>nx_id = 1, nx_data = [65], nx_state = NJ_NotStarted\<rparr>"
    "length (nk_jobs_finished ?m) = 0" by code_simp+
  then have cur: "nk_current_job ?m = Some ?job" "nk_jobs_finished ?m = []" by (simp_all add: nk_json_not_started)
  have st: "nj_state ?job = NK_NotStarted" by simp
  have sp: "py_splitter spelling_env (nj_data ?job) = Inr (2, ?it)" "nk_reserve spelling_env 2" by (simp_all add: spelling_env_def)
  have it: "\<forall>i < 2. \<exists>x. ?it i = Some (Inr x)" "?it 2 = None" "(2 :: nat) < 2 ^ 64" by simp_all
  have rs: "distinct (map wr_id ?rs)" "wr_id ` set ?rs = {..<2}" by (auto simp: spelled_result_def)
  have red: "py_reducer spelling_env [65] (map wr_data ?rs) = Inr ''BA''" by code_simp
  have n: "2 div 128 + 2 = (2 :: nat)" "[0..<2] = [0, 1 :: nat]" "nk_job_code spelling_env = []"
    by (simp_all add: upt_rec spelling_env_def)
  from necklace_job_served[OF spelling_laws m cur(1) st sp it, unfolded nk_job.simps n cur(2) append_Nil]
  obtain batches m1 where b: "exec_events nk_enabled (nk_exec spelling_env) ?m (replicate 2 NV_Job) =
      Some (NO_Sched (SR_NewJob 1 2 \<lparr>wj_args = [65], wj_data = []\<rparr>) # map (\<lambda>b. NO_Sched (SR_Task b)) batches, m1)"
    "map wt_id (concat batches) = [0, 1]"
    "\<forall>rs. distinct (map wr_id rs) \<and> wr_id ` set rs = {..<2} \<longrightarrow>
       (\<exists>m2. exec_events nk_enabled (nk_exec spelling_env) m1 [NV_Scheduler (TS_Message (TaskResults rs)), NV_Job, NV_Job] = Some ([], m2) \<and>
          nk_current_job m2 = None \<and> nk_jobs_queue m2 = nk_jobs_queue ?m \<and>
          nk_jobs_finished m2 = [\<lparr>nj_id = 1, nj_data = [65], nj_state = NK_Finished
            (case py_reducer spelling_env [65] (map wr_data rs) of
               Inl err \<Rightarrow> NK_Error (''Failed to create reduce tasks: '' @ str_debug err) None
             | Inr out \<Rightarrow> NK_Completed out None)\<rparr>])" by (elim exE conjE) (rule that, assumption+)
  obtain m2 where m2: "exec_events nk_enabled (nk_exec spelling_env) m1 [NV_Scheduler (TS_Message (TaskResults ?rs)), NV_Job, NV_Job] = Some ([], m2)"
    "nk_jobs_finished m2 = [\<lparr>nj_id = 1, nj_data = [65], nj_state = NK_Finished (NK_Completed ''BA'' None)\<rparr>]"
    using b(3)[rule_format, OF conjI[OF rs], unfolded red sum.case] by (elim exE conjE) (rule that, assumption+)
  show ?thesis using b(1,2) m2 by (intro exI[of _ batches] exI[of _ m1] exI[of _ m2] conjI)
qed

text \<open>The messages carry no job: results of a cancelled job that are under way when the next one has been sent are taken for its
  own. Here the second job would give \<open>KL\<close>, and completes with \<open>AB\<close>.\<close>

lemma necklace_stale_results:
  "map nk_json_of_job (nk_jobs_finished (case exec_events nk_enabled (nk_exec spelling_env) nk_manager_new
     [NV_Command (NK_AddJob [65] 1), NV_Command (NK_AddJob [75] 2), NV_Scheduler (TS_Message SchedulerFree), NV_Job, NV_Job, NV_Job,
      NV_Command (NK_CancelJob 1), NV_Job, NV_Job, NV_Job,
      NV_Scheduler (TS_Message (TaskResults [spelled_result [65] 0, spelled_result [65] 1])), NV_Job, NV_Job] of
       Some (_, m) \<Rightarrow> m | None \<Rightarrow> nk_manager_new)) =
   [\<lparr>nx_id = 1, nx_data = [65], nx_state = NJ_Completed (NK_Error ''Job has been cancelled'' None)\<rparr>,
    \<lparr>nx_id = 2, nx_data = [75], nx_state = NJ_Completed (NK_Completed ''AB'' None)\<rparr>] \<and>
   map (\<lambda>r. char_of (unat (hd r))) [spelled [75] 0, spelled [75] 1] = ''KL''"
  by (intro conjI; code_simp)

end
