(* ===== verification/Certificates.thy ===== *)
theory Certificates
  imports Node_Manager Bincode_Format
begin

text \<open>
  How a process tells the node manager what it is: the certificates that nodes and schedulers generate for themselves
  (\<open>endpoint_config/certificate_provider.rs\<close> of \<open>node\<close> and \<open>scheduler\<close>) and what \<open>node_manager/src/connection.rs\<close> reads from the
  certificate of an incoming connection.

  The crates \<open>rcgen\<close>, which issues a certificate for given parameters, and \<open>x509_parser\<close>, which reads it at the other
  end, are the argument \<open>R\<close>: a certificate is what the reader finds in it. The locale \<open>issued_certificates\<close> states that the reader finds what
  the parameters say. The text of a \<open>Uuid\<close> and \<open>bincode\<close> are arguments as well. Signatures are not modelled.
\<close>

section \<open>Certificates\<close>

type_synonym oid = "nat list"

definition subworkers_oid :: oid where
  "subworkers_oid = [2, 5, 29, 100]"

definition platform_oid :: oid where
  "platform_oid = [2, 5, 29, 101]"

definition service_type_oid :: oid where
  "service_type_oid = [2, 5, 29, 102]"

datatype san = DnsName string | OtherName string

record 'd certificate_params =
  custom_extensions :: "(oid \<times> bytes) list"
  distinguished_name :: 'd
  subject_alt_names :: "san list"

text \<open>A certificate as it is read: a common name may fail to be a string.\<close>

record certificate =
  extensions :: "(oid \<times> bytes) list"
  common_names :: "string option list"
  general_names :: "san list"

record 'd rcgen =
  rc_default :: "'d certificate_params"
  rc_push_name :: "'d \<Rightarrow> string \<Rightarrow> 'd"
  rc_issue :: "'d certificate_params \<Rightarrow> string + certificate"

record uuid_text =
  uuid_to_string :: "uuid \<Rightarrow> string"
  uuid_from_str :: "string \<Rightarrow> uuid option"

definition find_extension :: "certificate \<Rightarrow> oid \<Rightarrow> bytes option" where
  "find_extension c oi = map_of (extensions c) oi"

section \<open>Generating\<close>

definition push_extension :: "oid \<Rightarrow> bytes \<Rightarrow> 'd certificate_params \<Rightarrow> 'd certificate_params" where
  "push_extension oi content p = p\<lparr>custom_extensions := custom_extensions p @ [(oi, content)]\<rparr>"

definition push_identity ::
  "'d rcgen \<Rightarrow> uuid_text \<Rightarrow> uuid \<Rightarrow> string option \<Rightarrow> 'd certificate_params \<Rightarrow> 'd certificate_params" where
  "push_identity R U uuid client_name p =
     (let p = p\<lparr>distinguished_name := rc_push_name R (distinguished_name p) (uuid_to_string U uuid)\<rparr> in
      case client_name of
        Some name \<Rightarrow> p\<lparr>subject_alt_names := subject_alt_names p @ [DnsName name]\<rparr>
      | None \<Rightarrow> p)"

text \<open>The parallelism that the system reports, if it does, and the new identifier are arguments; \<open>None\<close> is a panic.\<close>

definition node_certificate ::
  "'d rcgen \<Rightarrow> uuid_text \<Rightarrow> platform bincode \<Rightarrow> service_type bincode \<Rightarrow> usize option \<Rightarrow> uuid \<Rightarrow> string option \<Rightarrow> platform \<Rightarrow>
   (string + certificate) option" where
  "node_certificate R U BP BS parallelism uuid client_name platform =
     (case (bc_encode BP platform, bc_encode BS ST_Node) of
        (Inr pl, Inr st) \<Rightarrow>
          (let p = push_extension platform_oid pl (rc_default R);
               p = push_extension subworkers_oid (to_be_bytes 8 (case parallelism of Some n \<Rightarrow> n | None \<Rightarrow> 1)) p;
               p = push_extension service_type_oid st p
           in Some (rc_issue R (push_identity R U uuid client_name p)))
      | _ \<Rightarrow> None)"

definition scheduler_certificate ::
  "'d rcgen \<Rightarrow> uuid_text \<Rightarrow> service_type bincode \<Rightarrow> uuid \<Rightarrow> string option \<Rightarrow> (string + certificate) option" where
  "scheduler_certificate R U BS uuid client_name =
     (case bc_encode BS ST_Scheduler of
        Inr st \<Rightarrow> Some (rc_issue R (push_identity R U uuid client_name (push_extension service_type_oid st (rc_default R))))
      | Inl _ \<Rightarrow> None)"

section \<open>Reading\<close>

text \<open>The iterator chains \<open>map(..).flatten().next()\<close> give the first element for which the function succeeds.\<close>

fun first_some :: "('a \<Rightarrow> 'b option) \<Rightarrow> 'a list \<Rightarrow> 'b option" where
  "first_some f [] = None"
| "first_some f (x # xs) = (case f x of Some y \<Rightarrow> Some y | None \<Rightarrow> first_some f xs)"

definition parse_service_type :: "service_type bincode \<Rightarrow> certificate \<Rightarrow> service_type option" where
  "parse_service_type BS c =
     do { value \<leftarrow> find_extension c service_type_oid; case bc_decode BS value of Inr st \<Rightarrow> Some st | Inl _ \<Rightarrow> None }"

definition parse_uuid :: "uuid_text \<Rightarrow> certificate \<Rightarrow> uuid option" where
  "parse_uuid U c = first_some (\<lambda>name. do { s \<leftarrow> name; uuid_from_str U s }) (common_names c)"

definition parse_name :: "certificate \<Rightarrow> string option" where
  "parse_name c = first_some (\<lambda>n. case n of DnsName s \<Rightarrow> Some s | OtherName _ \<Rightarrow> None) (general_names c)"

definition parse_node ::
  "uuid_text \<Rightarrow> platform bincode \<Rightarrow> certificate \<Rightarrow> string + (uuid \<times> platform \<times> usize \<times> string option)" where
  "parse_node U BP c =
     (let subworkers = (case find_extension c subworkers_oid of
            Some value \<Rightarrow> if length value = 8 then from_be_bytes value else 1
          | None \<Rightarrow> 1);
          platform = do { value \<leftarrow> find_extension c platform_oid; case bc_decode BP value of Inr p \<Rightarrow> Some p | Inl _ \<Rightarrow> None }
      in case platform of
           None \<Rightarrow> Inl ''NotFound''
         | Some platform \<Rightarrow>
             (case parse_uuid U c of
                None \<Rightarrow> Inl ''NotFound''
              | Some uuid \<Rightarrow> Inr (uuid, platform, subworkers, parse_name c)))"

definition parse_scheduler :: "uuid_text \<Rightarrow> certificate \<Rightarrow> string + (uuid \<times> string option)" where
  "parse_scheduler U c = (case parse_uuid U c of None \<Rightarrow> Inl ''NotFound'' | Some uuid \<Rightarrow> Inr (uuid, parse_name c))"

text \<open>\<open>handle_connection\<close> up to the event that announces the peer, for the first certificate of the peer, if it has
  one that can be read.\<close>

datatype announced =
  Node_Announced uuid "string option" platform usize
  | Scheduler_Announced uuid "string option"

definition announce ::
  "uuid_text \<Rightarrow> platform bincode \<Rightarrow> service_type bincode \<Rightarrow> (string + certificate) option \<Rightarrow> string + announced" where
  "announce U BP BS peer_identity =
     (case peer_identity of
        None \<Rightarrow> Inl ''PermissionDenied''
      | Some (Inl err) \<Rightarrow> Inl ''InvalidData''
      | Some (Inr c) \<Rightarrow>
          (case parse_service_type BS c of
             Some ST_Node \<Rightarrow>
               (case parse_node U BP c of
                  Inl err \<Rightarrow> Inl err
                | Inr (uuid, platform, subworkers, name) \<Rightarrow> Inr (Node_Announced uuid name platform subworkers))
           | Some ST_Scheduler \<Rightarrow>
               (case parse_scheduler U c of
                  Inl err \<Rightarrow> Inl err
                | Inr (uuid, name) \<Rightarrow> Inr (Scheduler_Announced uuid name))
           | _ \<Rightarrow> Inl ''Unsupported''))"

section \<open>What the crates promise\<close>

locale issued_certificates =
  fixes R :: "'d rcgen" and U :: uuid_text and BP :: "platform bincode" and BS :: "service_type bincode"
    and names :: "'d \<Rightarrow> string list"
  assumes default_params: "custom_extensions (rc_default R) = []" "subject_alt_names (rc_default R) = []"
    and push_name: "names (rc_push_name R d s) = [s]"
    and issue_extensions: "rc_issue R p = Inr c \<Longrightarrow> distinct (map fst (custom_extensions p)) \<Longrightarrow>
      (oi, content) \<in> set (custom_extensions p) \<Longrightarrow> map_of (extensions c) oi = Some content"
    and issue_names: "rc_issue R p = Inr c \<Longrightarrow> common_names c = map Some (names (distinguished_name p))"
      "rc_issue R p = Inr c \<Longrightarrow> general_names c = subject_alt_names p"
    and uuid_text: "uuid_from_str U (uuid_to_string U u) = Some u"
    and platform_code: "bc_encode BP pl = Inr bs \<Longrightarrow> bc_decode BP bs = Inr pl"
    and service_code: "bc_encode BS st = Inr bs \<Longrightarrow> bc_decode BS bs = Inr st"
begin

lemma identity_read:
  assumes "rc_issue R (push_identity R U uuid name p) = Inr c" "subject_alt_names p = []"
  shows "parse_uuid U c = Some uuid" "parse_name c = name"
  using issue_names[OF assms(1)] assms(2)
  by (auto simp: parse_uuid_def parse_name_def push_identity_def Let_def push_name uuid_text split: option.splits)

lemma push_identity_extensions [simp]: "custom_extensions (push_identity R U uuid name p) = custom_extensions p"
  by (simp add: push_identity_def Let_def split: option.splits)

lemma push_extension_fields [simp]:
  "custom_extensions (push_extension oi content p) = custom_extensions p @ [(oi, content)]"
  "subject_alt_names (push_extension oi content p) = subject_alt_names p"
  by (simp_all add: push_extension_def)

lemma oids_distinct [simp]:
  "platform_oid \<noteq> subworkers_oid" "subworkers_oid \<noteq> platform_oid" "platform_oid \<noteq> service_type_oid"
  "service_type_oid \<noteq> platform_oid" "subworkers_oid \<noteq> service_type_oid" "service_type_oid \<noteq> subworkers_oid"
  by (simp_all add: platform_oid_def subworkers_oid_def service_type_oid_def)

lemma node_announced:
  assumes gen: "node_certificate R U BP BS parallelism uuid name platform = Some (Inr c)"
    and n: "\<And>n. parallelism = Some n \<Longrightarrow> n < 2 ^ 64"
  shows "announce U BP BS (Some (Inr c)) =
    Inr (Node_Announced uuid name platform (case parallelism of Some n \<Rightarrow> n | None \<Rightarrow> 1))"
proof -
  let ?n = "case parallelism of Some n \<Rightarrow> n | None \<Rightarrow> 1"
  obtain pl st where e: "bc_encode BP platform = Inr pl" "bc_encode BS ST_Node = Inr st"
    using gen by (auto simp: node_certificate_def split: sum.splits)
  let ?p = "push_extension service_type_oid st (push_extension subworkers_oid (to_be_bytes 8 ?n)
      (push_extension platform_oid pl (rc_default R)))"
  have iss: "rc_issue R (push_identity R U uuid name ?p) = Inr c"
    using gen by (simp add: node_certificate_def e Let_def)
  have "find_extension c platform_oid = Some pl" "find_extension c subworkers_oid = Some (to_be_bytes 8 ?n)"
    "find_extension c service_type_oid = Some st"
    using issue_extensions[OF iss] by (simp_all add: find_extension_def default_params)
  moreover have "from_be_bytes (to_be_bytes 8 ?n) = ?n"
    using n by (intro be_bytes_roundtrip) (simp split: option.splits)
  ultimately show ?thesis using identity_read[OF iss] platform_code[OF e(1)] service_code[OF e(2)]
    by (simp add: announce_def parse_service_type_def parse_node_def default_params)
qed

lemma scheduler_announced:
  assumes gen: "scheduler_certificate R U BS uuid name = Some (Inr c)"
  shows "announce U BP BS (Some (Inr c)) = Inr (Scheduler_Announced uuid name)"
proof -
  obtain st where e: "bc_encode BS ST_Scheduler = Inr st"
    using gen by (auto simp: scheduler_certificate_def split: sum.splits)
  have iss: "rc_issue R (push_identity R U uuid name (push_extension service_type_oid st (rc_default R))) = Inr c"
    using gen by (simp add: scheduler_certificate_def e)
  have "find_extension c service_type_oid = Some st"
    using issue_extensions[OF iss] by (simp add: find_extension_def default_params)
  then show ?thesis using identity_read[OF iss] service_code[OF e]
    by (simp add: announce_def parse_service_type_def parse_scheduler_def default_params)
qed

end

section \<open>An instance\<close>

text \<open>An enumeration is encoded as the number of its variant.\<close>

definition serde_enum :: "'a list \<Rightarrow> 'a serde" where
  "serde_enum xs =
     \<lparr>ser = (\<lambda>x. do { i \<leftarrow> position ((=) x) xs; varint i }),
      de = (\<lambda>bs. do { (i, bs) \<leftarrow> parse_varint bs; x \<leftarrow> vec_get xs i; Some (x, bs) })\<rparr>"

definition serde_platform :: "platform serde" where
  "serde_platform =
     serde_conv (\<lambda>p. (p_arch p, p_family p, p_os p)) (\<lambda>(a, f, s). Platform a f s)
       (serde_pair
         (serde_enum [Wasm32, X86, X86_64, Arm, Aarch64, Loongarch64, M68k, Csky, Mips, Mips64, Powerpc, Powerpc64,
            Riscv64, S390x, Sparc64, Arch_Unknown])
         (serde_pair (serde_enum [Unix, Family_Windows, Family_Unknown])
           (serde_enum [Linux, Macos, Ios, Freebsd, Dragonfly, Netbsd, Openbsd, Solaris, Android, Os_Windows, Os_Unknown])))"

definition serde_service_type :: "service_type serde" where
  "serde_service_type = serde_enum [ST_Node, ST_NodeManager, ST_Scheduler, ST_TaskManager]"

lemma serde_enum_ok: "serde_ok (serde_enum xs)"
proof -
  have get: "vec_get xs i = Some x" if "position ((=) x) xs = Some i" for x i
    using that by (auto simp: vec_get_def position_Some_iff)
  have "de (serde_enum xs) (bs @ rest) = Some (x, rest)" if "ser (serde_enum xs) x = Some bs" for x bs rest
  proof (cases "position ((=) x) xs")
    case (Some i)
    then show ?thesis using that by (simp add: serde_enum_def parse_varint get[OF Some])
  qed (use that in \<open>simp add: serde_enum_def\<close>)
  then show ?thesis by (simp add: serde_ok_def)
qed

lemma serde_platform_ok: "serde_ok serde_platform"
  unfolding serde_platform_def by (intro serde_conv_ok serde_pair_ok serde_enum_ok) simp

text \<open>Names as lists; a certificate shows its parameters.\<close>

definition plain_rcgen :: "string list rcgen" where
  "plain_rcgen =
     \<lparr>rc_default = \<lparr>custom_extensions = [], distinguished_name = [''self signed''], subject_alt_names = []\<rparr>,
      rc_push_name = (\<lambda>_ s. [s]),
      rc_issue = (\<lambda>p. Inr \<lparr>extensions = custom_extensions p, common_names = map Some (distinguished_name p),
        general_names = subject_alt_names p\<rparr>)\<rparr>"

definition plain_uuid :: uuid_text where
  "plain_uuid =
     \<lparr>uuid_to_string = (\<lambda>u. map (\<lambda>b. char_of (unat b)) (to_be_bytes 16 (unat u))),
      uuid_from_str = (\<lambda>s. if length s = 16 then Some (of_nat (from_be_bytes (map (\<lambda>c. of_nat (of_char c)) s))) else None)\<rparr>"

interpretation plain: issued_certificates plain_rcgen plain_uuid "bincode_of serde_platform" "bincode_of serde_service_type" "\<lambda>d. d"
proof unfold_locales
  fix u :: uuid
  have "unat b < 256" for b :: "8 word" using unsigned_less[of b] by simp
  then have "unat b mod 256 = unat b" for b :: "8 word" by simp
  then have chars: "map (\<lambda>b :: 8 word. of_nat (unat b mod 256)) bs = bs" for bs by (simp add: map_idI)
  have "unat u < 256 ^ 16" using unsigned_less[of u] by simp
  then show "uuid_from_str plain_uuid (uuid_to_string plain_uuid u) = Some u"
    by (simp add: plain_uuid_def o_def chars be_bytes_roundtrip)
qed (auto simp: plain_rcgen_def bincode_of_encode bincode_of_decode serde_platform_ok serde_enum_ok serde_service_type_def)

section \<open>Properties\<close>

text \<open>C12. The node manager learns from a certificate what its owner has put into it: the connection of a node is announced with the node's
  identifier, name, platform and number of executors, one when the system did not tell it, and the connection of a scheduler
  with its identifier and name.\<close>

theorem certificate_announced:
  assumes "issued_certificates R U BP BS names"
    and "\<forall>n. parallelism = Some n \<longrightarrow> n < 2 ^ 64"
  shows "(node_certificate R U BP BS parallelism uuid name platform = Some (Inr c) \<longrightarrow>
      announce U BP BS (Some (Inr c)) =
        Inr (Node_Announced uuid name platform (case parallelism of Some n \<Rightarrow> n | None \<Rightarrow> 1))) \<and>
    (scheduler_certificate R U BS uuid name = Some (Inr c) \<longrightarrow>
      announce U BP BS (Some (Inr c)) = Inr (Scheduler_Announced uuid name))"
  using issued_certificates.node_announced[OF assms(1)] issued_certificates.scheduler_announced[OF assms(1)] assms(2) by blast

theorem certificate_announced_witness:
  "\<exists>c. node_certificate plain_rcgen plain_uuid (bincode_of serde_platform) (bincode_of serde_service_type) (Some 12) 5 (Some ''n'')
      (Platform X86_64 Unix Linux) = Some (Inr c) \<and>
    announce plain_uuid (bincode_of serde_platform) (bincode_of serde_service_type) (Some (Inr c)) =
      Inr (Node_Announced 5 (Some ''n'') (Platform X86_64 Unix Linux) 12)"
proof -
  have "\<exists>c. node_certificate plain_rcgen plain_uuid (bincode_of serde_platform) (bincode_of serde_service_type) (Some 12) 5 (Some ''n'')
      (Platform X86_64 Unix Linux) = Some (Inr c)"
    by (simp add: node_certificate_def plain_rcgen_def bincode_of_def serde_platform_def serde_service_type_def serde_conv_def
        serde_pair_def serde_enum_def varint_def Let_def)
  then obtain c where c: "node_certificate plain_rcgen plain_uuid (bincode_of serde_platform) (bincode_of serde_service_type) (Some 12) 5
      (Some ''n'') (Platform X86_64 Unix Linux) = Some (Inr c)" ..
  have n: "\<forall>n. Some 12 = Some n \<longrightarrow> n < (2 :: nat) ^ 64" by simp
  from conjunct1[OF certificate_announced[OF plain.issued_certificates_axioms n], rule_format, OF c] c show ?thesis by auto
qed

end
