(* ===== verification/Scheduler_Connections.thy ===== *)
theory Scheduler_Connections
  imports Scheduler Event_Loops "HOL-Library.Sublist"
begin

text \<open>
  The connections of task managers to a scheduler, \<open>scheduler/src/connection.rs\<close>: every connection is a task of its own. The
  channels to and from the scheduler are behind one lock; the connection that holds it is the task manager the scheduler
  works for, the others wait and are told that the scheduler is busy.

  The tasks are steps on a common state: connections are numbers, \<open>addr\<close> gives their remote addresses. An accepted connection first has its
  handshake and its stream to wait for (\<open>tq_opening\<close>); then its task polls the requests and the lock in an arbitrary order, so that requests may be
  answered before the lock has been asked for (\<open>tq_polling\<close>); from the first poll of the lock it is in the lock's queue (\<open>tq_waiting\<close>). The lock of \<open>tokio\<close> is handed
  over in the order in which it was asked for, as documented. That a connection whose turn has come gets the lock is a step of its own, since its task
  has to be polled again; until then requests are still answered. The combinator
  \<open>forward\<close> passes a stream on to a sink: it returns at the first error, and at the end of the stream it closes the sink, and a \<open>PollSender\<close>
  that is closed takes nothing more, as documented. Whether a write to a peer succeeds is part of the event. The token that would end
  all the tasks (\<open>TQ_Cancel\<close>) is never cancelled by the scheduler; its effect is one step here. An event that a task sends to the scheduler is shown with the
  task's connection; \<open>TQ_Reply\<close> is what a task tells its peer itself, \<open>TQ_Response\<close> what it forwards.
\<close>

declare split_paired_All [simp del] split_paired_Ex [simp del]

section \<open>The tasks\<close>

record tm_queue =
  tq_accepting :: bool
  tq_sink_open :: bool
  tq_accepted :: "nat list"
  tq_opening :: "nat list"
  tq_polling :: "nat list"
  tq_waiting :: "nat list"
  tq_holder :: "nat option"
  tq_responses :: "scheduler_response list"

datatype tq_output =
  TQ_Event nat task_manager_event
  | TQ_Reply nat scheduler_response
  | TQ_Response nat scheduler_response

text \<open>\<open>TQ_Open c ok\<close>: the handshake and the stream of a connection succeed or fail. \<open>TQ_Ask c\<close>: the lock is polled for the first time.
  \<open>TQ_Request_End c eof taken\<close>: the requests of a peer end in order (\<open>eof\<close>), or fail; \<open>taken\<close> says whether a response has been taken from the channel and
  not been written. \<open>TQ_Respond\<close> is the scheduler that sends.\<close>

datatype tq_event =
  TQ_Accept nat
  | TQ_Open nat bool
  | TQ_Ask nat
  | TQ_Seize bool
  | TQ_Request nat scheduler_request bool
  | TQ_Request_End nat bool bool
  | TQ_Respond scheduler_response
  | TQ_Forward bool
  | TQ_Cancel

definition tq_start :: tm_queue where
  "tq_start = \<lparr>tq_accepting = True, tq_sink_open = True, tq_accepted = [], tq_opening = [], tq_polling = [],
     tq_waiting = [], tq_holder = None, tq_responses = []\<rparr>"

definition accept_connection :: "tm_queue \<Rightarrow> nat \<Rightarrow> tm_queue" where
  "accept_connection q c = q\<lparr>tq_accepted := tq_accepted q @ [c], tq_opening := tq_opening q @ [c]\<rparr>"

definition open_connection :: "tm_queue \<Rightarrow> nat \<Rightarrow> bool \<Rightarrow> tm_queue" where
  "open_connection q c ok =
     q\<lparr>tq_opening := filter (\<lambda>w. w \<noteq> c) (tq_opening q), tq_polling := (if ok then tq_polling q @ [c] else tq_polling q)\<rparr>"

definition ask_lock :: "tm_queue \<Rightarrow> nat \<Rightarrow> tm_queue" where
  "ask_lock q c = q\<lparr>tq_polling := filter (\<lambda>w. w \<noteq> c) (tq_polling q), tq_waiting := tq_waiting q @ [c]\<rparr>"

text \<open>The first waiting connection gets the lock; it gives it up when it cannot tell its peer or the scheduler.\<close>

definition seize_queue :: "(nat \<Rightarrow> socket_addr) \<Rightarrow> tm_queue \<Rightarrow> bool \<Rightarrow> tq_output list \<times> tm_queue" where
  "seize_queue addr q written =
     (case tq_waiting q of
        [] \<Rightarrow> ([], q)
      | c # ws \<Rightarrow>
          if \<not> written then ([], q\<lparr>tq_waiting := ws\<rparr>)
          else if tq_sink_open q then
            ([TQ_Reply c SchedulerFree, TQ_Event c (TE_Connected (addr c))], q\<lparr>tq_waiting := ws, tq_holder := Some c\<rparr>)
          else ([TQ_Reply c SchedulerFree], q\<lparr>tq_waiting := ws\<rparr>))"

definition leave_queue :: "tm_queue \<Rightarrow> nat \<Rightarrow> tm_queue" where
  "leave_queue q c =
     q\<lparr>tq_polling := filter (\<lambda>w. w \<noteq> c) (tq_polling q), tq_waiting := filter (\<lambda>w. w \<noteq> c) (tq_waiting q)\<rparr>"

definition end_session :: "tm_queue \<Rightarrow> nat \<Rightarrow> tq_output list \<times> tm_queue" where
  "end_session q c = ([TQ_Event c TE_Disconnect], q\<lparr>tq_holder := None\<rparr>)"

definition receive_request :: "tm_queue \<Rightarrow> nat \<Rightarrow> scheduler_request \<Rightarrow> bool \<Rightarrow> tq_output list \<times> tm_queue" where
  "receive_request q c message written =
     (if tq_holder q = Some c then ([TQ_Event c (TE_Message message)], q)
      else if written then ([TQ_Reply c SchedulerBusy], q)
      else ([], leave_queue q c))"

text \<open>At the end of the requests the sink of the events is closed already when the disconnection is to be sent.\<close>

definition requests_end :: "tm_queue \<Rightarrow> nat \<Rightarrow> bool \<Rightarrow> bool \<Rightarrow> tq_output list \<times> tm_queue" where
  "requests_end q c eof taken =
     (if tq_holder q = Some c then
        (let q = q\<lparr>tq_responses := (if taken then tl (tq_responses q) else tq_responses q)\<rparr> in
         if eof then ([], q\<lparr>tq_sink_open := False, tq_holder := None\<rparr>) else end_session q c)
      else ([], leave_queue q c))"

definition forward_response :: "tm_queue \<Rightarrow> bool \<Rightarrow> tq_output list \<times> tm_queue" where
  "forward_response q written =
     (case (tq_holder q, tq_responses q) of
        (Some c, r # rs) \<Rightarrow>
          if written then ([TQ_Response c r], q\<lparr>tq_responses := rs\<rparr>) else end_session (q\<lparr>tq_responses := rs\<rparr>) c
      | _ \<Rightarrow> ([], q))"

fun tq_step :: "(nat \<Rightarrow> socket_addr) \<Rightarrow> tm_queue \<Rightarrow> tq_event \<Rightarrow> tq_output list \<times> tm_queue" where
  "tq_step addr q (TQ_Accept c) = ([], accept_connection q c)"
| "tq_step addr q (TQ_Open c ok) = ([], open_connection q c ok)"
| "tq_step addr q (TQ_Ask c) = ([], ask_lock q c)"
| "tq_step addr q (TQ_Seize written) = seize_queue addr q written"
| "tq_step addr q (TQ_Request c message written) = receive_request q c message written"
| "tq_step addr q (TQ_Request_End c eof taken) = requests_end q c eof taken"
| "tq_step addr q (TQ_Respond r) = ([], q\<lparr>tq_responses := tq_responses q @ [r]\<rparr>)"
| "tq_step addr q (TQ_Forward written) = forward_response q written"
| "tq_step addr q TQ_Cancel = ([], q\<lparr>tq_accepting := False, tq_opening := [], tq_polling := [], tq_waiting := [], tq_holder := None\<rparr>)"

text \<open>What can happen in a state.\<close>

fun tq_possible :: "tm_queue \<Rightarrow> tq_event \<Rightarrow> bool" where
  "tq_possible q (TQ_Accept c) \<longleftrightarrow> tq_accepting q \<and> c \<notin> set (tq_accepted q)"
| "tq_possible q (TQ_Open c ok) \<longleftrightarrow> c \<in> set (tq_opening q)"
| "tq_possible q (TQ_Ask c) \<longleftrightarrow> c \<in> set (tq_polling q)"
| "tq_possible q (TQ_Seize written) \<longleftrightarrow> tq_holder q = None \<and> tq_waiting q \<noteq> []"
| "tq_possible q (TQ_Request c message written) \<longleftrightarrow> c \<in> set (tq_polling q) \<union> set (tq_waiting q) \<or> tq_holder q = Some c"
| "tq_possible q (TQ_Request_End c eof taken) \<longleftrightarrow> c \<in> set (tq_polling q) \<union> set (tq_waiting q) \<or> tq_holder q = Some c"
| "tq_possible q (TQ_Respond r) \<longleftrightarrow> True"
| "tq_possible q (TQ_Forward written) \<longleftrightarrow> tq_holder q \<noteq> None \<and> tq_responses q \<noteq> []"
| "tq_possible q TQ_Cancel \<longleftrightarrow> True"

definition tq_exec :: "(nat \<Rightarrow> socket_addr) \<Rightarrow> tm_queue \<Rightarrow> tq_event \<Rightarrow> (tq_output list \<times> tm_queue) option" where
  "tq_exec addr q e = Some (tq_step addr q e)"

section \<open>What is observed\<close>

definition tq_events :: "tq_output list \<Rightarrow> (nat \<times> task_manager_event) list" where
  "tq_events outs = List.map_filter (\<lambda>x. case x of TQ_Event c e \<Rightarrow> Some (c, e) | _ \<Rightarrow> None) outs"

definition tq_replies :: "nat \<Rightarrow> tq_output list \<Rightarrow> scheduler_response list" where
  "tq_replies c outs = List.map_filter (\<lambda>x. case x of
       TQ_Reply d r \<Rightarrow> if d = c then Some r else None
     | TQ_Response d r \<Rightarrow> if d = c then Some r else None
     | _ \<Rightarrow> None) outs"

definition tq_forwarded :: "tq_output list \<Rightarrow> scheduler_response list" where
  "tq_forwarded outs = List.map_filter (\<lambda>x. case x of TQ_Response d r \<Rightarrow> Some r | _ \<Rightarrow> None) outs"

definition tq_connected :: "tq_output list \<Rightarrow> nat list" where
  "tq_connected outs =
     List.map_filter (\<lambda>x. case x of TQ_Event c (TE_Connected _) \<Rightarrow> Some c | _ \<Rightarrow> None) outs"

text \<open>The order in which the connections ask for the lock.\<close>

definition tq_asks :: "tq_event list \<Rightarrow> nat list" where
  "tq_asks es = List.map_filter (\<lambda>e. case e of TQ_Ask c \<Rightarrow> Some c | _ \<Rightarrow> None) es"

definition tq_sent :: "tq_event list \<Rightarrow> scheduler_response list" where
  "tq_sent es = List.map_filter (\<lambda>e. case e of TQ_Respond r \<Rightarrow> Some r | _ \<Rightarrow> None) es"

lemma observed_append [simp]:
  "tq_events (xs @ ys) = tq_events xs @ tq_events ys"
  "tq_replies c (xs @ ys) = tq_replies c xs @ tq_replies c ys"
  "tq_forwarded (xs @ ys) = tq_forwarded xs @ tq_forwarded ys"
  "tq_connected (xs @ ys) = tq_connected xs @ tq_connected ys"
  "tq_sent (es @ fs) = tq_sent es @ tq_sent fs"
  "tq_asks (es @ fs) = tq_asks es @ tq_asks fs"
  by (simp_all add: tq_asks_def tq_events_def tq_replies_def tq_forwarded_def tq_connected_def tq_sent_def List.map_filter_def)

lemmas observed_defs = tq_events_def tq_replies_def tq_forwarded_def tq_connected_def tq_sent_def tq_asks_def List.map_filter_def

lemma observed_Nil [simp]:
  "tq_events [] = []" "tq_replies c [] = []" "tq_forwarded [] = []" "tq_connected [] = []" "tq_sent [] = []"
  "tq_asks [] = []"
  by (simp_all add: observed_defs)

lemma observed_out:
  "tq_events (TQ_Event d e # xs) = (d, e) # tq_events xs" "tq_events (TQ_Reply d r # xs) = tq_events xs"
  "tq_events (TQ_Response d r # xs) = tq_events xs"
  "tq_replies c (TQ_Event d e # xs) = tq_replies c xs"
  "tq_replies c (TQ_Reply d r # xs) = (if d = c then [r] else []) @ tq_replies c xs"
  "tq_replies c (TQ_Response d r # xs) = (if d = c then [r] else []) @ tq_replies c xs"
  "tq_forwarded (TQ_Event d e # xs) = tq_forwarded xs" "tq_forwarded (TQ_Reply d r # xs) = tq_forwarded xs"
  "tq_forwarded (TQ_Response d r # xs) = r # tq_forwarded xs"
  "tq_connected (TQ_Reply d r # xs) = tq_connected xs" "tq_connected (TQ_Response d r # xs) = tq_connected xs"
  "tq_connected (TQ_Event d (TE_Connected a) # xs) = d # tq_connected xs"
  "tq_connected (TQ_Event d TE_Disconnect # xs) = tq_connected xs"
  "tq_connected (TQ_Event d (TE_Message m) # xs) = tq_connected xs"
  by (simp_all add: observed_defs)

lemma observed_sent [simp]:
  "tq_sent [TQ_Accept c] = []" "tq_sent [TQ_Seize b] = []" "tq_sent [TQ_Request c m b] = []" "tq_sent [TQ_Request_End c b b'] = []"
  "tq_sent [TQ_Respond r] = [r]" "tq_sent [TQ_Forward b] = []" "tq_sent [TQ_Cancel] = []" "tq_sent [TQ_Open c b] = []"
  "tq_sent [TQ_Ask c] = []"
  by (simp_all add: observed_defs)

lemma observed_asks [simp]:
  "tq_asks [TQ_Accept c] = []" "tq_asks [TQ_Seize b] = []" "tq_asks [TQ_Request c m b] = []" "tq_asks [TQ_Request_End c b b'] = []"
  "tq_asks [TQ_Respond r] = []" "tq_asks [TQ_Forward b] = []" "tq_asks [TQ_Cancel] = []" "tq_asks [TQ_Open c b] = []"
  "tq_asks [TQ_Ask c] = [c]"
  by (simp_all add: observed_defs)

text \<open>The protocol that the scheduler may rely on: sessions one after the other, each with a connection, its messages and
  a disconnection, all from the same peer. The state is the connection of the open session.\<close>

fun session_event :: "(nat \<Rightarrow> socket_addr) \<Rightarrow> nat option \<Rightarrow> nat \<times> task_manager_event \<Rightarrow> nat option option" where
  "session_event addr None (c, TE_Connected a) = (if a = addr c then Some (Some c) else None)"
| "session_event addr (Some c) (d, TE_Message m) = (if d = c then Some (Some c) else None)"
| "session_event addr (Some c) (d, TE_Disconnect) = (if d = c then Some None else None)"
| "session_event addr _ _ = None"

fun sessions ::
  "(nat \<Rightarrow> socket_addr) \<Rightarrow> nat option \<Rightarrow> (nat \<times> task_manager_event) list \<Rightarrow> nat option option" where
  "sessions addr cur [] = Some cur"
| "sessions addr cur (e # es) = do { cur \<leftarrow> session_event addr cur e; sessions addr cur es }"

lemma sessions_append: "sessions addr cur (es @ fs) = do { cur \<leftarrow> sessions addr cur es; sessions addr cur fs }"
  by (induction es arbitrary: cur) (auto split: bind_splits)

text \<open>What a peer is told: that the scheduler is busy, as often as it sends something while it waits, then that it is free, then
  what the scheduler sends.\<close>

definition peer_view :: "scheduler_response list \<Rightarrow> bool \<Rightarrow> bool" where
  "peer_view rs waiting \<longleftrightarrow>
     (\<exists>k served. rs = replicate k SchedulerBusy @ served \<and>
        (served = [] \<or> \<not> waiting \<and> hd served = SchedulerFree))"

section \<open>The history of a run\<close>

definition tq_wf :: "tm_queue \<Rightarrow> bool" where
  "tq_wf q \<longleftrightarrow>
     distinct (tq_accepted q) \<and> distinct (tq_opening q @ tq_polling q @ tq_waiting q) \<and>
     set (tq_opening q @ tq_polling q @ tq_waiting q) \<subseteq> set (tq_accepted q) \<and>
     (\<forall>c. tq_holder q = Some c \<longrightarrow>
        c \<in> set (tq_accepted q) \<and> c \<notin> set (tq_opening q @ tq_polling q @ tq_waiting q) \<and> tq_sink_open q) \<and>
     (\<not> tq_accepting q \<longrightarrow> tq_opening q = [] \<and> tq_polling q = [] \<and> tq_waiting q = [] \<and> tq_holder q = None)"

text \<open>By the phase of a connection: not accepted or not open yet, waiting, attached, gone.\<close>

definition told :: "tm_queue \<Rightarrow> nat \<Rightarrow> scheduler_response list \<Rightarrow> bool" where
  "told q c rs \<longleftrightarrow>
     (if c \<notin> set (tq_accepted q) \<or> c \<in> set (tq_opening q) then rs = []
      else if c \<in> set (tq_polling q) \<union> set (tq_waiting q) then (\<exists>k. rs = replicate k SchedulerBusy)
      else if tq_holder q = Some c then (\<exists>k served. rs = replicate k SchedulerBusy @ SchedulerFree # served)
      else peer_view rs False)"

text \<open>A connection that has asked for the lock is past the other phases for good.\<close>

definition asks_ok :: "tm_queue \<Rightarrow> nat list \<Rightarrow> bool" where
  "asks_ok q asks \<longleftrightarrow> distinct asks \<and> set asks \<subseteq> set (tq_accepted q) - set (tq_opening q) - set (tq_polling q)"

definition tq_history :: "(nat \<Rightarrow> socket_addr) \<Rightarrow> tq_event list \<Rightarrow> tq_output list \<Rightarrow> tm_queue \<Rightarrow> bool" where
  "tq_history addr es outs q \<longleftrightarrow> tq_wf q \<and>
     (\<exists>cur. sessions addr None (tq_events outs) = Some cur \<and> (tq_accepting q \<and> tq_sink_open q \<longrightarrow> cur = tq_holder q)) \<and>
     (\<forall>c. told q c (tq_replies c outs)) \<and>
     asks_ok q (tq_asks es) \<and>
     subseq (tq_connected outs @ tq_waiting q) (tq_asks es) \<and>
     subseq (tq_forwarded outs @ tq_responses q) (tq_sent es)"

lemma told_gone:
  assumes "told q c rs"
  shows "peer_view rs False"
proof -
  consider "rs = []" | k where "rs = replicate k SchedulerBusy" | k served where "rs = replicate k SchedulerBusy @ SchedulerFree # served"
    | "peer_view rs False" using assms by (auto simp: told_def split: if_splits)
  then show ?thesis
  proof cases
    case 1
    then show ?thesis by (auto simp: peer_view_def)
  next
    case 2
    then show ?thesis unfolding peer_view_def by (metis append_Nil2)
  next
    case 3
    then show ?thesis unfolding peer_view_def by (metis list.sel(1))
  qed
qed

lemma told_busy:
  assumes "told q c rs" "tq_wf q" "c \<in> set (tq_polling q) \<union> set (tq_waiting q)"
  shows "\<exists>k. rs @ [SchedulerBusy] = replicate k SchedulerBusy"
proof -
  obtain k where "rs = replicate k SchedulerBusy" using assms by (auto simp: told_def tq_wf_def split: if_splits)
  then show ?thesis by (intro exI[of _ "Suc k"]) (simp add: replicate_append_same)
qed

lemma history_start: "tq_history addr [] [] tq_start"
  by (simp add: tq_history_def tq_wf_def told_def tq_start_def asks_ok_def)

lemma history_accept:
  assumes "tq_history addr es outs q" "c \<notin> set (tq_accepted q)" "tq_accepting q"
  shows "tq_history addr (es @ [TQ_Accept c]) outs (accept_connection q c)"
proof -
  have "told (accept_connection q c) d (tq_replies d outs)" for d
    using assms by (auto simp: tq_history_def told_def accept_connection_def tq_wf_def split: if_splits)
  moreover have "tq_wf (accept_connection q c)" using assms by (auto simp: tq_history_def tq_wf_def accept_connection_def)
  moreover have "asks_ok (accept_connection q c) (tq_asks es)"
    using assms by (auto simp: tq_history_def asks_ok_def accept_connection_def)
  ultimately show ?thesis using assms(1) by (simp add: tq_history_def accept_connection_def)
qed

lemma history_open:
  assumes "tq_history addr es outs q" "c \<in> set (tq_opening q)"
  shows "tq_history addr (es @ [TQ_Open c ok]) outs (open_connection q c ok)"
proof -
  have wf: "tq_wf q" and t: "\<And>d. told q d (tq_replies d outs)" and a: "asks_ok q (tq_asks es)"
    using assms(1) by (simp_all add: tq_history_def)
  have "told (open_connection q c ok) d (tq_replies d outs)" for d
    using t[of d] wf assms(2) told_gone[OF t[of d]] by (auto simp: told_def open_connection_def tq_wf_def split: if_splits)
  moreover have "tq_wf (open_connection q c ok)" using wf assms(2) by (auto simp: tq_wf_def open_connection_def)
  moreover have "asks_ok (open_connection q c ok) (tq_asks es)"
    using a assms(2) by (auto simp: asks_ok_def open_connection_def)
  ultimately show ?thesis using assms(1) by (simp add: tq_history_def open_connection_def)
qed

lemma history_ask:
  assumes "tq_history addr es outs q" "c \<in> set (tq_polling q)"
  shows "tq_history addr (es @ [TQ_Ask c]) outs (ask_lock q c)"
proof -
  have wf: "tq_wf q" and t: "\<And>d. told q d (tq_replies d outs)" and a: "asks_ok q (tq_asks es)"
    using assms(1) by (simp_all add: tq_history_def)
  have "told (ask_lock q c) d (tq_replies d outs)" for d
    using t[of d] wf assms(2) by (auto simp: told_def ask_lock_def tq_wf_def split: if_splits)
  moreover have "tq_wf (ask_lock q c)" using wf assms(2) by (auto simp: tq_wf_def ask_lock_def)
  moreover have "asks_ok (ask_lock q c) (tq_asks es @ [c])"
    using a wf assms(2) by (auto simp: asks_ok_def ask_lock_def tq_wf_def)
  moreover have "subseq (tq_connected outs @ tq_waiting q @ [c]) (tq_asks es @ [c])"
    using assms(1) list_emb_append_mono[of "(=)" "tq_connected outs @ tq_waiting q" "tq_asks es" "[c]" "[c]"]
    by (simp add: tq_history_def)
  ultimately show ?thesis using assms(1) by (simp add: tq_history_def ask_lock_def)
qed

text \<open>A connection that leaves the queue or gives up the lock is gone; the others are as they were.\<close>

lemma told_leaves:
  assumes "told q d rs" "tq_accepted q' = tq_accepted q" "tq_opening q' = tq_opening q" "tq_holder q' \<noteq> Some c"
    "c \<notin> set (tq_polling q') \<union> set (tq_waiting q')"
    "\<And>x. x \<noteq> c \<Longrightarrow> x \<in> set (tq_polling q') \<union> set (tq_waiting q') \<longleftrightarrow> x \<in> set (tq_polling q) \<union> set (tq_waiting q)"
    "\<And>x. x \<noteq> c \<Longrightarrow> tq_holder q' = Some x \<longleftrightarrow> tq_holder q = Some x"
  shows "told q' d rs"
proof (cases "d = c")
  case True
  then show ?thesis using told_gone[OF assms(1)] assms(1-5) by (auto simp: told_def split: if_splits)
next
  case False
  then show ?thesis using assms(1) by (simp only: told_def assms(2,3) assms(6,7)[OF False])
qed

lemma history_leave:
  assumes "tq_history addr es outs q" "c \<in> set (tq_polling q) \<union> set (tq_waiting q)"
  shows "tq_history addr es outs (leave_queue q c)"
proof -
  have wf: "tq_wf q" using assms(1) by (simp add: tq_history_def)
  have nh: "tq_holder q \<noteq> Some c" using wf assms(2) by (auto simp: tq_wf_def)
  have t: "told q d (tq_replies d outs)" for d using assms(1) by (simp add: tq_history_def)
  have "told (leave_queue q c) d (tq_replies d outs)" for d
    by (rule told_leaves[OF t, of _ c]) (use nh in \<open>auto simp: leave_queue_def\<close>)
  moreover have "tq_wf (leave_queue q c)" using wf by (auto simp: tq_wf_def leave_queue_def)
  moreover have "asks_ok (leave_queue q c) (tq_asks es)"
    using assms(1) by (auto simp: tq_history_def asks_ok_def leave_queue_def)
  moreover have "subseq (tq_connected outs @ filter (\<lambda>w. w \<noteq> c) (tq_waiting q)) (tq_asks es)"
    using assms(1) subseq_order.trans[OF list_emb_append_mono[OF subseq_order.refl subseq_filter_left]]
    by (auto simp: tq_history_def)
  ultimately show ?thesis using assms(1) by (simp add: tq_history_def leave_queue_def)
qed

lemma history_end:
  assumes "tq_history addr es outs q" "tq_holder q = Some c" "end_session q c = (out, q')"
  shows "tq_history addr es (outs @ out) q'"
proof -
  have wf: "tq_wf q" using assms(1) by (simp add: tq_history_def)
  then have acc: "tq_accepting q" "tq_sink_open q" using assms by (auto simp: tq_wf_def)
  have q': "q' = q\<lparr>tq_holder := None\<rparr>" "out = [TQ_Event c TE_Disconnect]" using assms(3) by (simp_all add: end_session_def)
  have nw: "c \<notin> set (tq_polling q) \<union> set (tq_waiting q)" using wf assms(2) by (simp add: tq_wf_def)
  have t: "told q d (tq_replies d outs)" for d using assms(1) by (simp add: tq_history_def)
  have "told q' d (tq_replies d outs)" for d
    by (rule told_leaves[OF t, of _ c]) (use nw assms(2) in \<open>auto simp: q'\<close>)
  moreover have "tq_wf q'" using wf by (simp add: tq_wf_def q')
  moreover have "sessions addr None (tq_events outs @ [(c, TE_Disconnect)]) = Some None"
    using assms(1,2) acc by (simp add: tq_history_def sessions_append)
  ultimately show ?thesis using assms(1) by (simp add: tq_history_def q' observed_out asks_ok_def)
qed

lemma history_drop:
  assumes "tq_history addr es outs q" "subseq rs (tq_responses q)"
  shows "tq_history addr es outs (q\<lparr>tq_responses := rs\<rparr>)"
  using assms subseq_order.trans[OF list_emb_append_mono[OF subseq_order.refl assms(2)], of "tq_forwarded outs"]
  by (auto simp: tq_history_def tq_wf_def told_def asks_ok_def)

lemma history_seize:
  assumes "tq_history addr es outs q" "tq_waiting q = c # ws" "tq_holder q = None" "tq_sink_open q"
  shows "tq_history addr es (outs @ [TQ_Reply c SchedulerFree, TQ_Event c (TE_Connected (addr c))])
    (q\<lparr>tq_waiting := ws, tq_holder := Some c\<rparr>)" (is "tq_history _ _ ?outs ?q")
proof -
  have wf: "tq_wf q" using assms(1) by (simp add: tq_history_def)
  then have acc: "tq_accepting q" "tq_sink_open q" using assms by (auto simp: tq_wf_def)
  have "told ?q d (tq_replies d ?outs)" for d
  proof (cases "d = c")
    case True
    have "told q c (tq_replies c outs)" using assms(1) by (simp add: tq_history_def)
    then obtain k where "tq_replies c outs = replicate k SchedulerBusy" using wf assms(2) by (auto simp: told_def tq_wf_def split: if_splits)
    then show ?thesis using wf True assms(2) by (auto simp: told_def observed_out tq_wf_def)
  next
    case False
    have "told q d (tq_replies d outs)" using assms(1) by (simp add: tq_history_def)
    then show ?thesis using False assms(2,3) by (auto simp: told_def observed_out split: if_splits)
  qed
  moreover have "tq_wf ?q" using wf assms(2) acc by (auto simp: tq_wf_def)
  moreover have "sessions addr None (tq_events outs @ [(c, TE_Connected (addr c))]) = Some (Some c)"
    using assms(1,3) acc by (simp add: tq_history_def sessions_append)
  ultimately show ?thesis using assms(1,2) by (simp add: tq_history_def observed_out asks_ok_def)
qed

text \<open>With a closed sink the connection whose turn it is only tells its peer.\<close>

lemma history_refused:
  assumes "tq_history addr es outs q" "tq_waiting q = c # ws" "tq_holder q = None"
  shows "tq_history addr es (outs @ [TQ_Reply c SchedulerFree]) (q\<lparr>tq_waiting := ws\<rparr>)" (is "tq_history _ _ ?outs ?q")
proof -
  have wf: "tq_wf q" and t: "\<And>d. told q d (tq_replies d outs)" using assms(1) by (simp_all add: tq_history_def)
  obtain k where k: "tq_replies c outs = replicate k SchedulerBusy"
    using t[of c] wf assms(2) by (auto simp: told_def tq_wf_def split: if_splits)
  have "peer_view (replicate k SchedulerBusy @ [SchedulerFree]) False" unfolding peer_view_def by (metis list.sel(1))
  then have "told ?q d (tq_replies d ?outs)" for d
    using t[of d] wf assms(2,3) k by (auto simp: told_def observed_out tq_wf_def)
  moreover have "tq_wf ?q" using wf assms(2,3) by (auto simp: tq_wf_def)
  moreover have "subseq (tq_connected outs @ c # ws) (tq_asks es)" using assms(1,2) by (simp add: tq_history_def)
  then have "subseq (tq_connected outs @ ws) (tq_asks es)"
    by (rule subseq_order.trans[OF list_emb_append_mono[OF subseq_order.refl list_emb_Cons[OF subseq_order.refl]]])
  ultimately show ?thesis using assms(1) by (simp add: tq_history_def observed_out asks_ok_def)
qed

lemma history_closed:
  assumes "tq_history addr es outs q" "tq_holder q = Some c"
  shows "tq_history addr es outs (q\<lparr>tq_sink_open := False, tq_holder := None\<rparr>)" (is "tq_history _ _ _ ?q")
proof -
  have wf: "tq_wf q" and t: "\<And>d. told q d (tq_replies d outs)" using assms(1) by (simp_all add: tq_history_def)
  have nw: "c \<notin> set (tq_polling q) \<union> set (tq_waiting q)" using wf assms(2) by (simp add: tq_wf_def)
  have "told ?q d (tq_replies d outs)" for d
    by (rule told_leaves[OF t, of _ c]) (use nw assms(2) in auto)
  moreover have "tq_wf ?q" using wf by (simp add: tq_wf_def)
  ultimately show ?thesis using assms(1) by (auto simp: tq_history_def asks_ok_def)
qed

lemma history_reply:
  assumes "tq_history addr es outs q" "c \<in> set (tq_polling q) \<union> set (tq_waiting q)"
  shows "tq_history addr es (outs @ [TQ_Reply c SchedulerBusy]) q"
proof -
  have wf: "tq_wf q" and t: "\<And>d. told q d (tq_replies d outs)" using assms(1) by (simp_all add: tq_history_def)
  have "told q d (tq_replies d (outs @ [TQ_Reply c SchedulerBusy]))" for d
    using t[of d] told_busy[OF t wf assms(2)] wf assms(2) by (auto simp: observed_out told_def tq_wf_def)
  then show ?thesis using assms(1) by (simp add: tq_history_def observed_out)
qed

lemma history_message:
  assumes "tq_history addr es outs q" "tq_holder q = Some c"
  shows "tq_history addr es (outs @ [TQ_Event c (TE_Message m)]) q"
proof -
  have "tq_accepting q" "tq_sink_open q" using assms by (auto simp: tq_history_def tq_wf_def)
  then have "sessions addr None (tq_events outs @ [(c, TE_Message m)]) = Some (tq_holder q)"
    using assms by (simp add: tq_history_def sessions_append)
  then show ?thesis using assms(1) by (simp add: tq_history_def observed_out)
qed

lemma history_forward:
  assumes "tq_history addr es outs q" "tq_holder q = Some c" "tq_responses q = r # rs"
  shows "tq_history addr es (outs @ [TQ_Response c r]) (q\<lparr>tq_responses := rs\<rparr>)"
proof -
  have t: "\<And>d. told q d (tq_replies d outs)" and wf: "tq_wf q" using assms(1) by (simp_all add: tq_history_def)
  obtain k served where "tq_replies c outs = replicate k SchedulerBusy @ SchedulerFree # served"
    using t[of c] assms(2) wf by (auto simp: told_def tq_wf_def split: if_splits)
  then have "\<exists>k served. tq_replies c outs @ [r] = replicate k SchedulerBusy @ SchedulerFree # served"
    by (intro exI[of _ k] exI[of _ "served @ [r]"]) simp
  then have "told (q\<lparr>tq_responses := rs\<rparr>) d (tq_replies d (outs @ [TQ_Response c r]))" for d
    using t[of d] assms(2) wf by (auto simp: told_def observed_out tq_wf_def)
  then show ?thesis using assms(1,3) wf by (simp add: tq_history_def observed_out tq_wf_def asks_ok_def)
qed

lemma history_step:
  assumes "tq_history addr es outs q" "tq_possible q e" "tq_step addr q e = (out, q')"
  shows "tq_history addr (es @ [e]) (outs @ out) q'"
proof -
  have more: "tq_history addr (es @ [e]) outs' q''" if "tq_history addr es outs' q''" "tq_sent [e] = []" "tq_asks [e] = []" for outs' q''
    using that by (simp add: tq_history_def)
  show ?thesis
  proof (cases e)
    case (TQ_Accept c)
    then show ?thesis using assms history_accept[OF assms(1)] by auto
  next
    case (TQ_Open c ok)
    then show ?thesis using assms history_open[OF assms(1)] by auto
  next
    case (TQ_Ask c)
    then show ?thesis using assms history_ask[OF assms(1)] by auto
  next
    case (TQ_Seize w)
    then obtain c ws where c: "tq_waiting q = c # ws" "tq_holder q = None" using assms(2) by (cases "tq_waiting q") auto
    show ?thesis
    proof (cases w)
      case True
      then show ?thesis using more[OF history_seize[OF assms(1) c]] more[OF history_refused[OF assms(1) c]] assms(3)
        by (cases "tq_sink_open q") (auto simp: TQ_Seize seize_queue_def c(1))
    next
      case False
      have "distinct (tq_polling q @ c # ws)" using assms(1) by (simp add: tq_history_def tq_wf_def flip: c(1))
      then have "filter (\<lambda>w. w \<noteq> c) ws = ws" "filter (\<lambda>w. w \<noteq> c) (tq_polling q) = tq_polling q" by (auto intro!: filter_True)
      then have "leave_queue q c = q\<lparr>tq_waiting := ws\<rparr>" by (simp add: leave_queue_def c(1))
      then show ?thesis using False more[OF history_leave[OF assms(1), of c]] assms(3) by (auto simp: TQ_Seize seize_queue_def c(1))
    qed
  next
    case (TQ_Request c m w)
    then show ?thesis using assms(2,3) more[OF history_message[OF assms(1)]] more[OF history_reply[OF assms(1)]]
        more[OF history_leave[OF assms(1)]] by (auto simp: receive_request_def split: if_splits)
  next
    case (TQ_Request_End c eof t)
    have "subseq (if t then tl (tq_responses q) else tq_responses q) (tq_responses q)"
      by (cases "tq_responses q") auto
    from history_drop[OF assms(1) this] TQ_Request_End show ?thesis
      using assms(2,3) more[OF history_end] more[OF history_closed] more[OF history_leave[OF assms(1)]]
      by (auto simp: requests_end_def Let_def split: if_splits)
  next
    case (TQ_Respond r)
    have "tq_history addr (es @ [e]) outs (q\<lparr>tq_responses := tq_responses q @ [r]\<rparr>)"
      using assms(1) list_emb_append_mono[of "(=)" "tq_forwarded outs @ tq_responses q" "tq_sent es" "[r]" "[r]"]
      by (simp add: tq_history_def TQ_Respond tq_wf_def told_def asks_ok_def)
    then show ?thesis using assms(3) by (auto simp: TQ_Respond)
  next
    case (TQ_Forward w)
    then obtain c r rs where c: "tq_holder q = Some c" "tq_responses q = r # rs" using assms(2) by (cases "tq_responses q") auto
    have d: "tq_history addr es outs (q\<lparr>tq_responses := rs\<rparr>)" by (rule history_drop[OF assms(1)]) (auto simp: c(2))
    show ?thesis using more[OF history_forward[OF assms(1) c]] more[OF history_end[OF d]] assms(3)
      by (cases w) (auto simp: TQ_Forward forward_response_def c)
  next
    case TQ_Cancel
    have "told q' d (tq_replies d outs)" for d
      using assms(1,3) told_gone[of q d] by (auto simp: TQ_Cancel tq_history_def told_def)
    moreover have "subseq (tq_connected outs @ tq_waiting q) (tq_asks es)" using assms(1) by (simp add: tq_history_def)
    then have "subseq (tq_connected outs) (tq_asks es)"
      by (rule subseq_order.trans[OF list_emb_prefix[OF subseq_order.refl]])
    ultimately show ?thesis using assms(1,3) by (auto simp: TQ_Cancel tq_history_def tq_wf_def asks_ok_def)
  qed
qed

lemma run_history: "event_run tq_possible (tq_exec addr) tq_start es outs q \<Longrightarrow> tq_history addr es outs q"
proof (induction rule: event_run.induct)
  case run_init
  show ?case by (rule history_start)
next
  case (run_event es outs q e out q')
  then show ?case using history_step by (simp add: tq_exec_def)
qed

section \<open>After the sink is closed\<close>

definition tq_shut :: "tm_queue \<Rightarrow> bool" where
  "tq_shut q \<longleftrightarrow> \<not> tq_sink_open q \<and> tq_holder q = None"

lemma shut_step:
  assumes "tq_shut q" "tq_step addr q e = (out, q')"
  shows "tq_shut q' \<and> tq_events out = []"
  using assms
  by (cases e) (auto simp: tq_shut_def accept_connection_def open_connection_def ask_lock_def seize_queue_def receive_request_def requests_end_def leave_queue_def
      forward_response_def observed_out split: list.splits if_splits)

lemma shut_run:
  "tq_shut q \<Longrightarrow> exec_events tq_possible (tq_exec addr) q es = Some (outs, q') \<Longrightarrow> tq_shut q' \<and> tq_events outs = []"
proof (induction es arbitrary: q outs)
  case (Cons e es)
  obtain out q1 where s: "tq_step addr q e = (out, q1)" by fastforce
  then show ?case using Cons.IH[of q1] Cons.prems shut_step[OF Cons.prems(1) s]
    by (auto simp: tq_exec_def split: if_splits bind_splits)
qed simp

section \<open>Properties\<close>

text \<open>C11. Task managers use a scheduler one after the other: whatever they send and whenever their connections end, the scheduler sees sessions
  that do not overlap, each a connection with the peer's address, messages of this peer only and a disconnection; a peer is told that
  the scheduler is busy until it is its turn, then that it is free, and only then gets responses; every connection asks for the lock at most once, and the
  turns are in the order in which the connections asked for it; and no response is forwarded twice or out of order.\<close>

theorem task_managers_take_turns:
  assumes "event_run tq_possible (tq_exec addr) tq_start es outs q"
  shows "(\<exists>cur. sessions addr None (tq_events outs) = Some cur \<and> (tq_accepting q \<and> tq_sink_open q \<longrightarrow> cur = tq_holder q)) \<and>
    (\<forall>c. \<exists>k served. tq_replies c outs = replicate k SchedulerBusy @ served \<and>
       (served = [] \<or> c \<notin> set (tq_opening q @ tq_polling q @ tq_waiting q) \<and> hd served = SchedulerFree)) \<and>
    distinct (tq_asks es) \<and> set (tq_asks es) \<subseteq> set (tq_accepted q) \<and>
    subseq (tq_connected outs @ tq_waiting q) (tq_asks es) \<and>
    subseq (tq_forwarded outs @ tq_responses q) (tq_sent es)"
proof -
  note h = run_history[OF assms]
  have wf: "tq_wf q" and t: "\<And>c. told q c (tq_replies c outs)" using h by (simp_all add: tq_history_def)
  have "\<exists>k served. tq_replies c outs = replicate k SchedulerBusy @ served \<and>
       (served = [] \<or> c \<notin> set (tq_opening q @ tq_polling q @ tq_waiting q) \<and> hd served = SchedulerFree)" for c
  proof (cases "c \<in> set (tq_opening q @ tq_polling q @ tq_waiting q)")
    case True
    then show ?thesis using t[of c] wf by (auto simp: told_def tq_wf_def split: if_splits)
  next
    case False
    then show ?thesis using told_gone[OF t[of c]] by (auto simp: peer_view_def)
  qed
  then show ?thesis using h by (auto simp: tq_history_def asks_ok_def)
qed

text \<open>Three task managers: the third is accepted last and asks for the lock before the second, which has its request answered before it asks;
  the fourth fails to open.\<close>

definition three_managers :: "tq_event list" where
  "three_managers =
     [TQ_Accept 1, TQ_Open 1 True, TQ_Ask 1, TQ_Seize True, TQ_Accept 2, TQ_Accept 3, TQ_Accept 4, TQ_Open 4 False, TQ_Open 2 True,
      TQ_Open 3 True, TQ_Request 2 SR_HelloMessage True, TQ_Ask 3, TQ_Ask 2, TQ_Request 1 SR_HelloMessage True,
      TQ_Respond (TaskResults []), TQ_Request_End 1 False False, TQ_Seize True, TQ_Forward True]"

definition three_managers_outs :: "tq_output list" where
  "three_managers_outs =
     [TQ_Reply 1 SchedulerFree, TQ_Event 1 (TE_Connected 11), TQ_Reply 2 SchedulerBusy, TQ_Event 1 (TE_Message SR_HelloMessage),
      TQ_Event 1 TE_Disconnect, TQ_Reply 3 SchedulerFree, TQ_Event 3 (TE_Connected 13), TQ_Response 3 (TaskResults [])]"

definition three_managers_queue :: tm_queue where
  "three_managers_queue = \<lparr>tq_accepting = True, tq_sink_open = True, tq_accepted = [1, 2, 3, 4], tq_opening = [], tq_polling = [],
     tq_waiting = [2], tq_holder = Some 3, tq_responses = []\<rparr>"

lemma three_managers_run:
  "event_run tq_possible (tq_exec (\<lambda>c. c + 10)) tq_start three_managers three_managers_outs three_managers_queue"
proof -
  have "exec_events tq_possible (tq_exec (\<lambda>c. c + 10)) tq_start three_managers = Some (three_managers_outs, three_managers_queue)"
    by (simp add: three_managers_def three_managers_outs_def three_managers_queue_def tq_exec_def tq_start_def accept_connection_def
        open_connection_def ask_lock_def seize_queue_def receive_request_def requests_end_def end_session_def forward_response_def)
  from exec_events_run[OF run_init this] show ?thesis by simp
qed

theorem task_managers_take_turns_witness:
  "sessions (\<lambda>c. c + 10) None (tq_events three_managers_outs) = Some (Some 3) \<and>
   subseq (tq_connected three_managers_outs @ [2]) [1, 3, 2] \<and>
   tq_replies 3 three_managers_outs = [SchedulerFree, TaskResults []]"
proof -
  note t = task_managers_take_turns[OF three_managers_run]
  have "sessions (\<lambda>c. c + 10) None (tq_events three_managers_outs) = Some (Some 3)"
    using conjunct1[OF t] by (auto simp: three_managers_queue_def)
  moreover have "tq_asks three_managers = [1, 3, 2]" by (simp add: three_managers_def observed_defs)
  with t have "subseq (tq_connected three_managers_outs @ [2]) [1, 3, 2]" by (simp add: three_managers_queue_def)
  moreover have "tq_replies 3 three_managers_outs = [SchedulerFree, TaskResults []]"
    by (simp add: three_managers_outs_def observed_out)
  ultimately show ?thesis by blast
qed

text \<open>C40. A task manager that ends its requests in order takes the scheduler down with it: its disconnection is not reported, the scheduler
  goes on to take its session for open, and whatever happens afterwards, no event of any task manager reaches the scheduler again,
  although each of them is told in its turn that the scheduler is free.\<close>

theorem orderly_end_shuts_scheduler:
  assumes "event_run tq_possible (tq_exec addr) tq_start es outs q" and "tq_holder q = Some c"
    and "exec_events tq_possible (tq_exec addr) q (TQ_Request_End c True taken # later) = Some (outs', q')"
  shows "tq_events outs' = [] \<and> tq_holder q' = None \<and> sessions addr None (tq_events (outs @ outs')) = Some (Some c)"
proof -
  have h: "tq_history addr es outs q" by (rule run_history[OF assms(1)])
  then have "tq_accepting q" "tq_sink_open q" using assms(2) by (auto simp: tq_history_def tq_wf_def)
  then have cur: "sessions addr None (tq_events outs) = Some (Some c)" using h assms(2) by (auto simp: tq_history_def)
  let ?q = "q\<lparr>tq_responses := (if taken then tl (tq_responses q) else tq_responses q), tq_sink_open := False, tq_holder := None\<rparr>"
  have "exec_events tq_possible (tq_exec addr) ?q later = Some (outs', q')"
    using assms(2,3) by (auto simp: tq_exec_def requests_end_def Let_def split: if_splits bind_splits)
  from shut_run[OF _ this] have "tq_shut q' \<and> tq_events outs' = []" by (simp add: tq_shut_def)
  then show ?thesis using cur by (simp add: tq_shut_def)
qed

definition shut_queue :: tm_queue where
  "shut_queue = \<lparr>tq_accepting = True, tq_sink_open = False, tq_accepted = [1, 2, 3, 4], tq_opening = [], tq_polling = [],
     tq_waiting = [], tq_holder = None, tq_responses = []\<rparr>"

theorem orderly_end_shuts_scheduler_witness:
  "\<exists>outs'. exec_events tq_possible (tq_exec (\<lambda>c. c + 10)) three_managers_queue [TQ_Request_End 3 True False, TQ_Seize True] =
      Some (outs', shut_queue) \<and>
    tq_replies 2 outs' = [SchedulerFree] \<and> tq_events outs' = [] \<and>
    sessions (\<lambda>c. c + 10) None (tq_events (three_managers_outs @ outs')) = Some (Some 3)"
proof -
  have ex: "exec_events tq_possible (tq_exec (\<lambda>c. c + 10)) three_managers_queue [TQ_Request_End 3 True False, TQ_Seize True] =
      Some ([TQ_Reply 2 SchedulerFree], shut_queue)"
    by (simp add: tq_exec_def seize_queue_def requests_end_def three_managers_queue_def shut_queue_def)
  have c: "tq_holder three_managers_queue = Some 3" by (simp add: three_managers_queue_def)
  note t = orderly_end_shuts_scheduler[OF three_managers_run c ex]
  show ?thesis
    by (rule exI[of _ "[TQ_Reply 2 SchedulerFree]"]) (use ex t in \<open>simp add: observed_out del: exec_events.simps\<close>)
qed

text \<open>The channel of responses is not emptied between sessions: what the scheduler had sent to one task manager when its connection ended
  is forwarded to the next one, as the last response of this run.\<close>

lemma response_reaches_next_manager:
  "\<exists>q. event_run tq_possible (tq_exec (\<lambda>c. c + 10)) tq_start three_managers three_managers_outs q \<and>
     (\<forall>es1 r es2. three_managers = es1 @ TQ_Respond r # es2 \<longrightarrow> TQ_Request_End 1 False False \<in> set es2) \<and>
     TaskResults [] \<in> set (tq_replies 3 three_managers_outs)"
proof -
  have "TQ_Request_End 1 False False \<in> set es2" if "three_managers = es1 @ TQ_Respond r # es2" for es1 r es2
    using that by (auto simp: three_managers_def Cons_eq_append_conv)
  then show ?thesis using three_managers_run by (auto simp: three_managers_outs_def observed_out)
qed

end
